(* ===== verification/Prelude.thy ===== *)
theory Prelude
  imports Main "HOL-Library.Word"
begin

text \<open>
  Shared vocabulary of the development: the machine-integer types of the Rust code, the
  operations of \<open>std\<close> that the sources use on \<open>Vec\<close>, \<open>Option\<close> and \<open>u64\<close>, and the generic
  lemmas on lists, maps and words that the component theories rely on.

  A \<open>Vec\<close> is a list and a \<open>usize\<close> length or index is a \<open>nat\<close>: an allocation always succeeds and
  no \<open>Vec\<close> reaches the length \<open>2 ^ 64\<close>.  A \<open>u64\<close> value that the code computes with (keys,
  resource ids, task ids, deadlines, clock readings) is a \<open>64 word\<close>.
\<close>

unbundle bit_operations_syntax

section \<open>Types\<close>

type_synonym u64 = "64 word"

abbreviation u64_max :: u64 where
  "u64_max \<equiv> - 1"

text \<open>Facts that move a goal about \<open>u64\<close> values to \<open>nat\<close>, where linear arithmetic applies.\<close>

named_theorems u64_nat \<open>u64 operations read as nat\<close>

section \<open>The parts of std that the sources use\<close>

text \<open>\<open>Vec::resize\<close> and \<open>Vec::resize_with\<close> with a constant closure.\<close>

definition vec_resize :: "nat \<Rightarrow> 'a \<Rightarrow> 'a list \<Rightarrow> 'a list" where
  "vec_resize n x xs = take n xs @ replicate (n - length xs) x"

text \<open>\<open>slice::rotate_right\<close>, for \<open>k \<le> xs.len()\<close> as its callers guarantee.\<close>

definition rotate_right :: "nat \<Rightarrow> 'a list \<Rightarrow> 'a list" where
  "rotate_right k xs = drop (length xs - k) xs @ take (length xs - k) xs"

text \<open>\<open>Vec::swap_remove\<close>: the last element takes the place of the removed one.\<close>

definition swap_remove :: "nat \<Rightarrow> 'a list \<Rightarrow> 'a list" where
  "swap_remove i xs = butlast (xs[i := last xs])"

text \<open>\<open>u64::wrapping_sub\<close> and the saturating operations.\<close>

definition wrapping_sub_u64 :: "u64 \<Rightarrow> u64 \<Rightarrow> u64" where
  "wrapping_sub_u64 a b = a - b"

definition saturating_add_u64 :: "u64 \<Rightarrow> u64 \<Rightarrow> u64" where
  "saturating_add_u64 a b = (if unat a + unat b < 2 ^ 64 then a + b else u64_max)"

definition saturating_sub_u64 :: "u64 \<Rightarrow> u64 \<Rightarrow> u64" where
  "saturating_sub_u64 a b = (if b \<le> a then a - b else 0)"

section \<open>Lists\<close>

lemma length_vec_resize [simp]: "length (vec_resize n x xs) = n"
  by (simp add: vec_resize_def)

lemma nth_vec_resize:
  "i < n \<Longrightarrow> vec_resize n x xs ! i = (if i < length xs then xs ! i else x)"
  by (auto simp: vec_resize_def nth_append min_def)

lemma rotate_right_append: "rotate_right (length ys) (xs @ ys) = ys @ xs"
  by (simp add: rotate_right_def)

lemma length_swap_remove [simp]: "length (swap_remove i xs) = length xs - 1"
  by (simp add: swap_remove_def)

lemma nth_swap_remove:
  assumes "i < length xs - 1" "j < length xs"
  shows "swap_remove j xs ! i = (if i = j then last xs else xs ! i)"
  using assms by (simp add: swap_remove_def nth_butlast)

lemma last_conv_nth': "xs \<noteq> [] \<Longrightarrow> last xs = xs ! (length xs - 1)"
  by (simp add: last_conv_nth)

lemma last_nth_of: "i < length xs \<Longrightarrow> last xs = xs ! (length xs - Suc 0)"
  by (cases xs) (auto simp: last_conv_nth)

lemma butlast_set_last:
  "xs \<noteq> [] \<Longrightarrow> set xs = insert (last xs) (set (butlast xs))"
  by (cases xs rule: rev_cases) auto

section \<open>Windows of option slots\<close>

text \<open>
  \<open>Slab\<close> and \<open>VecMap\<close> store key \<open>off + i\<close> in slot \<open>i\<close> of a list of option slots: the partial map such
  a window stands for, and how it changes when the window grows or one slot is written.
\<close>

definition window :: "nat \<Rightarrow> 'v option list \<Rightarrow> nat \<Rightarrow> 'v option" where
  "window off xs k = (if off \<le> k \<and> k - off < length xs then xs ! (k - off) else None)"

lemma window_Nil [simp]: "window off [] = Map.empty"
  by (rule ext) (simp add: window_def)

lemma window_prepend:
  "d \<le> off \<Longrightarrow> window (off - d) (replicate d None @ xs) = window off xs"
  by (rule ext) (auto simp: window_def nth_append)

lemma window_resize:
  "length xs \<le> n \<Longrightarrow> window off (vec_resize n None xs) = window off xs"
  by (rule ext) (auto simp: window_def nth_vec_resize)

lemma window_update:
  "off \<le> k \<Longrightarrow> k - off < length xs \<Longrightarrow> window off (xs[k - off := v]) = (window off xs)(k := v)"
  by (rule ext) (auto simp: window_def nth_list_update)

section \<open>Words read as natural numbers\<close>

lemma unat_u64_less: "unat (w :: u64) < 18446744073709551616"
proof -
  have "unat w < 2 ^ LENGTH(64)" by (rule unsigned_less)
  then show ?thesis by simp
qed

lemma unat_drop_bit_div: "unat (drop_bit n (w :: u64)) = unat w div 2 ^ n"
proof -
  have "unat (drop_bit n w) = drop_bit n (unat w)"
    using unat_u64_less [of w] by (simp add: unsigned_drop_bit_eq take_bit_nat_eq_self)
  then show ?thesis by (simp only: drop_bit_eq_div)
qed

lemma unat_and_255 [u64_nat]: "unat ((w :: u64) AND 255) = unat w mod 256"
proof -
  have "w AND 255 = take_bit 8 w"
    by (simp add: take_bit_eq_mask mask_eq_exp_minus_1)
  then have "unat (w AND 255) = take_bit 8 (unat w)"
    by (simp only: unsigned_take_bit_eq)
  then show ?thesis
    by (simp only: take_bit_eq_mod) simp
qed

lemma unat_u64_sub [u64_nat]: "b \<le> a \<Longrightarrow> unat (a - b :: u64) = unat a - unat b"
  by (rule unat_sub)

lemma u64_le_nat [u64_nat]: "(a :: u64) \<le> b \<longleftrightarrow> unat a \<le> unat b"
  by (rule word_le_nat_alt)

lemma u64_less_nat [u64_nat]: "(a :: u64) < b \<longleftrightarrow> unat a < unat b"
  by (rule word_less_nat_alt)

lemma u64_eq_nat: "(a :: u64) = b \<longleftrightarrow> unat a = unat b"
  by (rule word_unat_eq_iff)

lemma unat_u64_of_nat: "n < 18446744073709551616 \<Longrightarrow> unat (of_nat n :: u64) = n"
  by (simp add: unsigned_of_nat take_bit_eq_mod)

lemma unat_add_u64: "unat a + unat b < 18446744073709551616 \<Longrightarrow> unat (a + b :: u64) = unat a + unat b"
  by (simp add: unat_word_ariths)

end
