(* ===== verification/Keyed_Store.thy ===== *)
theory Keyed_Store
  imports Prelude
begin

text \<open>
  The interface of a map from \<open>u64\<close> keys to values: what \<open>lion-slab\<close>'s \<open>Slab\<close> (which holds the
  tasks of the executor and the resources of the reactor) and the timer wheel's \<open>VecMap\<close> promise
  to their clients.  \<open>view\<close> is the abstraction the contracts of the code are stated with and
  \<open>key_of\<close> reads a \<open>u64\<close> key as a key of that abstraction.  The clients' lemmas are proved here
  once, from the laws.
\<close>

locale keyed_store =
  fixes inv :: "'s \<Rightarrow> bool"
    and key_of :: "u64 \<Rightarrow> 'k"
    and view :: "'s \<Rightarrow> 'k \<Rightarrow> 'v option"
    and new :: "'s"
    and insert :: "u64 \<Rightarrow> 'v \<Rightarrow> 's \<Rightarrow> 's"
    and get :: "u64 \<Rightarrow> 's \<Rightarrow> 'v option"
    and remove :: "u64 \<Rightarrow> 's \<Rightarrow> 'v option \<times> 's"
  assumes key_inj: "inj key_of"
    and inv_new: "inv new"
    and view_new: "view new = Map.empty"
    and inv_insert: "inv s \<Longrightarrow> inv (insert k v s)"
    and view_insert: "inv s \<Longrightarrow> view (insert k v s) = (view s)(key_of k \<mapsto> v)"
    and get_view: "inv s \<Longrightarrow> get k s = view s (key_of k)"
    and inv_remove: "inv s \<Longrightarrow> inv (snd (remove k s))"
    and view_remove: "inv s \<Longrightarrow> view (snd (remove k s)) = (view s)(key_of k := None)"
    and fst_remove: "inv s \<Longrightarrow> fst (remove k s) = view s (key_of k)"
begin

lemma get_new [simp]: "get k new = None"
  by (simp add: get_view inv_new view_new)

lemma get_insert: "inv s \<Longrightarrow> get j (insert k v s) = (if j = k then Some v else get j s)"
  using key_inj by (simp add: get_view inv_insert view_insert inj_eq)

lemma get_remove: "inv s \<Longrightarrow> get j (snd (remove k s)) = (if j = k then None else get j s)"
  using key_inj by (simp add: get_view inv_remove view_remove inj_eq)

lemma remove_result: "inv s \<Longrightarrow> fst (remove k s) = get k s"
  by (simp add: fst_remove get_view)

lemma remove_insert_roundtrip:
  assumes "inv s"
  shows "fst (remove k (insert k v s)) = Some v"
    and "view (snd (remove k (insert k v s))) = (view s)(key_of k := None)"
  using assms by (simp_all add: fst_remove view_remove view_insert inv_insert)

lemma insert_shadows:
  assumes "inv s"
  shows "view (insert k w (insert k v s)) = view (insert k w s)"
  using assms by (simp add: view_insert inv_insert)

lemma insert_commutes:
  assumes "inv s" "j \<noteq> k"
  shows "view (insert j v (insert k w s)) = view (insert k w (insert j v s))"
  using assms key_inj by (simp add: view_insert inv_insert inj_eq fun_upd_twist)

end

end
