(* ===== verification/Vec_Map.thy ===== *)
theory Vec_Map
  imports Keyed_Store
begin

text \<open>
  \<^bold>\<open>VecMap\<close>, the map of the timer wheel: a window of option slots like \<open>Slab\<close>, with a count of the
  occupied slots that makes \<open>is_empty\<close> constant time.  Model of
  \<^verbatim>\<open>lion-timer-wheel/src/vec_map.rs\<close>.  \<open>count_wf\<close> is the invariant the source states; every
  operation keeps it, and \<open>VecMap\<close> implements the \<open>keyed_store\<close> interface under it.
\<close>

section \<open>Data and operations\<close>

record 'v vec_map =
  vm_inner :: "'v option list"
  vm_offset :: u64
  vm_count :: nat

definition vm_new :: "'v vec_map" where
  "vm_new = \<lparr>vm_inner = [], vm_offset = 0, vm_count = 0\<rparr>"

definition vm_grow_front :: "u64 \<Rightarrow> 'v vec_map \<Rightarrow> 'v vec_map" where
  "vm_grow_front key m =
     (let extra = unat (vm_offset m - key);
          new_inner = vec_resize extra None [] @ vm_inner m
      in m\<lparr>vm_inner := new_inner, vm_offset := key\<rparr>)"

definition vm_ensure_slot :: "u64 \<Rightarrow> 'v vec_map \<Rightarrow> 'v vec_map" where
  "vm_ensure_slot rel m =
     (let idx = unat rel
      in if idx \<ge> length (vm_inner m)
         then m\<lparr>vm_inner := vec_resize (idx + 1) None (vm_inner m)\<rparr> else m)"

definition vm_set_slot :: "u64 \<Rightarrow> 'v \<Rightarrow> 'v vec_map \<Rightarrow> 'v vec_map" where
  "vm_set_slot rel v m =
     (let idx = unat rel;
          m1 = (if vm_inner m ! idx = None then m\<lparr>vm_count := vm_count m + 1\<rparr> else m)
      in m1\<lparr>vm_inner := (vm_inner m1)[idx := Some v]\<rparr>)"

definition vm_take_at :: "u64 \<Rightarrow> 'v vec_map \<Rightarrow> 'v option \<times> 'v vec_map" where
  "vm_take_at rel m =
     (let idx = unat rel;
          result = vm_inner m ! idx;
          m1 = m\<lparr>vm_inner := (vm_inner m)[idx := None]\<rparr>
      in (result, if result \<noteq> None then m1\<lparr>vm_count := vm_count m1 - 1\<rparr> else m1))"

definition vm_insert :: "u64 \<Rightarrow> 'v \<Rightarrow> 'v vec_map \<Rightarrow> 'v vec_map" where
  "vm_insert key v m =
     (let m1 = (if length (vm_inner m) = 0 then m\<lparr>vm_offset := key\<rparr>
                else if key < vm_offset m then vm_grow_front key m else m);
          rel = key - vm_offset m1
      in vm_set_slot rel v (vm_ensure_slot rel m1))"

definition vm_get :: "u64 \<Rightarrow> 'v vec_map \<Rightarrow> 'v option" where
  "vm_get key m =
     (if key < vm_offset m then None
      else let diff = key - vm_offset m
           in if unat diff \<ge> length (vm_inner m) then None else vm_inner m ! unat diff)"

definition vm_remove :: "u64 \<Rightarrow> 'v vec_map \<Rightarrow> 'v option \<times> 'v vec_map" where
  "vm_remove key m =
     (if key < vm_offset m then (None, m)
      else let diff = key - vm_offset m
           in if unat diff \<ge> length (vm_inner m) then (None, m) else vm_take_at diff m)"

definition vm_contains_key :: "u64 \<Rightarrow> 'v vec_map \<Rightarrow> bool" where
  "vm_contains_key key m =
     (if key < vm_offset m then False
      else let diff = key - vm_offset m
           in if unat diff \<ge> length (vm_inner m) then False else vm_inner m ! unat diff \<noteq> None)"

definition vm_is_empty :: "'v vec_map \<Rightarrow> bool" where
  "vm_is_empty m = (vm_count m = 0)"

section \<open>The abstraction and the count invariant\<close>

fun occupancy :: "'v option list \<Rightarrow> nat" where
  "occupancy [] = 0"
| "occupancy (x # xs) = (if x \<noteq> None then 1 else 0) + occupancy xs"

definition vm_spec_contains :: "'v vec_map \<Rightarrow> u64 \<Rightarrow> bool" where
  "vm_spec_contains m k \<longleftrightarrow>
     vm_offset m \<le> k \<and> unat k - unat (vm_offset m) < length (vm_inner m) \<and>
     vm_inner m ! (unat k - unat (vm_offset m)) \<noteq> None"

definition vm_view :: "'v vec_map \<Rightarrow> u64 \<Rightarrow> 'v option" where
  "vm_view m k =
     (if vm_spec_contains m k then vm_inner m ! (unat k - unat (vm_offset m)) else None)"

definition count_wf :: "'v vec_map \<Rightarrow> bool" where
  "count_wf m \<longleftrightarrow>
     vm_count m = occupancy (vm_inner m) \<and>
     unat (vm_offset m) + length (vm_inner m) \<le> 2 ^ 64"

section \<open>Occupancy\<close>

lemma occupancy_append [simp]: "occupancy (xs @ ys) = occupancy xs + occupancy ys"
  by (induction xs) auto

lemma occupancy_snoc: "occupancy (xs @ [x]) = occupancy xs + (if x \<noteq> None then 1 else 0)"
  by simp

lemma occupancy_replicate_None [simp]: "occupancy (replicate n None) = 0"
  by (induction n) auto

lemma occupancy_vec_resize_None:
  "length xs \<le> n \<Longrightarrow> occupancy (vec_resize n None xs) = occupancy xs"
  by (simp add: vec_resize_def)

lemma occupancy_zero_iff: "occupancy xs = 0 \<longleftrightarrow> (\<forall>i < length xs. xs ! i = None)"
  by (induction xs) (auto simp: nth_Cons split: nat.splits)

lemma occupancy_update:
  "i < length xs \<Longrightarrow>
     occupancy (xs[i := v]) + (if xs ! i \<noteq> None then 1 else 0) =
     occupancy xs + (if v \<noteq> None then 1 else 0)"
proof -
  assume i: "i < length xs"
  have "occupancy xs = occupancy (take i xs @ xs ! i # drop (Suc i) xs)"
    using i by (simp add: id_take_nth_drop [symmetric])
  with i show ?thesis
    by (simp add: upd_conv_take_nth_drop)
qed

section \<open>Correctness\<close>

lemma vm_view_window: "vm_view m k = window (unat (vm_offset m)) (vm_inner m) (unat k)"
  by (simp add: vm_view_def vm_spec_contains_def window_def u64_nat)

lemma vm_view_new [simp]: "vm_view vm_new = Map.empty"
  by (rule ext) (simp add: vm_view_window vm_new_def)

lemma count_wf_new [simp]: "count_wf vm_new"
  by (simp add: count_wf_def vm_new_def)

text \<open>The window once the three ways of \<open>insert\<close> to make room have run.\<close>

lemma vm_grow_front_view:
  assumes "key < vm_offset m"
  shows "vm_view (vm_grow_front key m) = vm_view m"
proof -
  have "unat key = unat (vm_offset m) - unat (vm_offset m - key)"
    "unat (vm_offset m - key) \<le> unat (vm_offset m)"
    using assms by (auto simp: u64_nat)
  then show ?thesis
    by (intro ext) (simp add: vm_view_window vm_grow_front_def vec_resize_def window_prepend)
qed

lemma vm_grow_front_count:
  "key < vm_offset m \<Longrightarrow> count_wf m \<Longrightarrow> count_wf (vm_grow_front key m)"
  by (simp add: count_wf_def vm_grow_front_def vec_resize_def u64_nat)

lemma vm_ensure_slot_offset [simp]: "vm_offset (vm_ensure_slot rel m) = vm_offset m"
  by (simp add: vm_ensure_slot_def Let_def)

lemma vm_ensure_slot_bound: "unat rel < length (vm_inner (vm_ensure_slot rel m))"
  by (simp add: vm_ensure_slot_def Let_def)

lemma vm_ensure_slot_view [simp]: "vm_view (vm_ensure_slot rel m) = vm_view m"
  by (rule ext) (simp add: vm_view_window vm_ensure_slot_def Let_def window_resize)

lemma vm_ensure_slot_count:
  assumes "count_wf m" "vm_offset m \<le> key"
  shows "count_wf (vm_ensure_slot (key - vm_offset m) m)"
proof -
  have "unat (vm_offset m) + (unat (key - vm_offset m) + 1) \<le> 2 ^ 64"
    using assms(2) unat_u64_less [of key] by (simp add: u64_nat)
  with assms(1) show ?thesis
    by (simp add: count_wf_def vm_ensure_slot_def Let_def occupancy_vec_resize_None)
qed

lemma vm_slot_write_view:
  assumes "vm_offset m \<le> key" "unat (key - vm_offset m) < length (vm_inner m)"
    "vm_inner m' = (vm_inner m)[unat (key - vm_offset m) := v]" "vm_offset m' = vm_offset m"
  shows "vm_view m' = (vm_view m)(key := v)"
  using assms by (intro ext) (simp add: vm_view_window window_update u64_nat u64_eq_nat)

lemma vm_set_slot_view:
  assumes "vm_offset m \<le> key" "unat (key - vm_offset m) < length (vm_inner m)"
  shows "vm_view (vm_set_slot (key - vm_offset m) v m) = (vm_view m)(key \<mapsto> v)"
  using assms by (intro vm_slot_write_view) (auto simp: vm_set_slot_def Let_def)

lemma vm_set_slot_count:
  "count_wf m \<Longrightarrow> unat rel < length (vm_inner m) \<Longrightarrow> count_wf (vm_set_slot rel v m)"
  using occupancy_update [of "unat rel" "vm_inner m" "Some v"]
  by (auto simp: count_wf_def vm_set_slot_def Let_def split: if_splits)

lemma vm_insert_spec:
  shows vm_view_insert: "vm_view (vm_insert k v m) = (vm_view m)(k \<mapsto> v)"
    and count_wf_insert: "count_wf m \<Longrightarrow> count_wf (vm_insert k v m)"
proof -
  define m1 where "m1 = (if length (vm_inner m) = 0 then m\<lparr>vm_offset := k\<rparr>
                else if k < vm_offset m then vm_grow_front k m else m)"
  have off: "vm_offset m1 \<le> k"
    by (auto simp: m1_def vm_grow_front_def Let_def)
  have view: "vm_view m1 = vm_view m"
    by (simp add: m1_def vm_grow_front_view) (simp add: vm_view_window fun_eq_iff)
  have count: "count_wf m1" if "count_wf m"
    using that unat_u64_less [of k] by (auto simp: m1_def vm_grow_front_count) (simp add: count_wf_def)
  let ?m2 = "vm_ensure_slot (k - vm_offset m1) m1"
  have ins: "vm_insert k v m = vm_set_slot (k - vm_offset ?m2) v ?m2"
    unfolding vm_insert_def Let_def m1_def [symmetric] by simp
  show "vm_view (vm_insert k v m) = (vm_view m)(k \<mapsto> v)"
    unfolding ins by (subst vm_set_slot_view) (use off view vm_ensure_slot_bound in simp_all)
  show "count_wf (vm_insert k v m)" if "count_wf m"
    unfolding ins using that off count vm_ensure_slot_bound
    by (intro vm_set_slot_count) (simp_all add: vm_ensure_slot_count)
qed

lemma vm_get_view: "vm_get k m = vm_view m k"
  by (auto simp: vm_get_def vm_view_window window_def Let_def u64_nat not_less)

lemma vm_contains_key_get: "vm_contains_key k m \<longleftrightarrow> vm_get k m \<noteq> None"
  by (simp add: vm_contains_key_def vm_get_def Let_def)

lemma vm_remove_result: "fst (vm_remove k m) = vm_view m k"
  by (auto simp: vm_remove_def vm_take_at_def vm_view_window window_def Let_def u64_nat not_less)

lemma vm_remove_out:
  assumes "k < vm_offset m \<or> unat (k - vm_offset m) \<ge> length (vm_inner m)"
  shows "snd (vm_remove k m) = m" "vm_view m k = None"
  using assms by (auto simp: vm_remove_def vm_view_window window_def Let_def u64_nat not_less)

lemma vm_view_remove: "vm_view (snd (vm_remove k m)) = (vm_view m)(k := None)"
proof (cases "k < vm_offset m \<or> unat (k - vm_offset m) \<ge> length (vm_inner m)")
  case True
  then show ?thesis using vm_remove_out [OF True] by (auto simp: fun_eq_iff)
next
  case False
  then show ?thesis
    by (intro vm_slot_write_view) (auto simp: vm_remove_def vm_take_at_def Let_def)
qed

lemma count_wf_remove: "count_wf m \<Longrightarrow> count_wf (snd (vm_remove k m))"
proof (cases "k < vm_offset m \<or> unat (k - vm_offset m) \<ge> length (vm_inner m)")
  case True
  assume "count_wf m"
  then show ?thesis by (simp add: vm_remove_out [OF True])
next
  case False
  assume "count_wf m"
  with False show ?thesis
    using occupancy_update [of "unat (k - vm_offset m)" "vm_inner m" None]
    by (auto simp: count_wf_def vm_remove_def vm_take_at_def Let_def split: if_splits)
qed

interpretation vm: keyed_store count_wf "\<lambda>k. k" vm_view vm_new vm_insert vm_get vm_remove
  by unfold_locales
    (auto simp: vm_view_insert count_wf_insert vm_get_view vm_remove_result vm_view_remove
      count_wf_remove)

lemma vm_is_empty_view:
  assumes "count_wf m"
  shows "vm_is_empty m \<longleftrightarrow> vm_view m = Map.empty"
proof -
  have "vm_is_empty m \<longleftrightarrow> (\<forall>i < length (vm_inner m). vm_inner m ! i = None)"
    using assms by (simp add: vm_is_empty_def count_wf_def occupancy_zero_iff)
  also have "\<dots> \<longleftrightarrow> vm_view m = Map.empty"
  proof
    assume all: "vm_view m = Map.empty"
    show "\<forall>i < length (vm_inner m). vm_inner m ! i = None"
    proof (intro allI impI)
      fix i assume i: "i < length (vm_inner m)"
      let ?k = "of_nat (unat (vm_offset m) + i) :: u64"
      have "unat ?k = unat (vm_offset m) + i"
        using assms i by (intro unat_u64_of_nat) (simp add: count_wf_def)
      then have "vm_view m ?k = vm_inner m ! i"
        using i by (simp add: vm_view_window window_def)
      with all show "vm_inner m ! i = None" by simp
    qed
  qed (auto simp: vm_view_window window_def fun_eq_iff)
  finally show ?thesis .
qed

section \<open>Properties\<close>

text \<open>
  C12: Any sequence of insertions and removals keeps the occupancy count of the vector map exact, so
  that \<open>is_empty\<close>, which only compares the count with zero, says whether the map is empty; and the
  operations are those of a map from 64-bit keys.
\<close>

theorem vm_store_laws:
  assumes "count_wf m"
  shows "count_wf (vm_insert k v m) \<and> count_wf (snd (vm_remove k m)) \<and>
    vm_view (vm_insert k v m) = (vm_view m)(k \<mapsto> v) \<and>
    vm_view (snd (vm_remove k m)) = (vm_view m)(k := None) \<and> fst (vm_remove k m) = vm_view m k \<and>
    vm_get k m = vm_view m k \<and> (vm_contains_key k m \<longleftrightarrow> k \<in> dom (vm_view m)) \<and>
    (vm_is_empty m \<longleftrightarrow> vm_view m = Map.empty)"
  using assms
  by (auto simp: count_wf_insert count_wf_remove vm_view_insert vm_view_remove vm_remove_result vm_get_view
      vm_contains_key_get vm_is_empty_view simp del: fun_eq_iff)

theorem vm_store_laws_witness:
  "count_wf (vm_insert 5 (1 :: nat) vm_new) \<and> vm_is_empty (vm_new :: nat vec_map)"
  using vm_store_laws [OF count_wf_new, of 5 "1 :: nat"] by simp

end
