(* ===== verification/Timer_Wheel.thy ===== *)
theory Timer_Wheel
  imports Vec_Map
begin

text \<open>
  \<^bold>\<open>lion-timer-wheel\<close>: the data structure and the operations of the hierarchical timer wheel,
  \<^verbatim>\<open>lion-timer-wheel/src/wheel.rs\<close> (the executable functions; the ghost code that interleaves
  them is the source's own proof).  A timer sits in slot \<open>(deadline >> 8 * level) & 255\<close> of the level
  that its distance to \<open>elapsed\<close> selects; \<open>positions\<close> records where, so that removal is constant
  time; advancing the clock drains the slots the hands pass, moves the timers that are due to
  \<open>pending\<close> and places the others again.  The invariants and the proofs are in the theories
  that import this one.
\<close>

section \<open>Constants and data\<close>

abbreviation WHEEL_BITS :: nat where "WHEEL_BITS \<equiv> 8"
abbreviation WHEEL_SIZE :: nat where "WHEEL_SIZE \<equiv> 256"
abbreviation NUM_LEVELS :: nat where "NUM_LEVELS \<equiv> 4"

text \<open>\<open>level\<close> and \<open>slot\<close> are \<open>u8\<close> fields: the casts that fill them are written out as \<open>mod 256\<close>.\<close>

record wheel_pos =
  pos_level :: nat
  pos_slot :: nat
  pos_idx :: nat

record timer_wheel =
  levels :: "u64 list list list"
  elapsed :: u64
  pending :: "u64 list"
  cached_min :: "u64 option"
  deadlines :: "u64 vec_map"
  positions :: "wheel_pos vec_map"
  level_counts :: "nat list"

abbreviation cell :: "timer_wheel \<Rightarrow> nat \<Rightarrow> nat \<Rightarrow> u64 list" where
  "cell w l s \<equiv> levels w ! l ! s"

abbreviation deadline_of :: "timer_wheel \<Rightarrow> u64 \<Rightarrow> u64 option" where
  "deadline_of w r \<equiv> vm_get r (deadlines w)"

abbreviation position_of :: "timer_wheel \<Rightarrow> u64 \<Rightarrow> wheel_pos option" where
  "position_of w r \<equiv> vm_get r (positions w)"

definition wheel_new :: timer_wheel where
  "wheel_new = \<lparr>levels = replicate NUM_LEVELS (replicate WHEEL_SIZE []), elapsed = 0, pending = [],
     cached_min = None, deadlines = vm_new, positions = vm_new, level_counts = [0, 0, 0, 0]\<rparr>"

section \<open>Slot primitives\<close>

definition set_cell :: "nat \<Rightarrow> nat \<Rightarrow> u64 list \<Rightarrow> timer_wheel \<Rightarrow> timer_wheel" where
  "set_cell l s xs w = w\<lparr>levels := (levels w)[l := (levels w ! l)[s := xs]]\<rparr>"

definition slot_push :: "nat \<Rightarrow> nat \<Rightarrow> u64 \<Rightarrow> timer_wheel \<Rightarrow> timer_wheel" where
  "slot_push level slot rid w =
     (let w1 = set_cell level slot (cell w level slot @ [rid]) w
      in w1\<lparr>level_counts := (level_counts w1)[level := level_counts w1 ! level + 1]\<rparr>)"

definition slot_swap_remove :: "nat \<Rightarrow> nat \<Rightarrow> nat \<Rightarrow> timer_wheel \<Rightarrow> u64 \<times> timer_wheel" where
  "slot_swap_remove level slot idx w =
     (let w1 = w\<lparr>level_counts := (level_counts w)[level := level_counts w ! level - 1]\<rparr>
      in (cell w1 level slot ! idx, set_cell level slot (swap_remove idx (cell w1 level slot)) w1))"

definition slot_pop :: "nat \<Rightarrow> nat \<Rightarrow> timer_wheel \<Rightarrow> timer_wheel" where
  "slot_pop level slot w =
     (let w1 = w\<lparr>level_counts := (level_counts w)[level := level_counts w ! level - 1]\<rparr>
      in set_cell level slot (butlast (cell w1 level slot)) w1)"

definition slot_drain :: "nat \<Rightarrow> nat \<Rightarrow> timer_wheel \<Rightarrow> u64 list \<times> timer_wheel" where
  "slot_drain level slot w =
     (let w1 = w\<lparr>level_counts :=
                (level_counts w)[level := level_counts w ! level - length (cell w level slot)]\<rparr>
      in (cell w1 level slot, set_cell level slot [] w1))"

section \<open>Placement\<close>

definition level_slot :: "u64 \<Rightarrow> u64 \<Rightarrow> nat \<times> nat" where
  "level_slot deadline elap =
     (let delta = wrapping_sub_u64 deadline elap;
          (level, shift) = (if delta < 256 then (0, 0)
                            else if delta < 65536 then (1, 8)
                            else if delta < 16777216 then (2, 16)
                            else (3, 24));
          slot_masked = drop_bit shift deadline AND 255
      in (level, unat slot_masked))"

definition wheel_insert_inner :: "u64 \<Rightarrow> u64 \<Rightarrow> u64 \<Rightarrow> timer_wheel \<Rightarrow> timer_wheel" where
  "wheel_insert_inner rid deadline elapsed_for_slot w =
     (let (level, slot) = level_slot deadline elapsed_for_slot;
          idx = length (cell w level slot);
          w1 = slot_push level slot rid w
      in w1\<lparr>positions := vm_insert rid
             \<lparr>pos_level = level mod 256, pos_slot = slot mod 256, pos_idx = idx\<rparr> (positions w1)\<rparr>)"

definition wheel_remove_inner :: "u64 \<Rightarrow> timer_wheel \<Rightarrow> timer_wheel" where
  "wheel_remove_inner rid w =
     (case vm_remove rid (positions w) of
        (None, ps) \<Rightarrow> w\<lparr>positions := ps\<rparr>
      | (Some pos, ps) \<Rightarrow>
          (let w1 = w\<lparr>positions := ps\<rparr>;
               level = pos_level pos; slot = pos_slot pos; idx = pos_idx pos
           in if level < NUM_LEVELS \<and> slot < WHEEL_SIZE then
                (let slot_len = length (cell w1 level slot)
                 in if slot_len > 0 then
                      (let last = slot_len - 1
                       in if idx \<le> last then
                            (if idx < last then
                               (let swapped_rid = cell w1 level slot ! last;
                                    w2 = snd (slot_swap_remove level slot idx w1)
                                in w2\<lparr>positions := vm_insert swapped_rid
                                       \<lparr>pos_level = pos_level pos, pos_slot = pos_slot pos,
                                        pos_idx = pos_idx pos\<rparr> (positions w2)\<rparr>)
                             else slot_pop level slot w1)
                          else w1)
                    else w1)
              else w1))"

definition invalidate_min :: "u64 \<Rightarrow> timer_wheel \<Rightarrow> timer_wheel" where
  "invalidate_min deadline w =
     (case cached_min w of
        Some m \<Rightarrow> if deadline \<le> m then w\<lparr>cached_min := None\<rparr> else w
      | None \<Rightarrow> w)"

section \<open>Registration\<close>

definition wheel_insert :: "u64 \<Rightarrow> u64 \<Rightarrow> timer_wheel \<Rightarrow> timer_wheel" where
  "wheel_insert rid deadline w =
     (let w1 = (case deadline_of w rid of
                  Some old_deadline \<Rightarrow> invalidate_min old_deadline w
                | None \<Rightarrow> w);
          w2 = wheel_remove_inner rid w1;
          w3 = w2\<lparr>deadlines := vm_insert rid deadline (deadlines w2)\<rparr>;
          (level, slot) = level_slot deadline (elapsed w3);
          idx = length (cell w3 level slot);
          w4 = slot_push level slot rid w3;
          w5 = w4\<lparr>positions := vm_insert rid
                   \<lparr>pos_level = level mod 256, pos_slot = slot mod 256, pos_idx = idx\<rparr> (positions w4)\<rparr>
      in case cached_min w5 of
           Some m \<Rightarrow> if deadline < m then w5\<lparr>cached_min := Some deadline\<rparr> else w5
         | None \<Rightarrow> w5)"

definition wheel_remove :: "u64 \<Rightarrow> timer_wheel \<Rightarrow> timer_wheel" where
  "wheel_remove rid w =
     (if vm_contains_key rid (deadlines w) then
        (let deadline = the (deadline_of w rid);
             w1 = invalidate_min deadline w;
             w2 = wheel_remove_inner rid w1
         in w2\<lparr>deadlines := snd (vm_remove rid (deadlines w2))\<rparr>)
      else w)"

section \<open>Advancing the clock\<close>

text \<open>The body of the loop over the drained slot, and that loop.\<close>

definition drain_entry :: "u64 \<Rightarrow> u64 \<Rightarrow> timer_wheel \<Rightarrow> timer_wheel" where
  "drain_entry now rid w =
     (if vm_contains_key rid (deadlines w) then
        (let deadline = the (deadline_of w rid)
         in if deadline \<le> now then
              (let w1 = w\<lparr>positions := snd (vm_remove rid (positions w))\<rparr>
               in w1\<lparr>pending := pending w1 @ [rid]\<rparr>)
            else wheel_insert_inner rid deadline now w)
      else w)"

fun drain_entries :: "u64 \<Rightarrow> u64 list \<Rightarrow> timer_wheel \<Rightarrow> timer_wheel" where
  "drain_entries now [] w = w"
| "drain_entries now (rid # rest) w = drain_entries now rest (drain_entry now rid w)"

definition drain_slot :: "u64 \<Rightarrow> nat \<Rightarrow> nat \<Rightarrow> timer_wheel \<Rightarrow> timer_wheel" where
  "drain_slot now level slot w =
     (let (slot_vec, w1) = slot_drain level slot w in drain_entries now slot_vec w1)"

function drain_slots :: "u64 \<Rightarrow> nat \<Rightarrow> nat \<Rightarrow> nat \<Rightarrow> nat \<Rightarrow> timer_wheel \<Rightarrow> timer_wheel" where
  "drain_slots now level old_slot slots_to_drain i w =
     (if i \<le> slots_to_drain
      then drain_slots now level old_slot slots_to_drain (i + 1)
             (drain_slot now level ((old_slot + i) mod WHEEL_SIZE) w)
      else w)"
  by pat_completeness auto
termination
  by (relation "measure (\<lambda>(now, level, old_slot, n, i, w). n + 1 - i)") auto

declare drain_slots.simps [simp del]

function advance_levels :: "u64 \<Rightarrow> u64 \<Rightarrow> nat \<Rightarrow> timer_wheel \<Rightarrow> timer_wheel" where
  "advance_levels now elap level w =
     (if level < NUM_LEVELS then
        (let shift = level * WHEEL_BITS;
             old_pos = drop_bit shift elap;
             new_pos = drop_bit shift now
         in if old_pos = new_pos then w
            else (let diff = new_pos - old_pos;
                      slots_to_drain = (if unat diff < WHEEL_SIZE then unat diff else WHEEL_SIZE);
                      old_slot = unat (old_pos AND 255)
                  in advance_levels now elap (level + 1)
                       (drain_slots now level old_slot slots_to_drain 1 w)))
      else w)"
  by pat_completeness auto
termination
  by (relation "measure (\<lambda>(now, elap, level, w). NUM_LEVELS - level)") auto

declare advance_levels.simps [simp del]

definition advance_to :: "u64 \<Rightarrow> timer_wheel \<Rightarrow> timer_wheel" where
  "advance_to now w = (advance_levels now (elapsed w) 0 w)\<lparr>elapsed := now\<rparr>"

text \<open>The loop that pops \<open>pending\<close> from its end (phases 1 and 3 of \<open>try_pop_expired\<close>).\<close>

function pop_pending :: "u64 \<Rightarrow> timer_wheel \<Rightarrow> u64 option \<times> timer_wheel" where
  "pop_pending now w =
     (if pending w = [] then (None, w)
      else (let rid = last (pending w);
                w1 = w\<lparr>pending := butlast (pending w)\<rparr>
            in if vm_contains_key rid (deadlines w1) then
                 (let deadline = the (deadline_of w1 rid)
                  in if deadline \<le> now then
                       (let w2 = invalidate_min deadline w1;
                            w3 = w2\<lparr>deadlines := snd (vm_remove rid (deadlines w2))\<rparr>;
                            w4 = w3\<lparr>positions := snd (vm_remove rid (positions w3))\<rparr>
                        in (Some rid, w4))
                     else pop_pending now w1)
               else pop_pending now w1))"
  by pat_completeness auto
termination
  by (relation "measure (\<lambda>(now, w). length (pending w))") auto

declare pop_pending.simps [simp del]

definition try_pop_expired :: "u64 \<Rightarrow> timer_wheel \<Rightarrow> u64 option \<times> timer_wheel" where
  "try_pop_expired now w =
     (case pop_pending now w of
        (Some rid, w1) \<Rightarrow> (Some rid, w1)
      | (None, w1) \<Rightarrow>
          (let w2 = (if elapsed w1 < now then advance_to now w1 else w1)
           in pop_pending now w2))"

section \<open>The earliest deadline\<close>

definition wheel_is_empty :: "timer_wheel \<Rightarrow> bool" where
  "wheel_is_empty w = vm_is_empty (deadlines w)"

definition get_deadline :: "u64 \<Rightarrow> timer_wheel \<Rightarrow> u64 option" where
  "get_deadline rid w = vm_get rid (deadlines w)"

definition merge_min :: "u64 option \<Rightarrow> u64 \<Rightarrow> u64 option" where
  "merge_min best d =
     (case best of None \<Rightarrow> Some d | Some b \<Rightarrow> if d < b then Some d else Some b)"

text \<open>The member scan of one slot, with its two loop variables \<open>best\<close> and \<open>have\<close>.\<close>

fun scan_members :: "u64 vec_map \<Rightarrow> u64 list \<Rightarrow> u64 \<times> bool \<Rightarrow> u64 \<times> bool" where
  "scan_members dl [] (best, have) = (best, have)"
| "scan_members dl (rid # rest) (best, have) =
     (case vm_get rid dl of
        Some d \<Rightarrow> scan_members dl rest (if \<not> have \<or> d < best then (d, True) else (best, have))
      | None \<Rightarrow> scan_members dl rest (best, have))"

function scan_offsets :: "timer_wheel \<Rightarrow> nat \<Rightarrow> u64 option \<Rightarrow> nat \<Rightarrow> u64 option" where
  "scan_offsets w level bound off =
     (if off \<le> 256 then
        (let shift = level * WHEEL_BITS;
             e = elapsed w;
             cur = unat (drop_bit shift e AND 255);
             slot = (cur + off) mod 256;
             slot_vec = cell w level slot;
             members = (case scan_members (deadlines w) slot_vec (0, False) of
                          (best, have) \<Rightarrow>
                            if have then Some best else scan_offsets w level bound (off + 1))
         in if length slot_vec > 0 then
              (if (case bound of
                     Some b \<Rightarrow> drop_bit shift b < drop_bit shift e + of_nat off
                   | None \<Rightarrow> False)
               then None
               else if level = 0 then
                 (case deadline_of w (slot_vec ! 0) of Some d0 \<Rightarrow> Some d0 | None \<Rightarrow> members)
               else members)
            else scan_offsets w level bound (off + 1))
      else None)"
  by pat_completeness auto
termination
  by (relation "measure (\<lambda>(w, level, bound, off). 257 - off)") auto

declare scan_offsets.simps [simp del]

definition scan_level_min :: "nat \<Rightarrow> u64 option \<Rightarrow> timer_wheel \<Rightarrow> u64 option" where
  "scan_level_min level bound w =
     (if level_counts w ! level = 0 then None else scan_offsets w level bound 1)"

text \<open>The running minimum over a list of ids: the loops over \<open>pending\<close> and over a slot of level 3.\<close>

fun min_over :: "u64 vec_map \<Rightarrow> u64 list \<Rightarrow> u64 option \<Rightarrow> u64 option" where
  "min_over dl [] best = best"
| "min_over dl (rid # rest) best =
     (case vm_get rid dl of
        Some d \<Rightarrow> min_over dl rest (merge_min best d)
      | None \<Rightarrow> min_over dl rest best)"

fun min_over_slots :: "u64 vec_map \<Rightarrow> u64 list list \<Rightarrow> u64 option \<Rightarrow> u64 option" where
  "min_over_slots dl [] best = best"
| "min_over_slots dl (slot_vec # rest) best = min_over_slots dl rest (min_over dl slot_vec best)"

definition scan_level3_min :: "timer_wheel \<Rightarrow> u64 option" where
  "scan_level3_min w =
     (if level_counts w ! 3 = 0 then None
      else min_over_slots (deadlines w) (levels w ! 3) None)"

definition merge_opt :: "u64 option \<Rightarrow> u64 option \<Rightarrow> u64 option" where
  "merge_opt best c = (case c of Some d \<Rightarrow> merge_min best d | None \<Rightarrow> best)"

definition scan_wheel_min :: "timer_wheel \<Rightarrow> u64 option" where
  "scan_wheel_min w =
     (case min_over (deadlines w) (pending w) None of
        Some pb \<Rightarrow> Some pb
      | None \<Rightarrow>
          (let c0 = scan_level_min 0 None w;
               c1 = scan_level_min 1 c0 w;
               c2 = scan_level_min 2 c0 w;
               c3 = scan_level3_min w
           in merge_opt (merge_opt (merge_opt (merge_opt None c0) c1) c2) c3))"

definition next_deadline :: "timer_wheel \<Rightarrow> u64 option" where
  "next_deadline w =
     (if wheel_is_empty w then None
      else (case cached_min w of Some d \<Rightarrow> Some d | None \<Rightarrow> scan_wheel_min w))"

end
