(* ===== verification/Wheel_Inv.thy ===== *)
theory Wheel_Inv
  imports Timer_Wheel
begin

text \<open>
  The invariants of the timer wheel as \<^verbatim>\<open>lion-timer-wheel/src/wheel.rs\<close> states them, and the
  shape the proofs of this development use them in.  The source speaks of every index of every
  slot; here the wheel is read as the function \<open>cell w\<close> from a level and a slot to the ids filed
  there, and \<open>slots_ok\<close> says that this function and the position map are inverse to each other up
  to a set \<open>F\<close> of ids that a running drain holds in its hand.  \<open>full_wf_iff\<close> connects the two.
\<close>

section \<open>The predicates of the source\<close>

definition wheel_view :: "timer_wheel \<Rightarrow> u64 \<Rightarrow> u64 option" where
  "wheel_view w = vm_view (deadlines w)"

abbreviation pos_view :: "timer_wheel \<Rightarrow> u64 \<Rightarrow> wheel_pos option" where
  "pos_view w \<equiv> vm_view (positions w)"

fun slots_len_sum :: "u64 list list \<Rightarrow> nat \<Rightarrow> nat" where
  "slots_len_sum slots 0 = 0"
| "slots_len_sum slots (Suc n) = slots_len_sum slots n + length (slots ! n)"

definition level_counts_wf :: "timer_wheel \<Rightarrow> bool" where
  "level_counts_wf w \<longleftrightarrow>
     length (level_counts w) = NUM_LEVELS \<and>
     (\<forall>l < NUM_LEVELS. level_counts w ! l = slots_len_sum (levels w ! l) WHEEL_SIZE)"

definition structural_wf :: "timer_wheel \<Rightarrow> bool" where
  "structural_wf w \<longleftrightarrow>
     length (levels w) = NUM_LEVELS \<and> (\<forall>l < NUM_LEVELS. length (levels w ! l) = WHEEL_SIZE)"

definition cached_min_valid :: "timer_wheel \<Rightarrow> bool" where
  "cached_min_valid w \<longleftrightarrow>
     (case cached_min w of
        Some m \<Rightarrow> (\<exists>k. wheel_view w k = Some m) \<and> (\<forall>k d. wheel_view w k = Some d \<longrightarrow> m \<le> d)
      | None \<Rightarrow> True)"

definition dl_pos_consistent :: "timer_wheel \<Rightarrow> bool" where
  "dl_pos_consistent w \<longleftrightarrow>
     (\<forall>rid \<in> dom (wheel_view w). rid \<in> dom (pos_view w) \<or> rid \<in> set (pending w)) \<and>
     (\<forall>rid \<in> dom (pos_view w). rid \<in> dom (wheel_view w))"

definition pos_levels_consistent :: "timer_wheel \<Rightarrow> bool" where
  "pos_levels_consistent w \<longleftrightarrow>
     (\<forall>rid pos. pos_view w rid = Some pos \<and> rid \<notin> set (pending w) \<longrightarrow>
        pos_level pos < NUM_LEVELS \<and> pos_slot pos < WHEEL_SIZE \<and>
        pos_idx pos < length (cell w (pos_level pos) (pos_slot pos)) \<and>
        cell w (pos_level pos) (pos_slot pos) ! pos_idx pos = rid) \<and>
     (\<forall>l < NUM_LEVELS. \<forall>s < WHEEL_SIZE. \<forall>i < length (cell w l s).
        cell w l s ! i \<in> dom (pos_view w)) \<and>
     (\<forall>l < NUM_LEVELS. \<forall>s < WHEEL_SIZE. \<forall>i < length (cell w l s). \<forall>pos.
        pos_view w (cell w l s ! i) = Some pos \<and> cell w l s ! i \<notin> set (pending w) \<longrightarrow>
        pos_level pos = l \<and> pos_slot pos = s \<and> pos_idx pos = i)"

definition position_ahead :: "timer_wheel \<Rightarrow> bool" where
  "position_ahead w \<longleftrightarrow>
     (\<forall>rid pos. pos_view w rid = Some pos \<and> rid \<notin> set (pending w) \<longrightarrow>
        drop_bit (pos_level pos * WHEEL_BITS) (elapsed w)
          < drop_bit (pos_level pos * WHEEL_BITS) (the (wheel_view w rid)))"

definition pending_expired :: "timer_wheel \<Rightarrow> bool" where
  "pending_expired w \<longleftrightarrow>
     (\<forall>rid d. rid \<in> set (pending w) \<and> wheel_view w rid = Some d \<longrightarrow> d \<le> elapsed w)"

definition pending_positions_disjoint :: "timer_wheel \<Rightarrow> bool" where
  "pending_positions_disjoint w \<longleftrightarrow> (\<forall>rid \<in> set (pending w). rid \<notin> dom (pos_view w))"

definition slot_matches_deadline :: "timer_wheel \<Rightarrow> bool" where
  "slot_matches_deadline w \<longleftrightarrow>
     (\<forall>rid pos. pos_view w rid = Some pos \<and> rid \<notin> set (pending w) \<longrightarrow>
        pos_slot pos
          = unat (drop_bit (pos_level pos * WHEEL_BITS) (the (wheel_view w rid)) AND 255))"

definition level_band :: "timer_wheel \<Rightarrow> bool" where
  "level_band w \<longleftrightarrow>
     (\<forall>rid pos d. pos_view w rid = Some pos \<and> rid \<notin> set (pending w) \<and>
        wheel_view w rid = Some d \<and> pos_level pos < 3 \<longrightarrow>
        int (unat d) - int (unat (elapsed w))
          < int (unat (push_bit ((pos_level pos + 1) * WHEEL_BITS) 1 :: u64)))"

definition wheel_wf :: "timer_wheel \<Rightarrow> bool" where
  "wheel_wf w \<longleftrightarrow>
     structural_wf w \<and> cached_min_valid w \<and> count_wf (deadlines w) \<and> level_counts_wf w"

definition full_wf :: "timer_wheel \<Rightarrow> bool" where
  "full_wf w \<longleftrightarrow>
     wheel_wf w \<and> dl_pos_consistent w \<and> pos_levels_consistent w \<and> position_ahead w \<and>
     pending_expired w \<and> pending_positions_disjoint w \<and> slot_matches_deadline w \<and> level_band w"

section \<open>Cells\<close>

text \<open>\<open>drop_bit (8 * l)\<close> as a division, at the width of the clock.\<close>

lemma unat_drop_level [u64_nat]: "unat (drop_bit (l * 8) (d :: u64)) = unat d div 256 ^ l"
proof -
  have "(2::nat) ^ (l * 8) = 256 ^ l"
    using power_mult [of "2::nat" 8 l] by (simp add: mult.commute)
  then show ?thesis by (simp add: unat_drop_bit_div)
qed

lemma cell_set_cell:
  assumes "structural_wf w" "l < 4" "s < 256" "l' < 4" "s' < 256"
  shows "cell (set_cell l s xs w) l' s' = (if l' = l \<and> s' = s then xs else cell w l' s')"
  using assms by (auto simp: set_cell_def structural_wf_def nth_list_update)

lemma structural_wf_set_cell [simp]:
  assumes "structural_wf w"
  shows "structural_wf (set_cell l s xs w)"
proof -
  have "length ((levels w)[l := (levels w ! l)[s := xs]] ! k) = 256" if "k < 4" for k
    using assms that by (cases "k = l") (auto simp: structural_wf_def)
  with assms show ?thesis by (simp add: set_cell_def structural_wf_def)
qed

lemma structural_wf_cong: "levels w' = levels w \<Longrightarrow> structural_wf w' = structural_wf w"
  by (simp add: structural_wf_def)

lemma set_cell_frame [simp]:
  "elapsed (set_cell l s xs w) = elapsed w"
  "pending (set_cell l s xs w) = pending w"
  "cached_min (set_cell l s xs w) = cached_min w"
  "deadlines (set_cell l s xs w) = deadlines w"
  "positions (set_cell l s xs w) = positions w"
  "level_counts (set_cell l s xs w) = level_counts w"
  by (simp_all add: set_cell_def)

lemma slots_len_sum_update:
  "s < n \<Longrightarrow> n \<le> length slots \<Longrightarrow>
     slots_len_sum (slots[s := xs]) n + length (slots ! s) = slots_len_sum slots n + length xs"
proof (induction n)
  case (Suc n)
  have frame: "slots_len_sum (slots[n := xs]) m = slots_len_sum slots m" if "m \<le> n" for m
    using that by (induction m) auto
  show ?case
  proof (cases "s = n")
    case True
    then show ?thesis using Suc.prems frame [of n] by simp
  next
    case False
    then show ?thesis using Suc by simp
  qed
qed simp

lemma slots_len_sum_ge: "s < n \<Longrightarrow> length (slots ! s) \<le> slots_len_sum slots n"
  by (induction n) (auto simp: less_Suc_eq)

lemma slots_len_sum_zero_iff: "slots_len_sum slots n = 0 \<longleftrightarrow> (\<forall>s < n. slots ! s = [])"
  by (induction n) (auto simp: less_Suc_eq)

text \<open>Writing a slot and correcting its level's counter keeps the counters true.\<close>

lemma level_counts_wf_set_cell:
  assumes wf: "structural_wf w" "level_counts_wf w" and ls: "l < 4" "s < 256"
    and lv: "levels w' = levels (set_cell l s xs w)"
    and cnt: "level_counts w' = (level_counts w)[l := c]"
      "c + length (cell w l s) = level_counts w ! l + length xs"
  shows "level_counts_wf w'"
proof -
  have "level_counts w' ! k = slots_len_sum (levels w' ! k) 256" if "k < 4" for k
  proof (cases "k = l")
    case True
    have len: "length (levels w) = 4" "length (levels w ! l) = 256" "length (level_counts w) = 4"
      using wf ls by (simp_all add: structural_wf_def level_counts_wf_def)
    have sum: "level_counts w ! l = slots_len_sum (levels w ! l) 256"
      using wf(2) ls by (simp add: level_counts_wf_def)
    have "levels w' ! l = (levels w ! l)[s := xs]" "level_counts w' ! l = c"
      using len ls lv cnt(1) by (simp_all add: set_cell_def)
    then show ?thesis
      using True ls len sum cnt(2) slots_len_sum_update [of s 256 "levels w ! l" xs] by simp
  next
    case False
    then show ?thesis
      using that wf lv cnt(1) by (simp add: level_counts_wf_def set_cell_def)
  qed
  then show ?thesis
    using wf(2) cnt(1) by (simp add: level_counts_wf_def)
qed

lemma level_count_ge_cell:
  "level_counts_wf w \<Longrightarrow> l < 4 \<Longrightarrow> s < 256 \<Longrightarrow> length (cell w l s) \<le> level_counts w ! l"
  by (simp add: level_counts_wf_def slots_len_sum_ge)

lemma level_count_zero_iff:
  "level_counts_wf w \<Longrightarrow> l < 4 \<Longrightarrow> level_counts w ! l = 0 \<longleftrightarrow> (\<forall>s < 256. cell w l s = [])"
  by (simp add: level_counts_wf_def slots_len_sum_zero_iff)

section \<open>Cells and positions\<close>

text \<open>
  \<open>C\<close> and \<open>P\<close> are inverse to each other; the ids of \<open>F\<close> are out of the cells, with a position
  that is stale.
\<close>

definition slots_ok ::
  "(nat \<Rightarrow> nat \<Rightarrow> u64 list) \<Rightarrow> (u64 \<Rightarrow> wheel_pos option) \<Rightarrow> u64 set \<Rightarrow> bool" where
  "slots_ok C P F \<longleftrightarrow>
     (\<forall>l < 4. \<forall>s < 256. \<forall>i < length (C l s).
        C l s ! i \<notin> F \<and> P (C l s ! i) = Some \<lparr>pos_level = l, pos_slot = s, pos_idx = i\<rparr>) \<and>
     (\<forall>r p. P r = Some p \<longrightarrow> r \<notin> F \<longrightarrow>
        pos_level p < 4 \<and> pos_slot p < 256 \<and>
        pos_idx p < length (C (pos_level p) (pos_slot p)) \<and>
        C (pos_level p) (pos_slot p) ! pos_idx p = r)"

lemma slots_okI:
  assumes "\<And>l s i. l < 4 \<Longrightarrow> s < 256 \<Longrightarrow> i < length (C l s) \<Longrightarrow>
      C l s ! i \<notin> F \<and> P (C l s ! i) = Some \<lparr>pos_level = l, pos_slot = s, pos_idx = i\<rparr>"
    and "\<And>r p. P r = Some p \<Longrightarrow> r \<notin> F \<Longrightarrow>
      pos_level p < 4 \<and> pos_slot p < 256 \<and> pos_idx p < length (C (pos_level p) (pos_slot p)) \<and>
      C (pos_level p) (pos_slot p) ! pos_idx p = r"
  shows "slots_ok C P F"
  using assms by (auto simp: slots_ok_def)

lemma slots_ok_cell:
  "slots_ok C P F \<Longrightarrow> l < 4 \<Longrightarrow> s < 256 \<Longrightarrow> i < length (C l s) \<Longrightarrow>
     P (C l s ! i) = Some \<lparr>pos_level = l, pos_slot = s, pos_idx = i\<rparr>"
  by (simp add: slots_ok_def)

lemma slots_ok_notin:
  "slots_ok C P F \<Longrightarrow> l < 4 \<Longrightarrow> s < 256 \<Longrightarrow> r \<in> set (C l s) \<Longrightarrow> r \<notin> F"
  by (auto simp: slots_ok_def in_set_conv_nth)

lemma slots_ok_pos:
  "slots_ok C P F \<Longrightarrow> P r = Some p \<Longrightarrow> r \<notin> F \<Longrightarrow>
     pos_level p < 4 \<and> pos_slot p < 256 \<and> pos_idx p < length (C (pos_level p) (pos_slot p)) \<and>
     C (pos_level p) (pos_slot p) ! pos_idx p = r"
  by (simp add: slots_ok_def)

lemma slots_ok_cong:
  assumes C': "\<And>l s. l < 4 \<Longrightarrow> s < 256 \<Longrightarrow> C' l s = C l s" and ok: "slots_ok C P F"
  shows "slots_ok C' P F"
proof (rule slots_okI)
  fix r p assume "P r = Some p" "r \<notin> F"
  from slots_ok_pos [OF ok this]
  show "pos_level p < 4 \<and> pos_slot p < 256 \<and> pos_idx p < length (C' (pos_level p) (pos_slot p)) \<and>
      C' (pos_level p) (pos_slot p) ! pos_idx p = r"
    by (simp add: C')
qed (use ok in \<open>simp add: C' slots_ok_def\<close>)

lemma slots_ok_member:
  assumes "slots_ok C P F" "l < 4" "s < 256" "r \<in> set (C l s)"
  obtains i where "i < length (C l s)" "C l s ! i = r"
    "P r = Some \<lparr>pos_level = l, pos_slot = s, pos_idx = i\<rparr>"
  using assms slots_ok_cell by (metis in_set_conv_nth)

lemma slots_ok_unique:
  assumes "slots_ok C P F" "l < 4" "s < 256" "l' < 4" "s' < 256"
    "i < length (C l s)" "j < length (C l' s')" "C l s ! i = C l' s' ! j"
  shows "l = l' \<and> s = s' \<and> i = j"
proof -
  have "Some \<lparr>pos_level = l, pos_slot = s, pos_idx = i\<rparr> = Some \<lparr>pos_level = l', pos_slot = s', pos_idx = j\<rparr>"
    using slots_ok_cell [OF assms(1-3,6)] slots_ok_cell [OF assms(1,4,5,7)] assms(8) by metis
  then show ?thesis by simp
qed

lemma slots_ok_distinct:
  assumes "slots_ok C P F" "l < 4" "s < 256"
  shows "distinct (C l s)"
  unfolding distinct_conv_nth using slots_ok_unique [OF assms assms(2,3)] by blast

text \<open>Filing an id that is in flight, or that no map knows.\<close>

lemma slots_ok_push:
  assumes ok: "slots_ok C P F" and ls: "l < 4" "s < 256"
    and r: "r \<in> F \<or> r \<notin> dom P"
    and C': "\<And>l' s'. l' < 4 \<Longrightarrow> s' < 256 \<Longrightarrow>
      C' l' s' = (if l' = l \<and> s' = s then C l s @ [r] else C l' s')"
  shows "slots_ok C' (P(r \<mapsto> \<lparr>pos_level = l, pos_slot = s, pos_idx = length (C l s)\<rparr>)) (F - {r})"
proof (rule slots_okI)
  have fresh: "r \<notin> set (C l' s')" if "l' < 4" "s' < 256" for l' s'
    using r slots_ok_notin [OF ok that] slots_ok_member [OF ok that] by (metis domI)
  fix l' s' i assume "l' < 4" "s' < 256" "i < length (C' l' s')"
  then show "C' l' s' ! i \<notin> F - {r} \<and>
      (P(r \<mapsto> \<lparr>pos_level = l, pos_slot = s, pos_idx = length (C l s)\<rparr>)) (C' l' s' ! i)
        = Some \<lparr>pos_level = l', pos_slot = s', pos_idx = i\<rparr>"
    using fresh [of l' s'] ok ls
    by (auto simp: C' nth_append slots_ok_cell slots_ok_def nth_mem less_Suc_eq split: if_splits)
next
  fix r' p
  assume "(P(r \<mapsto> \<lparr>pos_level = l, pos_slot = s, pos_idx = length (C l s)\<rparr>)) r' = Some p"
    "r' \<notin> F - {r}"
  then show "pos_level p < 4 \<and> pos_slot p < 256 \<and>
      pos_idx p < length (C' (pos_level p) (pos_slot p)) \<and>
      C' (pos_level p) (pos_slot p) ! pos_idx p = r'"
    using slots_ok_pos [OF ok, of r' p] ls
    by (auto simp: C' nth_append split: if_splits)
qed

text \<open>Emptying a cell puts its ids in flight; forgetting the position of an id in flight.\<close>

lemma slots_ok_drain:
  assumes ok: "slots_ok C P {}" and ls: "l < 4" "s < 256"
    and C': "\<And>l' s'. l' < 4 \<Longrightarrow> s' < 256 \<Longrightarrow> C' l' s' = (if l' = l \<and> s' = s then [] else C l' s')"
  shows "slots_ok C' P (set (C l s))"
proof (rule slots_okI)
  fix l' s' i assume b: "l' < 4" "s' < 256" and i: "i < length (C' l' s')"
  then have neq: "\<not> (l' = l \<and> s' = s)" by (auto simp: C')
  then have eq: "C' l' s' = C l' s'" using b by (simp only: C' if_False)
  have "C l' s' ! i \<notin> set (C l s)"
    using slots_ok_unique [OF ok b ls] i neq unfolding eq in_set_conv_nth by metis
  then show "C' l' s' ! i \<notin> set (C l s) \<and>
      P (C' l' s' ! i) = Some \<lparr>pos_level = l', pos_slot = s', pos_idx = i\<rparr>"
    using slots_ok_cell [OF ok b] i by (simp add: eq)
next
  fix r p assume p: "P r = Some p" and r: "r \<notin> set (C l s)"
  have pos: "pos_level p < 4" "pos_slot p < 256" "pos_idx p < length (C (pos_level p) (pos_slot p))"
      "C (pos_level p) (pos_slot p) ! pos_idx p = r"
    using slots_ok_pos [OF ok p] by simp_all
  then have "\<not> (pos_level p = l \<and> pos_slot p = s)"
    using r nth_mem by blast
  with pos show "pos_level p < 4 \<and> pos_slot p < 256 \<and>
      pos_idx p < length (C' (pos_level p) (pos_slot p)) \<and>
      C' (pos_level p) (pos_slot p) ! pos_idx p = r"
    by (simp add: C' del: de_Morgan_conj)
qed

lemma slots_ok_forget:
  assumes "slots_ok C P F" "r \<in> F \<or> r \<notin> dom P"
  shows "slots_ok C (P(r := None)) (F - {r})"
proof (rule slots_okI)
  fix l s i assume "l < 4" "s < 256" "i < length (C l s)"
  then show "C l s ! i \<notin> F - {r} \<and>
      (P(r := None)) (C l s ! i) = Some \<lparr>pos_level = l, pos_slot = s, pos_idx = i\<rparr>"
    using assms slots_ok_cell [OF assms(1), of l s i] by (auto simp: slots_ok_def)
next
  fix r' p assume "(P(r := None)) r' = Some p" "r' \<notin> F - {r}"
  then show "pos_level p < 4 \<and> pos_slot p < 256 \<and> pos_idx p < length (C (pos_level p) (pos_slot p)) \<and>
      C (pos_level p) (pos_slot p) ! pos_idx p = r'"
    using slots_ok_pos [OF assms(1), of r' p] by (auto split: if_splits)
qed

text \<open>Taking the id at index \<open>i\<close> out of a cell; the last id of the cell moves into its place.\<close>

lemma swap_remove_at_end: "i = length xs - 1 \<Longrightarrow> swap_remove i xs = butlast xs"
  by (cases xs rule: rev_cases) (auto simp: swap_remove_def)

lemma swap_remove_cell:
  assumes ok: "slots_ok C P {}" and ls: "l < 4" "s < 256" and i: "i < length (C l s)"
    and C': "\<And>l' s'. l' < 4 \<Longrightarrow> s' < 256 \<Longrightarrow>
      C' l' s' = (if l' = l \<and> s' = s then swap_remove i (C l s) else C l' s')"
    and P': "P' = (let Q = P(C l s ! i := None)
                   in if i < length (C l s) - 1
                      then Q(last (C l s) \<mapsto> \<lparr>pos_level = l, pos_slot = s, pos_idx = i\<rparr>) else Q)"
    and b: "l' < 4" "s' < 256" and j: "j < length (C' l' s')"
  shows "P' (C' l' s' ! j) = Some \<lparr>pos_level = l', pos_slot = s', pos_idx = j\<rparr>"
proof -
  let ?n = "length (C l s) - 1"
  have n: "?n < length (C l s)" "last (C l s) = C l s ! ?n"
    using i by (auto intro!: last_nth_of)
  note uniq = slots_ok_unique [OF ok _ _ ls]
  show ?thesis
  proof (cases "l' = l \<and> s' = s")
    case True
    then have j': "j < ?n" and nth: "C' l' s' ! j = (if j = i then last (C l s) else C l s ! j)"
      using j ls i by (simp_all add: C' nth_swap_remove)
    show ?thesis
    proof (cases "j = i")
      case True
      then show ?thesis using nth j' \<open>l' = l \<and> s' = s\<close> by (simp add: P' Let_def)
    next
      case False
      then have "C l s ! j \<noteq> C l s ! i" "C l s ! j \<noteq> last (C l s)"
        using uniq [OF ls, of j] i n j' by fastforce+
      then show ?thesis
        using nth False j' \<open>l' = l \<and> s' = s\<close> slots_ok_cell [OF ok ls, of j]
        by (simp add: P' Let_def)
    qed
  next
    case False
    then have eq: "C' l' s' = C l' s'" using b by (simp only: C' if_False)
    then have j: "j < length (C l' s')" using j by simp
    have "C l' s' ! j \<noteq> C l s ! i" "C l' s' ! j \<noteq> last (C l s)"
      using uniq [OF b j i] uniq [OF b j n(1)] False n(2) by auto
    then show ?thesis
      using slots_ok_cell [OF ok b j] by (simp add: eq P' Let_def)
  qed
qed

lemma swap_remove_pos:
  assumes ok: "slots_ok C P {}" and ls: "l < 4" "s < 256" and i: "i < length (C l s)"
    and C': "\<And>l' s'. l' < 4 \<Longrightarrow> s' < 256 \<Longrightarrow>
      C' l' s' = (if l' = l \<and> s' = s then swap_remove i (C l s) else C l' s')"
    and P': "P' = (let Q = P(C l s ! i := None)
                   in if i < length (C l s) - 1
                      then Q(last (C l s) \<mapsto> \<lparr>pos_level = l, pos_slot = s, pos_idx = i\<rparr>) else Q)"
    and p: "P' r = Some p"
  shows "pos_level p < 4 \<and> pos_slot p < 256 \<and> pos_idx p < length (C' (pos_level p) (pos_slot p)) \<and>
    C' (pos_level p) (pos_slot p) ! pos_idx p = r"
proof -
  let ?n = "length (C l s) - 1"
  have n: "last (C l s) = C l s ! ?n" using i by (auto intro!: last_nth_of)
  show ?thesis
  proof (cases "i < ?n \<and> r = last (C l s)")
    case True
    then have "p = \<lparr>pos_level = l, pos_slot = s, pos_idx = i\<rparr>" using p by (simp add: P' Let_def)
    then show ?thesis using True ls i by (simp add: C' nth_swap_remove)
  next
    case False
    then have "P r = Some p" and r: "r \<noteq> C l s ! i"
      using p by (auto simp: P' Let_def split: if_splits)
    then have pos: "pos_level p < 4" "pos_slot p < 256"
        "pos_idx p < length (C (pos_level p) (pos_slot p))"
        "C (pos_level p) (pos_slot p) ! pos_idx p = r"
      using slots_ok_pos [OF ok] by auto
    show ?thesis
    proof (cases "pos_level p = l \<and> pos_slot p = s")
      case True
      then have k: "pos_idx p < length (C l s)" "C l s ! pos_idx p = r" using pos by auto
      moreover have "i = ?n" if "\<not> i < ?n" using that i by linarith
      ultimately have "pos_idx p \<noteq> i" "pos_idx p \<noteq> ?n" using r False n by auto
      with k have "pos_idx p < ?n" by simp
      then show ?thesis
        using True k ls i \<open>pos_idx p \<noteq> i\<close> by (simp add: C' nth_swap_remove)
    next
      case False
      then have "C' (pos_level p) (pos_slot p) = C (pos_level p) (pos_slot p)"
        using pos by (simp only: C' if_False)
      with pos show ?thesis by simp
    qed
  qed
qed

lemma slots_ok_swap_remove:
  assumes ok: "slots_ok C P {}" and ls: "l < 4" "s < 256" and i: "i < length (C l s)"
    and C': "\<And>l' s'. l' < 4 \<Longrightarrow> s' < 256 \<Longrightarrow>
      C' l' s' = (if l' = l \<and> s' = s then swap_remove i (C l s) else C l' s')"
    and P': "P' = (let Q = P(C l s ! i := None)
                   in if i < length (C l s) - 1
                      then Q(last (C l s) \<mapsto> \<lparr>pos_level = l, pos_slot = s, pos_idx = i\<rparr>) else Q)"
  shows "slots_ok C' P' {}"
  using swap_remove_cell [OF ok ls i C' P'] swap_remove_pos [OF ok ls i C' P'] by (intro slots_okI) simp_all

section \<open>Cells and deadlines\<close>

text \<open>The id \<open>r\<close> belongs into slot \<open>s\<close> of level \<open>l\<close> at clock \<open>e\<close>.\<close>

definition filed :: "(u64 \<Rightarrow> u64 option) \<Rightarrow> u64 \<Rightarrow> nat \<Rightarrow> nat \<Rightarrow> u64 \<Rightarrow> bool" where
  "filed D e l s r \<longleftrightarrow>
     (\<exists>d. D r = Some d \<and> s = unat d div 256 ^ l mod 256 \<and>
          unat e div 256 ^ l < unat d div 256 ^ l \<and>
          (l < 3 \<longrightarrow> unat d < unat e + 256 ^ (l + 1)))"

definition cells_filed :: "timer_wheel \<Rightarrow> bool" where
  "cells_filed w \<longleftrightarrow>
     (\<forall>l < 4. \<forall>s < 256. \<forall>r \<in> set (cell w l s). filed (wheel_view w) (elapsed w) l s r)"

lemma filedE:
  assumes "filed D e l s r"
  obtains d where "D r = Some d" "s = unat d div 256 ^ l mod 256"
    "unat e div 256 ^ l < unat d div 256 ^ l" "l < 3 \<longrightarrow> unat d < unat e + 256 ^ (l + 1)"
  using assms by (auto simp: filed_def)

lemma filed_late:
  assumes "filed D e l s r" "D r = Some d"
  shows "unat e < unat d"
proof (rule ccontr)
  assume "\<not> unat e < unat d"
  then have "unat d div 256 ^ l \<le> unat e div 256 ^ l" by (intro div_le_mono) simp
  with assms show False by (auto simp: filed_def)
qed

lemma unat_band: "l < 3 \<Longrightarrow> unat (push_bit ((l + 1) * 8) 1 :: u64) = 256 ^ (l + 1)"
proof -
  assume "l < 3"
  then consider "l = 0" | "l = 1" | "l = 2" by linarith
  then show ?thesis by cases (simp_all add: push_bit_eq_mult)
qed

lemma filed_iff:
  assumes "D r = Some d" "pos_level p = l" "pos_slot p = s"
  shows "filed D e l s r \<longleftrightarrow>
     drop_bit (pos_level p * 8) e < drop_bit (pos_level p * 8) d \<and>
     pos_slot p = unat (drop_bit (pos_level p * 8) d AND 255) \<and>
     (pos_level p < 3 \<longrightarrow>
        int (unat d) - int (unat e) < int (unat (push_bit ((pos_level p + 1) * 8) 1 :: u64)))"
proof -
  have "int (unat d) - int (unat e) < int (unat (push_bit ((l + 1) * 8) 1 :: u64))
      \<longleftrightarrow> unat d < unat e + 256 ^ (l + 1)" if "l < 3"
    unfolding unat_band [OF that] by linarith
  then show ?thesis
    using assms unfolding filed_def by (simp only: u64_nat option.inject) blast
qed

lemma pos_levels_consistent_iff:
  assumes "pending_positions_disjoint w"
  shows "pos_levels_consistent w \<longleftrightarrow> slots_ok (cell w) (pos_view w) {}"
proof
  assume c: "pos_levels_consistent w"
  show "slots_ok (cell w) (pos_view w) {}"
  proof (rule slots_okI)
    fix l s i assume b: "l < 4" "s < 256" "i < length (cell w l s)"
    then obtain p where p: "pos_view w (cell w l s ! i) = Some p"
      using c unfolding pos_levels_consistent_def by blast
    then have "cell w l s ! i \<notin> set (pending w)"
      using assms by (auto simp: pending_positions_disjoint_def)
    with c b p have "pos_level p = l \<and> pos_slot p = s \<and> pos_idx p = i"
      unfolding pos_levels_consistent_def by blast
    then show "cell w l s ! i \<notin> {} \<and>
        pos_view w (cell w l s ! i) = Some \<lparr>pos_level = l, pos_slot = s, pos_idx = i\<rparr>"
      using p by auto
  qed (use assms c in \<open>auto simp: pos_levels_consistent_def pending_positions_disjoint_def\<close>)
next
  assume ok: "slots_ok (cell w) (pos_view w) {}"
  then show "pos_levels_consistent w"
    unfolding pos_levels_consistent_def using slots_ok_pos [OF ok] slots_ok_cell [OF ok] by auto
qed

lemma cells_filed_iff:
  assumes ok: "slots_ok (cell w) (pos_view w) {}" and dp: "dl_pos_consistent w"
    and pp: "pending_positions_disjoint w"
  shows "cells_filed w \<longleftrightarrow> position_ahead w \<and> slot_matches_deadline w \<and> level_band w"
proof -
  have "cells_filed w \<longleftrightarrow>
      (\<forall>r p. pos_view w r = Some p \<longrightarrow>
         filed (wheel_view w) (elapsed w) (pos_level p) (pos_slot p) r)" (is "_ \<longleftrightarrow> ?R")
  proof
    assume "cells_filed w"
    then show ?R
      using slots_ok_pos [OF ok] unfolding cells_filed_def by (metis empty_iff nth_mem)
  next
    assume ?R
    then show "cells_filed w"
      unfolding cells_filed_def by (metis slots_ok_member [OF ok] wheel_pos.select_convs(1,2))
  qed
  moreover have "\<exists>d. wheel_view w r = Some d" "r \<notin> set (pending w)" if "pos_view w r = Some p" for r p
    using that dp pp by (auto simp: dl_pos_consistent_def pending_positions_disjoint_def)
  ultimately show ?thesis
    unfolding position_ahead_def slot_matches_deadline_def level_band_def
    by (metis filed_iff option.sel)
qed

lemma full_wf_iff:
  "full_wf w \<longleftrightarrow>
     wheel_wf w \<and> dl_pos_consistent w \<and> slots_ok (cell w) (pos_view w) {} \<and> cells_filed w \<and>
     pending_expired w \<and> pending_positions_disjoint w"
  unfolding full_wf_def using pos_levels_consistent_iff cells_filed_iff by blast

lemma full_wfD:
  assumes "full_wf w"
  shows "structural_wf w" "level_counts_wf w" "count_wf (deadlines w)" "cached_min_valid w"
    "dl_pos_consistent w" "slots_ok (cell w) (pos_view w) {}" "cells_filed w"
    "pending_expired w" "pending_positions_disjoint w"
  using assms by (simp_all add: full_wf_iff wheel_wf_def)

lemma full_wfI:
  assumes "structural_wf w" "level_counts_wf w" "count_wf (deadlines w)" "cached_min_valid w"
    "dl_pos_consistent w" "slots_ok (cell w) (pos_view w) {}" "cells_filed w"
    "pending_expired w" "pending_positions_disjoint w"
  shows "full_wf w"
  using assms by (simp add: full_wf_iff wheel_wf_def)

end
