(* ===== verification/Wheel_Ops.thy ===== *)
theory Wheel_Ops
  imports Wheel_Inv
begin

text \<open>
  Correctness of the construction of a timer wheel and of \<open>insert\<close> and \<open>remove\<close>: they keep
  \<open>full_wf\<close> and change the map from ids to deadlines the way a map changes.
\<close>

section \<open>The new wheel\<close>

lemma wheel_view_new [simp]: "wheel_view wheel_new = Map.empty"
  by (simp add: wheel_view_def wheel_new_def)

lemma full_wf_new [simp]: "full_wf wheel_new"
proof (rule full_wfI)
  have cells: "cell wheel_new l s = []" if "l < 4" "s < 256" for l s
    using that by (simp add: wheel_new_def del: replicate.simps)
  have rows: "levels wheel_new ! l = replicate 256 []" if "l < 4" for l
    using that by (simp add: wheel_new_def)
  show "structural_wf wheel_new"
    using rows by (simp add: structural_wf_def) (simp add: wheel_new_def)
  have "slots_len_sum (replicate 256 []) 256 = 0"
    unfolding slots_len_sum_zero_iff by simp
  moreover have "level_counts wheel_new ! l = 0" if "l < 4" for l
    using that by (simp add: wheel_new_def nth_Cons split: nat.splits)
  ultimately show "level_counts_wf wheel_new"
    using rows by (simp add: level_counts_wf_def) (simp add: wheel_new_def)
  show "slots_ok (cell wheel_new) (pos_view wheel_new) {}"
    using cells by (simp add: slots_ok_def) (simp add: wheel_new_def)
  show "cells_filed wheel_new"
    using cells by (simp add: cells_filed_def)
qed (simp_all add: wheel_new_def cached_min_valid_def dl_pos_consistent_def pending_expired_def
  pending_positions_disjoint_def wheel_view_def)

section \<open>The minimum cache\<close>

lemma invalidate_min_frame [simp]:
  "levels (invalidate_min d w) = levels w"
  "elapsed (invalidate_min d w) = elapsed w"
  "pending (invalidate_min d w) = pending w"
  "deadlines (invalidate_min d w) = deadlines w"
  "positions (invalidate_min d w) = positions w"
  "level_counts (invalidate_min d w) = level_counts w"
  by (auto simp: invalidate_min_def split: option.splits)

text \<open>
  Dropping the cache when the minimum may be the deadline that goes: what is left of it is a
  minimum attained by another timer.
\<close>

lemma invalidate_min_cached:
  assumes "cached_min_valid w" "cached_min (invalidate_min d w) = Some m" "wheel_view w rid = Some d"
  obtains k where "k \<noteq> rid" "wheel_view w k = Some m" "\<forall>k d. wheel_view w k = Some d \<longrightarrow> m \<le> d"
proof -
  have m: "cached_min w = Some m" "\<not> d \<le> m"
    using assms(2) by (auto simp: invalidate_min_def split: option.splits if_splits)
  then obtain k where k: "wheel_view w k = Some m" "\<forall>k d. wheel_view w k = Some d \<longrightarrow> m \<le> d"
    using assms(1) by (auto simp: cached_min_valid_def)
  then have "k \<noteq> rid" using m(2) assms(3) by auto
  with k that show thesis by blast
qed

lemma cached_min_valid_drop:
  assumes "cached_min_valid w" "wheel_view w rid = Some d"
    "cached_min w' = cached_min (invalidate_min d w)" "wheel_view w' = (wheel_view w)(rid := None)"
  shows "cached_min_valid w'"
proof (cases "cached_min w'")
  case (Some m)
  then obtain k where "k \<noteq> rid" "wheel_view w k = Some m"
      "\<forall>k d. wheel_view w k = Some d \<longrightarrow> m \<le> d"
    using invalidate_min_cached [OF assms(1) _ assms(2)] assms(3) by metis
  then show ?thesis
    using Some assms(4) by (auto simp: cached_min_valid_def intro!: exI [of _ k])
qed (simp add: cached_min_valid_def)

lemma cached_min_valid_add:
  assumes "cached_min_valid w" "wheel_view w rid = None"
    "cached_min w' = (case cached_min w of Some m \<Rightarrow> Some (min d m) | None \<Rightarrow> None)"
    "wheel_view w' = (wheel_view w)(rid \<mapsto> d)"
  shows "cached_min_valid w'"
proof (cases "cached_min w")
  case (Some m)
  then obtain k where k: "wheel_view w k = Some m" "\<forall>k d. wheel_view w k = Some d \<longrightarrow> m \<le> d"
    using assms(1) by (auto simp: cached_min_valid_def)
  then have "k \<noteq> rid" using assms(2) by auto
  then have "\<exists>k'. wheel_view w' k' = Some (min d m)"
    using k(1) assms(4) by (cases "d \<le> m") (auto simp: min_def)
  moreover have "min d m \<le> x" if "wheel_view w' k' = Some x" for k' x
    using that k(2) assms(4) by (auto simp: min_le_iff_disj split: if_splits)
  ultimately show ?thesis
    using Some assms(3) by (simp add: cached_min_valid_def)
qed (simp add: cached_min_valid_def assms(3))

section \<open>Taking an id out of its slot\<close>

lemma wheel_remove_inner_frame [simp]:
  "elapsed (wheel_remove_inner rid w) = elapsed w"
  "pending (wheel_remove_inner rid w) = pending w"
  "cached_min (wheel_remove_inner rid w) = cached_min w"
  "deadlines (wheel_remove_inner rid w) = deadlines w"
  by (auto simp: wheel_remove_inner_def slot_swap_remove_def slot_pop_def Let_def
      split: option.splits prod.splits)

lemma wheel_remove_inner_miss:
  assumes "pos_view w rid = None"
  shows "levels (wheel_remove_inner rid w) = levels w"
    "level_counts (wheel_remove_inner rid w) = level_counts w"
    "pos_view (wheel_remove_inner rid w) = pos_view w"
proof -
  obtain ps where rm: "vm_remove rid (positions w) = (None, ps)"
    using assms vm_remove_result [of rid "positions w"] by (metis prod.collapse)
  moreover have "vm_view ps = pos_view w"
    using vm_view_remove [of rid "positions w"] rm assms by (simp add: fun_upd_idem)
  ultimately show "levels (wheel_remove_inner rid w) = levels w"
    "level_counts (wheel_remove_inner rid w) = level_counts w"
    "pos_view (wheel_remove_inner rid w) = pos_view w"
    by (simp_all add: wheel_remove_inner_def)
qed

lemma wheel_remove_inner_hit:
  assumes p: "pos_view w rid = Some \<lparr>pos_level = l, pos_slot = s, pos_idx = i\<rparr>"
    and b: "l < 4" "s < 256" "i < length (cell w l s)" "cell w l s ! i = rid"
  defines "w' \<equiv> wheel_remove_inner rid w"
  shows "levels w' = levels (set_cell l s (swap_remove i (cell w l s)) w)"
    and "level_counts w' = (level_counts w)[l := level_counts w ! l - 1]"
    and "pos_view w' =
      (let Q = (pos_view w)(cell w l s ! i := None)
       in if i < length (cell w l s) - 1
          then Q(last (cell w l s) \<mapsto> \<lparr>pos_level = l, pos_slot = s, pos_idx = i\<rparr>) else Q)"
proof -
  obtain ps where rm: "vm_remove rid (positions w) = (Some \<lparr>pos_level = l, pos_slot = s, pos_idx = i\<rparr>, ps)"
    using p vm_remove_result [of rid "positions w"] by (metis prod.collapse)
  have ps: "vm_view ps = (pos_view w)(rid := None)"
    using vm_view_remove [of rid "positions w"] rm by simp
  have le: "i \<le> length (cell w l s) - 1" "0 < length (cell w l s)"
    using b(3) by linarith+
  have last: "cell w l s ! (length (cell w l s) - 1) = last (cell w l s)"
    using last_nth_of [OF b(3)] by simp
  note compute = w'_def wheel_remove_inner_def rm Let_def slot_swap_remove_def slot_pop_def
    set_cell_def b(1,2) le last
  show "levels w' = levels (set_cell l s (swap_remove i (cell w l s)) w)"
    using swap_remove_at_end [of i "cell w l s"] le by (simp add: compute)
  show "level_counts w' = (level_counts w)[l := level_counts w ! l - 1]"
    using le by (simp add: compute)
  show "pos_view w' =
      (let Q = (pos_view w)(cell w l s ! i := None)
       in if i < length (cell w l s) - 1
          then Q(last (cell w l s) \<mapsto> \<lparr>pos_level = l, pos_slot = s, pos_idx = i\<rparr>) else Q)"
    using ps b(4) last by (simp add: compute vm_view_insert)
qed

lemma set_swap_remove:
  assumes "distinct xs" "i < length xs"
  shows "set (swap_remove i xs) = set xs - {xs ! i}"
proof -
  obtain ys z where xs: "xs = ys @ [z]" using assms(2) by (cases xs rule: rev_cases) auto
  show ?thesis
  proof (cases "i < length ys")
    case True
    then have "set (ys[i := z]) = insert z (set ys - {ys ! i})"
      using assms(1) by (simp add: xs set_update_distinct)
    with True assms(1) show ?thesis
      by (auto simp: swap_remove_def xs list_update_append nth_append)
  next
    case False
    then have "i = length xs - 1" using assms(2) by (simp add: xs)
    with assms(1) show ?thesis
      by (auto simp: swap_remove_at_end xs nth_append)
  qed
qed

lemma wheel_remove_inner_spec:
  fixes rid :: u64
  assumes st: "structural_wf w" and cnt: "level_counts_wf w"
    and ok: "slots_ok (cell w) (pos_view w) {}"
  defines "w' \<equiv> wheel_remove_inner rid w"
  shows "structural_wf w'" "level_counts_wf w'" "slots_ok (cell w') (pos_view w') {}"
    "dom (pos_view w') = dom (pos_view w) - {rid}"
    "\<And>l s. l < 4 \<Longrightarrow> s < 256 \<Longrightarrow> set (cell w' l s) = set (cell w l s) - {rid}"
proof -
  have "structural_wf w' \<and> level_counts_wf w' \<and> slots_ok (cell w') (pos_view w') {} \<and>
      dom (pos_view w') = dom (pos_view w) - {rid} \<and>
      (\<forall>l < 4. \<forall>s < 256. set (cell w' l s) = set (cell w l s) - {rid})"
  proof (cases "pos_view w rid")
    case None
    note miss = wheel_remove_inner_miss [OF None, folded w'_def]
    have "rid \<notin> set (cell w l s)" if "l < 4" "s < 256" for l s
      using slots_ok_member [OF ok that] None by (metis option.distinct(1))
    then show ?thesis
      using miss None assms by (auto simp: structural_wf_def level_counts_wf_def)
  next
    case (Some p)
    obtain l s i where p: "p = \<lparr>pos_level = l, pos_slot = s, pos_idx = i\<rparr>"
      by (cases p) auto
    have b: "l < 4" "s < 256" "i < length (cell w l s)" "cell w l s ! i = rid"
      using slots_ok_pos [OF ok Some] by (auto simp: p)
    note hit = wheel_remove_inner_hit [OF Some [unfolded p] b, folded w'_def]
    have C': "cell w' l' s' = (if l' = l \<and> s' = s then swap_remove i (cell w l s) else cell w l' s')"
      if "l' < 4" "s' < 256" for l' s'
      using cell_set_cell [OF st b(1,2) that] by (simp add: hit(1))
    have ok': "slots_ok (cell w') (pos_view w') {}"
      by (rule slots_ok_swap_remove [OF ok b(1-3) C' hit(3)])
    have "structural_wf w'"
      using st structural_wf_cong [OF hit(1)] by simp
    moreover have "level_counts_wf w'"
      using level_count_ge_cell [OF cnt b(1,2)] b(3)
      by (intro level_counts_wf_set_cell [OF st cnt b(1,2) hit(1,2)]) simp
    moreover have "set (cell w' l' s') = set (cell w l' s') - {rid}" if "l' < 4" "s' < 256" for l' s'
    proof (cases "l' = l \<and> s' = s")
      case True
      then show ?thesis
        using b C' [OF that] set_swap_remove [OF slots_ok_distinct [OF ok b(1,2)] b(3)] by simp
    next
      case False
      then have "rid \<notin> set (cell w l' s')"
        using slots_ok_unique [OF ok that b(1,2) _ b(3)] b(4) by (metis in_set_conv_nth)
      with False show ?thesis using C' [OF that] by (simp add: Diff_triv del: de_Morgan_conj)
    qed
    moreover have "dom (pos_view w') = dom (pos_view w) - {rid}"
    proof -
      let ?n = "length (cell w l s) - 1"
      have n: "?n < length (cell w l s)" "last (cell w l s) = cell w l s ! ?n"
        using b(3) last_nth_of [OF b(3)] by auto
      have "last (cell w l s) \<in> dom (pos_view w)"
        using slots_ok_cell [OF ok b(1,2) n(1)] n(2) by auto
      moreover have "last (cell w l s) \<noteq> rid" if "i < ?n"
        using slots_ok_unique [OF ok b(1,2) b(1,2) b(3) n(1)] b(4) n(2) that by auto
      ultimately show ?thesis using b(4) by (auto simp: hit(3) Let_def split: if_splits)
    qed
    ultimately show ?thesis using ok' by blast
  qed
  then show "structural_wf w'" "level_counts_wf w'" "slots_ok (cell w') (pos_view w') {}"
    "dom (pos_view w') = dom (pos_view w) - {rid}"
    "\<And>l s. l < 4 \<Longrightarrow> s < 256 \<Longrightarrow> set (cell w' l s) = set (cell w l s) - {rid}"
    by blast+
qed

section \<open>Filing an id\<close>

lemma slot_push_frame [simp]:
  "elapsed (slot_push l s r w) = elapsed w"
  "pending (slot_push l s r w) = pending w"
  "cached_min (slot_push l s r w) = cached_min w"
  "deadlines (slot_push l s r w) = deadlines w"
  "positions (slot_push l s r w) = positions w"
  "levels (slot_push l s r w) = levels (set_cell l s (cell w l s @ [r]) w)"
  "level_counts (slot_push l s r w) = (level_counts w)[l := level_counts w ! l + 1]"
  by (simp_all add: slot_push_def Let_def set_cell_def)

text \<open>The level that \<open>level_slot\<close> selects for a deadline ahead of the clock.\<close>

lemma unat_less_literals [u64_nat]:
  "(x :: u64) < 256 \<longleftrightarrow> unat x < 256"
  "(x :: u64) < 65536 \<longleftrightarrow> unat x < 65536"
  "(x :: u64) < 16777216 \<longleftrightarrow> unat x < 16777216"
  by (simp_all add: word_less_nat_alt)

lemma level_slot_filed:
  assumes "e < d" "level_slot d e = (l, s)" "D r = Some d"
  shows "l < 4" "s < 256" "filed D e l s r"
proof -
  let ?k = "unat d - unat e"
  have lt: "unat e < unat d" using assms(1) by (simp add: u64_nat)
  have delta: "unat (wrapping_sub_u64 d e) = ?k"
    using assms(1) by (simp add: wrapping_sub_u64_def u64_nat less_imp_le)
  have l: "l = (if ?k < 256 then 0 else if ?k < 65536 then 1 else if ?k < 16777216 then 2 else 3)"
    and s: "s = unat d div 256 ^ l mod 256"
    using assms(2) delta unat_drop_level [of 0 d] unat_drop_level [of 1 d] unat_drop_level [of 2 d]
      unat_drop_level [of 3 d]
    by (auto simp: level_slot_def Let_def u64_nat split: if_splits)
  show "l < 4" "s < 256" using l s by simp_all
  have step: "256 ^ l \<le> ?k \<Longrightarrow> unat e div 256 ^ l < unat d div 256 ^ l"
  proof -
    assume "256 ^ l \<le> ?k"
    then have "(unat e + 256 ^ l) div 256 ^ l \<le> unat d div 256 ^ l"
      using lt by (intro div_le_mono) linarith
    then show "unat e div 256 ^ l < unat d div 256 ^ l"
      using div_add_self2 [of "256 ^ l" "unat e"] by simp
  qed
  have "256 ^ l \<le> ?k"
    using l lt by (auto split: if_splits)
  moreover have "l < 3 \<longrightarrow> ?k < 256 ^ (l + 1)"
    using l by (auto split: if_splits)
  ultimately show "filed D e l s r"
    using s step assms(3) lt by (auto simp: filed_def)
qed

lemma level_slot_bounds:
  assumes "level_slot d e = (l, s)"
  shows "l < 4" "s < 256"
  using assms by (auto simp: level_slot_def Let_def u64_nat split: if_splits)

text \<open>\<open>slot_push\<close> followed by the write of the position, as in \<open>insert\<close> and in a drain.\<close>

lemma slots_push_spec:
  assumes st: "structural_wf w" and cnt: "level_counts_wf w"
    and ok: "slots_ok (cell w) (pos_view w) F" and ls: "l < 4" "s < 256"
    and r: "r \<in> F \<or> r \<notin> dom (pos_view w)"
    and lv: "levels w' = levels (slot_push l s r w)"
    and lc: "level_counts w' = level_counts (slot_push l s r w)"
    and ps: "pos_view w' =
      (pos_view w)(r \<mapsto> \<lparr>pos_level = l mod 256, pos_slot = s mod 256, pos_idx = length (cell w l s)\<rparr>)"
  shows "structural_wf w'" "level_counts_wf w'" "slots_ok (cell w') (pos_view w') (F - {r})"
    "\<And>l' s'. l' < 4 \<Longrightarrow> s' < 256 \<Longrightarrow>
       cell w' l' s' = (if l' = l \<and> s' = s then cell w l s @ [r] else cell w l' s')"
proof -
  show C': "cell w' l' s' = (if l' = l \<and> s' = s then cell w l s @ [r] else cell w l' s')"
    if "l' < 4" "s' < 256" for l' s'
    using cell_set_cell [OF st ls that] by (simp add: lv)
  show "structural_wf w'"
    using st structural_wf_cong [OF lv] structural_wf_cong [of "slot_push l s r w"] by simp
  show "level_counts_wf w'"
    using lv lc by (intro level_counts_wf_set_cell [OF st cnt ls, of w' "cell w l s @ [r]"]) simp_all
  show "slots_ok (cell w') (pos_view w') (F - {r})"
    using slots_ok_push [OF ok ls r C'] ps ls by simp
qed

section \<open>Insert and remove\<close>

text \<open>The wheel after the old registration of \<open>rid\<close>, if any, is gone.\<close>

lemma wheel_unlink_spec:
  fixes rid :: u64
  assumes wf: "full_wf w" and pend: "pending w = []"
    and w': "levels w' = levels (wheel_remove_inner rid w)"
      "level_counts w' = level_counts (wheel_remove_inner rid w)"
      "positions w' = positions (wheel_remove_inner rid w)"
      "elapsed w' = elapsed w" "pending w' = pending w" "count_wf (deadlines w')"
      "wheel_view w' = (wheel_view w)(rid := None)" "cached_min_valid w'"
  shows "full_wf w'"
proof -
  note D = full_wfD [OF wf]
  note rm = wheel_remove_inner_spec [OF D(1,2,6), where rid = rid]
  have cells: "cell w' = cell (wheel_remove_inner rid w)" by (simp add: w')
  show ?thesis
  proof (rule full_wfI)
    show "structural_wf w'" using rm(1) w'(1) by (simp add: structural_wf_def)
    show "level_counts_wf w'" using rm(2) w'(1,2) by (simp add: level_counts_wf_def)
    show "slots_ok (cell w') (pos_view w') {}" using rm(3) w'(3) cells by simp
    show "dl_pos_consistent w'"
      using D(5) rm(4) pend by (simp add: dl_pos_consistent_def w')
    show "cells_filed w'"
      using D(7) rm(5) by (simp add: cells_filed_def filed_def w')
  qed (use w' pend in \<open>simp_all add: pending_expired_def pending_positions_disjoint_def\<close>)
qed

lemma vm_remove_wheel_view:
  "deadlines w' = snd (vm_remove rid (deadlines w)) \<Longrightarrow> wheel_view w' = (wheel_view w)(rid := None)"
  by (simp add: wheel_view_def vm_view_remove)

text \<open>Filing an id that has no registration.\<close>

lemma wheel_file_spec:
  fixes rid :: u64
  assumes wf: "full_wf w" and pend: "pending w = []" and fresh: "wheel_view w rid = None"
    and d: "elapsed w < d" and ls: "level_slot d (elapsed w) = (l, s)"
    and lv: "levels w' = levels (slot_push l s rid w)"
      "level_counts w' = level_counts (slot_push l s rid w)"
    and ps: "pos_view w' = (pos_view w)(rid \<mapsto>
      \<lparr>pos_level = l mod 256, pos_slot = s mod 256, pos_idx = length (cell w l s)\<rparr>)"
    and view: "wheel_view w' = (wheel_view w)(rid \<mapsto> d)" and cw: "count_wf (deadlines w')"
    and cm: "cached_min w' = (case cached_min w of Some m \<Rightarrow> Some (min d m) | None \<Rightarrow> None)"
    and frame: "elapsed w' = elapsed w" "pending w' = pending w"
  shows "full_wf w'"
proof -
  note D = full_wfD [OF wf]
  note filed = level_slot_filed [OF d ls, of "wheel_view w'" rid]
  have b: "l < 4" "s < 256" using level_slot_bounds [OF ls] by simp_all
  have nopos: "rid \<notin> dom (pos_view w)"
    using D(5) fresh by (auto simp: dl_pos_consistent_def)
  note push = slots_push_spec [OF D(1,2,6) b disjI2 [OF nopos] lv ps]
  have "filed (wheel_view w') (elapsed w) l' s' r"
    if "l' < 4" "s' < 256" "r \<in> set (cell w' l' s')" for l' s' r
  proof (cases "r = rid")
    case True
    have "rid \<notin> set (cell w l' s')"
      using slots_ok_member [OF D(6) that(1,2)] nopos by (metis domI)
    then have "l' = l \<and> s' = s"
      using True that push(4) [OF that(1,2)] by (auto split: if_splits)
    with True filed(3) view show ?thesis by simp
  next
    case False
    then have "r \<in> set (cell w l' s')"
      using that push(4) [OF that(1,2)] by (auto split: if_splits)
    with False D(7) that(1,2) show ?thesis
      by (auto simp: cells_filed_def filed_def view)
  qed
  then have filed': "cells_filed w'" by (simp add: cells_filed_def frame)
  show ?thesis
  proof (rule full_wfI)
    show "cached_min_valid w'"
      by (rule cached_min_valid_add [OF D(4) fresh cm view])
    show "dl_pos_consistent w'"
      using D(5) pend by (auto simp: dl_pos_consistent_def view ps frame)
    show "slots_ok (cell w') (pos_view w') {}" using push(3) by simp
  qed (use push frame cw filed' pend in \<open>simp_all add: pending_expired_def pending_positions_disjoint_def\<close>)
qed

text \<open>The cache and the slots once \<open>insert\<close> has unlinked the old registration.\<close>

definition unlink :: "u64 \<Rightarrow> timer_wheel \<Rightarrow> timer_wheel" where
  "unlink rid w =
     (let w1 = (case deadline_of w rid of Some d \<Rightarrow> invalidate_min d w | None \<Rightarrow> w);
          w2 = wheel_remove_inner rid w1
      in w2\<lparr>deadlines := snd (vm_remove rid (deadlines w))\<rparr>)"

lemma wheel_remove_inner_invalidate:
  "levels (wheel_remove_inner rid (invalidate_min d w)) = levels (wheel_remove_inner rid w)"
  "level_counts (wheel_remove_inner rid (invalidate_min d w)) = level_counts (wheel_remove_inner rid w)"
  "positions (wheel_remove_inner rid (invalidate_min d w)) = positions (wheel_remove_inner rid w)"
  by (simp_all add: wheel_remove_inner_def slot_swap_remove_def slot_pop_def set_cell_def Let_def
      split: option.splits prod.splits)

lemma unlink_spec:
  assumes wf: "full_wf w" and pend: "pending w = []"
  shows "full_wf (unlink rid w)" "wheel_view (unlink rid w) = (wheel_view w)(rid := None)"
    "elapsed (unlink rid w) = elapsed w" "pending (unlink rid w) = []"
proof -
  let ?w' = "unlink rid w"
  show view: "wheel_view ?w' = (wheel_view w)(rid := None)"
    by (rule vm_remove_wheel_view) (simp add: unlink_def Let_def)
  show frame: "elapsed ?w' = elapsed w" "pending ?w' = []"
    using pend by (simp_all add: unlink_def Let_def split: option.splits)
  have "cached_min_valid ?w'"
  proof (cases "wheel_view w rid")
    case None
    then have "wheel_view ?w' = wheel_view w" "cached_min ?w' = cached_min w"
      using view by (simp_all add: fun_upd_idem) (simp add: unlink_def Let_def wheel_view_def vm_get_view)
    then show ?thesis
      using full_wfD(4) [OF wf] by (simp add: cached_min_valid_def split: option.splits)
  next
    case (Some d)
    then show ?thesis
      by (intro cached_min_valid_drop [OF full_wfD(4) [OF wf] Some _ view])
        (simp add: unlink_def Let_def wheel_view_def vm_get_view)
  qed
  then show "full_wf ?w'"
    using view frame full_wfD(3) [OF wf] pend
    by (intro wheel_unlink_spec [OF wf pend])
      (simp_all add: unlink_def Let_def wheel_remove_inner_invalidate count_wf_remove split: option.splits)
qed

lemma wheel_remove_spec:
  assumes wf: "full_wf w" and pend: "pending w = []"
  shows "full_wf (wheel_remove rid w)"
    and "wheel_view (wheel_remove rid w) = (wheel_view w)(rid := None)"
    and "pending (wheel_remove rid w) = []" "elapsed (wheel_remove rid w) = elapsed w"
proof -
  have "wheel_remove rid w = (if wheel_view w rid = None then w else unlink rid w)"
    by (auto simp: wheel_remove_def unlink_def vm_contains_key_get vm_get_view wheel_view_def Let_def)
  then show "full_wf (wheel_remove rid w)"
    "wheel_view (wheel_remove rid w) = (wheel_view w)(rid := None)"
    "pending (wheel_remove rid w) = []" "elapsed (wheel_remove rid w) = elapsed w"
    using unlink_spec [OF assms, of rid] assms by (auto simp: fun_upd_idem)
qed

lemma wheel_insert_spec:
  assumes wf: "full_wf w" and pend: "pending w = []" and d: "elapsed w < d"
  shows "full_wf (wheel_insert rid d w)"
    and "wheel_view (wheel_insert rid d w) = (wheel_view w)(rid \<mapsto> d)"
    and "pending (wheel_insert rid d w) = []" "elapsed (wheel_insert rid d w) = elapsed w"
proof -
  let ?w' = "wheel_insert rid d w"
  let ?u = "unlink rid w"
  note u = unlink_spec [OF wf pend, of rid]
  obtain l s where ls: "level_slot d (elapsed w) = (l, s)" by fastforce
  have dl: "deadlines ?w' = vm_insert rid d (deadlines w)"
    by (simp add: wheel_insert_def ls Let_def split: option.splits)
  then show view: "wheel_view ?w' = (wheel_view w)(rid \<mapsto> d)"
    by (simp add: wheel_view_def vm_view_insert)
  show pend': "pending ?w' = []" and el: "elapsed ?w' = elapsed w"
    using pend by (simp_all add: wheel_insert_def ls Let_def split: option.splits)
  have ps: "pos_view ?w' = (pos_view ?u)(rid \<mapsto>
      \<lparr>pos_level = l mod 256, pos_slot = s mod 256, pos_idx = length (cell ?u l s)\<rparr>)"
    by (simp add: wheel_insert_def unlink_def ls Let_def vm_view_insert split: option.splits)
  have lv: "levels ?w' = levels (slot_push l s rid ?u)"
    "level_counts ?w' = level_counts (slot_push l s rid ?u)"
    by (simp_all add: wheel_insert_def unlink_def ls Let_def set_cell_def split: option.splits)
  have cm: "cached_min ?w' = (case cached_min ?u of Some m \<Rightarrow> Some (min d m) | None \<Rightarrow> None)"
    by (auto simp: wheel_insert_def unlink_def ls Let_def min_def split: option.splits)
  show "full_wf ?w'"
    by (rule wheel_file_spec [OF u(1,4) _ _ _ lv ps _ _ cm])
      (use u d ls dl view el pend' full_wfD(3) [OF wf] in \<open>simp_all add: count_wf_insert\<close>)
qed

end
