(* ===== verification/Wheel_Advance.thy ===== *)
theory Wheel_Advance
  imports Wheel_Ops
begin

text \<open>
  Correctness of \<open>advance_to\<close> and \<open>try_pop_expired\<close>.  While the clock moves from \<open>elapsed\<close> to \<open>now\<close>
  the wheel is between two invariants: every id sits in a slot that was right for the old clock
  (\<open>coming\<close>), the slots the loops have passed hold only ids that are right for the new one
  (\<open>slot_done\<close>), and the ids of the slot being drained are in flight.
\<close>

section \<open>The invariant of the drain\<close>

definition coming :: "(u64 \<Rightarrow> u64 option) \<Rightarrow> u64 \<Rightarrow> u64 \<Rightarrow> nat \<Rightarrow> nat \<Rightarrow> u64 \<Rightarrow> bool" where
  "coming D e now l s r \<longleftrightarrow>
     (\<exists>d. D r = Some d \<and> s = unat d div 256 ^ l mod 256 \<and>
          unat e div 256 ^ l < unat d div 256 ^ l \<and>
          (l < 3 \<longrightarrow> unat d < unat now + 256 ^ (l + 1)))"

definition slot_done :: "u64 \<Rightarrow> timer_wheel \<Rightarrow> nat \<Rightarrow> nat \<Rightarrow> bool" where
  "slot_done now w l s \<longleftrightarrow> (\<forall>r \<in> set (cell w l s). filed (wheel_view w) now l s r)"

definition drain_inv :: "u64 \<Rightarrow> timer_wheel \<Rightarrow> u64 set \<Rightarrow> timer_wheel \<Rightarrow> bool" where
  "drain_inv now w0 F w \<longleftrightarrow>
     structural_wf w \<and> level_counts_wf w \<and> slots_ok (cell w) (pos_view w) F \<and>
     dl_pos_consistent w \<and> pending_positions_disjoint w \<and> F \<subseteq> dom (pos_view w) \<and>
     (\<forall>rid d. rid \<in> set (pending w) \<and> wheel_view w rid = Some d \<longrightarrow> d \<le> now) \<and>
     (\<forall>l < 4. \<forall>s < 256. \<forall>r \<in> set (cell w l s). coming (wheel_view w) (elapsed w0) now l s r) \<and>
     deadlines w = deadlines w0 \<and> elapsed w = elapsed w0 \<and> cached_min w = cached_min w0"

lemma drain_invD:
  assumes "drain_inv now w0 F w"
  shows "structural_wf w" "level_counts_wf w" "slots_ok (cell w) (pos_view w) F"
    "dl_pos_consistent w" "pending_positions_disjoint w" "F \<subseteq> dom (pos_view w)"
    "\<And>rid d. rid \<in> set (pending w) \<Longrightarrow> wheel_view w rid = Some d \<Longrightarrow> d \<le> now"
    "\<And>l s r. l < 4 \<Longrightarrow> s < 256 \<Longrightarrow> r \<in> set (cell w l s) \<Longrightarrow>
       coming (wheel_view w) (elapsed w0) now l s r"
    "deadlines w = deadlines w0" "elapsed w = elapsed w0" "cached_min w = cached_min w0"
  using assms unfolding drain_inv_def by blast+

lemma drain_inv_view: "drain_inv now w0 F w \<Longrightarrow> wheel_view w = wheel_view w0"
  by (simp add: drain_inv_def wheel_view_def)

lemma filed_coming:
  assumes "filed D c l s r" "e \<le> c" "c \<le> now"
  shows "coming D e now l s r"
proof -
  obtain d where d: "D r = Some d" "s = unat d div 256 ^ l mod 256"
      "unat c div 256 ^ l < unat d div 256 ^ l" "l < 3 \<longrightarrow> unat d < unat c + 256 ^ (l + 1)"
    using assms(1) by (rule filedE)
  have "unat e div 256 ^ l \<le> unat c div 256 ^ l"
    using assms(2) by (intro div_le_mono) (simp add: u64_nat)
  moreover have "unat c \<le> unat now" using assms(3) by (simp add: u64_nat)
  ultimately show ?thesis using d unfolding coming_def by fastforce
qed

lemma coming_filed:
  assumes "coming D e now l s r"
    and "\<And>d. D r = Some d \<Longrightarrow> unat now div 256 ^ l < unat d div 256 ^ l"
  shows "filed D now l s r"
  using assms unfolding coming_def filed_def by blast

lemma drain_inv_start:
  assumes wf: "full_wf w" and now: "elapsed w \<le> now"
  shows "drain_inv now w {} w"
proof -
  note D = full_wfD [OF wf]
  have "coming (wheel_view w) (elapsed w) now l s r" if "l < 4" "s < 256" "r \<in> set (cell w l s)" for l s r
    using D(7) that now by (auto simp: cells_filed_def intro: filed_coming)
  moreover have "d \<le> now" if "rid \<in> set (pending w)" "wheel_view w rid = Some d" for rid d
    using D(8) that now unfolding pending_expired_def by (meson order_trans)
  ultimately show ?thesis
    using D unfolding drain_inv_def by auto
qed

section \<open>One entry, one slot\<close>

lemma drain_entry_due:
  assumes I: "drain_inv now w0 F w" and rid: "rid \<in> F" and d: "wheel_view w rid = Some d" "d \<le> now"
  shows "drain_inv now w0 (F - {rid}) (drain_entry now rid w)"
    and "levels (drain_entry now rid w) = levels w" "wheel_view (drain_entry now rid w) = wheel_view w"
proof -
  let ?w' = "drain_entry now rid w"
  note D = drain_invD [OF I]
  have w': "?w' = w\<lparr>positions := snd (vm_remove rid (positions w)), pending := pending w @ [rid]\<rparr>"
    using d by (simp add: drain_entry_def vm_contains_key_get vm_get_view wheel_view_def Let_def)
  have ps: "pos_view ?w' = (pos_view w)(rid := None)" by (simp add: w' vm_view_remove)
  have pe: "pending ?w' = pending w @ [rid]" by (simp add: w')
  show cells: "levels ?w' = levels w" by (simp add: w')
  show view: "wheel_view ?w' = wheel_view w" by (simp add: w' wheel_view_def)
  have "slots_ok (cell ?w') (pos_view ?w') (F - {rid})"
    unfolding cells ps by (rule slots_ok_forget [OF D(3)]) (simp add: rid)
  moreover have "structural_wf ?w'" "level_counts_wf ?w'"
    using D(1,2) by (simp_all add: w' structural_wf_def level_counts_wf_def)
  moreover have "dl_pos_consistent ?w'"
    using D(4) by (auto simp: dl_pos_consistent_def view ps pe)
  moreover have "pending_positions_disjoint ?w'"
    using D(5) by (auto simp: pending_positions_disjoint_def ps pe)
  moreover have "F - {rid} \<subseteq> dom (pos_view ?w')" using D(6) by (auto simp: ps)
  moreover have "x \<le> now" if "r \<in> set (pending ?w')" "wheel_view ?w' r = Some x" for r x
    using that D(7) d by (auto simp: view pe)
  moreover have "deadlines ?w' = deadlines w" "elapsed ?w' = elapsed w" "cached_min ?w' = cached_min w"
    by (simp_all add: w')
  ultimately show "drain_inv now w0 (F - {rid}) ?w'"
    unfolding drain_inv_def using D(8-11) by (auto simp: cells view)
qed

lemma drain_entry_late:
  assumes I: "drain_inv now w0 F w" and rid: "rid \<in> F" and d: "wheel_view w rid = Some d" "now < d"
    and now: "elapsed w0 \<le> now"
  shows "drain_inv now w0 (F - {rid}) (drain_entry now rid w)"
    and "\<And>l s. l < 4 \<Longrightarrow> s < 256 \<Longrightarrow> slot_done now w l s \<Longrightarrow> slot_done now (drain_entry now rid w) l s"
proof -
  let ?w' = "drain_entry now rid w"
  note D = drain_invD [OF I]
  obtain l s where ls: "level_slot d now = (l, s)" by fastforce
  have w': "?w' = (slot_push l s rid w)\<lparr>positions := vm_insert rid
      \<lparr>pos_level = l mod 256, pos_slot = s mod 256, pos_idx = length (cell w l s)\<rparr> (positions w)\<rparr>"
    using d by (simp add: drain_entry_def wheel_insert_inner_def ls vm_contains_key_get vm_get_view
        wheel_view_def Let_def)
  have view: "wheel_view ?w' = wheel_view w" by (simp add: w' wheel_view_def)
  have pe: "pending ?w' = pending w" by (simp add: w')
  have ps: "pos_view ?w' = (pos_view w)(rid \<mapsto>
      \<lparr>pos_level = l mod 256, pos_slot = s mod 256, pos_idx = length (cell w l s)\<rparr>)"
    by (simp add: w' vm_view_insert)
  have b: "l < 4" "s < 256" using level_slot_bounds [OF ls] by simp_all
  have lv: "levels ?w' = levels (slot_push l s rid w)"
    "level_counts ?w' = level_counts (slot_push l s rid w)" by (simp_all add: w')
  note push = slots_push_spec [OF D(1,2,3) b disjI1 [OF rid] lv ps]
  have filed: "filed (wheel_view w) now l s rid"
    using level_slot_filed(3) [OF d(2) ls, of "wheel_view w" rid] d(1) by simp
  have cells: "r \<in> set (cell ?w' l' s') \<longleftrightarrow> r \<in> set (cell w l' s') \<or> r = rid \<and> l' = l \<and> s' = s"
    if "l' < 4" "s' < 256" for l' s' r
    using push(4) [OF that] by auto
  have "coming (wheel_view w) (elapsed w0) now l' s' r"
    if "l' < 4" "s' < 256" "r \<in> set (cell ?w' l' s')" for l' s' r
    using cells [OF that(1,2)] that D(8) filed_coming [OF filed now] by blast
  moreover have "dl_pos_consistent ?w'"
    using D(4) d(1) pe unfolding dl_pos_consistent_def view ps by auto
  moreover have "rid \<notin> set (pending w)"
    using D(5,6) rid by (auto simp: pending_positions_disjoint_def)
  then have "pending_positions_disjoint ?w'"
    using D(5) pe unfolding pending_positions_disjoint_def ps by auto
  moreover have "F - {rid} \<subseteq> dom (pos_view ?w')" using D(6) by (auto simp: ps)
  moreover have "deadlines ?w' = deadlines w" "elapsed ?w' = elapsed w" "cached_min ?w' = cached_min w"
    by (simp_all add: w')
  ultimately show "drain_inv now w0 (F - {rid}) ?w'"
    unfolding drain_inv_def using push(1-3) D(7,9-11) by (auto simp: view pe)
  show "slot_done now ?w' l' s'" if "l' < 4" "s' < 256" "slot_done now w l' s'" for l' s'
    using that cells [OF that(1,2)] filed by (auto simp: slot_done_def view)
qed

lemma drain_entry_inv:
  assumes I: "drain_inv now w0 F w" and rid: "rid \<in> F" and now: "elapsed w0 \<le> now"
  shows "drain_inv now w0 (F - {rid}) (drain_entry now rid w)"
    and "\<And>l s. l < 4 \<Longrightarrow> s < 256 \<Longrightarrow> slot_done now w l s \<Longrightarrow> slot_done now (drain_entry now rid w) l s"
proof -
  obtain d where d: "wheel_view w rid = Some d"
    using drain_invD(4,6) [OF I] rid unfolding dl_pos_consistent_def by blast
  have "drain_inv now w0 (F - {rid}) (drain_entry now rid w) \<and>
      (\<forall>l < 4. \<forall>s < 256. slot_done now w l s \<longrightarrow> slot_done now (drain_entry now rid w) l s)"
  proof (cases "d \<le> now")
    case True
    then show ?thesis using drain_entry_due [OF I rid d True] by (simp add: slot_done_def)
  next
    case False
    then show ?thesis using drain_entry_late [OF I rid d _ now] by simp
  qed
  then show "drain_inv now w0 (F - {rid}) (drain_entry now rid w)"
    "\<And>l s. l < 4 \<Longrightarrow> s < 256 \<Longrightarrow> slot_done now w l s \<Longrightarrow> slot_done now (drain_entry now rid w) l s"
    by blast+
qed

lemma drain_entries_inv:
  assumes "drain_inv now w0 (set rids) w" "distinct rids" "elapsed w0 \<le> now"
  shows "drain_inv now w0 {} (drain_entries now rids w)"
    and "\<And>l s. l < 4 \<Longrightarrow> s < 256 \<Longrightarrow> slot_done now w l s \<Longrightarrow> slot_done now (drain_entries now rids w) l s"
  using assms
proof (induction rids arbitrary: w)
  case Nil
  { case 1 then show ?case by simp }
  { case 2 then show ?case by simp }
next
  case (Cons rid rest)
  have step: "drain_inv now w0 (set rest) (drain_entry now rid w)"
    if "drain_inv now w0 (set (rid # rest)) w" "distinct (rid # rest)" for w
    using drain_entry_inv(1) [OF that(1) _ assms(3), of rid] that(2) by simp
  {
    case 1
    then show ?case using Cons.IH(1) [OF step [OF 1(1,2)]] by simp
  next
    case 2
    then show ?case
      using Cons.IH(2) [OF _ _ _ step] drain_entry_inv(2) [OF 2(4) _ assms(3), of rid] by simp
  }
qed

lemma drain_slot_inv:
  assumes I: "drain_inv now w0 {} w" and ls: "l < 4" "s < 256" and now: "elapsed w0 \<le> now"
  shows "drain_inv now w0 {} (drain_slot now l s w)" "slot_done now (drain_slot now l s w) l s"
    "\<And>l' s'. l' < 4 \<Longrightarrow> s' < 256 \<Longrightarrow> slot_done now w l' s' \<Longrightarrow> slot_done now (drain_slot now l s w) l' s'"
proof -
  note D = drain_invD [OF I]
  let ?w1 = "snd (slot_drain l s w)"
  have w': "drain_slot now l s w = drain_entries now (cell w l s) ?w1"
    by (simp add: drain_slot_def slot_drain_def Let_def split: prod.splits)
  have lv: "levels ?w1 = levels (set_cell l s [] w)"
    and lc: "level_counts ?w1 = (level_counts w)[l := level_counts w ! l - length (cell w l s)]"
    and frame: "positions ?w1 = positions w" "pending ?w1 = pending w" "deadlines ?w1 = deadlines w"
      "elapsed ?w1 = elapsed w" "cached_min ?w1 = cached_min w"
    by (simp_all add: slot_drain_def Let_def set_cell_def)
  have view: "wheel_view ?w1 = wheel_view w" by (simp add: wheel_view_def frame)
  have C': "cell ?w1 l' s' = (if l' = l \<and> s' = s then [] else cell w l' s')"
    if "l' < 4" "s' < 256" for l' s'
    using cell_set_cell [OF D(1) ls that] by (simp add: lv)
  have "structural_wf ?w1" using D(1) structural_wf_cong [OF lv] by simp
  moreover have "level_counts_wf ?w1"
    using level_count_ge_cell [OF D(2) ls]
    by (intro level_counts_wf_set_cell [OF D(1,2) ls lv lc]) simp
  moreover have "slots_ok (cell ?w1) (pos_view ?w1) (set (cell w l s))"
    using slots_ok_drain [OF D(3) ls C'] by (simp add: frame)
  moreover have "set (cell w l s) \<subseteq> dom (pos_view w)"
    using slots_ok_member [OF D(3) ls] by (metis domI subsetI)
  ultimately have I1: "drain_inv now w0 (set (cell w l s)) ?w1"
    unfolding drain_inv_def using D(4,5,7,8,9-11)
    by (auto simp: frame view C' dl_pos_consistent_def pending_positions_disjoint_def)
  note es = drain_entries_inv [OF I1 slots_ok_distinct [OF D(3) ls] now, folded w']
  show "drain_inv now w0 {} (drain_slot now l s w)" by (rule es(1))
  show "slot_done now (drain_slot now l s w) l s"
    using ls C' by (intro es(2)) (simp_all add: slot_done_def)
  show "slot_done now (drain_slot now l s w) l' s'"
    if "l' < 4" "s' < 256" "slot_done now w l' s'" for l' s'
    using that C' by (intro es(2)) (simp_all add: slot_done_def view)
qed

section \<open>All slots the hands pass\<close>

lemma drain_slots_inv:
  assumes "drain_inv now w0 {} w" "l < 4" "elapsed w0 \<le> now"
  shows "drain_inv now w0 {} (drain_slots now l old n i w)"
    and "\<And>l' s'. l' < 4 \<Longrightarrow> s' < 256 \<Longrightarrow> slot_done now w l' s' \<Longrightarrow>
      slot_done now (drain_slots now l old n i w) l' s'"
    and "\<And>k. i \<le> k \<Longrightarrow> k \<le> n \<Longrightarrow> slot_done now (drain_slots now l old n i w) l ((old + k) mod 256)"
  using assms
proof (induction now l old n i w rule: drain_slots.induct)
  case (1 now l old n i w)
  let ?w1 = "drain_slot now l ((old + i) mod 256) w"
  have unfold: "drain_slots now l old n i w =
      (if i \<le> n then drain_slots now l old n (i + 1) ?w1 else w)"
    by (subst drain_slots.simps) simp
  have one: "drain_inv now w0 {} ?w1" "slot_done now ?w1 l ((old + i) mod 256)"
    "\<And>l' s'. l' < 4 \<Longrightarrow> s' < 256 \<Longrightarrow> slot_done now w l' s' \<Longrightarrow> slot_done now ?w1 l' s'"
    if "drain_inv now w0 {} w" "l < 4" "elapsed w0 \<le> now"
    using drain_slot_inv [OF that(1,2) _ that(3), of "(old + i) mod 256"] by simp_all
  {
    case 1
    then show ?case using "1.IH"(1) [OF _ one(1) [OF 1]] by (simp add: unfold)
  next
    case (2 l' s')
    then show ?case
      using "1.IH"(2) [OF _ _ _ _ one(1)] one(3) by (simp add: unfold)
  next
    case (3 k)
    note I = 3(3-5)
    show ?case
    proof (cases "k = i")
      case True
      then show ?thesis
        using 3 "1.IH"(2) [OF _ _ _ one(2) [OF I] one(1) [OF I]] by (simp add: unfold)
    next
      case False
      then show ?thesis
        using 3 "1.IH"(3) [OF _ _ _ one(1) [OF I]] by (simp add: unfold)
    qed
  }
qed

text \<open>A drain of \<open>min (new_pos - old_pos) 256\<close> slots covers every slot that holds an id that is due.\<close>

lemma ring_offset:
  assumes "1 \<le> (k::nat)"
  shows "(p mod 256 + ((k - 1) mod 256 + 1)) mod 256 = (p + k) mod 256"
proof -
  have "(p mod 256 + ((k - 1) mod 256 + 1)) mod 256 = (p + ((k - 1) + 1)) mod 256"
    by (metis (no_types) add.assoc mod_add_left_eq mod_add_right_eq)
  with assms show ?thesis by simp
qed

lemma level_done:
  assumes I: "drain_inv now w0 {} w" and b: "l < 4" "s < 256"
    and passed: "\<And>k. 1 \<le> k \<Longrightarrow> k \<le> min (unat now div 256 ^ l - unat (elapsed w0) div 256 ^ l) 256 \<Longrightarrow>
      slot_done now w l ((unat (elapsed w0) div 256 ^ l mod 256 + k) mod 256)"
  shows "slot_done now w l s"
proof -
  let ?e = "unat (elapsed w0) div 256 ^ l"
  have "filed (wheel_view w) now l s r" if r: "r \<in> set (cell w l s)" for r
  proof (cases "\<forall>d. wheel_view w r = Some d \<longrightarrow> unat now div 256 ^ l < unat d div 256 ^ l")
    case True
    then show ?thesis using drain_invD(8) [OF I b r] by (auto intro: coming_filed)
  next
    case False
    then obtain d where d: "wheel_view w r = Some d" "unat d div 256 ^ l \<le> unat now div 256 ^ l"
      by (auto simp: not_less)
    then have s: "s = unat d div 256 ^ l mod 256" "?e < unat d div 256 ^ l"
      using drain_invD(8) [OF I b r] by (auto simp: coming_def)
    define k where "k = unat d div 256 ^ l - ?e"
    have k: "1 \<le> k" "k \<le> unat now div 256 ^ l - ?e" "?e + k = unat d div 256 ^ l"
      using s d by (auto simp: k_def)
    have "(k - 1) mod 256 + 1 \<le> k" "(k - 1) mod 256 + 1 \<le> 256"
      using k(1) mod_less_eq_dividend [of "k - 1" 256] mod_less_divisor [of 256 "k - 1"] by linarith+
    then have "slot_done now w l ((?e mod 256 + ((k - 1) mod 256 + 1)) mod 256)"
      using k by (intro passed) simp_all
    then have "slot_done now w l s"
      unfolding ring_offset [OF k(1)] using k(3) s(1) by simp
    then show ?thesis using r by (simp add: slot_done_def)
  qed
  then show ?thesis by (simp add: slot_done_def)
qed

text \<open>The early exit: once the hand of a level stands still, so do the hands above it.\<close>

lemma levels_still:
  assumes I: "drain_inv now w0 {} w" and b: "l < 4" "s < 256" "m \<le> l"
    and still: "unat (elapsed w0) div 256 ^ m = unat now div 256 ^ m"
  shows "slot_done now w l s"
proof -
  have "(256::nat) ^ l = 256 ^ m * 256 ^ (l - m)"
    using b(3) by (simp add: power_add [symmetric])
  then have "unat (elapsed w0) div 256 ^ l = unat now div 256 ^ l"
    by (simp only: div_mult2_eq still)
  then show ?thesis
    using drain_invD(8) [OF I b(1,2)] by (auto simp: slot_done_def filed_def coming_def)
qed

lemma advance_levels_inv:
  assumes "drain_inv now w0 {} w" "elapsed w0 < now"
  shows "drain_inv now w0 {} (advance_levels now (elapsed w0) l w) \<and>
    (\<forall>l' < 4. \<forall>s' < 256. slot_done now w l' s' \<or> l \<le> l' \<longrightarrow>
      slot_done now (advance_levels now (elapsed w0) l w) l' s')"
  using assms
proof (induction now "elapsed w0" l w rule: advance_levels.induct)
  case (1 now l w)
  let ?e = "elapsed w0"
  let ?diff = "unat (drop_bit (l * 8) now - drop_bit (l * 8) ?e)"
  let ?old = "unat (drop_bit (l * 8) ?e AND 255)"
  let ?n = "if ?diff < 256 then ?diff else 256"
  let ?w1 = "drain_slots now l ?old ?n 1 w"
  have unfold: "advance_levels now ?e l w =
      (if l < 4 \<and> drop_bit (l * 8) ?e \<noteq> drop_bit (l * 8) now
       then advance_levels now ?e (l + 1) ?w1 else w)"
    by (subst advance_levels.simps) (simp add: Let_def)
  show ?case
  proof (cases "l < 4 \<and> drop_bit (l * 8) ?e \<noteq> drop_bit (l * 8) now")
    case False
    then have "slot_done now w l' s'" if "l' < 4" "s' < 256" "l \<le> l'" for l' s'
      using that levels_still [OF 1(2) that] unat_drop_level [of l ?e] unat_drop_level [of l now]
      by simp
    then show ?thesis using False 1(2) by (auto simp: unfold)
  next
    case True
    then have l: "l < 4" and ne: "drop_bit (l * 8) ?e \<noteq> drop_bit (l * 8) now" by simp_all
    have e_now: "unat ?e \<le> unat now" using 1(3) by (simp add: u64_nat)
    then have le: "drop_bit (l * 8) ?e \<le> drop_bit (l * 8) now"
      by (simp add: u64_nat div_le_mono)
    have old: "?old = unat ?e div 256 ^ l mod 256" and
      n: "?n = min (unat now div 256 ^ l - unat ?e div 256 ^ l) 256"
      using le by (simp_all add: u64_nat)
    have e: "?e \<le> now" using 1(3) by simp
    note ds = drain_slots_inv [OF 1(2) l e, where old = ?old and n = ?n and i = 1]
    have "slot_done now ?w1 l s" if "s < 256" for s
      by (rule level_done [OF ds(1) l that]) (use ds(3) in \<open>simp only: n old\<close>)
    then have done1: "slot_done now ?w1 l' s'"
      if "l' < 4" "s' < 256" "slot_done now w l' s' \<or> l' = l" for l' s'
      using that ds(2) by blast
    let ?w2 = "advance_levels now ?e (l + 1) ?w1"
    note IH = 1(1) [OF l refl refl refl ne refl refl refl ds(1) 1(3)]
    have "slot_done now ?w2 l' s'" if "l' < 4" "s' < 256" "slot_done now w l' s' \<or> l \<le> l'" for l' s'
    proof (cases "l + 1 \<le> l'")
      case False
      then have "slot_done now w l' s' \<or> l' = l" using that(3) by linarith
      from done1 [OF that(1,2) this] show ?thesis using IH that(1,2) by blast
    qed (use IH that(1,2) in blast)
    then show ?thesis unfolding unfold if_P [OF True] using IH by blast
  qed
qed

lemma advance_to_spec:
  assumes wf: "full_wf w" and now: "elapsed w < now" and pend: "pending w = []"
  shows "full_wf (advance_to now w)" "wheel_view (advance_to now w) = wheel_view w"
    "elapsed (advance_to now w) = now" "cached_min (advance_to now w) = cached_min w"
proof -
  let ?w1 = "advance_levels now (elapsed w) 0 w"
  have I: "drain_inv now w {} ?w1" and dn: "\<forall>l < 4. \<forall>s < 256. slot_done now ?w1 l s"
    using advance_levels_inv [OF drain_inv_start [OF wf] now, of 0] now by simp_all
  note D = drain_invD [OF I]
  have w': "advance_to now w = ?w1\<lparr>elapsed := now\<rparr>" by (simp add: advance_to_def)
  show view: "wheel_view (advance_to now w) = wheel_view w"
    using drain_inv_view [OF I] by (simp add: w' wheel_view_def)
  show "elapsed (advance_to now w) = now" "cached_min (advance_to now w) = cached_min w"
    using D(11) by (simp_all add: w')
  show "full_wf (advance_to now w)"
  proof (rule full_wfI)
    show "cached_min_valid (advance_to now w)"
      using full_wfD(4) [OF wf] \<open>cached_min (advance_to now w) = cached_min w\<close>
      by (simp add: cached_min_valid_def view split: option.splits)
    show "cells_filed (advance_to now w)"
      using dn drain_inv_view [OF I] by (simp add: cells_filed_def slot_done_def view) (simp add: w')
    show "pending_expired (advance_to now w)"
      unfolding pending_expired_def using D(7) by (auto simp: w' wheel_view_def)
  qed (use D full_wfD(3) [OF wf] in \<open>auto simp: w' structural_wf_def level_counts_wf_def
      dl_pos_consistent_def pending_positions_disjoint_def wheel_view_def\<close>)
qed

text \<open>In a well-formed wheel every timer that is due is pending.\<close>

lemma due_pending:
  assumes wf: "full_wf w" and d: "wheel_view w r = Some d" "d \<le> elapsed w"
  shows "r \<in> set (pending w)"
proof (rule ccontr)
  note D = full_wfD [OF wf]
  assume "r \<notin> set (pending w)"
  then obtain p where p: "pos_view w r = Some p"
    using D(5) d(1) by (auto simp: dl_pos_consistent_def)
  have pos: "pos_level p < 4" "pos_slot p < 256" "r \<in> set (cell w (pos_level p) (pos_slot p))"
    using slots_ok_pos [OF D(6) p] by (auto simp: in_set_conv_nth)
  have "filed (wheel_view w) (elapsed w) (pos_level p) (pos_slot p) r"
    using D(7) pos by (simp add: cells_filed_def)
  from filed_late [OF this d(1)] d(2) show False by (simp add: u64_nat)
qed

section \<open>Popping expired timers\<close>

text \<open>One id leaves \<open>pending\<close>: a stale one, or one whose registration goes with it.\<close>

lemma full_wf_drop_stale:
  assumes wf: "full_wf w" and ne: "pending w \<noteq> []" and stale: "wheel_view w (last (pending w)) = None"
  shows "full_wf (w\<lparr>pending := butlast (pending w)\<rparr>)"
proof -
  note D = full_wfD [OF wf]
  note last = butlast_set_last [OF ne]
  show ?thesis
    by (rule full_wfI)
      (use D last stale in \<open>auto simp: structural_wf_def level_counts_wf_def cached_min_valid_def
        dl_pos_consistent_def cells_filed_def pending_expired_def pending_positions_disjoint_def
        wheel_view_def split: option.splits\<close>)
qed

lemma full_wf_pop_due:
  assumes wf: "full_wf w" and ne: "pending w \<noteq> []" and r: "r = last (pending w)"
    and d: "wheel_view w r = Some d"
    and w': "levels w' = levels w" "level_counts w' = level_counts w" "elapsed w' = elapsed w"
      "pending w' = butlast (pending w)" "cached_min w' = cached_min (invalidate_min d w)"
      "deadlines w' = snd (vm_remove r (deadlines w))" "positions w' = snd (vm_remove r (positions w))"
  shows "full_wf w'" "wheel_view w' = (wheel_view w)(r := None)"
proof -
  note D = full_wfD [OF wf]
  have pe: "set (pending w) = insert r (set (pending w'))"
    using butlast_set_last [OF ne] by (simp add: r w')
  show view: "wheel_view w' = (wheel_view w)(r := None)"
    by (rule vm_remove_wheel_view) (rule w')
  have nopos: "r \<notin> dom (pos_view w)" using D(9) pe by (simp add: pending_positions_disjoint_def)
  then have ps: "pos_view w' = pos_view w"
    by (auto simp: w' vm_view_remove fun_upd_idem domIff)
  have notin: "r \<notin> set (cell w l s)" if "l < 4" "s < 256" for l s
    using slots_ok_member [OF D(6) that] nopos by (metis domI)
  show "full_wf w'"
  proof (rule full_wfI)
    show "structural_wf w'" "level_counts_wf w'" "count_wf (deadlines w')"
      using D(1-3) by (simp_all add: structural_wf_def level_counts_wf_def w' count_wf_remove)
    show "cached_min_valid w'"
      by (rule cached_min_valid_drop [OF D(4) d w'(5) view])
    show "dl_pos_consistent w'"
      using D(5) pe nopos by (auto simp: dl_pos_consistent_def view ps)
    show "slots_ok (cell w') (pos_view w') {}" using D(6) unfolding ps w'(1) .
    show "cells_filed w'"
      unfolding cells_filed_def
    proof (intro allI impI ballI)
      fix l s x assume "l < 4" "s < 256" "x \<in> set (cell w' l s)"
      then show "filed (wheel_view w') (elapsed w') l s x"
        using D(7) notin [of l s] by (auto simp: cells_filed_def filed_def view w')
    qed
    show "pending_expired w'"
      using D(8) pe by (auto simp: pending_expired_def view w'(3) split: if_splits)
    show "pending_positions_disjoint w'"
      using D(9) pe by (simp add: pending_positions_disjoint_def ps)
  qed
qed

lemma pop_pending_spec:
  assumes "full_wf w" "elapsed w \<le> now"
  shows "(case pop_pending now w of
      (Some r, w') \<Rightarrow> full_wf w' \<and> wheel_view w' = (wheel_view w)(r := None) \<and> elapsed w' = elapsed w \<and>
        (\<exists>d. wheel_view w r = Some d \<and> d \<le> now)
    | (None, w') \<Rightarrow> full_wf w' \<and> wheel_view w' = wheel_view w \<and> elapsed w' = elapsed w \<and>
        pending w' = [] \<and> (\<forall>r d. wheel_view w r = Some d \<longrightarrow> elapsed w < d))"
  using assms
proof (induction now w rule: pop_pending.induct)
  case (1 now w)
  show ?case
  proof (cases "pending w = []")
    case True
    then have "elapsed w < d" if "wheel_view w r = Some d" for r d
      using due_pending [OF 1(3) that] by (auto simp: not_less [symmetric])
    with True 1(3) show ?thesis by (subst pop_pending.simps) simp
  next
    case ne: False
    let ?r = "last (pending w)" and ?w1 = "w\<lparr>pending := butlast (pending w)\<rparr>"
    have view1: "wheel_view ?w1 = wheel_view w" by (simp add: wheel_view_def)
    show ?thesis
    proof (cases "wheel_view w ?r")
      case None
      have "pop_pending now w = pop_pending now ?w1"
        using ne None
        by (subst pop_pending.simps) (simp add: vm_contains_key_get vm_get_view wheel_view_def Let_def)
      moreover have "\<not> vm_contains_key ?r (deadlines ?w1)"
        using None by (simp add: vm_contains_key_get vm_get_view wheel_view_def)
      ultimately show ?thesis
        using 1(2) [OF ne refl refl] full_wf_drop_stale [OF 1(3) ne None] 1(4)
        by (simp add: view1 split: prod.splits option.splits)
    next
      case (Some d)
      have "?r \<in> set (pending w)" using ne by simp
      then have "d \<le> now"
        using full_wfD(8) [OF 1(3)] Some 1(4) by (auto simp: pending_expired_def intro: order_trans)
      let ?w' = "(invalidate_min d ?w1)\<lparr>deadlines := snd (vm_remove ?r (deadlines w)),
        positions := snd (vm_remove ?r (positions w))\<rparr>"
      have "pop_pending now w = (Some ?r, ?w')"
        using ne Some \<open>d \<le> now\<close>
        by (subst pop_pending.simps) (simp add: vm_contains_key_get vm_get_view wheel_view_def Let_def)
      moreover have "full_wf ?w'" "wheel_view ?w' = (wheel_view w)(?r := None)"
        by (rule full_wf_pop_due [OF 1(3) ne refl Some];
            simp add: invalidate_min_def split: option.splits)+
      ultimately show ?thesis using Some \<open>d \<le> now\<close> by simp
    qed
  qed
qed

lemma try_pop_expired_spec:
  assumes wf: "full_wf w" and now: "elapsed w \<le> now"
  shows "full_wf (snd (try_pop_expired now w))" "elapsed (snd (try_pop_expired now w)) \<le> now"
    and "fst (try_pop_expired now w) = Some r \<Longrightarrow>
      (\<exists>d. wheel_view w r = Some d \<and> d \<le> now) \<and>
      wheel_view (snd (try_pop_expired now w)) = (wheel_view w)(r := None)"
    and "fst (try_pop_expired now w) = None \<Longrightarrow>
      wheel_view (snd (try_pop_expired now w)) = wheel_view w \<and>
      pending (snd (try_pop_expired now w)) = [] \<and> elapsed (snd (try_pop_expired now w)) = now \<and>
      (\<forall>r d. wheel_view w r = Some d \<longrightarrow> now < d)"
proof -
  obtain res w1 where p1: "pop_pending now w = (res, w1)" by fastforce
  note s1 = pop_pending_spec [OF wf now, unfolded p1]
  define w2 where "w2 = (if elapsed w1 < now then advance_to now w1 else w1)"
  obtain res3 w3 where p3: "pop_pending now w2 = (res3, w3)" by fastforce
  have t: "try_pop_expired now w = (if res = None then (res3, w3) else (res, w1))"
    by (cases res) (simp_all add: try_pop_expired_def p1 w2_def [symmetric] p3)
  have "full_wf w2 \<and> elapsed w2 = now \<and> wheel_view w2 = wheel_view w" if "res = None"
    using that s1 now advance_to_spec [of w1 now] by (auto simp: w2_def)
  then have s3: "full_wf w3" "elapsed w3 = now"
    "\<And>r. res3 = Some r \<Longrightarrow> wheel_view w3 = (wheel_view w)(r := None) \<and>
       (\<exists>d. wheel_view w r = Some d \<and> d \<le> now)"
    "res3 = None \<Longrightarrow> wheel_view w3 = wheel_view w \<and> pending w3 = [] \<and>
       (\<forall>r d. wheel_view w r = Some d \<longrightarrow> now < d)" if "res = None"
    using that pop_pending_spec [of w2 now, unfolded p3] by (auto split: option.splits)
  show "full_wf (snd (try_pop_expired now w))" "elapsed (snd (try_pop_expired now w)) \<le> now"
    using s1 s3 now by (auto simp: t split: option.splits)
  show "(\<exists>d. wheel_view w r = Some d \<and> d \<le> now) \<and>
      wheel_view (snd (try_pop_expired now w)) = (wheel_view w)(r := None)"
    if "fst (try_pop_expired now w) = Some r"
    using that s1 s3(3) by (auto simp: t split: if_splits)
  show "wheel_view (snd (try_pop_expired now w)) = wheel_view w \<and>
      pending (snd (try_pop_expired now w)) = [] \<and> elapsed (snd (try_pop_expired now w)) = now \<and>
      (\<forall>r d. wheel_view w r = Some d \<longrightarrow> now < d)"
    if "fst (try_pop_expired now w) = None"
    using that s3(2,4) by (auto simp: t split: if_splits)
qed

end
