(* ===== verification/Wheel_Min.thy ===== *)
theory Wheel_Min
  imports Wheel_Advance
begin

text \<open>
  Correctness of \<open>next_deadline\<close>: the scan over the pending ids and the four levels finds the
  earliest deadline.  On levels 0 to 2 the band invariant makes the ring order of the slots the
  order of the deadlines, so the first slot that is not empty decides; level 3 has no band and is
  searched in full.
\<close>

section \<open>Minimum of a set of deadlines\<close>

definition best_of :: "u64 set \<Rightarrow> u64 option \<Rightarrow> bool" where
  "best_of S res \<longleftrightarrow> (case res of None \<Rightarrow> S = {} | Some d \<Rightarrow> d \<in> S \<and> (\<forall>x \<in> S. d \<le> x))"

text \<open>A candidate for \<open>T\<close> that may be missing when \<open>S\<close> already has better ones.\<close>

definition candidate :: "u64 set \<Rightarrow> u64 set \<Rightarrow> u64 option \<Rightarrow> bool" where
  "candidate S T res \<longleftrightarrow>
     (case res of None \<Rightarrow> \<forall>x \<in> T. \<exists>b \<in> S. b \<le> x | Some d \<Rightarrow> d \<in> T \<and> (\<forall>x \<in> T. d \<le> x))"

lemma best_of_None [simp]: "best_of S None \<longleftrightarrow> S = {}"
  and best_of_Some [simp]: "best_of S (Some d) \<longleftrightarrow> d \<in> S \<and> (\<forall>x \<in> S. d \<le> x)"
  and candidate_None [simp]: "candidate S T None \<longleftrightarrow> (\<forall>x \<in> T. \<exists>b \<in> S. b \<le> x)"
  and candidate_Some [simp]: "candidate S T (Some d) \<longleftrightarrow> d \<in> T \<and> (\<forall>x \<in> T. d \<le> x)"
  by (simp_all add: best_of_def candidate_def)

lemma best_of_candidate: "best_of T c \<Longrightarrow> candidate S T c"
  by (cases c) auto

lemma candidate_mono: "candidate S T c \<Longrightarrow> S \<subseteq> S' \<Longrightarrow> candidate S' T c"
  unfolding candidate_def by (cases c) (simp_all, blast)

lemma best_of_Min: "best_of S res \<Longrightarrow> res = (if S = {} then None else Some (Min S))"
  by (cases res) (auto intro!: Min_eqI [symmetric])

lemma best_of_merge_min: "best_of S res \<Longrightarrow> best_of (insert d S) (merge_min res d)"
  by (cases res) (auto simp: merge_min_def not_less intro: order.trans less_imp_le)

lemma best_of_merge_opt:
  assumes "best_of S a" "candidate S T c"
  shows "best_of (S \<union> T) (merge_opt a c)"
proof (cases c)
  case None
  then have "m \<le> x" if "a = Some m" "x \<in> T" for m x
    using assms that by simp (meson order.trans)
  then show ?thesis using None assms by (cases a) (auto simp: merge_opt_def)
next
  case (Some d)
  then show ?thesis
    using assms by (cases a) (auto simp: merge_opt_def merge_min_def not_less intro: order.trans less_imp_le)
qed

definition dls :: "u64 vec_map \<Rightarrow> u64 list \<Rightarrow> u64 set" where
  "dls dl xs = {x. \<exists>r \<in> set xs. vm_view dl r = Some x}"

lemma dls_simps [simp]:
  "dls dl [] = {}"
  "dls dl (r # xs) = (case vm_view dl r of Some d \<Rightarrow> insert d (dls dl xs) | None \<Rightarrow> dls dl xs)"
  by (auto simp: dls_def split: option.splits)

lemma best_of_min_over: "best_of S res \<Longrightarrow> best_of (S \<union> dls dl xs) (min_over dl xs res)"
proof (induction xs arbitrary: S res)
  case (Cons r xs)
  show ?case
  proof (cases "vm_view dl r")
    case (Some d)
    then show ?thesis
      using Cons.IH [OF best_of_merge_min [OF Cons.prems, of d]] by (simp add: vm_get_view)
  qed (use Cons in \<open>simp add: vm_get_view\<close>)
qed simp

lemma best_of_min_over_slots:
  "best_of S res \<Longrightarrow> best_of (S \<union> (\<Union>xs \<in> set xss. dls dl xs)) (min_over_slots dl xss res)"
proof (induction xss arbitrary: S res)
  case (Cons xs xss)
  then show ?case
    using Cons.IH [OF best_of_min_over [OF Cons.prems, of dl xs]] by (simp add: Un_assoc)
qed simp

text \<open>The member scan with its two loop variables is the same running minimum.\<close>

lemma scan_members_min_over:
  "(case scan_members dl xs (b, h) of (best, have) \<Rightarrow> if have then Some best else None)
     = min_over dl xs (if h then Some b else None)"
  by (induction xs arbitrary: b h) (auto simp: merge_min_def split: option.splits)

section \<open>The ring order of a level\<close>

definition level_dls :: "timer_wheel \<Rightarrow> nat \<Rightarrow> u64 set" where
  "level_dls w l = (\<Union>s \<in> {..<256}. dls (deadlines w) (cell w l s))"

lemma filed_ring:
  assumes "filed D e l s r" "D r = Some d" "l < 3"
  obtains off where "1 \<le> off" "off \<le> 256" "unat d div 256 ^ l = unat e div 256 ^ l + off"
    "s = (unat e div 256 ^ l mod 256 + off) mod 256"
proof -
  have d: "s = unat d div 256 ^ l mod 256" "unat e div 256 ^ l < unat d div 256 ^ l"
    "unat d < unat e + 256 ^ (l + 1)"
    using assms by (auto simp: filed_def)
  have "unat d div 256 ^ l \<le> (unat e + 256 * 256 ^ l) div 256 ^ l"
    using d(3) by (intro div_le_mono) simp
  then have "unat d div 256 ^ l \<le> unat e div 256 ^ l + 256"
    by (simp add: add.commute)
  moreover have "s = (unat e div 256 ^ l mod 256 + (unat d div 256 ^ l - unat e div 256 ^ l)) mod 256"
    unfolding mod_add_left_eq using d(1,2) by simp
  ultimately show thesis
    using d(2) by (intro that [of "unat d div 256 ^ l - unat e div 256 ^ l"]) simp_all
qed

lemma ring_unique:
  assumes "1 \<le> (a::nat)" "a \<le> 256" "1 \<le> b" "b \<le> 256" "(c + a) mod 256 = (c + b) mod 256"
  shows "a = b"
proof -
  have le: "x = y" if "(c + y) mod 256 = (c + x) mod 256" "x \<le> y" "1 \<le> x" "y \<le> 256" for x y :: nat
  proof -
    have "256 dvd (c + y) - (c + x)"
      using that(1,2) mod_eq_dvd_iff_nat [of "c + x" "c + y" 256] by simp
    then have "256 dvd y - x" by simp
    with that(2-4) show ?thesis using nat_dvd_not_less [of "y - x" 256] by linarith
  qed
  show ?thesis
    using le [of a b] le [of b a] assms by (cases "a \<le> b") simp_all
qed

text \<open>Every deadline of the level is at one offset of the ring, not before the first occupied one.\<close>

lemma level_dls_ring:
  assumes wf: "full_wf w" and l: "l < 3" and x: "x \<in> level_dls w l"
  obtains k where "1 \<le> k" "k \<le> 256"
    "unat x div 256 ^ l = unat (elapsed w) div 256 ^ l + k"
    "x \<in> dls (deadlines w) (cell w l ((unat (elapsed w) div 256 ^ l mod 256 + k) mod 256))"
proof -
  let ?e = "unat (elapsed w) div 256 ^ l"
  obtain s r where s: "s < 256" "r \<in> set (cell w l s)" "wheel_view w r = Some x"
    using x by (auto simp: level_dls_def dls_def wheel_view_def)
  then have "filed (wheel_view w) (elapsed w) l s r"
    using full_wfD(7) [OF wf] l by (simp add: cells_filed_def)
  from this s(3) l obtain k where k: "1 \<le> k" "k \<le> 256" "unat x div 256 ^ l = ?e + k"
      "s = (?e mod 256 + k) mod 256"
    by (rule filed_ring) auto
  moreover have "x \<in> dls (deadlines w) (cell w l s)"
    using s by (auto simp: dls_def wheel_view_def)
  ultimately show thesis using that by blast
qed

lemma level_dls_ahead:
  assumes wf: "full_wf w" and l: "l < 3" and x: "x \<in> level_dls w l"
    and empty: "\<And>k. 1 \<le> k \<Longrightarrow> k < off \<Longrightarrow>
      cell w l ((unat (elapsed w) div 256 ^ l mod 256 + k) mod 256) = []"
  shows "unat (elapsed w) div 256 ^ l + off \<le> unat x div 256 ^ l"
    and "x \<notin> dls (deadlines w) (cell w l ((unat (elapsed w) div 256 ^ l mod 256 + off) mod 256)) \<Longrightarrow>
      unat (elapsed w) div 256 ^ l + off < unat x div 256 ^ l"
proof -
  let ?e = "unat (elapsed w) div 256 ^ l"
  obtain k where k: "1 \<le> k" "unat x div 256 ^ l = ?e + k"
      "x \<in> dls (deadlines w) (cell w l ((?e mod 256 + k) mod 256))"
    by (rule level_dls_ring [OF wf l x])
  have "\<not> k < off" using empty [OF k(1)] k(3) by auto
  then show "?e + off \<le> unat x div 256 ^ l" using k(2) by simp
  show "?e + off < unat x div 256 ^ l"
    if "x \<notin> dls (deadlines w) (cell w l ((?e mod 256 + off) mod 256))"
  proof -
    have "k \<noteq> off" using that k(3) by blast
    with k(2) \<open>\<not> k < off\<close> show ?thesis by simp
  qed
qed

text \<open>The deadlines of one slot share the slot's offset.\<close>

lemma slot_offset:
  assumes wf: "full_wf w" and l: "l < 3" and off: "1 \<le> off" "off \<le> 256"
    and x: "x \<in> dls (deadlines w) (cell w l ((unat (elapsed w) div 256 ^ l mod 256 + off) mod 256))"
  shows "unat x div 256 ^ l = unat (elapsed w) div 256 ^ l + off"
proof -
  let ?e = "unat (elapsed w) div 256 ^ l" and ?s = "(unat (elapsed w) div 256 ^ l mod 256 + off) mod 256"
  obtain r where r: "r \<in> set (cell w l ?s)" "wheel_view w r = Some x"
    using x by (auto simp: dls_def wheel_view_def)
  then have "filed (wheel_view w) (elapsed w) l ?s r"
    using full_wfD(7) [OF wf] l by (simp add: cells_filed_def)
  from this r(2) l obtain k where k: "1 \<le> k" "k \<le> 256" "unat x div 256 ^ l = ?e + k"
      "?s = (?e mod 256 + k) mod 256"
    by (rule filed_ring) auto
  have "off = k" by (rule ring_unique [OF off k(1,2,4)])
  with k(3) show ?thesis by simp
qed

lemma dls_nonempty:
  assumes wf: "full_wf w" and b: "l < 4" "s < 256" and ne: "cell w l s \<noteq> []"
  obtains d where "vm_view (deadlines w) (cell w l s ! 0) = Some d" "d \<in> dls (deadlines w) (cell w l s)"
proof -
  have "cell w l s ! 0 \<in> set (cell w l s)" using ne by simp
  moreover from this have "filed (wheel_view w) (elapsed w) l s (cell w l s ! 0)"
    using full_wfD(7) [OF wf] b by (simp add: cells_filed_def)
  ultimately show thesis
    using that unfolding filed_def wheel_view_def dls_def by blast
qed

section \<open>The scans\<close>

lemma u64_div_less: "unat a div m < unat b div m \<Longrightarrow> (a :: u64) < b"
  by (simp add: u64_nat) (meson div_le_mono leD leI)

lemma members_best:
  assumes ne: "dls dl xs \<noteq> {}"
  obtains d where "scan_members dl xs (0, False) = (d, True)" "best_of (dls dl xs) (Some d)"
proof -
  obtain best hv where sm: "scan_members dl xs (0, False) = (best, hv)" by fastforce
  have "best_of (dls dl xs) (min_over dl xs None)"
    using best_of_min_over [of "{}" None dl xs] by simp
  moreover have "min_over dl xs None = (if hv then Some best else None)"
    using scan_members_min_over [of dl xs 0 False] by (simp add: sm)
  ultimately show thesis using ne that by (auto simp: sm split: if_splits)
qed

text \<open>The first slot that is not empty.\<close>

lemma scan_offsets_hit:
  assumes wf: "full_wf w" and l: "l < 3" and off: "1 \<le> off" "off \<le> 256"
    and ne: "cell w l ((unat (elapsed w) div 256 ^ l mod 256 + off) mod 256) \<noteq> []"
    and empty: "\<And>k. 1 \<le> k \<Longrightarrow> k < off \<Longrightarrow>
      cell w l ((unat (elapsed w) div 256 ^ l mod 256 + k) mod 256) = []"
  shows "candidate (set_option bound) (level_dls w l) (scan_offsets w l bound off)"
proof -
  let ?e = "unat (elapsed w) div 256 ^ l"
  let ?s = "(?e mod 256 + off) mod 256"
  let ?S = "dls (deadlines w) (cell w l ?s)"
  have l4: "l < 4" using l by simp
  obtain d0 where d0: "vm_view (deadlines w) (cell w l ?s ! 0) = Some d0" "d0 \<in> ?S"
    by (rule dls_nonempty [OF wf l4 _ ne]) simp_all
  note q = slot_offset [OF wf l off]
  have ahead: "?e + off \<le> unat x div 256 ^ l" "x \<notin> ?S \<Longrightarrow> ?e + off < unat x div 256 ^ l"
    if "x \<in> level_dls w l" for x
    using level_dls_ahead [OF wf l that, of off] empty by blast+
  have later: "d \<le> x" if "x \<in> level_dls w l" "x \<notin> ?S" "d \<in> ?S" for d x
    using ahead(2) [OF that(1,2)] q [OF that(3)] u64_div_less [of d "256 ^ l" x] by simp
  have "?S \<subseteq> level_dls w l" unfolding level_dls_def by (rule UN_upper) simp
  then have best: "candidate (set_option bound) (level_dls w l) (Some d)" if "best_of ?S (Some d)" for d
    using that later by auto
  have "unat d0 div 256 ^ l < 18446744073709551616"
    using unat_u64_less [of d0] by (meson div_le_dividend le_less_trans)
  then have pos: "unat (drop_bit (l * 8) (elapsed w) + of_nat off) = ?e + off"
    using q [OF d0(2)] off by (subst unat_add_u64) (simp_all add: unat_u64_of_nat u64_nat)
  define stop where "stop = (case bound of
      Some b \<Rightarrow> drop_bit (l * 8) b < drop_bit (l * 8) (elapsed w) + of_nat off | None \<Rightarrow> False)"
  obtain d where d: "scan_members (deadlines w) (cell w l ?s) (0, False) = (d, True)" "best_of ?S (Some d)"
    using d0(2) by (auto intro: members_best)
  have eval: "scan_offsets w l bound off = (if stop then None else if l = 0 then Some d0 else Some d)"
    using off(2) ne d(1) d0(1)
    by (cases "l = 0"; subst scan_offsets.simps)
      (simp_all add: Let_def u64_nat stop_def vm_get_view split: option.splits)
  consider "stop" | "\<not> stop" "l = 0" | "\<not> stop" "l \<noteq> 0" by blast
  then show ?thesis
  proof cases
    case 1
    then obtain b where b: "bound = Some b" "unat b div 256 ^ l < ?e + off"
      using pos by (auto simp: stop_def u64_nat split: option.splits)
    have "b \<le> x" if "x \<in> level_dls w l" for x
      using ahead(1) [OF that] b(2) u64_div_less [of b "256 ^ l" x] by simp
    then show ?thesis unfolding eval if_P [OF 1] by (simp add: b(1))
  next
    case 2
    have "d0 \<le> x" if x: "x \<in> ?S" for x
    proof -
      have "unat x div 256 ^ l = unat d0 div 256 ^ l"
        by (simp only: q [OF x] q [OF d0(2)])
      then have "unat x = unat d0" by (simp only: 2(2) power_0 div_by_1)
      then show ?thesis by (simp add: u64_nat)
    qed
    then have "best_of ?S (Some d0)" using d0(2) by auto
    from best [OF this] show ?thesis unfolding eval if_not_P [OF 2(1)] if_P [OF 2(2)] .
  next
    case 3
    from best [OF d(2)] show ?thesis unfolding eval if_not_P [OF 3(1)] if_not_P [OF 3(2)] .
  qed
qed

lemma scan_offsets_candidate:
  assumes "full_wf w" "l < 3" "1 \<le> off"
    "\<And>k. 1 \<le> k \<Longrightarrow> k < off \<Longrightarrow>
       cell w l ((unat (elapsed w) div 256 ^ l mod 256 + k) mod 256) = []"
  shows "candidate (set_option bound) (level_dls w l) (scan_offsets w l bound off)"
  using assms
proof (induction w l bound off rule: scan_offsets.induct)
  case (1 w l bound off)
  note wf = 1(3) and l = 1(4) and off = 1(5) and empty = 1(6)
  let ?e = "unat (elapsed w) div 256 ^ l"
  let ?s = "(?e mod 256 + off) mod 256"
  consider "256 < off" | "off \<le> 256" "cell w l ?s \<noteq> []" | "off \<le> 256" "cell w l ?s = []"
    by linarith
  then show ?case
  proof cases
    case 1
    have "False" if x: "x \<in> level_dls w l" for x
      by (rule level_dls_ring [OF wf l x]) (use empty 1 in auto)
    then have "level_dls w l = {}" by blast
    with 1 show ?thesis by (subst scan_offsets.simps) simp
  next
    case 2
    then show ?thesis using scan_offsets_hit [OF wf l off _ _ empty] by blast
  next
    case 3
    have "cell w l ((?e mod 256 + k) mod 256) = []" if "1 \<le> k" "k < off + 1" for k
      using that empty 3(2) by (cases "k = off") simp_all
    then have "candidate (set_option bound) (level_dls w l) (scan_offsets w l bound (off + 1))"
      using "1.IH"(2) [OF 3(1) refl refl refl refl refl] 3(2) wf l by (simp add: u64_nat)
    with 3 show ?thesis by (subst scan_offsets.simps) (simp add: Let_def u64_nat)
  qed
qed

section \<open>The earliest deadline\<close>

lemma scan_level_min_candidate:
  assumes wf: "full_wf w" and l: "l < 3"
  shows "candidate (set_option bound) (level_dls w l) (scan_level_min l bound w)"
proof (cases "level_counts w ! l = 0")
  case True
  then have "level_dls w l = {}"
    using level_count_zero_iff [OF full_wfD(2) [OF wf], of l] l by (simp add: level_dls_def)
  with True show ?thesis by (simp add: scan_level_min_def)
next
  case False
  then show ?thesis
    using scan_offsets_candidate [OF wf l, of 1 bound] by (simp add: scan_level_min_def)
qed

lemma scan_level3_min_best:
  assumes wf: "full_wf w"
  shows "best_of (level_dls w 3) (scan_level3_min w)"
proof -
  have len: "length (levels w ! 3) = 256" using full_wfD(1) [OF wf] by (simp add: structural_wf_def)
  have eq: "level_dls w 3 = (\<Union>xs \<in> set (levels w ! 3). dls (deadlines w) xs)"
    unfolding level_dls_def set_conv_nth len by auto
  show ?thesis
  proof (cases "level_counts w ! 3 = 0")
    case True
    then have "level_dls w 3 = {}"
      using level_count_zero_iff [OF full_wfD(2) [OF wf], of 3] by (simp add: level_dls_def)
    with True show ?thesis by (simp add: scan_level3_min_def)
  next
    case False
    then show ?thesis
      using best_of_min_over_slots [of "{}" None "deadlines w" "levels w ! 3"]
      by (simp add: scan_level3_min_def eq)
  qed
qed

lemma ran_split:
  assumes wf: "full_wf w"
  shows "ran (wheel_view w) =
    dls (deadlines w) (pending w) \<union> (level_dls w 0 \<union> level_dls w 1 \<union> level_dls w 2 \<union> level_dls w 3)"
proof
  note D = full_wfD [OF wf]
  show "ran (wheel_view w) \<subseteq>
      dls (deadlines w) (pending w) \<union> (level_dls w 0 \<union> level_dls w 1 \<union> level_dls w 2 \<union> level_dls w 3)"
  proof
    fix x assume "x \<in> ran (wheel_view w)"
    then obtain r where r: "wheel_view w r = Some x" by (auto simp: ran_def)
    show "x \<in> dls (deadlines w) (pending w) \<union>
        (level_dls w 0 \<union> level_dls w 1 \<union> level_dls w 2 \<union> level_dls w 3)"
    proof (cases "r \<in> set (pending w)")
      case True
      then show ?thesis using r by (auto simp: dls_def wheel_view_def)
    next
      case False
      then obtain p where p: "pos_view w r = Some p"
        using D(5) r by (auto simp: dl_pos_consistent_def)
      from slots_ok_pos [OF D(6) p]
      have "pos_level p < 4" "pos_slot p < 256" "r \<in> set (cell w (pos_level p) (pos_slot p))"
        by (auto simp: in_set_conv_nth)
      then have "x \<in> level_dls w (pos_level p)"
        using r by (auto simp: level_dls_def dls_def wheel_view_def)
      moreover have "pos_level p \<in> {0, 1, 2, 3}" using \<open>pos_level p < 4\<close> by auto
      ultimately show ?thesis by auto
    qed
  qed
qed (auto simp: level_dls_def dls_def wheel_view_def ran_def)

lemma scan_wheel_min_best:
  assumes wf: "full_wf w"
  shows "best_of (ran (wheel_view w)) (scan_wheel_min w)"
proof -
  note D = full_wfD [OF wf]
  have pend: "best_of (dls (deadlines w) (pending w)) (min_over (deadlines w) (pending w) None)"
    using best_of_min_over [of "{}" None "deadlines w" "pending w"] by simp
  show ?thesis
  proof (cases "min_over (deadlines w) (pending w) None")
    case None
    then have empty: "dls (deadlines w) (pending w) = {}" using pend by simp
    define c0 where "c0 = scan_level_min 0 None w"
    have "candidate {} (level_dls w 0) c0"
      using scan_level_min_candidate [OF wf, of 0 None] by (simp add: c0_def)
    then have c0: "best_of (level_dls w 0) c0" by (cases c0) auto
    then have sub: "set_option c0 \<subseteq> level_dls w 0" by (cases c0) auto
    have c: "candidate S (level_dls w l) (scan_level_min l c0 w)" if "l < 3" "level_dls w 0 \<subseteq> S" for l S
      using candidate_mono [OF scan_level_min_candidate [OF wf that(1)]] sub that(2) by blast
    have "best_of ({} \<union> level_dls w 0 \<union> level_dls w 1 \<union> level_dls w 2 \<union> level_dls w 3)
      (merge_opt (merge_opt (merge_opt (merge_opt None c0) (scan_level_min 1 c0 w))
        (scan_level_min 2 c0 w)) (scan_level3_min w))"
      by (intro best_of_merge_opt c best_of_candidate [OF scan_level3_min_best [OF wf]]
          best_of_candidate [OF c0]) auto
    then show ?thesis
      using empty None by (simp add: scan_wheel_min_def c0_def Let_def ran_split [OF wf])
  next
    case (Some pb)
    then obtain r where r: "r \<in> set (pending w)" "wheel_view w r = Some pb"
      using pend by (auto simp: dls_def wheel_view_def)
    then have pb: "pb \<le> elapsed w" using D(8) by (auto simp: pending_expired_def)
    have "pb \<le> x" if x: "wheel_view w k = Some x" for k x
    proof (cases "x \<le> elapsed w")
      case True
      then have "x \<in> dls (deadlines w) (pending w)"
        using due_pending [OF wf x] x by (auto simp: dls_def wheel_view_def)
      then show ?thesis using pend Some by simp
    qed (use pb in simp)
    then show ?thesis
      using Some r(2) by (auto simp: scan_wheel_min_def ran_def)
  qed
qed

lemma next_deadline_best:
  assumes wf: "full_wf w"
  shows "best_of (ran (wheel_view w)) (next_deadline w)"
proof (cases "wheel_is_empty w")
  case True
  then have "wheel_view w = Map.empty"
    using vm_is_empty_view [OF full_wfD(3) [OF wf]] by (simp add: wheel_is_empty_def wheel_view_def)
  with True show ?thesis by (simp add: next_deadline_def)
next
  case False
  then show ?thesis
    using scan_wheel_min_best [OF wf] full_wfD(4) [OF wf]
    by (auto simp: next_deadline_def cached_min_valid_def ran_def split: option.splits)
qed

end
