(* ===== verification/Timer_Queue.thy ===== *)
theory Timer_Queue
  imports Wheel_Min
begin

text \<open>
  The interface the reactor uses the timer wheel through: register, cancel, pop one expired timer,
  ask for the earliest deadline.  The locale states what each call promises; what a client
  concludes about repeated pops is proved from it once, and the timer wheel is shown to
  implement it.
\<close>

section \<open>Popping until nothing is due\<close>

text \<open>\<open>pops pop q rs q'\<close>: calling \<open>pop\<close> until it answers \<open>None\<close> delivers the ids \<open>rs\<close> in this order.\<close>

inductive pops :: "('q \<Rightarrow> u64 option \<times> 'q) \<Rightarrow> 'q \<Rightarrow> u64 list \<Rightarrow> 'q \<Rightarrow> bool"
  for pop :: "'q \<Rightarrow> u64 option \<times> 'q" where
  pops_done: "pop q = (None, q') \<Longrightarrow> pops pop q [] q'"
| pops_step: "pop q = (Some r, q1) \<Longrightarrow> pops pop q1 rs q' \<Longrightarrow> pops pop q (r # rs) q'"

inductive_cases pops_NilE: "pops pop q [] q'"
inductive_cases pops_ConsE: "pops pop q (r # rs) q'"

section \<open>The interface\<close>

locale timer_queue =
  fixes inv :: "'q \<Rightarrow> bool"
    and idle :: "'q \<Rightarrow> bool"
    and clock :: "'q \<Rightarrow> u64"
    and view :: "'q \<Rightarrow> u64 \<Rightarrow> u64 option"
    and empty :: 'q
    and insert :: "u64 \<Rightarrow> u64 \<Rightarrow> 'q \<Rightarrow> 'q"
    and remove :: "u64 \<Rightarrow> 'q \<Rightarrow> 'q"
    and pop :: "u64 \<Rightarrow> 'q \<Rightarrow> u64 option \<times> 'q"
    and earliest :: "'q \<Rightarrow> u64 option"
  assumes inv_empty: "inv empty" "idle empty" "view empty = Map.empty" "clock empty = 0"
    and insert_ok: "inv q \<Longrightarrow> idle q \<Longrightarrow> clock q < d \<Longrightarrow>
      inv (insert r d q) \<and> idle (insert r d q) \<and> clock (insert r d q) = clock q \<and>
      view (insert r d q) = (view q)(r \<mapsto> d)"
    and remove_ok: "inv q \<Longrightarrow> idle q \<Longrightarrow>
      inv (remove r q) \<and> idle (remove r q) \<and> clock (remove r q) = clock q \<and>
      view (remove r q) = (view q)(r := None)"
    and pop_some: "inv q \<Longrightarrow> clock q \<le> now \<Longrightarrow> pop now q = (Some r, q') \<Longrightarrow>
      inv q' \<and> clock q' \<le> now \<and> view q' = (view q)(r := None) \<and> (\<exists>d. view q r = Some d \<and> d \<le> now)"
    and pop_none: "inv q \<Longrightarrow> clock q \<le> now \<Longrightarrow> pop now q = (None, q') \<Longrightarrow>
      inv q' \<and> idle q' \<and> clock q' = now \<and> view q' = view q \<and> (\<forall>r d. view q r = Some d \<longrightarrow> now < d)"
    and earliest_ok: "inv q \<Longrightarrow>
      earliest q = (if view q = Map.empty then None else Some (Min (ran (view q))))"
begin

text \<open>The ids that are due.\<close>

definition due :: "u64 \<Rightarrow> 'q \<Rightarrow> u64 set" where
  "due now q = {r. \<exists>d. view q r = Some d \<and> d \<le> now}"

lemma due_pop:
  "inv q \<Longrightarrow> clock q \<le> now \<Longrightarrow> pop now q = (Some r, q') \<Longrightarrow>
     r \<in> due now q \<and> due now q' = due now q - {r}"
  using pop_some [of q now r q'] by (auto simp: due_def)

text \<open>Popping delivers every due timer exactly once and leaves exactly the others.\<close>

lemma pops_sound:
  assumes "pops (pop now) q rs q'" "inv q" "clock q \<le> now"
  shows "inv q' \<and> idle q' \<and> clock q' = now \<and> distinct rs \<and> set rs = due now q \<and>
    view q' = view q |` (- due now q)"
  using assms
proof (induction rule: pops.induct)
  case (pops_done q q')
  have "due now q = {}" using pop_none [OF pops_done(2,3,1)] by (auto simp: due_def not_le)
  with pop_none [OF pops_done(2,3,1)] show ?case by simp
next
  case (pops_step q r q1 rs q')
  note one = pop_some [OF pops_step(4,5,1)] due_pop [OF pops_step(4,5,1)]
  then have IH: "inv q' \<and> idle q' \<and> clock q' = now \<and> distinct rs \<and> set rs = due now q1 \<and>
      view q' = view q1 |` (- due now q1)"
    using pops_step.IH by blast
  moreover have "view q1 |` (- due now q1) = view q |` (- due now q)"
    using one by (auto simp: restrict_map_def fun_eq_iff)
  ultimately show ?case using one by auto
qed

lemma pops_total:
  assumes "inv q" "clock q \<le> now"
  shows "\<exists>rs q'. pops (pop now) q rs q' \<and> length rs = card (due now q)"
  using assms
proof (induction "card (due now q)" arbitrary: q rule: less_induct)
  case less
  obtain res q1 where p: "pop now q = (res, q1)" by fastforce
  show ?case
  proof (cases res)
    case None
    then have "due now q = {}" using pop_none [OF less(2,3)] p by (auto simp: due_def not_le)
    then show ?thesis using p None pops_done by fastforce
  next
    case (Some r)
    note one = due_pop [OF less(2,3) p [unfolded Some]] pop_some [OF less(2,3) p [unfolded Some]]
    then have c: "card (due now q) = Suc (card (due now q1))"
      using card_Suc_Diff1 [of "due now q" r] by simp
    have "\<exists>rs q'. pops (pop now) q1 rs q' \<and> length rs = card (due now q1)"
    proof (rule less(1))
      show "card (due now q1) < card (due now q)" using c by simp
      show "inv q1" "clock q1 \<le> now" using one by blast+
    qed
    then obtain rs q' where "pops (pop now) q1 rs q'" "length rs = card (due now q1)"
      by blast
    then have "pops (pop now) q (r # rs) q'" "length (r # rs) = card (due now q)"
      using p Some c by (simp_all add: pops_step)
    then show ?thesis by blast
  qed
qed

lemma pops_deterministic: "pops (pop now) q rs q' \<Longrightarrow> pops (pop now) q rs2 q2 \<Longrightarrow> rs = rs2 \<and> q' = q2"
proof (induction arbitrary: rs2 q2 rule: pops.induct)
  case (pops_done q q')
  then show ?case by (auto elim: pops.cases)
next
  case (pops_step q r q1 rs q')
  from pops_step.prems pops_step.hyps(1) pops_step.IH show ?case by (auto elim: pops.cases)
qed

text \<open>After the pops the earliest deadline, if any, is in the future.\<close>

lemma earliest_after_pops:
  assumes "pops (pop now) q rs q'" "inv q" "clock q \<le> now" "earliest q' = Some d"
  shows "now < d"
proof -
  note s = pops_sound [OF assms(1-3)]
  then have d: "d = Min (ran (view q'))" "view q' \<noteq> Map.empty"
    using assms(4) earliest_ok [of q'] by (auto simp del: fun_eq_iff split: if_splits)
  then obtain r y where "view q' r = Some y" by (metis ext not_None_eq)
  then have "ran (view q') \<noteq> {}" by (auto simp: ran_def)
  then have "d \<in> ran (view q')" using d(1) by (metis Min_in finite)
  then show ?thesis using s by (auto simp: ran_def restrict_map_def due_def not_le split: if_splits)
qed

end

section \<open>The timer wheel implements it\<close>

interpretation tw: timer_queue full_wf "\<lambda>w. pending w = []" elapsed wheel_view wheel_new
  wheel_insert wheel_remove try_pop_expired next_deadline
proof unfold_locales
  show "full_wf wheel_new" "pending wheel_new = []" "wheel_view wheel_new = Map.empty" "elapsed wheel_new = 0"
    by simp_all (simp_all add: wheel_new_def)
  show "full_wf (wheel_insert r d w) \<and> pending (wheel_insert r d w) = [] \<and>
      elapsed (wheel_insert r d w) = elapsed w \<and> wheel_view (wheel_insert r d w) = (wheel_view w)(r \<mapsto> d)"
    if "full_wf w" "pending w = []" "elapsed w < d" for w r d
    using wheel_insert_spec [OF that] by blast
  show "full_wf (wheel_remove r w) \<and> pending (wheel_remove r w) = [] \<and>
      elapsed (wheel_remove r w) = elapsed w \<and> wheel_view (wheel_remove r w) = (wheel_view w)(r := None)"
    if "full_wf w" "pending w = []" for w r
    using wheel_remove_spec [OF that] by blast
  show "full_wf w' \<and> elapsed w' \<le> now \<and> wheel_view w' = (wheel_view w)(r := None) \<and>
      (\<exists>d. wheel_view w r = Some d \<and> d \<le> now)"
    if "full_wf w" "elapsed w \<le> now" "try_pop_expired now w = (Some r, w')" for w now r w'
    using try_pop_expired_spec [OF that(1,2)] that(3) by simp
  show "full_wf w' \<and> pending w' = [] \<and> elapsed w' = now \<and> wheel_view w' = wheel_view w \<and>
      (\<forall>r d. wheel_view w r = Some d \<longrightarrow> now < d)"
    if "full_wf w" "elapsed w \<le> now" "try_pop_expired now w = (None, w')" for w now w'
    using try_pop_expired_spec [OF that(1,2)] that(3) by simp
  show "next_deadline w = (if wheel_view w = Map.empty then None else Some (Min (ran (wheel_view w))))"
    if "full_wf w" for w
  proof -
    have "ran (wheel_view w) = {} \<longleftrightarrow> wheel_view w = Map.empty"
      using not_None_eq by (fastforce simp: ran_def fun_eq_iff)
    then show ?thesis using best_of_Min [OF next_deadline_best [OF that]] by simp
  qed
qed

section \<open>The minimum cache\<close>

text \<open>
  No operation turns an absent cache into a present one, so on every wheel that starts from
  \<open>wheel_new\<close> the cache stays absent and \<open>next_deadline\<close> always scans.
\<close>

lemma cached_min_frame:
  "cached_min w = None \<Longrightarrow> cached_min (wheel_insert r d w) = None"
  "cached_min w = None \<Longrightarrow> cached_min (wheel_remove r w) = None"
  by (auto simp: wheel_insert_def wheel_remove_def invalidate_min_def Let_def split: option.splits prod.splits)

lemma cached_min_drain_entries [simp]: "cached_min (drain_entries now rids w) = cached_min w"
proof (induction rids arbitrary: w)
  case (Cons rid rest)
  have "cached_min (drain_entry now rid w) = cached_min w"
    by (simp add: drain_entry_def wheel_insert_inner_def Let_def split: prod.splits)
  then show ?case using Cons by simp
qed simp

lemma cached_min_drain_slots [simp]: "cached_min (drain_slots now l old n i w) = cached_min w"
proof (induction now l old n i w rule: drain_slots.induct)
  case (1 now l old n i w)
  have "cached_min (drain_slot now l s w) = cached_min w" for s
    by (simp add: drain_slot_def slot_drain_def Let_def)
  then show ?case using 1 by (subst drain_slots.simps) simp
qed

lemma cached_min_advance_levels [simp]: "cached_min (advance_levels now e l w) = cached_min w"
proof (induction now e l w rule: advance_levels.induct)
  case (1 now e l w)
  show ?case by (subst advance_levels.simps) (use 1 in \<open>simp add: Let_def\<close>)
qed

lemma cached_min_pop_pending: "cached_min w = None \<Longrightarrow> cached_min (snd (pop_pending now w)) = None"
proof (induction now w rule: pop_pending.induct)
  case (1 now w)
  show ?case
    by (subst pop_pending.simps) (use 1 in \<open>auto simp: Let_def invalidate_min_def\<close>)
qed

lemma cached_min_try_pop: "cached_min w = None \<Longrightarrow> cached_min (snd (try_pop_expired now w)) = None"
proof -
  assume "cached_min w = None"
  obtain res w1 where p1: "pop_pending now w = (res, w1)" by fastforce
  then have "cached_min w1 = None"
    using cached_min_pop_pending [OF \<open>cached_min w = None\<close>, of now] by simp
  then show ?thesis
    by (cases res) (auto simp: try_pop_expired_def p1 Let_def advance_to_def intro!: cached_min_pop_pending)
qed

section \<open>Wheels that programs build\<close>

text \<open>The calls a client makes: timers are registered and cancelled between two rounds of pops.\<close>

inductive wheel_reachable :: "timer_wheel \<Rightarrow> bool" where
  reach_new: "wheel_reachable wheel_new"
| reach_insert: "wheel_reachable w \<Longrightarrow> pending w = [] \<Longrightarrow> elapsed w < d \<Longrightarrow> wheel_reachable (wheel_insert r d w)"
| reach_remove: "wheel_reachable w \<Longrightarrow> pending w = [] \<Longrightarrow> wheel_reachable (wheel_remove r w)"
| reach_pop: "wheel_reachable w \<Longrightarrow> elapsed w \<le> now \<Longrightarrow> wheel_reachable (snd (try_pop_expired now w))"

section \<open>Properties\<close>

text \<open>
  C1: \<open>try_pop_expired\<close> keeps the invariant of the wheel and answers correctly: an id it returns was
  registered with a deadline that has passed, and only that timer leaves the wheel; when it
  answers \<open>None\<close> no registered timer is due, none was dropped and the clock stands at \<open>now\<close>.
\<close>

theorem wheel_try_pop_correct:
  assumes "full_wf w" "elapsed w \<le> now" "try_pop_expired now w = (res, w')"
  shows "full_wf w' \<and> elapsed w' \<le> now \<and>
    (case res of
       Some r \<Rightarrow> (\<exists>d. wheel_view w r = Some d \<and> d \<le> now) \<and> wheel_view w' = (wheel_view w)(r := None)
     | None \<Rightarrow> wheel_view w' = wheel_view w \<and> pending w' = [] \<and> elapsed w' = now \<and>
         (\<forall>r d. wheel_view w r = Some d \<longrightarrow> now < d))"
  using try_pop_expired_spec [OF assms(1,2)] assms(3) by (cases res) auto

theorem wheel_try_pop_correct_witness:
  "\<exists>w'. try_pop_expired 300 (wheel_insert 7 300 wheel_new) = (Some 7, w') \<and> wheel_view w' = Map.empty"
proof -
  have I: "full_wf (wheel_insert 7 300 wheel_new)" "elapsed (wheel_insert 7 300 wheel_new) = 0"
    "wheel_view (wheel_insert 7 300 wheel_new) = [7 \<mapsto> 300]"
    using tw.insert_ok [of wheel_new 300 7] tw.inv_empty by simp_all
  obtain res w' where p: "try_pop_expired 300 (wheel_insert 7 300 wheel_new) = (res, w')" by fastforce
  note correct = wheel_try_pop_correct [OF I(1) _ p]
  show ?thesis
  proof (cases res)
    case None
    then show ?thesis using correct I(2,3) by (auto dest: spec [of _ 7])
  next
    case (Some r)
    then have "r = 7" using correct I(2,3) by (auto split: if_splits)
    then show ?thesis using Some p correct I(2,3) by auto
  qed
qed

text \<open>
  C2: Calling \<open>try_pop_expired\<close> with a fixed time until it answers \<open>None\<close> ends, and the ids it has
  delivered by then are exactly the timers that were due, each once; every other timer is still
  registered with its deadline, and the next deadline, if there is one, is in the future.
\<close>

theorem wheel_pops_exactly_due:
  assumes "full_wf w" "elapsed w \<le> now"
  shows "\<exists>rs w'. pops (try_pop_expired now) w rs w' \<and> full_wf w' \<and> elapsed w' = now \<and>
    distinct rs \<and> set rs = {r. \<exists>d. wheel_view w r = Some d \<and> d \<le> now} \<and>
    (\<forall>r. wheel_view w' r = (if r \<in> set rs then None else wheel_view w r)) \<and>
    (\<forall>d. next_deadline w' = Some d \<longrightarrow> now < d)"
proof -
  obtain rs w' where p: "pops (try_pop_expired now) w rs w'" using tw.pops_total [OF assms] by blast
  note s = tw.pops_sound [OF p assms]
  have "\<forall>r. wheel_view w' r = (if r \<in> set rs then None else wheel_view w r)"
    using s by (simp add: restrict_map_def)
  moreover have "set rs = {r. \<exists>d. wheel_view w r = Some d \<and> d \<le> now}" using s by (simp add: tw.due_def)
  moreover have "\<forall>d. next_deadline w' = Some d \<longrightarrow> now < d" using tw.earliest_after_pops [OF p assms] by blast
  ultimately show ?thesis using p s by blast
qed

theorem wheel_pops_exactly_due_witness:
  "\<exists>rs w'. pops (try_pop_expired 300) (wheel_insert 8 900 (wheel_insert 7 300 wheel_new)) rs w' \<and> set rs = {7}"
proof -
  let ?w1 = "wheel_insert 7 300 wheel_new"
  let ?w2 = "wheel_insert 8 900 ?w1"
  have 1: "full_wf ?w1" "pending ?w1 = []" "elapsed ?w1 = 0" "wheel_view ?w1 = [7 \<mapsto> 300]"
    using tw.insert_ok [of wheel_new 300 7] tw.inv_empty by simp_all
  then have 2: "full_wf ?w2" "elapsed ?w2 = 0" "wheel_view ?w2 = [7 \<mapsto> 300, 8 \<mapsto> 900]"
    using tw.insert_ok [of ?w1 900 8] by simp_all
  have "{r. \<exists>d. wheel_view ?w2 r = Some d \<and> d \<le> 300} = {7}"
    unfolding 2(3) by (auto split: if_splits)
  then show ?thesis using wheel_pops_exactly_due [of ?w2 300] 2(1,2) by auto
qed

text \<open>
  C6: \<open>next_deadline\<close>, which scans occupied slots level by level and stops early, returns the
  smallest deadline of all registered timers, and \<open>None\<close> exactly when there is none.
\<close>

theorem wheel_next_deadline_min:
  assumes "full_wf w"
  shows "next_deadline w = (if wheel_view w = Map.empty then None else Some (Min (ran (wheel_view w))))"
  by (rule tw.earliest_ok [OF assms])

theorem wheel_next_deadline_min_witness:
  "next_deadline (wheel_insert 8 70000 (wheel_insert 7 300 wheel_new)) = Some 300"
proof -
  let ?w1 = "wheel_insert 7 300 wheel_new"
  have 1: "full_wf ?w1" "pending ?w1 = []" "elapsed ?w1 = 0" "wheel_view ?w1 = [7 \<mapsto> 300]"
    using tw.insert_ok [of wheel_new 300 7] tw.inv_empty by simp_all
  then have 2: "full_wf (wheel_insert 8 70000 ?w1)"
    "wheel_view (wheel_insert 8 70000 ?w1) = [7 \<mapsto> 300, 8 \<mapsto> 70000]"
    using tw.insert_ok [of ?w1 70000 8] by simp_all
  have "ran [7 \<mapsto> 300 :: u64, 8 :: u64 \<mapsto> 70000] = {300, 70000}" by (simp add: insert_commute)
  moreover have "[7 \<mapsto> 300 :: u64, 8 :: u64 \<mapsto> 70000] \<noteq> Map.empty" by (metis fun_upd_same option.distinct(1))
  ultimately show ?thesis using wheel_next_deadline_min [OF 2(1)] 2(2) by simp
qed

text \<open>
  C7: Registering a timer between two rounds of pops, with a deadline the clock has not reached,
  keeps the invariant and changes the wheel's map at this id only; a former registration of the
  id is replaced.
\<close>

theorem wheel_insert_correct:
  assumes "full_wf w" "pending w = []" "elapsed w < d"
  shows "full_wf (wheel_insert r d w) \<and> wheel_view (wheel_insert r d w) = (wheel_view w)(r \<mapsto> d) \<and>
    pending (wheel_insert r d w) = [] \<and> elapsed (wheel_insert r d w) = elapsed w"
  using wheel_insert_spec [OF assms] by simp

theorem wheel_insert_correct_witness:
  "full_wf (wheel_insert 7 300 wheel_new) \<and> wheel_view (wheel_insert 7 300 wheel_new) = [7 \<mapsto> 300]"
  using wheel_insert_correct [of wheel_new 300 7] tw.inv_empty by simp

text \<open>
  C8: Cancelling a timer keeps the invariant and takes exactly this id out of the wheel's map, also
  when it is not registered or when the swap-remove moves another timer of its slot.
\<close>

theorem wheel_remove_correct:
  assumes "full_wf w" "pending w = []"
  shows "full_wf (wheel_remove r w) \<and> wheel_view (wheel_remove r w) = (wheel_view w)(r := None) \<and>
    pending (wheel_remove r w) = [] \<and> elapsed (wheel_remove r w) = elapsed w"
  using wheel_remove_spec [OF assms] by simp

theorem wheel_remove_correct_witness:
  "wheel_view (wheel_remove 7 (wheel_insert 7 300 wheel_new)) = Map.empty"
proof -
  have "full_wf (wheel_insert 7 300 wheel_new)" "pending (wheel_insert 7 300 wheel_new) = []"
    "wheel_view (wheel_insert 7 300 wheel_new) = [7 \<mapsto> 300]"
    using tw.insert_ok [of wheel_new 300 7] tw.inv_empty by simp_all
  then show ?thesis using wheel_remove_correct [of "wheel_insert 7 300 wheel_new" 7] by simp
qed

text \<open>
  C10: Every wheel a client can build satisfies the invariant, and its minimum cache is empty: no
  operation ever fills \<open>cached_min\<close>, so \<open>next_deadline\<close> always takes the scanning path.
\<close>

theorem wheel_reachable_inv:
  assumes "wheel_reachable w"
  shows "full_wf w \<and> cached_min w = None \<and> 
    next_deadline w = (if wheel_is_empty w then None else scan_wheel_min w)"
proof -
  have "full_wf w \<and> cached_min w = None"
    using assms
  proof induction
    case (reach_pop w now)
    then show ?case using try_pop_expired_spec(1) cached_min_try_pop by blast
  qed (simp_all add: wheel_insert_spec wheel_remove_spec cached_min_frame, simp add: wheel_new_def)
  then show ?thesis by (simp add: next_deadline_def)
qed

theorem wheel_reachable_inv_witness:
  "full_wf (wheel_insert 7 300 wheel_new) \<and> cached_min (wheel_insert 7 300 wheel_new) = None"
proof -
  have "wheel_reachable (wheel_insert 7 300 wheel_new)"
    by (rule reach_insert [OF reach_new]) (simp_all add: tw.inv_empty)
  then show ?thesis using wheel_reachable_inv by blast
qed

end
