(* ===== verification/Slab.thy ===== *)
theory Slab
  imports Keyed_Store
begin

text \<open>
  \<^bold>\<open>lion-slab.\<close>  A \<open>Slab\<close> is a window of option slots over the \<open>u64\<close> key space: slot \<open>i\<close> of \<open>inner\<close>
  holds the value of key \<open>offset + i\<close>.  The window grows at either end on insertion and never
  shrinks.  Model of \<^verbatim>\<open>lion-slab/src/slab.rs\<close>; the correctness statement is the interpretation
  of the \<open>keyed_store\<close> interface and the functional properties at the end.
\<close>

section \<open>Data and operations\<close>

record 'v slab =
  slab_inner :: "'v option list"
  slab_offset :: u64

definition slab_new :: "'v slab" where
  "slab_new = \<lparr>slab_inner = [], slab_offset = 0\<rparr>"

definition slab_grow_front :: "u64 \<Rightarrow> 'v slab \<Rightarrow> 'v slab" where
  "slab_grow_front key s =
     (let extra = unat (slab_offset s - key);
          old_len = length (slab_inner s);
          grown = vec_resize (old_len + extra) None (slab_inner s)
      in s\<lparr>slab_inner := rotate_right extra grown, slab_offset := key\<rparr>)"

definition slab_ensure_slot :: "u64 \<Rightarrow> 'v slab \<Rightarrow> 'v slab" where
  "slab_ensure_slot rel s =
     (let idx = unat rel
      in if idx \<ge> length (slab_inner s)
         then s\<lparr>slab_inner := vec_resize (idx + 1) None (slab_inner s)\<rparr> else s)"

definition slab_set_slot :: "u64 \<Rightarrow> 'v \<Rightarrow> 'v slab \<Rightarrow> 'v slab" where
  "slab_set_slot rel v s = s\<lparr>slab_inner := (slab_inner s)[unat rel := Some v]\<rparr>"

definition slab_insert :: "u64 \<Rightarrow> 'v \<Rightarrow> 'v slab \<Rightarrow> 'v slab" where
  "slab_insert key v s =
     (let s1 = (if length (slab_inner s) = 0 then s\<lparr>slab_offset := key\<rparr>
                else if key < slab_offset s then slab_grow_front key s else s);
          rel = key - slab_offset s1
      in slab_set_slot rel v (slab_ensure_slot rel s1))"

definition slab_get :: "u64 \<Rightarrow> 'v slab \<Rightarrow> 'v option" where
  "slab_get key s =
     (if key < slab_offset s then None
      else let diff = key - slab_offset s
           in if unat diff \<ge> length (slab_inner s) then None else slab_inner s ! unat diff)"

text \<open>
  \<open>get_mut\<close> returns a mutable borrow of the value: the value together with the write-back that an
  assignment through the borrow performs.
\<close>

definition slab_get_mut :: "u64 \<Rightarrow> 'v slab \<Rightarrow> ('v \<times> ('v \<Rightarrow> 'v slab)) option" where
  "slab_get_mut key s =
     (if key < slab_offset s then None
      else let diff = key - slab_offset s
           in if unat diff \<ge> length (slab_inner s) then None
              else (case slab_inner s ! unat diff of
                      None \<Rightarrow> None
                    | Some v \<Rightarrow> Some (v, \<lambda>v'. s\<lparr>slab_inner := (slab_inner s)[unat diff := Some v']\<rparr>)))"

definition slab_take_at :: "nat \<Rightarrow> 'v slab \<Rightarrow> 'v option \<times> 'v slab" where
  "slab_take_at idx s = (slab_inner s ! idx, s\<lparr>slab_inner := (slab_inner s)[idx := None]\<rparr>)"

definition slab_remove :: "u64 \<Rightarrow> 'v slab \<Rightarrow> 'v option \<times> 'v slab" where
  "slab_remove key s =
     (if key < slab_offset s then (None, s)
      else let diff = key - slab_offset s
           in if unat diff \<ge> length (slab_inner s) then (None, s) else slab_take_at (unat diff) s)"

section \<open>The abstraction\<close>

definition slab_spec_contains :: "'v slab \<Rightarrow> nat \<Rightarrow> bool" where
  "slab_spec_contains s k \<longleftrightarrow>
     unat (slab_offset s) \<le> k \<and> k - unat (slab_offset s) < length (slab_inner s) \<and>
     slab_inner s ! (k - unat (slab_offset s)) \<noteq> None"

definition slab_view :: "'v slab \<Rightarrow> nat \<Rightarrow> 'v option" where
  "slab_view s k =
     (if slab_spec_contains s k then slab_inner s ! (k - unat (slab_offset s)) else None)"

definition slab_wf :: "'v slab \<Rightarrow> bool" where
  "slab_wf s \<longleftrightarrow> True"

section \<open>Correctness\<close>

lemma slab_view_window: "slab_view s = window (unat (slab_offset s)) (slab_inner s)"
  by (rule ext) (simp add: slab_view_def slab_spec_contains_def window_def)

lemma slab_wf_True [simp]: "slab_wf s"
  by (simp add: slab_wf_def)

lemma slab_view_new [simp]: "slab_view slab_new = Map.empty"
  by (simp add: slab_view_window slab_new_def)

lemma slab_grow_front_inner:
  "slab_inner (slab_grow_front key s) =
     replicate (unat (slab_offset s - key)) None @ slab_inner s"
  by (simp add: slab_grow_front_def Let_def vec_resize_def
      rotate_right_append [of "replicate (unat (slab_offset s - key)) None", simplified])

lemma slab_grow_front_offset [simp]: "slab_offset (slab_grow_front key s) = key"
  by (simp add: slab_grow_front_def Let_def)

lemma slab_view_grow_front:
  assumes "key < slab_offset s"
  shows "slab_view (slab_grow_front key s) = slab_view s"
proof -
  have "unat key = unat (slab_offset s) - unat (slab_offset s - key)"
    "unat (slab_offset s - key) \<le> unat (slab_offset s)"
    using assms by (auto simp: u64_nat)
  then show ?thesis
    by (simp add: slab_view_window slab_grow_front_inner window_prepend)
qed

lemma slab_ensure_slot_offset [simp]: "slab_offset (slab_ensure_slot rel s) = slab_offset s"
  by (simp add: slab_ensure_slot_def Let_def)

lemma slab_ensure_slot_bound: "unat rel < length (slab_inner (slab_ensure_slot rel s))"
  by (simp add: slab_ensure_slot_def Let_def)

lemma slab_view_ensure_slot [simp]: "slab_view (slab_ensure_slot rel s) = slab_view s"
  by (simp add: slab_view_window slab_ensure_slot_def Let_def window_resize)

lemma slab_view_update:
  assumes "slab_offset s \<le> key" "unat (key - slab_offset s) < length (slab_inner s)"
  shows "slab_view (s\<lparr>slab_inner := (slab_inner s)[unat (key - slab_offset s) := v]\<rparr>) =
    (slab_view s)(unat key := v)"
  using assms by (simp add: slab_view_window window_update u64_nat)

lemma slab_view_insert: "slab_view (slab_insert k v s) = (slab_view s)(unat k \<mapsto> v)"
proof -
  define s1 where "s1 = (if length (slab_inner s) = 0 then s\<lparr>slab_offset := k\<rparr>
                else if k < slab_offset s then slab_grow_front k s else s)"
  have off: "slab_offset s1 \<le> k"
    by (auto simp: s1_def)
  have view: "slab_view s1 = slab_view s"
    by (simp add: s1_def slab_view_grow_front) (simp add: slab_view_window)
  let ?s2 = "slab_ensure_slot (k - slab_offset s1) s1"
  have "slab_view (slab_set_slot (k - slab_offset ?s2) v ?s2) = (slab_view ?s2)(unat k \<mapsto> v)"
    unfolding slab_set_slot_def
    by (rule slab_view_update) (use off slab_ensure_slot_bound in simp_all)
  then show ?thesis
    unfolding slab_insert_def Let_def s1_def [symmetric] by (simp add: view)
qed

lemma slab_get_view: "slab_get k s = slab_view s (unat k)"
  by (auto simp: slab_get_def slab_view_window window_def Let_def u64_nat not_less)

lemma slab_remove_result: "fst (slab_remove k s) = slab_view s (unat k)"
  by (auto simp: slab_remove_def slab_take_at_def slab_view_window window_def Let_def u64_nat not_less)

lemma slab_view_remove: "slab_view (snd (slab_remove k s)) = (slab_view s)(unat k := None)"
proof (cases "k < slab_offset s \<or> unat (k - slab_offset s) \<ge> length (slab_inner s)")
  case True
  then have "slab_view s (unat k) = None"
    by (auto simp: slab_view_window window_def u64_nat not_less)
  with True show ?thesis by (auto simp: slab_remove_def Let_def fun_eq_iff)
next
  case False
  then show ?thesis
    by (auto simp: slab_remove_def slab_take_at_def Let_def slab_view_update)
qed

interpretation slab: keyed_store slab_wf unat slab_view slab_new slab_insert slab_get slab_remove
  by unfold_locales
    (auto simp: inj_def word_unat_eq_iff slab_view_insert slab_get_view slab_remove_result
      slab_view_remove)

section \<open>Mutable access\<close>

text \<open>
  \<open>get_mut\<close> finds exactly what \<open>get\<close> finds, and an assignment through the borrow changes the value
  of that key only.
\<close>

lemma slab_get_mut_spec:
  "case slab_get_mut k s of
     None \<Rightarrow> slab_get k s = None
   | Some (v, wr) \<Rightarrow> slab_get k s = Some v \<and> slab_view (wr v') = (slab_view s)(unat k \<mapsto> v')"
proof (cases "k < slab_offset s \<or> unat (k - slab_offset s) \<ge> length (slab_inner s)")
  case True
  then show ?thesis by (auto simp: slab_get_mut_def slab_get_def Let_def)
next
  case False
  then show ?thesis
    by (auto simp: slab_get_mut_def slab_get_def Let_def slab_view_update split: option.splits)
qed

section \<open>Properties\<close>

text \<open>
  The slab is a map: whatever the sequence of growth at the front and at the back, a lookup after
  an insertion finds the new value at the key and the old ones elsewhere, and a removal returns
  what the lookup finds and takes out exactly this key.
\<close>

theorem slab_store_laws:
  "slab_get j (slab_insert k v s) = (if j = k then Some v else slab_get j s) \<and>
   fst (slab_remove k s) = slab_get k s \<and>
   slab_get j (snd (slab_remove k s)) = (if j = k then None else slab_get j s)"
  by (simp add: slab.get_insert slab.get_remove slab.remove_result)

end
