(* ===== verification/Tid_Ledger.thy ===== *)
theory Tid_Ledger
  imports Prelude
begin

text \<open>
  \<^bold>\<open>TidLedger\<close>, the bit-packed set of the task ids the executor has accepted from the injection
  queue, one bit per id.  Model of \<^verbatim>\<open>lion-executor/src/collections/tid_ledger.rs\<close>.
\<close>

section \<open>Data and operations\<close>

record tid_ledger =
  words :: "u64 list"

definition ledger_new :: tid_ledger where
  "ledger_new = \<lparr>words = []\<rparr>"

definition ledger_contains :: "u64 \<Rightarrow> tid_ledger \<Rightarrow> bool" where
  "ledger_contains tid g =
     (let w64 = tid div 64
      in if unat w64 \<ge> length (words g) then False
         else let w = unat w64;
                  bit = drop_bit (unat (tid mod 64)) (words g ! w) AND 1
              in bit = 1)"

text \<open>The loop that pushes zero words until the index is in range.\<close>

function ledger_grow :: "nat \<Rightarrow> u64 list \<Rightarrow> u64 list" where
  "ledger_grow w64 ws = (if length ws \<le> w64 then ledger_grow w64 (ws @ [0]) else ws)"
  by pat_completeness auto
termination
  by (relation "measure (\<lambda>(w64, ws). w64 + 1 - length ws)") auto

declare ledger_grow.simps [simp del]

definition ledger_mark :: "u64 \<Rightarrow> tid_ledger \<Rightarrow> tid_ledger" where
  "ledger_mark tid g =
     (let w64 = tid div 64;
          b = tid mod 64;
          ws = ledger_grow (unat w64) (words g);
          w = unat w64;
          word = ws ! w;
          updated = word OR push_bit (unat b) 1
      in g\<lparr>words := ws[w := updated]\<rparr>)"

section \<open>The set a ledger stands for\<close>

definition ledger_has :: "tid_ledger \<Rightarrow> u64 \<Rightarrow> bool" where
  "ledger_has g tid \<longleftrightarrow>
     unat tid div 64 < length (words g) \<and>
     drop_bit (unat tid mod 64) (words g ! (unat tid div 64)) AND 1 = 1"

section \<open>Correctness\<close>

lemma unat_div_64 [u64_nat]: "unat ((t :: u64) div 64) = unat t div 64"
  and unat_mod_64 [u64_nat]: "unat ((t :: u64) mod 64) = unat t mod 64"
  by (simp_all add: unat_div unat_mod)

lemma test_bit_and_1: "drop_bit n (w :: u64) AND 1 = 1 \<longleftrightarrow> bit w n"
  by (simp add: and_one_eq bit_iff_odd_drop_bit odd_iff_mod_2_eq_one)

lemma ledger_has_bit:
  "ledger_has g tid \<longleftrightarrow>
     unat tid div 64 < length (words g) \<and> bit (words g ! (unat tid div 64)) (unat tid mod 64)"
  by (simp add: ledger_has_def test_bit_and_1)

lemma ledger_contains_has: "ledger_contains tid g \<longleftrightarrow> ledger_has g tid"
  by (simp add: ledger_contains_def ledger_has_def Let_def u64_nat not_le)

lemma ledger_has_new [simp]: "\<not> ledger_has ledger_new t"
  by (simp add: ledger_has_def ledger_new_def)

lemma ledger_grow_spec: "ledger_grow n ws = ws @ replicate (n + 1 - length ws) 0"
proof (induction n ws rule: ledger_grow.induct)
  case (1 n ws)
  show ?case
  proof (cases "length ws \<le> n")
    case True
    then have "ledger_grow n ws = ws @ [0] @ replicate (n - length ws) 0"
      using 1 by (subst ledger_grow.simps) simp
    moreover have "n + 1 - length ws = Suc (n - length ws)" using True by simp
    ultimately show ?thesis by simp
  qed (subst ledger_grow.simps, simp)
qed

lemma ledger_has_mark: "ledger_has (ledger_mark tid g) t \<longleftrightarrow> ledger_has g t \<or> t = tid"
proof -
  let ?ws = "ledger_grow (unat tid div 64) (words g)"
  have len: "length ?ws = max (length (words g)) (unat tid div 64 + 1)"
    by (simp add: ledger_grow_spec)
  have old: "k < length ?ws \<Longrightarrow> ?ws ! k = (if k < length (words g) then words g ! k else 0)" for k
    by (simp add: ledger_grow_spec nth_append)
  have words': "words (ledger_mark tid g) =
      ?ws[unat tid div 64 := ?ws ! (unat tid div 64) OR push_bit (unat tid mod 64) 1]"
    by (simp add: ledger_mark_def Let_def u64_nat)
  have same: "t = tid \<longleftrightarrow> unat t div 64 = unat tid div 64 \<and> unat t mod 64 = unat tid mod 64"
    by (metis div_mult_mod_eq word_unat_eq_iff)
  have one: "bit (push_bit (unat tid mod 64) (1 :: u64)) (unat t mod 64) \<longleftrightarrow> unat t mod 64 = unat tid mod 64"
    by (auto simp: bit_exp_iff possible_bit_word)
  show ?thesis
  proof (cases "unat t div 64 = unat tid div 64")
    case True
    then show ?thesis
      using same one by (auto simp: ledger_has_bit words' len old bit_or_iff split: if_splits)
  next
    case False
    then show ?thesis
      using same by (auto simp: ledger_has_bit words' len old split: if_splits)
  qed
qed

section \<open>The ledger as a set\<close>

text \<open>
  The ledger is a set of task ids: after \<open>mark\<close> exactly the marked id has been added, for every
  64-bit id, whichever word and bit it falls into and however far the vector has to grow.
\<close>

lemma ledger_mark_contains: "ledger_contains t (ledger_mark tid g) \<longleftrightarrow> t = tid \<or> ledger_contains t g"
  by (auto simp: ledger_contains_has ledger_has_mark)

end
