(* ===== verification/Exec_Log.thy ===== *)
theory Exec_Log
  imports Prelude
begin

text \<open>
  The event log of the executor and the invariants over it: model of \<^verbatim>\<open>lion-executor-spec\<close>
  (\<open>events.rs\<close>, \<open>log.rs\<close>, \<open>fifo_queue.rs\<close>, \<open>invariants/\<close>), of the two invariant templates of
  \<^verbatim>\<open>lion-framework-spec\<close> and of the grouping in \<^verbatim>\<open>lion-executor/src/proof/invariants.rs\<close>.
  A log is a list, oldest event first; positions, which are \<open>int\<close> in the source and guarded by
  \<open>0 <= i\<close>, are \<open>nat\<close>; a task id is the \<open>u64\<close> of \<open>TaskId\<close>.
\<close>

section \<open>Events\<close>

type_synonym tid = u64

datatype task_view = TaskView (tv_id: tid)

datatype 'a poll_result = Ready 'a | Pending | Invalid

datatype drain_source = ReactorWake | TaskWake | Deferred

datatype inbound_call = Tick "unit option"

datatype outbound_call =
    PollTask tid "task_view option" "unit poll_result"
  | Drain drain_source "tid list"
  | Park
  | PopInjection "task_view option"

datatype executor_event = Inbound inbound_call | Outbound outbound_call

type_synonym log = "executor_event list"

fun is_tick_begin :: "executor_event \<Rightarrow> bool" where
  "is_tick_begin (Inbound (Tick None)) = True"
| "is_tick_begin _ = False"

fun is_tick_end :: "executor_event \<Rightarrow> bool" where
  "is_tick_end (Inbound (Tick (Some _))) = True"
| "is_tick_end _ = False"

fun is_poll_task :: "executor_event \<Rightarrow> bool" where
  "is_poll_task (Outbound (PollTask _ _ _)) = True"
| "is_poll_task _ = False"

fun is_drain :: "executor_event \<Rightarrow> bool" where
  "is_drain (Outbound (Drain _ _)) = True"
| "is_drain _ = False"

fun is_park :: "executor_event \<Rightarrow> bool" where
  "is_park (Outbound Park) = True"
| "is_park _ = False"

fun is_pop_injection :: "executor_event \<Rightarrow> bool" where
  "is_pop_injection (Outbound (PopInjection _)) = True"
| "is_pop_injection _ = False"

text \<open>The accessors; the source leaves the other constructors unspecified, here they give a default.\<close>

fun get_poll_task_id :: "executor_event \<Rightarrow> tid" where
  "get_poll_task_id (Outbound (PollTask tid _ _)) = tid"
| "get_poll_task_id _ = 0"

fun get_poll_result :: "executor_event \<Rightarrow> unit poll_result" where
  "get_poll_result (Outbound (PollTask _ _ result)) = result"
| "get_poll_result _ = Invalid"

fun get_drain_source :: "executor_event \<Rightarrow> drain_source" where
  "get_drain_source (Outbound (Drain source _)) = source"
| "get_drain_source _ = Deferred"

fun get_drain_task_ids :: "executor_event \<Rightarrow> tid list" where
  "get_drain_task_ids (Outbound (Drain _ ids)) = ids"
| "get_drain_task_ids _ = []"

fun get_pop_injection_task :: "executor_event \<Rightarrow> task_view option" where
  "get_pop_injection_task (Outbound (PopInjection task)) = task"
| "get_pop_injection_task _ = None"

section \<open>Predicates on positions of a log\<close>

definition is_tick_begin_at :: "log \<Rightarrow> nat \<Rightarrow> bool" where
  "is_tick_begin_at l i \<longleftrightarrow> i < length l \<and> is_tick_begin (l ! i)"

definition is_tick_end_at :: "log \<Rightarrow> nat \<Rightarrow> bool" where
  "is_tick_end_at l i \<longleftrightarrow> i < length l \<and> is_tick_end (l ! i)"

definition is_poll_task_at :: "log \<Rightarrow> nat \<Rightarrow> bool" where
  "is_poll_task_at l i \<longleftrightarrow> i < length l \<and> is_poll_task (l ! i)"

definition is_drain_at :: "log \<Rightarrow> nat \<Rightarrow> bool" where
  "is_drain_at l i \<longleftrightarrow> i < length l \<and> is_drain (l ! i)"

definition is_park_at :: "log \<Rightarrow> nat \<Rightarrow> bool" where
  "is_park_at l i \<longleftrightarrow> i < length l \<and> is_park (l ! i)"

definition is_pop_injection_at :: "log \<Rightarrow> nat \<Rightarrow> bool" where
  "is_pop_injection_at l i \<longleftrightarrow> i < length l \<and> is_pop_injection (l ! i)"

definition is_drain_deferred_at :: "log \<Rightarrow> nat \<Rightarrow> bool" where
  "is_drain_deferred_at l i \<longleftrightarrow> is_drain_at l i \<and> get_drain_source (l ! i) = Deferred"

definition is_drain_reactor_wake_at :: "log \<Rightarrow> nat \<Rightarrow> bool" where
  "is_drain_reactor_wake_at l i \<longleftrightarrow> is_drain_at l i \<and> get_drain_source (l ! i) = ReactorWake"

definition is_drain_task_wake_at :: "log \<Rightarrow> nat \<Rightarrow> bool" where
  "is_drain_task_wake_at l i \<longleftrightarrow> is_drain_at l i \<and> get_drain_source (l ! i) = TaskWake"

definition no_tick_begin_between :: "log \<Rightarrow> nat \<Rightarrow> nat \<Rightarrow> bool" where
  "no_tick_begin_between l start stop \<longleftrightarrow> (\<forall>k. start < k \<and> k \<le> stop \<longrightarrow> \<not> is_tick_begin_at l k)"

definition no_tick_end_between :: "log \<Rightarrow> nat \<Rightarrow> nat \<Rightarrow> bool" where
  "no_tick_end_between l start stop \<longleftrightarrow> (\<forall>k. start < k \<and> k < stop \<longrightarrow> \<not> is_tick_end_at l k)"

section \<open>The FIFO queue a log describes\<close>

fun remove_first_occurrence :: "tid list \<Rightarrow> tid \<Rightarrow> tid list" where
  "remove_first_occurrence [] tid = []"
| "remove_first_occurrence (x # xs) tid = (if x = tid then xs else x # remove_first_occurrence xs tid)"

definition fifo_step :: "tid list \<Rightarrow> executor_event \<Rightarrow> tid list" where
  "fifo_step prev_queue e =
     (if is_pop_injection e \<and> get_pop_injection_task e \<noteq> None
      then prev_queue @ [tv_id (the (get_pop_injection_task e))]
      else if is_drain e then prev_queue @ get_drain_task_ids e
      else if is_poll_task e then remove_first_occurrence prev_queue (get_poll_task_id e)
      else prev_queue)"

fun fifo_queue_at :: "log \<Rightarrow> nat \<Rightarrow> tid list" where
  "fifo_queue_at l 0 = []"
| "fifo_queue_at l (Suc i) = fifo_step (fifo_queue_at l i) (l ! i)"

definition is_fifo_head_at :: "log \<Rightarrow> nat \<Rightarrow> tid \<Rightarrow> bool" where
  "is_fifo_head_at l i tid \<longleftrightarrow> (let queue = fifo_queue_at l i in length queue > 0 \<and> queue ! 0 = tid)"

definition fifo_queue_matches :: "log \<Rightarrow> tid list \<Rightarrow> bool" where
  "fifo_queue_matches l queue \<longleftrightarrow> fifo_queue_at l (length l) = queue"

section \<open>The invariant templates and their instances\<close>

record 'l action_safety =
  as_acceptance :: "'l \<Rightarrow> nat \<Rightarrow> bool"
  as_validity :: "'l \<Rightarrow> nat \<Rightarrow> bool"

definition action_safety_satisfied :: "'l action_safety \<Rightarrow> 'l \<Rightarrow> bool" where
  "action_safety_satisfied p l \<longleftrightarrow> (\<forall>i. as_acceptance p l i \<longrightarrow> as_validity p l i)"

record 'l local_liveness =
  ll_acceptance :: "'l \<Rightarrow> nat \<Rightarrow> bool"
  ll_fulfillment :: "'l \<Rightarrow> nat \<Rightarrow> nat \<Rightarrow> bool"
  ll_timely :: "'l \<Rightarrow> nat \<Rightarrow> nat \<Rightarrow> bool"

definition local_liveness_satisfied :: "'l local_liveness \<Rightarrow> 'l \<Rightarrow> bool" where
  "local_liveness_satisfied p l \<longleftrightarrow>
     (\<forall>i. ll_acceptance p l i \<longrightarrow> (\<exists>j > i. ll_fulfillment p l i j \<and> ll_timely p l i j))"

definition park_drain_reactor_wake :: "log local_liveness" where
  "park_drain_reactor_wake =
     \<lparr>ll_acceptance = (\<lambda>l i. is_park_at l i),
      ll_fulfillment = (\<lambda>l i j. is_drain_reactor_wake_at l j),
      ll_timely = (\<lambda>l i j. no_tick_end_between l i j)\<rparr>"

definition tick_polls_if_runnable :: "log local_liveness" where
  "tick_polls_if_runnable =
     \<lparr>ll_acceptance = (\<lambda>l i. is_tick_begin_at l i \<and> length (fifo_queue_at l i) > 0),
      ll_fulfillment = (\<lambda>l i j. is_poll_task_at l j),
      ll_timely = (\<lambda>l i j. \<forall>k. i < k \<and> k < j \<longrightarrow> \<not> is_tick_end_at l k)\<rparr>"

definition poll_within_tick :: "log action_safety" where
  "poll_within_tick =
     \<lparr>as_acceptance = (\<lambda>l i. is_poll_task_at l i),
      as_validity = (\<lambda>l i. \<exists>tb < i. is_tick_begin_at l tb \<and> no_tick_begin_between l tb i)\<rparr>"

definition tick_has_park :: "log action_safety" where
  "tick_has_park =
     \<lparr>as_acceptance = (\<lambda>l i. is_tick_end_at l i),
      as_validity = (\<lambda>l i. \<exists>p < i. is_park_at l p \<and> no_tick_begin_between l p i)\<rparr>"

definition tick_has_pop_injection :: "log action_safety" where
  "tick_has_pop_injection =
     \<lparr>as_acceptance = (\<lambda>l i. is_tick_end_at l i),
      as_validity = (\<lambda>l i. \<exists>p < i. is_pop_injection_at l p \<and> no_tick_begin_between l p i)\<rparr>"

definition tick_has_drain_deferred :: "log action_safety" where
  "tick_has_drain_deferred =
     \<lparr>as_acceptance = (\<lambda>l i. is_tick_end_at l i),
      as_validity = (\<lambda>l i. \<exists>d < i. is_drain_deferred_at l d \<and> no_tick_begin_between l d i)\<rparr>"

definition tick_has_drain_task_wake :: "log action_safety" where
  "tick_has_drain_task_wake =
     \<lparr>as_acceptance = (\<lambda>l i. is_tick_end_at l i),
      as_validity = (\<lambda>l i. \<exists>d < i. is_drain_task_wake_at l d \<and> no_tick_begin_between l d i)\<rparr>"

definition tid_was_injected_before :: "log \<Rightarrow> nat \<Rightarrow> tid \<Rightarrow> bool" where
  "tid_was_injected_before l i tid \<longleftrightarrow>
     (\<exists>j < i. is_pop_injection_at l j \<and> get_pop_injection_task (l ! j) \<noteq> None \<and>
        tv_id (the (get_pop_injection_task (l ! j))) = tid)"

definition tid_returned_ready_before :: "log \<Rightarrow> nat \<Rightarrow> tid \<Rightarrow> bool" where
  "tid_returned_ready_before l i tid \<longleftrightarrow>
     (\<exists>j < i. is_poll_task_at l j \<and> get_poll_task_id (l ! j) = tid \<and>
        get_poll_result (l ! j) = Ready ())"

definition tid_is_invalid :: "log \<Rightarrow> nat \<Rightarrow> tid \<Rightarrow> bool" where
  "tid_is_invalid l i tid \<longleftrightarrow> tid_returned_ready_before l i tid \<or> \<not> tid_was_injected_before l i tid"

definition valid_task_polling :: "log action_safety" where
  "valid_task_polling =
     \<lparr>as_acceptance = (\<lambda>l i. is_poll_task_at l i),
      as_validity = (\<lambda>l i.
        let tid = get_poll_task_id (l ! i); result = get_poll_result (l ! i)
        in tid_was_injected_before l i tid \<and> (result = Invalid \<longleftrightarrow> tid_is_invalid l i tid))\<rparr>"

definition fifo_task_selection :: "log action_safety" where
  "fifo_task_selection =
     \<lparr>as_acceptance = (\<lambda>l i. is_poll_task_at l i),
      as_validity = (\<lambda>l i. is_fifo_head_at l i (get_poll_task_id (l ! i)))\<rparr>"

definition structural_inv :: "log \<Rightarrow> bool" where
  "structural_inv l \<longleftrightarrow>
     local_liveness_satisfied park_drain_reactor_wake l \<and>
     action_safety_satisfied tick_has_park l \<and>
     action_safety_satisfied tick_has_pop_injection l \<and>
     action_safety_satisfied tick_has_drain_deferred l \<and>
     action_safety_satisfied tick_has_drain_task_wake l"

definition semantic_inv :: "log \<Rightarrow> bool" where
  "semantic_inv l \<longleftrightarrow>
     local_liveness_satisfied tick_polls_if_runnable l \<and>
     action_safety_satisfied poll_within_tick l \<and>
     action_safety_satisfied valid_task_polling l \<and>
     action_safety_satisfied fifo_task_selection l"

definition executor_inv :: "log \<Rightarrow> bool" where
  "executor_inv l \<longleftrightarrow> structural_inv l \<and> semantic_inv l"

definition all_queue_tids_injected :: "log \<Rightarrow> tid list \<Rightarrow> bool" where
  "all_queue_tids_injected l queue \<longleftrightarrow>
     (\<forall>k < length queue. tid_was_injected_before l (length l) (queue ! k))"

section \<open>Logs as histories\<close>

text \<open>What happened in a log, whatever the position.\<close>

definition injected :: "log \<Rightarrow> tid set" where
  "injected l = {tid. Outbound (PopInjection (Some (TaskView tid))) \<in> set l}"

definition completed :: "log \<Rightarrow> tid set" where
  "completed l = {tid. \<exists>t. Outbound (PollTask tid t (Ready ())) \<in> set l}"

definition fifo :: "log \<Rightarrow> tid list" where
  "fifo l = foldl fifo_step [] l"

lemma is_pop_injection_conv: "is_pop_injection e \<longleftrightarrow> (\<exists>t. e = Outbound (PopInjection t))"
  by (cases e rule: is_pop_injection.cases) auto

lemma is_poll_task_conv: "is_poll_task e \<longleftrightarrow> (\<exists>tid t r. e = Outbound (PollTask tid t r))"
  by (cases e rule: is_poll_task.cases) auto

lemma is_drain_conv: "is_drain e \<longleftrightarrow> (\<exists>src ids. e = Outbound (Drain src ids))"
  by (cases e rule: is_drain.cases) auto

lemma is_park_conv: "is_park e \<longleftrightarrow> e = Outbound Park"
  by (cases e rule: is_park.cases) auto

lemma set_take_conv: "x \<in> set (take i l) \<longleftrightarrow> (\<exists>j < i. j < length l \<and> l ! j = x)"
  by (auto simp: in_set_conv_nth)

lemma tid_was_injected_before_iff: "tid_was_injected_before l i tid \<longleftrightarrow> tid \<in> injected (take i l)"
proof -
  have "is_pop_injection e \<and> get_pop_injection_task e \<noteq> None \<and> tv_id (the (get_pop_injection_task e)) = tid
      \<longleftrightarrow> e = Outbound (PopInjection (Some (TaskView tid)))" for e
    by (auto simp: is_pop_injection_conv)
  then show ?thesis
    by (auto simp: tid_was_injected_before_def is_pop_injection_at_def injected_def set_take_conv)
qed

lemma tid_returned_ready_before_iff: "tid_returned_ready_before l i tid \<longleftrightarrow> tid \<in> completed (take i l)"
proof -
  have "is_poll_task e \<and> get_poll_task_id e = tid \<and> get_poll_result e = Ready ()
      \<longleftrightarrow> (\<exists>t. e = Outbound (PollTask tid t (Ready ())))" for e
    by (auto simp: is_poll_task_conv)
  then show ?thesis
    by (fastforce simp: tid_returned_ready_before_def is_poll_task_at_def completed_def set_take_conv)
qed

lemma injected_append [simp]: "injected (l @ m) = injected l \<union> injected m"
  and completed_append [simp]: "completed (l @ m) = completed l \<union> completed m"
  and injected_Nil [simp]: "injected [] = {}"
  and completed_Nil [simp]: "completed [] = {}"
  by (auto simp: injected_def completed_def)

lemma injected_single [simp]:
  "injected [e] = (case e of Outbound (PopInjection (Some t)) \<Rightarrow> {tv_id t} | _ \<Rightarrow> {})"
  by (auto simp: injected_def split: executor_event.splits outbound_call.splits option.splits)

lemma completed_single [simp]:
  "completed [e] = (case e of Outbound (PollTask tid t (Ready u)) \<Rightarrow> {tid} | _ \<Rightarrow> {})"
  by (auto simp: completed_def split: executor_event.splits outbound_call.splits poll_result.splits)

lemma fifo_queue_at_fifo: "i \<le> length l \<Longrightarrow> fifo_queue_at l i = fifo (take i l)"
  by (induction i) (auto simp: fifo_def take_Suc_conv_app_nth)

lemma fifo_snoc [simp]: "fifo (l @ [e]) = fifo_step (fifo l) e"
  and fifo_Nil [simp]: "fifo [] = []"
  by (simp_all add: fifo_def)

text \<open>
  The invariants that look back from an event speak of the history before it.  \<open>each_event acc good\<close>
  says that every event that \<open>acc\<close> accepts is \<open>good\<close> for its history; it grows with the log.
\<close>

definition each_event ::
  "('e \<Rightarrow> bool) \<Rightarrow> ('e list \<Rightarrow> 'e \<Rightarrow> bool) \<Rightarrow> 'e list \<Rightarrow> bool" where
  "each_event acc good l \<longleftrightarrow> (\<forall>i < length l. acc (l ! i) \<longrightarrow> good (take i l) (l ! i))"

lemma each_event_Nil [simp]: "each_event acc good []"
  by (simp add: each_event_def)

lemma each_event_snoc:
  "each_event acc good (l @ [e]) \<longleftrightarrow> each_event acc good l \<and> (acc e \<longrightarrow> good l e)"
  by (auto simp: each_event_def nth_append less_Suc_eq)

lemma each_event_append_none:
  assumes "each_event acc good l" "\<forall>e \<in> set m. \<not> acc e"
  shows "each_event acc good (l @ m)"
  using assms by (induction m rule: rev_induct) (auto simp: each_event_snoc simp flip: append_assoc)

lemma valid_task_polling_iff:
  "action_safety_satisfied valid_task_polling l \<longleftrightarrow>
     each_event is_poll_task (\<lambda>h e. get_poll_task_id e \<in> injected h \<and>
       (get_poll_result e = Invalid \<longleftrightarrow> get_poll_task_id e \<in> completed h)) l"
  unfolding action_safety_satisfied_def valid_task_polling_def each_event_def is_poll_task_at_def
    tid_is_invalid_def tid_was_injected_before_iff tid_returned_ready_before_iff
  by (simp add: Let_def) blast

lemma fifo_task_selection_iff:
  "action_safety_satisfied fifo_task_selection l \<longleftrightarrow>
     each_event is_poll_task (\<lambda>h e. \<exists>q. fifo h = get_poll_task_id e # q) l"
proof -
  have "length q > 0 \<and> q ! 0 = t \<longleftrightarrow> (\<exists>r. q = t # r)" for q :: "tid list" and t
    by (cases q) auto
  then show ?thesis
    by (auto simp: action_safety_satisfied_def fifo_task_selection_def each_event_def
        is_poll_task_at_def is_fifo_head_at_def Let_def fifo_queue_at_fifo)
qed

lemma fifo_queue_matches_iff: "fifo_queue_matches l q \<longleftrightarrow> fifo l = q"
  by (simp add: fifo_queue_matches_def fifo_queue_at_fifo)

lemma all_queue_tids_injected_iff: "all_queue_tids_injected l q \<longleftrightarrow> set q \<subseteq> injected l"
  by (auto simp: all_queue_tids_injected_def tid_was_injected_before_iff subset_iff in_set_conv_nth)

section \<open>A tick as a segment of the log\<close>

text \<open>
  A tick appends \<open>Begin # mid @ [End]\<close> where \<open>mid\<close> holds no tick boundary.  The invariants that
  speak of the enclosing tick hold of the longer log when the right events are in \<open>mid\<close>.
\<close>

definition tick_log :: "log \<Rightarrow> log \<Rightarrow> log" where
  "tick_log l mid = l @ Inbound (Tick None) # mid @ [Inbound (Tick (Some ()))]"

definition inner :: "log \<Rightarrow> bool" where
  "inner mid \<longleftrightarrow> (\<forall>e \<in> set mid. \<not> is_tick_begin e \<and> \<not> is_tick_end e)"

lemma inner_simps [simp]:
  "inner []" "inner (a @ b) \<longleftrightarrow> inner a \<and> inner b"
  "inner (e # b) \<longleftrightarrow> \<not> is_tick_begin e \<and> \<not> is_tick_end e \<and> inner b"
  by (auto simp: inner_def)

lemma length_tick_log [simp]: "length (tick_log l mid) = length l + length mid + 2"
  by (simp add: tick_log_def)

lemma nth_tick_log:
  "i < length l \<Longrightarrow> tick_log l mid ! i = l ! i"
  "tick_log l mid ! length l = Inbound (Tick None)"
  "i < length mid \<Longrightarrow> tick_log l mid ! Suc (length l + i) = mid ! i"
  "tick_log l mid ! Suc (length l + length mid) = Inbound (Tick (Some ()))"
  by (simp_all add: tick_log_def nth_append)

lemma tick_log_cases:
  assumes "i < length (tick_log l mid)"
  obtains "i < length l" | "i = length l" | j where "j < length mid" "i = Suc (length l + j)"
    | "i = Suc (length l + length mid)"
proof -
  consider "i < length l" | "i = length l" | "length l < i" "i < length l + 1 + length mid"
    | "i = Suc (length l + length mid)"
    using assms by fastforce
  then show thesis
  proof cases
    case 3
    then show thesis using that(3) [of "i - Suc (length l)"] by simp
  qed (use that in blast)+
qed

lemma is_tick_begin_atD: "is_tick_begin_at l i \<Longrightarrow> i < length l"
  and is_tick_end_atD: "is_tick_end_at l i \<Longrightarrow> i < length l"
  by (simp_all add: is_tick_begin_at_def is_tick_end_at_def)

lemma tick_begin_at_tick_log:
  assumes "inner mid"
  shows "is_tick_begin_at (tick_log l mid) i \<longleftrightarrow> is_tick_begin_at l i \<or> i = length l"
proof (cases "i < length (tick_log l mid)")
  case True
  then show ?thesis
    using assms by (cases rule: tick_log_cases)
      (auto simp: is_tick_begin_at_def nth_tick_log inner_def)
qed (auto simp: is_tick_begin_at_def)

lemma tick_end_at_tick_log:
  assumes "inner mid"
  shows "is_tick_end_at (tick_log l mid) i \<longleftrightarrow> is_tick_end_at l i \<or> i = Suc (length l + length mid)"
proof (cases "i < length (tick_log l mid)")
  case True
  then show ?thesis
    using assms by (cases rule: tick_log_cases)
      (auto simp: is_tick_end_at_def nth_tick_log inner_def)
qed (auto simp: is_tick_end_at_def)

text \<open>Looking back from the end of a tick for an event \<open>P\<close>.\<close>

definition tick_has :: "(executor_event \<Rightarrow> bool) \<Rightarrow> log \<Rightarrow> bool" where
  "tick_has P l \<longleftrightarrow> (\<forall>i. is_tick_end_at l i \<longrightarrow>
     (\<exists>p < i. (p < length l \<and> P (l ! p)) \<and> no_tick_begin_between l p i))"

lemma tick_has_tick_log:
  assumes "tick_has P l" "inner mid" "e \<in> set mid" "P e"
  shows "tick_has P (tick_log l mid)"
  unfolding tick_has_def
proof (intro allI impI)
  let ?l = "tick_log l mid"
  fix i assume "is_tick_end_at ?l i"
  then consider "is_tick_end_at l i" | "i = Suc (length l + length mid)"
    using tick_end_at_tick_log [OF assms(2)] by blast
  then show "\<exists>p < i. (p < length ?l \<and> P (?l ! p)) \<and> no_tick_begin_between ?l p i"
  proof cases
    case 1
    then obtain p where p: "p < i" "p < length l" "P (l ! p)" "no_tick_begin_between l p i"
      using assms(1) by (auto simp: tick_has_def)
    have "i < length l" using 1 by (simp add: is_tick_end_at_def)
    with p show ?thesis
      by (intro exI [of _ p])
        (auto simp: nth_tick_log no_tick_begin_between_def tick_begin_at_tick_log [OF assms(2)])
  next
    case 2
    obtain j where j: "j < length mid" "mid ! j = e"
      using assms(3) by (auto simp: in_set_conv_nth)
    have "no_tick_begin_between ?l (Suc (length l + j)) i"
      by (auto simp: no_tick_begin_between_def tick_begin_at_tick_log [OF assms(2)] dest: is_tick_begin_atD)
    then show ?thesis
      using 2 j assms(4) nth_tick_log(3) [OF j(1), of l]
      by (intro exI [of _ "Suc (length l + j)"]) auto
  qed
qed

lemma tick_has_iffs:
  "action_safety_satisfied tick_has_park l \<longleftrightarrow> tick_has is_park l"
  "action_safety_satisfied tick_has_pop_injection l \<longleftrightarrow> tick_has is_pop_injection l"
  "action_safety_satisfied tick_has_drain_deferred l \<longleftrightarrow>
     tick_has (\<lambda>e. is_drain e \<and> get_drain_source e = Deferred) l"
  "action_safety_satisfied tick_has_drain_task_wake l \<longleftrightarrow>
     tick_has (\<lambda>e. is_drain e \<and> get_drain_source e = TaskWake) l"
  by (simp_all add: action_safety_satisfied_def tick_has_def tick_has_park_def tick_has_pop_injection_def
      tick_has_drain_deferred_def tick_has_drain_task_wake_def is_park_at_def is_pop_injection_at_def
      is_drain_deferred_at_def is_drain_task_wake_at_def is_drain_at_def conj_ac)

lemma poll_within_tick_tick_log:
  assumes "action_safety_satisfied poll_within_tick l" "inner mid"
  shows "action_safety_satisfied poll_within_tick (tick_log l mid)"
  unfolding action_safety_satisfied_def
proof (intro allI impI)
  let ?l = "tick_log l mid"
  fix i assume "as_acceptance poll_within_tick ?l i"
  then have i: "i < length ?l" "is_poll_task (?l ! i)"
    by (simp_all add: poll_within_tick_def is_poll_task_at_def)
  show "as_validity poll_within_tick ?l i"
  proof (cases "i < length l")
    case True
    then have "is_poll_task_at l i" using i by (simp add: is_poll_task_at_def nth_tick_log)
    then obtain tb where "tb < i" "is_tick_begin_at l tb" "no_tick_begin_between l tb i"
      using assms(1) by (auto simp: action_safety_satisfied_def poll_within_tick_def)
    then show ?thesis
      using True by (auto simp: poll_within_tick_def no_tick_begin_between_def
          tick_begin_at_tick_log [OF assms(2)] intro!: exI [of _ tb])
  next
    case False
    then have "length l < i" using i(2) nth_tick_log(2) [of l mid] by (cases "i = length l") auto
    then show ?thesis
      by (auto simp: poll_within_tick_def no_tick_begin_between_def
          tick_begin_at_tick_log [OF assms(2)] dest: is_tick_begin_atD intro!: exI [of _ "length l"])
  qed
qed

text \<open>Looking forward: from a park to the reactor drain that follows it, from the begin to a poll.\<close>

definition park_followed :: "log \<Rightarrow> bool" where
  "park_followed mid \<longleftrightarrow> (\<forall>j < length mid. is_park (mid ! j) \<longrightarrow>
     Suc j < length mid \<and> is_drain (mid ! Suc j) \<and> get_drain_source (mid ! Suc j) = ReactorWake)"

lemma park_followed_append:
  assumes "park_followed a" "park_followed b"
  shows "park_followed (a @ b)"
  unfolding park_followed_def
proof (intro allI impI)
  fix j assume j: "j < length (a @ b)" "is_park ((a @ b) ! j)"
  show "Suc j < length (a @ b) \<and> is_drain ((a @ b) ! Suc j) \<and> get_drain_source ((a @ b) ! Suc j) = ReactorWake"
  proof (cases "j < length a")
    case True
    then show ?thesis using assms(1) j by (auto simp: park_followed_def nth_append)
  next
    case False
    then have "Suc (j - length a) = Suc j - length a" "\<not> Suc j < length a" by auto
    then show ?thesis
      using False assms(2) j by (auto simp: park_followed_def nth_append dest!: spec [of _ "j - length a"])
  qed
qed

lemma park_followed_none: "\<forall>e \<in> set mid. \<not> is_park e \<Longrightarrow> park_followed mid"
  by (auto simp: park_followed_def)

lemma park_drain_tick_log:
  assumes "local_liveness_satisfied park_drain_reactor_wake l" "inner mid" "park_followed mid"
  shows "local_liveness_satisfied park_drain_reactor_wake (tick_log l mid)"
  unfolding local_liveness_satisfied_def
proof (intro allI impI)
  let ?l = "tick_log l mid"
  let ?p = park_drain_reactor_wake
  fix i assume "ll_acceptance ?p ?l i"
  then have i: "i < length ?l" "is_park (?l ! i)"
    by (simp_all add: park_drain_reactor_wake_def is_park_at_def)
  from i(1) show "\<exists>j > i. ll_fulfillment ?p ?l i j \<and> ll_timely ?p ?l i j"
  proof (cases rule: tick_log_cases)
    case 1
    then have "is_park_at l i" using i by (simp add: is_park_at_def nth_tick_log)
    then obtain j where "i < j" "is_drain_reactor_wake_at l j" "no_tick_end_between l i j"
      using assms(1) by (auto simp: local_liveness_satisfied_def park_drain_reactor_wake_def)
    then show ?thesis
      by (auto simp: park_drain_reactor_wake_def is_drain_reactor_wake_at_def is_drain_at_def
          nth_tick_log no_tick_end_between_def tick_end_at_tick_log [OF assms(2)] intro!: exI [of _ j])
  next
    case (3 j)
    then have "is_park (mid ! j)" using i(2) nth_tick_log(3) by simp
    then have "Suc j < length mid" "is_drain (mid ! Suc j)" "get_drain_source (mid ! Suc j) = ReactorWake"
      using assms(3) 3(1) by (auto simp: park_followed_def)
    then show ?thesis
      using 3 nth_tick_log(3) [of "Suc j" mid l]
      by (auto simp: park_drain_reactor_wake_def is_drain_reactor_wake_at_def is_drain_at_def
          no_tick_end_between_def intro!: exI [of _ "Suc i"])
  qed (use i(2) in \<open>simp_all add: nth_tick_log\<close>)
qed

lemma tick_polls_tick_log:
  assumes "local_liveness_satisfied tick_polls_if_runnable l" "inner mid"
    and poll: "fifo l \<noteq> [] \<Longrightarrow> \<exists>e \<in> set mid. is_poll_task e"
  shows "local_liveness_satisfied tick_polls_if_runnable (tick_log l mid)"
  unfolding local_liveness_satisfied_def
proof (intro allI impI)
  let ?l = "tick_log l mid"
  let ?p = tick_polls_if_runnable
  fix i assume "ll_acceptance ?p ?l i"
  then have i: "is_tick_begin_at ?l i" "fifo_queue_at ?l i \<noteq> []"
    by (simp_all add: tick_polls_if_runnable_def)
  have same: "fifo_queue_at ?l k = fifo_queue_at l k" if "k \<le> length l" for k
    using that by (simp add: fifo_queue_at_fifo) (simp add: tick_log_def)
  from i(1) consider "is_tick_begin_at l i" | "i = length l"
    using tick_begin_at_tick_log [OF assms(2)] by blast
  then show "\<exists>j > i. ll_fulfillment ?p ?l i j \<and> ll_timely ?p ?l i j"
  proof cases
    case 1
    then have il: "i < length l" by (simp add: is_tick_begin_at_def)
    then obtain j where j: "i < j" "is_poll_task_at l j" "\<forall>k. i < k \<and> k < j \<longrightarrow> \<not> is_tick_end_at l k"
      using assms(1) 1 i(2) same [of i]
      by (auto simp: local_liveness_satisfied_def tick_polls_if_runnable_def)
    then show ?thesis
      by (auto simp: tick_polls_if_runnable_def is_poll_task_at_def nth_tick_log
          tick_end_at_tick_log [OF assms(2)] intro!: exI [of _ j])
  next
    case 2
    then have "fifo l \<noteq> []" using i(2) same [of i] by (simp add: fifo_queue_at_fifo)
    then obtain j where j: "j < length mid" "is_poll_task (mid ! j)"
      using poll by (auto simp: in_set_conv_nth)
    then show ?thesis
      using 2 nth_tick_log(3) [OF j(1), of l]
      by (auto simp: tick_polls_if_runnable_def is_poll_task_at_def tick_end_at_tick_log [OF assms(2)]
          dest: is_tick_end_atD intro!: exI [of _ "Suc (length l + j)"])
  qed
qed

text \<open>All nine invariants across a tick.\<close>

lemma executor_inv_tick_log:
  assumes inv: "executor_inv l" and mid: "inner mid" "park_followed mid"
    and polls: "action_safety_satisfied valid_task_polling (tick_log l mid)"
      "action_safety_satisfied fifo_task_selection (tick_log l mid)"
    and runs: "fifo l \<noteq> [] \<Longrightarrow> \<exists>e \<in> set mid. is_poll_task e"
    and has: "\<exists>e \<in> set mid. is_park e" "\<exists>e \<in> set mid. is_pop_injection e"
      "\<exists>e \<in> set mid. is_drain e \<and> get_drain_source e = Deferred"
      "\<exists>e \<in> set mid. is_drain e \<and> get_drain_source e = TaskWake"
  shows "executor_inv (tick_log l mid)"
  using inv mid polls runs has
  unfolding executor_inv_def structural_inv_def semantic_inv_def tick_has_iffs
  by (auto intro: tick_has_tick_log park_drain_tick_log tick_polls_tick_log poll_within_tick_tick_log)

end
