(* ===== verification/Tls.thy ===== *)
theory Tls
  imports Exec_Log
begin

text \<open>
  The thread-local side of the executor: the ready queues the wakers push to, the \<open>notified\<close>
  flags that keep a task from being queued twice, the cross-thread queue with the interrupt handle
  that wakes a parked reactor, and the wakers themselves.  Model of
  \<^verbatim>\<open>lion-executor/src/tls.rs\<close>, \<^verbatim>\<open>lion-executor/src/types/waker.rs\<close> and
  \<^verbatim>\<open>lion-reactor/src/types/interrupt_handle.rs\<close>.  A \<open>thread_local!\<close> cell is a field of a record that
  the functions take and return; a panic is \<open>None\<close>; thread ids are numbers.
\<close>

section \<open>The interrupt handle\<close>

text \<open>\<open>os_wakes\<close> counts the calls of \<open>mio::Waker::wake\<close> that no \<open>poll\<close> has consumed.\<close>

record interrupt_handle =
  ih_notified :: bool
  os_wakes :: nat

definition interrupt_new :: interrupt_handle where
  "interrupt_new = \<lparr>ih_notified = False, os_wakes = 0\<rparr>"

definition interrupt_wake :: "interrupt_handle \<Rightarrow> interrupt_handle" where
  "interrupt_wake h =
     (if \<not> ih_notified h then h\<lparr>ih_notified := True, os_wakes := os_wakes h + 1\<rparr> else h)"

definition interrupt_reset :: "interrupt_handle \<Rightarrow> interrupt_handle" where
  "interrupt_reset h = h\<lparr>ih_notified := False\<rparr>"

section \<open>The thread-local cells\<close>

record tls =
  reactor_ready_queue :: "tid list"
  task_ready_queue :: "tid list"
  defer_queue :: "tid list"
  current_task :: "tid option"
  task_notified :: "bool list"
  block_on_yielded :: bool
  cross_thread_ctx :: "nat option"
  cross_thread_queue :: "tid list"
  interrupt :: interrupt_handle

definition tls_new :: "nat option \<Rightarrow> tls" where
  "tls_new ctx =
     \<lparr>reactor_ready_queue = [], task_ready_queue = [], defer_queue = [], current_task = None, task_notified = [],
      block_on_yielded = False, cross_thread_ctx = ctx, cross_thread_queue = [], interrupt = interrupt_new\<rparr>"

definition set_block_on_yielded :: "bool \<Rightarrow> tls \<Rightarrow> tls" where
  "set_block_on_yielded v s = s\<lparr>block_on_yielded := v\<rparr>"

definition take_block_on_yielded :: "tls \<Rightarrow> bool \<times> tls" where
  "take_block_on_yielded s = (block_on_yielded s, s\<lparr>block_on_yielded := False\<rparr>)"

definition set_notified :: "tid \<Rightarrow> tls \<Rightarrow> bool \<times> tls" where
  "set_notified task_id s =
     (if task_id = u64_max then (True, s)
      else let idx = unat task_id;
               v = (if idx \<ge> length (task_notified s) then vec_resize (idx + 1) False (task_notified s)
                    else task_notified s)
           in if v ! idx then (False, s\<lparr>task_notified := v\<rparr>)
              else (True, s\<lparr>task_notified := v[idx := True]\<rparr>))"

definition clear_notified :: "tid \<Rightarrow> tls \<Rightarrow> tls" where
  "clear_notified task_id s =
     (let idx = unat task_id
      in if idx < length (task_notified s)
         then s\<lparr>task_notified := (task_notified s)[idx := False]\<rparr> else s)"

definition push_reactor_ready :: "tid \<Rightarrow> tls \<Rightarrow> tls" where
  "push_reactor_ready task_id s =
     (case set_notified task_id s of
        (True, s1) \<Rightarrow> s1\<lparr>reactor_ready_queue := reactor_ready_queue s1 @ [task_id]\<rparr>
      | (False, s1) \<Rightarrow> s1)"

definition push_task_ready :: "tid \<Rightarrow> tls \<Rightarrow> tls" where
  "push_task_ready task_id s =
     (case set_notified task_id s of
        (True, s1) \<Rightarrow> s1\<lparr>task_ready_queue := task_ready_queue s1 @ [task_id]\<rparr>
      | (False, s1) \<Rightarrow> s1)"

definition push_deferred :: "tid \<Rightarrow> tls \<Rightarrow> tls" where
  "push_deferred task_id s = s\<lparr>defer_queue := defer_queue s @ [task_id]\<rparr>"

definition take_reactor_ready :: "tls \<Rightarrow> tid list \<times> tls" where
  "take_reactor_ready s = (reactor_ready_queue s, s\<lparr>reactor_ready_queue := []\<rparr>)"

definition take_task_ready :: "tls \<Rightarrow> tid list \<times> tls" where
  "take_task_ready s = (task_ready_queue s, s\<lparr>task_ready_queue := []\<rparr>)"

definition take_deferred :: "tls \<Rightarrow> tid list \<times> tls" where
  "take_deferred s = (defer_queue s, s\<lparr>defer_queue := []\<rparr>)"

definition set_current_task :: "tid \<Rightarrow> tls \<Rightarrow> tls" where
  "set_current_task task_id s = s\<lparr>current_task := Some task_id\<rparr>"

definition clear_current_task :: "tls \<Rightarrow> tls" where
  "clear_current_task s = s\<lparr>current_task := None\<rparr>"

definition defer_current :: "tls \<Rightarrow> tls option" where
  "defer_current s =
     (case current_task s of
        Some task_id \<Rightarrow>
          (let s1 = (if task_id = u64_max then set_block_on_yielded True s else s)
           in Some (push_deferred task_id s1))
      | None \<Rightarrow> None)"

definition has_deferred :: "tls \<Rightarrow> bool" where
  "has_deferred s = (defer_queue s \<noteq> [])"

definition has_reactor_ready :: "tls \<Rightarrow> bool" where
  "has_reactor_ready s = (reactor_ready_queue s \<noteq> [])"

definition has_task_ready :: "tls \<Rightarrow> bool" where
  "has_task_ready s = (task_ready_queue s \<noteq> [])"

text \<open>The loop that moves one queue behind another (\<open>drain_task_ready_into\<close> and its siblings).\<close>

fun move_all :: "tid list \<Rightarrow> tid list \<Rightarrow> tid list" where
  "move_all [] target = target"
| "move_all (task_id # source) target = move_all source (target @ [task_id])"

definition drain_task_ready_into :: "tid list \<Rightarrow> tls \<Rightarrow> tid list \<times> tls" where
  "drain_task_ready_into target s = (move_all (task_ready_queue s) target, s\<lparr>task_ready_queue := []\<rparr>)"

definition drain_reactor_ready_into :: "tid list \<Rightarrow> tls \<Rightarrow> tid list \<times> tls" where
  "drain_reactor_ready_into target s =
     (move_all (reactor_ready_queue s) target, s\<lparr>reactor_ready_queue := []\<rparr>)"

definition drain_deferred_into :: "tid list \<Rightarrow> tls \<Rightarrow> tid list \<times> tls" where
  "drain_deferred_into target s = (move_all (defer_queue s) target, s\<lparr>defer_queue := []\<rparr>)"

text \<open>The cross-thread context: \<open>Some\<close> of the executor's thread id while a runtime is set up.\<close>

definition set_cross_thread_ctx :: "nat \<Rightarrow> tls \<Rightarrow> tls" where
  "set_cross_thread_ctx thread_id s = s\<lparr>cross_thread_ctx := Some thread_id\<rparr>"

definition clear_cross_thread_ctx :: "tls \<Rightarrow> tls" where
  "clear_cross_thread_ctx s = s\<lparr>cross_thread_ctx := None\<rparr>"

fun recv_all :: "tid list \<Rightarrow> tls \<Rightarrow> tls" where
  "recv_all [] s = s"
| "recv_all (tid # rest) s = recv_all rest (push_task_ready tid s)"

definition drain_cross_thread :: "tls \<Rightarrow> tls" where
  "drain_cross_thread s =
     (case cross_thread_ctx s of
        Some _ \<Rightarrow> recv_all (cross_thread_queue s) (s\<lparr>cross_thread_queue := []\<rparr>)
      | None \<Rightarrow> s)"

definition reset_interrupt :: "tls \<Rightarrow> tls" where
  "reset_interrupt s =
     (case cross_thread_ctx s of
        Some _ \<Rightarrow> s\<lparr>interrupt := interrupt_reset (interrupt s)\<rparr>
      | None \<Rightarrow> s)"

section \<open>Wakers\<close>

datatype wake_source = WReactor | WTask

record executor_waker =
  ew_task_id :: tid
  ew_source :: wake_source
  ew_defer :: bool
  ew_thread :: nat

definition create_waker :: "tid \<Rightarrow> wake_source \<Rightarrow> bool \<Rightarrow> tls \<Rightarrow> executor_waker option" where
  "create_waker task_id source defer s =
     (case cross_thread_ctx s of
        Some thread_id \<Rightarrow>
          Some \<lparr>ew_task_id = task_id, ew_source = source, ew_defer = defer, ew_thread = thread_id\<rparr>
      | None \<Rightarrow> None)"

text \<open>\<open>push_remote\<close>: what a waker does on a thread that is not the executor's.\<close>

definition push_remote :: "tid \<Rightarrow> tls \<Rightarrow> tls" where
  "push_remote task_id s =
     (let s1 = s\<lparr>cross_thread_queue := cross_thread_queue s @ [task_id]\<rparr>
      in s1\<lparr>interrupt := interrupt_wake (interrupt s1)\<rparr>)"

definition wake_impl :: "nat \<Rightarrow> executor_waker \<Rightarrow> tls \<Rightarrow> tls" where
  "wake_impl thread w s =
     (if thread = ew_thread w then
        (if ew_defer w then push_deferred (ew_task_id w) s
         else (case ew_source w of
                 WReactor \<Rightarrow> push_reactor_ready (ew_task_id w) s
               | WTask \<Rightarrow> push_task_ready (ew_task_id w) s))
      else push_remote (ew_task_id w) s)"

text \<open>The raw wakers; \<open>global_ctx\<close> is the executor's thread id once \<open>GLOBAL_CTX\<close> is set.\<close>

definition task_raw_wake_impl :: "nat option \<Rightarrow> nat \<Rightarrow> tid \<Rightarrow> tls \<Rightarrow> tls" where
  "task_raw_wake_impl global_ctx thread task_id s =
     (case global_ctx of
        Some executor_tid \<Rightarrow>
          if thread = executor_tid then push_task_ready task_id s else push_remote task_id s
      | None \<Rightarrow> s)"

definition reactor_raw_wake_impl :: "tid \<Rightarrow> tls \<Rightarrow> tls" where
  "reactor_raw_wake_impl task_id s = push_reactor_ready task_id s"

definition create_reactor_waker_for_current :: "tls \<Rightarrow> tid option" where
  "create_reactor_waker_for_current s = current_task s"

section \<open>The notified flags\<close>

definition is_notified :: "tls \<Rightarrow> tid \<Rightarrow> bool" where
  "is_notified s t \<longleftrightarrow> unat t < length (task_notified s) \<and> task_notified s ! unat t"

definition ready_ids :: "tls \<Rightarrow> tid set" where
  "ready_ids s = set (reactor_ready_queue s) \<union> set (task_ready_queue s)"

lemma set_notified_spec:
  assumes "set_notified t s = (fresh, s')"
  shows "fresh \<longleftrightarrow> t = u64_max \<or> \<not> is_notified s t"
    and "is_notified s' x \<longleftrightarrow> is_notified s x \<or> (x = t \<and> t \<noteq> u64_max)"
    and "s' = s\<lparr>task_notified := task_notified s'\<rparr>"
  using assms
  by (auto simp: set_notified_def is_notified_def Let_def nth_vec_resize nth_list_update word_unat_eq_iff
      split: if_splits)

lemma is_notified_clear: "is_notified (clear_notified t s) x \<longleftrightarrow> is_notified s x \<and> x \<noteq> t"
  by (auto simp: clear_notified_def is_notified_def Let_def nth_list_update word_unat_eq_iff)

lemma move_all_append: "move_all xs ys = ys @ xs"
  by (induction xs arbitrary: ys) auto

lemma push_task_ready_frame [simp]:
  "reactor_ready_queue (push_task_ready t s) = reactor_ready_queue s"
  "defer_queue (push_task_ready t s) = defer_queue s"
  "current_task (push_task_ready t s) = current_task s"
  "block_on_yielded (push_task_ready t s) = block_on_yielded s"
  "cross_thread_ctx (push_task_ready t s) = cross_thread_ctx s"
  "cross_thread_queue (push_task_ready t s) = cross_thread_queue s"
  "interrupt (push_task_ready t s) = interrupt s"
  by (auto simp: push_task_ready_def set_notified_def Let_def)

lemma push_reactor_ready_frame [simp]:
  "task_ready_queue (push_reactor_ready t s) = task_ready_queue s"
  "defer_queue (push_reactor_ready t s) = defer_queue s"
  "current_task (push_reactor_ready t s) = current_task s"
  "block_on_yielded (push_reactor_ready t s) = block_on_yielded s"
  "cross_thread_ctx (push_reactor_ready t s) = cross_thread_ctx s"
  "cross_thread_queue (push_reactor_ready t s) = cross_thread_queue s"
  "interrupt (push_reactor_ready t s) = interrupt s"
  by (auto simp: push_reactor_ready_def set_notified_def Let_def)

lemma push_ready_spec:
  shows "ready_ids (push_task_ready t s) =
      (if t = u64_max \<or> \<not> is_notified s t then insert t (ready_ids s) else ready_ids s)"
    and "ready_ids (push_reactor_ready t s) =
      (if t = u64_max \<or> \<not> is_notified s t then insert t (ready_ids s) else ready_ids s)"
    and "is_notified (push_task_ready t s) x \<longleftrightarrow> is_notified s x \<or> (x = t \<and> t \<noteq> u64_max)"
    and "is_notified (push_reactor_ready t s) x \<longleftrightarrow> is_notified s x \<or> (x = t \<and> t \<noteq> u64_max)"
proof -
  obtain fresh s' where sn: "set_notified t s = (fresh, s')" by fastforce
  note spec = set_notified_spec [OF sn]
  have upd: "is_notified (s'\<lparr>reactor_ready_queue := a\<rparr>) x = is_notified s' x"
    "is_notified (s'\<lparr>task_ready_queue := a\<rparr>) x = is_notified s' x" for a x
    by (simp_all add: is_notified_def)
  have same: "reactor_ready_queue s' = reactor_ready_queue s" "task_ready_queue s' = task_ready_queue s"
    by (subst spec(3), simp)+
  show "ready_ids (push_task_ready t s) =
      (if t = u64_max \<or> \<not> is_notified s t then insert t (ready_ids s) else ready_ids s)"
    "ready_ids (push_reactor_ready t s) =
      (if t = u64_max \<or> \<not> is_notified s t then insert t (ready_ids s) else ready_ids s)"
    using spec(1) by (auto simp: push_task_ready_def push_reactor_ready_def sn ready_ids_def same split: bool.splits)
  show "is_notified (push_task_ready t s) x \<longleftrightarrow> is_notified s x \<or> (x = t \<and> t \<noteq> u64_max)"
    "is_notified (push_reactor_ready t s) x \<longleftrightarrow> is_notified s x \<or> (x = t \<and> t \<noteq> u64_max)"
    using spec(2) by (auto simp: push_task_ready_def push_reactor_ready_def sn upd split: bool.splits)
qed

text \<open>
  No wake is lost: a task whose flag is set waits in a ready queue or, once drained, in the queue
  \<open>q\<close> of the executor.
\<close>

definition wakes_kept :: "tid set \<Rightarrow> tls \<Rightarrow> bool" where
  "wakes_kept q s \<longleftrightarrow> (\<forall>t. is_notified s t \<longrightarrow> t \<in> ready_ids s \<union> q)"

lemma wakes_kept_push:
  assumes "wakes_kept q s"
  shows "wakes_kept q (push_task_ready t s)" "wakes_kept q (push_reactor_ready t s)"
    and "t \<in> ready_ids (push_task_ready t s) \<union> q" "t \<in> ready_ids (push_reactor_ready t s) \<union> q"
  using assms by (auto simp: wakes_kept_def push_ready_spec)

lemma recv_all_frame [simp]:
  "reactor_ready_queue (recv_all ts s) = reactor_ready_queue s"
  "defer_queue (recv_all ts s) = defer_queue s"
  "current_task (recv_all ts s) = current_task s"
  "block_on_yielded (recv_all ts s) = block_on_yielded s"
  "cross_thread_ctx (recv_all ts s) = cross_thread_ctx s"
  "cross_thread_queue (recv_all ts s) = cross_thread_queue s"
  "interrupt (recv_all ts s) = interrupt s"
  by (induction ts arbitrary: s) simp_all

lemma recv_all_spec:
  assumes "wakes_kept q s"
  shows "wakes_kept q (recv_all ts s)" "set ts \<subseteq> ready_ids (recv_all ts s) \<union> q"
    "ready_ids s \<subseteq> ready_ids (recv_all ts s)" "ready_ids (recv_all ts s) \<subseteq> ready_ids s \<union> set ts"
  using assms
proof (induction ts arbitrary: s)
  case (Cons t ts)
  {
    case 1
    then show ?case using Cons wakes_kept_push(1) by simp
  next
    case 2
    then show ?case
      using Cons.IH(2,3) [OF wakes_kept_push(1) [OF 2, of t]] wakes_kept_push(3) [OF 2, of t] by auto
  next
    case 3
    then show ?case using Cons.IH(3) [OF wakes_kept_push(1) [OF 3, of t]] by (auto simp: push_ready_spec split: if_splits)
  next
    case 4
    then show ?case using Cons.IH(4) [OF wakes_kept_push(1) [OF 4, of t]] by (auto simp: push_ready_spec split: if_splits)
  }
qed simp_all

section \<open>Properties\<close>

text \<open>
  C11: A wake is delivered: on the executor's own thread the task is afterwards in the deferred
  queue or, for the other wakers, in a ready queue or still in the executor's queue \<open>q\<close>; on any
  other thread its id is in the cross-thread queue and the reactor's interrupt is raised.
\<close>

theorem wake_impl_delivers:
  assumes "wakes_kept q s"
  shows "if thread \<noteq> ew_thread wk
    then ew_task_id wk \<in> set (cross_thread_queue (wake_impl thread wk s)) \<and>
      ih_notified (interrupt (wake_impl thread wk s))
    else if ew_defer wk then ew_task_id wk \<in> set (defer_queue (wake_impl thread wk s))
    else ew_task_id wk \<in> ready_ids (wake_impl thread wk s) \<union> q \<and> wakes_kept q (wake_impl thread wk s)"
  using wakes_kept_push [OF assms, of "ew_task_id wk"]
  by (auto simp: wake_impl_def push_deferred_def push_remote_def interrupt_wake_def Let_def split: wake_source.splits)

theorem wake_impl_delivers_witness:
  "7 \<in> ready_ids (wake_impl 1 \<lparr>ew_task_id = 7, ew_source = WTask, ew_defer = False, ew_thread = 1\<rparr> (tls_new (Some 1)))"
proof -
  have "wakes_kept {} (tls_new (Some 1))" by (simp add: wakes_kept_def is_notified_def tls_new_def)
  from wake_impl_delivers [OF this, of 1 "\<lparr>ew_task_id = 7, ew_source = WTask, ew_defer = False, ew_thread = 1\<rparr>"]
  show ?thesis by simp
qed

end
