(* ===== verification/Executor.thy ===== *)
theory Executor
  imports Slab Tid_Ledger Tls "HOL-Library.Monad_Syntax"
begin

text \<open>
  The executor: model of \<^verbatim>\<open>lion-executor/src/executor/\<close> (\<open>mod.rs\<close>, \<open>new.rs\<close>, \<open>ext.rs\<close>,
  \<open>next_task.rs\<close>, \<open>poll_task.rs\<close>, \<open>park.rs\<close>, \<open>wake_deferred.rs\<close>, \<open>tick.rs\<close>) and of the task
  injection in \<^verbatim>\<open>lion-executor/src/handle.rs\<close>.  The state is the record of the \<open>Executor\<close> struct
  extended with the thread-local cells and the shared counter of task ids.  What the executor
  does not control is a parameter, the record \<open>env\<close>: the user's futures, the reactor, and what
  other threads send.  A panic of the executor's own code, and a loop that does not end, is
  \<open>None\<close>.  The poll of a future returns: a panic of a user's future, which would unwind through
  \<open>poll_task\<close> and the tick, is outside of the model.
\<close>

section \<open>State\<close>

record 'f task =
  task_id :: tid
  future :: 'f

record ('f, 'r) executor =
  task_slab :: "'f task slab"
  local_queue :: "tid list"
  injection_queue :: "'f task list"
  reactor :: 'r
  event_interval :: nat
  elog :: log
  ledger :: tid_ledger

record ('f, 'r) world = "('f, 'r) executor" +
  cells :: tls
  task_id_counter :: u64

definition executor_new :: "'r \<Rightarrow> 'f task list \<Rightarrow> nat \<Rightarrow> tls \<Rightarrow> u64 \<Rightarrow> ('f, 'r) world" where
  "executor_new r injection interval s counter =
     \<lparr>task_slab = slab_new, local_queue = [], injection_queue = injection, reactor = r,
      event_interval = interval, elog = [], ledger = ledger_new, cells = s, task_id_counter = counter\<rparr>"

section \<open>The environment\<close>

text \<open>
  \<open>Wake\<close> and \<open>WakeReactor\<close> are calls of an \<open>ExecutorWaker\<close> and of a raw reactor waker on the
  executor's thread; a poll may also yield (\<open>defer_current\<close>) and spawn.
\<close>

datatype wake_action = Wake executor_waker | WakeReactor tid

datatype 'f poll_action = PWake wake_action | Defer | Spawn 'f

text \<open>
  \<open>future_poll\<close> runs a future: whether it is ready, the future afterwards, the reactor it may have
  registered with, and the actions it performed.  \<open>reactor_park\<close> is \<open>flush_pending_deregister\<close>
  followed by \<open>park\<close> with a timeout in milliseconds, with the wakers it called.
  \<open>remote_spawns\<close> and \<open>remote_wakes\<close> are the tasks and wakes that other threads have sent since
  the executor last looked.  All of them may depend on everything that happened, the log.
\<close>

record ('f, 'r) env =
  future_poll :: "'f \<Rightarrow> 'r \<Rightarrow> log \<Rightarrow> bool \<times> 'f \<times> 'r \<times> 'f poll_action list"
  reactor_park :: "'r \<Rightarrow> u64 \<Rightarrow> log \<Rightarrow> 'r \<times> wake_action list"
  remote_spawns :: "log \<Rightarrow> 'f list"
  remote_wakes :: "log \<Rightarrow> tid list"

text \<open>\<open>InnerHandle::spawn\<close>.\<close>

definition spawn :: "'f \<Rightarrow> ('f, 'r) world \<Rightarrow> ('f, 'r) world" where
  "spawn fut w =
     (let tid = task_id_counter w;
          w1 = w\<lparr>task_id_counter := task_id_counter w + 1\<rparr>;
          w2 = w1\<lparr>injection_queue := injection_queue w1 @ [\<lparr>task_id = tid, future = fut\<rparr>]\<rparr>
      in w2\<lparr>cells := (cells w2)\<lparr>interrupt := interrupt_wake (interrupt (cells w2))\<rparr>\<rparr>)"

definition perform_wake :: "wake_action \<Rightarrow> tls \<Rightarrow> tls" where
  "perform_wake a s =
     (case a of
        Wake wk \<Rightarrow> wake_impl (case cross_thread_ctx s of Some t \<Rightarrow> t | None \<Rightarrow> ew_thread wk) wk s
      | WakeReactor tid \<Rightarrow> reactor_raw_wake_impl tid s)"

fun perform_wakes :: "wake_action list \<Rightarrow> tls \<Rightarrow> tls" where
  "perform_wakes [] s = s"
| "perform_wakes (a # as) s = perform_wakes as (perform_wake a s)"

definition perform_poll_action :: "'f poll_action \<Rightarrow> ('f, 'r) world \<Rightarrow> ('f, 'r) world option" where
  "perform_poll_action a w =
     (case a of
        PWake b \<Rightarrow> Some (w\<lparr>cells := perform_wake b (cells w)\<rparr>)
      | Defer \<Rightarrow> (case defer_current (cells w) of Some s \<Rightarrow> Some (w\<lparr>cells := s\<rparr>) | None \<Rightarrow> None)
      | Spawn fut \<Rightarrow> Some (spawn fut w))"

fun perform_poll_actions :: "'f poll_action list \<Rightarrow> ('f, 'r) world \<Rightarrow> ('f, 'r) world option" where
  "perform_poll_actions [] w = Some w"
| "perform_poll_actions (a # as) w = do {
     w1 \<leftarrow> perform_poll_action a w;
     perform_poll_actions as w1
   }"

fun spawn_all :: "'f list \<Rightarrow> ('f, 'r) world \<Rightarrow> ('f, 'r) world" where
  "spawn_all [] w = w"
| "spawn_all (f # fs) w = spawn_all fs (spawn f w)"

fun push_remotes :: "tid list \<Rightarrow> tls \<Rightarrow> tls" where
  "push_remotes [] s = s"
| "push_remotes (t # ts) s = push_remotes ts (push_remote t s)"

text \<open>The other threads catch up.\<close>

definition let_spawn :: "('f, 'r) env \<Rightarrow> ('f, 'r) world \<Rightarrow> ('f, 'r) world" where
  "let_spawn E w = spawn_all (remote_spawns E (elog w)) w"

definition let_wake :: "('f, 'r) env \<Rightarrow> ('f, 'r) world \<Rightarrow> ('f, 'r) world" where
  "let_wake E w = w\<lparr>cells := push_remotes (remote_wakes E (elog w)) (cells w)\<rparr>"

section \<open>Actions (ext.rs)\<close>

definition log_event :: "executor_event \<Rightarrow> ('f, 'r) world \<Rightarrow> ('f, 'r) world" where
  "log_event e w = w\<lparr>elog := elog w @ [e]\<rparr>"

definition task_view_of :: "'f task \<Rightarrow> task_view" where
  "task_view_of t = TaskView (task_id t)"

definition poll_future_raw ::
  "('f, 'r) env \<Rightarrow> tid \<Rightarrow> 'f task option \<Rightarrow> ('f, 'r) world \<Rightarrow>
     ((unit poll_result \<times> 'f task option) \<times> ('f, 'r) world) option" where
  "poll_future_raw E tid task w =
     (case task of
        Some t \<Rightarrow> do {
          let w1 = w\<lparr>cells := set_current_task tid (cells w)\<rparr>;
          waker \<leftarrow> create_waker tid WTask False (cells w1);
          let (ready, fut, r, acts) = future_poll E (future t) (reactor w1) (elog w1);
          w2 \<leftarrow> perform_poll_actions acts (w1\<lparr>reactor := r\<rparr>);
          let w3 = w2\<lparr>cells := clear_current_task (cells w2)\<rparr>;
          Some ((if ready then Ready () else Pending, Some (t\<lparr>future := fut\<rparr>)), w3)
        }
      | None \<Rightarrow> Some ((Pending, None), w))"

definition poll_task_action ::
  "('f, 'r) env \<Rightarrow> tid \<Rightarrow> 'f task option \<Rightarrow> ('f, 'r) world \<Rightarrow>
     ((unit poll_result \<times> 'f task option) \<times> ('f, 'r) world) option" where
  "poll_task_action E tid task w = do {
     ((result, task_back), w1) \<leftarrow> poll_future_raw E tid task w;
     let w2 = log_event (Outbound (PollTask tid (map_option task_view_of task_back) result)) w1;
     Some ((result, task_back), w2)
   }"

definition poll_task_invalid_action :: "tid \<Rightarrow> ('f, 'r) world \<Rightarrow> ('f, 'r) world" where
  "poll_task_invalid_action tid w = log_event (Outbound (PollTask tid None Invalid)) w"

definition try_recv_raw :: "('f, 'r) env \<Rightarrow> ('f, 'r) world \<Rightarrow> 'f task option \<times> ('f, 'r) world" where
  "try_recv_raw E w =
     (let w1 = let_spawn E w
      in case injection_queue w1 of
           [] \<Rightarrow> (None, w1)
         | t # rest \<Rightarrow> (Some t, w1\<lparr>injection_queue := rest\<rparr>))"

definition pop_injection_action :: "('f, 'r) env \<Rightarrow> ('f, 'r) world \<Rightarrow> 'f task option \<times> ('f, 'r) world" where
  "pop_injection_action E w =
     (case try_recv_raw E w of
        (None, w1) \<Rightarrow> (None, log_event (Outbound (PopInjection None)) w1)
      | (Some task, w1) \<Rightarrow>
          if ledger_contains (task_id task) (ledger w1)
          then (None, log_event (Outbound (PopInjection None)) w1)
          else (let w2 = w1\<lparr>ledger := ledger_mark (task_id task) (ledger w1)\<rparr>
                in (Some task, log_event (Outbound (PopInjection (Some (task_view_of task)))) w2)))"

definition park_action :: "('f, 'r) env \<Rightarrow> bool \<Rightarrow> ('f, 'r) world \<Rightarrow> ('f, 'r) world" where
  "park_action E require_timeout w =
     (let timeout = (if require_timeout then 100 else 0);
          (r, wakes) = reactor_park E (reactor w) timeout (elog w);
          w1 = w\<lparr>reactor := r, cells := perform_wakes wakes (cells w)\<rparr>
      in log_event (Outbound Park) w1)"

definition reset_and_drain_cross_thread_action ::
  "('f, 'r) env \<Rightarrow> ('f, 'r) world \<Rightarrow> ('f, 'r) world" where
  "reset_and_drain_cross_thread_action E w =
     (let w1 = w\<lparr>cells := reset_interrupt (cells w)\<rparr>;
          w2 = let_wake E w1
      in w2\<lparr>cells := drain_cross_thread (cells w2)\<rparr>)"

definition take_task_ready_from_tls :: "('f, 'r) env \<Rightarrow> ('f, 'r) world \<Rightarrow> tid list \<times> ('f, 'r) world" where
  "take_task_ready_from_tls E w =
     (let w1 = let_wake E w;
          (ids, s) = take_task_ready (drain_cross_thread (cells w1))
      in (ids, w1\<lparr>cells := s\<rparr>))"

definition take_reactor_ready_from_tls :: "('f, 'r) world \<Rightarrow> tid list \<times> ('f, 'r) world" where
  "take_reactor_ready_from_tls w =
     (let (ids, s) = take_reactor_ready (cells w) in (ids, w\<lparr>cells := s\<rparr>))"

definition take_deferred_from_tls :: "('f, 'r) world \<Rightarrow> tid list \<times> ('f, 'r) world" where
  "take_deferred_from_tls w =
     (let (ids, s) = take_deferred (cells w) in (ids, w\<lparr>cells := s\<rparr>))"

fun filter_and_enqueue :: "tid list \<Rightarrow> tid list \<Rightarrow> ('f, 'r) world \<Rightarrow> tid list \<times> ('f, 'r) world" where
  "filter_and_enqueue [] kept w = (kept, w)"
| "filter_and_enqueue (t # ids) kept w =
     (if ledger_contains t (ledger w)
      then filter_and_enqueue ids (kept @ [t]) (w\<lparr>local_queue := local_queue w @ [t]\<rparr>)
      else filter_and_enqueue ids kept w)"

definition drain_task_ready_into_local :: "('f, 'r) env \<Rightarrow> ('f, 'r) world \<Rightarrow> ('f, 'r) world" where
  "drain_task_ready_into_local E w =
     (let (ids, w1) = take_task_ready_from_tls E w;
          (kept, w2) = filter_and_enqueue ids [] w1
      in log_event (Outbound (Drain TaskWake kept)) w2)"

definition drain_reactor_ready_into_local :: "('f, 'r) world \<Rightarrow> ('f, 'r) world" where
  "drain_reactor_ready_into_local w =
     (let (ids, w1) = take_reactor_ready_from_tls w;
          (kept, w2) = filter_and_enqueue ids [] w1
      in log_event (Outbound (Drain ReactorWake kept)) w2)"

definition drain_deferred_into_local :: "('f, 'r) world \<Rightarrow> ('f, 'r) world" where
  "drain_deferred_into_local w =
     (let (ids, w1) = take_deferred_from_tls w;
          (kept, w2) = filter_and_enqueue ids [] w1
      in log_event (Outbound (Drain Deferred kept)) w2)"

section \<open>Selecting and polling a task\<close>

definition accept_task :: "'f task \<Rightarrow> ('f, 'r) world \<Rightarrow> ('f, 'r) world" where
  "accept_task task w =
     w\<lparr>task_slab := slab_insert (task_id task) task (task_slab w),
       local_queue := local_queue w @ [task_id task]\<rparr>"

definition pop_front :: "('f, 'r) world \<Rightarrow> tid option \<times> ('f, 'r) world" where
  "pop_front w =
     (case local_queue w of [] \<Rightarrow> (None, w) | t # rest \<Rightarrow> (Some t, w\<lparr>local_queue := rest\<rparr>))"

definition next_task :: "('f, 'r) env \<Rightarrow> ('f, 'r) world \<Rightarrow> tid option \<times> ('f, 'r) world" where
  "next_task E w =
     (case pop_front w of
        (Some t, w1) \<Rightarrow> (Some t, w1)
      | (None, w1) \<Rightarrow>
          (let w2 = drain_reactor_ready_into_local w1;
               w3 = drain_task_ready_into_local E w2
           in case pop_front w3 of
                (Some t, w4) \<Rightarrow> (Some t, w4)
              | (None, w4) \<Rightarrow>
                  (case pop_injection_action E w4 of
                     (Some task, w5) \<Rightarrow> pop_front (accept_task task w5)
                   | (None, w5) \<Rightarrow> (None, w5))))"

definition poll_task :: "('f, 'r) env \<Rightarrow> tid \<Rightarrow> ('f, 'r) world \<Rightarrow> ('f, 'r) world option" where
  "poll_task E tid w =
     (let w0 = w\<lparr>cells := clear_notified tid (cells w)\<rparr>
      in case slab_remove tid (task_slab w0) of
           (Some task, sl) \<Rightarrow> do {
             ((result, task_back), w2) \<leftarrow> poll_task_action E tid (Some task) (w0\<lparr>task_slab := sl\<rparr>);
             (case result of
                Ready _ \<Rightarrow> Some w2
              | _ \<Rightarrow> do {
                  t \<leftarrow> task_back;
                  Some (w2\<lparr>task_slab := slab_insert tid t (task_slab w2)\<rparr>)
                })
           }
         | (None, sl) \<Rightarrow> Some (poll_task_invalid_action tid (w0\<lparr>task_slab := sl\<rparr>)))"

section \<open>The tick\<close>

definition wake_deferred :: "('f, 'r) world \<Rightarrow> ('f, 'r) world" where
  "wake_deferred w = drain_deferred_into_local w"

partial_function (option) pop_injection_loop ::
  "('f, 'r) env \<Rightarrow> ('f, 'r) world \<Rightarrow> ('f, 'r) world option" where
  "pop_injection_loop E w =
     (case pop_injection_action E w of
        (Some task, w1) \<Rightarrow> pop_injection_loop E (accept_task task w1)
      | (None, w1) \<Rightarrow> Some w1)"

declare pop_injection_loop.simps [code]

definition pop_injection :: "('f, 'r) env \<Rightarrow> ('f, 'r) world \<Rightarrow> ('f, 'r) world option" where
  "pop_injection E w =
     (case pop_injection_action E w of
        (Some task, w1) \<Rightarrow> pop_injection_loop E (accept_task task w1)
      | (None, w1) \<Rightarrow> Some w1)"

function poll_while :: "('f, 'r) env \<Rightarrow> nat \<Rightarrow> nat \<Rightarrow> ('f, 'r) world \<Rightarrow> (nat \<times> ('f, 'r) world) option" where
  "poll_while E interval count w =
     (if count < interval then
        (case next_task E w of
           (Some t, w1) \<Rightarrow>
             (case poll_task E t w1 of
                Some w2 \<Rightarrow> poll_while E interval (count + 1) w2
              | None \<Rightarrow> None)
         | (None, w1) \<Rightarrow> Some (count, w1))
      else Some (count, w))"
  by pat_completeness auto
termination
  by (relation "measure (\<lambda>(E, interval, count, w). interval - count)") auto

declare poll_while.simps [simp del]

definition poll_loop :: "('f, 'r) env \<Rightarrow> nat \<Rightarrow> nat \<Rightarrow> ('f, 'r) world \<Rightarrow> (nat \<times> ('f, 'r) world) option" where
  "poll_loop E interval count w =
     (if count \<ge> interval then Some (count, w)
      else (case next_task E w of
              (Some t, w1) \<Rightarrow> do {
                w2 \<leftarrow> poll_task E t w1;
                poll_while E interval (count + 1) w2
              }
            | (None, w1) \<Rightarrow> Some (count, w1)))"

definition park :: "('f, 'r) env \<Rightarrow> ('f, 'r) world \<Rightarrow> ('f, 'r) world" where
  "park E w =
     (let deferred = has_deferred (cells w);
          reactor_ready = has_reactor_ready (cells w);
          w1 = reset_and_drain_cross_thread_action E w;
          task_ready = has_task_ready (cells w1);
          local_tasks = length (local_queue w1) > 0;
          (yielded, s) = take_block_on_yielded (cells w1);
          w2 = w1\<lparr>cells := s\<rparr>;
          require_timeout = (\<not> yielded \<and> \<not> deferred \<and> \<not> reactor_ready \<and> \<not> task_ready \<and> \<not> local_tasks);
          w3 = park_action E require_timeout w2;
          w4 = drain_reactor_ready_into_local w3
      in drain_task_ready_into_local E w4)"

definition tick :: "('f, 'r) env \<Rightarrow> ('f, 'r) world \<Rightarrow> ('f, 'r) world option" where
  "tick E w = do {
     let interval = event_interval w;
     let w1 = log_event (Inbound (Tick None)) w;
     let w2 = wake_deferred w1;
     w3 \<leftarrow> pop_injection E w2;
     (count, w4) \<leftarrow> poll_loop E interval 0 w3;
     let w5 = park E w4;
     (count, w6) \<leftarrow> poll_loop E interval count w5;
     Some (log_event (Inbound (Tick (Some ()))) w6)
   }"

end
