(* ===== verification/Executor_Inv.thy ===== *)
theory Executor_Inv
  imports Executor
begin

text \<open>
  The executor keeps the invariants of its log: every step extends the log so that the FIFO queue
  the log describes is the local queue, the slab holds exactly the tasks injected and not yet
  finished, the ledger holds exactly the injected ids, every poll takes the head of the queue and
  reports \<open>Invalid\<close> exactly for finished tasks; and a whole tick keeps \<open>executor_inv\<close>.
  The results hold for every environment.
\<close>

section \<open>The data invariants of the source\<close>

definition slab_matches_log :: "'f task slab \<Rightarrow> log \<Rightarrow> bool" where
  "slab_matches_log sl l \<longleftrightarrow>
     (\<forall>tid. slab_get tid sl \<noteq> None \<longleftrightarrow>
        tid_was_injected_before l (length l) tid \<and> \<not> tid_returned_ready_before l (length l) tid)"

definition ledger_matches_log :: "tid_ledger \<Rightarrow> log \<Rightarrow> bool" where
  "ledger_matches_log g l \<longleftrightarrow> (\<forall>t. ledger_has g t \<longleftrightarrow> tid_was_injected_before l (length l) t)"

definition tick_pre :: "('f, 'r) world \<Rightarrow> bool" where
  "tick_pre w \<longleftrightarrow>
     executor_inv (elog w) \<and> all_queue_tids_injected (elog w) (local_queue w) \<and>
     fifo_queue_matches (elog w) (local_queue w) \<and> slab_matches_log (task_slab w) (elog w) \<and>
     slab_wf (task_slab w) \<and> ledger_matches_log (ledger w) (elog w)"

section \<open>The same over histories\<close>

definition polls_ok :: "log \<Rightarrow> bool" where
  "polls_ok l \<longleftrightarrow>
     each_event is_poll_task (\<lambda>h e. get_poll_task_id e \<in> injected h \<and>
       (get_poll_result e = Invalid \<longleftrightarrow> get_poll_task_id e \<in> completed h)) l \<and>
     each_event is_poll_task (\<lambda>h e. \<exists>q. fifo h = get_poll_task_id e # q) l"

lemma polls_ok_iff:
  "polls_ok l \<longleftrightarrow> action_safety_satisfied valid_task_polling l \<and> action_safety_satisfied fifo_task_selection l"
  by (simp add: polls_ok_def valid_task_polling_iff fifo_task_selection_iff)

lemma polls_ok_other: "\<not> is_poll_task e \<Longrightarrow> polls_ok (l @ [e]) \<longleftrightarrow> polls_ok l"
  by (simp add: polls_ok_def each_event_snoc)

definition core :: "('f, 'r) world \<Rightarrow> bool" where
  "core w \<longleftrightarrow>
     (\<forall>t. slab_get t (task_slab w) \<noteq> None \<longleftrightarrow> t \<in> injected (elog w) \<and> t \<notin> completed (elog w)) \<and>
     (\<forall>t. ledger_has (ledger w) t \<longleftrightarrow> t \<in> injected (elog w)) \<and>
     set (fifo (elog w)) \<subseteq> injected (elog w) \<and> completed (elog w) \<subseteq> injected (elog w) \<and>
     polls_ok (elog w)"

definition ok :: "('f, 'r) world \<Rightarrow> bool" where
  "ok w \<longleftrightarrow> core w \<and> fifo (elog w) = local_queue w"

lemma completed_injected:
  assumes "polls_ok l"
  shows "completed l \<subseteq> injected l"
proof
  fix t assume "t \<in> completed l"
  then obtain i v where i: "i < length l" "l ! i = Outbound (PollTask t v (Ready ()))"
    by (auto simp: completed_def in_set_conv_nth)
  then have "t \<in> injected (take i l)"
    using assms by (fastforce simp: polls_ok_def each_event_def)
  moreover have "injected l = injected (take i l) \<union> injected (drop i l)"
    using injected_append [of "take i l" "drop i l"] by simp
  ultimately show "t \<in> injected l" by blast
qed

lemma tick_pre_ok: "tick_pre w \<longleftrightarrow> executor_inv (elog w) \<and> ok w"
  using completed_injected [of "elog w"]
  by (auto simp: tick_pre_def ok_def core_def executor_inv_def semantic_inv_def polls_ok_iff
      slab_matches_log_def ledger_matches_log_def tid_was_injected_before_iff tid_returned_ready_before_iff
      all_queue_tids_injected_iff fifo_queue_matches_iff)

section \<open>What leaves the invariant alone\<close>

definition same :: "('f, 'r) world \<Rightarrow> ('f, 'r) world \<Rightarrow> bool" where
  "same w w' \<longleftrightarrow>
     task_slab w' = task_slab w \<and> local_queue w' = local_queue w \<and> elog w' = elog w \<and>
     ledger w' = ledger w \<and> event_interval w' = event_interval w"

lemma same_refl [simp]: "same w w"
  and same_trans [trans]: "same w w1 \<Longrightarrow> same w1 w2 \<Longrightarrow> same w w2"
  by (auto simp: same_def)

lemma same_core: "same w w' \<Longrightarrow> core w' = core w"
  and same_ok: "same w w' \<Longrightarrow> ok w' = ok w"
  by (simp_all add: same_def core_def ok_def)

lemma same_cells [simp]: "same w (w\<lparr>cells := s\<rparr>)" "same w (w\<lparr>reactor := r\<rparr>)" "same w (w\<lparr>injection_queue := q\<rparr>)"
  by (simp_all add: same_def)

lemma same_spawn [simp]: "same w (spawn f w)"
  by (simp add: same_def spawn_def Let_def)

lemma same_spawn_all [simp]: "same w (spawn_all fs w)"
  by (induction fs arbitrary: w) (auto intro: same_trans [OF same_spawn])

lemma same_let [simp]: "same w (let_spawn E w)" "same w (let_wake E w)"
  by (simp_all add: let_spawn_def let_wake_def)

lemma same_perform: "perform_poll_actions as w = Some w' \<Longrightarrow> same w w'"
proof (induction as arbitrary: w)
  case (Cons a as)
  then obtain w1 where w1: "perform_poll_action a w = Some w1" "perform_poll_actions as w1 = Some w'"
    by (auto simp: bind_eq_Some_conv)
  have "same w w1"
    using w1(1) by (auto simp: perform_poll_action_def split: poll_action.splits option.splits)
  with Cons.IH [OF w1(2)] show ?case by (rule same_trans [rotated])
qed simp

section \<open>Draining\<close>

lemma filter_and_enqueue_spec:
  "filter_and_enqueue ids kept w =
     (kept @ filter (\<lambda>t. ledger_has (ledger w) t) ids,
      w\<lparr>local_queue := local_queue w @ filter (\<lambda>t. ledger_has (ledger w) t) ids\<rparr>)"
  by (induction ids arbitrary: kept w) (simp_all add: ledger_contains_has)

text \<open>One step of the executor: what it appends to the log.\<close>

definition extends :: "('f, 'r) world \<Rightarrow> log \<Rightarrow> ('f, 'r) world \<Rightarrow> bool" where
  "extends w es w' \<longleftrightarrow> elog w' = elog w @ es \<and> event_interval w' = event_interval w"

lemma extends_refl [simp]: "extends w [] w"
  by (simp add: extends_def)

lemma extends_trans: "extends w es w1 \<Longrightarrow> extends w1 fs w2 \<Longrightarrow> extends w (es @ fs) w2"
  by (simp add: extends_def)

lemma drain_ok:
  assumes I: "ok w" and w1: "same w w1"
    and w': "w' = log_event (Outbound (Drain src kept)) w2" "filter_and_enqueue ids [] w1 = (kept, w2)"
  shows "ok w'" "extends w [Outbound (Drain src kept)] w'" "length (local_queue w) \<le> length (local_queue w')"
    "local_queue w' = local_queue w @ kept" "set kept = {t \<in> set ids. ledger_has (ledger w) t}"
proof -
  have f: "kept = filter (\<lambda>t. ledger_has (ledger w) t) ids"
    "w2 = w1\<lparr>local_queue := local_queue w1 @ filter (\<lambda>t. ledger_has (ledger w) t) ids\<rparr>"
    using w'(2) w1 by (auto simp: filter_and_enqueue_spec same_def)
  have "is_pop_injection (Outbound (Drain src kept)) = False" by simp
  then show "ok w'"
    using I w1 by (auto simp: ok_def core_def w'(1) f log_event_def same_def fifo_step_def polls_ok_other)
  show "extends w [Outbound (Drain src kept)] w'" "length (local_queue w) \<le> length (local_queue w')"
    "local_queue w' = local_queue w @ kept" "set kept = {t \<in> set ids. ledger_has (ledger w) t}"
    using w1 by (auto simp: extends_def w'(1) f log_event_def same_def)
qed

lemma drain_reactor_ok:
  assumes "ok w"
  shows "\<exists>kept. ok (drain_reactor_ready_into_local w) \<and>
    extends w [Outbound (Drain ReactorWake kept)] (drain_reactor_ready_into_local w) \<and>
    local_queue (drain_reactor_ready_into_local w) = local_queue w @ kept"
proof -
  let ?w1 = "w\<lparr>cells := snd (take_reactor_ready (cells w))\<rparr>"
  obtain kept w2 where f: "filter_and_enqueue (fst (take_reactor_ready (cells w))) [] ?w1 = (kept, w2)"
    by fastforce
  then have "drain_reactor_ready_into_local w = log_event (Outbound (Drain ReactorWake kept)) w2"
    by (simp add: drain_reactor_ready_into_local_def take_reactor_ready_from_tls_def Let_def case_prod_beta)
  from drain_ok [OF assms same_cells(1) this f] show ?thesis by blast
qed

lemma drain_task_ok:
  assumes "ok w"
  shows "\<exists>kept. ok (drain_task_ready_into_local E w) \<and>
    extends w [Outbound (Drain TaskWake kept)] (drain_task_ready_into_local E w) \<and>
    local_queue (drain_task_ready_into_local E w) = local_queue w @ kept"
proof -
  let ?s = "take_task_ready (drain_cross_thread (cells (let_wake E w)))"
  let ?w1 = "(let_wake E w)\<lparr>cells := snd ?s\<rparr>"
  obtain kept w2 where f: "filter_and_enqueue (fst ?s) [] ?w1 = (kept, w2)"
    by fastforce
  then have d: "drain_task_ready_into_local E w = log_event (Outbound (Drain TaskWake kept)) w2"
    by (simp add: drain_task_ready_into_local_def take_task_ready_from_tls_def Let_def case_prod_beta)
  have "same w ?w1" by (rule same_trans [OF same_let(2) same_cells(1)])
  from drain_ok [OF assms this d f] show ?thesis by blast
qed

lemma drain_deferred_ok:
  assumes "ok w"
  shows "\<exists>kept. ok (wake_deferred w) \<and> extends w [Outbound (Drain Deferred kept)] (wake_deferred w) \<and>
    local_queue (wake_deferred w) = local_queue w @ kept"
proof -
  let ?w1 = "w\<lparr>cells := snd (take_deferred (cells w))\<rparr>"
  obtain kept w2 where f: "filter_and_enqueue (fst (take_deferred (cells w))) [] ?w1 = (kept, w2)"
    by fastforce
  then have "wake_deferred w = log_event (Outbound (Drain Deferred kept)) w2"
    by (simp add: wake_deferred_def drain_deferred_into_local_def take_deferred_from_tls_def Let_def
        case_prod_beta)
  from drain_ok [OF assms same_cells(1) this f] show ?thesis by blast
qed

section \<open>Injection\<close>

lemma same_try_recv: "try_recv_raw E w = (res, w') \<Longrightarrow> same w w'"
  by (auto simp: try_recv_raw_def Let_def split: list.splits
      intro: same_trans [OF same_let(1) same_cells(3)])

lemma pop_injection_action_none:
  assumes "ok w" "pop_injection_action E w = (None, w')"
  shows "ok w'" "extends w [Outbound (PopInjection None)] w'" "local_queue w' = local_queue w"
proof -
  obtain res w1 where r: "try_recv_raw E w = (res, w1)" by fastforce
  then have "w' = log_event (Outbound (PopInjection None)) w1"
    using assms(2) by (cases res) (auto simp: pop_injection_action_def Let_def split: if_splits)
  with same_try_recv [OF r] show "ok w'" "extends w [Outbound (PopInjection None)] w'" "local_queue w' = local_queue w"
    using assms(1) by (auto simp: ok_def core_def same_def extends_def log_event_def fifo_step_def polls_ok_other)
qed

lemma pop_injection_action_some:
  assumes I: "ok w" and p: "pop_injection_action E w = (Some task, w')"
  shows "task_id task \<notin> injected (elog w)"
    and "ok (accept_task task w')"
    and "extends w [Outbound (PopInjection (Some (TaskView (task_id task))))] (accept_task task w')"
    and "local_queue (accept_task task w') = local_queue w @ [task_id task]"
proof -
  let ?t = "task_id task"
  obtain res w1 where r: "try_recv_raw E w = (res, w1)" by fastforce
  then have w1: "same w w1" "\<not> ledger_has (ledger w1) ?t"
    "w' = log_event (Outbound (PopInjection (Some (TaskView ?t)))) (w1\<lparr>ledger := ledger_mark ?t (ledger w1)\<rparr>)"
    using p same_try_recv [OF r]
    by (cases res; auto simp: pop_injection_action_def Let_def ledger_contains_has task_view_of_def
        split: if_splits)+
  show fresh: "?t \<notin> injected (elog w)"
    using I w1(1,2) by (simp add: ok_def core_def same_def)
  then have "?t \<notin> completed (elog w)" using I by (auto simp: ok_def core_def)
  with I w1 fresh show "ok (accept_task task w')"
    by (auto simp: ok_def core_def same_def accept_task_def log_event_def fifo_step_def polls_ok_other
        ledger_has_mark slab.get_insert)
  show "extends w [Outbound (PopInjection (Some (TaskView ?t)))] (accept_task task w')"
    "local_queue (accept_task task w') = local_queue w @ [?t]"
    using w1 by (simp_all add: extends_def same_def accept_task_def log_event_def)
qed

section \<open>Selecting a task\<close>

definition quiet :: "log \<Rightarrow> bool" where
  "quiet es \<longleftrightarrow> (\<forall>e \<in> set es. is_drain e \<or> is_pop_injection e)"

definition work :: "log \<Rightarrow> bool" where
  "work es \<longleftrightarrow> (\<forall>e \<in> set es. is_drain e \<or> is_pop_injection e \<or> is_poll_task e)"

lemma quiet_simps [simp]: "quiet []" "quiet (a @ b) \<longleftrightarrow> quiet a \<and> quiet b"
  "quiet (e # b) \<longleftrightarrow> (is_drain e \<or> is_pop_injection e) \<and> quiet b"
  and work_simps [simp]: "work []" "work (a @ b) \<longleftrightarrow> work a \<and> work b"
  "work (e # b) \<longleftrightarrow> (is_drain e \<or> is_pop_injection e \<or> is_poll_task e) \<and> work b"
  by (auto simp: quiet_def work_def)

lemma quiet_work: "quiet es \<Longrightarrow> work es"
  by (auto simp: quiet_def work_def)

lemma work_inner:
  assumes "work es"
  shows "inner es" "\<forall>e \<in> set es. \<not> is_park e"
proof -
  have "\<not> is_tick_begin e \<and> \<not> is_tick_end e \<and> \<not> is_park e"
    if "is_drain e \<or> is_pop_injection e \<or> is_poll_task e" for e
    using that by (auto simp: is_drain_conv is_pop_injection_conv is_poll_task_conv)
  with assms show "inner es" "\<forall>e \<in> set es. \<not> is_park e"
    by (auto simp: work_def inner_def)
qed

text \<open>A task has been taken off the queue and is about to be polled.\<close>

definition selected :: "tid \<Rightarrow> ('f, 'r) world \<Rightarrow> bool" where
  "selected t w \<longleftrightarrow> core w \<and> fifo (elog w) = t # local_queue w"

lemma pop_front_ok:
  assumes "ok w" "pop_front w = (res, w')"
  shows "res = None \<Longrightarrow> w' = w \<and> local_queue w = []"
    and "res = Some t \<Longrightarrow> selected t w' \<and> extends w [] w'"
    and "local_queue w \<noteq> [] \<Longrightarrow> res \<noteq> None"
  using assms by (auto simp: pop_front_def ok_def selected_def core_def extends_def split: list.splits)

lemma next_task_ok:
  assumes I: "ok w" and n: "next_task E w = (res, w')"
  shows "\<exists>es. extends w es w' \<and> quiet es \<and>
    (case res of Some t \<Rightarrow> selected t w' | None \<Rightarrow> ok w' \<and> local_queue w' = [] \<and> local_queue w = [])"
proof -
  obtain r1 w1 where p1: "pop_front w = (r1, w1)" by fastforce
  show ?thesis
  proof (cases r1)
    case (Some t)
    then have "res = Some t" "w' = w1" using n p1 by (simp_all add: next_task_def)
    then show ?thesis using pop_front_ok(2) [OF I p1 Some] by (intro exI [of _ "[]"]) simp
  next
    case None
    with pop_front_ok(1) [OF I p1] have w1: "w1 = w" "local_queue w = []" by simp_all
    define w2 where "w2 = drain_reactor_ready_into_local w"
    define w3 where "w3 = drain_task_ready_into_local E w2"
    obtain k2 where d2: "ok w2" "extends w [Outbound (Drain ReactorWake k2)] w2"
      using drain_reactor_ok [OF I] unfolding w2_def by blast
    obtain k3 where d3: "ok w3" "extends w2 [Outbound (Drain TaskWake k3)] w3"
      using drain_task_ok [OF d2(1), of E] unfolding w3_def by blast
    have e3: "extends w [Outbound (Drain ReactorWake k2), Outbound (Drain TaskWake k3)] w3"
      using extends_trans [OF d2(2) d3(2)] by simp
    obtain r4 w4 where p4: "pop_front w3 = (r4, w4)" by fastforce
    show ?thesis
    proof (cases r4)
      case (Some t)
      then have r: "res = Some t" "w' = w4"
        using n p1 None p4 w1 by (simp_all add: next_task_def w2_def w3_def)
      note s = pop_front_ok(2) [OF d3(1) p4 Some]
      show ?thesis using extends_trans [OF e3, of "[]" w4] s r by (intro exI) auto
    next
      case None': None
      with pop_front_ok(1) [OF d3(1) p4] have w4: "w4 = w3" "local_queue w3 = []" by simp_all
      obtain r5 w5 where p5: "pop_injection_action E w3 = (r5, w5)" by fastforce
      have r: "(res, w') = (case r5 of Some task \<Rightarrow> pop_front (accept_task task w5) | None \<Rightarrow> (None, w5))"
        using n p1 None None' p4 p5 w1 w4 by (simp add: next_task_def w2_def w3_def split: option.splits)
      show ?thesis
      proof (cases r5)
        case None
        with pop_injection_action_none [OF d3(1)] p5 r w4 w1 show ?thesis
          using extends_trans [OF e3, of "[Outbound (PopInjection None)]" w5] by (intro exI) auto
      next
        case (Some task)
        note a = pop_injection_action_some [OF d3(1) p5 [unfolded Some]]
        have p6: "pop_front (accept_task task w5) = (res, w')" using r Some by simp
        then obtain t where t: "res = Some t"
          using pop_front_ok(3) [OF a(2) p6] a(4) by auto
        note s = pop_front_ok(2) [OF a(2) p6 t]
        then show ?thesis
          using extends_trans [OF extends_trans [OF e3 a(3)], of "[]" w'] t by (intro exI) auto
      qed
    qed
  qed
qed

section \<open>Polling a task\<close>

lemma remove_first_head [simp]: "remove_first_occurrence (t # q) t = q"
  by simp

lemma core_poll_event:
  assumes s: "selected t w" and w': "local_queue w' = local_queue w" "ledger w' = ledger w"
    "elog w' = elog w @ [Outbound (PollTask t v r)]"
    and inv: "r = Invalid \<longleftrightarrow> slab_get t (task_slab w) = None"
    and slab: "\<And>x. slab_get x (task_slab w') \<noteq> None \<longleftrightarrow>
      slab_get x (task_slab w) \<noteq> None \<and> \<not> (x = t \<and> r = Ready ())"
  shows "ok w'"
proof -
  have c: "core w" and q: "fifo (elog w) = t # local_queue w" using s by (simp_all add: selected_def)
  have "t \<in> injected (elog w)" using c q by (simp add: core_def)
  moreover have "slab_get t (task_slab w) \<noteq> None \<longleftrightarrow> t \<in> injected (elog w) \<and> t \<notin> completed (elog w)"
    using c by (simp only: core_def)
  ultimately have t: "t \<in> injected (elog w)" "r = Invalid \<longleftrightarrow> t \<in> completed (elog w)"
    using inv by blast+
  have "polls_ok (elog w')"
    using c q t by (simp add: polls_ok_def each_event_snoc w' core_def)
  moreover have "completed (elog w') = completed (elog w) \<union> (if r = Ready () then {t} else {})"
    "injected (elog w') = injected (elog w)"
    by (simp_all add: w' split: poll_result.splits)
  moreover have "fifo (elog w') = local_queue w'"
    using q by (simp add: w' fifo_step_def)
  ultimately show ?thesis
    using c q t slab by (auto simp: ok_def core_def w'(1,2) split: if_splits)
qed

lemma poll_future_raw_same:
  assumes "poll_future_raw E t (Some task) w = Some ((r, tb), w')"
  shows "same w w'" "\<exists>task'. tb = Some task'" "r = Ready () \<or> r = Pending"
proof -
  obtain ready fut rr acts where fp: "future_poll E (future task) (reactor w) (elog w) = (ready, fut, rr, acts)"
    by (metis prod_cases4)
  let ?w1 = "w\<lparr>cells := set_current_task t (cells w), reactor := rr\<rparr>"
  obtain w2 where w2: "perform_poll_actions acts ?w1 = Some w2"
      "w' = w2\<lparr>cells := clear_current_task (cells w2)\<rparr>"
      "r = (if ready then Ready () else Pending)" "tb = Some (task\<lparr>future := fut\<rparr>)"
    using assms fp by (simp add: poll_future_raw_def Let_def split: bind_splits)
  have "same w ?w1" by (simp add: same_def)
  from same_trans [OF same_trans [OF this same_perform [OF w2(1)]] same_cells(1)]
  show "same w w'" unfolding w2(2) .
  show "\<exists>task'. tb = Some task'" "r = Ready () \<or> r = Pending" using w2 by auto
qed

lemma poll_task_ok:
  assumes s: "selected t w" and p: "poll_task E t w = Some w'"
  shows "\<exists>v r. ok w' \<and> extends w [Outbound (PollTask t v r)] w'"
proof -
  let ?w0 = "w\<lparr>cells := clear_notified t (cells w)\<rparr>"
  obtain old sl where rm: "slab_remove t (task_slab w) = (old, sl)" by fastforce
  have get: "old = slab_get t (task_slab w)" "\<And>x. slab_get x sl = (if x = t then None else slab_get x (task_slab w))"
    using slab.remove_result [of "task_slab w" t] slab.get_remove [of "task_slab w" _ t] rm by simp_all
  show ?thesis
  proof (cases old)
    case None
    then have w': "w' = log_event (Outbound (PollTask t None Invalid)) (?w0\<lparr>task_slab := sl\<rparr>)"
      using p rm by (simp add: poll_task_def Let_def poll_task_invalid_action_def)
    have "ok w'"
      by (rule core_poll_event [OF s, of w' None Invalid])
        (use None get in \<open>auto simp: w' log_event_def\<close>)
    then show ?thesis by (auto simp: w' extends_def log_event_def)
  next
    case (Some task)
    let ?w1 = "?w0\<lparr>task_slab := sl\<rparr>"
    obtain r tb w2 where raw: "poll_future_raw E t (Some task) ?w1 = Some ((r, tb), w2)"
      using p rm Some
      by (cases "poll_future_raw E t (Some task) ?w1") (auto simp: poll_task_def poll_task_action_def Let_def)
    let ?w3 = "log_event (Outbound (PollTask t (map_option task_view_of tb) r)) w2"
    have p2: "(case r of Ready _ \<Rightarrow> Some ?w3
        | _ \<Rightarrow> do { b \<leftarrow> tb; Some (?w3\<lparr>task_slab := slab_insert t b (task_slab ?w3)\<rparr>) }) = Some w'"
      using p rm Some raw by (simp add: poll_task_def poll_task_action_def Let_def)
    note sm = poll_future_raw_same [OF raw]
    obtain b where b: "tb = Some b" using sm(2) by blast
    have e: "elog w' = elog w @ [Outbound (PollTask t (map_option task_view_of tb) r)]"
      "local_queue w' = local_queue w" "ledger w' = ledger w" "event_interval w' = event_interval w"
      "task_slab w' = (if r = Ready () then sl else slab_insert t b sl)"
      using p2 sm b by (auto simp: log_event_def same_def split: poll_result.splits)
    have "ok w'"
      by (rule core_poll_event [OF s e(2,3,1)])
        (use Some get sm(3) in \<open>auto simp: e(5) slab.get_insert\<close>)
    then show ?thesis using e by (auto simp: extends_def)
  qed
qed

section \<open>The loops\<close>

definition num_polls :: "log \<Rightarrow> nat" where
  "num_polls es = length (filter is_poll_task es)"

lemma num_polls_simps [simp]: "num_polls [] = 0" "num_polls (a @ b) = num_polls a + num_polls b"
  "num_polls (e # a) = (if is_poll_task e then Suc (num_polls a) else num_polls a)"
  by (simp_all add: num_polls_def)

lemma num_polls_quiet: "(\<forall>e \<in> set es. is_drain e \<or> is_pop_injection e) \<Longrightarrow> num_polls es = 0"
  by (auto simp: num_polls_def filter_empty_conv is_drain_conv is_pop_injection_conv)

lemma poll_while_ok:
  assumes "ok w" "poll_while E n c w = Some (c', w')"
  shows "\<exists>es. ok w' \<and> extends w es w' \<and> work es \<and> c' = c + num_polls es \<and> (c \<le> n \<longrightarrow> c' \<le> n)"
  using assms
proof (induction E n c w rule: poll_while.induct)
  case (1 E n c w)
  show ?case
  proof (cases "c < n")
    case False
    then show ?thesis using 1(2,3) by (subst (asm) poll_while.simps) (auto intro!: exI [of _ "[]"])
  next
    case True
    obtain res w1 where nt: "next_task E w = (res, w1)" by fastforce
    obtain es where es: "extends w es w1" "quiet es"
        "case res of Some t \<Rightarrow> selected t w1 | None \<Rightarrow> ok w1 \<and> local_queue w1 = [] \<and> local_queue w = []"
      using next_task_ok [OF 1(2) nt] by blast
    show ?thesis
    proof (cases res)
      case None
      then show ?thesis
        using True nt es 1(3) quiet_work num_polls_quiet [of es] by (subst (asm) poll_while.simps) (auto simp: quiet_def)
    next
      case (Some t)
      then obtain w2 where w2: "poll_task E t w1 = Some w2" "poll_while E n (c + 1) w2 = Some (c', w')"
        using 1(3) True nt by (subst (asm) poll_while.simps) (auto split: option.splits)
      obtain v r where p: "ok w2" "extends w1 [Outbound (PollTask t v r)] w2"
        using poll_task_ok [OF _ w2(1)] es(3) Some by auto
      obtain fs where fs: "ok w'" "extends w2 fs w'" "work fs" "c' = c + 1 + num_polls fs" "c + 1 \<le> n \<longrightarrow> c' \<le> n"
        using 1(1) [OF True nt [symmetric] Some w2(1) p(1) w2(2)] by blast
      show ?thesis
        using extends_trans [OF extends_trans [OF es(1) p(2)] fs(2)] fs quiet_work [OF es(2)] True
          num_polls_quiet [OF es(2) [unfolded quiet_def]]
        by (intro exI) auto
    qed
  qed
qed

lemma poll_loop_ok:
  assumes I: "ok w" and p: "poll_loop E n c w = Some (c', w')" and c: "c \<le> n"
  shows "\<exists>es. ok w' \<and> extends w es w' \<and> work es \<and> c' \<le> n \<and> c' = c + num_polls es \<and>
    (local_queue w \<noteq> [] \<and> c < n \<longrightarrow> (\<exists>e \<in> set es. is_poll_task e))"
proof (cases "c < n")
  case False
  then show ?thesis using I p c by (auto simp: poll_loop_def intro!: exI [of _ "[]"])
next
  case True
  obtain res w1 where nt: "next_task E w = (res, w1)" by fastforce
  obtain es where es: "extends w es w1" "quiet es"
      "case res of Some t \<Rightarrow> selected t w1 | None \<Rightarrow> ok w1 \<and> local_queue w1 = [] \<and> local_queue w = []"
    using next_task_ok [OF I nt] by blast
  show ?thesis
  proof (cases res)
    case None
    then show ?thesis using True nt es p c quiet_work [OF es(2)] num_polls_quiet [OF es(2) [unfolded quiet_def]]
      by (auto simp: poll_loop_def)
  next
    case (Some t)
    then obtain w2 where w2: "poll_task E t w1 = Some w2" "poll_while E n (c + 1) w2 = Some (c', w')"
      using p True nt by (auto simp: poll_loop_def bind_eq_Some_conv)
    obtain v r where q: "ok w2" "extends w1 [Outbound (PollTask t v r)] w2"
      using poll_task_ok [OF _ w2(1)] es(3) Some by auto
    obtain fs where fs: "ok w'" "extends w2 fs w'" "work fs" "c' = c + 1 + num_polls fs" "c + 1 \<le> n \<longrightarrow> c' \<le> n"
      using poll_while_ok [OF q(1) w2(2)] by blast
    show ?thesis
      using extends_trans [OF extends_trans [OF es(1) q(2)] fs(2)] fs quiet_work [OF es(2)] True
        num_polls_quiet [OF es(2) [unfolded quiet_def]]
      by (intro exI) auto
  qed
qed

definition popped :: "('f, 'r) world \<Rightarrow> ('f, 'r) world \<Rightarrow> bool" where
  "popped w w' \<longleftrightarrow>
     (\<exists>es. ok w' \<and> extends w es w' \<and> es \<noteq> [] \<and> (\<forall>e \<in> set es. is_pop_injection e) \<and>
        length (local_queue w) \<le> length (local_queue w'))"

lemma pop_injection_loop_ok:
  assumes "pop_injection_loop E w = Some w'"
  shows "ok w \<longrightarrow> popped w w'"
proof (rule pop_injection_loop.raw_induct [rotated, OF assms], rule impI)
  fix loop and E :: "('a, 'b) env" and w w' :: "('a, 'b) world"
  assume IH: "\<And>E w w'. loop E w = Some w' \<Longrightarrow> ok w \<longrightarrow> popped w w'"
    and step: "(case pop_injection_action E w of (None, w1) \<Rightarrow> Some w1
      | (Some task, w1) \<Rightarrow> loop E (accept_task task w1)) = Some w'" and I: "ok w"
  obtain res w1 where p: "pop_injection_action E w = (res, w1)" by fastforce
  show "popped w w'"
  proof (cases res)
    case None
    then have "w1 = w'" using step p by simp
    with pop_injection_action_none [OF I p [unfolded None]] show ?thesis
      unfolding popped_def by (intro exI [of _ "[Outbound (PopInjection None)]"]) simp
  next
    case (Some task)
    note a = pop_injection_action_some [OF I p [unfolded Some]]
    have "popped (accept_task task w1) w'" using IH step p Some a(2) by simp
    then obtain es where es: "ok w'" "extends (accept_task task w1) es w'" "\<forall>e \<in> set es. is_pop_injection e"
        "length (local_queue (accept_task task w1)) \<le> length (local_queue w')"
      unfolding popped_def by blast
    show ?thesis
      unfolding popped_def using extends_trans [OF a(3) es(2)] es a(4) by (intro exI) auto
  qed
qed

lemma pop_injection_eq_loop: "pop_injection E w = pop_injection_loop E w"
  by (subst pop_injection_loop.simps) (simp add: pop_injection_def)

section \<open>Park and tick\<close>

lemma same_reset_and_drain: "same w (reset_and_drain_cross_thread_action E w)"
  unfolding reset_and_drain_cross_thread_action_def Let_def
  by (rule same_trans [OF same_trans [OF same_cells(1) same_let(2)] same_cells(1)])

lemma park_ok:
  assumes "ok w"
  shows "\<exists>k1 k2. ok (park E w) \<and>
    extends w [Outbound Park, Outbound (Drain ReactorWake k1), Outbound (Drain TaskWake k2)] (park E w)"
proof -
  let ?w1 = "reset_and_drain_cross_thread_action E w"
  let ?w2 = "?w1\<lparr>cells := snd (take_block_on_yielded (cells ?w1))\<rparr>"
  obtain b where pk: "park E w = drain_task_ready_into_local E (drain_reactor_ready_into_local (park_action E b ?w2))"
    unfolding park_def Let_def case_prod_beta by blast
  have "same w ?w2" using same_reset_and_drain same_cells(1) same_trans by blast
  then have w3: "ok (park_action E b ?w2)" "extends w [Outbound Park] (park_action E b ?w2)"
    using assms by (auto simp: park_action_def Let_def log_event_def ok_def core_def same_def extends_def
        fifo_step_def polls_ok_other split: prod.splits)
  obtain k1 where d1: "ok (drain_reactor_ready_into_local (park_action E b ?w2))"
      "extends (park_action E b ?w2) [Outbound (Drain ReactorWake k1)] (drain_reactor_ready_into_local (park_action E b ?w2))"
    using drain_reactor_ok [OF w3(1)] by blast
  obtain k2 where d2: "ok (park E w)"
      "extends (drain_reactor_ready_into_local (park_action E b ?w2)) [Outbound (Drain TaskWake k2)] (park E w)"
    using drain_task_ok [OF d1(1), of E] unfolding pk by blast
  show ?thesis
    using extends_trans [OF extends_trans [OF w3(2) d1(2)] d2(2)] d2(1) by auto
qed

lemma ok_tick_event: "ok w \<Longrightarrow> ok (log_event (Inbound (Tick x)) w)"
  by (auto simp: ok_def core_def log_event_def fifo_step_def polls_ok_other)

text \<open>The shape of a tick.\<close>

lemma tick_ok:
  assumes I: "ok w" and t: "tick E w = Some w'" and n: "1 \<le> event_interval w"
  shows "\<exists>k0 pops loop1 k1 k2 loop2. let mid = Outbound (Drain Deferred k0) # pops @ loop1 @
      [Outbound Park, Outbound (Drain ReactorWake k1), Outbound (Drain TaskWake k2)] @ loop2 in
    ok w' \<and> elog w' = tick_log (elog w) mid \<and> event_interval w' = event_interval w \<and>
    pops \<noteq> [] \<and> (\<forall>e \<in> set pops. is_pop_injection e) \<and> work loop1 \<and> work loop2 \<and>
    num_polls mid \<le> event_interval w \<and>
    (local_queue w \<noteq> [] \<longrightarrow> (\<exists>e \<in> set loop1. is_poll_task e))"
proof -
  let ?n = "event_interval w"
  define w1 where "w1 = log_event (Inbound (Tick None)) w"
  define w2 where "w2 = wake_deferred w1"
  obtain w3 c w4 c' w6 where steps: "pop_injection_loop E w2 = Some w3" "poll_loop E ?n 0 w3 = Some (c, w4)"
      "poll_loop E ?n c (park E w4) = Some (c', w6)" "w' = log_event (Inbound (Tick (Some ()))) w6"
    using t by (auto simp: tick_def Let_def w1_def w2_def bind_eq_Some_conv pop_injection_eq_loop)
  have w1: "ok w1" "extends w [Inbound (Tick None)] w1" "local_queue w1 = local_queue w"
    using ok_tick_event [OF I] by (simp_all add: w1_def extends_def log_event_def)
  obtain k0 where w2: "ok w2" "extends w1 [Outbound (Drain Deferred k0)] w2" "local_queue w2 = local_queue w1 @ k0"
    using drain_deferred_ok [OF w1(1)] unfolding w2_def by blast
  obtain pops where w3: "ok w3" "extends w2 pops w3" "pops \<noteq> []" "\<forall>e \<in> set pops. is_pop_injection e"
      "length (local_queue w2) \<le> length (local_queue w3)"
    using pop_injection_loop_ok [OF steps(1)] w2(1) unfolding popped_def by blast
  obtain loop1 where w4: "ok w4" "extends w3 loop1 w4" "work loop1" "c \<le> ?n" "c = num_polls loop1"
      "local_queue w3 \<noteq> [] \<and> 0 < ?n \<longrightarrow> (\<exists>e \<in> set loop1. is_poll_task e)"
    using poll_loop_ok [OF w3(1) steps(2)] by (metis add_0 le0)
  obtain k1 k2 where w5: "ok (park E w4)"
      "extends w4 [Outbound Park, Outbound (Drain ReactorWake k1), Outbound (Drain TaskWake k2)] (park E w4)"
    using park_ok [OF w4(1)] by blast
  obtain loop2 where w6: "ok w6" "extends (park E w4) loop2 w6" "work loop2" "c + num_polls loop2 \<le> ?n"
    using poll_loop_ok [OF w5(1) steps(3) w4(4)] by blast
  have "local_queue w \<noteq> [] \<longrightarrow> (\<exists>e \<in> set loop1. is_poll_task e)"
    using w1(3) w2(3) w3(5) w4(6) n by fastforce
  moreover have "num_polls pops = 0" using num_polls_quiet [of pops] w3(4) by blast
  moreover have "ok w'" using ok_tick_event [OF w6(1)] steps(4) by simp
  ultimately show ?thesis
    using w1(2) w2(2) w3 w4 w5 w6 steps(4)
    by (intro exI [of _ k0] exI [of _ pops] exI [of _ loop1] exI [of _ k1] exI [of _ k2] exI [of _ loop2])
      (simp add: Let_def extends_def tick_log_def log_event_def)
qed

lemma tick_preserves:
  assumes "tick_pre w" "tick E w = Some w'" "1 \<le> event_interval w"
  shows "tick_pre w'" "event_interval w' = event_interval w"
proof -
  have I: "executor_inv (elog w)" "ok w" using assms(1) by (simp_all add: tick_pre_ok)
  obtain k0 pops loop1 k1 k2 loop2 where s: "ok w'" "event_interval w' = event_interval w"
      "elog w' = tick_log (elog w) (Outbound (Drain Deferred k0) # pops @ loop1 @
        [Outbound Park, Outbound (Drain ReactorWake k1), Outbound (Drain TaskWake k2)] @ loop2)"
      "pops \<noteq> []" "\<forall>e \<in> set pops. is_pop_injection e" "work loop1" "work loop2"
      "local_queue w \<noteq> [] \<longrightarrow> (\<exists>e \<in> set loop1. is_poll_task e)"
    using tick_ok [OF I(2) assms(2,3)] unfolding Let_def by blast
  let ?a = "Outbound (Drain Deferred k0) # pops @ loop1"
    and ?b = "[Outbound Park, Outbound (Drain ReactorWake k1), Outbound (Drain TaskWake k2)]"
  let ?mid = "?a @ ?b @ loop2"
  have wk: "work ?a" "work loop2" using s by (auto simp: work_def)
  have b: "park_followed ?b" by (auto simp: park_followed_def less_Suc_eq)
  have "inner ?mid" using work_inner(1) [OF wk(1)] work_inner(1) [OF wk(2)] by simp
  moreover have "park_followed ?mid"
    by (intro park_followed_append b park_followed_none work_inner(2) wk)
  moreover have "polls_ok (tick_log (elog w) ?mid)"
    using s(1,3) by (simp add: ok_def core_def)
  moreover have "fifo (elog w) \<noteq> [] \<Longrightarrow> \<exists>e \<in> set ?mid. is_poll_task e"
    using s(8) I(2) by (auto simp: ok_def)
  moreover have "\<exists>e \<in> set ?mid. is_pop_injection e" using s(4,5) by (cases pops) auto
  ultimately have "executor_inv (tick_log (elog w) ?mid)"
    using I(1) by (intro executor_inv_tick_log) (auto simp: polls_ok_iff)
  then show "tick_pre w'" "event_interval w' = event_interval w"
    using s(1-3) by (simp_all add: tick_pre_ok)
qed

end
