(* ===== verification/Executor_Live.thy ===== *)
theory Executor_Live
  imports Executor_Inv
begin

text \<open>
  Progress of the executor: a tick returns when other threads stop sending at some point; a queued
  task is polled after at most as many ticks as there are tasks before it; a wake is never lost
  between the waker and the queue.
\<close>

section \<open>A tick returns\<close>

abbreviation ctx :: "('f, 'r) world \<Rightarrow> nat option" where
  "ctx w \<equiv> cross_thread_ctx (cells w)"

lemma ctx_perform_wake [simp]: "cross_thread_ctx (perform_wake a s) = cross_thread_ctx s"
  and current_perform_wake [simp]: "current_task (perform_wake a s) = current_task s"
  by (simp_all add: perform_wake_def wake_impl_def push_deferred_def push_remote_def reactor_raw_wake_impl_def
      Let_def split: wake_action.splits wake_source.splits)

lemma ctx_perform_wakes [simp]: "cross_thread_ctx (perform_wakes as s) = cross_thread_ctx s"
  by (induction as arbitrary: s) simp_all

lemma ctx_push_remotes [simp]: "cross_thread_ctx (push_remotes ts s) = cross_thread_ctx s"
  by (induction ts arbitrary: s) (simp_all add: push_remote_def Let_def)

lemma ctx_spawn_all [simp]: "ctx (spawn_all fs w) = ctx w"
  by (induction fs arbitrary: w) (simp_all add: spawn_def Let_def)

lemma ctx_let [simp]: "ctx (let_spawn E w) = ctx w" "ctx (let_wake E w) = ctx w"
  by (simp_all add: let_spawn_def let_wake_def)

lemma ctx_drain_cross [simp]: "cross_thread_ctx (drain_cross_thread s) = cross_thread_ctx s"
  by (simp add: drain_cross_thread_def split: option.splits)

lemma cells_filter_and_enqueue [simp]: "cells (snd (filter_and_enqueue ids kept w)) = cells w"
  by (simp add: filter_and_enqueue_spec)

lemma ctx_drains [simp]:
  "ctx (drain_reactor_ready_into_local w) = ctx w"
  "ctx (drain_task_ready_into_local E w) = ctx w"
  "ctx (wake_deferred w) = ctx w"
  by (simp_all add: drain_reactor_ready_into_local_def drain_task_ready_into_local_def wake_deferred_def
      drain_deferred_into_local_def take_reactor_ready_from_tls_def take_task_ready_from_tls_def
      take_deferred_from_tls_def take_reactor_ready_def take_task_ready_def take_deferred_def
      log_event_def Let_def case_prod_beta)

lemma ctx_pop_injection_action [simp]: "ctx (snd (pop_injection_action E w)) = ctx w"
  by (auto simp: pop_injection_action_def try_recv_raw_def log_event_def Let_def
      split: list.splits option.splits)

lemma ctx_accept [simp]: "ctx (accept_task t w) = ctx w"
  and ctx_pop_front [simp]: "ctx (snd (pop_front w)) = ctx w"
  by (simp_all add: accept_task_def pop_front_def split: list.splits)

lemma ctx_next_task: "next_task E w = (res, w') \<Longrightarrow> ctx w' = ctx w"
proof -
  have "ctx (snd (next_task E w)) = ctx w"
    unfolding next_task_def Let_def
    by (auto split: prod.splits option.splits)
      (metis ctx_accept ctx_drains(1,2) ctx_pop_front ctx_pop_injection_action snd_conv)+
  then show "next_task E w = (res, w') \<Longrightarrow> ctx w' = ctx w" by simp
qed

lemma perform_returns:
  assumes "current_task (cells w) \<noteq> None"
  shows "\<exists>w'. perform_poll_actions as w = Some w' \<and> ctx w' = ctx w"
  using assms
proof (induction as arbitrary: w)
  case (Cons a as)
  have "\<exists>w1. perform_poll_action a w = Some w1 \<and> ctx w1 = ctx w \<and> current_task (cells w1) \<noteq> None"
    using Cons.prems
    by (cases a) (auto simp: perform_poll_action_def defer_current_def push_deferred_def
        set_block_on_yielded_def spawn_def Let_def split: option.splits)
  then obtain w1 where "perform_poll_action a w = Some w1" "ctx w1 = ctx w" "current_task (cells w1) \<noteq> None"
    by blast
  with Cons.IH [of w1] show ?case by simp
qed simp

lemma poll_task_returns:
  assumes c: "ctx w \<noteq> None"
  shows "\<exists>w'. poll_task E t w = Some w' \<and> ctx w' = ctx w"
proof -
  obtain old sl where rm: "slab_remove t (task_slab w) = (old, sl)" by fastforce
  show ?thesis
  proof (cases old)
    case None
    then show ?thesis
      using rm by (simp add: poll_task_def Let_def poll_task_invalid_action_def log_event_def clear_notified_def)
  next
    case (Some task)
    obtain ready fut r acts where
      fp: "future_poll E (future task) (reactor w) (elog w) = (ready, fut, r, acts)"
      by (metis prod_cases4)
    let ?w1 = "w\<lparr>task_slab := sl, cells := set_current_task t (clear_notified t (cells w)), reactor := r\<rparr>"
    have "current_task (cells ?w1) \<noteq> None" "ctx ?w1 = ctx w"
      by (simp_all add: set_current_task_def clear_notified_def Let_def)
    then obtain w2 where "perform_poll_actions acts ?w1 = Some w2" "ctx w2 = ctx w"
      using perform_returns [of ?w1 acts] by auto
    moreover have "cross_thread_ctx (set_current_task t (clear_notified t (cells w))) = ctx w"
      by (simp add: set_current_task_def clear_notified_def Let_def)
    ultimately show ?thesis
      using c rm Some fp
      by (cases ready) (auto simp: poll_task_def poll_task_action_def poll_future_raw_def create_waker_def
          log_event_def clear_current_task_def Let_def)
  qed
qed

lemma poll_while_returns:
  assumes "ctx w \<noteq> None"
  shows "\<exists>c' w'. poll_while E n c w = Some (c', w') \<and> ctx w' = ctx w"
  using assms
proof (induction E n c w rule: poll_while.induct)
  case (1 E n c w)
  obtain res w1 where nt: "next_task E w = (res, w1)" by fastforce
  note c1 = ctx_next_task [OF nt]
  show ?case
  proof (cases "c < n \<and> res \<noteq> None")
    case False
    then show ?thesis using nt c1 by (subst poll_while.simps) auto
  next
    case True
    then obtain t where t: "res = Some t" by blast
    obtain w2 where w2: "poll_task E t w1 = Some w2" "ctx w2 = ctx w1"
      using poll_task_returns [of w1 E t] 1(2) c1 by auto
    show ?thesis
      using 1(1) [OF _ nt [symmetric] t w2(1)] True nt t w2 c1 1(2) by (subst poll_while.simps) simp
  qed
qed

lemma poll_loop_returns:
  assumes "ctx w \<noteq> None"
  shows "\<exists>c' w'. poll_loop E n c w = Some (c', w') \<and> ctx w' = ctx w"
proof -
  obtain res w1 where nt: "next_task E w = (res, w1)" by fastforce
  note c1 = ctx_next_task [OF nt]
  show ?thesis
  proof (cases res)
    case (Some t)
    obtain w2 where w2: "poll_task E t w1 = Some w2" "ctx w2 = ctx w1"
      using poll_task_returns [of w1 E t] assms c1 by auto
    then show ?thesis
      using poll_while_returns [of w2 E n "c + 1"] assms nt Some c1 by (auto simp: poll_loop_def)
  qed (use nt c1 in \<open>auto simp: poll_loop_def\<close>)
qed

text \<open>Once nothing more is sent the injection loop empties the channel.\<close>

definition sends_stop :: "('f, 'r) env \<Rightarrow> nat \<Rightarrow> bool" where
  "sends_stop E N \<longleftrightarrow> (\<forall>l. N \<le> length l \<longrightarrow> remote_spawns E l = [])"

lemma pop_injection_action_measure:
  assumes "pop_injection_action E w = (Some task, w1)"
  shows "length (elog (accept_task task w1)) = length (elog w) + 1"
    and "remote_spawns E (elog w) = [] \<Longrightarrow>
      length (injection_queue (accept_task task w1)) < length (injection_queue w)"
proof -
  obtain res w0 where r: "try_recv_raw E w = (res, w0)" by fastforce
  have e: "elog w0 = elog w" using same_try_recv [OF r] by (simp add: same_def)
  have q: "remote_spawns E (elog w) = [] \<Longrightarrow> res \<noteq> None \<Longrightarrow> length (injection_queue w0) < length (injection_queue w)"
    using r by (auto simp: try_recv_raw_def let_spawn_def Let_def split: list.splits)
  show "length (elog (accept_task task w1)) = length (elog w) + 1"
    "remote_spawns E (elog w) = [] \<Longrightarrow>
      length (injection_queue (accept_task task w1)) < length (injection_queue w)"
    using assms r e q
    by (auto simp: pop_injection_action_def accept_task_def log_event_def Let_def split: option.splits if_splits)
qed

lemma pop_injection_loop_returns:
  fixes w :: "('f, 'r) world"
  assumes "sends_stop E N"
  shows "\<exists>w'. pop_injection_loop E w = Some w' \<and> ctx w' = ctx w"
proof (induction w rule: wf_induct_rule
    [OF wf_measures [of "[\<lambda>w. N - length (elog w), \<lambda>w. length (injection_queue w)]"]])
  case (1 w)
  obtain res w1 where p: "pop_injection_action E w = (res, w1)" by fastforce
  have c1: "ctx w1 = ctx w" using ctx_pop_injection_action [of E w] p by simp
  show ?case
  proof (cases res)
    case None
    then show ?thesis using p c1 by (subst pop_injection_loop.simps) simp
  next
    case (Some task)
    let ?w2 = "accept_task task w1"
    note m = pop_injection_action_measure [OF p [unfolded Some]]
    have "(?w2, w) \<in> measures [\<lambda>w. N - length (elog w), \<lambda>w. length (injection_queue w)]"
    proof (cases "N \<le> length (elog w)")
      case True
      then show ?thesis using m assms by (simp add: sends_stop_def)
    qed (use m(1) in \<open>simp, linarith\<close>)
    from 1 [OF this] show ?thesis
      using p Some c1 by (subst pop_injection_loop.simps) simp
  qed
qed

lemma ctx_park [simp]: "ctx (park E w) = ctx w"
proof -
  have "ctx (reset_and_drain_cross_thread_action E w) = ctx w"
    by (auto simp: reset_and_drain_cross_thread_action_def reset_interrupt_def let_wake_def Let_def
        split: option.splits)
  then show ?thesis
    by (simp add: park_def park_action_def take_block_on_yielded_def log_event_def Let_def case_prod_beta)
qed

lemma tick_returns:
  assumes "sends_stop E N" "ctx w \<noteq> None"
  shows "\<exists>w'. tick E w = Some w' \<and> ctx w' = ctx w"
proof -
  let ?w2 = "wake_deferred (log_event (Inbound (Tick None)) w)"
  have c2: "ctx ?w2 = ctx w" by (simp add: log_event_def)
  obtain w3 where w3: "pop_injection_loop E ?w2 = Some w3" "ctx w3 = ctx w"
    using pop_injection_loop_returns [OF assms(1), of ?w2] c2 by auto
  obtain c w4 where w4: "poll_loop E (event_interval w) 0 w3 = Some (c, w4)" "ctx w4 = ctx w"
    using poll_loop_returns [of w3 E "event_interval w" 0] w3(2) assms(2) by auto
  obtain c' w6 where w6: "poll_loop E (event_interval w) c (park E w4) = Some (c', w6)" "ctx w6 = ctx w"
    using poll_loop_returns [of "park E w4" E "event_interval w" c] w4(2) assms(2) by auto
  show ?thesis
    using w3 w4 w6 by (simp add: tick_def Let_def pop_injection_eq_loop log_event_def)
qed

section \<open>A queued task is polled\<close>

text \<open>Running a number of ticks.\<close>

fun ticks :: "('f, 'r) env \<Rightarrow> nat \<Rightarrow> ('f, 'r) world \<Rightarrow> ('f, 'r) world option" where
  "ticks E 0 w = Some w"
| "ticks E (Suc n) w = do { w1 \<leftarrow> tick E w; ticks E n w1 }"

definition polled_in :: "tid \<Rightarrow> log \<Rightarrow> bool" where
  "polled_in t es \<longleftrightarrow> (\<exists>v r. Outbound (PollTask t v r) \<in> set es)"

lemma polled_in_append [simp]: "polled_in t (a @ b) \<longleftrightarrow> polled_in t a \<or> polled_in t b"
  by (auto simp: polled_in_def)

text \<open>
  The queue only grows at its end and shrinks at its head, so a task that is not polled moves
  forward by one place with every poll.
\<close>

lemma fifo_position:
  assumes "polls_ok (l @ es)" "fifo l = xs @ t # ys" "\<not> polled_in t es"
  shows "num_polls es \<le> length xs \<and> (\<exists>zs. fifo (l @ es) = drop (num_polls es) xs @ t # zs)"
  using assms
proof (induction es rule: rev_induct)
  case (snoc e es)
  have ok: "polls_ok (l @ es)"
    using snoc.prems(1) by (simp add: polls_ok_def each_event_snoc flip: append_assoc)
  obtain zs where IH: "num_polls es \<le> length xs" "fifo (l @ es) = drop (num_polls es) xs @ t # zs"
    using snoc.IH [OF ok snoc.prems(2)] snoc.prems(3) by auto
  have f: "fifo (l @ es @ [e]) = fifo_step (fifo (l @ es)) e"
    using fifo_snoc [of "l @ es" e] by simp
  show ?case
  proof (cases "is_poll_task e")
    case True
    then obtain t' v r where e: "e = Outbound (PollTask t' v r)" by (auto simp: is_poll_task_conv)
    then have "t' \<noteq> t" using snoc.prems(3) by (auto simp: polled_in_def)
    moreover obtain q where head: "fifo (l @ es) = t' # q"
      using snoc.prems(1) e by (auto simp: polls_ok_def each_event_snoc simp flip: append_assoc)
    ultimately have d: "drop (num_polls es) xs \<noteq> []" using IH(2) by (cases "drop (num_polls es) xs") auto
    then have lt: "num_polls es < length xs" by simp
    then have split: "drop (num_polls es) xs = xs ! num_polls es # drop (Suc (num_polls es)) xs"
      by (rule Cons_nth_drop_Suc [symmetric])
    have "fifo (l @ es @ [e]) = drop (Suc (num_polls es)) xs @ t # zs"
      unfolding f using head IH(2) split by (simp add: fifo_step_def e)
    then show ?thesis using True lt by auto
  next
    case False
    then show ?thesis using IH by (auto simp: f fifo_step_def)
  qed
qed auto

lemma tick_moves:
  assumes I: "ok w" and t: "tick E w = Some w'" and n: "1 \<le> event_interval w"
    and q: "local_queue w = xs @ t # ys"
  shows "\<exists>es. elog w' = elog w @ es \<and> ok w' \<and> event_interval w' = event_interval w \<and>
    (polled_in t es \<or> (\<exists>k zs. 1 \<le> k \<and> k \<le> length xs \<and> local_queue w' = drop k xs @ t # zs))"
proof -
  obtain k0 pops loop1 k1 k2 loop2 where s: "ok w'" "event_interval w' = event_interval w"
      "elog w' = tick_log (elog w) (Outbound (Drain Deferred k0) # pops @ loop1 @
        [Outbound Park, Outbound (Drain ReactorWake k1), Outbound (Drain TaskWake k2)] @ loop2)"
      "local_queue w \<noteq> [] \<longrightarrow> (\<exists>e \<in> set loop1. is_poll_task e)"
    using tick_ok [OF I t n] unfolding Let_def by blast
  define es where "es = Inbound (Tick None) # Outbound (Drain Deferred k0) # pops @ loop1 @
        [Outbound Park, Outbound (Drain ReactorWake k1), Outbound (Drain TaskWake k2)] @ loop2 @
        [Inbound (Tick (Some ()))]"
  have es: "elog w' = elog w @ es" using s(3) by (simp add: es_def tick_log_def)
  have "filter is_poll_task loop1 \<noteq> []" using s(4) q by (auto simp: filter_empty_conv)
  then have "1 \<le> num_polls es" by (auto simp: es_def num_polls_def Suc_le_eq)
  moreover have "num_polls es \<le> length xs \<and> (\<exists>zs. local_queue w' = drop (num_polls es) xs @ t # zs)"
    if "\<not> polled_in t es"
    using fifo_position [of "elog w" es xs t ys] that s(1) I q es by (auto simp: ok_def core_def)
  ultimately show ?thesis using es s(1,2) by blast
qed

lemma bounded_poll:
  assumes "ok w" "1 \<le> event_interval w" "ctx w \<noteq> None" "sends_stop E N"
    "local_queue w = xs @ t # ys" "length xs < n"
  shows "\<exists>w' es. ticks E n w = Some w' \<and> elog w' = elog w @ es \<and> polled_in t es"
  using assms
proof (induction n arbitrary: w xs ys)
  case (Suc n)
  obtain w1 where w1: "tick E w = Some w1" "ctx w1 = ctx w"
    using tick_returns [OF Suc.prems(4,3)] by blast
  obtain es where es: "elog w1 = elog w @ es" "ok w1" "event_interval w1 = event_interval w"
    "polled_in t es \<or> (\<exists>k zs. 1 \<le> k \<and> k \<le> length xs \<and> local_queue w1 = drop k xs @ t # zs)"
    using tick_moves [OF Suc.prems(1) w1(1) Suc.prems(2,5)] by blast
  show ?case
  proof (cases "polled_in t es")
    case True
    have "\<exists>w'. ticks E n w1 = Some w' \<and> (\<exists>fs. elog w' = elog w1 @ fs)"
      using es(2,3) w1(2) Suc.prems(2,3)
    proof (induction n arbitrary: w1 es)
      case (Suc n)
      then obtain w2 where w2: "tick E w1 = Some w2" "ctx w2 = ctx w1"
        using tick_returns [OF \<open>sends_stop E N\<close>] by metis
      obtain fs where "elog w2 = elog w1 @ fs" "ok w2" "event_interval w2 = event_interval w1"
        using tick_ok [OF Suc.prems(1) w2(1)] Suc.prems(2,4) unfolding Let_def tick_log_def by fastforce
      with Suc.IH [of w2] Suc.prems w2 show ?case by force
    qed simp
    then show ?thesis using w1(1) es(1) True by fastforce
  next
    case False
    then obtain k zs where k: "1 \<le> k" "k \<le> length xs" "local_queue w1 = drop k xs @ t # zs"
      using es(4) by blast
    have "length (drop k xs) < n" using k Suc.prems(6) by simp
    then obtain w' fs where "ticks E n w1 = Some w'" "elog w' = elog w1 @ fs" "polled_in t fs"
      using Suc.IH [OF es(2) _ _ Suc.prems(4) k(3)] es(3) w1(2) Suc.prems(2,3) by auto
    then show ?thesis using w1(1) es(1) by auto
  qed
qed simp

end
