(* ===== verification/Executor_Wakes.thy ===== *)
theory Executor_Wakes
  imports Executor_Live
begin

text \<open>
  No wake is lost.  The \<open>notified\<close> flag suppresses a second push of a task that is already queued,
  so a flag that stays set while its task is in no queue would block that task for ever.  The
  theorem below excludes this: across a tick, every task whose flag is set is in a ready queue or
  in the local queue.  The environment is only required to wake ids of injected tasks or the id of
  \<open>block_on\<close>, since the drains drop every other id.
\<close>

section \<open>The invariant\<close>

definition wakes_inv :: "tid set \<Rightarrow> tid set \<Rightarrow> tls \<Rightarrow> bool" where
  "wakes_inv q J s \<longleftrightarrow>
     wakes_kept q s \<and> \<not> is_notified s u64_max \<and> ready_ids s \<union> set (cross_thread_queue s) \<subseteq> insert u64_max J"

text \<open>\<open>R\<close> is what is known of the reactor after a log; it is trivial for a reactor one knows nothing of.\<close>

definition no_lost_wake :: "(log \<Rightarrow> 'r \<Rightarrow> bool) \<Rightarrow> ('f, 'r) world \<Rightarrow> bool" where
  "no_lost_wake R w \<longleftrightarrow> R (elog w) (reactor w) \<and> wakes_inv (set (local_queue w)) (injected (elog w)) (cells w)"

fun wake_target :: "wake_action \<Rightarrow> tid" where
  "wake_target (Wake wk) = ew_task_id wk"
| "wake_target (WakeReactor tid) = tid"

fun poll_targets :: "'f poll_action \<Rightarrow> tid set" where
  "poll_targets (PWake a) = {wake_target a}"
| "poll_targets _ = {}"

text \<open>
  What the environment has to respect, given the invariant \<open>R\<close> of the reactor: polls and parks keep
  it, the log only adds to what is known, and whoever is woken is an injected task.
\<close>

definition wakes_known :: "(log \<Rightarrow> 'r \<Rightarrow> bool) \<Rightarrow> ('f, 'r) env \<Rightarrow> bool" where
  "wakes_known R E \<longleftrightarrow>
     (\<forall>l e r. R l r \<longrightarrow> R (l @ [e]) r) \<and>
     (\<forall>f r l ready f' r' acts. R l r \<and> future_poll E f r l = (ready, f', r', acts) \<longrightarrow>
        R l r' \<and> (\<forall>a \<in> set acts. poll_targets a \<subseteq> insert u64_max (injected l))) \<and>
     (\<forall>r d l r' as. R l r \<and> reactor_park E r d l = (r', as) \<longrightarrow>
        R l r' \<and> (\<forall>a \<in> set as. wake_target a \<in> insert u64_max (injected l))) \<and>
     (\<forall>l. set (remote_wakes E l) \<subseteq> insert u64_max (injected l))"

lemma wakes_knownD:
  assumes "wakes_known R E"
  shows "R l r \<Longrightarrow> R (l @ es) r"
    "R l r \<Longrightarrow> future_poll E f r l = (ready, f', r', acts) \<Longrightarrow>
       R l r' \<and> (\<forall>a \<in> set acts. poll_targets a \<subseteq> insert u64_max (injected l))"
    "R l r \<Longrightarrow> reactor_park E r d l = (r', as) \<Longrightarrow>
       R l r' \<and> (\<forall>a \<in> set as. wake_target a \<in> insert u64_max (injected l))"
    "set (remote_wakes E l) \<subseteq> insert u64_max (injected l)"
proof -
  have step: "R l r \<Longrightarrow> R (l @ [e]) r" for l e r using assms unfolding wakes_known_def by blast
  show "R l r \<Longrightarrow> R (l @ es) r"
  proof (induction es rule: rev_induct)
    case (snoc e es)
    then show ?case using step [of "l @ es" r e] by simp
  qed simp
qed (use assms in \<open>unfold wakes_known_def, blast+\<close>)

section \<open>The thread-local operations\<close>

lemma notified_frame [simp]:
  "is_notified (s\<lparr>defer_queue := x\<rparr>) t = is_notified s t"
  "is_notified (s\<lparr>current_task := c\<rparr>) t = is_notified s t"
  "is_notified (s\<lparr>block_on_yielded := b\<rparr>) t = is_notified s t"
  "is_notified (s\<lparr>cross_thread_queue := x\<rparr>) t = is_notified s t"
  "is_notified (s\<lparr>interrupt := h\<rparr>) t = is_notified s t"
  "is_notified (s\<lparr>reactor_ready_queue := x\<rparr>) t = is_notified s t"
  "is_notified (s\<lparr>task_ready_queue := x\<rparr>) t = is_notified s t"
  by (simp_all add: is_notified_def)

lemma ready_ids_frame [simp]:
  "ready_ids (s\<lparr>defer_queue := x\<rparr>) = ready_ids s"
  "ready_ids (s\<lparr>current_task := c\<rparr>) = ready_ids s"
  "ready_ids (s\<lparr>block_on_yielded := b\<rparr>) = ready_ids s"
  "ready_ids (s\<lparr>cross_thread_queue := x\<rparr>) = ready_ids s"
  "ready_ids (s\<lparr>interrupt := h\<rparr>) = ready_ids s"
  "ready_ids (s\<lparr>task_notified := v\<rparr>) = ready_ids s"
  by (simp_all add: ready_ids_def)

lemma wakes_inv_cong:
  assumes "\<And>t. is_notified s' t = is_notified s t" "ready_ids s' = ready_ids s"
    "cross_thread_queue s' = cross_thread_queue s"
  shows "wakes_inv q J s' = wakes_inv q J s"
  using assms by (simp add: wakes_inv_def wakes_kept_def)

lemma wakes_inv_frame [simp]:
  "wakes_inv q J (s\<lparr>defer_queue := x\<rparr>) = wakes_inv q J s"
  "wakes_inv q J (s\<lparr>current_task := c\<rparr>) = wakes_inv q J s"
  "wakes_inv q J (s\<lparr>block_on_yielded := b\<rparr>) = wakes_inv q J s"
  "wakes_inv q J (s\<lparr>interrupt := h\<rparr>) = wakes_inv q J s"
  by (rule wakes_inv_cong; simp)+

lemma wakes_inv_mono: "wakes_inv q J s \<Longrightarrow> q \<subseteq> q' \<Longrightarrow> J \<subseteq> J' \<Longrightarrow> wakes_inv q' J' s"
  by (auto simp: wakes_inv_def wakes_kept_def)

lemma wakes_inv_push:
  assumes "wakes_inv q J s" "t \<in> insert u64_max J"
  shows "wakes_inv q J (push_task_ready t s)" "wakes_inv q J (push_reactor_ready t s)"
    "wakes_inv q J (push_remote t s)"
  using assms
  by (auto simp: wakes_inv_def wakes_kept_def push_ready_spec push_remote_def Let_def split: if_splits)

lemma wakes_inv_perform_wake:
  assumes "wakes_inv q J s" "wake_target a \<in> insert u64_max J"
  shows "wakes_inv q J (perform_wake a s)"
  using assms wakes_inv_push [OF assms]
  by (cases a) (auto simp: perform_wake_def wake_impl_def push_deferred_def reactor_raw_wake_impl_def
      split: wake_source.splits)

lemma wakes_inv_perform_wakes:
  assumes "wakes_inv q J s" "\<forall>a \<in> set as. wake_target a \<in> insert u64_max J"
  shows "wakes_inv q J (perform_wakes as s)"
  using assms by (induction as arbitrary: s) (simp_all add: wakes_inv_perform_wake)

lemma wakes_inv_push_remotes:
  assumes "wakes_inv q J s" "set ts \<subseteq> insert u64_max J"
  shows "wakes_inv q J (push_remotes ts s)"
  using assms by (induction ts arbitrary: s) (simp_all add: wakes_inv_push(3))

lemma wakes_inv_recv_all:
  assumes "wakes_inv q J s" "set ts \<subseteq> insert u64_max J"
  shows "wakes_inv q J (recv_all ts s)"
  using assms by (induction ts arbitrary: s) (simp_all add: wakes_inv_push(1))

lemma wakes_inv_drain_cross: "wakes_inv q J s \<Longrightarrow> wakes_inv q J (drain_cross_thread s)"
proof -
  assume I: "wakes_inv q J s"
  then have "wakes_inv q J (s\<lparr>cross_thread_queue := []\<rparr>)" "set (cross_thread_queue s) \<subseteq> insert u64_max J"
    by (auto simp: wakes_inv_def wakes_kept_def)
  then show ?thesis using I by (auto simp: drain_cross_thread_def wakes_inv_recv_all split: option.splits)
qed

text \<open>A drained queue moves to the executor; the flag of a polled task is cleared.\<close>

lemma wakes_inv_take:
  assumes "wakes_inv q J s" "kept = {t \<in> ids. t \<in> J}"
  shows "ids = set (reactor_ready_queue s) \<Longrightarrow> wakes_inv (q \<union> kept) J (s\<lparr>reactor_ready_queue := []\<rparr>)"
    "ids = set (task_ready_queue s) \<Longrightarrow> wakes_inv (q \<union> kept) J (s\<lparr>task_ready_queue := []\<rparr>)"
  using assms by (auto simp: wakes_inv_def wakes_kept_def ready_ids_def)

lemma wakes_inv_clear: "wakes_inv (insert t q) J s \<Longrightarrow> wakes_inv q J (clear_notified t s)"
proof -
  have "ready_ids (clear_notified t s) = ready_ids s" "cross_thread_queue (clear_notified t s) = cross_thread_queue s"
    by (simp_all add: clear_notified_def Let_def)
  then show "wakes_inv (insert t q) J s \<Longrightarrow> wakes_inv q J (clear_notified t s)"
    by (auto simp: wakes_inv_def wakes_kept_def is_notified_clear)
qed

section \<open>The executor's operations\<close>

lemma wakes_inv_log [simp]:
  "cells (log_event e w) = cells w" "local_queue (log_event e w) = local_queue w"
  by (simp_all add: log_event_def)

text \<open>Only polls and parks reach the reactor.\<close>

lemma reactor_frame [simp]:
  "reactor (log_event e w) = reactor w" "reactor (spawn_all fs w) = reactor w"
  "reactor (let_spawn E w) = reactor w" "reactor (let_wake E w) = reactor w" "reactor (accept_task t w) = reactor w"
  "reactor (snd (pop_front w)) = reactor w" "reactor (snd (filter_and_enqueue ids kept w)) = reactor w"
proof -
  show all: "reactor (spawn_all fs w) = reactor w" for fs
    by (induction fs arbitrary: w) (simp_all add: spawn_def Let_def)
  then show "reactor (let_spawn E w) = reactor w" by (simp add: let_spawn_def)
qed (simp_all add: log_event_def let_wake_def accept_task_def pop_front_def filter_and_enqueue_spec split: list.splits)

lemma reactor_pop_injection_action [simp]: "reactor (snd (pop_injection_action E w)) = reactor w"
  using reactor_frame(3) [of E w]
  by (simp add: pop_injection_action_def try_recv_raw_def Let_def del: reactor_frame(3) split: list.splits)

lemma reactor_drains [simp]:
  "reactor (drain_reactor_ready_into_local w) = reactor w"
  "reactor (drain_task_ready_into_local E w) = reactor w" "reactor (wake_deferred w) = reactor w"
  by (simp_all add: drain_reactor_ready_into_local_def drain_task_ready_into_local_def wake_deferred_def
      drain_deferred_into_local_def take_reactor_ready_from_tls_def take_task_ready_from_tls_def
      take_deferred_from_tls_def Let_def case_prod_beta)

lemma reactor_perform_poll_actions: "perform_poll_actions as w = Some w' \<Longrightarrow> reactor w' = reactor w"
proof (induction as arbitrary: w)
  case (Cons a as)
  obtain w1 where "perform_poll_action a w = Some w1" "perform_poll_actions as w1 = Some w'"
    using Cons.prems by (auto simp: bind_eq_Some_conv)
  moreover from this(1) have "reactor w1 = reactor w"
    by (cases a) (auto simp: perform_poll_action_def spawn_def Let_def split: option.splits)
  ultimately show ?case using Cons.IH by simp
qed simp

lemma ok_ledger: "ok w \<Longrightarrow> ledger_has (ledger w) t \<longleftrightarrow> t \<in> injected (elog w)"
  by (simp add: ok_def core_def)

lemma nlw_drain:
  assumes I: "ok w" and K: "wakes_known R E" and r: "R (elog w) (reactor w)"
    and N: "wakes_inv (set (local_queue w)) (injected (elog w)) s1"
    and s: "s = s1\<lparr>reactor_ready_queue := []\<rparr> \<and> ids = reactor_ready_queue s1 \<or>
      s = s1\<lparr>task_ready_queue := []\<rparr> \<and> ids = task_ready_queue s1"
    and w1: "same w w1" "cells w1 = s" "reactor w1 = reactor w"
    and f: "filter_and_enqueue ids [] w1 = (kept, w2)"
  shows "no_lost_wake R (log_event (Outbound (Drain src kept)) w2)"
proof -
  let ?w' = "log_event (Outbound (Drain src kept)) w2"
  note d = drain_ok [where w' = ?w' and src = src, OF I w1(1) refl f]
  have kept: "set kept = {t \<in> set ids. t \<in> injected (elog w)}" using d(5) ok_ledger [OF I] by simp
  have "cells ?w' = s" using f w1(2) by (auto simp: filter_and_enqueue_spec)
  moreover have "injected (elog ?w') = injected (elog w)" using d(2) by (simp add: extends_def)
  moreover have "wakes_inv (set (local_queue w) \<union> set kept) (injected (elog w)) s"
    using s wakes_inv_take [OF N kept] by auto
  moreover have "R (elog ?w') (reactor ?w')"
    using wakes_knownD(1) [OF K r] d(2) f w1(3) reactor_frame(7) [of ids "[]" w1] by (simp add: extends_def)
  ultimately show ?thesis using d(4) by (simp add: no_lost_wake_def)
qed

lemma nlw_drain_reactor:
  assumes "ok w" "no_lost_wake R w" and K: "wakes_known R E"
  shows "no_lost_wake R (drain_reactor_ready_into_local w)"
proof -
  let ?s = "(cells w)\<lparr>reactor_ready_queue := []\<rparr>"
  obtain kept w2 where f: "filter_and_enqueue (reactor_ready_queue (cells w)) [] (w\<lparr>cells := ?s\<rparr>) = (kept, w2)"
    by fastforce
  have "no_lost_wake R (log_event (Outbound (Drain ReactorWake kept)) w2)"
    by (rule nlw_drain [OF assms(1) K _ _ disjI1 same_cells(1) _ _ f]) (use assms(2) in \<open>simp_all add: no_lost_wake_def\<close>)
  with f show ?thesis
    by (simp add: drain_reactor_ready_into_local_def take_reactor_ready_from_tls_def take_reactor_ready_def Let_def)
qed

lemma nlw_let_wake: "wakes_known R E \<Longrightarrow> no_lost_wake R w \<Longrightarrow> no_lost_wake R (let_wake E w)"
  by (simp add: no_lost_wake_def wakes_knownD(4)) (simp add: let_wake_def wakes_inv_push_remotes wakes_knownD(4))

lemma nlw_drain_task:
  assumes "ok w" "no_lost_wake R w" "wakes_known R E"
  shows "no_lost_wake R (drain_task_ready_into_local E w)"
proof -
  let ?s1 = "drain_cross_thread (cells (let_wake E w))"
  have "wakes_inv (set (local_queue w)) (injected (elog w)) ?s1"
    using nlw_let_wake [OF assms(3,2)] by (intro wakes_inv_drain_cross) (simp add: no_lost_wake_def, simp add: let_wake_def)
  note N = this
  let ?w1 = "(let_wake E w)\<lparr>cells := ?s1\<lparr>task_ready_queue := []\<rparr>\<rparr>"
  have sm: "same w ?w1" by (rule same_trans [OF same_let(2) same_cells(1)])
  obtain kept w2 where f: "filter_and_enqueue (task_ready_queue ?s1) [] ?w1 = (kept, w2)"
    by fastforce
  have "no_lost_wake R (log_event (Outbound (Drain TaskWake kept)) w2)"
    by (rule nlw_drain [OF assms(1,3) _ N disjI2 sm _ _ f]) (use assms(2) in \<open>simp_all add: no_lost_wake_def\<close>)
  with f show ?thesis
    by (simp add: drain_task_ready_into_local_def take_task_ready_from_tls_def take_task_ready_def Let_def)
qed

lemma nlw_deferred:
  assumes "ok w" "no_lost_wake R w" and K: "wakes_known R E"
  shows "no_lost_wake R (wake_deferred w)"
proof -
  obtain kept where k: "ok (wake_deferred w)" "extends w [Outbound (Drain Deferred kept)] (wake_deferred w)"
      "local_queue (wake_deferred w) = local_queue w @ kept"
    using drain_deferred_ok [OF assms(1)] by blast
  have "cells (wake_deferred w) = (cells w)\<lparr>defer_queue := []\<rparr>"
    by (simp add: wake_deferred_def drain_deferred_into_local_def take_deferred_from_tls_def take_deferred_def
        Let_def case_prod_beta)
  then show ?thesis
    using assms(2) k(2,3) wakes_knownD(1) [OF K]
    by (auto simp: no_lost_wake_def extends_def intro: wakes_inv_mono)
qed

lemma cells_spawn_all:
  "\<exists>h. cells (spawn_all fs w) = (cells w)\<lparr>interrupt := h\<rparr>"
proof (induction fs arbitrary: w)
  case Nil
  show ?case by (intro exI [of _ "interrupt (cells w)"]) simp
next
  case (Cons f fs)
  then obtain h where "cells (spawn_all fs (spawn f w)) = (cells (spawn f w))\<lparr>interrupt := h\<rparr>" by blast
  then show ?case by (auto simp: spawn_def Let_def)
qed

lemma nlw_pop_injection:
  assumes "ok w" "no_lost_wake R w" "pop_injection_action E w = (res, w')" and K: "wakes_known R E"
  shows "res = None \<Longrightarrow> no_lost_wake R w'" "res = Some task \<Longrightarrow> no_lost_wake R (accept_task task w')"
proof -
  obtain r w1 where t: "try_recv_raw E w = (r, w1)" by fastforce
  obtain h where "cells (let_spawn E w) = (cells w)\<lparr>interrupt := h\<rparr>"
    using cells_spawn_all [of "remote_spawns E (elog w)" w] by (auto simp: let_spawn_def)
  then have "cells w1 = (cells w)\<lparr>interrupt := h\<rparr>"
    using t by (auto simp: try_recv_raw_def Let_def split: list.splits)
  moreover have "cells w' = cells w1"
    using assms(3) t by (auto simp: pop_injection_action_def Let_def split: option.splits if_splits)
  ultimately have c: "cells w' = (cells w)\<lparr>interrupt := h\<rparr>" by simp
  have N: "wakes_inv (set (local_queue w)) (injected (elog w)) (cells w')"
    using assms(2) by (simp add: c no_lost_wake_def)
  have r: "R (elog w @ es) (reactor w')" for es
    using assms(2,3) wakes_knownD(1) [OF K] reactor_pop_injection_action [of E w] by (auto simp: no_lost_wake_def)
  show "no_lost_wake R w'" if "res = None"
    using N r pop_injection_action_none [OF assms(1) assms(3) [unfolded that]]
    by (simp add: no_lost_wake_def extends_def)
  show "no_lost_wake R (accept_task task w')" if "res = Some task"
  proof -
    note a = pop_injection_action_some [OF assms(1) assms(3) [unfolded that]]
    have "cells (accept_task task w') = cells w'" by (simp add: accept_task_def)
    then show ?thesis
      using N r a(3,4) by (auto simp: no_lost_wake_def extends_def intro: wakes_inv_mono)
  qed
qed

text \<open>A task is off the queue and its flag is still set.\<close>

definition nlw_selected :: "(log \<Rightarrow> 'r \<Rightarrow> bool) \<Rightarrow> tid \<Rightarrow> ('f, 'r) world \<Rightarrow> bool" where
  "nlw_selected R t w \<longleftrightarrow> R (elog w) (reactor w) \<and> wakes_inv (insert t (set (local_queue w))) (injected (elog w)) (cells w)"

lemma nlw_pop_front:
  assumes "no_lost_wake R w" "pop_front w = (res, w')"
  shows "res = None \<Longrightarrow> no_lost_wake R w'" "res = Some t \<Longrightarrow> nlw_selected R t w'"
  using assms by (auto simp: pop_front_def no_lost_wake_def nlw_selected_def split: list.splits)

lemma nlw_next_task:
  assumes I: "ok w" and N: "no_lost_wake R w" and K: "wakes_known R E" and n: "next_task E w = (res, w')"
  shows "case res of Some t \<Rightarrow> nlw_selected R t w' | None \<Rightarrow> no_lost_wake R w'"
proof -
  obtain r1 w1 where p1: "pop_front w = (r1, w1)" by fastforce
  let ?w2 = "drain_reactor_ready_into_local w"
  let ?w3 = "drain_task_ready_into_local E ?w2"
  have w3: "ok ?w3" "no_lost_wake R ?w3"
    using drain_reactor_ok [OF I] drain_task_ok nlw_drain_reactor [OF I N K] nlw_drain_task [OF _ _ K] by blast+
  obtain r4 w4 where p4: "pop_front ?w3 = (r4, w4)" by fastforce
  obtain r5 w5 where p5: "pop_injection_action E ?w3 = (r5, w5)" by fastforce
  consider t where "r1 = Some t" | t where "r1 = None" "r4 = Some t" | "r1 = None" "r4 = None" "r5 = None"
    | task where "r1 = None" "r4 = None" "r5 = Some task"
    by (cases r1; cases r4; cases r5) auto
  then show ?thesis
  proof cases
    case 1
    then show ?thesis using n p1 nlw_pop_front(2) [OF N p1] by (auto simp: next_task_def)
  next
    case 2
    then have "w1 = w" using pop_front_ok(1) [OF I p1] by simp
    with 2 show ?thesis
      using n p1 p4 nlw_pop_front(2) [OF w3(2) p4] by (auto simp: next_task_def Let_def)
  next
    case 3
    then have "w1 = w" "w4 = ?w3" using pop_front_ok(1) [OF I p1] pop_front_ok(1) [OF w3(1) p4] by simp_all
    with 3 show ?thesis
      using n p1 p4 p5 nlw_pop_injection(1) [OF w3 p5 K] by (auto simp: next_task_def Let_def)
  next
    case 4
    then have "w1 = w" "w4 = ?w3" using pop_front_ok(1) [OF I p1] pop_front_ok(1) [OF w3(1) p4] by simp_all
    with 4 have p6: "pop_front (accept_task task w5) = (res, w')"
      using n p1 p4 p5 by (simp add: next_task_def Let_def)
    show ?thesis
      using nlw_pop_front [OF nlw_pop_injection(2) [OF w3 p5 K 4(3)] p6] by (cases res) auto
  qed
qed

lemma nlw_perform:
  assumes "wakes_inv q J (cells w)" "\<forall>a \<in> set as. poll_targets a \<subseteq> insert u64_max J"
    "perform_poll_actions as w = Some w'"
  shows "wakes_inv q J (cells w')"
  using assms
proof (induction as arbitrary: w)
  case (Cons a as)
  obtain w1 where w1: "perform_poll_action a w = Some w1" "perform_poll_actions as w1 = Some w'"
    using Cons.prems(3) by (auto simp: bind_eq_Some_conv)
  have "wakes_inv q J (cells w1)"
    using w1(1) Cons.prems(1,2)
    by (cases a) (auto simp: perform_poll_action_def defer_current_def push_deferred_def set_block_on_yielded_def
        spawn_def Let_def wakes_inv_perform_wake split: option.splits)
  with Cons.IH w1(2) Cons.prems(2) show ?case by simp
qed simp

lemma nlw_poll_task:
  assumes s: "selected t w" and N: "nlw_selected R t w" and K: "wakes_known R E" and p: "poll_task E t w = Some w'"
  shows "no_lost_wake R w'"
proof -
  let ?s0 = "clear_notified t (cells w)"
  have N0: "wakes_inv (set (local_queue w)) (injected (elog w)) ?s0"
    using N by (simp add: nlw_selected_def wakes_inv_clear)
  obtain v r where pt: "ok w'" "extends w [Outbound (PollTask t v r)] w'"
    using poll_task_ok [OF s p] by blast
  have lq: "local_queue w' = local_queue w"
  proof -
    have "fifo (elog w') = local_queue w'" "fifo (elog w) = t # local_queue w"
      using pt(1) s by (simp_all add: ok_def selected_def)
    then show ?thesis using pt(2) by (simp add: extends_def fifo_step_def)
  qed
  have "wakes_inv (set (local_queue w)) (injected (elog w)) (cells w') \<and> R (elog w) (reactor w')"
  proof -
    have r: "R (elog w) (reactor w)" using N by (simp add: nlw_selected_def)
    obtain old sl where rm: "slab_remove t (task_slab w) = (old, sl)" by fastforce
    show ?thesis
    proof (cases old)
      case None
      then have "w' = poll_task_invalid_action t (w\<lparr>cells := ?s0, task_slab := sl\<rparr>)"
        using p rm by (simp add: poll_task_def Let_def)
      then show ?thesis using N0 r by (simp add: poll_task_invalid_action_def)
    next
      case (Some task)
      obtain ready fut rr acts where
        fp: "future_poll E (future task) (reactor w) (elog w) = (ready, fut, rr, acts)"
        by (metis prod_cases4)
      let ?w1 = "w\<lparr>task_slab := sl, cells := set_current_task t ?s0, reactor := rr\<rparr>"
      obtain w2 where w2: "perform_poll_actions acts ?w1 = Some w2"
          "cells w' = clear_current_task (cells w2)" "reactor w' = reactor w2"
        using p rm Some fp
        by (auto simp: poll_task_def poll_task_action_def poll_future_raw_def Let_def bind_eq_Some_conv
            split: if_splits)
      note K2 = wakes_knownD(2) [OF K r fp]
      have "wakes_inv (set (local_queue w)) (injected (elog w)) (cells w2)"
        using N0 K2 by (intro nlw_perform [OF _ _ w2(1)]) (simp_all add: set_current_task_def)
      then show ?thesis
        using K2 reactor_perform_poll_actions [OF w2(1)] by (simp add: w2(2,3) clear_current_task_def)
    qed
  qed
  then show ?thesis using lq pt(2) wakes_knownD(1) [OF K] by (simp add: no_lost_wake_def extends_def)
qed

section \<open>A whole tick\<close>

lemma nlw_poll_while:
  assumes "ok w" "no_lost_wake R w" "wakes_known R E" "poll_while E n c w = Some (c', w')"
  shows "no_lost_wake R w'"
  using assms
proof (induction E n c w rule: poll_while.induct)
  case (1 E n c w)
  obtain res w1 where nt: "next_task E w = (res, w1)" by fastforce
  note N1 = nlw_next_task [OF 1(2-4) nt]
  show ?case
  proof (cases "c < n \<and> res \<noteq> None")
    case False
    then show ?thesis
      using N1 nt 1(3,5) by (subst (asm) poll_while.simps) (auto split: if_splits)
  next
    case True
    then obtain t where t: "res = Some t" by blast
    obtain w2 where w2: "poll_task E t w1 = Some w2" "poll_while E n (c + 1) w2 = Some (c', w')"
      using 1(5) True nt t by (subst (asm) poll_while.simps) (auto split: option.splits)
    have sel: "selected t w1" using next_task_ok [OF 1(2) nt] t by auto
    have "ok w2" using poll_task_ok [OF sel w2(1)] by blast
    moreover have "no_lost_wake R w2" using nlw_poll_task [OF sel _ 1(4) w2(1)] N1 t by simp
    ultimately show ?thesis using 1(1) [OF _ nt [symmetric] t w2(1)] True w2(2) 1(4) by blast
  qed
qed

lemma nlw_poll_loop:
  assumes I: "ok w" and N: "no_lost_wake R w" and K: "wakes_known R E" and p: "poll_loop E n c w = Some (c', w')"
  shows "no_lost_wake R w'"
proof (cases "c < n")
  case False
  then show ?thesis using N p by (simp add: poll_loop_def)
next
  case True
  obtain res w1 where nt: "next_task E w = (res, w1)" by fastforce
  note N1 = nlw_next_task [OF I N K nt]
  show ?thesis
  proof (cases res)
    case None
    then show ?thesis using True nt p N1 by (simp add: poll_loop_def)
  next
    case (Some t)
    then obtain w2 where w2: "poll_task E t w1 = Some w2" "poll_while E n (c + 1) w2 = Some (c', w')"
      using p True nt by (auto simp: poll_loop_def bind_eq_Some_conv)
    have sel: "selected t w1" using next_task_ok [OF I nt] Some by auto
    have "ok w2" using poll_task_ok [OF sel w2(1)] by blast
    moreover have "no_lost_wake R w2" using nlw_poll_task [OF sel _ K w2(1)] N1 Some by simp
    ultimately show ?thesis using nlw_poll_while [OF _ _ K w2(2)] by blast
  qed
qed

lemma nlw_pop_injection_loop:
  assumes "pop_injection_loop E w = Some w'"
  shows "ok w \<and> no_lost_wake R w \<and> wakes_known R E \<longrightarrow> no_lost_wake R w'"
proof (rule pop_injection_loop.raw_induct [rotated, OF assms], rule impI)
  fix loop and E :: "('a, 'b) env" and w w' :: "('a, 'b) world"
  assume IH: "\<And>E w w'. loop E w = Some w' \<Longrightarrow> ok w \<and> no_lost_wake R w \<and> wakes_known R E \<longrightarrow> no_lost_wake R w'"
    and step: "(case pop_injection_action E w of (None, w1) \<Rightarrow> Some w1
      | (Some task, w1) \<Rightarrow> loop E (accept_task task w1)) = Some w'" and I: "ok w \<and> no_lost_wake R w \<and> wakes_known R E"
  obtain res w1 where p: "pop_injection_action E w = (res, w1)" by fastforce
  have I': "ok w" "no_lost_wake R w" "wakes_known R E" using I by blast+
  note N1 = nlw_pop_injection [OF I'(1,2) p I'(3)]
  show "no_lost_wake R w'"
  proof (cases res)
    case None
    then show ?thesis using step p N1(1) by simp
  next
    case (Some task)
    then show ?thesis
      using IH step p N1(2) pop_injection_action_some(2) [OF I'(1) p [unfolded Some]] I'(3) by simp
  qed
qed

text \<open>Up to the reactor's park the executor only looks at its queues.\<close>

lemma before_park:
  assumes I: "ok w" and N: "no_lost_wake R w" and K: "wakes_known R E"
  obtains b w2 where "park E w = drain_task_ready_into_local E (drain_reactor_ready_into_local (park_action E b w2))"
    "same w w2" "ok w2" "no_lost_wake R w2" "reactor w2 = reactor w"
proof -
  let ?w0 = "w\<lparr>cells := reset_interrupt (cells w)\<rparr>"
  let ?w1 = "reset_and_drain_cross_thread_action E w"
  let ?w2 = "?w1\<lparr>cells := snd (take_block_on_yielded (cells ?w1))\<rparr>"
  obtain b where pk: "park E w = drain_task_ready_into_local E (drain_reactor_ready_into_local (park_action E b ?w2))"
    unfolding park_def Let_def case_prod_beta by blast
  have sm: "same w ?w2" using same_reset_and_drain same_cells(1) same_trans by blast
  have "no_lost_wake R ?w0"
    using N by (auto simp: no_lost_wake_def reset_interrupt_def split: option.splits)
  then have "wakes_inv (set (local_queue ?w0)) (injected (elog ?w0)) (cells (let_wake E ?w0))"
    using nlw_let_wake [OF K, of ?w0] by (simp add: no_lost_wake_def let_wake_def)
  from wakes_inv_drain_cross [OF this]
  have "wakes_inv (set (local_queue w)) (injected (elog w)) (cells ?w1)"
    by (simp add: reset_and_drain_cross_thread_action_def Let_def let_wake_def)
  moreover have r2: "reactor ?w2 = reactor w"
    by (simp add: reset_and_drain_cross_thread_action_def Let_def)
  ultimately have "no_lost_wake R ?w2"
    using sm N by (simp add: no_lost_wake_def take_block_on_yielded_def same_def)
  moreover have "ok ?w2" using I sm by (auto simp: ok_def core_def same_def)
  ultimately show ?thesis using that pk sm r2 by blast
qed

lemma nlw_park_action:
  assumes I: "ok w" and N: "no_lost_wake R w" and K: "wakes_known R E"
  shows "ok (park_action E b w)" "no_lost_wake R (park_action E b w)"
proof -
  show "ok (park_action E b w)"
    using I by (auto simp: park_action_def Let_def log_event_def ok_def core_def
        fifo_step_def polls_ok_other split: prod.splits)
  define d :: u64 where "d = (if b then 100 else 0)"
  obtain r' as where rp: "reactor_park E (reactor w) d (elog w) = (r', as)" by fastforce
  have "R (elog w) (reactor w)" using N by (simp add: no_lost_wake_def)
  note K2 = wakes_knownD(3) [OF K this rp]
  then show "no_lost_wake R (park_action E b w)"
    using N rp wakes_knownD(1) [OF K]
    by (simp add: park_action_def Let_def d_def [symmetric] no_lost_wake_def)
      (simp add: log_event_def wakes_inv_perform_wakes)
qed

lemma nlw_park:
  assumes I: "ok w" and N: "no_lost_wake R w" and K: "wakes_known R E"
  shows "no_lost_wake R (park E w)"
proof -
  obtain b w2 where pk: "park E w = drain_task_ready_into_local E (drain_reactor_ready_into_local (park_action E b w2))"
    and "ok w2" "no_lost_wake R w2" by (rule before_park [OF I N K])
  note w3 = nlw_park_action [OF this(2,3) K, of b]
  show ?thesis
    unfolding pk using drain_reactor_ok [OF w3(1)] nlw_drain_reactor [OF w3 K] nlw_drain_task [OF _ _ K] by blast
qed

text \<open>The wakers a park calls put their tasks into a ready queue, and the drains into the local queue.\<close>

lemma perform_wakes_delivers:
  assumes "wakes_inv q J s" "\<forall>a \<in> set as. wake_target a \<in> insert u64_max J" "WakeReactor t \<in> set as"
  shows "t \<in> ready_ids (perform_wakes as s) \<union> q"
proof -
  have mono: "ready_ids s \<subseteq> ready_ids (perform_wakes as s)" for s as
  proof (induction as arbitrary: s)
    case (Cons a as)
    have "ready_ids s \<subseteq> ready_ids (perform_wake a s)"
      by (cases a) (auto simp: perform_wake_def wake_impl_def push_deferred_def push_remote_def Let_def
          reactor_raw_wake_impl_def push_ready_spec split: wake_source.splits)
    with Cons [of "perform_wake a s"] show ?case by simp
  qed simp
  show ?thesis
    using assms
  proof (induction as arbitrary: s)
    case (Cons a as)
    have I: "wakes_inv q J (perform_wake a s)" using Cons.prems by (intro wakes_inv_perform_wake) simp_all
    show ?case
    proof (cases "a = WakeReactor t")
      case True
      then have "t \<in> ready_ids (perform_wake a s) \<union> q"
        using wakes_kept_push(4) [of q s t] Cons.prems(1)
        by (simp add: perform_wake_def reactor_raw_wake_impl_def wakes_inv_def)
      then show ?thesis using mono [of "perform_wake a s" as] by auto
    next
      case False
      then show ?thesis using Cons.IH [OF I] Cons.prems(2,3) by auto
    qed
  qed simp
qed

lemma drained_into_local:
  assumes I: "ok w" and t: "t \<in> injected (elog w)" "t \<in> ready_ids (cells w) \<union> set (local_queue w)"
  shows "t \<in> set (local_queue (drain_task_ready_into_local E (drain_reactor_ready_into_local w)))"
proof -
  let ?w1 = "drain_reactor_ready_into_local w"
  have l: "ledger_has (ledger w) t" using t(1) ok_ledger [OF I] by simp
  have c1: "cells ?w1 = (cells w)\<lparr>reactor_ready_queue := []\<rparr>" "ledger ?w1 = ledger w"
    and q1: "set (local_queue ?w1) = set (local_queue w) \<union> {x \<in> set (reactor_ready_queue (cells w)). ledger_has (ledger w) x}"
    by (auto simp: drain_reactor_ready_into_local_def take_reactor_ready_from_tls_def take_reactor_ready_def
        filter_and_enqueue_spec log_event_def Let_def)
  have q2: "set (local_queue (drain_task_ready_into_local E ?w1)) = set (local_queue ?w1) \<union>
      {x \<in> set (task_ready_queue (drain_cross_thread (cells (let_wake E ?w1)))). ledger_has (ledger w) x}"
    using c1(2) by (auto simp: drain_task_ready_into_local_def take_task_ready_from_tls_def take_task_ready_def
        filter_and_enqueue_spec log_event_def let_wake_def Let_def)
  have "task_ready_queue (cells (let_wake E ?w1)) = task_ready_queue (cells w)"
  proof -
    have "task_ready_queue (push_remotes ts s) = task_ready_queue s" for ts s
      by (induction ts arbitrary: s) (simp_all add: push_remote_def Let_def)
    then show ?thesis by (simp add: let_wake_def c1(1))
  qed
  moreover have "set (task_ready_queue s) \<subseteq> set (task_ready_queue (recv_all ts s))" for ts s
  proof (induction ts arbitrary: s)
    case (Cons x ts)
    have "set (task_ready_queue s) \<subseteq> set (task_ready_queue (push_task_ready x s))"
      by (auto simp: push_task_ready_def set_notified_def Let_def)
    with Cons show ?case by fastforce
  qed simp
  then have "set (task_ready_queue s) \<subseteq> set (task_ready_queue (drain_cross_thread s))" for s
    using order_trans [of _ "set (task_ready_queue (s\<lparr>cross_thread_queue := []\<rparr>))"]
    by (fastforce simp: drain_cross_thread_def split: option.splits)
  ultimately have "set (task_ready_queue (cells w)) \<subseteq> set (task_ready_queue (drain_cross_thread (cells (let_wake E ?w1))))"
    by metis
  then show ?thesis using t(2) l unfolding q2 q1 by (auto simp: ready_ids_def)
qed

lemma park_queues:
  assumes I: "ok w" and N: "no_lost_wake R w" and K: "wakes_known R E"
    and t: "t \<in> injected (elog w)" "\<And>d. WakeReactor t \<in> set (snd (reactor_park E (reactor w) d (elog w)))"
  shows "t \<in> set (local_queue (park E w))"
proof -
  obtain b w2 where pk: "park E w = drain_task_ready_into_local E (drain_reactor_ready_into_local (park_action E b w2))"
    and w2: "same w w2" "ok w2" "no_lost_wake R w2" "reactor w2 = reactor w" by (rule before_park [OF I N K])
  let ?w3 = "park_action E b w2"
  define d :: u64 where "d = (if b then 100 else 0)"
  obtain r' as where rp: "reactor_park E (reactor w2) d (elog w2) = (r', as)" by fastforce
  have l: "elog w2 = elog w" using w2(1) by (simp add: same_def)
  have "R (elog w2) (reactor w2)" using w2(3) by (simp add: no_lost_wake_def)
  note K2 = wakes_knownD(3) [OF K this rp]
  have "WakeReactor t \<in> set as" using t(2) [of d] rp by (simp add: w2(4) l)
  with perform_wakes_delivers [of "set (local_queue w2)" "injected (elog w2)" "cells w2" as t] K2 w2(3)
  have "t \<in> ready_ids (perform_wakes as (cells w2)) \<union> set (local_queue w2)"
    by (simp add: no_lost_wake_def)
  then have "t \<in> ready_ids (cells ?w3) \<union> set (local_queue ?w3)" "t \<in> injected (elog ?w3)"
    using rp t(1) by (simp_all add: park_action_def Let_def d_def [symmetric] l)
      (simp_all add: log_event_def injected_def l)
  then show ?thesis unfolding pk by (intro drained_into_local nlw_park_action(1) [OF w2(2,3) K])
qed

lemma nlw_tick:
  assumes I: "ok w" and N: "no_lost_wake R w" and K: "wakes_known R E" and t: "tick E w = Some w'"
  shows "no_lost_wake R w'"
proof -
  let ?n = "event_interval w"
  let ?w1 = "log_event (Inbound (Tick None)) w"
  let ?w2 = "wake_deferred ?w1"
  obtain w3 c w4 c' w6 where steps: "pop_injection_loop E ?w2 = Some w3" "poll_loop E ?n 0 w3 = Some (c, w4)"
      "poll_loop E ?n c (park E w4) = Some (c', w6)" "w' = log_event (Inbound (Tick (Some ()))) w6"
    using t by (auto simp: tick_def Let_def bind_eq_Some_conv pop_injection_eq_loop)
  have tick: "no_lost_wake R v \<Longrightarrow> no_lost_wake R (log_event (Inbound (Tick x)) v)" for x and v :: "('a, 'b) world"
    using wakes_knownD(1) [OF K] by (simp add: no_lost_wake_def) (simp add: log_event_def)
  have w2: "ok ?w2" "no_lost_wake R ?w2"
    using drain_deferred_ok [OF ok_tick_event [OF I]] nlw_deferred [OF ok_tick_event [OF I] tick K] N by blast+
  have w3: "ok w3" "no_lost_wake R w3"
    using pop_injection_loop_ok [OF steps(1)] nlw_pop_injection_loop [OF steps(1)] w2 K by (auto simp: popped_def)
  have w4: "ok w4" "no_lost_wake R w4" "c \<le> ?n"
    using poll_loop_ok [OF w3(1) steps(2)] nlw_poll_loop [OF w3 K steps(2)] by auto
  have w5: "ok (park E w4)" "no_lost_wake R (park E w4)"
    using park_ok [OF w4(1)] nlw_park [OF w4(1,2) K] by blast+
  show ?thesis
    using nlw_poll_loop [OF w5 K steps(3)] steps(4) tick by simp
qed

end
