(* ===== verification/Block_On.thy ===== *)
theory Block_On
  imports Executor_Wakes
begin

text \<open>
  \<open>Runtime::block_on\<close> of \<^verbatim>\<open>lion-executor/src/lib.rs\<close>: the loop that polls the root future and ticks
  the executor.  The root future is polled under the task id \<open>u64::MAX\<close>, outside the ticks and
  without an entry in the log; it runs in the environment of the other futures, so it may register
  with the reactor, wake tasks, spawn and yield.  Shown: what a root poll leaves alone, that the
  invariants hold at every point between the root polls and the ticks, over any number of calls of
  \<open>block_on\<close>, and that a queued task is polled while \<open>block_on\<close> runs.
\<close>

section \<open>The loop\<close>

definition poll_root :: "('f, 'r) env \<Rightarrow> 'f \<Rightarrow> ('f, 'r) world \<Rightarrow> ((bool \<times> 'f) \<times> ('f, 'r) world) option" where
  "poll_root E fut w = do {
     let w1 = w\<lparr>cells := set_current_task u64_max (cells w)\<rparr>;
     let (ready, fut', r, acts) = future_poll E fut (reactor w1) (elog w1);
     w2 \<leftarrow> perform_poll_actions acts (w1\<lparr>reactor := r\<rparr>);
     Some ((ready, fut'), w2\<lparr>cells := clear_current_task (cells w2)\<rparr>)
   }"

partial_function (option) block_on_loop ::
  "('f, 'r) env \<Rightarrow> 'f \<Rightarrow> ('f, 'r) world \<Rightarrow> ('f, 'r) world option" where
  "block_on_loop E fut w =
     (case poll_root E fut w of
        None \<Rightarrow> None
      | Some ((ready, fut'), w1) \<Rightarrow>
          if ready then Some w1
          else (case tick E w1 of None \<Rightarrow> None | Some w2 \<Rightarrow> block_on_loop E fut' w2))"

declare block_on_loop.simps [code]

text \<open>The waker of the root future is made before the loop; making it panics without a context.\<close>

definition block_on :: "('f, 'r) env \<Rightarrow> 'f \<Rightarrow> ('f, 'r) world \<Rightarrow> ('f, 'r) world option" where
  "block_on E fut w = do {
     waker \<leftarrow> create_waker u64_max WTask False (cells w);
     block_on_loop E fut w
   }"

text \<open>The same loop, a number of rounds of it: the future is \<open>None\<close> when \<open>block_on\<close> has returned.\<close>

fun block_on_rounds ::
  "('f, 'r) env \<Rightarrow> nat \<Rightarrow> 'f \<Rightarrow> ('f, 'r) world \<Rightarrow> ('f option \<times> ('f, 'r) world) option" where
  "block_on_rounds E 0 fut w = Some (Some fut, w)"
| "block_on_rounds E (Suc n) fut w = do {
     ((ready, fut'), w1) \<leftarrow> poll_root E fut w;
     if ready then Some (None, w1)
     else do { w2 \<leftarrow> tick E w1; block_on_rounds E n fut' w2 }
   }"

text \<open>
  The program around the loop.  Between two calls of \<open>block_on\<close> (\<open>Idle\<close>) the thread may spawn, wake,
  and drop futures, which reaches the reactor: what a poll may do, without being a task.  Within
  \<open>block_on\<close> it is about to poll the root future (\<open>Root\<close>) or to tick (\<open>Ticking\<close>).
\<close>

datatype 'f phase = Idle | Root 'f | Ticking 'f

inductive block_on_step :: "('f, 'r) env \<Rightarrow> 'f phase \<times> ('f, 'r) world \<Rightarrow> 'f phase \<times> ('f, 'r) world \<Rightarrow> bool"
  for E where
  outside: "future_poll E fut (reactor w) (elog w) = (ready, fut', r, acts) \<Longrightarrow>
     perform_poll_actions acts (w\<lparr>reactor := r\<rparr>) = Some w' \<Longrightarrow> block_on_step E (Idle, w) (Idle, w')"
| enters: "create_waker u64_max WTask False (cells w) = Some wk \<Longrightarrow> block_on_step E (Idle, w) (Root fut, w)"
| root_ready: "poll_root E fut w = Some ((True, fut'), w') \<Longrightarrow> block_on_step E (Root fut, w) (Idle, w')"
| root_pending: "poll_root E fut w = Some ((False, fut'), w') \<Longrightarrow> block_on_step E (Root fut, w) (Ticking fut', w')"
| ticked: "tick E w = Some w' \<Longrightarrow> block_on_step E (Ticking fut, w) (Root fut, w')"

inductive block_on_run :: "('f, 'r) env \<Rightarrow> 'f phase \<times> ('f, 'r) world \<Rightarrow> 'f phase \<times> ('f, 'r) world \<Rightarrow> bool"
  for E where
  at_start: "block_on_run E s s"
| one_more: "block_on_run E s s1 \<Longrightarrow> block_on_step E s1 s2 \<Longrightarrow> block_on_run E s s2"

section \<open>The three forms agree\<close>

lemma block_on_loop_rounds:
  assumes "block_on_loop E fut w = Some w'"
  shows "\<exists>n. block_on_rounds E n fut w = Some (None, w')"
proof (rule block_on_loop.raw_induct [rotated, OF assms])
  fix loop and E :: "('a, 'b) env" and fut w w'
  assume IH: "\<And>E fut w w'. loop E fut w = Some w' \<Longrightarrow> \<exists>n. block_on_rounds E n fut w = Some (None, w')"
    and step: "(case poll_root E fut w of None \<Rightarrow> None
      | Some ((ready, fut'), w1) \<Rightarrow>
          if ready then Some w1
          else (case tick E w1 of None \<Rightarrow> None | Some w2 \<Rightarrow> loop E fut' w2)) = Some w'"
  obtain ready fut' w1 where p: "poll_root E fut w = Some ((ready, fut'), w1)"
    using step by (cases "poll_root E fut w") auto
  show "\<exists>n. block_on_rounds E n fut w = Some (None, w')"
  proof (cases ready)
    case True
    then show ?thesis using p step by (intro exI [of _ 1]) simp
  next
    case False
    then obtain w2 where t: "tick E w1 = Some w2" "loop E fut' w2 = Some w'"
      using p step by (auto split: option.splits)
    then obtain n where "block_on_rounds E n fut' w2 = Some (None, w')" using IH by blast
    then show ?thesis using p False t(1) by (intro exI [of _ "Suc n"]) simp
  qed
qed

lemma block_on_rounds_loop:
  "block_on_rounds E n fut w = Some (None, w') \<Longrightarrow> block_on_loop E fut w = Some w'"
proof (induction n arbitrary: fut w)
  case (Suc n)
  obtain ready fut' w1 where p: "poll_root E fut w = Some ((ready, fut'), w1)"
    using Suc.prems by (auto simp: bind_eq_Some_conv)
  show ?case
    using Suc.prems Suc.IH p by (subst block_on_loop.simps) (auto simp: bind_eq_Some_conv split: if_splits)
qed simp

lemma block_on_run_trans: "block_on_run E s1 s2 \<Longrightarrow> block_on_run E s s1 \<Longrightarrow> block_on_run E s s2"
  by (induction rule: block_on_run.induct) (auto intro: one_more)

lemma block_on_rounds_run:
  "block_on_rounds E n fut w = Some (res, w') \<Longrightarrow>
     block_on_run E (Root fut, w) (case res of None \<Rightarrow> Idle | Some fut' \<Rightarrow> Root fut', w')"
proof (induction n arbitrary: fut w)
  case (Suc n)
  obtain ready fut' w1 where p: "poll_root E fut w = Some ((ready, fut'), w1)"
    using Suc.prems by (auto simp: bind_eq_Some_conv)
  show ?case
  proof (cases ready)
    case True
    then show ?thesis using Suc.prems p one_more [OF at_start root_ready] by auto
  next
    case False
    then obtain w2 where t: "tick E w1 = Some w2" "block_on_rounds E n fut' w2 = Some (res, w')"
      using Suc.prems p by (auto simp: bind_eq_Some_conv)
    have "block_on_run E (Root fut, w) (Root fut', w2)"
      using one_more [OF one_more [OF at_start root_pending] ticked, of E fut w fut' w1 w2] p False t(1) by simp
    then show ?thesis using Suc.IH [OF t(2)] block_on_run_trans by blast
  qed
qed (auto intro: at_start)

section \<open>What a root poll does\<close>

lemma poll_root_cases:
  assumes "poll_root E fut w = Some ((ready, fut'), w')"
  obtains r acts w2 where "future_poll E fut (reactor w) (elog w) = (ready, fut', r, acts)"
    "perform_poll_actions acts (w\<lparr>cells := set_current_task u64_max (cells w), reactor := r\<rparr>) = Some w2"
    "w' = w2\<lparr>cells := clear_current_task (cells w2)\<rparr>"
  using assms by (auto simp: poll_root_def Let_def bind_eq_Some_conv split: prod.splits)

lemma poll_root_same:
  assumes "poll_root E fut w = Some ((ready, fut'), w')"
  shows "same w w'"
proof -
  obtain r acts w2 where
    p: "perform_poll_actions acts (w\<lparr>cells := set_current_task u64_max (cells w), reactor := r\<rparr>) = Some w2"
    and w': "w' = w2\<lparr>cells := clear_current_task (cells w2)\<rparr>"
    by (rule poll_root_cases [OF assms])
  have "same w (w\<lparr>cells := set_current_task u64_max (cells w), reactor := r\<rparr>)" by (simp add: same_def)
  from same_trans [OF same_trans [OF this same_perform [OF p]] same_cells(1)] show ?thesis unfolding w' .
qed

lemma poll_root_idle:
  assumes "future_poll E fut (reactor w) (elog w) = (False, fut, reactor w, [])" "current_task (cells w) = None"
  shows "poll_root E fut w = Some ((False, fut), w)"
  using assms by (simp add: poll_root_def set_current_task_def clear_current_task_def Let_def)

lemma poll_root_returns:
  "\<exists>ready fut' w'. poll_root E fut w = Some ((ready, fut'), w') \<and> ctx w' = ctx w"
proof -
  obtain ready fut' r acts where fp: "future_poll E fut (reactor w) (elog w) = (ready, fut', r, acts)"
    by (metis prod_cases4)
  let ?w1 = "w\<lparr>cells := set_current_task u64_max (cells w), reactor := r\<rparr>"
  have "current_task (cells ?w1) \<noteq> None" "ctx ?w1 = ctx w" by (simp_all add: set_current_task_def)
  then obtain w2 where "perform_poll_actions acts ?w1 = Some w2" "ctx w2 = ctx w"
    using perform_returns [of ?w1 acts] by auto
  then show ?thesis using fp by (simp add: poll_root_def Let_def clear_current_task_def)
qed

lemma ctx_perform_actions: "perform_poll_actions as w = Some w' \<Longrightarrow> ctx w' = ctx w"
proof (induction as arbitrary: w)
  case (Cons a as)
  obtain w1 where "perform_poll_action a w = Some w1" "perform_poll_actions as w1 = Some w'"
    using Cons.prems by (auto simp: bind_eq_Some_conv)
  moreover from this(1) have "ctx w1 = ctx w"
    by (cases a) (auto simp: perform_poll_action_def defer_current_def push_deferred_def set_block_on_yielded_def
        spawn_def Let_def split: option.splits if_splits)
  ultimately show ?case using Cons.IH by simp
qed simp

lemma nlw_actions:
  assumes N: "no_lost_wake R w" and K: "wakes_known R E"
    and fp: "future_poll E fut (reactor w) (elog w) = (ready, fut', r, acts)"
    and s: "\<And>q J. wakes_inv q J s = wakes_inv q J (cells w)"
    and p: "perform_poll_actions acts (w\<lparr>cells := s, reactor := r\<rparr>) = Some w2"
  shows "no_lost_wake R w2"
proof -
  have "R (elog w) (reactor w)" using N by (simp add: no_lost_wake_def)
  note K2 = wakes_knownD(2) [OF K this fp]
  have "wakes_inv (set (local_queue w)) (injected (elog w)) (cells w2)"
    using N K2 by (intro nlw_perform [OF _ _ p]) (simp_all add: no_lost_wake_def s)
  moreover have "same w (w\<lparr>cells := s, reactor := r\<rparr>)" by (simp add: same_def)
  then have "same w w2" using same_perform [OF p] same_trans by blast
  moreover have "reactor w2 = r" using reactor_perform_poll_actions [OF p] by simp
  ultimately show ?thesis using K2 by (simp add: no_lost_wake_def same_def)
qed

lemma nlw_poll_root:
  assumes "no_lost_wake R w" "wakes_known R E" "poll_root E fut w = Some ((ready, fut'), w')"
  shows "no_lost_wake R w'"
proof -
  obtain r acts w2 where
    p: "future_poll E fut (reactor w) (elog w) = (ready, fut', r, acts)"
      "perform_poll_actions acts (w\<lparr>cells := set_current_task u64_max (cells w), reactor := r\<rparr>) = Some w2"
      "w' = w2\<lparr>cells := clear_current_task (cells w2)\<rparr>"
    by (rule poll_root_cases [OF assms(3)])
  have "no_lost_wake R w2"
    by (rule nlw_actions [OF assms(1,2) p(1) _ p(2)]) (simp add: set_current_task_def)
  then show ?thesis by (simp add: p(3) no_lost_wake_def clear_current_task_def)
qed

section \<open>The invariants along a run\<close>

lemma same_tick_pre: "same w w' \<Longrightarrow> tick_pre w' = tick_pre w \<and> event_interval w' = event_interval w"
  using same_ok [of w w'] by (simp add: tick_pre_ok same_def)

lemma block_on_step_inv:
  assumes "block_on_step E (ph, w) (ph', w')" "tick_pre w" "1 \<le> event_interval w"
    and "no_lost_wake R w" "wakes_known R E"
  shows "tick_pre w' \<and> event_interval w' = event_interval w \<and> no_lost_wake R w'"
  using assms(1)
proof cases
  case (outside fut ready fut' r acts)
  have "same w (w\<lparr>reactor := r\<rparr>)" by simp
  then have "same w w'" using same_perform [OF outside(4)] same_trans by blast
  moreover have "no_lost_wake R w'"
    using nlw_actions [OF assms(4,5) outside(3), of "cells w"] outside(4) by simp
  ultimately show ?thesis using assms(2) same_tick_pre [of w w'] by simp
next
  case (root_ready fut fut')
  show ?thesis
    using same_tick_pre [OF poll_root_same [OF root_ready(3)]] nlw_poll_root [OF assms(4,5) root_ready(3)] assms(2) by simp
next
  case (root_pending fut fut')
  show ?thesis
    using same_tick_pre [OF poll_root_same [OF root_pending(3)]] nlw_poll_root [OF assms(4,5) root_pending(3)] assms(2) by simp
next
  case (ticked fut)
  then show ?thesis
    using tick_preserves [OF assms(2) _ assms(3)] nlw_tick [OF _ assms(4,5)] assms(2) by (simp add: tick_pre_ok)
qed (use assms(2,4) in simp_all)

lemma block_on_run_inv:
  assumes "block_on_run E s s'" "tick_pre (snd s)" "1 \<le> event_interval (snd s)" "no_lost_wake R (snd s)" "wakes_known R E"
  shows "tick_pre (snd s') \<and> event_interval (snd s') = event_interval (snd s) \<and> no_lost_wake R (snd s')"
  using assms
proof (induction rule: block_on_run.induct)
  case (one_more s s1 s2)
  then show ?case
    using block_on_step_inv [of E "fst s1" "snd s1" "fst s2" "snd s2" R] by simp
qed simp

text \<open>The thread-local context survives, when ticks return.\<close>

lemma block_on_run_ctx:
  assumes "block_on_run E s s'" "sends_stop E N" "ctx (snd s) \<noteq> None"
  shows "ctx (snd s') = ctx (snd s)"
  using assms
proof (induction rule: block_on_run.induct)
  case (one_more s s1 s2)
  obtain ph1 w1 ph2 w2 where s: "s1 = (ph1, w1)" "s2 = (ph2, w2)" by (cases s1, cases s2)
  have "block_on_step E (ph1, w1) (ph2, w2)" using one_more.hyps(2) s by simp
  then have "ctx w2 = ctx w1"
  proof cases
    case (outside fut ready fut' r acts)
    then show ?thesis using ctx_perform_actions [of acts "w1\<lparr>reactor := r\<rparr>" w2] by simp
  next
    case (root_ready fut fut')
    then show ?thesis using poll_root_returns [of E fut w1] by auto
  next
    case (root_pending fut fut')
    then show ?thesis using poll_root_returns [of E fut w1] by auto
  next
    case (ticked fut)
    then show ?thesis using tick_returns [OF one_more.prems(1), of w1] one_more.IH one_more.prems s(1) by auto
  qed simp
  then show ?case using one_more.IH one_more.prems s by simp
qed simp

section \<open>A queued task is polled while \<open>block_on\<close> runs\<close>

lemma block_on_rounds_log:
  assumes "ok w" "1 \<le> event_interval w" "ctx w \<noteq> None" "sends_stop E N"
  shows "\<exists>res w' es. block_on_rounds E n fut w = Some (res, w') \<and> elog w' = elog w @ es"
  using assms
proof (induction n arbitrary: fut w)
  case (Suc n)
  obtain ready fut' w1 where p: "poll_root E fut w = Some ((ready, fut'), w1)" "ctx w1 = ctx w"
    using poll_root_returns [of E fut w] by blast
  have sm: "same w w1" by (rule poll_root_same [OF p(1)])
  obtain w2 where w2: "tick E w1 = Some w2" "ctx w2 = ctx w1"
    using tick_returns [OF Suc.prems(4), of w1] p(2) Suc.prems(3) by auto
  have "ok w1" "event_interval w1 = event_interval w" "elog w1 = elog w"
    using sm same_ok [OF sm] Suc.prems(1) by (simp_all add: same_def)
  moreover from this obtain es where "elog w2 = elog w1 @ es" "ok w2" "event_interval w2 = event_interval w1"
    using tick_ok [OF _ w2(1)] Suc.prems(2) unfolding Let_def tick_log_def by fastforce
  moreover from calculation obtain res w' fs where
      "block_on_rounds E n fut' w2 = Some (res, w')" "elog w' = elog w2 @ fs"
    using Suc.IH [of w2 fut'] Suc.prems w2(2) p(2) by auto
  ultimately show ?case using p(1) w2(1) by (cases ready) auto
qed simp

lemma block_on_polls:
  assumes "ok w" "1 \<le> event_interval w" "ctx w \<noteq> None" "sends_stop E N"
    "local_queue w = xs @ t # ys" "length xs < n"
  shows "\<exists>res w' es. block_on_rounds E n fut w = Some (res, w') \<and> elog w' = elog w @ es \<and> (res = None \<or> polled_in t es)"
  using assms
proof (induction n arbitrary: fut w xs ys)
  case (Suc n)
  obtain ready fut' w1 where p: "poll_root E fut w = Some ((ready, fut'), w1)" "ctx w1 = ctx w"
    using poll_root_returns [of E fut w] by blast
  have sm: "same w w1" by (rule poll_root_same [OF p(1)])
  then have w1: "ok w1" "event_interval w1 = event_interval w" "elog w1 = elog w" "local_queue w1 = xs @ t # ys"
    using same_ok [OF sm] Suc.prems(1,5) by (simp_all add: same_def)
  show ?case
  proof (cases ready)
    case True
    then show ?thesis using p(1) w1(3) by simp
  next
    case False
    obtain w2 where w2: "tick E w1 = Some w2" "ctx w2 = ctx w1"
      using tick_returns [OF Suc.prems(4), of w1] p(2) Suc.prems(3) by auto
    obtain es where es: "elog w2 = elog w1 @ es" "ok w2" "event_interval w2 = event_interval w1"
      "polled_in t es \<or> (\<exists>k zs. 1 \<le> k \<and> k \<le> length xs \<and> local_queue w2 = drop k xs @ t # zs)"
      using tick_moves [OF w1(1) w2(1) _ w1(4)] Suc.prems(2) w1(2) by auto
    have c: "1 \<le> event_interval w2" "ctx w2 \<noteq> None" using es(3) w1(2) w2(2) p(2) Suc.prems(2,3) by simp_all
    show ?thesis
    proof (cases "polled_in t es")
      case True
      obtain res w' fs where "block_on_rounds E n fut' w2 = Some (res, w')" "elog w' = elog w2 @ fs"
        using block_on_rounds_log [OF es(2) c Suc.prems(4)] by blast
      then show ?thesis using p(1) False w2(1) es(1) w1(3) True by auto
    next
      case np: False
      then obtain k zs where k: "1 \<le> k" "k \<le> length xs" "local_queue w2 = drop k xs @ t # zs"
        using es(4) by blast
      have "length (drop k xs) < n" using k Suc.prems(6) by simp
      from Suc.IH [OF es(2) c Suc.prems(4) k(3) this, of fut'] show ?thesis
        using p(1) False w2(1) es(1) w1(3) by auto
    qed
  qed
qed simp

end
