(* ===== verification/Executor_Props.thy ===== *)
theory Executor_Props
  imports Block_On
begin

text \<open>
  What a runtime built on the executor can rely on: the properties of whole runs, proved from the
  lemmas on single ticks.
\<close>

section \<open>Accepting spawned tasks\<close>

text \<open>
  The channel is FIFO and a new id passes the ledger check, so the injection loop accepts the
  tasks that wait in the channel in their order, whatever is sent behind them meanwhile.
\<close>

lemma injection_queue_spawn_all: "\<exists>more. injection_queue (spawn_all fs w) = injection_queue w @ more"
proof (induction fs arbitrary: w)
  case (Cons f fs)
  have "\<exists>more. injection_queue (spawn f w) = injection_queue w @ more" by (simp add: spawn_def Let_def)
  then show ?case using Cons [of "spawn f w"] by auto
qed simp

lemma pop_injection_action_fresh:
  assumes q: "injection_queue w = t # rest" and fresh: "\<not> ledger_has (ledger w) (task_id t)"
  shows "\<exists>w1 more. pop_injection_action E w = (Some t, w1) \<and> injection_queue w1 = rest @ more \<and>
    ledger w1 = ledger_mark (task_id t) (ledger w) \<and> local_queue w1 = local_queue w"
proof -
  obtain more where m: "injection_queue (let_spawn E w) = t # rest @ more"
    using injection_queue_spawn_all [of "remote_spawns E (elog w)" w] q by (auto simp: let_spawn_def)
  have "same w (let_spawn E w)" by (rule same_let(1))
  then show ?thesis
    using m fresh
    by (simp add: pop_injection_action_def try_recv_raw_def Let_def same_def ledger_contains_has log_event_def)
qed

lemma pop_injection_loop_accepts:
  assumes "injection_queue w = ts @ rest" "distinct (map task_id ts)"
    "\<forall>t \<in> set ts. \<not> ledger_has (ledger w) (task_id t)" "pop_injection_loop E w = Some w'" "ok w"
  shows "\<exists>zs. local_queue w' = local_queue w @ map task_id ts @ zs \<and> task_id ` set ts \<subseteq> injected (elog w')"
  using assms
proof (induction ts arbitrary: w rest)
  case Nil
  have "popped w w'" using pop_injection_loop_ok [OF Nil(4)] Nil(5) by blast
  then obtain es where es: "ok w'" "extends w es w'" "\<forall>e \<in> set es. is_pop_injection e"
    by (auto simp: popped_def)
  have "\<exists>zs. fifo (l @ es) = fifo l @ zs" for l
    using es(3)
  proof (induction es rule: rev_induct)
    case (snoc e es)
    then obtain zs where "fifo (l @ es) = fifo l @ zs" by auto
    then have "fifo (l @ es @ [e]) = fifo_step (fifo l @ zs) e" using fifo_snoc [of "l @ es" e] by simp
    then show ?case using snoc.prems by (auto simp: fifo_step_def is_pop_injection_conv split: option.splits)
  qed simp
  from this [of "elog w"] show ?case using es Nil(5) by (auto simp: ok_def extends_def)
next
  case (Cons t ts)
  obtain w1 more where a: "pop_injection_action E w = (Some t, w1)" "injection_queue w1 = (ts @ rest) @ more"
      "ledger w1 = ledger_mark (task_id t) (ledger w)" "local_queue w1 = local_queue w"
    using pop_injection_action_fresh [of w t "ts @ rest" E] Cons.prems(1,3) by auto
  let ?w2 = "accept_task t w1"
  note s = pop_injection_action_some [OF Cons.prems(5) a(1)]
  have l: "pop_injection_loop E ?w2 = Some w'"
    using Cons.prems(4) a(1) by (subst (asm) pop_injection_loop.simps) simp
  have "injection_queue ?w2 = ts @ rest @ more" "\<forall>x \<in> set ts. \<not> ledger_has (ledger ?w2) (task_id x)"
    using a Cons.prems(2,3) by (auto simp: accept_task_def ledger_has_mark image_iff)
  from Cons.IH [OF this(1) _ this(2) l s(2)] Cons.prems(2)
  obtain zs where zs: "local_queue w' = local_queue ?w2 @ map task_id ts @ zs" "task_id ` set ts \<subseteq> injected (elog w')"
    by auto
  have "injected (elog ?w2) \<subseteq> injected (elog w')" "task_id t \<in> injected (elog ?w2)"
    using pop_injection_loop_ok [OF l] s(2,3) by (auto simp: popped_def extends_def injected_def)
  then show ?case using zs s(4) by auto
qed


section \<open>Whole runs\<close>

lemma executor_inv_empty: "executor_inv []"
  by (simp add: executor_inv_def structural_inv_def semantic_inv_def action_safety_satisfied_def
      local_liveness_satisfied_def park_drain_reactor_wake_def tick_polls_if_runnable_def poll_within_tick_def
      tick_has_park_def tick_has_pop_injection_def tick_has_drain_deferred_def tick_has_drain_task_wake_def
      valid_task_polling_def fifo_task_selection_def is_park_at_def is_tick_begin_at_def is_tick_end_at_def
      is_poll_task_at_def)

lemma tick_pre_new [simp]: "tick_pre (executor_new r chan n s c)"
  by (simp add: executor_inv_empty tick_pre_ok ok_def core_def executor_new_def polls_ok_def each_event_def injected_def completed_def
      fifo_def)

lemma executor_new_sel [simp]:
  "event_interval (executor_new r chan n s c) = n" "cells (executor_new r chan n s c) = s"
  "injection_queue (executor_new r chan n s c) = chan" "local_queue (executor_new r chan n s c) = []"
  "elog (executor_new r chan n s c) = []" "ledger (executor_new r chan n s c) = ledger_new"
  by (simp_all add: executor_new_def)

lemma ticks_inv:
  assumes "tick_pre w" "1 \<le> event_interval w" "ticks E n w = Some w'"
  shows "tick_pre w' \<and> event_interval w' = event_interval w"
  using assms
proof (induction n arbitrary: w)
  case (Suc n)
  then obtain w1 where w1: "tick E w = Some w1" "ticks E n w1 = Some w'" by (auto simp: bind_eq_Some_conv)
  show ?case using Suc.IH [OF _ _ w1(2)] tick_preserves [OF Suc.prems(1) w1(1) Suc.prems(2)] Suc.prems(2) by simp
qed simp

lemma ticks_return:
  assumes "sends_stop E N" "ctx w \<noteq> None"
  shows "\<exists>w'. ticks E n w = Some w'"
  using assms(2)
proof (induction n arbitrary: w)
  case (Suc n)
  then obtain w1 where "tick E w = Some w1" "ctx w1 = ctx w" using tick_returns [OF assms(1)] by metis
  then show ?case using Suc by auto
qed simp

lemma nlw_new: "R [] r \<Longrightarrow> no_lost_wake R (executor_new r chan n (tls_new th) c)"
  by (simp add: executor_new_def no_lost_wake_def wakes_inv_def wakes_kept_def tls_new_def is_notified_def ready_ids_def)

lemma nlw_ticks:
  assumes "tick_pre w" "1 \<le> event_interval w" "no_lost_wake R w" "wakes_known R E" "ticks E n w = Some w'"
  shows "no_lost_wake R w'"
  using assms
proof (induction n arbitrary: w)
  case (Suc n)
  then obtain w1 where w1: "tick E w = Some w1" "ticks E n w1 = Some w'" by (auto simp: bind_eq_Some_conv)
  note p = tick_preserves [OF Suc.prems(1) w1(1) Suc.prems(2)]
  have "no_lost_wake R w1" using nlw_tick [OF _ Suc.prems(3,4) w1(1)] Suc.prems(1) by (simp add: tick_pre_ok)
  then show ?case using Suc.IH [OF p(1) _ _ Suc.prems(4) w1(2)] Suc.prems(2) p(2) by simp
qed simp

section \<open>Properties\<close>

text \<open>A small instance: futures that are ready at once, a reactor that wakes nobody, one task.\<close>

definition quiet_env :: "(unit, unit) env" where
  "quiet_env = \<lparr>future_poll = \<lambda>f r l. (True, f, r, []), reactor_park = \<lambda>r d l. (r, []),
     remote_spawns = \<lambda>l. [], remote_wakes = \<lambda>l. []\<rparr>"

definition small_world :: "(unit, unit) world" where
  "small_world = executor_new () [\<lparr>task_id = 3, future = ()\<rparr>] 2 (tls_new (Some 1)) 4"

text \<open>A future that wakes itself and never ends: after a tick it is queued again.\<close>

definition busy_env :: "(unit, unit) env" where
  "busy_env = quiet_env\<lparr>future_poll := \<lambda>f r l. (False, f, r,
     if Outbound (PopInjection (Some (TaskView 3))) \<in> set l
     then [PWake (Wake \<lparr>ew_task_id = 3, ew_source = WTask, ew_defer = False, ew_thread = 1\<rparr>)] else [])\<rparr>"

definition busy_world :: "(unit, unit) world" where
  "busy_world = executor_new () [\<lparr>task_id = 3, future = ()\<rparr>] 1 (tls_new (Some 1)) 4"

lemma quiet_env_ok: "sends_stop quiet_env 0" "wakes_known (\<lambda>_ _. True) quiet_env"
  by (simp_all add: quiet_env_def sends_stop_def wakes_known_def)

lemma small_world_ok: "tick_pre small_world" "1 \<le> event_interval small_world" "ctx small_world = Some 1"
  by (simp_all add: small_world_def tls_new_def)

lemma busy_env_ok: "sends_stop busy_env 0" "wakes_known (\<lambda>_ _. True) busy_env"
  by (auto simp: busy_env_def quiet_env_def sends_stop_def wakes_known_def injected_def)

lemma busy_tick: "\<exists>w. tick busy_env busy_world = Some w \<and> local_queue w = [3] \<and> is_notified (cells w) 3"
proof -
  have "map_option local_queue (tick busy_env busy_world) = Some [3]"
    "map_option (\<lambda>w. is_notified (cells w) 3) (tick busy_env busy_world) = Some True"
    by code_simp+
  then show ?thesis by auto
qed

lemma busy_world_ok:
  assumes "tick busy_env busy_world = Some w"
  shows "tick_pre w" "event_interval w = 1" "ctx w = Some 1"
proof -
  have "tick_pre busy_world" "event_interval busy_world = 1" "ctx busy_world = Some 1"
    by (simp_all add: busy_world_def tls_new_def)
  with tick_preserves [OF _ assms] tick_returns [OF busy_env_ok(1), of busy_world] assms
  show "tick_pre w" "event_interval w = 1" "ctx w = Some 1" by auto
qed

text \<open>
  C3: Every run of consecutive ticks of the executor from its initial state keeps the executor's invariant: in the log
  all nine conditions hold (each tick drains the deferred queue, takes from the injection channel,
  parks and drains the wakes; polls happen inside ticks, in FIFO order, only of injected tasks, and
  answer \<open>Invalid\<close> exactly for completed ones; a tick with a runnable task polls), the local
  queue is the queue the log describes, and slab and ledger agree with the log.  It holds for
  every environment.
\<close>

theorem executor_run_inv:
  assumes "1 \<le> n" "ticks E k (executor_new r chan n s c) = Some w"
  shows "tick_pre w"
  using ticks_inv [OF tick_pre_new _ assms(2)] assms(1) by simp

theorem executor_run_inv_witness: "\<exists>w. ticks quiet_env 5 small_world = Some w \<and> tick_pre w"
proof -
  obtain w where w: "ticks quiet_env 5 small_world = Some w"
    using ticks_return [OF quiet_env_ok(1), of small_world 5] small_world_ok(3) by auto
  then show ?thesis using executor_run_inv [of 2 quiet_env 5] by (simp add: small_world_def)
qed

text \<open>
  C9: A tick returns: it cannot panic and its loops end, once the other threads stop spawning at
  some point of the run, on a thread where the runtime's context is set up.
\<close>

theorem executor_tick_total:
  assumes "sends_stop E N" "cross_thread_ctx (cells w) \<noteq> None"
  shows "\<exists>w'. tick E w = Some w' \<and> cross_thread_ctx (cells w') = cross_thread_ctx (cells w)"
  by (rule tick_returns [OF assms])

theorem executor_tick_total_witness: "\<exists>w'. tick quiet_env small_world = Some w'"
  using executor_tick_total [OF quiet_env_ok(1), of small_world] small_world_ok(3) by auto

text \<open>
  C4: In a state that satisfies the executor's invariant (C3), with a positive \<open>event_interval\<close>, a task in
  the local queue with \<open>p\<close> tasks before it is polled within \<open>p + 1\<close> consecutive ticks, and within \<open>p + 1\<close> rounds of \<open>block_on\<close> (a poll of the root future and a tick each) unless the root
  future is ready before and \<open>block_on\<close> returns: the executor does not starve a runnable task.  What
  the other futures and the reactor do is arbitrary.  It is assumed that the other threads stop
  spawning at some point of the run, since a producer that never stops may keep the injection loop
  of one tick going, and that the runtime's context is set up on the thread.
\<close>

theorem executor_bounded_poll:
  assumes "tick_pre w" "1 \<le> event_interval w" "cross_thread_ctx (cells w) \<noteq> None" "sends_stop E N"
    and "local_queue w = xs @ t # ys" "length xs < n"
  shows "(\<exists>w' es. ticks E n w = Some w' \<and> elog w' = elog w @ es \<and> polled_in t es) \<and>
    (\<exists>res w' es. block_on_rounds E n fut w = Some (res, w') \<and> elog w' = elog w @ es \<and>
       (res = None \<or> polled_in t es))"
proof
  have ok: "ok w" using assms(1) by (simp add: tick_pre_ok)
  show "\<exists>w' es. ticks E n w = Some w' \<and> elog w' = elog w @ es \<and> polled_in t es"
    by (rule bounded_poll [OF ok assms(2-6)])
  show "\<exists>res w' es. block_on_rounds E n fut w = Some (res, w') \<and> elog w' = elog w @ es \<and> (res = None \<or> polled_in t es)"
    by (rule block_on_polls [OF ok assms(2-6)])
qed

theorem executor_bounded_poll_witness:
  "\<exists>w w' es. tick busy_env busy_world = Some w \<and> ticks busy_env 1 w = Some w' \<and> elog w' = elog w @ es \<and> polled_in 3 es"
proof -
  obtain w where w: "tick busy_env busy_world = Some w" "local_queue w = [3]" using busy_tick by blast
  then show ?thesis
    using executor_bounded_poll [of w busy_env 0 "[]" 3 "[]" 1] busy_world_ok [OF w(1)] busy_env_ok(1) by auto
qed

text \<open>
  C5: No wake is lost: along every run of ticks from fresh thread-local state, a task whose \<open>notified\<close> flag is
  set (so that further wakes of it are suppressed) waits in a ready queue or in the local queue.  The
  wakers of the environment are those of injected tasks or of \<open>block_on\<close>, as far as the reactor keeps
  to an invariant \<open>R\<close> that holds at the start.
\<close>

theorem executor_no_lost_wake:
  assumes "wakes_known R E" "R [] r" "1 \<le> n" "ticks E k (executor_new r chan n (tls_new th) c) = Some w"
    and "is_notified (cells w) t"
  shows "t \<in> ready_ids (cells w) \<union> set (local_queue w)"
proof -
  have "no_lost_wake R w" using nlw_ticks [OF tick_pre_new _ nlw_new [where R = R, OF assms(2)] assms(1,4)] assms(3) by simp
  then show ?thesis using assms(5) by (auto simp: no_lost_wake_def wakes_inv_def wakes_kept_def)
qed

theorem executor_no_lost_wake_witness:
  "\<exists>w. ticks busy_env 1 busy_world = Some w \<and> is_notified (cells w) 3 \<and>
     3 \<in> ready_ids (cells w) \<union> set (local_queue w)"
proof -
  obtain w where w: "tick busy_env busy_world = Some w" "is_notified (cells w) 3" using busy_tick by blast
  then have "ticks busy_env 1 busy_world = Some w" by simp
  with executor_no_lost_wake [OF busy_env_ok(2) TrueI, of 1 1 "()" "[\<lparr>task_id = 3, future = ()\<rparr>]" "Some 1" 4 w 3] w(2)
  show ?thesis by (auto simp: busy_world_def)
qed

text \<open>
  The tasks that wait in the injection channel when a tick starts are all accepted by it, in
  their order and behind the tasks already queued, when their ids are new: none is dropped, none
  is accepted twice and none is overtaken.
\<close>

theorem executor_injection_accepts:
  assumes "tick_pre w" "injection_queue w = ts" "distinct (map task_id ts)"
    and "\<forall>t \<in> set ts. \<not> ledger_has (ledger w) (task_id t)" "pop_injection E w = Some w'"
  shows "\<exists>zs. local_queue w' = local_queue w @ map task_id ts @ zs \<and> task_id ` set ts \<subseteq> injected (elog w')"
  by (rule pop_injection_loop_accepts [of w ts "[]" E w'])
    (use assms in \<open>simp_all add: tick_pre_ok pop_injection_eq_loop\<close>)

theorem executor_injection_accepts_witness:
  "\<exists>w' zs. pop_injection quiet_env small_world = Some w' \<and> local_queue w' = 3 # zs"
proof -
  obtain w' where w': "pop_injection quiet_env small_world = Some w'"
    using pop_injection_loop_returns [OF quiet_env_ok(1), of small_world] by (auto simp: pop_injection_eq_loop)
  have "injection_queue small_world = [\<lparr>task_id = 3, future = ()\<rparr>]" "local_queue small_world = []"
    "\<not> ledger_has (ledger small_world) 3"
    by (simp_all add: small_world_def)
  with executor_injection_accepts [OF small_world_ok(1) _ _ _ w'] w' show ?thesis by auto
qed

text \<open>
  A tick polls at most \<open>event_interval\<close> tasks, before and after the park together, so that the
  reactor is reached regularly; and it polls at least one when a task was queued.
\<close>

theorem executor_polls_per_tick:
  assumes "tick_pre w" "1 \<le> event_interval w" "tick E w = Some w'"
  shows "\<exists>es. elog w' = elog w @ es \<and> num_polls es \<le> event_interval w \<and>
    (local_queue w \<noteq> [] \<longrightarrow> 1 \<le> num_polls es)"
proof -
  obtain k0 pops loop1 k1 k2 loop2 where s:
      "elog w' = tick_log (elog w) (Outbound (Drain Deferred k0) # pops @ loop1 @
        [Outbound Park, Outbound (Drain ReactorWake k1), Outbound (Drain TaskWake k2)] @ loop2)"
      "num_polls (Outbound (Drain Deferred k0) # pops @ loop1 @
        [Outbound Park, Outbound (Drain ReactorWake k1), Outbound (Drain TaskWake k2)] @ loop2) \<le> event_interval w"
      "local_queue w \<noteq> [] \<longrightarrow> (\<exists>e \<in> set loop1. is_poll_task e)"
    using tick_ok [OF _ assms(3,2)] assms(1) unfolding Let_def tick_pre_ok by blast
  have "local_queue w \<noteq> [] \<longrightarrow> 1 \<le> num_polls loop1"
    using s(3) by (auto simp: num_polls_def filter_empty_conv Suc_le_eq)
  then show ?thesis using s(1,2) by (auto simp: tick_log_def)
qed

theorem executor_polls_per_tick_witness:
  "\<exists>w' es. tick quiet_env small_world = Some w' \<and> elog w' = elog small_world @ es \<and> num_polls es \<le> 2"
proof -
  obtain w' where w': "tick quiet_env small_world = Some w'"
    using tick_returns [OF quiet_env_ok(1), of small_world] small_world_ok(3) by auto
  with executor_polls_per_tick [OF small_world_ok(1,2) w'] show ?thesis by (auto simp: small_world_def)
qed

end
