(* ===== verification/Reactor_Types.thy ===== *)
theory Reactor_Types
  imports Prelude
begin

text \<open>
  The value types of the reactor: time (\<^verbatim>\<open>lion-reactor/src/types/time.rs\<close>), timer entries
  (\<open>timer_entry.rs\<close>), interests and I/O events (\<open>interest.rs\<close>, \<open>io_event.rs\<close>), results
  (\<open>io_result.rs\<close>), and the thread-local readiness flags (\<open>readiness.rs\<close>).  An \<open>Instant\<close> and a
  \<open>Duration\<close> are their number of milliseconds, a \<open>ResourceId\<close> its number.
\<close>

section \<open>Time\<close>

type_synonym duration = u64
type_synonym instant = u64

definition from_secs :: "u64 \<Rightarrow> duration" where
  "from_secs secs = (if secs > u64_max div 1000 then u64_max else secs * 1000)"

definition instant_add :: "instant \<Rightarrow> duration \<Rightarrow> instant" where
  "instant_add i d = saturating_add_u64 i d"

definition instant_sub :: "instant \<Rightarrow> duration \<Rightarrow> instant" where
  "instant_sub i d = saturating_sub_u64 i d"

definition instant_elapsed :: "instant \<Rightarrow> instant \<Rightarrow> duration" where
  "instant_elapsed now i = saturating_sub_u64 now i"

lemma unat_u64_max: "unat u64_max = 2 ^ 64 - 1"
  by (simp add: unsigned_minus_1_eq_mask mask_eq_exp_minus_1)

lemma unat_u64_max_div: "unat (u64_max div 1000) = (2 ^ 64 - 1) div 1000"
  by (simp add: unat_div unat_u64_max)

text \<open>The arithmetic saturates: the value is the exact one, cut off at the ends of the range.\<close>

lemma from_secs_saturates: "unat (from_secs s) = min (unat s * 1000) (2 ^ 64 - 1)"
proof (cases "s > u64_max div 1000")
  case True
  then have "unat s > (2 ^ 64 - 1) div 1000" by (simp only: word_less_nat_alt unat_u64_max_div)
  then show ?thesis using True by (simp add: from_secs_def unat_u64_max)
next
  case False
  then have "unat s \<le> (2 ^ 64 - 1) div 1000" by (simp only: word_less_nat_alt unat_u64_max_div not_less)
  then have b: "unat s * 1000 < 2 ^ 64" by simp
  then show ?thesis using False by (simp add: from_secs_def unat_word_ariths)
qed

lemma instant_add_saturates: "unat (instant_add i d) = min (unat i + unat d) (2 ^ 64 - 1)"
  by (auto simp: instant_add_def saturating_add_u64_def unat_word_ariths unat_u64_max)

lemma instant_sub_saturates: "unat (instant_sub i d) = unat i - unat d"
  by (auto simp: instant_sub_def saturating_sub_u64_def unat_sub word_le_nat_alt)

section \<open>Timer entries\<close>

text \<open>The ghost index into the log is left out; it takes no part in comparisons.\<close>

datatype timer_entry = TimerEntry (te_deadline: instant) (te_rid: u64)

text \<open>\<open>Ord for TimerEntry\<close>: by deadline, then by resource id.\<close>

instantiation timer_entry :: linorder
begin

definition less_eq_timer_entry :: "timer_entry \<Rightarrow> timer_entry \<Rightarrow> bool" where
  "less_eq_timer_entry a b =
     (if te_deadline a = te_deadline b then te_rid a \<le> te_rid b else te_deadline a < te_deadline b)"

definition less_timer_entry :: "timer_entry \<Rightarrow> timer_entry \<Rightarrow> bool" where
  "less_timer_entry a b =
     (if te_deadline a = te_deadline b then te_rid a < te_rid b else te_deadline a < te_deadline b)"

instance
  by standard (auto simp: less_eq_timer_entry_def less_timer_entry_def timer_entry.expand split: if_splits)

end

section \<open>Interests, events, results\<close>

record interest =
  readable :: bool
  writable :: bool

datatype io_mode = IoReadable | IoWritable

record io_event =
  ev_rid :: u64
  ev_mode :: io_mode
  ev_error :: bool
  ev_read_closed :: bool
  ev_write_closed :: bool

text \<open>An error is a number, as in the view of \<open>IoError\<close>; one of them is the overflow of resource ids.\<close>

datatype 'a io_result = IoOk 'a | IoErr int

definition resource_id_overflow :: int where
  "resource_id_overflow = - 1"

text \<open>What \<open>mio\<close> delivers for a token.\<close>

record mio_event =
  token :: nat
  mio_readable :: bool
  mio_writable :: bool
  mio_error :: bool
  mio_read_closed :: bool
  mio_write_closed :: bool

definition encode_token_raw :: "u64 \<Rightarrow> nat" where
  "encode_token_raw rid = unat rid"

definition decode_token_raw :: "nat \<Rightarrow> u64" where
  "decode_token_raw raw = of_nat raw"

lemma token_roundtrip [simp]: "decode_token_raw (encode_token_raw rid) = rid"
  by (simp add: decode_token_raw_def encode_token_raw_def)

fun interest_to_mio :: "interest \<Rightarrow> bool \<times> bool" where
  "interest_to_mio i =
     (case (readable i, writable i) of
        (True, True) \<Rightarrow> (True, True)
      | (True, False) \<Rightarrow> (True, False)
      | (False, True) \<Rightarrow> (False, True)
      | (False, False) \<Rightarrow> (True, False))"

fun collect_io_events :: "mio_event list \<Rightarrow> io_event list" where
  "collect_io_events [] = []"
| "collect_io_events (e # es) =
     (let mk = (\<lambda>m. \<lparr>ev_rid = decode_token_raw (token e), ev_mode = m, ev_error = mio_error e,
                      ev_read_closed = mio_read_closed e, ev_write_closed = mio_write_closed e\<rparr>)
      in (if mio_readable e then [mk IoReadable] else []) @
         (if mio_writable e then [mk IoWritable] else []) @
         collect_io_events es)"

lemma collect_io_events_iff:
  "(\<exists>e \<in> set (collect_io_events es). ev_rid e = r \<and> ev_mode e = m) \<longleftrightarrow>
     (\<exists>x \<in> set es. decode_token_raw (token x) = r \<and>
        (case m of IoReadable \<Rightarrow> mio_readable x | IoWritable \<Rightarrow> mio_writable x))"
  by (induction es) (auto simp: Let_def split: io_mode.splits)

section \<open>Readiness flags\<close>

type_synonym readiness = "8 word list"

definition READABLE :: "8 word" where "READABLE = 1"
definition WRITABLE :: "8 word" where "WRITABLE = 2"

definition init_readiness :: "u64 \<Rightarrow> readiness \<Rightarrow> readiness" where
  "init_readiness rid v =
     (let idx = unat rid;
          v1 = (if idx \<ge> length v then vec_resize (idx + 1) 0 v else v)
      in v1[idx := READABLE OR WRITABLE])"

definition mark_readable :: "u64 \<Rightarrow> readiness \<Rightarrow> readiness" where
  "mark_readable rid v =
     (let idx = unat rid in if idx < length v then v[idx := v ! idx OR READABLE] else v)"

definition mark_writable :: "u64 \<Rightarrow> readiness \<Rightarrow> readiness" where
  "mark_writable rid v =
     (let idx = unat rid in if idx < length v then v[idx := v ! idx OR WRITABLE] else v)"

definition is_readable :: "u64 \<Rightarrow> readiness \<Rightarrow> bool" where
  "is_readable rid v = (let idx = unat rid in idx < length v \<and> v ! idx AND READABLE \<noteq> 0)"

definition is_writable :: "u64 \<Rightarrow> readiness \<Rightarrow> bool" where
  "is_writable rid v = (let idx = unat rid in idx < length v \<and> v ! idx AND WRITABLE \<noteq> 0)"

definition clear_readable :: "u64 \<Rightarrow> readiness \<Rightarrow> readiness" where
  "clear_readable rid v =
     (let idx = unat rid in if idx < length v then v[idx := v ! idx AND NOT READABLE] else v)"

definition clear_writable :: "u64 \<Rightarrow> readiness \<Rightarrow> readiness" where
  "clear_writable rid v =
     (let idx = unat rid in if idx < length v then v[idx := v ! idx AND NOT WRITABLE] else v)"

lemmas readiness_defs = init_readiness_def mark_readable_def mark_writable_def is_readable_def
  is_writable_def clear_readable_def clear_writable_def Let_def

text \<open>The two flags of a byte are bits 0 and 1 and do not disturb each other.\<close>

lemma flag_bits:
  "(b :: 8 word) AND READABLE \<noteq> 0 \<longleftrightarrow> bit b 0" "b AND WRITABLE \<noteq> 0 \<longleftrightarrow> bit b 1"
  "bit (b OR READABLE) n \<longleftrightarrow> bit b n \<or> n = 0" "bit (b OR WRITABLE) n \<longleftrightarrow> bit b n \<or> n = 1"
  "bit (b AND NOT READABLE) n \<longleftrightarrow> bit b n \<and> n \<noteq> 0" "bit (b AND NOT WRITABLE) n \<longleftrightarrow> bit b n \<and> n \<noteq> 1"
proof -
  have r: "bit READABLE n \<longleftrightarrow> n = 0" and w: "bit WRITABLE n \<longleftrightarrow> n = 1" for n
    using bit_exp_iff [of 1 n, where ?'a = "8 word"]
    by (auto simp: READABLE_def WRITABLE_def bit_1_iff)
  have z: "x = 0 \<longleftrightarrow> (\<forall>n. \<not> bit x n)" for x :: "8 word"
    using bit_eqI [of x 0] by auto
  show "b AND READABLE \<noteq> 0 \<longleftrightarrow> bit b 0" "b AND WRITABLE \<noteq> 0 \<longleftrightarrow> bit b 1"
    by (auto simp: z bit_and_iff r w)
  show "bit (b OR READABLE) n \<longleftrightarrow> bit b n \<or> n = 0" "bit (b OR WRITABLE) n \<longleftrightarrow> bit b n \<or> n = 1"
    by (simp_all add: bit_or_iff r w)
  show "bit (b AND NOT READABLE) n \<longleftrightarrow> bit b n \<and> n \<noteq> 0" "bit (b AND NOT WRITABLE) n \<longleftrightarrow> bit b n \<and> n \<noteq> 1"
    by (auto simp: bit_and_iff bit_not_iff r w dest: bit_imp_le_length)
qed

end
