(* ===== verification/Resource_Slab.thy ===== *)
theory Resource_Slab
  imports Slab Reactor_Types
begin

text \<open>
  The reactor's table of registered resources: model of \<^verbatim>\<open>lion-reactor/src/resource_slot.rs\<close>,
  \<open>resource_slot_wrapper.rs\<close> and \<open>resource_slab.rs\<close>.  A slot is a timer with its waker or an I/O
  source with a waker for each direction.  \<open>unwrap\<close> of \<open>None\<close> and \<open>unreachable!\<close> are \<open>None\<close>.
  The maps that the source derives from a slab (\<open>timer_map_view\<close> and its siblings) are the
  abstraction.  Wakers are a type parameter.
\<close>

section \<open>Slots\<close>

datatype 'w resource_slot =
  Timer (slot_entry: timer_entry) (slot_waker: 'w)
| Io (slot_read_waker: "'w option") (slot_write_waker: "'w option")

type_synonym 'w resource_slab = "'w resource_slot slab"

definition new_timer :: "timer_entry \<Rightarrow> 'w \<Rightarrow> 'w resource_slot" where
  "new_timer entry waker = Timer entry waker"

definition new_io :: "'w resource_slot" where
  "new_io = Io None None"

fun is_timer :: "'w resource_slot \<Rightarrow> bool" where
  "is_timer (Timer _ _) = True"
| "is_timer (Io _ _) = False"

fun is_io :: "'w resource_slot \<Rightarrow> bool" where
  "is_io (Timer _ _) = False"
| "is_io (Io _ _) = True"

fun with_read_waker :: "'w \<Rightarrow> 'w resource_slot \<Rightarrow> 'w resource_slot option" where
  "with_read_waker waker (Io _ write_waker) = Some (Io (Some waker) write_waker)"
| "with_read_waker waker (Timer _ _) = None"

fun with_write_waker :: "'w \<Rightarrow> 'w resource_slot \<Rightarrow> 'w resource_slot option" where
  "with_write_waker waker (Io read_waker _) = Some (Io read_waker (Some waker))"
| "with_write_waker waker (Timer _ _) = None"

section \<open>The slab operations\<close>

definition resource_slab_new :: "'w resource_slab" where
  "resource_slab_new = slab_new"

definition p_insert_timer :: "u64 \<Rightarrow> timer_entry \<Rightarrow> 'w \<Rightarrow> 'w resource_slab \<Rightarrow> 'w resource_slab" where
  "p_insert_timer key entry waker rs = slab_insert key (new_timer entry waker) rs"

definition p_insert_io :: "u64 \<Rightarrow> 'w resource_slab \<Rightarrow> 'w resource_slab" where
  "p_insert_io key rs = slab_insert key new_io rs"

definition p_remove :: "u64 \<Rightarrow> 'w resource_slab \<Rightarrow> bool \<times> 'w resource_slab" where
  "p_remove key rs = (let (old, rs') = slab_remove key rs in (old \<noteq> None, rs'))"

definition p_set_read_waker :: "u64 \<Rightarrow> 'w \<Rightarrow> 'w resource_slab \<Rightarrow> 'w resource_slab option" where
  "p_set_read_waker key waker rs =
     (case slab_remove key rs of
        (Some old_slot, rs1) \<Rightarrow>
          (case with_read_waker waker old_slot of
             Some new_slot \<Rightarrow> Some (slab_insert key new_slot rs1)
           | None \<Rightarrow> None)
      | (None, _) \<Rightarrow> None)"

definition p_set_write_waker :: "u64 \<Rightarrow> 'w \<Rightarrow> 'w resource_slab \<Rightarrow> 'w resource_slab option" where
  "p_set_write_waker key waker rs =
     (case slab_remove key rs of
        (Some old_slot, rs1) \<Rightarrow>
          (case with_write_waker waker old_slot of
             Some new_slot \<Rightarrow> Some (slab_insert key new_slot rs1)
           | None \<Rightarrow> None)
      | (None, _) \<Rightarrow> None)"

definition p_get_timer_waker :: "u64 \<Rightarrow> 'w resource_slab \<Rightarrow> 'w option" where
  "p_get_timer_waker key rs =
     (case slab_get key rs of
        Some slot \<Rightarrow> if is_timer slot then Some (slot_waker slot) else None
      | None \<Rightarrow> None)"

definition p_get_read_waker :: "u64 \<Rightarrow> 'w resource_slab \<Rightarrow> 'w option" where
  "p_get_read_waker key rs =
     (case slab_get key rs of
        Some slot \<Rightarrow> if is_io slot then slot_read_waker slot else None
      | None \<Rightarrow> None)"

definition p_get_write_waker :: "u64 \<Rightarrow> 'w resource_slab \<Rightarrow> 'w option" where
  "p_get_write_waker key rs =
     (case slab_get key rs of
        Some slot \<Rightarrow> if is_io slot then slot_write_waker slot else None
      | None \<Rightarrow> None)"

definition v_set_read_waker :: "u64 \<Rightarrow> 'w \<Rightarrow> 'w resource_slab \<Rightarrow> 'w resource_slab option" where
  "v_set_read_waker key waker rs = p_set_read_waker key waker rs"

definition v_set_write_waker :: "u64 \<Rightarrow> 'w \<Rightarrow> 'w resource_slab \<Rightarrow> 'w resource_slab option" where
  "v_set_write_waker key waker rs = p_set_write_waker key waker rs"

definition v_insert_timer_slot :: "u64 \<Rightarrow> timer_entry \<Rightarrow> 'w \<Rightarrow> 'w resource_slab \<Rightarrow> 'w resource_slab" where
  "v_insert_timer_slot key entry waker rs = p_insert_timer key entry waker rs"

definition v_insert_io_slot :: "u64 \<Rightarrow> 'w resource_slab \<Rightarrow> 'w resource_slab" where
  "v_insert_io_slot key rs = p_insert_io key rs"

definition v_remove_timer_slot :: "u64 \<Rightarrow> 'w resource_slab \<Rightarrow> 'w resource_slab" where
  "v_remove_timer_slot key rs = snd (p_remove key rs)"

definition v_remove_io_slot :: "u64 \<Rightarrow> 'w resource_slab \<Rightarrow> 'w resource_slab" where
  "v_remove_io_slot key rs = snd (p_remove key rs)"

definition v_take_timer_waker :: "u64 \<Rightarrow> 'w resource_slab \<Rightarrow> 'w option" where
  "v_take_timer_waker key rs = p_get_timer_waker key rs"

definition v_get_read_waker :: "u64 \<Rightarrow> 'w resource_slab \<Rightarrow> 'w option" where
  "v_get_read_waker key rs = p_get_read_waker key rs"

definition v_get_write_waker :: "u64 \<Rightarrow> 'w resource_slab \<Rightarrow> 'w option" where
  "v_get_write_waker key rs = p_get_write_waker key rs"

text \<open>The functions outside the verified part of the source.\<close>

definition resource_contains :: "u64 \<Rightarrow> 'w resource_slab \<Rightarrow> bool" where
  "resource_contains key rs = (slab_get key rs \<noteq> None)"

definition get_timer_entry :: "u64 \<Rightarrow> 'w resource_slab \<Rightarrow> timer_entry option" where
  "get_timer_entry key rs =
     (case slab_get key rs of Some (Timer entry _) \<Rightarrow> Some entry | _ \<Rightarrow> None)"

definition take_timer_waker :: "u64 \<Rightarrow> 'w resource_slab \<Rightarrow> 'w option" where
  "take_timer_waker key rs =
     (case slab_get_mut key rs of Some (Timer _ waker, _) \<Rightarrow> Some waker | _ \<Rightarrow> None)"

definition get_read_waker :: "u64 \<Rightarrow> 'w resource_slab \<Rightarrow> 'w option" where
  "get_read_waker key rs = (case slab_get key rs of Some (Io read_waker _) \<Rightarrow> read_waker | _ \<Rightarrow> None)"

definition get_write_waker :: "u64 \<Rightarrow> 'w resource_slab \<Rightarrow> 'w option" where
  "get_write_waker key rs = (case slab_get key rs of Some (Io _ write_waker) \<Rightarrow> write_waker | _ \<Rightarrow> None)"

definition set_read_waker :: "u64 \<Rightarrow> 'w \<Rightarrow> 'w resource_slab \<Rightarrow> 'w resource_slab" where
  "set_read_waker key waker rs =
     (case slab_get_mut key rs of
        Some (Io _ write_waker, assign) \<Rightarrow> assign (Io (Some waker) write_waker)
      | _ \<Rightarrow> rs)"

definition set_write_waker :: "u64 \<Rightarrow> 'w \<Rightarrow> 'w resource_slab \<Rightarrow> 'w resource_slab" where
  "set_write_waker key waker rs =
     (case slab_get_mut key rs of
        Some (Io read_waker _, assign) \<Rightarrow> assign (Io read_waker (Some waker))
      | _ \<Rightarrow> rs)"

definition replace_timer_waker :: "u64 \<Rightarrow> 'w \<Rightarrow> 'w resource_slab \<Rightarrow> bool \<times> 'w resource_slab" where
  "replace_timer_waker key new_waker rs =
     (case slab_get_mut key rs of
        Some (Timer entry _, assign) \<Rightarrow> (True, assign (Timer entry new_waker))
      | _ \<Rightarrow> (False, rs))"

fun no_timer_in :: "'w resource_slot option list \<Rightarrow> bool" where
  "no_timer_in [] = True"
| "no_timer_in (slot # rest) =
     (case slot of Some (Timer _ _) \<Rightarrow> False | _ \<Rightarrow> no_timer_in rest)"

definition is_empty_timers :: "'w resource_slab \<Rightarrow> bool" where
  "is_empty_timers rs = no_timer_in (slab_inner rs)"

section \<open>The derived maps\<close>

definition derive_timer_map :: "(nat \<Rightarrow> 'w resource_slot option) \<Rightarrow> nat \<Rightarrow> timer_entry option" where
  "derive_timer_map m k = (case m k of Some (Timer e w) \<Rightarrow> Some e | _ \<Rightarrow> None)"

definition derive_timer_wakers :: "(nat \<Rightarrow> 'w resource_slot option) \<Rightarrow> nat \<Rightarrow> 'w option" where
  "derive_timer_wakers m k = (case m k of Some (Timer e w) \<Rightarrow> Some w | _ \<Rightarrow> None)"

definition derive_read_wakers :: "(nat \<Rightarrow> 'w resource_slot option) \<Rightarrow> nat \<Rightarrow> 'w option" where
  "derive_read_wakers m k = (case m k of Some (Io r w) \<Rightarrow> r | _ \<Rightarrow> None)"

definition derive_write_wakers :: "(nat \<Rightarrow> 'w resource_slot option) \<Rightarrow> nat \<Rightarrow> 'w option" where
  "derive_write_wakers m k = (case m k of Some (Io r w) \<Rightarrow> w | _ \<Rightarrow> None)"

definition timer_map_view :: "'w resource_slab \<Rightarrow> nat \<Rightarrow> timer_entry option" where
  "timer_map_view rs = derive_timer_map (slab_view rs)"

definition timer_wakers_view :: "'w resource_slab \<Rightarrow> nat \<Rightarrow> 'w option" where
  "timer_wakers_view rs = derive_timer_wakers (slab_view rs)"

definition read_wakers_view :: "'w resource_slab \<Rightarrow> nat \<Rightarrow> 'w option" where
  "read_wakers_view rs = derive_read_wakers (slab_view rs)"

definition write_wakers_view :: "'w resource_slab \<Rightarrow> nat \<Rightarrow> 'w option" where
  "write_wakers_view rs = derive_write_wakers (slab_view rs)"

lemmas derive_defs = derive_timer_map_def derive_timer_wakers_def derive_read_wakers_def
  derive_write_wakers_def timer_map_view_def timer_wakers_view_def read_wakers_view_def write_wakers_view_def

section \<open>What the operations do to the table\<close>

text \<open>Each operation first as an update of the slot map, from which the derived maps follow.\<close>

lemma slab_view_ops [simp]:
  "slab_view (v_insert_timer_slot k e w rs) = (slab_view rs)(unat k \<mapsto> Timer e w)"
  "slab_view (v_insert_io_slot k rs) = (slab_view rs)(unat k \<mapsto> Io None None)"
  "slab_view (v_remove_timer_slot k rs) = (slab_view rs)(unat k := None)"
  "slab_view (v_remove_io_slot k rs) = (slab_view rs)(unat k := None)"
  "slab_view resource_slab_new = Map.empty"
  by (simp_all add: v_insert_timer_slot_def p_insert_timer_def new_timer_def v_insert_io_slot_def p_insert_io_def
      new_io_def v_remove_timer_slot_def v_remove_io_slot_def p_remove_def case_prod_beta slab_view_insert
      slab_view_remove resource_slab_new_def)

lemma set_waker_ops:
  "v_set_read_waker k w rs = Some rs' \<Longrightarrow>
     \<exists>rw ww. slab_view rs (unat k) = Some (Io rw ww) \<and> slab_view rs' = (slab_view rs)(unat k \<mapsto> Io (Some w) ww)"
  "v_set_write_waker k w rs = Some rs' \<Longrightarrow>
     \<exists>rw ww. slab_view rs (unat k) = Some (Io rw ww) \<and> slab_view rs' = (slab_view rs)(unat k \<mapsto> Io rw (Some w))"
proof -
  obtain old rs1 where rm: "slab_remove k rs = (old, rs1)" by fastforce
  then have old: "old = slab_view rs (unat k)" "slab_view rs1 = (slab_view rs)(unat k := None)"
    using slab_remove_result [of k rs] slab_view_remove [of k rs] by simp_all
  show "\<exists>rw ww. slab_view rs (unat k) = Some (Io rw ww) \<and> slab_view rs' = (slab_view rs)(unat k \<mapsto> Io (Some w) ww)"
    if "v_set_read_waker k w rs = Some rs'"
    using that rm old
    by (cases old) (auto simp: v_set_read_waker_def p_set_read_waker_def slab_view_insert
        split: option.splits elim!: with_read_waker.elims)
  show "\<exists>rw ww. slab_view rs (unat k) = Some (Io rw ww) \<and> slab_view rs' = (slab_view rs)(unat k \<mapsto> Io rw (Some w))"
    if "v_set_write_waker k w rs = Some rs'"
    using that rm old
    by (cases old) (auto simp: v_set_write_waker_def p_set_write_waker_def slab_view_insert
        split: option.splits elim!: with_write_waker.elims)
qed

lemma set_waker_some:
  assumes "slab_view rs (unat k) = Some (Io rw ww)"
  shows "\<exists>rs'. v_set_read_waker k w rs = Some rs'" "\<exists>rs'. v_set_write_waker k w rs = Some rs'"
proof -
  obtain old rs1 where rm: "slab_remove k rs = (old, rs1)" by fastforce
  then have "old = Some (Io rw ww)" using slab_remove_result [of k rs] assms by simp
  then show "\<exists>rs'. v_set_read_waker k w rs = Some rs'" "\<exists>rs'. v_set_write_waker k w rs = Some rs'"
    using rm by (simp_all add: v_set_read_waker_def p_set_read_waker_def v_set_write_waker_def p_set_write_waker_def)
qed

lemma waker_lookups:
  "v_take_timer_waker k rs = timer_wakers_view rs (unat k)"
  "v_get_read_waker k rs = read_wakers_view rs (unat k)"
  "v_get_write_waker k rs = write_wakers_view rs (unat k)"
  "get_timer_entry k rs = timer_map_view rs (unat k)"
  by (auto simp: v_take_timer_waker_def p_get_timer_waker_def v_get_read_waker_def p_get_read_waker_def
      v_get_write_waker_def p_get_write_waker_def get_timer_entry_def derive_defs slab_get_view
      split: option.splits resource_slot.splits)

lemma replace_timer_waker_view:
  "slab_view (snd (replace_timer_waker k w rs)) =
     (case slab_view rs (unat k) of Some (Timer e old) \<Rightarrow> (slab_view rs)(unat k \<mapsto> Timer e w) | _ \<Rightarrow> slab_view rs)"
proof (cases "slab_get_mut k rs")
  case None
  then show ?thesis using slab_get_mut_spec [of k rs undefined]
    by (simp add: replace_timer_waker_def slab_get_view)
next
  case (Some p)
  obtain v wr where p: "p = (v, wr)" by fastforce
  have g: "slab_view rs (unat k) = Some v" "slab_view (wr v') = (slab_view rs)(unat k \<mapsto> v')" for v'
    using slab_get_mut_spec [of k rs v'] Some p by (simp_all add: slab_get_view)
  show ?thesis using Some p g by (cases v) (simp_all add: replace_timer_waker_def)
qed

lemma timer_maps_dom: "timer_map_view rs k \<noteq> None \<longleftrightarrow> timer_wakers_view rs k \<noteq> None"
  by (auto simp: derive_defs split: option.splits resource_slot.splits)

lemma is_empty_timers_view: "is_empty_timers rs \<longleftrightarrow> timer_map_view rs = Map.empty"
proof -
  have n: "no_timer_in xs \<longleftrightarrow> (\<forall>i < length xs. \<forall>e w. xs ! i \<noteq> Some (Timer e w))" for xs :: "'a resource_slot option list"
  proof (induction xs)
    case (Cons x xs)
    have "(\<forall>i < length (x # xs). \<forall>e w. (x # xs) ! i \<noteq> Some (Timer e w)) \<longleftrightarrow>
        (\<forall>e w. x \<noteq> Some (Timer e w)) \<and> (\<forall>i < length xs. \<forall>e w. xs ! i \<noteq> Some (Timer e w))"
      by (auto simp: less_Suc_eq_0_disj)
    then show ?case using Cons by (auto split: option.splits resource_slot.splits)
  qed simp
  have "timer_map_view rs = Map.empty \<longleftrightarrow> (\<forall>k e w. slab_view rs k \<noteq> Some (Timer e w))"
    by (auto simp: derive_defs fun_eq_iff split: option.splits resource_slot.splits)
  also have "\<dots> \<longleftrightarrow> (\<forall>i < length (slab_inner rs). \<forall>e w. slab_inner rs ! i \<noteq> Some (Timer e w))"
  proof -
    have "slab_view rs (unat (slab_offset rs) + i) = slab_inner rs ! i" if "i < length (slab_inner rs)" for i
      using that by (auto simp: slab_view_window window_def)
    moreover have "slab_view rs k = Some x \<Longrightarrow> \<exists>i < length (slab_inner rs). slab_inner rs ! i = Some x" for k x
      by (auto simp: slab_view_window window_def split: if_splits)
    ultimately show ?thesis by metis
  qed
  finally show ?thesis by (simp add: is_empty_timers_def n)
qed

lemma slab_get_mut_cases:
  obtains (none) "slab_get_mut k rs = None" "slab_view rs (unat k) = None"
  | (some) v wr where "slab_get_mut k rs = Some (v, wr)" "slab_view rs (unat k) = Some v"
      "\<And>v'. slab_view (wr v') = (slab_view rs)(unat k \<mapsto> v')"
proof (cases "slab_get_mut k rs")
  case None
  then show ?thesis using none slab_get_mut_spec [of k rs] by (simp add: slab_get_view)
next
  case (Some p)
  then show ?thesis using some [of "fst p" "snd p"] slab_get_mut_spec [of k rs] by (cases p) (simp add: slab_get_view)
qed

text \<open>
  The in-place accessors and the verified ones, which take a slot out and insert its successor,
  agree: the getters return the same wakers, and where a verified setter succeeds the in-place one
  leaves the same table; where the verified one would panic, because the key is free or a timer's,
  the in-place one does nothing.
\<close>

theorem resource_accessors_agree:
  "take_timer_waker k rs = v_take_timer_waker k rs \<and> get_read_waker k rs = v_get_read_waker k rs \<and>
   get_write_waker k rs = v_get_write_waker k rs \<and>
   slab_view (set_read_waker k w rs) = slab_view (case v_set_read_waker k w rs of Some rs' \<Rightarrow> rs' | None \<Rightarrow> rs) \<and>
   slab_view (set_write_waker k w rs) = slab_view (case v_set_write_waker k w rs of Some rs' \<Rightarrow> rs' | None \<Rightarrow> rs)"
proof (cases rule: slab_get_mut_cases [of k rs])
  case none
  then have "v_set_read_waker k w rs = None" "v_set_write_waker k w rs = None"
    by (cases "v_set_read_waker k w rs"; cases "v_set_write_waker k w rs"; fastforce dest: set_waker_ops)+
  then show ?thesis
    using none by (simp add: take_timer_waker_def get_read_waker_def get_write_waker_def set_read_waker_def
        set_write_waker_def waker_lookups derive_defs slab_get_view)
next
  case (some v wr)
  then show ?thesis
  proof (cases v)
    case (Timer e t)
    then have "v_set_read_waker k w rs = None" "v_set_write_waker k w rs = None"
      using some(2)
      by (cases "v_set_read_waker k w rs"; cases "v_set_write_waker k w rs"; fastforce dest: set_waker_ops)+
    then show ?thesis
      using some Timer by (simp add: take_timer_waker_def get_read_waker_def get_write_waker_def set_read_waker_def
          set_write_waker_def waker_lookups derive_defs slab_get_view)
  next
    case (Io rw ww)
    note v = some(2) [unfolded Io]
    obtain r1 r2 where "v_set_read_waker k w rs = Some r1" "v_set_write_waker k w rs = Some r2"
      using set_waker_some [OF v] by blast
    then show ?thesis
      using set_waker_ops(1) [of k w rs r1] set_waker_ops(2) [of k w rs r2] some Io
      by (auto simp: take_timer_waker_def get_read_waker_def get_write_waker_def set_read_waker_def
          set_write_waker_def waker_lookups derive_defs slab_get_view split: option.splits)
  qed
qed

end
