(* ===== verification/Reactor.thy ===== *)
theory Reactor
  imports Timer_Queue Resource_Slab
begin

text \<open>
  The reactor: model of \<^verbatim>\<open>lion-reactor/src/reactor/\<close> (\<open>mod.rs\<close>, \<open>new.rs\<close>, \<open>enter.rs\<close>, \<open>ext.rs\<close>,
  \<open>timer.rs\<close>, \<open>register.rs\<close>, \<open>waker.rs\<close>, \<open>park.rs\<close>), of \<^verbatim>\<open>alloc_verified.rs\<close> and of the handle layer
  \<^verbatim>\<open>handle.rs\<close>, with the log of \<^verbatim>\<open>lion-reactor-spec/src/events.rs\<close>.  The operating system is the
  record \<open>os\<close>: what a call of \<open>mio\<close> and of the clock returns.  A call of a waker is the \<open>WakeTask\<close>
  event it logs.
\<close>

section \<open>Events\<close>

datatype 'w reactor_inbound =
  RegisterIoResource int interest "u64 io_result option"
| DeregisterIoResource u64 "unit io_result option"
| SetWaker u64 interest 'w "unit io_result option"
| RegisterTimer instant 'w "u64 io_result option"
| DeregisterTimer u64 bool
| ReactorPark "duration option" "unit io_result option"

datatype 'w reactor_outbound =
  OsRegisterIoResource int u64 interest "unit io_result"
| OsDeregisterIoResource int u64 "unit io_result"
| PollEvents "duration option" "nat io_result"
| IoEventReady io_event
| GetCurrentTime instant
| WakeTask 'w u64

datatype 'w reactor_event = RInbound "'w reactor_inbound" | ROutbound "'w reactor_outbound"

section \<open>State\<close>

record 'w reactor_state =
  next_resource_id :: u64
  wheel :: timer_wheel
  resources :: "'w resource_slab"
  rlog :: "'w reactor_event list"
  free_rids :: "u64 list"
  pending_deregister :: "(u64 \<times> u64) option"

text \<open>With the thread-local cells of the handle layer.\<close>

record 'w reactor_thread = "'w reactor_state" +
  entered :: bool
  cached_now :: "instant option"
  io_readiness :: readiness

text \<open>What the operating system answers to the calls of one operation.\<close>

record os =
  os_register :: "int \<Rightarrow> nat \<Rightarrow> bool \<times> bool \<Rightarrow> unit io_result"
  os_deregister :: "int \<Rightarrow> unit io_result"
  os_poll :: "duration option \<Rightarrow> mio_event list io_result"
  os_now :: instant

definition reactor_new :: "'w reactor_thread" where
  "reactor_new =
     \<lparr>next_resource_id = 1, wheel = wheel_new, resources = resource_slab_new, rlog = [], free_rids = [],
      pending_deregister = None, entered = False, cached_now = None, io_readiness = []\<rparr>"

definition reactor_enter :: "'w reactor_thread \<Rightarrow> 'w reactor_thread" where
  "reactor_enter r = r\<lparr>entered := True\<rparr>"

definition reactor_guard_drop :: "'w reactor_thread \<Rightarrow> 'w reactor_thread" where
  "reactor_guard_drop r = r\<lparr>entered := False\<rparr>"

section \<open>Actions (ext.rs)\<close>

definition log_in :: "'w reactor_inbound \<Rightarrow> 'w reactor_thread \<Rightarrow> 'w reactor_thread" where
  "log_in e r = r\<lparr>rlog := rlog r @ [RInbound e]\<rparr>"

definition log_out :: "'w reactor_outbound \<Rightarrow> 'w reactor_thread \<Rightarrow> 'w reactor_thread" where
  "log_out e r = r\<lparr>rlog := rlog r @ [ROutbound e]\<rparr>"

definition register_io_source_action ::
  "os \<Rightarrow> int \<Rightarrow> u64 \<Rightarrow> interest \<Rightarrow> 'w reactor_thread \<Rightarrow> unit io_result \<times> 'w reactor_thread" where
  "register_io_source_action S source rid interest r =
     (let result = os_register S source (encode_token_raw rid) (interest_to_mio interest)
      in (result, log_out (OsRegisterIoResource source rid interest result) r))"

definition deregister_io_source_action ::
  "os \<Rightarrow> int \<Rightarrow> u64 \<Rightarrow> 'w reactor_thread \<Rightarrow> unit io_result \<times> 'w reactor_thread" where
  "deregister_io_source_action S source rid r =
     (let result = os_deregister S source
      in (result, log_out (OsDeregisterIoResource source rid result) r))"

definition poll_events_action ::
  "os \<Rightarrow> duration option \<Rightarrow> 'w reactor_thread \<Rightarrow> io_event list io_result \<times> 'w reactor_thread" where
  "poll_events_action S timeout r =
     (case os_poll S timeout of
        IoOk mio_events \<Rightarrow>
          (let events = collect_io_events mio_events
           in (IoOk events, log_out (PollEvents timeout (IoOk (length events))) r))
      | IoErr e \<Rightarrow> (IoErr e, log_out (PollEvents timeout (IoErr e)) r))"

definition io_event_ready_action :: "io_event \<Rightarrow> 'w reactor_thread \<Rightarrow> 'w reactor_thread" where
  "io_event_ready_action event r = log_out (IoEventReady event) r"

definition get_current_time_action :: "os \<Rightarrow> 'w reactor_thread \<Rightarrow> instant \<times> 'w reactor_thread" where
  "get_current_time_action S r =
     (let raw = os_now S;
          now = (if raw \<ge> elapsed (wheel r) then raw else elapsed (wheel r));
          r1 = r\<lparr>cached_now := Some now\<rparr>
      in (now, log_out (GetCurrentTime now) r1))"

definition wake_task_action :: "'w \<Rightarrow> u64 \<Rightarrow> 'w reactor_thread \<Rightarrow> 'w reactor_thread" where
  "wake_task_action waker source_rid r = log_out (WakeTask waker source_rid) r"

section \<open>Resource ids, timers\<close>

definition alloc_resource_id :: "'w reactor_thread \<Rightarrow> u64 io_result \<times> 'w reactor_thread" where
  "alloc_resource_id r =
     (if next_resource_id r \<ge> u64_max then (IoErr resource_id_overflow, r)
      else (let id = next_resource_id r
            in (IoOk id, r\<lparr>next_resource_id := next_resource_id r + 1\<rparr>)))"

definition register_timer ::
  "instant \<Rightarrow> 'w \<Rightarrow> 'w reactor_thread \<Rightarrow> u64 io_result \<times> 'w reactor_thread" where
  "register_timer deadline waker r =
     (let r1 = log_in (RegisterTimer deadline waker None) r;
          (alloc_result, r2) = alloc_resource_id r1;
          (result, r3) =
            (case alloc_result of
               IoOk rid \<Rightarrow>
                 (let entry = TimerEntry deadline rid
                  in (IoOk rid,
                      r2\<lparr>resources := v_insert_timer_slot rid entry waker (resources r2),
                         wheel := wheel_insert rid deadline (wheel r2)\<rparr>))
             | IoErr e \<Rightarrow> (IoErr e, r2))
      in (result, log_in (RegisterTimer deadline waker (Some result)) r3))"

definition deregister_timer :: "u64 \<Rightarrow> 'w reactor_thread \<Rightarrow> 'w reactor_thread" where
  "deregister_timer rid r =
     (let r1 = log_in (DeregisterTimer rid True) r
      in r1\<lparr>wheel := wheel_remove rid (wheel r1), resources := v_remove_timer_slot rid (resources r1)\<rparr>)"

definition reactor_next_deadline :: "'w reactor_thread \<Rightarrow> instant option" where
  "reactor_next_deadline r = next_deadline (wheel r)"

definition flush_pending_deregister :: "'w reactor_thread \<Rightarrow> 'w reactor_thread" where
  "flush_pending_deregister r =
     (case pending_deregister r of
        Some (rid, _) \<Rightarrow>
          r\<lparr>pending_deregister := None, wheel := wheel_remove rid (wheel r),
            resources := v_remove_timer_slot rid (resources r)\<rparr>
      | None \<Rightarrow> r)"

section \<open>I/O resources\<close>

definition register_io_resource ::
  "os \<Rightarrow> int \<Rightarrow> interest \<Rightarrow> 'w reactor_thread \<Rightarrow> u64 io_result \<times> 'w reactor_thread" where
  "register_io_resource S source interest r =
     (let r1 = log_in (RegisterIoResource source interest None) r;
          (alloc_result, r2) = alloc_resource_id r1;
          (result, r3) =
            (case alloc_result of
               IoOk rid \<Rightarrow>
                 (let (os_result, r2') = register_io_source_action S source rid interest r2
                  in case os_result of
                       IoOk _ \<Rightarrow> (IoOk rid, r2'\<lparr>resources := v_insert_io_slot rid (resources r2')\<rparr>)
                     | IoErr e \<Rightarrow> (IoErr e, r2'))
             | IoErr e \<Rightarrow> (IoErr e, r2))
      in (result, log_in (RegisterIoResource source interest (Some result)) r3))"

definition deregister_io_resource ::
  "os \<Rightarrow> u64 \<Rightarrow> int \<Rightarrow> 'w reactor_thread \<Rightarrow> unit io_result \<times> 'w reactor_thread" where
  "deregister_io_resource S rid source r =
     (let r1 = log_in (DeregisterIoResource rid None) r;
          r2 = r1\<lparr>resources := v_remove_io_slot rid (resources r1)\<rparr>;
          (result, r3) = deregister_io_source_action S source rid r2
      in (result, log_in (DeregisterIoResource rid (Some result)) r3))"

text \<open>\<open>None\<close> is the panic of \<open>unwrap\<close> or \<open>unreachable!\<close> when \<open>rid\<close> is not an I/O resource.\<close>

definition set_waker :: "u64 \<Rightarrow> interest \<Rightarrow> 'w \<Rightarrow> 'w reactor_thread \<Rightarrow> 'w reactor_thread option" where
  "set_waker rid interest waker r =
     (let r1 = log_in (SetWaker rid interest waker None) r
      in case (if readable interest then v_set_read_waker rid waker (resources r1) else Some (resources r1)) of
           None \<Rightarrow> None
         | Some rs1 \<Rightarrow>
             (case (if writable interest then v_set_write_waker rid waker rs1 else Some rs1) of
                None \<Rightarrow> None
              | Some rs2 \<Rightarrow>
                  Some (log_in (SetWaker rid interest waker (Some (IoOk ()))) (r1\<lparr>resources := rs2\<rparr>))))"

section \<open>Park\<close>

definition try_pop_expired_timer :: "instant \<Rightarrow> 'w reactor_thread \<Rightarrow> u64 option \<times> 'w reactor_thread" where
  "try_pop_expired_timer now r =
     (let (res, w) = try_pop_expired now (wheel r) in (res, r\<lparr>wheel := w\<rparr>))"

text \<open>Every pop takes a timer out of the wheel, whatever its state, so the loop below ends.\<close>

lemma deadlines_drain_entries [simp]: "deadlines (drain_entries now rids w) = deadlines w"
proof (induction rids arbitrary: w)
  case (Cons rid rest)
  have "deadlines (drain_entry now rid w) = deadlines w"
    by (simp add: drain_entry_def wheel_insert_inner_def slot_push_def set_cell_def Let_def split: prod.splits)
  then show ?case using Cons by simp
qed simp

lemma deadlines_drain_slots [simp]: "deadlines (drain_slots now l old n i w) = deadlines w"
proof (induction now l old n i w rule: drain_slots.induct)
  case (1 now l old n i w)
  have "deadlines (drain_slot now l s w) = deadlines w" for s
    by (simp add: drain_slot_def slot_drain_def set_cell_def Let_def)
  then show ?case using 1 by (subst drain_slots.simps) simp
qed

lemma deadlines_advance_levels [simp]: "deadlines (advance_levels now e l w) = deadlines w"
proof (induction now e l w rule: advance_levels.induct)
  case (1 now e l w)
  show ?case by (subst advance_levels.simps) (use 1 in \<open>simp add: Let_def\<close>)
qed

lemma pop_pending_view:
  "pop_pending now w = (res, w') \<Longrightarrow>
     (case res of Some r \<Rightarrow> wheel_view w r \<noteq> None \<and> wheel_view w' = (wheel_view w)(r := None)
      | None \<Rightarrow> wheel_view w' = wheel_view w)"
proof (induction now w rule: pop_pending.induct)
  case (1 now w)
  have i: "deadlines (invalidate_min d v) = deadlines v" for d v by simp
  show ?case
  proof (cases "pending w = []")
    case True
    then show ?thesis using 1(3) by (subst (asm) pop_pending.simps) auto
  next
    case False
    let ?w1 = "w\<lparr>pending := butlast (pending w)\<rparr>"
    have v1: "wheel_view ?w1 = wheel_view w" by (simp add: wheel_view_def)
    show ?thesis
    proof (cases "vm_contains_key (last (pending w)) (deadlines w) \<and>
        the (deadline_of w (last (pending w))) \<le> now")
      case True
      then show ?thesis
        using 1(3) False i
        by (subst (asm) pop_pending.simps)
          (auto simp: Let_def vm_contains_key_get vm_get_view wheel_view_def vm_view_remove)
    next
      case no: False
      then have "pop_pending now ?w1 = (res, w')"
        using 1(3) False by (subst (asm) pop_pending.simps) (auto simp: Let_def split: if_splits)
      then show ?thesis
        by (cases "vm_contains_key (last (pending w)) (deadlines w)")
          (use 1(1) [of "last (pending w)" ?w1 "the (deadline_of w (last (pending w)))"]
          1(2) [of "last (pending w)" ?w1] False no v1 in \<open>auto split: option.splits\<close>)
    qed
  qed
qed

lemma try_pop_expired_view:
  assumes "try_pop_expired now w = (Some r, w')"
  shows "wheel_view w r \<noteq> None" "wheel_view w' = (wheel_view w)(r := None)"
proof -
  obtain res w1 where p1: "pop_pending now w = (res, w1)" by fastforce
  have a: "wheel_view (if elapsed w1 < now then advance_to now w1 else w1) = wheel_view w1"
    by (simp add: wheel_view_def advance_to_def)
  have "wheel_view w r \<noteq> None \<and> wheel_view w' = (wheel_view w)(r := None)"
  proof (cases res)
    case None
    then have "pop_pending now (if elapsed w1 < now then advance_to now w1 else w1) = (Some r, w')"
      using assms p1 by (simp add: try_pop_expired_def Let_def)
    from pop_pending_view [OF this] pop_pending_view [OF p1] None a show ?thesis by simp
  next
    case (Some x)
    then show ?thesis using assms p1 pop_pending_view [OF p1] by (simp add: try_pop_expired_def)
  qed
  then show "wheel_view w r \<noteq> None" "wheel_view w' = (wheel_view w)(r := None)" by simp_all
qed

lemma try_pop_expired_timer_less:
  assumes "try_pop_expired_timer now r = (Some rid, r1)"
  shows "card (dom (wheel_view (wheel r1))) < card (dom (wheel_view (wheel r)))"
proof -
  obtain w where "try_pop_expired now (wheel r) = (Some rid, w)" "wheel r1 = w"
    using assms by (cases "try_pop_expired now (wheel r)") (auto simp: try_pop_expired_timer_def)
  note v = try_pop_expired_view [OF this(1)] this(2)
  have "card (dom (wheel_view (wheel r)) - {rid}) < card (dom (wheel_view (wheel r)))"
    by (rule card_Diff1_less) (use v(1) in \<open>auto simp: domIff\<close>)
  then show ?thesis using v by simp
qed

function wake_expired_timers :: "instant \<Rightarrow> 'w reactor_thread \<Rightarrow> 'w reactor_thread" where
  "wake_expired_timers now r =
     (case try_pop_expired_timer now r of
        (None, r1) \<Rightarrow> r1
      | (Some rid, r1) \<Rightarrow>
          (case v_take_timer_waker rid (resources r1) of
             Some waker \<Rightarrow>
               (let r2 = wake_task_action waker rid r1
                in wake_expired_timers now
                     (r2\<lparr>resources := v_remove_timer_slot rid (resources r2)\<rparr>))
           | None \<Rightarrow> wake_expired_timers now r1))"
  by pat_completeness auto
termination
  by (relation "measure (\<lambda>(now, r). card (dom (wheel_view (wheel r))))")
    (auto simp: wake_task_action_def log_out_def dest!: sym [of "(_, _)"] try_pop_expired_timer_less)

declare wake_expired_timers.simps [simp del]

fun process_io_events :: "io_event list \<Rightarrow> 'w reactor_thread \<Rightarrow> 'w reactor_thread" where
  "process_io_events [] r = r"
| "process_io_events (event # io_events) r =
     (let r1 = io_event_ready_action event r;
          rid = ev_rid event
      in process_io_events io_events
           (case ev_mode event of
              IoReadable \<Rightarrow>
                (let r2 = r1\<lparr>io_readiness := mark_readable rid (io_readiness r1)\<rparr>
                 in case v_get_read_waker rid (resources r2) of
                      Some waker \<Rightarrow> wake_task_action waker rid r2
                    | None \<Rightarrow> r2)
            | IoWritable \<Rightarrow>
                (let r2 = r1\<lparr>io_readiness := mark_writable rid (io_readiness r1)\<rparr>
                 in case v_get_write_waker rid (resources r2) of
                      Some waker \<Rightarrow> wake_task_action waker rid r2
                    | None \<Rightarrow> r2)))"

definition effective_timeout :: "duration option \<Rightarrow> instant option \<Rightarrow> instant \<Rightarrow> duration option" where
  "effective_timeout timeout next_dl now =
     (case (timeout, next_dl) of
        (Some t, Some deadline) \<Rightarrow>
          if deadline \<le> now then Some 0
          else (let timer_ms = deadline - now in if timer_ms < t then Some timer_ms else Some t)
      | (None, Some deadline) \<Rightarrow>
          if deadline \<le> now then Some 0 else Some (deadline - now)
      | (t, None) \<Rightarrow> t)"

definition reactor_park :: "os \<Rightarrow> duration option \<Rightarrow> 'w reactor_thread \<Rightarrow> unit io_result \<times> 'w reactor_thread" where
  "reactor_park S timeout r =
     (let r1 = log_in (ReactorPark timeout None) r;
          (now, r2) = get_current_time_action S r1;
          eff = effective_timeout timeout (reactor_next_deadline r2) now;
          (poll_result, r3) = poll_events_action S eff r2
      in case poll_result of
           IoErr e \<Rightarrow>
             (let r4 = wake_expired_timers now r3;
                  result = IoErr e
              in (result, log_in (ReactorPark timeout (Some result)) r4))
         | IoOk io_events \<Rightarrow>
             (let r4 = wake_expired_timers now r3;
                  r5 = process_io_events io_events r4;
                  result = IoOk ()
              in (result, log_in (ReactorPark timeout (Some result)) r5)))"

section \<open>The handle layer (handle.rs)\<close>

text \<open>
  A deregistration is deferred: the timer stays in the wheel until the next call, so that a
  registration with the same deadline can take it over.  \<open>None\<close> is the panic of a call outside a
  reactor context.
\<close>

definition with_current_reactor :: "('w reactor_thread \<Rightarrow> 'a) \<Rightarrow> 'w reactor_thread \<Rightarrow> 'a option" where
  "with_current_reactor f r = (if entered r then Some (f r) else None)"

definition handle_register_timer ::
  "instant \<Rightarrow> 'w \<Rightarrow> 'w reactor_thread \<Rightarrow> (u64 io_result \<times> 'w reactor_thread) option" where
  "handle_register_timer deadline waker =
     with_current_reactor (\<lambda>r.
       case pending_deregister r of
         Some (rid, old_deadline) \<Rightarrow>
           (let r1 = r\<lparr>pending_deregister := None\<rparr>
            in if old_deadline = deadline \<and> resource_contains rid (resources r1)
               then (IoOk rid, r1\<lparr>resources := snd (replace_timer_waker rid waker (resources r1))\<rparr>)
               else register_timer deadline waker
                      (r1\<lparr>wheel := wheel_remove rid (wheel r1),
                          resources := v_remove_timer_slot rid (resources r1)\<rparr>))
       | None \<Rightarrow> register_timer deadline waker r)"

definition handle_deregister_timer :: "u64 \<Rightarrow> 'w reactor_thread \<Rightarrow> 'w reactor_thread option" where
  "handle_deregister_timer rid =
     with_current_reactor (\<lambda>r.
       let r1 = (case pending_deregister r of
                   Some (old_rid, _) \<Rightarrow>
                     r\<lparr>pending_deregister := None, wheel := wheel_remove old_rid (wheel r),
                       resources := v_remove_timer_slot old_rid (resources r)\<rparr>
                 | None \<Rightarrow> r)
       in case get_deadline rid (wheel r1) of
            Some deadline \<Rightarrow> r1\<lparr>pending_deregister := Some (rid, deadline)\<rparr>
          | None \<Rightarrow> deregister_timer rid r1)"

definition handle_register_io_resource ::
  "os \<Rightarrow> int \<Rightarrow> interest \<Rightarrow> 'w reactor_thread \<Rightarrow> (u64 io_result \<times> 'w reactor_thread) option" where
  "handle_register_io_resource S source interest = with_current_reactor (register_io_resource S source interest)"

definition handle_deregister_io_resource ::
  "os \<Rightarrow> u64 \<Rightarrow> int \<Rightarrow> 'w reactor_thread \<Rightarrow> (unit io_result \<times> 'w reactor_thread) option" where
  "handle_deregister_io_resource S rid source = with_current_reactor (deregister_io_resource S rid source)"

definition handle_set_waker :: "u64 \<Rightarrow> interest \<Rightarrow> 'w \<Rightarrow> 'w reactor_thread \<Rightarrow> 'w reactor_thread option" where
  "handle_set_waker rid interest waker r =
     (case with_current_reactor (set_waker rid interest waker) r of
        Some (Some r') \<Rightarrow> Some r'
      | _ \<Rightarrow> None)"

text \<open>What the executor's park does with the reactor (\<^verbatim>\<open>lion-executor/src/executor/ext.rs\<close>, \<open>park_action\<close>).\<close>

definition flush_and_park :: "os \<Rightarrow> duration \<Rightarrow> 'w reactor_thread \<Rightarrow> 'w reactor_thread" where
  "flush_and_park S timeout r = snd (reactor_park S (Some timeout) (flush_pending_deregister r))"

end
