(* ===== verification/Reactor_Inv.thy ===== *)
theory Reactor_Inv
  imports Reactor
begin

text \<open>
  The data invariant of the reactor and what every operation does to the table of resources and
  to the timer wheel.  The predicates \<open>timer_impl_inv\<close>, \<open>slab_alloc_inv\<close> and
  \<open>wheel_slab_consistent\<close> are those of \<^verbatim>\<open>lion-reactor/src/spec/predicates.rs\<close>; \<open>reactor_ok\<close> adds
  what the source requires of the wheel and what it says about the cached clock and the deferred
  deregistration.
\<close>

section \<open>The predicates of the source\<close>

definition timer_impl_inv :: "(nat \<Rightarrow> timer_entry option) \<Rightarrow> nat \<Rightarrow> bool" where
  "timer_impl_inv by_rid next_rid \<longleftrightarrow>
     (\<forall>r e. by_rid r = Some e \<longrightarrow> unat (te_rid e) = r \<and> 1 \<le> r \<and> r < next_rid)"

definition slab_alloc_inv :: "(nat \<Rightarrow> 'w resource_slot option) \<Rightarrow> nat \<Rightarrow> bool" where
  "slab_alloc_inv m next_rid \<longleftrightarrow> (\<forall>k. m k \<noteq> None \<longrightarrow> 1 \<le> k \<and> k < next_rid)"

definition wheel_slab_consistent :: "(u64 \<Rightarrow> u64 option) \<Rightarrow> (nat \<Rightarrow> timer_entry option) \<Rightarrow> bool" where
  "wheel_slab_consistent wv tm \<longleftrightarrow>
     (\<forall>rid. (\<exists>k. unat k = rid \<and> wv k \<noteq> None) \<longleftrightarrow> tm rid \<noteq> None) \<and>
     (\<forall>k. wv k \<noteq> None \<longrightarrow> wv k = map_option te_deadline (tm (unat k)))"

definition reactor_ok :: "'w reactor_thread \<Rightarrow> bool" where
  "reactor_ok r \<longleftrightarrow>
     full_wf (wheel r) \<and> pending (wheel r) = [] \<and> (\<forall>k d. wheel_view (wheel r) k = Some d \<longrightarrow> elapsed (wheel r) < d) \<and>
     1 \<le> next_resource_id r \<and>
     timer_impl_inv (timer_map_view (resources r)) (unat (next_resource_id r)) \<and>
     slab_alloc_inv (slab_view (resources r)) (unat (next_resource_id r)) \<and>
     wheel_slab_consistent (wheel_view (wheel r)) (timer_map_view (resources r)) \<and>
     (\<forall>t. cached_now r = Some t \<longrightarrow> t = elapsed (wheel r)) \<and>
     (\<forall>rid d. pending_deregister r = Some (rid, d) \<longrightarrow> wheel_view (wheel r) rid = Some d)"

section \<open>The same over 64-bit keys\<close>

abbreviation slot :: "'w reactor_thread \<Rightarrow> u64 \<Rightarrow> 'w resource_slot option" where
  "slot r k \<equiv> slab_get k (resources r)"

fun slot_deadline :: "'w resource_slot option \<Rightarrow> instant option" where
  "slot_deadline (Some (Timer e w)) = Some (te_deadline e)"
| "slot_deadline _ = None"

definition table_ok :: "u64 \<Rightarrow> (u64 \<Rightarrow> u64 option) \<Rightarrow> (u64 \<Rightarrow> 'w resource_slot option) \<Rightarrow> bool" where
  "table_ok n wv s \<longleftrightarrow>
     (\<forall>k e w. s k = Some (Timer e w) \<longrightarrow> te_rid e = k) \<and>
     (\<forall>k. s k \<noteq> None \<longrightarrow> 1 \<le> k \<and> k < n) \<and> (\<forall>k. wv k = slot_deadline (s k))"

lemma slab_alloc_inv_u64:
  fixes n :: u64
  assumes "slab_alloc_inv (slab_view rs) (unat n)"
  shows "slab_view rs i \<noteq> None \<Longrightarrow> \<exists>k. i = unat k \<and> slab_get k rs = slab_view rs i"
proof -
  assume "slab_view rs i \<noteq> None"
  then have "i < unat n" using assms by (simp add: slab_alloc_inv_def)
  moreover have "unat n < 2 ^ LENGTH(64)" by (rule unsigned_less)
  ultimately have "i < 2 ^ 64" by simp
  then have "unat (of_nat i :: u64) = i" by (simp add: unsigned_of_nat take_bit_nat_eq_self)
  then show ?thesis by (metis slab_get_view)
qed

lemma timer_map_view_slot: "timer_map_view rs (unat k) = (case slab_get k rs of Some (Timer e w) \<Rightarrow> Some e | _ \<Rightarrow> None)"
  by (simp add: derive_defs slab_get_view)

lemma timer_map_view_slab: "timer_map_view rs i \<noteq> None \<Longrightarrow> slab_view rs i \<noteq> None"
  by (auto simp: derive_defs split: option.splits)

lemma slab_alloc_bounds:
  fixes n :: u64
  assumes "slab_alloc_inv (slab_view rs) (unat n)" "slab_get k rs \<noteq> None"
  shows "1 \<le> k \<and> k < n"
proof -
  have "1 \<le> unat k \<and> unat k < unat n" using assms by (simp add: slab_alloc_inv_def slab_get_view)
  moreover have "1 \<le> k \<longleftrightarrow> 1 \<le> unat k" by (simp add: word_le_nat_alt)
  ultimately show ?thesis by (simp add: word_less_nat_alt)
qed

lemma timer_impl_iff:
  fixes n :: u64
  assumes "slab_alloc_inv (slab_view rs) (unat n)"
  shows "timer_impl_inv (timer_map_view rs) (unat n) \<longleftrightarrow>
    (\<forall>k e w. slab_get k rs = Some (Timer e w) \<longrightarrow> te_rid e = k)" (is "?l \<longleftrightarrow> ?r")
proof
  assume ?l
  show ?r
  proof (intro allI impI)
    fix k e w assume "slab_get k rs = Some (Timer e w)"
    then have "timer_map_view rs (unat k) = Some e" by (simp add: timer_map_view_slot)
    with \<open>?l\<close> have "unat (te_rid e) = unat k" by (auto simp: timer_impl_inv_def)
    then show "te_rid e = k" by (simp add: word_unat_eq_iff)
  qed
next
  assume r: ?r
  show ?l
    unfolding timer_impl_inv_def
  proof (intro allI impI)
    fix i e assume e: "timer_map_view rs i = Some e"
    then obtain k where k: "i = unat k" "slab_get k rs = slab_view rs i"
      using slab_alloc_inv_u64 [OF assms, of i] timer_map_view_slab by fastforce
    then obtain w where "slab_get k rs = Some (Timer e w)"
      using e by (auto simp: derive_defs split: option.splits resource_slot.splits)
    then show "unat (te_rid e) = i \<and> 1 \<le> i \<and> i < unat n"
      using r slab_alloc_bounds [OF assms, of k] k(1) assms by (auto simp: slab_alloc_inv_def slab_get_view)
  qed
qed

lemma wheel_consistent_iff:
  fixes n :: u64
  assumes "slab_alloc_inv (slab_view rs) (unat n)"
  shows "wheel_slab_consistent wv (timer_map_view rs) \<longleftrightarrow> (\<forall>k. wv k = slot_deadline (slab_get k rs))"
    (is "?l \<longleftrightarrow> ?r")
proof
  assume l: ?l
  show ?r
  proof
    fix k
    have "wv k \<noteq> None \<longleftrightarrow> timer_map_view rs (unat k) \<noteq> None"
      using l unfolding wheel_slab_consistent_def by (metis word_unat_eq_iff)
    moreover have "wv k \<noteq> None \<Longrightarrow> wv k = map_option te_deadline (timer_map_view rs (unat k))"
      using l unfolding wheel_slab_consistent_def by blast
    ultimately show "wv k = slot_deadline (slab_get k rs)"
      by (auto simp: timer_map_view_slot split: option.splits resource_slot.splits)
  qed
next
  assume r: ?r
  have dl: "slot_deadline (slab_get k rs) = map_option te_deadline (timer_map_view rs (unat k))" for k
    by (auto simp: timer_map_view_slot split: option.splits resource_slot.splits)
  have ex: "\<exists>k :: u64. unat k = i \<and> timer_map_view rs (unat k) \<noteq> None" if "timer_map_view rs i \<noteq> None" for i
    using slab_alloc_inv_u64 [OF assms] timer_map_view_slab [OF that] that by metis
  show ?l
    unfolding wheel_slab_consistent_def
  proof (intro conjI allI)
    show "(\<exists>k. unat k = i \<and> wv k \<noteq> None) \<longleftrightarrow> timer_map_view rs i \<noteq> None" for i
      using ex [of i] r dl by fastforce
    show "wv k \<noteq> None \<longrightarrow> wv k = map_option te_deadline (timer_map_view rs (unat k))" for k
      using r dl by simp
  qed
qed

lemma table_ok_iff:
  assumes "slab_alloc_inv (slab_view rs) (unat n)"
  shows "timer_impl_inv (timer_map_view rs) (unat n) \<and> wheel_slab_consistent wv (timer_map_view rs) \<longleftrightarrow>
    table_ok n wv (\<lambda>k. slab_get k rs)"
  using timer_impl_iff [OF assms] wheel_consistent_iff [OF assms, of wv] slab_alloc_bounds [OF assms]
  by (auto simp: table_ok_def)

lemma reactor_ok_iff:
  "reactor_ok r \<longleftrightarrow>
     full_wf (wheel r) \<and> pending (wheel r) = [] \<and> (\<forall>k d. wheel_view (wheel r) k = Some d \<longrightarrow> elapsed (wheel r) < d) \<and>
     1 \<le> next_resource_id r \<and> slab_alloc_inv (slab_view (resources r)) (unat (next_resource_id r)) \<and>
     table_ok (next_resource_id r) (wheel_view (wheel r)) (slot r) \<and>
     (\<forall>t. cached_now r = Some t \<longrightarrow> t = elapsed (wheel r)) \<and>
     (\<forall>rid d. pending_deregister r = Some (rid, d) \<longrightarrow> wheel_view (wheel r) rid = Some d)"
  using table_ok_iff [of "resources r" "next_resource_id r"] unfolding reactor_ok_def by blast

lemma reactor_ok_new: "reactor_ok reactor_new"
  by (simp add: reactor_ok_iff reactor_new_def slab_alloc_inv_def table_ok_def slab_get_view)
    (simp add: wheel_new_def)

section \<open>Updating the table\<close>

lemma slab_alloc_inv_upd:
  "slab_alloc_inv m n \<Longrightarrow> 1 \<le> k \<and> k < n \<Longrightarrow> slab_alloc_inv (m(k := x)) n"
  "slab_alloc_inv m n \<Longrightarrow> slab_alloc_inv (m(k := None)) n"
  "slab_alloc_inv m n \<Longrightarrow> n \<le> n' \<Longrightarrow> slab_alloc_inv m n'"
  by (auto simp: slab_alloc_inv_def)

lemma slot_ops [simp]:
  "slab_get j (v_insert_timer_slot k e w rs) = (if j = k then Some (Timer e w) else slab_get j rs)"
  "slab_get j (v_insert_io_slot k rs) = (if j = k then Some (Io None None) else slab_get j rs)"
  "slab_get j (v_remove_timer_slot k rs) = (if j = k then None else slab_get j rs)"
  "slab_get j (v_remove_io_slot k rs) = (if j = k then None else slab_get j rs)"
  by (simp_all add: slab_get_view word_unat_eq_iff)

lemma table_ok_upd:
  assumes "table_ok n wv s"
  shows "table_ok n (wv(k := None)) (s(k := None))"
    and "1 \<le> k \<Longrightarrow> k < n \<Longrightarrow> table_ok n (wv(k \<mapsto> d)) (s(k \<mapsto> Timer (TimerEntry d k) w))"
    and "1 \<le> k \<Longrightarrow> k < n \<Longrightarrow> wv k = None \<Longrightarrow> table_ok n wv (s(k \<mapsto> Io rw ww))"
    and "n \<le> n' \<Longrightarrow> table_ok n' wv s"
  using assms by (auto simp: table_ok_def)

end
