(* ===== verification/Reactor_Ops.thy ===== *)
theory Reactor_Ops
  imports Reactor_Inv
begin

text \<open>
  The abstract reactor and the operations: a reactor stands for a map of timers (deadline and
  waker by resource id) and a map of I/O sources (the wakers of the two directions).  A timer whose
  deregistration is deferred is not in the map.  Every operation is shown to keep the data
  invariant and to change the two maps as its interface says.
\<close>

section \<open>Abstraction\<close>

definition timers :: "'w reactor_thread \<Rightarrow> u64 \<Rightarrow> (instant \<times> 'w) option" where
  "timers r k =
     (if map_option fst (pending_deregister r) = Some k then None
      else (case slot r k of Some (Timer e w) \<Rightarrow> Some (te_deadline e, w) | _ \<Rightarrow> None))"

definition sources :: "'w reactor_thread \<Rightarrow> u64 \<Rightarrow> ('w option \<times> 'w option) option" where
  "sources r k = (case slot r k of Some (Io rw ww) \<Rightarrow> Some (rw, ww) | _ \<Rightarrow> None)"

fun wakes_of :: "'w reactor_event list \<Rightarrow> ('w \<times> u64) list" where
  "wakes_of [] = []"
| "wakes_of (ROutbound (WakeTask w k) # es) = (w, k) # wakes_of es"
| "wakes_of (_ # es) = wakes_of es"

lemma wakes_of_append [simp]: "wakes_of (a @ b) = wakes_of a @ wakes_of b"
  by (induction a rule: wakes_of.induct) simp_all

section \<open>Frame\<close>

lemma log_frame [simp]:
  "wheel (log_in e r) = wheel r" "resources (log_in e r) = resources r"
  "next_resource_id (log_in e r) = next_resource_id r" "pending_deregister (log_in e r) = pending_deregister r"
  "cached_now (log_in e r) = cached_now r" "entered (log_in e r) = entered r" "io_readiness (log_in e r) = io_readiness r"
  "rlog (log_in e r) = rlog r @ [RInbound e]"
  "wheel (log_out f r) = wheel r" "resources (log_out f r) = resources r"
  "next_resource_id (log_out f r) = next_resource_id r" "pending_deregister (log_out f r) = pending_deregister r"
  "cached_now (log_out f r) = cached_now r" "entered (log_out f r) = entered r"
  "free_rids (log_in e r) = free_rids r" "free_rids (log_out f r) = free_rids r"
  "io_readiness (log_out f r) = io_readiness r" "rlog (log_out f r) = rlog r @ [ROutbound f]"
  by (simp_all add: log_in_def log_out_def)

lemma reactor_ok_cong:
  assumes "wheel r' = wheel r" "resources r' = resources r" "next_resource_id r' = next_resource_id r"
    "pending_deregister r' = pending_deregister r" "cached_now r' = cached_now r"
  shows "reactor_ok r' = reactor_ok r" "timers r' = timers r" "sources r' = sources r"
  using assms by (auto simp: reactor_ok_def timers_def sources_def fun_eq_iff)

lemma reactor_ok_log [simp]:
  "reactor_ok (log_in e r) = reactor_ok r" "timers (log_in e r) = timers r" "sources (log_in e r) = sources r"
  "reactor_ok (log_out f r) = reactor_ok r" "timers (log_out f r) = timers r" "sources (log_out f r) = sources r"
  by (rule reactor_ok_cong; simp)+

section \<open>Timers\<close>

definition drop_timer :: "u64 \<Rightarrow> 'w reactor_thread \<Rightarrow> 'w reactor_thread" where
  "drop_timer rid r =
     r\<lparr>wheel := wheel_remove rid (wheel r), resources := v_remove_timer_slot rid (resources r)\<rparr>"

lemma drop_timer_ok:
  assumes ok: "reactor_ok r" and pd: "map_option fst (pending_deregister r) \<noteq> Some rid"
  shows "reactor_ok (drop_timer rid r)"
    and "timers (drop_timer rid r) = (timers r)(rid := None)"
    and "sources (drop_timer rid r) = (sources r)(rid := None)"
proof -
  note ok' = ok [unfolded reactor_ok_iff]
  have w: "full_wf (wheel_remove rid (wheel r))" "pending (wheel_remove rid (wheel r)) = []"
    "elapsed (wheel_remove rid (wheel r)) = elapsed (wheel r)"
    "wheel_view (wheel_remove rid (wheel r)) = (wheel_view (wheel r))(rid := None)"
    using tw.remove_ok [of "wheel r" rid] ok' by simp_all
  have s: "slot (drop_timer rid r) = (slot r)(rid := None)" by (auto simp: drop_timer_def)
  have "table_ok (next_resource_id r) ((wheel_view (wheel r))(rid := None)) ((slot r)(rid := None))"
    using table_ok_upd(1) [of _ _ "slot r" rid] ok' by blast
  then show "reactor_ok (drop_timer rid r)"
    using ok' w s pd unfolding reactor_ok_iff s by (auto simp: drop_timer_def slab_alloc_inv_upd)
  show "timers (drop_timer rid r) = (timers r)(rid := None)"
    "sources (drop_timer rid r) = (sources r)(rid := None)"
    by (auto simp: timers_def sources_def drop_timer_def fun_eq_iff)
qed

lemma alloc_resource_id_cases:
  obtains (ok) "next_resource_id r < u64_max"
      "alloc_resource_id r = (IoOk (next_resource_id r), r\<lparr>next_resource_id := next_resource_id r + 1\<rparr>)"
      "unat (next_resource_id r + 1) = unat (next_resource_id r) + 1"
  | (full) "next_resource_id r = u64_max" "alloc_resource_id r = (IoErr resource_id_overflow, r)"
proof (cases "next_resource_id r \<ge> u64_max")
  case True
  then have "next_resource_id r = u64_max" by (simp add: word_order.extremum_unique)
  then show ?thesis using full by (simp add: alloc_resource_id_def)
next
  case False
  then have "unat (next_resource_id r) < 2 ^ 64 - 1"
    by (simp add: not_le word_less_nat_alt unat_u64_max)
  then have "unat (next_resource_id r + 1) = unat (next_resource_id r) + 1"
    by (simp add: unat_word_ariths)
  then show ?thesis using False ok by (simp add: alloc_resource_id_def not_le)
qed

lemma new_slot_free:
  assumes "reactor_ok r"
  shows "slot r (next_resource_id r) = None" "wheel_view (wheel r) (next_resource_id r) = None"
    "timers r (next_resource_id r) = None" "sources r (next_resource_id r) = None"
proof -
  have t: "table_ok (next_resource_id r) (wheel_view (wheel r)) (slot r)"
    using assms by (simp add: reactor_ok_iff)
  then have "slot r (next_resource_id r) \<noteq> None \<Longrightarrow> next_resource_id r < next_resource_id r"
    unfolding table_ok_def by blast
  then show s: "slot r (next_resource_id r) = None" by fastforce
  show "wheel_view (wheel r) (next_resource_id r) = None"
    using t s by (simp add: table_ok_def)
  show "timers r (next_resource_id r) = None" "sources r (next_resource_id r) = None"
    by (simp_all add: timers_def sources_def s)
qed

lemma pending_timer:
  assumes "reactor_ok r" "pending_deregister r = Some (rid, d)"
  shows "\<exists>w. slot r rid = Some (Timer (TimerEntry d rid) w)" "rid < next_resource_id r"
proof -
  have t: "table_ok (next_resource_id r) (wheel_view (wheel r)) (slot r)" "wheel_view (wheel r) rid = Some d"
    using assms by (simp_all add: reactor_ok_iff)
  then have "slot_deadline (slot r rid) = Some d" by (simp add: table_ok_def)
  then obtain e w where e: "slot r rid = Some (Timer e w)" "te_deadline e = d"
    by (cases "slot r rid" rule: slot_deadline.cases) auto
  moreover have "te_rid e = rid" "rid < next_resource_id r" using t(1) e(1) by (auto simp: table_ok_def)
  ultimately show "\<exists>w. slot r rid = Some (Timer (TimerEntry d rid) w)" "rid < next_resource_id r"
    by (metis timer_entry.collapse)+
qed

lemma insert_timer_ok:
  assumes ok: "reactor_ok r" and d: "elapsed (wheel r) < d" and n: "next_resource_id r < u64_max"
    and n': "unat (next_resource_id r + 1) = unat (next_resource_id r) + 1"
    and r': "r' = r\<lparr>next_resource_id := next_resource_id r + 1,
        resources := v_insert_timer_slot (next_resource_id r) (TimerEntry d (next_resource_id r)) w (resources r),
        wheel := wheel_insert (next_resource_id r) d (wheel r)\<rparr>"
  shows "reactor_ok r'" "sources r' = sources r" "timers r' = (timers r)(next_resource_id r \<mapsto> (d, w))"
proof -
  let ?n = "next_resource_id r"
  note ok' = ok [unfolded reactor_ok_iff]
  have wh: "full_wf (wheel_insert ?n d (wheel r))" "pending (wheel_insert ?n d (wheel r)) = []"
    "elapsed (wheel_insert ?n d (wheel r)) = elapsed (wheel r)"
    "wheel_view (wheel_insert ?n d (wheel r)) = (wheel_view (wheel r))(?n \<mapsto> d)"
    using tw.insert_ok [of "wheel r" d ?n] ok' d by simp_all
  have lt: "?n < ?n + 1" "1 \<le> ?n + 1" using n' by (simp_all add: word_less_nat_alt word_le_nat_alt)
  have s: "slot r' = (slot r)(?n \<mapsto> Timer (TimerEntry d ?n) w)" by (auto simp: r')
  have grown: "table_ok (?n + 1) (wheel_view (wheel r)) (slot r)" "slab_alloc_inv (slab_view (resources r)) (unat (?n + 1))"
    using table_ok_upd(4) [of ?n _ "slot r" "?n + 1"] slab_alloc_inv_upd(3) [of "slab_view (resources r)" "unat ?n" "unat (?n + 1)"]
      ok' lt n' by simp_all
  have "table_ok (?n + 1) ((wheel_view (wheel r))(?n \<mapsto> d)) ((slot r)(?n \<mapsto> Timer (TimerEntry d ?n) w))"
    by (rule table_ok_upd(2) [OF grown(1)]) (use ok' lt in simp_all)
  moreover have "slab_alloc_inv ((slab_view (resources r))(unat ?n \<mapsto> Timer (TimerEntry d ?n) w)) (unat (?n + 1))"
    by (rule slab_alloc_inv_upd(1) [OF grown(2)]) (use ok' n' in \<open>simp add: word_le_nat_alt\<close>)
  moreover have pd: "pending_deregister r = Some (rid, x) \<Longrightarrow> rid \<noteq> ?n" for rid x
    using pending_timer(2) [OF ok] by auto
  moreover have "wheel r' = wheel_insert ?n d (wheel r)" "next_resource_id r' = ?n + 1"
    "slab_view (resources r') = (slab_view (resources r))(unat ?n \<mapsto> Timer (TimerEntry d ?n) w)"
    "cached_now r' = cached_now r" "pending_deregister r' = pending_deregister r"
    by (simp_all add: r')
  ultimately show "reactor_ok r'"
    unfolding reactor_ok_iff s using ok' wh lt(2) d by (simp del: fun_upd_apply) simp
  show "sources r' = sources r"
    using new_slot_free(4) [OF ok] by (auto simp: sources_def r' fun_eq_iff)
  have "map_option fst (pending_deregister r) \<noteq> Some ?n" using pd by (cases "pending_deregister r") auto
  then show "timers r' = (timers r)(?n \<mapsto> (d, w))"
    by (auto simp: timers_def r' fun_eq_iff)
qed

lemma register_timer_ok:
  assumes ok: "reactor_ok r" and d: "elapsed (wheel r) < d" and reg: "register_timer d w r = (res, r')"
  shows "reactor_ok r' \<and> sources r' = sources r \<and> entered r' = entered r \<and>
    pending_deregister r' = pending_deregister r \<and>
    (case res of
       IoOk rid \<Rightarrow> rid = next_resource_id r \<and> rid < u64_max \<and> next_resource_id r' = rid + 1 \<and>
         timers r' = (timers r)(rid \<mapsto> (d, w))
     | IoErr e \<Rightarrow> next_resource_id r = u64_max \<and> e = resource_id_overflow \<and> timers r' = timers r)"
proof (cases r rule: alloc_resource_id_cases)
  case ok: ok
  let ?r1 = "log_in (RegisterTimer d w None) r"
  let ?r2 = "?r1\<lparr>next_resource_id := next_resource_id ?r1 + 1,
     resources := v_insert_timer_slot (next_resource_id ?r1) (TimerEntry d (next_resource_id ?r1)) w (resources ?r1),
     wheel := wheel_insert (next_resource_id ?r1) d (wheel ?r1)\<rparr>"
  have "res = IoOk (next_resource_id r)" "r' = log_in (RegisterTimer d w (Some res)) ?r2"
    using reg ok(1) [folded not_le] by (auto simp: register_timer_def alloc_resource_id_def Let_def)
  moreover note insert_timer_ok [of ?r1 d ?r2 w, simplified, OF assms(1) d ok(1) ok(3) [simplified]]
  ultimately show ?thesis using ok(1) by simp
next
  case full
  then have "res = IoErr resource_id_overflow"
    "r' = log_in (RegisterTimer d w (Some res)) (log_in (RegisterTimer d w None) r)"
    using reg by (auto simp: register_timer_def alloc_resource_id_def Let_def)
  then show ?thesis using full assms(1) by simp
qed

text \<open>Cancelling the deferred deregistration, and carrying it out.\<close>

lemma flush_ok:
  assumes ok: "reactor_ok r"
  shows "reactor_ok (flush_pending_deregister r)" "pending_deregister (flush_pending_deregister r) = None"
    "timers (flush_pending_deregister r) = timers r" "sources (flush_pending_deregister r) = sources r"
    "entered (flush_pending_deregister r) = entered r" "elapsed (wheel (flush_pending_deregister r)) = elapsed (wheel r)"
    "rlog (flush_pending_deregister r) = rlog r" "next_resource_id (flush_pending_deregister r) = next_resource_id r"
proof -
  show "pending_deregister (flush_pending_deregister r) = None" "entered (flush_pending_deregister r) = entered r"
    "rlog (flush_pending_deregister r) = rlog r" "next_resource_id (flush_pending_deregister r) = next_resource_id r"
    by (auto simp: flush_pending_deregister_def split: option.splits)
  show "elapsed (wheel (flush_pending_deregister r)) = elapsed (wheel r)"
    using tw.remove_ok [of "wheel r"] ok by (auto simp: flush_pending_deregister_def reactor_ok_def split: option.splits)
  have "reactor_ok (flush_pending_deregister r) \<and> timers (flush_pending_deregister r) = timers r \<and>
      sources (flush_pending_deregister r) = sources r"
  proof (cases "pending_deregister r")
    case None
    then show ?thesis using ok by (simp add: flush_pending_deregister_def)
  next
    case (Some p)
    obtain rid d where p: "pending_deregister r = Some (rid, d)" using Some by (cases p) simp
    let ?r1 = "r\<lparr>pending_deregister := None\<rparr>"
    have "reactor_ok ?r1" using ok by (simp add: reactor_ok_def)
    from drop_timer_ok [OF this, of rid]
    have r2: "reactor_ok (drop_timer rid ?r1)" "timers (drop_timer rid ?r1) = (timers ?r1)(rid := None)"
      "sources (drop_timer rid ?r1) = (sources ?r1)(rid := None)" by simp_all
    have "flush_pending_deregister r = drop_timer rid ?r1"
      by (simp add: flush_pending_deregister_def drop_timer_def p)
    moreover have "(timers ?r1)(rid := None) = timers r" by (auto simp: timers_def p fun_eq_iff)
    moreover have "(sources ?r1)(rid := None) = sources r"
      using pending_timer(1) [OF ok p] by (auto simp: sources_def fun_eq_iff)
    ultimately show ?thesis using r2 by simp
  qed
  then show "reactor_ok (flush_pending_deregister r)" "timers (flush_pending_deregister r) = timers r"
    "sources (flush_pending_deregister r) = sources r" by simp_all
qed

lemma replace_timer_waker_get:
  "slab_get j (snd (replace_timer_waker k w rs)) =
     (if j = k then (case slab_get k rs of Some (Timer e old) \<Rightarrow> Some (Timer e w) | x \<Rightarrow> x) else slab_get j rs)"
  by (auto simp: slab_get_view replace_timer_waker_view word_unat_eq_iff split: option.splits resource_slot.splits)

lemma reuse_timer_ok:
  assumes ok: "reactor_ok r" and p: "pending_deregister r = Some (rid, d)"
    and r': "r' = r\<lparr>pending_deregister := None, resources := snd (replace_timer_waker rid w (resources r))\<rparr>"
  shows "reactor_ok r'" "timers r rid = None" "timers r' = (timers r)(rid \<mapsto> (d, w))" "sources r' = sources r"
proof -
  obtain old where old: "slot r rid = Some (Timer (TimerEntry d rid) old)" using pending_timer(1) [OF ok p] by blast
  have s: "slot r' = (slot r)(rid \<mapsto> Timer (TimerEntry d rid) w)"
    by (auto simp: r' replace_timer_waker_get old)
  have t: "table_ok (next_resource_id r) (wheel_view (wheel r)) (slot r)" using ok by (simp add: reactor_ok_iff)
  then have "table_ok (next_resource_id r) (wheel_view (wheel r)) (slot r')"
    unfolding s using old by (auto simp: table_ok_def)
  moreover have "slab_alloc_inv (slab_view (resources r')) (unat (next_resource_id r))"
  proof -
    have "slab_view (resources r') k \<noteq> None \<longleftrightarrow> slab_view (resources r) k \<noteq> None" for k
      by (auto simp: r' replace_timer_waker_view split: option.splits resource_slot.splits)
    then show ?thesis using ok by (simp only: reactor_ok_iff slab_alloc_inv_def) blast
  qed
  ultimately show "reactor_ok r'"
    using ok by (simp add: reactor_ok_iff) (simp add: r')
  show "timers r rid = None" by (simp add: timers_def p)
  show "timers r' = (timers r)(rid \<mapsto> (d, w))"
    by (auto simp: timers_def r' p replace_timer_waker_get old fun_eq_iff)
  show "sources r' = sources r"
    by (auto simp: sources_def r' replace_timer_waker_get old fun_eq_iff)
qed

lemma handle_register_timer_ok:
  assumes ok: "reactor_ok r" and "entered r" and d: "elapsed (wheel r) < d"
    and h: "handle_register_timer d w r = Some (res, r')"
  shows "reactor_ok r' \<and> sources r' = sources r \<and> entered r' \<and> pending_deregister r' = None \<and>
    (case res of
       IoOk rid \<Rightarrow> timers r rid = None \<and> sources r rid = None \<and> timers r' = (timers r)(rid \<mapsto> (d, w))
     | IoErr e \<Rightarrow> next_resource_id r = u64_max \<and> timers r' = timers r)"
proof (cases "\<exists>rid. pending_deregister r = Some (rid, d)")
  case True
  then obtain rid where p: "pending_deregister r = Some (rid, d)" by blast
  have "resource_contains rid (resources r)"
    using pending_timer(1) [OF ok p] by (auto simp: resource_contains_def)
  then have "res = IoOk rid"
    "r' = r\<lparr>pending_deregister := None, resources := snd (replace_timer_waker rid w (resources r))\<rparr>"
    using h \<open>entered r\<close> p by (simp_all add: handle_register_timer_def with_current_reactor_def Let_def)
  moreover have "sources r rid = None" using pending_timer(1) [OF ok p] by (auto simp: sources_def)
  ultimately show ?thesis using reuse_timer_ok [OF ok p, of r' w] \<open>entered r\<close> by simp
next
  case False
  let ?r1 = "flush_pending_deregister r"
  have "register_timer d w ?r1 = (res, r')"
    using h \<open>entered r\<close> False
    by (cases "pending_deregister r")
      (auto simp: handle_register_timer_def with_current_reactor_def flush_pending_deregister_def Let_def
        split: prod.splits)
  from register_timer_ok [OF flush_ok(1) [OF ok] _ this] d flush_ok [OF ok] \<open>entered r\<close>
    new_slot_free(3,4) [OF ok]
  show ?thesis by (auto split: io_result.splits)
qed

lemma handle_deregister_timer_ok:
  assumes ok: "reactor_ok r" and "entered r" and src: "sources r rid = None"
    and h: "handle_deregister_timer rid r = Some r'"
  shows "reactor_ok r'" "timers r' = (timers r)(rid := None)" "sources r' = sources r" "entered r'"
proof -
  let ?r1 = "flush_pending_deregister r"
  note f = flush_ok [OF ok]
  have r': "r' = (case get_deadline rid (wheel ?r1) of
      Some d \<Rightarrow> ?r1\<lparr>pending_deregister := Some (rid, d)\<rparr> | None \<Rightarrow> deregister_timer rid ?r1)"
    using h \<open>entered r\<close> by (auto simp: handle_deregister_timer_def with_current_reactor_def flush_pending_deregister_def
        Let_def split: option.splits)
  have "reactor_ok r' \<and> timers r' = (timers r)(rid := None) \<and> sources r' = sources r \<and> entered r'"
  proof (cases "get_deadline rid (wheel ?r1)")
    case None
    have "r' = drop_timer rid (log_in (DeregisterTimer rid True) ?r1)"
      using r' None by (simp add: deregister_timer_def drop_timer_def Let_def)
    then show ?thesis
      using drop_timer_ok [of "log_in (DeregisterTimer rid True) ?r1" rid] f src \<open>entered r\<close>
      by (auto simp: fun_upd_idem) (simp add: drop_timer_def)
  next
    case (Some d)
    then have w: "wheel_view (wheel ?r1) rid = Some d" by (simp add: get_deadline_def vm_get_view wheel_view_def)
    have "reactor_ok r'" using f(1) w r' Some by (simp add: reactor_ok_def)
    moreover have "timers r' = (timers ?r1)(rid := None)" "sources r' = sources ?r1" "entered r'"
      using r' Some f(2,5) \<open>entered r\<close> by (auto simp: timers_def sources_def fun_eq_iff)
    ultimately show ?thesis using f(3,4) by simp
  qed
  then show "reactor_ok r'" "timers r' = (timers r)(rid := None)" "sources r' = sources r" "entered r'" by simp_all
qed

section \<open>I/O sources\<close>

lemma register_io_ok:
  assumes ok: "reactor_ok r" and reg: "register_io_resource S src i r = (res, r')"
  shows "reactor_ok r' \<and> timers r' = timers r \<and> pending_deregister r' = pending_deregister r \<and>
    (case res of
       IoOk rid \<Rightarrow> rid = next_resource_id r \<and> sources r rid = None \<and> sources r' = (sources r)(rid \<mapsto> (None, None)) \<and>
         os_register S src (encode_token_raw rid) (interest_to_mio i) = IoOk ()
     | IoErr e \<Rightarrow> sources r' = sources r)"
proof (cases r rule: alloc_resource_id_cases)
  case full
  then have "res = IoErr resource_id_overflow"
    "r' = log_in (RegisterIoResource src i (Some res)) (log_in (RegisterIoResource src i None) r)"
    using reg by (auto simp: register_io_resource_def alloc_resource_id_def Let_def)
  then show ?thesis using ok by simp
next
  case alloc: ok
  let ?n = "next_resource_id r"
  let ?os = "os_register S src (encode_token_raw ?n) (interest_to_mio i)"
  let ?r1 = "log_out (OsRegisterIoResource src ?n i ?os)
    ((log_in (RegisterIoResource src i None) r)\<lparr>next_resource_id := ?n + 1\<rparr>)"
  note ok' = ok [unfolded reactor_ok_iff]
  have lt: "?n < ?n + 1" "1 \<le> ?n + 1" "?n \<le> ?n + 1"
    using alloc(3) by (simp_all add: word_less_nat_alt word_le_nat_alt)
  have grown: "table_ok (?n + 1) (wheel_view (wheel r)) (slot r)" "slab_alloc_inv (slab_view (resources r)) (unat (?n + 1))"
    using table_ok_upd(4) [of ?n _ "slot r" "?n + 1"] slab_alloc_inv_upd(3) [of "slab_view (resources r)" "unat ?n" "unat (?n + 1)"]
      ok' lt alloc(3) by simp_all
  have r1: "reactor_ok ?r1" "timers ?r1 = timers r" "sources ?r1 = sources r"
    using ok' grown lt by (simp_all add: reactor_ok_iff) (simp_all add: timers_def sources_def fun_eq_iff)
  show ?thesis
  proof (cases ?os)
    case (IoErr e)
    then have "res = IoErr e" "r' = log_in (RegisterIoResource src i (Some res)) ?r1"
      using reg alloc(1) [folded not_le]
      by (auto simp: register_io_resource_def alloc_resource_id_def register_io_source_action_def Let_def)
    then show ?thesis using r1 by simp
  next
    case (IoOk u)
    let ?r2 = "?r1\<lparr>resources := v_insert_io_slot ?n (resources ?r1)\<rparr>"
    have res: "res = IoOk ?n" "r' = log_in (RegisterIoResource src i (Some res)) ?r2"
      using reg alloc(1) [folded not_le] IoOk
      by (auto simp: register_io_resource_def alloc_resource_id_def register_io_source_action_def Let_def)
    have s: "slot ?r2 = (slot r)(?n \<mapsto> Io None None)" by auto
    have "table_ok (?n + 1) (wheel_view (wheel r)) ((slot r)(?n \<mapsto> Io None None))"
      by (rule table_ok_upd(3) [OF grown(1)]) (use ok' lt new_slot_free(2) [OF ok] in simp_all)
    moreover have "slab_alloc_inv ((slab_view (resources r))(unat ?n \<mapsto> Io None None)) (unat (?n + 1))"
      by (rule slab_alloc_inv_upd(1) [OF grown(2)]) (use ok' alloc(3) in \<open>simp add: word_le_nat_alt\<close>)
    ultimately have "reactor_ok ?r2"
      unfolding reactor_ok_iff s using ok' lt by (simp del: fun_upd_apply)
    moreover have "timers ?r2 = timers r" "sources ?r2 = (sources r)(?n \<mapsto> (None, None))"
      using new_slot_free(1) [OF ok] by (auto simp: timers_def sources_def fun_eq_iff)
    ultimately show ?thesis using res new_slot_free(4) [OF ok] IoOk by simp
  qed
qed

lemma deregister_io_ok:
  assumes ok: "reactor_ok r" and s: "sources r rid \<noteq> None"
    and reg: "deregister_io_resource S rid src r = (res, r')"
  shows "reactor_ok r'" "timers r' = timers r" "sources r' = (sources r)(rid := None)"
    "pending_deregister r' = pending_deregister r" "res = os_deregister S src"
proof -
  obtain rw ww where io: "slot r rid = Some (Io rw ww)"
    using s by (auto simp: sources_def split: option.splits resource_slot.splits)
  let ?r2 = "(log_in (DeregisterIoResource rid None) r)\<lparr>resources := v_remove_io_slot rid (resources r)\<rparr>"
  have r': "r' = log_in (DeregisterIoResource rid (Some res)) (log_out (OsDeregisterIoResource src rid res) ?r2)"
    and res: "res = os_deregister S src"
    using reg by (auto simp: deregister_io_resource_def deregister_io_source_action_def Let_def)
  note ok' = ok [unfolded reactor_ok_iff]
  have t: "table_ok (next_resource_id r) (wheel_view (wheel r)) (slot r)" using ok' by blast
  then have none: "wheel_view (wheel r) rid = None" by (simp add: table_ok_def io)
  have s2: "slot ?r2 = (slot r)(rid := None)" by auto
  have "table_ok (next_resource_id r) (wheel_view (wheel r)) ((slot r)(rid := None))"
    using table_ok_upd(1) [OF t, of rid] none by (simp add: fun_upd_idem)
  then have "reactor_ok ?r2"
    unfolding reactor_ok_iff s2 using ok' by (simp add: slab_alloc_inv_upd del: fun_upd_apply)
  moreover have "timers ?r2 = timers r" "sources ?r2 = (sources r)(rid := None)"
    using io by (auto simp: timers_def sources_def fun_eq_iff)
  ultimately show "reactor_ok r'" "timers r' = timers r" "sources r' = (sources r)(rid := None)"
    "pending_deregister r' = pending_deregister r" "res = os_deregister S src"
    using r' res by simp_all
qed

lemma set_waker_ok:
  assumes ok: "reactor_ok r" and io: "sources r rid = Some (rw, ww)"
  shows "\<exists>r'. set_waker rid i w r = Some r' \<and> reactor_ok r' \<and> timers r' = timers r \<and>
    pending_deregister r' = pending_deregister r \<and>
    sources r' = (sources r)(rid \<mapsto> (if readable i then Some w else rw, if writable i then Some w else ww))"
proof -
  have slot: "slot r rid = Some (Io rw ww)"
    using io by (auto simp: sources_def split: option.splits resource_slot.splits)
  then have v: "slab_view (resources r) (unat rid) = Some (Io rw ww)" by (simp add: slab_get_view)
  let ?rw = "if readable i then Some w else rw" and ?ww = "if writable i then Some w else ww"
  obtain rs1 where rs1: "(if readable i then v_set_read_waker rid w (resources r) else Some (resources r)) = Some rs1"
      "slab_view rs1 = (slab_view (resources r))(unat rid \<mapsto> Io ?rw ww)"
    using set_waker_some(1) [OF v, of w] set_waker_ops(1) [of rid w "resources r"] v
    by (cases "readable i") (fastforce, simp add: fun_upd_idem)
  then have v1: "slab_view rs1 (unat rid) = Some (Io ?rw ww)" by simp
  obtain rs2 where rs2: "(if writable i then v_set_write_waker rid w rs1 else Some rs1) = Some rs2"
      "slab_view rs2 = (slab_view rs1)(unat rid \<mapsto> Io ?rw ?ww)"
    using set_waker_some(2) [OF v1, of w] set_waker_ops(2) [of rid w rs1] v1
    by (cases "writable i") (fastforce, simp add: fun_upd_idem)
  have v2: "slab_view rs2 = (slab_view (resources r))(unat rid \<mapsto> Io ?rw ?ww)"
    unfolding rs2(2) rs1(2) by simp
  then have s2: "(\<lambda>k. slab_get k rs2) = (slot r)(rid \<mapsto> Io ?rw ?ww)"
    by (auto simp: slab_get_view word_unat_eq_iff fun_eq_iff)
  define r' where "r' = log_in (SetWaker rid i w (Some (IoOk ()))) ((log_in (SetWaker rid i w None) r)\<lparr>resources := rs2\<rparr>)"
  have "set_waker rid i w r = Some r'"
    using rs1(1) rs2(1) by (cases "readable i"; cases "writable i") (auto simp: set_waker_def r'_def log_in_def Let_def)
  moreover have "reactor_ok r'"
  proof -
    note ok' = ok [unfolded reactor_ok_iff]
    have t: "table_ok (next_resource_id r) (wheel_view (wheel r)) (slot r)" using ok' by blast
    then have "1 \<le> rid" "rid < next_resource_id r" "wheel_view (wheel r) rid = None"
      using slot by (auto simp: table_ok_def)
    note table_ok_upd(3) [OF t this, of ?rw ?ww]
    moreover have "slab_alloc_inv ((slab_view (resources r))(unat rid \<mapsto> Io ?rw ?ww)) (unat (next_resource_id r))"
      by (rule slab_alloc_inv_upd(1)) (use ok' v in \<open>auto simp: slab_alloc_inv_def\<close>)
    moreover have "slot r' = (slot r)(rid \<mapsto> Io ?rw ?ww)" using s2 by (simp add: r'_def)
    moreover have "wheel r' = wheel r" "next_resource_id r' = next_resource_id r" "resources r' = rs2"
      "cached_now r' = cached_now r" "pending_deregister r' = pending_deregister r" by (simp_all add: r'_def)
    ultimately show ?thesis unfolding reactor_ok_iff v2 using ok' v2 by (simp del: fun_upd_apply)
  qed
  moreover have "slot r' k = (if k = rid then Some (Io ?rw ?ww) else slot r k)" for k
    using fun_cong [OF s2, of k] by (simp add: r'_def)
  then have "timers r' = timers r" "sources r' = (sources r)(rid \<mapsto> (?rw, ?ww))"
    using slot by (auto simp: timers_def sources_def fun_eq_iff r'_def split: if_splits)
  ultimately show ?thesis by (auto simp: r'_def)
qed

end
