(* ===== verification/Reactor_Park.thy ===== *)
theory Reactor_Park
  imports Reactor_Ops
begin

text \<open>
  Parking: the timers that are due are woken, each once and with the waker it is registered with;
  every I/O event wakes the waker of its source and direction; nobody else is woken.
\<close>

section \<open>The expiry loop\<close>

abbreviation timer_wake :: "'w resource_slab \<Rightarrow> u64 \<Rightarrow> 'w reactor_event" where
  "timer_wake rs k \<equiv> ROutbound (WakeTask (the (v_take_timer_waker k rs)) k)"

lemma take_waker_remove: "v_take_timer_waker j (v_remove_timer_slot k rs) = (if j = k then None else v_take_timer_waker j rs)"
  by (simp add: v_take_timer_waker_def p_get_timer_waker_def)

lemma wake_expired_timers_pops:
  assumes "pops (try_pop_expired now) w rs w'" "w = wheel r" "distinct rs"
    "\<forall>k \<in> set rs. v_take_timer_waker k (resources r) \<noteq> None"
  shows "wake_expired_timers now r = r\<lparr>wheel := w', resources := fold v_remove_timer_slot rs (resources r),
    rlog := rlog r @ map (timer_wake (resources r)) rs\<rparr>"
  using assms
proof (induction arbitrary: r rule: pops.induct)
  case (pops_done w w')
  then have "try_pop_expired_timer now r = (None, r\<lparr>wheel := w'\<rparr>)"
    by (simp add: try_pop_expired_timer_def)
  then show ?case by (subst wake_expired_timers.simps) simp
next
  case (pops_step w k w1 rs w')
  obtain wk where wk: "v_take_timer_waker k (resources r) = Some wk" using pops_step.prems(3) by auto
  define r2 where "r2 = r\<lparr>wheel := w1, rlog := rlog r @ [ROutbound (WakeTask wk k)],
    resources := v_remove_timer_slot k (resources r)\<rparr>"
  have "try_pop_expired_timer now r = (Some k, r\<lparr>wheel := w1\<rparr>)"
    using pops_step.hyps(1) pops_step.prems(1) by (simp add: try_pop_expired_timer_def)
  then have step: "wake_expired_timers now r = wake_expired_timers now r2"
    by (subst wake_expired_timers.simps) (simp add: wk r2_def wake_task_action_def log_out_def Let_def)
  have "\<forall>j \<in> set rs. v_take_timer_waker j (resources r2) \<noteq> None"
    using pops_step.prems(2,3) by (auto simp: r2_def take_waker_remove)
  from pops_step.IH [of r2] this pops_step.prems(2)
  have IH: "wake_expired_timers now r2 = r2\<lparr>wheel := w', resources := fold v_remove_timer_slot rs (resources r2),
      rlog := rlog r2 @ map (timer_wake (resources r2)) rs\<rparr>"
    by (simp add: r2_def)
  have "map (timer_wake (resources r2)) rs = map (timer_wake (resources r)) rs"
    using pops_step.prems(2) by (auto simp: r2_def take_waker_remove)
  then show ?case
    unfolding step IH by (simp add: r2_def wk)
qed

lemma fold_remove_slots:
  "slab_get k (fold v_remove_timer_slot rs s) = (if k \<in> set rs then None else slab_get k s)"
  "slab_view (fold v_remove_timer_slot rs s) j = (if j \<in> unat ` set rs then None else slab_view s j)"
  by (induction rs arbitrary: s) (auto split: if_splits)

text \<open>Which timers are due, with their wakers.\<close>

definition due_timers :: "instant \<Rightarrow> 'w reactor_thread \<Rightarrow> u64 set" where
  "due_timers now r = {k. \<exists>d w. timers r k = Some (d, w) \<and> d \<le> now}"

definition timer_waker :: "'w reactor_thread \<Rightarrow> u64 \<Rightarrow> 'w" where
  "timer_waker r k = snd (the (timers r k))"

text \<open>
  With no deregistration pending the wheel holds the deadlines of the timers.  In the middle of a
  park the cached clock is already the new one; everything else of the
  invariant holds.
\<close>

lemma wheel_view_timers:
  assumes "table_ok n (wheel_view (wheel r)) (slot r)" "pending_deregister r = None"
  shows "wheel_view (wheel r) k = map_option fst (timers r k)"
  using assms by (cases "slot r k" rule: slot_deadline.cases) (auto simp: table_ok_def timers_def)

lemma wake_expired_timers_ok:
  assumes ok: "reactor_ok (r\<lparr>cached_now := c\<rparr>)" and pd: "pending_deregister r = None"
    and now: "elapsed (wheel r) \<le> now" and cn: "cached_now r = Some now"
  shows "\<exists>rs. distinct rs \<and> set rs = due_timers now r \<and>
    reactor_ok (wake_expired_timers now r) \<and> elapsed (wheel (wake_expired_timers now r)) = now \<and>
    pending_deregister (wake_expired_timers now r) = None \<and> entered (wake_expired_timers now r) = entered r \<and>
    cached_now (wake_expired_timers now r) = Some now \<and> io_readiness (wake_expired_timers now r) = io_readiness r \<and>
    next_resource_id (wake_expired_timers now r) = next_resource_id r \<and>
    timers (wake_expired_timers now r) = timers r |` (- due_timers now r) \<and>
    sources (wake_expired_timers now r) = sources r \<and>
    rlog (wake_expired_timers now r) = rlog r @ map (\<lambda>k. ROutbound (WakeTask (timer_waker r k) k)) rs"
proof -
  note ok' = ok [unfolded reactor_ok_iff, simplified]
  have t: "table_ok (next_resource_id r) (wheel_view (wheel r)) (slot r)" using ok' by simp
  obtain rs w' where p: "pops (try_pop_expired now) (wheel r) rs w'"
    using tw.pops_total [of "wheel r" now] ok' now by blast
  note s = tw.pops_sound [OF p conjunct1 [OF ok'] now]
  note wv = wheel_view_timers [OF t pd]
  have due: "set rs = due_timers now r"
    using s by (auto simp: tw.due_def due_timers_def wv)
  have wk: "v_take_timer_waker k (resources r) = map_option snd (timers r k)" for k
    using pd by (auto simp: v_take_timer_waker_def p_get_timer_waker_def timers_def split: option.splits resource_slot.splits)
  have have_waker: "\<forall>k \<in> set rs. v_take_timer_waker k (resources r) \<noteq> None"
    using due by (auto simp: due_timers_def wk)
  define r' where "r' = wake_expired_timers now r"
  have r': "r' = r\<lparr>wheel := w', resources := fold v_remove_timer_slot rs (resources r),
      rlog := rlog r @ map (timer_wake (resources r)) rs\<rparr>"
    unfolding r'_def by (rule wake_expired_timers_pops [OF p refl _ have_waker]) (use s in blast)
  have slots: "slot r' k = (if k \<in> due_timers now r then None else slot r k)" for k
    by (simp add: r' fold_remove_slots due)
  have wv': "wheel_view w' k = (if k \<in> due_timers now r then None else wheel_view (wheel r) k)" for k
    using s due by (simp add: restrict_map_def)
  have "table_ok (next_resource_id r) (wheel_view w') (slot r')"
    using t unfolding table_ok_def slots wv' by auto
  moreover have "slab_alloc_inv (slab_view (resources r')) (unat (next_resource_id r))"
    using ok' by (simp add: slab_alloc_inv_def r' fold_remove_slots)
  moreover have "\<forall>k d. wheel_view w' k = Some d \<longrightarrow> now < d"
    using wv by (auto simp: wv' due_timers_def split: if_splits)
  ultimately have "reactor_ok r'"
    using s ok' pd cn by (simp add: reactor_ok_iff) (simp add: r')
  moreover have "timers r' = timers r |` (- due_timers now r)" "sources r' = sources r"
  proof -
    show "timers r' = timers r |` (- due_timers now r)"
      using pd unfolding timers_def slots by (auto simp: r' restrict_map_def fun_eq_iff)
    have "sources r k = None" if "k \<in> due_timers now r" for k
      using that by (auto simp: due_timers_def timers_def sources_def split: option.splits resource_slot.splits if_splits)
    then show "sources r' = sources r" unfolding sources_def slots by (auto simp: fun_eq_iff)
  qed
  moreover have "rlog r' = rlog r @ map (\<lambda>k. ROutbound (WakeTask (timer_waker r k) k)) rs"
    using have_waker wk by (auto simp: r' timer_waker_def option.map_sel)
  ultimately show ?thesis
    using s due pd cn unfolding r'_def [symmetric] by (intro exI [of _ rs]) (simp add: r')
qed

section \<open>I/O events\<close>

text \<open>The wakes an event list is owed, given the registered sources.\<close>

fun io_wakes :: "(u64 \<Rightarrow> ('w option \<times> 'w option) option) \<Rightarrow> io_event list \<Rightarrow> ('w \<times> u64) list" where
  "io_wakes src [] = []"
| "io_wakes src (e # es) =
     (case (ev_mode e, src (ev_rid e)) of
        (IoReadable, Some (Some w, _)) \<Rightarrow> [(w, ev_rid e)]
      | (IoWritable, Some (_, Some w)) \<Rightarrow> [(w, ev_rid e)]
      | _ \<Rightarrow> []) @ io_wakes src es"

fun mark_all :: "io_event list \<Rightarrow> readiness \<Rightarrow> readiness" where
  "mark_all [] v = v"
| "mark_all (e # es) v =
     mark_all es (case ev_mode e of IoReadable \<Rightarrow> mark_readable (ev_rid e) v | IoWritable \<Rightarrow> mark_writable (ev_rid e) v)"

lemma waker_of_source:
  "v_get_read_waker k (resources r) = (case sources r k of Some (rw, _) \<Rightarrow> rw | None \<Rightarrow> None)"
  "v_get_write_waker k (resources r) = (case sources r k of Some (_, ww) \<Rightarrow> ww | None \<Rightarrow> None)"
  by (auto simp: v_get_read_waker_def p_get_read_waker_def v_get_write_waker_def p_get_write_waker_def sources_def
      split: option.splits resource_slot.splits)

text \<open>What is logged for them: every event, with the wake it leads to.\<close>

abbreviation wake_events :: "('w \<times> u64) list \<Rightarrow> 'w reactor_event list" where
  "wake_events ws \<equiv> map (\<lambda>(w, k). ROutbound (WakeTask w k)) ws"

fun io_log :: "(u64 \<Rightarrow> ('w option \<times> 'w option) option) \<Rightarrow> io_event list \<Rightarrow> 'w reactor_event list" where
  "io_log src [] = []"
| "io_log src (e # es) = ROutbound (IoEventReady e) # wake_events (io_wakes src [e]) @ io_log src es"

lemma wakes_of_wake_events [simp]: "wakes_of (wake_events ws) = ws"
  by (induction ws) auto

lemma wakes_of_io_log: "wakes_of (io_log src evs) = io_wakes src evs"
proof (induction evs)
  case (Cons e evs)
  have "io_wakes src (e # evs) = io_wakes src [e] @ io_wakes src evs" by simp
  then show ?case using Cons by (simp del: io_wakes.simps(2))
qed simp

lemma process_io_events_spec:
  "process_io_events evs r =
     r\<lparr>rlog := rlog r @ io_log (sources r) evs, io_readiness := mark_all evs (io_readiness r)\<rparr>"
proof (induction evs arbitrary: r)
  case Nil
  show ?case by simp
next
  case (Cons e evs)
  define r1 where "r1 = (case ev_mode e of
      IoReadable \<Rightarrow>
        (let r2 = (io_event_ready_action e r)\<lparr>io_readiness := mark_readable (ev_rid e) (io_readiness r)\<rparr>
         in case v_get_read_waker (ev_rid e) (resources r2) of
              Some waker \<Rightarrow> wake_task_action waker (ev_rid e) r2 | None \<Rightarrow> r2)
    | IoWritable \<Rightarrow>
        (let r2 = (io_event_ready_action e r)\<lparr>io_readiness := mark_writable (ev_rid e) (io_readiness r)\<rparr>
         in case v_get_write_waker (ev_rid e) (resources r2) of
              Some waker \<Rightarrow> wake_task_action waker (ev_rid e) r2 | None \<Rightarrow> r2))"
  define ws where "ws = io_wakes (sources r) [e]"
  have r1: "r1 = r\<lparr>rlog := rlog r @ ROutbound (IoEventReady e) # map (\<lambda>(w, k). ROutbound (WakeTask w k)) ws,
      io_readiness := (case ev_mode e of IoReadable \<Rightarrow> mark_readable (ev_rid e) (io_readiness r)
        | IoWritable \<Rightarrow> mark_writable (ev_rid e) (io_readiness r))\<rparr>"
    by (rule reactor_thread.equality; cases "ev_mode e"; cases "sources r (ev_rid e)")
      (auto simp: r1_def ws_def io_event_ready_action_def wake_task_action_def Let_def waker_of_source [of _ r]
        split: option.splits)
  have src: "sources r1 = sources r" by (auto simp: r1 sources_def fun_eq_iff)
  have "process_io_events (e # evs) r = process_io_events evs r1"
    by (cases "ev_mode e") (simp_all add: r1_def Let_def io_event_ready_action_def split: option.splits)
  also have "\<dots> = r1\<lparr>rlog := rlog r1 @ io_log (sources r) evs, io_readiness := mark_all evs (io_readiness r1)\<rparr>"
    using Cons [of r1] src by simp
  finally show ?case by (simp add: r1 del: io_wakes.simps) (simp add: ws_def)
qed

section \<open>Park\<close>

definition park_time :: "os \<Rightarrow> 'w reactor_thread \<Rightarrow> instant" where
  "park_time S r = max (os_now S) (elapsed (wheel r))"

definition park_timeout :: "os \<Rightarrow> duration option \<Rightarrow> 'w reactor_thread \<Rightarrow> duration option" where
  "park_timeout S timeout r = effective_timeout timeout (next_deadline (wheel r)) (park_time S r)"

definition park_events :: "os \<Rightarrow> duration option \<Rightarrow> 'w reactor_thread \<Rightarrow> io_event list" where
  "park_events S timeout r =
     (case os_poll S (park_timeout S timeout r) of IoOk evs \<Rightarrow> collect_io_events evs | IoErr e \<Rightarrow> [])"

lemma reactor_park_shape:
  fixes r :: "'w reactor_thread"
  assumes ok: "reactor_ok r" and pd: "pending_deregister r = None" and p: "reactor_park S timeout r = (res, r')"
  shows "\<exists>rs poll. distinct rs \<and> set rs = due_timers (park_time S r) r \<and>
    rlog r' = rlog r @ [RInbound (ReactorPark timeout None), ROutbound (GetCurrentTime (park_time S r)),
        ROutbound (PollEvents (park_timeout S timeout r) poll)] @ wake_events (map (\<lambda>k. (timer_waker r k, k)) rs) @
      io_log (sources r) (park_events S timeout r) @ [RInbound (ReactorPark timeout (Some res))] \<and>
    reactor_ok r' \<and> elapsed (wheel r') = park_time S r \<and> cached_now r' = Some (park_time S r) \<and>
    pending_deregister r' = None \<and> entered r' = entered r \<and> next_resource_id r' = next_resource_id r \<and>
    timers r' = timers r |` (- due_timers (park_time S r) r) \<and> sources r' = sources r \<and>
    io_readiness r' = mark_all (park_events S timeout r) (io_readiness r) \<and>
    res = (case os_poll S (park_timeout S timeout r) of IoOk evs \<Rightarrow> IoOk () | IoErr e \<Rightarrow> IoErr e)"
proof -
  let ?now = "park_time S r"
  define r2 where "r2 = log_out (GetCurrentTime ?now) ((log_in (ReactorPark timeout None) r)\<lparr>cached_now := Some ?now\<rparr>)"
  define e3 :: "'w reactor_outbound" where "e3 = PollEvents (park_timeout S timeout r)
    (case os_poll S (park_timeout S timeout r) of IoOk evs \<Rightarrow> IoOk (length (collect_io_events evs)) | IoErr e \<Rightarrow> IoErr e)"
  define r3 where "r3 = log_out e3 r2"
  define r4 where "r4 = wake_expired_timers ?now r3"
  have now: "get_current_time_action S (log_in (ReactorPark timeout None) r) = (?now, r2)"
    by (auto simp: get_current_time_action_def Let_def r2_def park_time_def max_def)
  have eff: "effective_timeout timeout (reactor_next_deadline r2) ?now = park_timeout S timeout r"
    by (simp add: park_timeout_def reactor_next_deadline_def r2_def)
  have poll: "poll_events_action S (park_timeout S timeout r) r2 =
      (case os_poll S (park_timeout S timeout r) of IoOk evs \<Rightarrow> IoOk (collect_io_events evs) | IoErr e \<Rightarrow> IoErr e, r3)"
    by (simp add: poll_events_action_def r3_def e3_def Let_def split: io_result.splits)
  have res: "res = (case os_poll S (park_timeout S timeout r) of IoOk evs \<Rightarrow> IoOk () | IoErr e \<Rightarrow> IoErr e)"
    and r': "r' = log_in (ReactorPark timeout (Some res)) (process_io_events (park_events S timeout r) r4)"
    using p by (auto simp: reactor_park_def now eff poll park_events_def r4_def Let_def split: io_result.splits)
  have f3: "wheel r3 = wheel r" "pending_deregister r3 = None" "cached_now r3 = Some ?now" "io_readiness r3 = io_readiness r"
    "entered r3 = entered r" "next_resource_id r3 = next_resource_id r" "timers r3 = timers r" "sources r3 = sources r"
    "rlog r3 = rlog r @ [RInbound (ReactorPark timeout None), ROutbound (GetCurrentTime ?now), ROutbound e3]"
    using pd by (simp_all add: r3_def r2_def) (simp_all add: timers_def sources_def fun_eq_iff)
  have d3: "due_timers ?now r3 = due_timers ?now r" "timer_waker r3 = timer_waker r"
    by (simp_all add: due_timers_def timer_waker_def f3 fun_eq_iff)
  have "reactor_ok (r3\<lparr>cached_now := cached_now r\<rparr>)"
    using ok reactor_ok_cong(1) [of "r3\<lparr>cached_now := cached_now r\<rparr>" r] by (simp add: r3_def r2_def)
  from wake_expired_timers_ok [OF this f3(2) _ f3(3)]
  obtain rs where rs: "distinct rs" "set rs = due_timers ?now r" "reactor_ok r4" "elapsed (wheel r4) = ?now"
      "pending_deregister r4 = None" "entered r4 = entered r" "cached_now r4 = Some ?now"
      "io_readiness r4 = io_readiness r" "next_resource_id r4 = next_resource_id r"
      "timers r4 = timers r |` (- due_timers ?now r)" "sources r4 = sources r"
      "rlog r4 = rlog r3 @ map (\<lambda>k. ROutbound (WakeTask (timer_waker r k) k)) rs"
    unfolding r4_def [symmetric] f3 d3 by (auto simp: park_time_def)
  have es: "process_io_events (park_events S timeout r) r4 =
        r4\<lparr>rlog := rlog r4 @ io_log (sources r) (park_events S timeout r),
          io_readiness := mark_all (park_events S timeout r) (io_readiness r4)\<rparr>"
    using process_io_events_spec [of "park_events S timeout r" r4] rs(11) by simp
  have "reactor_ok r'" "timers r' = timers r4" "sources r' = sources r4"
    unfolding r' es using rs(3) reactor_ok_cong [of "r4\<lparr>rlog := rlog r4 @ io_log (sources r) (park_events S timeout r),
      io_readiness := mark_all (park_events S timeout r) (io_readiness r4)\<rparr>" r4] by simp_all
  then show ?thesis
    using rs res
    by (intro exI [of _ rs] exI [of _ "case os_poll S (park_timeout S timeout r) of
          IoOk evs \<Rightarrow> IoOk (length (collect_io_events evs)) | IoErr e \<Rightarrow> IoErr e"])
      (simp add: r' es f3(9) e3_def comp_def)
qed

lemma wakes_of_park:
  "wakes_of ([RInbound a, ROutbound (GetCurrentTime t), ROutbound (PollEvents eff p)] @ wake_events ws @
     io_log src evs @ [RInbound b]) = ws @ io_wakes src evs"
  by (simp add: wakes_of_io_log)

lemma reactor_park_ok:
  assumes "reactor_ok r" "pending_deregister r = None" "reactor_park S timeout r = (res, r')"
  shows "\<exists>es rs. rlog r' = rlog r @ es \<and> distinct rs \<and> set rs = due_timers (park_time S r) r \<and>
    wakes_of es = map (\<lambda>k. (timer_waker r k, k)) rs @ io_wakes (sources r) (park_events S timeout r) \<and>
    reactor_ok r' \<and> elapsed (wheel r') = park_time S r \<and> cached_now r' = Some (park_time S r) \<and>
    pending_deregister r' = None \<and> entered r' = entered r \<and> next_resource_id r' = next_resource_id r \<and>
    timers r' = timers r |` (- due_timers (park_time S r) r) \<and> sources r' = sources r \<and>
    io_readiness r' = mark_all (park_events S timeout r) (io_readiness r) \<and>
    res = (case os_poll S (park_timeout S timeout r) of IoOk evs \<Rightarrow> IoOk () | IoErr e \<Rightarrow> IoErr e)"
  using reactor_park_shape [OF assms]
  by (elim exE conjE) (intro exI conjI; (assumption | rule wakes_of_park))

text \<open>The poll never waits beyond the requested timeout nor beyond the next deadline.\<close>

lemma effective_timeout_bounds:
  assumes "effective_timeout timeout dl now = Some t"
  shows "timeout = Some t0 \<Longrightarrow> t \<le> t0" "dl = Some d \<Longrightarrow> unat now + unat t \<le> max (unat now) (unat d)"
proof -
  show "t \<le> t0" if "timeout = Some t0"
    using assms that by (auto simp: effective_timeout_def Let_def split: option.splits if_splits)
  show "unat now + unat t \<le> max (unat now) (unat d)" if "dl = Some d"
  proof (cases "d \<le> now")
    case True
    then show ?thesis using assms that by (auto simp: effective_timeout_def split: option.splits)
  next
    case False
    then have "unat (d - now) = unat d - unat now" "unat now < unat d"
      by (simp_all add: unat_sub word_less_nat_alt not_le less_imp_le)
    moreover have "t \<le> d - now"
      using assms that False by (auto simp: effective_timeout_def Let_def not_less split: option.splits if_splits)
    ultimately show ?thesis by (simp add: word_le_nat_alt)
  qed
qed

text \<open>How long a park may wait at most: until the next deadline, and no longer than requested.\<close>

definition until_deadline :: "instant \<Rightarrow> instant \<Rightarrow> duration" where
  "until_deadline now d = (if d \<le> now then 0 else d - now)"

lemma until_deadline_mono: "d \<le> d' \<Longrightarrow> until_deadline now d \<le> until_deadline now d'"
  by (auto simp: until_deadline_def word_le_nat_alt unat_sub_if' diff_le_mono)

definition exact_timeout :: "(u64 \<Rightarrow> (instant \<times> 'w) option) \<Rightarrow> duration \<Rightarrow> instant \<Rightarrow> duration \<Rightarrow> bool" where
  "exact_timeout tm t now to \<longleftrightarrow> to \<le> t \<and>
     (\<forall>k d w. tm k = Some (d, w) \<longrightarrow> to \<le> until_deadline now d) \<and>
     (to = t \<or> (\<exists>k d w. tm k = Some (d, w) \<and> to = until_deadline now d))"

lemma effective_timeout_until:
  "effective_timeout (Some t) dl now = Some (case dl of None \<Rightarrow> t | Some d \<Rightarrow> min t (until_deadline now d))"
  by (auto simp: effective_timeout_def until_deadline_def min_def Let_def split: option.splits)

lemma park_timeout_exact:
  assumes ok: "reactor_ok r" and pd: "pending_deregister r = None"
  shows "\<exists>to. park_timeout S (Some t) r = Some to \<and> exact_timeout (timers r) t (park_time S r) to"
proof -
  have "full_wf (wheel r)" "table_ok (next_resource_id r) (wheel_view (wheel r)) (slot r)"
    using ok by (simp_all add: reactor_ok_iff)
  then have best: "best_of (ran (wheel_view (wheel r))) (next_deadline (wheel r))"
    and wv: "wheel_view (wheel r) k = map_option fst (timers r k)" for k
    using next_deadline_best wheel_view_timers pd by blast+
  have ran: "ran (wheel_view (wheel r)) = {d. \<exists>k w. timers r k = Some (d, w)}"
    by (auto simp: ran_def wv)
  show ?thesis
  proof (cases "next_deadline (wheel r)")
    case None
    then show ?thesis
      using best ran by (auto simp: park_timeout_def effective_timeout_until exact_timeout_def)
  next
    case (Some d)
    then obtain k w where k: "timers r k = Some (d, w)" using best ran by auto
    have "until_deadline (park_time S r) d \<le> until_deadline (park_time S r) d'"
      if "timers r j = Some (d', v)" for j d' v
      using that best Some ran by (intro until_deadline_mono) auto
    moreover have "min t (until_deadline (park_time S r) d) = t \<or>
        min t (until_deadline (park_time S r) d) = until_deadline (park_time S r) d"
      by (simp add: min_def)
    ultimately have "exact_timeout (timers r) t (park_time S r) (min t (until_deadline (park_time S r) d))"
      unfolding exact_timeout_def using k
      by (intro conjI allI impI) (simp, blast intro: min.coboundedI2, metis)
    then show ?thesis using Some by (simp add: park_timeout_def effective_timeout_until)
  qed
qed

lemma effective_timeout_some: "timeout \<noteq> None \<or> dl \<noteq> None \<Longrightarrow> effective_timeout timeout dl now \<noteq> None"
  by (auto simp: effective_timeout_def Let_def split: option.splits)

end
