(* ===== verification/Reactor_Props.thy ===== *)
theory Reactor_Props
  imports Reactor_Park
begin

text \<open>
  The reactor as its clients see it: a step relation on the calls of the handle layer and of the
  executor's park, the abstract reactor it refines, and the properties of timers, I/O wakes,
  timeouts, resource ids and readiness.
\<close>

section \<open>The calls\<close>

datatype 'w reactor_call =
  CRegisterTimer instant 'w "u64 io_result"
| CDeregisterTimer u64
| CRegisterIo os int interest "u64 io_result"
| CDeregisterIo os u64 int "unit io_result"
| CSetWaker u64 interest 'w
| CPark os duration

text \<open>
  A step is a call with its arguments and its result.  The guards are what callers ensure: a timer
  is registered with a deadline after the cached clock, and a resource id is used with the calls of
  its kind.
\<close>

inductive reactor_step :: "'w reactor_thread \<Rightarrow> 'w reactor_call \<Rightarrow> 'w reactor_thread \<Rightarrow> bool" where
  step_register_timer: "elapsed (wheel r) < d \<Longrightarrow> handle_register_timer d w r = Some (res, r') \<Longrightarrow>
    reactor_step r (CRegisterTimer d w res) r'"
| step_deregister_timer: "sources r k = None \<Longrightarrow> handle_deregister_timer k r = Some r' \<Longrightarrow>
    reactor_step r (CDeregisterTimer k) r'"
| step_register_io: "handle_register_io_resource S src i r = Some (res, r') \<Longrightarrow>
    reactor_step r (CRegisterIo S src i res) r'"
| step_deregister_io: "sources r k \<noteq> None \<Longrightarrow> handle_deregister_io_resource S k src r = Some (res, r') \<Longrightarrow>
    reactor_step r (CDeregisterIo S k src res) r'"
| step_set_waker: "sources r k \<noteq> None \<Longrightarrow> handle_set_waker k i w r = Some r' \<Longrightarrow>
    reactor_step r (CSetWaker k i w) r'"
| step_park: "entered r \<Longrightarrow> flush_and_park S t r = r' \<Longrightarrow> reactor_step r (CPark S t) r'"

inductive_cases reactor_stepE: "reactor_step r c r'"

inductive reactor_run :: "'w reactor_thread \<Rightarrow> 'w reactor_call list \<Rightarrow> 'w reactor_thread \<Rightarrow> bool" where
  run_nil: "reactor_run r [] r"
| run_snoc: "reactor_run r cs r1 \<Longrightarrow> reactor_step r1 c r2 \<Longrightarrow> reactor_run r (cs @ [c]) r2"

section \<open>The abstract reactor\<close>

record 'w abs_reactor =
  a_clock :: instant
  a_timers :: "u64 \<Rightarrow> (instant \<times> 'w) option"
  a_sources :: "u64 \<Rightarrow> ('w option \<times> 'w option) option"
  a_wakes :: "('w \<times> u64) list"

definition abs_due :: "instant \<Rightarrow> 'w abs_reactor \<Rightarrow> u64 set" where
  "abs_due now a = {k. \<exists>d w. a_timers a k = Some (d, w) \<and> d \<le> now}"

definition abs_free :: "u64 \<Rightarrow> 'w abs_reactor \<Rightarrow> bool" where
  "abs_free k a \<longleftrightarrow> k \<noteq> 0 \<and> a_timers a k = None \<and> a_sources a k = None"

text \<open>
  Registering gives a free id other than 0 (the token of the interrupt handle).  A park waits until
  the next deadline or the end of its timeout, then wakes every due timer, in some order, and the
  sources the operating system reports.
\<close>

inductive abs_step :: "'w abs_reactor \<Rightarrow> 'w reactor_call \<Rightarrow> 'w abs_reactor \<Rightarrow> bool" where
  abs_register_timer: "abs_free k a \<Longrightarrow>
    abs_step a (CRegisterTimer d w (IoOk k)) (a\<lparr>a_timers := (a_timers a)(k \<mapsto> (d, w))\<rparr>)"
| abs_register_timer_err: "abs_step a (CRegisterTimer d w (IoErr e)) a"
| abs_deregister_timer: "abs_step a (CDeregisterTimer k) (a\<lparr>a_timers := (a_timers a)(k := None)\<rparr>)"
| abs_register_io: "abs_free k a \<Longrightarrow>
    abs_step a (CRegisterIo S src i (IoOk k)) (a\<lparr>a_sources := (a_sources a)(k \<mapsto> (None, None))\<rparr>)"
| abs_register_io_err: "abs_step a (CRegisterIo S src i (IoErr e)) a"
| abs_deregister_io: "abs_step a (CDeregisterIo S k src res) (a\<lparr>a_sources := (a_sources a)(k := None)\<rparr>)"
| abs_set_waker: "a_sources a k = Some (rw, ww) \<Longrightarrow>
    abs_step a (CSetWaker k i w)
      (a\<lparr>a_sources := (a_sources a)(k \<mapsto> (if readable i then Some w else rw, if writable i then Some w else ww))\<rparr>)"
| abs_park: "now = max (os_now S) (a_clock a) \<Longrightarrow> exact_timeout (a_timers a) t now to \<Longrightarrow>
    evs = (case os_poll S (Some to) of IoOk es \<Rightarrow> collect_io_events es | IoErr e \<Rightarrow> []) \<Longrightarrow>
    distinct rs \<Longrightarrow> set rs = abs_due now a \<Longrightarrow>
    abs_step a (CPark S t)
      (a\<lparr>a_clock := now, a_timers := a_timers a |` (- abs_due now a),
         a_wakes := a_wakes a @ map (\<lambda>k. (snd (the (a_timers a k)), k)) rs @ io_wakes (a_sources a) evs\<rparr>)"

inductive abs_run :: "'w abs_reactor \<Rightarrow> 'w reactor_call list \<Rightarrow> 'w abs_reactor \<Rightarrow> bool" where
  abs_nil: "abs_run a [] a"
| abs_snoc: "abs_run a cs a1 \<Longrightarrow> abs_step a1 c a2 \<Longrightarrow> abs_run a (cs @ [c]) a2"

definition reactor_abs :: "'w reactor_thread \<Rightarrow> 'w abs_reactor" where
  "reactor_abs r = \<lparr>a_clock = elapsed (wheel r), a_timers = timers r, a_sources = sources r, a_wakes = wakes_of (rlog r)\<rparr>"

text \<open>The clock stands still and nobody is woken outside of park.\<close>

lemma elapsed_wheel_ops [simp]:
  "elapsed (wheel_insert k d w) = elapsed w" "elapsed (wheel_remove k w) = elapsed w"
  by (simp_all add: wheel_insert_def wheel_remove_def Let_def split: option.splits prod.splits)

definition quiet_step :: "'w reactor_thread \<Rightarrow> 'w reactor_thread \<Rightarrow> bool" where
  "quiet_step r r' \<longleftrightarrow> elapsed (wheel r') = elapsed (wheel r) \<and> wakes_of (rlog r') = wakes_of (rlog r) \<and>
     entered r' = entered r"

lemma quiet_register_timer: "register_timer d w r = (res, r') \<Longrightarrow> quiet_step r r'"
  by (cases r rule: alloc_resource_id_cases)
    (auto simp: register_timer_def alloc_resource_id_def quiet_step_def Let_def dest!: not_le [THEN iffD2])

lemma quiet_flush: "quiet_step r (flush_pending_deregister r)"
  by (auto simp: flush_pending_deregister_def quiet_step_def split: option.splits)

lemma quiet_trans: "quiet_step r r1 \<Longrightarrow> quiet_step r1 r2 \<Longrightarrow> quiet_step r r2"
  by (simp add: quiet_step_def)

lemma quiet_handle_register_timer:
  assumes "handle_register_timer d w r = Some (res, r')"
  shows "quiet_step r r'" "entered r"
proof -
  show "entered r" using assms by (auto simp: handle_register_timer_def with_current_reactor_def split: if_splits)
  then consider rid where "r' = r\<lparr>pending_deregister := None, resources := snd (replace_timer_waker rid w (resources r))\<rparr>"
    | "register_timer d w (flush_pending_deregister r) = (res, r')"
    using assms
    by (cases "pending_deregister r")
      (auto simp: handle_register_timer_def with_current_reactor_def flush_pending_deregister_def Let_def
        split: if_splits prod.splits)
  then show "quiet_step r r'"
  proof cases
    case 2
    show ?thesis by (rule quiet_trans [OF quiet_flush quiet_register_timer [OF 2]])
  qed (simp add: quiet_step_def)
qed

lemma quiet_handle_deregister_timer:
  assumes "handle_deregister_timer k r = Some r'"
  shows "quiet_step r r'" "entered r"
proof -
  show "entered r" using assms by (auto simp: handle_deregister_timer_def with_current_reactor_def split: if_splits)
  then have r': "r' = (case get_deadline k (wheel (flush_pending_deregister r)) of
      Some d \<Rightarrow> (flush_pending_deregister r)\<lparr>pending_deregister := Some (k, d)\<rparr>
    | None \<Rightarrow> deregister_timer k (flush_pending_deregister r))"
    using assms by (auto simp: handle_deregister_timer_def with_current_reactor_def flush_pending_deregister_def
        Let_def split: option.splits)
  have "quiet_step (flush_pending_deregister r) r'"
    by (auto simp: r' quiet_step_def deregister_timer_def Let_def split: option.splits)
  then show "quiet_step r r'" using quiet_trans [OF quiet_flush] by blast
qed

lemma quiet_handle_io:
  "handle_register_io_resource S src i r = Some (res, r') \<Longrightarrow> quiet_step r r' \<and> entered r"
  "handle_deregister_io_resource S k src r = Some (res2, r') \<Longrightarrow> quiet_step r r' \<and> entered r"
  "handle_set_waker k i w r = Some r' \<Longrightarrow> quiet_step r r' \<and> entered r"
proof -
  show "quiet_step r r' \<and> entered r" if "handle_register_io_resource S src i r = Some (res, r')"
    using that
    by (cases r rule: alloc_resource_id_cases)
      (auto simp: handle_register_io_resource_def with_current_reactor_def register_io_resource_def
        alloc_resource_id_def register_io_source_action_def quiet_step_def Let_def
        split: if_splits io_result.splits dest!: not_le [THEN iffD2])
  show "quiet_step r r' \<and> entered r" if "handle_deregister_io_resource S k src r = Some (res2, r')"
    using that by (auto simp: handle_deregister_io_resource_def with_current_reactor_def deregister_io_resource_def
        deregister_io_source_action_def quiet_step_def Let_def split: if_splits)
  show "quiet_step r r' \<and> entered r" if "handle_set_waker k i w r = Some r'"
    using that by (auto simp: handle_set_waker_def with_current_reactor_def set_waker_def quiet_step_def Let_def
        split: if_splits option.splits)
qed

section \<open>Simulation\<close>

lemma registered_id:
  assumes "reactor_ok r" "timers r k \<noteq> None \<or> sources r k \<noteq> None"
  shows "k \<noteq> 0" "k < next_resource_id r"
proof -
  have "slot r k \<noteq> None" using assms(2) by (auto simp: timers_def sources_def split: option.splits)
  then have "1 \<le> k \<and> k < next_resource_id r"
    using assms(1) by (simp add: reactor_ok_iff table_ok_def)
  then show "k \<noteq> 0" "k < next_resource_id r" by auto
qed

text \<open>The simulation, one call at a time.\<close>

lemma sim_register_timer:
  assumes ok: "reactor_ok r" and st: "elapsed (wheel r) < d" "handle_register_timer d w r = Some (res, r')"
  shows "reactor_ok r' \<and> entered r' \<and> abs_step (reactor_abs r) (CRegisterTimer d w res) (reactor_abs r')"
proof -
  note q = quiet_handle_register_timer [OF st(2)]
  note h = handle_register_timer_ok [OF ok q(2) st]
  show ?thesis
  proof (cases res)
    case (IoOk k)
    then have "reactor_abs r' = (reactor_abs r)\<lparr>a_timers := (timers r)(k \<mapsto> (d, w))\<rparr>"
      using h q by (simp add: reactor_abs_def quiet_step_def)
    moreover have "k \<noteq> 0" using registered_id(1) [of r' k] h IoOk by simp
    ultimately show ?thesis
      using h IoOk abs_register_timer [of k "reactor_abs r" d w]
      by (simp add: reactor_abs_def abs_free_def)
  next
    case (IoErr e)
    then have "reactor_abs r' = reactor_abs r" using h q by (simp add: reactor_abs_def quiet_step_def)
    then show ?thesis using h IoErr abs_register_timer_err by simp
  qed
qed

lemma sim_deregister_timer:
  assumes ok: "reactor_ok r" and st: "sources r k = None" "handle_deregister_timer k r = Some r'"
  shows "reactor_ok r' \<and> entered r' \<and> abs_step (reactor_abs r) (CDeregisterTimer k) (reactor_abs r')"
proof -
  note q = quiet_handle_deregister_timer [OF st(2)]
  note h = handle_deregister_timer_ok [OF ok q(2) st]
  have "reactor_abs r' = (reactor_abs r)\<lparr>a_timers := (a_timers (reactor_abs r))(k := None)\<rparr>"
    using h q by (simp add: reactor_abs_def quiet_step_def)
  then show ?thesis using h abs_deregister_timer by simp
qed

lemma sim_register_io:
  assumes ok: "reactor_ok r" and st: "handle_register_io_resource S src i r = Some (res, r')"
  shows "reactor_ok r' \<and> entered r' \<and> abs_step (reactor_abs r) (CRegisterIo S src i res) (reactor_abs r')"
proof -
  note q = quiet_handle_io(1) [OF st]
  have "register_io_resource S src i r = (res, r')"
    using st q by (simp add: handle_register_io_resource_def with_current_reactor_def)
  note h = register_io_ok [OF ok this]
  show ?thesis
  proof (cases res)
    case (IoOk k)
    then have "reactor_abs r' = (reactor_abs r)\<lparr>a_sources := (a_sources (reactor_abs r))(k \<mapsto> (None, None))\<rparr>"
      using h q by (simp add: reactor_abs_def quiet_step_def)
    moreover have "timers r k = None" "sources r k = None" using h IoOk new_slot_free(3,4) [OF ok] by simp_all
    moreover have "k \<noteq> 0" using registered_id(1) [of r' k] h IoOk by simp
    ultimately show ?thesis
      using h q IoOk abs_register_io [of k "reactor_abs r" S src i]
      by (simp add: reactor_abs_def abs_free_def quiet_step_def)
  next
    case (IoErr e)
    then have "reactor_abs r' = reactor_abs r" using h q by (simp add: reactor_abs_def quiet_step_def)
    then show ?thesis using h q IoErr abs_register_io_err by (simp add: quiet_step_def)
  qed
qed

lemma sim_deregister_io:
  assumes ok: "reactor_ok r" and st: "sources r k \<noteq> None" "handle_deregister_io_resource S k src r = Some (res, r')"
  shows "reactor_ok r' \<and> entered r' \<and> abs_step (reactor_abs r) (CDeregisterIo S k src res) (reactor_abs r')"
proof -
  note q = quiet_handle_io(2) [OF st(2)]
  have "deregister_io_resource S k src r = (res, r')"
    using st(2) q by (simp add: handle_deregister_io_resource_def with_current_reactor_def)
  note h = deregister_io_ok [OF ok st(1) this]
  have "reactor_abs r' = (reactor_abs r)\<lparr>a_sources := (a_sources (reactor_abs r))(k := None)\<rparr>"
    using h q by (simp add: reactor_abs_def quiet_step_def)
  then show ?thesis using h q abs_deregister_io by (simp add: quiet_step_def)
qed

lemma sim_set_waker:
  assumes ok: "reactor_ok r" and st: "sources r k \<noteq> None" "handle_set_waker k i w r = Some r'"
  shows "reactor_ok r' \<and> entered r' \<and> abs_step (reactor_abs r) (CSetWaker k i w) (reactor_abs r')"
proof -
  note q = quiet_handle_io(3) [OF st(2)]
  obtain rw ww where s: "sources r k = Some (rw, ww)" using st(1) by fast
  have "set_waker k i w r = Some r'"
    using st(2) q by (auto simp: handle_set_waker_def with_current_reactor_def split: option.splits)
  with set_waker_ok [OF ok s, of i w]
  have h: "reactor_ok r'" "timers r' = timers r"
      "sources r' = (sources r)(k \<mapsto> (if readable i then Some w else rw, if writable i then Some w else ww))"
    by auto
  then have "reactor_abs r' = (reactor_abs r)\<lparr>a_sources := (a_sources (reactor_abs r))
      (k \<mapsto> (if readable i then Some w else rw, if writable i then Some w else ww))\<rparr>"
    using q by (simp add: reactor_abs_def quiet_step_def)
  then show ?thesis
    using h(1) q s abs_set_waker [of "reactor_abs r" k rw ww i w] by (simp add: quiet_step_def reactor_abs_def)
qed

lemma sim_park:
  assumes ok: "reactor_ok r" and st: "entered r" "flush_and_park S t r = r'"
  shows "reactor_ok r' \<and> entered r' \<and> abs_step (reactor_abs r) (CPark S t) (reactor_abs r')"
proof -
  let ?r1 = "flush_pending_deregister r"
  note f = flush_ok [OF ok]
  obtain res where p: "reactor_park S (Some t) ?r1 = (res, r')"
    using st(2) by (cases "reactor_park S (Some t) ?r1") (simp add: flush_and_park_def)
  obtain es rs where h: "rlog r' = rlog ?r1 @ es" "distinct rs" "set rs = due_timers (park_time S ?r1) ?r1"
      "wakes_of es = map (\<lambda>k. (timer_waker ?r1 k, k)) rs @ io_wakes (sources ?r1) (park_events S (Some t) ?r1)"
      "reactor_ok r'" "elapsed (wheel r') = park_time S ?r1" "entered r' = entered ?r1"
      "timers r' = timers ?r1 |` (- due_timers (park_time S ?r1) ?r1)" "sources r' = sources ?r1"
    using reactor_park_ok [OF f(1,2) p] by blast
  obtain to where to: "park_timeout S (Some t) ?r1 = Some to" "exact_timeout (timers r) t (park_time S ?r1) to"
    using park_timeout_exact [OF f(1,2), of S t] f by auto
  have now: "park_time S ?r1 = max (os_now S) (a_clock (reactor_abs r))" "due_timers (park_time S ?r1) ?r1 = abs_due (park_time S ?r1) (reactor_abs r)"
    by (simp_all add: park_time_def due_timers_def abs_due_def reactor_abs_def f)
  have "reactor_abs r' = (reactor_abs r)\<lparr>a_clock := park_time S ?r1,
      a_timers := a_timers (reactor_abs r) |` (- abs_due (park_time S ?r1) (reactor_abs r)),
      a_wakes := a_wakes (reactor_abs r) @ map (\<lambda>k. (snd (the (a_timers (reactor_abs r) k)), k)) rs @
        io_wakes (a_sources (reactor_abs r)) (park_events S (Some t) ?r1)\<rparr>"
    using h(1,4,6,8,9) f now(2) by (simp add: reactor_abs_def timer_waker_def)
  moreover have "abs_step (reactor_abs r) (CPark S t) \<dots>"
    by (rule abs_park [where to = to]) (use h(2,3) now to in \<open>simp_all add: park_events_def reactor_abs_def split: io_result.splits\<close>)
  ultimately show ?thesis using h(5,7) f st(1) by simp
qed

lemmas sim_calls = sim_register_timer sim_deregister_timer sim_register_io sim_deregister_io sim_set_waker sim_park

lemma reactor_step_simulates:
  assumes ok: "reactor_ok r" and st: "reactor_step r c r'"
  shows "reactor_ok r' \<and> entered r' \<and> abs_step (reactor_abs r) c (reactor_abs r')"
  using st by cases (simp_all add: sim_calls [OF ok])

section \<open>Runs\<close>

lemma reactor_run_ok:
  assumes "reactor_run r cs r'" "reactor_ok r" "entered r"
  shows "reactor_ok r' \<and> entered r' \<and> abs_run (reactor_abs r) cs (reactor_abs r')"
  using assms
proof induction
  case (run_nil r)
  then show ?case by (simp add: abs_nil)
next
  case (run_snoc r cs r1 c r2)
  then show ?case using reactor_step_simulates [of r1 c r2] abs_snoc by blast
qed

lemma reactor_ok_start: "reactor_ok (reactor_enter reactor_new)" "entered (reactor_enter reactor_new)"
  using reactor_ok_new by (simp_all add: reactor_ok_def reactor_enter_def)

lemma reactor_abs_start:
  "reactor_abs (reactor_enter reactor_new) = \<lparr>a_clock = 0, a_timers = Map.empty, a_sources = Map.empty, a_wakes = []\<rparr>"
  using tw.inv_empty
  by (simp add: reactor_abs_def reactor_enter_def reactor_new_def timers_def sources_def slab_get_view fun_eq_iff)

lemma reactor_run_append:
  "reactor_run r (cs @ ds) r2 \<longleftrightarrow> (\<exists>r1. reactor_run r cs r1 \<and> reactor_run r1 ds r2)"
proof (induction ds arbitrary: r2 rule: rev_induct)
  case Nil
  then show ?case by (auto elim: reactor_run.cases intro: run_nil)
next
  case (snoc d ds)
  have "reactor_run r (cs @ ds @ [d]) r2 \<longleftrightarrow> (\<exists>r1. reactor_run r (cs @ ds) r1 \<and> reactor_step r1 d r2)" for r cs
    using reactor_run.simps [of r "cs @ ds @ [d]" r2] by auto
  from this this [of _ "[]"] snoc show ?case by auto
qed

lemma reactor_run_single: "reactor_run r [c] r' \<longleftrightarrow> reactor_step r c r'"
  using reactor_run.simps [of r "[c]" r'] reactor_run.simps [of r "[]"] by auto

section \<open>What happens to one timer\<close>

text \<open>A call that leaves the timer \<open>k\<close> with deadline \<open>d\<close> in place: it does not cancel it, and no park reaches the deadline.\<close>

fun spares :: "u64 \<Rightarrow> instant \<Rightarrow> 'w reactor_call \<Rightarrow> bool" where
  "spares k d (CDeregisterTimer j) \<longleftrightarrow> j \<noteq> k"
| "spares k d (CPark S t) \<longleftrightarrow> os_now S < d"
| "spares k d c \<longleftrightarrow> True"

lemma abs_step_spares:
  assumes "abs_step a c a'" "a_timers a k = Some (d, w)" "a_clock a < d" "spares k d c"
  shows "a_timers a' k = Some (d, w) \<and> a_clock a' < d"
  using assms by cases (auto simp: abs_free_def abs_due_def restrict_map_def max_def split: if_splits)

lemma reactor_run_spares:
  assumes "reactor_run r cs r'" "reactor_ok r" "entered r" "timers r k = Some (d, w)" "elapsed (wheel r) < d"
    "\<forall>c \<in> set cs. spares k d c"
  shows "timers r' k = Some (d, w) \<and> elapsed (wheel r') < d"
  using assms
proof induction
  case (run_snoc r cs r1 c r2)
  then have "reactor_ok r1" using reactor_run_ok by blast
  with run_snoc.hyps(2) have "abs_step (reactor_abs r1) c (reactor_abs r2)"
    using reactor_step_simulates by blast
  from abs_step_spares [OF this, of k d w] run_snoc show ?case by (auto simp: reactor_abs_def)
qed simp

lemma not_both: "timers r k \<noteq> None \<Longrightarrow> sources r k = None"
  by (auto simp: timers_def sources_def split: option.splits resource_slot.splits if_splits)

lemma io_wakes_iff:
  "(w, k) \<in> set (io_wakes src evs) \<longleftrightarrow>
     (\<exists>e \<in> set evs. ev_rid e = k \<and> ev_mode e = IoReadable) \<and> (\<exists>ww. src k = Some (Some w, ww)) \<or>
     (\<exists>e \<in> set evs. ev_rid e = k \<and> ev_mode e = IoWritable) \<and> (\<exists>rw. src k = Some (rw, Some w))"
proof (induction evs)
  case (Cons e evs)
  then show ?case
    by (cases "ev_mode e"; cases "src (ev_rid e)") (auto split: option.splits)
qed simp

lemma io_wakes_rids: "(w, k) \<in> set (io_wakes src evs) \<Longrightarrow> src k \<noteq> None"
  by (auto simp: io_wakes_iff)

lemma io_wakes_collect:
  "(w, k) \<in> set (io_wakes src (collect_io_events es)) \<longleftrightarrow>
     (\<exists>x \<in> set es. decode_token_raw (token x) = k \<and>
        (mio_readable x \<and> (\<exists>ww. src k = Some (Some w, ww)) \<or> mio_writable x \<and> (\<exists>rw. src k = Some (rw, Some w))))"
  unfolding io_wakes_iff collect_io_events_iff by auto

text \<open>The wakes a park adds to the log.\<close>

definition new_wakes :: "'w reactor_thread \<Rightarrow> 'w reactor_thread \<Rightarrow> ('w \<times> u64) list" where
  "new_wakes r r' = drop (length (wakes_of (rlog r))) (wakes_of (rlog r'))"

lemma park_new_wakes:
  assumes ok: "reactor_ok r" and en: "entered r"
  obtains to rs where "exact_timeout (timers r) t (park_time S r) to" "distinct rs"
    "set rs = due_timers (park_time S r) r"
    "new_wakes r (flush_and_park S t r) = map (\<lambda>k. (timer_waker r k, k)) rs @
       io_wakes (sources r) (case os_poll S (Some to) of IoOk es \<Rightarrow> collect_io_events es | IoErr e \<Rightarrow> [])"
    "reactor_ok (flush_and_park S t r)" "entered (flush_and_park S t r)"
    "timers (flush_and_park S t r) = timers r |` (- due_timers (park_time S r) r)"
proof -
  have "reactor_step r (CPark S t) (flush_and_park S t r)" by (rule step_park [OF en refl])
  from reactor_step_simulates [OF ok this]
  have k: "reactor_ok (flush_and_park S t r)" "entered (flush_and_park S t r)"
    and st: "abs_step (reactor_abs r) (CPark S t) (reactor_abs (flush_and_park S t r))" by blast+
  have eq: "abs_due now (reactor_abs r) = due_timers now r" "max (os_now S) (a_clock (reactor_abs r)) = park_time S r" for now
    by (simp_all add: abs_due_def due_timers_def reactor_abs_def park_time_def)
  from st show ?thesis
  proof cases
    case (abs_park now to evs rs)
    from that [of to rs] abs_park k eq show ?thesis
      by (simp add: reactor_abs_def new_wakes_def timer_waker_def)
  qed
qed

text \<open>What a park does about one armed timer.\<close>

lemma armed_timer_park:
  fixes S :: os and t :: duration
  assumes ok: "reactor_ok r" "entered r" and k: "timers r k = Some (d, w)" "elapsed (wheel r) < d"
  shows "filter (\<lambda>x. snd x = k) (new_wakes r (flush_and_park S t r)) = (if d \<le> os_now S then [(w, k)] else []) \<and>
    timers (flush_and_park S t r) k = (if d \<le> os_now S then None else Some (d, w))"
proof -
  have due: "k \<in> due_timers (park_time S r) r \<longleftrightarrow> d \<le> os_now S"
    using k by (auto simp: due_timers_def park_time_def max_def)
  obtain to rs where p: "distinct rs" "set rs = due_timers (park_time S r) r"
      "new_wakes r (flush_and_park S t r) = map (\<lambda>k. (timer_waker r k, k)) rs @
        io_wakes (sources r) (case os_poll S (Some to) of IoOk es \<Rightarrow> collect_io_events es | IoErr e \<Rightarrow> [])"
      "timers (flush_and_park S t r) = timers r |` (- due_timers (park_time S r) r)"
    by (rule park_new_wakes [OF ok])
  have io: "filter (\<lambda>x. snd x = k) (io_wakes (sources r) evs) = []" for evs
    using io_wakes_rids [of _ k "sources r" evs] not_both [of r k] k(1) by (auto simp: filter_empty_conv)
  have one: "filter (\<lambda>x. snd x = k) (map (\<lambda>k. (f k, k)) xs) = (if k \<in> set xs then [(f k, k)] else [])"
    if "distinct xs" for f :: "u64 \<Rightarrow> 'a" and xs
    using that by (induction xs) auto
  show ?thesis
    using one [OF p(1), of "timer_waker r"] io p(2,3,4) due k(1) by (simp add: timer_waker_def restrict_map_def)
qed

text \<open>Cancelling a live timer defers it: nothing is logged and the timer stays where it is.\<close>

lemma handle_deregister_live:
  assumes "reactor_ok r" "entered r" "timers r k = Some (d, w)"
  shows "handle_deregister_timer k r = Some ((flush_pending_deregister r)\<lparr>pending_deregister := Some (k, d)\<rparr>)"
proof -
  let ?f = "flush_pending_deregister r"
  note f = flush_ok [OF assms(1)]
  have t: "table_ok (next_resource_id ?f) (wheel_view (wheel ?f)) (slot ?f)" using f(1) by (simp add: reactor_ok_iff)
  have "wheel_view (wheel ?f) k = Some d" using wheel_view_timers [OF t f(2), of k] assms(3) f(3) by simp
  then have "get_deadline k (wheel ?f) = Some d" by (simp add: get_deadline_def vm_get_view wheel_view_def)
  then show ?thesis
    using assms(2) by (cases "pending_deregister r")
      (auto simp: handle_deregister_timer_def with_current_reactor_def flush_pending_deregister_def Let_def)
qed

section \<open>Properties\<close>

text \<open>A system whose poll finds nothing, for the concrete runs below.\<close>

definition idle_os :: "instant \<Rightarrow> os" where
  "idle_os now = \<lparr>os_register = \<lambda>_ _ _. IoOk (), os_deregister = \<lambda>_. IoOk (), os_poll = \<lambda>_. IoOk [], os_now = now\<rparr>"

lemma first_timer_run:
  obtains r where "reactor_run (reactor_enter reactor_new) [CRegisterTimer 5 (42 :: nat) (IoOk 1)] r"
    "reactor_ok r" "entered r" "timers r 1 = Some (5, 42)"
proof -
  let ?r = "reactor_enter reactor_new :: nat reactor_thread"
  have r: "next_resource_id ?r = 1" "pending_deregister ?r = None" "elapsed (wheel ?r) < 5"
    using tw.inv_empty by (simp_all add: reactor_enter_def reactor_new_def)
  have "\<exists>r'. register_timer 5 42 ?r = (IoOk 1, r')"
    by (simp add: register_timer_def alloc_resource_id_def Let_def r word_le_nat_alt unat_u64_max)
  then obtain r' where h: "handle_register_timer 5 42 ?r = Some (IoOk 1, r')"
    using r(2) by (auto simp: handle_register_timer_def with_current_reactor_def reactor_ok_start)
  from step_register_timer [OF r(3) this] have "reactor_run ?r [CRegisterTimer 5 42 (IoOk 1)] r'"
    by (simp add: reactor_run_single)
  then show ?thesis using that [of r'] handle_register_timer_ok [OF reactor_ok_start r(3) h] by simp
qed

text \<open>
  C13: The reactor refines the abstract reactor.  Every sequence of calls made in a reactor context,
  from a new reactor on, keeps the data invariant and is a run of the specification: registering
  yields a free non-zero id, cancelling and setting wakers change one entry, and a park waits no
  longer than its timeout and the next deadline and then wakes the due timers and the sources of
  the reported events, and nobody else.
\<close>

theorem reactor_refines:
  assumes "reactor_run (reactor_enter reactor_new) cs r"
  shows "reactor_ok r \<and>
    abs_run \<lparr>a_clock = 0, a_timers = Map.empty, a_sources = Map.empty, a_wakes = []\<rparr> cs (reactor_abs r)"
  using reactor_run_ok [OF assms reactor_ok_start] by (simp add: reactor_abs_start)

theorem reactor_refines_witness:
  "\<exists>r. reactor_run (reactor_enter reactor_new) [CRegisterTimer 5 (42 :: nat) (IoOk 1)] r \<and> reactor_ok r"
  by (rule first_timer_run) (use reactor_refines in blast)

text \<open>
  C14: A timer fires exactly once, on time and with the waker it was registered with.  Take any run
  in which a registration with deadline \<open>d\<close> and waker \<open>w\<close> succeeded with id \<open>k\<close> and after which no
  call cancelled \<open>k\<close> and no park saw the deadline pass.  The next park calls \<open>w\<close> once for \<open>k\<close> when
  the deadline has passed, forgetting the timer, and otherwise does not wake for \<open>k\<close> and keeps it.
\<close>

theorem timer_fires_once:
  assumes "reactor_run (reactor_enter reactor_new) (cs @ CRegisterTimer d w (IoOk k) # ds) r"
    "\<forall>c \<in> set ds. spares k d c"
  shows "filter (\<lambda>x. snd x = k) (new_wakes r (flush_and_park S t r)) = (if d \<le> os_now S then [(w, k)] else []) \<and>
    timers (flush_and_park S t r) k = (if d \<le> os_now S then None else Some (d, w))"
proof -
  obtain r0 r1 where run: "reactor_run (reactor_enter reactor_new) cs r0"
      "reactor_run r0 [CRegisterTimer d w (IoOk k)] r1" "reactor_run r1 ds r"
    using assms(1) reactor_run_append [of _ cs "_ # ds"] reactor_run_append [of _ "[_]" ds] by auto
  have ok0: "reactor_ok r0" "entered r0" using reactor_run_ok [OF run(1) reactor_ok_start] by blast+
  have "reactor_step r0 (CRegisterTimer d w (IoOk k)) r1"
    using run(2) by (simp add: reactor_run_single)
  then have h: "elapsed (wheel r0) < d" "handle_register_timer d w r0 = Some (IoOk k, r1)"
    by (auto elim: reactor_stepE)
  have "timers r1 k = Some (d, w)" "elapsed (wheel r1) < d" "reactor_ok r1" "entered r1"
    using handle_register_timer_ok [OF ok0 h] quiet_handle_register_timer(1) [OF h(2)] h(1) by (simp_all add: quiet_step_def)
  then have k: "timers r k = Some (d, w)" "elapsed (wheel r) < d" and ok: "reactor_ok r" "entered r"
    using reactor_run_spares [OF run(3)] reactor_run_ok [OF run(3)] assms(2) by auto
  show ?thesis by (rule armed_timer_park [OF ok k])
qed

theorem timer_fires_once_witness:
  "\<exists>r. filter (\<lambda>x. snd x = 1) (new_wakes r (flush_and_park (idle_os 7) 10 r)) = [(42 :: nat, 1)]"
proof -
  obtain r where "reactor_run (reactor_enter reactor_new) ([] @ CRegisterTimer 5 (42 :: nat) (IoOk 1) # []) r"
    by (rule first_timer_run) simp
  from timer_fires_once [OF this, of "idle_os 7" 10] show ?thesis by (auto simp: idle_os_def)
qed

text \<open>
  C15: Who is woken by a park, exactly.  When the poll delivers the events \<open>es\<close>, the waker \<open>w\<close> is
  called for the resource \<open>k\<close> iff \<open>k\<close> is a timer with waker \<open>w\<close> whose deadline has passed, or one of
  the events carries the token \<open>k\<close> was registered with, in a direction in which \<open>w\<close> is the waker of
  \<open>k\<close>.  In particular the token 0 of the interrupt handle wakes nobody.
\<close>

theorem park_wakes_iff:
  assumes "reactor_run (reactor_enter reactor_new) cs r" "\<forall>to. os_poll S to = IoOk es"
  shows "((w, k) \<in> set (new_wakes r (flush_and_park S t r)) \<longleftrightarrow>
      (\<exists>d \<le> max (os_now S) (elapsed (wheel r)). timers r k = Some (d, w)) \<or>
      (\<exists>x \<in> set es. decode_token_raw (token x) = k \<and>
         (mio_readable x \<and> (\<exists>ww. sources r k = Some (Some w, ww)) \<or>
          mio_writable x \<and> (\<exists>rw. sources r k = Some (rw, Some w))))) \<and>
    (w, 0) \<notin> set (new_wakes r (flush_and_park S t r))"
proof -
  note ok = reactor_run_ok [OF assms(1) reactor_ok_start]
  obtain to rs where p: "set rs = due_timers (park_time S r) r"
      "new_wakes r (flush_and_park S t r) = map (\<lambda>k. (timer_waker r k, k)) rs @
        io_wakes (sources r) (case os_poll S (Some to) of IoOk es \<Rightarrow> collect_io_events es | IoErr e \<Rightarrow> [])"
    by (rule park_new_wakes [of r t S]) (use ok in blast)+
  have "(w, k) \<in> (\<lambda>k. (timer_waker r k, k)) ` set rs \<longleftrightarrow>
      (\<exists>d \<le> max (os_now S) (elapsed (wheel r)). timers r k = Some (d, w))" for k
    unfolding p(1) by (force simp: due_timers_def timer_waker_def park_time_def image_iff)
  then have iff: "(w, k) \<in> set (new_wakes r (flush_and_park S t r)) \<longleftrightarrow>
      (\<exists>d \<le> max (os_now S) (elapsed (wheel r)). timers r k = Some (d, w)) \<or>
      (\<exists>x \<in> set es. decode_token_raw (token x) = k \<and>
         (mio_readable x \<and> (\<exists>ww. sources r k = Some (Some w, ww)) \<or>
          mio_writable x \<and> (\<exists>rw. sources r k = Some (rw, Some w))))" for k
    unfolding p(2) using assms(2) by (simp add: io_wakes_collect)
  have "(w, 0) \<notin> set (new_wakes r (flush_and_park S t r))"
    using iff [of 0] registered_id(1) [of r 0] ok by auto
  with iff [of k] show ?thesis by blast
qed

theorem park_wakes_iff_witness:
  "\<exists>r. (42 :: nat, 1) \<in> set (new_wakes r (flush_and_park (idle_os 7) 10 r)) \<and>
     (42, 0) \<notin> set (new_wakes r (flush_and_park (idle_os 7) 10 r))"
proof -
  obtain r where r: "reactor_run (reactor_enter reactor_new) [CRegisterTimer 5 (42 :: nat) (IoOk 1)] r"
      "timers r 1 = Some (5, 42)" by (rule first_timer_run)
  have "\<forall>to. os_poll (idle_os 7) to = IoOk []" by (simp add: idle_os_def)
  then show ?thesis
    using park_wakes_iff [OF r(1), of "idle_os 7" "[]" 42 1 10]
    by (intro exI [of _ r]) (auto simp: idle_os_def r(2) max.coboundedI1)
qed

text \<open>The wheel loses the timer whose cancellation was deferred before, and nothing else.\<close>

lemma flush_wheel:
  "wheel (flush_pending_deregister r) =
     (case pending_deregister r of None \<Rightarrow> wheel r | Some (j, _) \<Rightarrow> wheel_remove j (wheel r))"
  by (simp add: flush_pending_deregister_def split: option.splits prod.splits)

lemma timer_rearm:
  assumes "reactor_ok r" "entered r" "timers r k = Some (d, w0)"
  shows "\<exists>r1 r2. handle_deregister_timer k r = Some r1 \<and> timers r1 = (timers r)(k := None) \<and>
    handle_register_timer d w r1 = Some (IoOk k, r2) \<and> timers r2 = (timers r)(k \<mapsto> (d, w)) \<and>
    reactor_ok r2 \<and> wheel r2 = wheel (flush_pending_deregister r) \<and>
    next_resource_id r2 = next_resource_id r \<and> rlog r2 = rlog r"
proof -
  let ?f = "flush_pending_deregister r"
  note f = flush_ok [OF assms(1)]
  let ?r1 = "?f\<lparr>pending_deregister := Some (k, d)\<rparr>"
  note r1 = handle_deregister_live [OF assms]
  have "sources r k = None" using not_both [of r k] assms(3) by simp
  note d = handle_deregister_timer_ok [OF assms(1,2) this r1]
  define r2 where "r2 = ?r1\<lparr>pending_deregister := None, resources := snd (replace_timer_waker k w (resources ?r1))\<rparr>"
  have "resource_contains k (resources ?r1)"
    using pending_timer(1) [OF d(1), of k d] by (auto simp: resource_contains_def)
  then have r2: "handle_register_timer d w ?r1 = Some (IoOk k, r2)"
    using d(4) by (simp add: handle_register_timer_def with_current_reactor_def r2_def Let_def)
  note u = reuse_timer_ok [OF d(1), of k d r2 w, simplified]
  show ?thesis
    by (intro exI conjI, rule r1, rule d(2), rule r2) (use u d f in \<open>simp_all add: r2_def\<close>)
qed

text \<open>
  C16: Cancelling a timer and registering a timer with the same deadline next, as an interval or a
  renewed sleep does, is a round trip: the second call gives back the id of the first timer, which
  now carries the new waker, the other timers are as before, and neither the id counter nor the log
  moves.  The wheel is not touched on behalf of this timer: it is the wheel of before when no
  cancellation was deferred, and else it has lost the one timer whose cancellation, deferred by an
  earlier call, the first of the two calls carries out.
\<close>

theorem timer_rearm_roundtrip:
  assumes "reactor_ok r" "entered r" "timers r k = Some (d, w0)"
  shows "\<exists>r1 r2. handle_deregister_timer k r = Some r1 \<and> timers r1 = (timers r)(k := None) \<and>
    handle_register_timer d w r1 = Some (IoOk k, r2) \<and> timers r2 = (timers r)(k \<mapsto> (d, w)) \<and>
    reactor_ok r2 \<and> wheel r2 = wheel (flush_pending_deregister r) \<and>
    wheel r2 = (case pending_deregister r of None \<Rightarrow> wheel r | Some (j, _) \<Rightarrow> wheel_remove j (wheel r)) \<and>
    next_resource_id r2 = next_resource_id r \<and> rlog r2 = rlog r"
  using timer_rearm [OF assms, of w] by (simp add: flush_wheel)

theorem timer_rearm_roundtrip_witness:
  "\<exists>r r1 r2. timers r 1 = Some (5, 42 :: nat) \<and> handle_deregister_timer 1 r = Some r1 \<and>
     handle_register_timer 5 43 r1 = Some (IoOk 1, r2) \<and> timers r2 1 = Some (5, 43)"
proof -
  obtain r where r: "reactor_ok r" "entered r" "timers r 1 = Some (5, 42 :: nat)" by (rule first_timer_run)
  from timer_rearm_roundtrip [OF r, of 43] r(3) show ?thesis by auto
qed

text \<open>
  C17: Running out of resource ids is an error value, not a wrap-around.  When the counter has reached
  \<open>u64::MAX\<close>, registering a timer or an I/O source returns the overflow error before anything is
  asked of the operating system, and nothing but the log changes; below it a timer registration
  always succeeds with the counter's value, and the counter never comes back to a value it had.
\<close>

theorem registration_overflow:
  "if next_resource_id r = u64_max
   then
     register_timer d w r =
       (IoErr resource_id_overflow,
        r\<lparr>rlog := rlog r @ [RInbound (RegisterTimer d w None),
            RInbound (RegisterTimer d w (Some (IoErr resource_id_overflow)))]\<rparr>) \<and>
     register_io_resource S src i r =
       (IoErr resource_id_overflow,
        r\<lparr>rlog := rlog r @ [RInbound (RegisterIoResource src i None),
            RInbound (RegisterIoResource src i (Some (IoErr resource_id_overflow)))]\<rparr>)
   else
     fst (register_timer d w r) = IoOk (next_resource_id r) \<and>
     unat (next_resource_id (snd (register_timer d w r))) = Suc (unat (next_resource_id r)) \<and>
     unat (next_resource_id (snd (register_io_resource S src i r))) = Suc (unat (next_resource_id r))"
proof (cases "next_resource_id r = u64_max")
  case True
  then show ?thesis
    by (simp add: register_timer_def register_io_resource_def alloc_resource_id_def log_in_def Let_def)
next
  case False
  then have lt: "\<not> u64_max \<le> next_resource_id r" by (metis word_order.extremum_unique)
  then have "unat (next_resource_id r + 1) = Suc (unat (next_resource_id r))"
    by (simp add: word_le_nat_alt unat_u64_max unat_word_ariths)
  then show ?thesis
    using lt False by (simp add: register_timer_def register_io_resource_def register_io_source_action_def
        alloc_resource_id_def Let_def split: io_result.splits)
qed

text \<open>
  The readiness flags are two independent sets of resource ids: after \<open>init_readiness\<close> both flags
  of the id are up; marking and clearing change the one flag of the one id, marking only for ids
  that were initialised; clearing after marking takes the flag down again.
\<close>

lemma readiness_laws:
  "is_readable j (init_readiness k v) = (j = k \<or> is_readable j v) \<and>
   is_writable j (init_readiness k v) = (j = k \<or> is_writable j v) \<and>
   is_readable j (mark_readable k v) = (is_readable j v \<or> j = k \<and> unat k < length v) \<and>
   is_writable j (mark_readable k v) = is_writable j v \<and>
   is_writable j (mark_writable k v) = (is_writable j v \<or> j = k \<and> unat k < length v) \<and>
   is_readable j (mark_writable k v) = is_readable j v \<and>
   is_readable j (clear_readable k v) = (is_readable j v \<and> j \<noteq> k) \<and>
   is_writable j (clear_readable k v) = is_writable j v \<and>
   is_writable j (clear_writable k v) = (is_writable j v \<and> j \<noteq> k) \<and>
   is_readable j (clear_writable k v) = is_readable j v"
proof -
  have b: "bit READABLE 0" "bit READABLE (Suc 0) = False" by (simp_all add: READABLE_def bit_1_iff)
  have ne: "unat k \<noteq> unat j" if "j \<noteq> k" using that by (simp add: word_unat_eq_iff)
  show ?thesis
    by (cases "j = k"; cases "unat k < length v"; cases "unat j < length v"; intro conjI)
      (simp_all add: readiness_defs nth_vec_resize flag_bits b ne)
qed

text \<open>
  Time arithmetic saturates instead of wrapping: seconds convert to milliseconds and instants add
  and subtract durations exactly, cut off at \<open>u64::MAX\<close> and at 0; so a deadline computed from a
  huge timeout lies in the far future and never in the past.
\<close>

lemma time_saturates:
  "unat (from_secs s) = min (unat s * 1000) (2 ^ 64 - 1) \<and>
   unat (instant_add i d) = min (unat i + unat d) (2 ^ 64 - 1) \<and>
   unat (instant_sub i d) = unat i - unat d \<and>
   unat (instant_elapsed i j) = unat i - unat j \<and> i \<le> instant_add i d"
proof -
  have "unat i < 2 ^ 64" using unsigned_less [of i, where ?'a = nat] by simp
  then have "i \<le> instant_add i d" by (simp add: word_le_nat_alt instant_add_saturates)
  then show ?thesis
    using instant_sub_saturates [of i j, unfolded instant_sub_def]
    by (simp add: from_secs_saturates instant_add_saturates instant_sub_saturates instant_elapsed_def)
qed

end
