(* ===== verification/Runtime.thy ===== *)
theory Runtime
  imports Executor_Props Reactor_Props
begin

text \<open>
  The runtime: the executor with the reactor behind it.  The executor's environment is completed
  with the reactor's park (\<open>park_action\<close> of \<^verbatim>\<open>lion-executor/src/executor/ext.rs\<close>); a waker in the
  reactor is a wake action of the executor.  Futures reach the reactor through the handle layer
  only.  The theorems follow a timer from the reactor to the poll of its task, in runs of \<open>block_on\<close>.
\<close>

section \<open>Composition\<close>

type_synonym lion_reactor = "wake_action reactor_thread"

definition runtime_env :: "(log \<Rightarrow> os) \<Rightarrow> ('f, lion_reactor) env \<Rightarrow> ('f, lion_reactor) env" where
  "runtime_env OS E = E\<lparr>reactor_park := (\<lambda>r timeout l.
     let r' = flush_and_park (OS l) timeout r in (r', map fst (new_wakes r r')))\<rparr>"

definition runtime_new :: "'f task list \<Rightarrow> nat \<Rightarrow> nat \<Rightarrow> u64 \<Rightarrow> ('f, lion_reactor) world" where
  "runtime_new chan interval thread counter =
     executor_new (reactor_enter reactor_new) chan interval (tls_new (Some thread)) counter"

lemma runtime_env_sel [simp]:
  "future_poll (runtime_env OS E) = future_poll E" "remote_spawns (runtime_env OS E) = remote_spawns E"
  "remote_wakes (runtime_env OS E) = remote_wakes E"
  "env.reactor_park (runtime_env OS E) r t l =
     (flush_and_park (OS l) t r, map fst (new_wakes r (flush_and_park (OS l) t r)))"
  by (simp_all add: runtime_env_def Let_def)

text \<open>
  The interface the futures use: a poll makes calls of the handle layer, with the wakers of injected
  tasks or of \<open>block_on\<close>, and other threads wake injected tasks.
\<close>

definition known :: "log \<Rightarrow> wake_action \<Rightarrow> bool" where
  "known l a \<longleftrightarrow> wake_target a \<in> insert u64_max (injected l)"

fun call_known :: "log \<Rightarrow> wake_action reactor_call \<Rightarrow> bool" where
  "call_known l (CRegisterTimer d w res) \<longleftrightarrow> known l w"
| "call_known l (CSetWaker k i w) \<longleftrightarrow> known l w"
| "call_known l (CPark S t) \<longleftrightarrow> False"
| "call_known l c \<longleftrightarrow> True"

definition handle_client :: "('f, lion_reactor) env \<Rightarrow> bool" where
  "handle_client E \<longleftrightarrow>
     (\<forall>f r l ready f' r' acts. reactor_ok r \<and> entered r \<and> future_poll E f r l = (ready, f', r', acts) \<longrightarrow>
        (\<exists>cs. reactor_run r cs r' \<and> (\<forall>c \<in> set cs. call_known l c)) \<and>
        (\<forall>a \<in> set acts. poll_targets a \<subseteq> insert u64_max (injected l))) \<and>
     (\<forall>l. set (remote_wakes E l) \<subseteq> insert u64_max (injected l))"

lemma handle_clientD:
  assumes "handle_client E" "reactor_ok r" "entered r" "future_poll E f r l = (ready, f', r', acts)"
  obtains cs where "reactor_run r cs r'" "\<forall>c \<in> set cs. call_known l c"
    "\<forall>a \<in> set acts. poll_targets a \<subseteq> insert u64_max (injected l)"
proof -
  have "(\<exists>cs. reactor_run r cs r' \<and> (\<forall>c \<in> set cs. call_known l c)) \<and>
      (\<forall>a \<in> set acts. poll_targets a \<subseteq> insert u64_max (injected l))"
    using assms unfolding handle_client_def by metis
  then show ?thesis using that by blast
qed

section \<open>The reactor's invariant\<close>

definition wakers_known :: "log \<Rightarrow> wake_action abs_reactor \<Rightarrow> bool" where
  "wakers_known l a \<longleftrightarrow>
     (\<forall>k d w. a_timers a k = Some (d, w) \<longrightarrow> known l w) \<and>
     (\<forall>k rw ww w. a_sources a k = Some (rw, ww) \<longrightarrow> rw = Some w \<or> ww = Some w \<longrightarrow> known l w)"

definition runtime_inv :: "log \<Rightarrow> lion_reactor \<Rightarrow> bool" where
  "runtime_inv l r \<longleftrightarrow> reactor_ok r \<and> entered r \<and> wakers_known l (reactor_abs r)"

lemma known_append: "known l a \<Longrightarrow> known (l @ [e]) a"
  by (auto simp: known_def injected_def)

lemma wakers_known_append: "wakers_known l a \<Longrightarrow> wakers_known (l @ [e]) a"
  unfolding wakers_known_def using known_append by blast

lemma wakers_known_step:
  assumes "abs_step a c a'" "wakers_known l a" "call_known l c \<or> (\<exists>S t. c = CPark S t)"
  shows "wakers_known l a'"
  using assms
  by cases (auto simp: wakers_known_def restrict_map_def split: if_splits)

lemma runtime_inv_run:
  assumes "reactor_run r cs r'" "runtime_inv l r" "\<forall>c \<in> set cs. call_known l c"
  shows "runtime_inv l r'"
  using assms
proof induction
  case (run_snoc r cs r1 c r2)
  then have "runtime_inv l r1" by simp
  then show ?case
    using reactor_step_simulates [of r1 c r2] run_snoc wakers_known_step [of "reactor_abs r1" c "reactor_abs r2" l]
    by (simp add: runtime_inv_def)
qed

lemma runtime_inv_park:
  assumes "runtime_inv l r"
  shows "runtime_inv l (flush_and_park S t r)" "\<forall>a \<in> fst ` set (new_wakes r (flush_and_park S t r)). known l a"
proof -
  have ok: "reactor_ok r" "entered r" using assms by (simp_all add: runtime_inv_def)
  have "reactor_step r (CPark S t) (flush_and_park S t r)" by (rule step_park [OF ok(2) refl])
  with reactor_step_simulates [OF ok(1) this] assms show "runtime_inv l (flush_and_park S t r)"
    using wakers_known_step [of "reactor_abs r" "CPark S t"] by (auto simp: runtime_inv_def)
  obtain to rs where p: "set rs = due_timers (park_time S r) r"
      "new_wakes r (flush_and_park S t r) = map (\<lambda>k. (timer_waker r k, k)) rs @
        io_wakes (sources r) (case os_poll S (Some to) of IoOk es \<Rightarrow> collect_io_events es | IoErr e \<Rightarrow> [])"
    by (rule park_new_wakes [OF ok, of t S])
  have kn: "wakers_known l (reactor_abs r)" using assms by (simp add: runtime_inv_def)
  have "known l (timer_waker r k)" if "k \<in> set rs" for k
    using that kn unfolding p(1) by (auto simp: due_timers_def timer_waker_def wakers_known_def reactor_abs_def)
  moreover have "known l w" if "(w, k) \<in> set (io_wakes (sources r) evs)" for w k evs
    using that kn by (auto simp: io_wakes_iff wakers_known_def reactor_abs_def)
  ultimately show "\<forall>a \<in> fst ` set (new_wakes r (flush_and_park S t r)). known l a"
    unfolding p(2) by auto
qed

lemma runtime_inv_start: "runtime_inv [] (reactor_enter reactor_new)"
  by (simp add: runtime_inv_def reactor_ok_start reactor_abs_start wakers_known_def)

text \<open>So the runtime's environment keeps to what the executor asks for.\<close>

lemma runtime_wakes_known:
  assumes "handle_client E"
  shows "wakes_known runtime_inv (runtime_env OS E)"
  unfolding wakes_known_def
proof (intro conjI allI impI)
  show "runtime_inv (l @ [e]) r" if "runtime_inv l r" for l e r
    using that wakers_known_append by (auto simp: runtime_inv_def)
  show "set (remote_wakes (runtime_env OS E) l) \<subseteq> insert u64_max (injected l)" for l
    using assms by (simp add: handle_client_def)
next
  fix f r l ready f' r' acts
  assume p: "runtime_inv l r \<and> future_poll (runtime_env OS E) f r l = (ready, f', r', acts)"
  then have "reactor_ok r" "entered r" "future_poll E f r l = (ready, f', r', acts)"
    by (simp_all add: runtime_inv_def)
  then obtain cs where "reactor_run r cs r'" "\<forall>c \<in> set cs. call_known l c"
      "\<forall>a \<in> set acts. poll_targets a \<subseteq> insert u64_max (injected l)"
    by (rule handle_clientD [OF assms])
  then show "runtime_inv l r'" "\<forall>a \<in> set acts. poll_targets a \<subseteq> insert u64_max (injected l)"
    using runtime_inv_run p by blast+
next
  fix r d l r' as
  assume "runtime_inv l r \<and> env.reactor_park (runtime_env OS E) r d l = (r', as)"
  then show "runtime_inv l r'" "\<forall>a \<in> set as. wake_target a \<in> insert u64_max (injected l)"
    using runtime_inv_park [of l r "OS l" d] by (auto simp: known_def)
qed

section \<open>From the reactor to the poll\<close>

text \<open>Before its park a tick does not look at the reactor's park.\<close>

lemma env_park_irrelevant [simp]:
  "next_task (E\<lparr>reactor_park := x\<rparr>) = next_task E"
  "poll_task (E\<lparr>reactor_park := x\<rparr>) = poll_task E"
  "pop_injection_action (E\<lparr>reactor_park := x\<rparr>) = pop_injection_action E"
proof -
  have "let_wake (E\<lparr>reactor_park := x\<rparr>) = let_wake E" "let_spawn (E\<lparr>reactor_park := x\<rparr>) = let_spawn E"
    by (simp_all add: fun_eq_iff let_wake_def let_spawn_def)
  then have d: "drain_task_ready_into_local (E\<lparr>reactor_park := x\<rparr>) = drain_task_ready_into_local E"
    and "try_recv_raw (E\<lparr>reactor_park := x\<rparr>) = try_recv_raw E"
    by (simp_all add: fun_eq_iff drain_task_ready_into_local_def take_task_ready_from_tls_def try_recv_raw_def)
  then show p: "pop_injection_action (E\<lparr>reactor_park := x\<rparr>) = pop_injection_action E"
    by (simp add: fun_eq_iff pop_injection_action_def)
  show "next_task (E\<lparr>reactor_park := x\<rparr>) = next_task E"
    by (rule ext) (unfold next_task_def d p, rule refl)
  have f: "future_poll (E\<lparr>reactor_park := x\<rparr>) = future_poll E" by simp
  show "poll_task (E\<lparr>reactor_park := x\<rparr>) = poll_task E"
    by (intro ext) (unfold poll_task_def poll_task_action_def poll_future_raw_def f, rule refl)
qed

lemma poll_loop_park_irrelevant: "poll_loop (E\<lparr>reactor_park := x\<rparr>) n c w = poll_loop E n c w"
proof -
  have "poll_while (E\<lparr>reactor_park := x\<rparr>) n c w = poll_while E n c w" for n c w
  proof (induction E n c w rule: poll_while.induct)
    case (1 E n c w)
    show ?case
      using 1 by (subst (1 2) poll_while.simps) (auto split: prod.splits option.splits)
  qed
  then have w: "poll_while (E\<lparr>reactor_park := x\<rparr>) = poll_while E" by (simp add: fun_eq_iff)
  show ?thesis unfolding poll_loop_def env_park_irrelevant w ..
qed

lemma pop_injection_park_irrelevant:
  assumes "pop_injection_loop E w = Some w'"
  shows "pop_injection_loop (E\<lparr>reactor_park := x\<rparr>) w = Some w'"
proof -
  have "\<forall>x. pop_injection_loop (E\<lparr>reactor_park := x\<rparr>) w = Some w'"
  proof (rule pop_injection_loop.raw_induct [rotated, OF assms], rule allI)
    fix loop and E :: "('a, 'b) env" and w w' :: "('a, 'b) world" and x
    assume IH: "\<And>E w w'. loop E w = Some w' \<Longrightarrow> \<forall>x. pop_injection_loop (E\<lparr>reactor_park := x\<rparr>) w = Some w'"
      and step: "(case pop_injection_action E w of (None, w1) \<Rightarrow> Some w1
        | (Some task, w1) \<Rightarrow> loop E (accept_task task w1)) = Some w'"
    then show "pop_injection_loop (E\<lparr>reactor_park := x\<rparr>) w = Some w'"
      by (subst pop_injection_loop.simps) (auto split: prod.splits option.splits)
  qed
  then show ?thesis by blast
qed

text \<open>A future may renew or add timers, but no future cancels this one.\<close>

definition keeps_timer :: "('f, lion_reactor) env \<Rightarrow> u64 \<Rightarrow> instant \<times> wake_action \<Rightarrow> bool" where
  "keeps_timer E k x \<longleftrightarrow>
     (\<forall>f r l ready f' r' acts. reactor_ok r \<and> entered r \<and> timers r k = Some x \<and> future_poll E f r l = (ready, f', r', acts) \<longrightarrow>
        timers r' k = Some x)"

lemma keeps_timer_known:
  assumes "handle_client E" "keeps_timer E k x"
  shows "wakes_known (\<lambda>l r. runtime_inv l r \<and> timers r k = Some x) ((runtime_env OS E)\<lparr>reactor_park := \<lambda>r d l. (r, [])\<rparr>)"
    (is "wakes_known _ ?E")
proof -
  note K0 = runtime_wakes_known [OF assms(1), of OS]
  show ?thesis
    unfolding wakes_known_def
  proof (intro conjI allI impI)
    fix f r l ready f' r' acts
    assume p: "(runtime_inv l r \<and> timers r k = Some x) \<and> future_poll ?E f r l = (ready, f', r', acts)"
    then show "runtime_inv l r'" "\<forall>a \<in> set acts. poll_targets a \<subseteq> insert u64_max (injected l)"
      using wakes_knownD(2) [OF K0, of l r f ready f' r' acts] by simp_all
    from p have "reactor_ok r" "entered r" "timers r k = Some x" "future_poll E f r l = (ready, f', r', acts)"
      by (simp_all add: runtime_inv_def)
    then show "timers r' k = Some x" using assms(2) unfolding keeps_timer_def by metis
  qed (use wakes_knownD(1) [OF K0, of _ _ "[_]"] wakes_knownD(4) [OF K0] in auto)
qed

lemma timer_until_park:
  assumes E: "handle_client E" "keeps_timer E k x" and I: "ok w" and N: "no_lost_wake runtime_inv w"
    and x: "timers (reactor w) k = Some x"
    and steps: "pop_injection_loop (runtime_env OS E) (wake_deferred (log_event (Inbound (Tick None)) w)) = Some w3"
      "poll_loop (runtime_env OS E) n 0 w3 = Some (c, w4)"
  shows "ok w4 \<and> no_lost_wake runtime_inv w4 \<and> timers (reactor w4) k = Some x \<and> c \<le> n \<and> (\<exists>es. elog w4 = elog w @ es)"
proof -
  let ?E = "(runtime_env OS E)\<lparr>reactor_park := \<lambda>r d l. (r, [])\<rparr>"
  let ?R = "\<lambda>l r. runtime_inv l r \<and> timers r k = Some x"
  have K: "wakes_known ?R ?E" by (rule keeps_timer_known [OF E])
  let ?w1 = "log_event (Inbound (Tick None)) w"
  have "no_lost_wake ?R ?w1"
    using N x wakes_knownD(1) [OF K, of "elog w" "reactor w" "[_]"]
    by (simp add: no_lost_wake_def) (simp add: log_event_def)
  note w2 = nlw_deferred [OF ok_tick_event [OF I] this K]
  obtain k0 where k0: "ok (wake_deferred ?w1)" "elog (wake_deferred ?w1) = elog ?w1 @ [Outbound (Drain Deferred k0)]"
    using drain_deferred_ok [OF ok_tick_event [OF I]] by (auto simp: extends_def)
  have w3: "ok w3" "no_lost_wake ?R w3" "\<exists>es. elog w3 = elog w @ es"
    using pop_injection_loop_ok [OF steps(1)] nlw_pop_injection_loop [OF pop_injection_park_irrelevant [OF steps(1)], of ?R]
      k0 w2 K by (auto simp: popped_def extends_def) (simp_all add: log_event_def)
  have p: "poll_loop ?E n 0 w3 = Some (c, w4)" using steps(2) by (simp add: poll_loop_park_irrelevant)
  have "no_lost_wake ?R w4" using nlw_poll_loop [OF w3(1,2) K p] .
  then show ?thesis
    using poll_loop_ok [OF w3(1) steps(2)] w3(3) by (auto simp: no_lost_wake_def extends_def)
qed

text \<open>Nor does the poll of the root future cancel it.\<close>

lemma timer_until_tick:
  assumes "handle_client E" "keeps_timer E k x" "no_lost_wake runtime_inv w" "timers (reactor w) k = Some x"
    and p: "poll_root (runtime_env OS E) fut w = Some ((ready, fut'), w')"
  shows "no_lost_wake runtime_inv w'" "timers (reactor w') k = Some x"
proof -
  let ?E = "(runtime_env OS E)\<lparr>reactor_park := \<lambda>r d l. (r, [])\<rparr>"
  have "poll_root ?E fut w = Some ((ready, fut'), w')" using p by (simp add: poll_root_def)
  moreover have "no_lost_wake (\<lambda>l r. runtime_inv l r \<and> timers r k = Some x) w"
    using assms(3,4) by (simp add: no_lost_wake_def)
  ultimately have "no_lost_wake (\<lambda>l r. runtime_inv l r \<and> timers r k = Some x) w'"
    using nlw_poll_root [OF _ keeps_timer_known [OF assms(1,2), of OS]] by blast
  then show "no_lost_wake runtime_inv w'" "timers (reactor w') k = Some x" by (simp_all add: no_lost_wake_def)
qed

lemma due_timer_woken:
  assumes "reactor_ok r" "entered r" "timers r k = Some (d, w)" "d \<le> os_now S"
  shows "w \<in> fst ` set (new_wakes r (flush_and_park S t r))"
proof -
  obtain to rs where p: "set rs = due_timers (park_time S r) r"
      "new_wakes r (flush_and_park S t r) = map (\<lambda>k. (timer_waker r k, k)) rs @
        io_wakes (sources r) (case os_poll S (Some to) of IoOk es \<Rightarrow> collect_io_events es | IoErr e \<Rightarrow> [])"
    by (rule park_new_wakes [OF assms(1,2), of t S])
  have "k \<in> set rs" unfolding p(1) using assms(3,4) by (auto simp: due_timers_def park_time_def max.coboundedI1)
  moreover have "timer_waker r k = w" using assms(3) by (simp add: timer_waker_def)
  ultimately show ?thesis unfolding p(2) by force
qed

text \<open>A task in the queue after the park is polled in the rest of the tick or stays queued.\<close>

lemma queued_after_park:
  assumes I: "ok w5" and t: "t \<in> set (local_queue w5)" and p: "poll_loop E n c w5 = Some (c', w6)" "c \<le> n"
  shows "\<exists>es. elog w6 = elog w5 @ es \<and> ok w6 \<and> (polled_in t es \<or> t \<in> set (local_queue w6))"
proof -
  obtain es where es: "ok w6" "elog w6 = elog w5 @ es"
    using poll_loop_ok [OF I p(1,2)] by (auto simp: extends_def)
  obtain xs ys where "fifo (elog w5) = xs @ t # ys" using I t by (auto simp: ok_def dest: split_list)
  note position = fifo_position [OF _ this, of es]
  have "t \<in> set (local_queue w6)" if np: "\<not> polled_in t es"
  proof -
    obtain zs where "fifo (elog w5 @ es) = drop (num_polls es) xs @ t # zs"
      using position [OF _ np] es by (auto simp: ok_def core_def)
    moreover have "local_queue w6 = fifo (elog w5 @ es)" using es by (simp add: ok_def)
    ultimately show ?thesis by simp
  qed
  then show ?thesis using es by blast
qed

lemma due_timer_tick:
  assumes E: "handle_client E" "keeps_timer E k (d, WakeReactor t)" and I: "ok w" and N: "no_lost_wake runtime_inv w"
    and n: "1 \<le> event_interval w" and x: "timers (reactor w) k = Some (d, WakeReactor t)"
    and t: "t \<in> injected (elog w)" and now: "\<forall>es. d \<le> os_now (OS (elog w @ es))"
    and tick: "tick (runtime_env OS E) w = Some w'"
  shows "\<exists>es. elog w' = elog w @ es \<and> ok w' \<and> event_interval w' = event_interval w \<and>
    (polled_in t es \<or> t \<in> set (local_queue w'))"
proof -
  let ?E = "runtime_env OS E"
  let ?n = "event_interval w"
  obtain w3 c w4 c' w6 where s: "pop_injection_loop ?E (wake_deferred (log_event (Inbound (Tick None)) w)) = Some w3"
      "poll_loop ?E ?n 0 w3 = Some (c, w4)" "poll_loop ?E ?n c (park ?E w4) = Some (c', w6)"
      "w' = log_event (Inbound (Tick (Some ()))) w6"
    using tick by (auto simp: tick_def Let_def bind_eq_Some_conv pop_injection_eq_loop)
  have w4: "ok w4" "no_lost_wake runtime_inv w4" "timers (reactor w4) k = Some (d, WakeReactor t)" "c \<le> ?n"
    and "\<exists>es. elog w4 = elog w @ es"
    using timer_until_park [OF E I N x s(1,2)] by blast+
  then obtain es0 where es0: "elog w4 = elog w @ es0" by blast
  have r4: "reactor_ok (reactor w4)" "entered (reactor w4)" using w4(2) by (simp_all add: no_lost_wake_def runtime_inv_def)
  have q: "t \<in> set (local_queue (park ?E w4))"
  proof (rule park_queues [OF w4(1,2) runtime_wakes_known [OF E(1)]])
    show "t \<in> injected (elog w4)" using t es0 by (auto simp: injected_def)
    show "WakeReactor t \<in> set (snd (env.reactor_park ?E (reactor w4) u (elog w4)))" for u
      using due_timer_woken [OF r4 w4(3), of "OS (elog w4)" u] now es0 by simp
  qed
  obtain k1 k2 where pk: "ok (park ?E w4)"
      "extends w4 [Outbound Park, Outbound (Drain ReactorWake k1), Outbound (Drain TaskWake k2)] (park ?E w4)"
    using park_ok [OF w4(1)] by blast
  obtain es2 where es2: "elog w6 = elog (park ?E w4) @ es2" "ok w6" "polled_in t es2 \<or> t \<in> set (local_queue w6)"
    using queued_after_park [OF pk(1) q s(3) w4(4)] by blast
  obtain fs where "elog w' = elog w @ fs" "ok w'" "event_interval w' = ?n"
    using tick_ok [OF I tick n] unfolding Let_def tick_log_def by fastforce
  moreover have "elog w' = elog w @ (es0 @ [Outbound Park, Outbound (Drain ReactorWake k1), Outbound (Drain TaskWake k2)] @
      es2 @ [Inbound (Tick (Some ()))])"
    using es0 pk(2) es2(1) s(4) by (simp add: log_event_def extends_def)
  moreover have "local_queue w' = local_queue w6" using s(4) by simp
  ultimately show ?thesis using es2(3) by (metis polled_in_append)
qed

section \<open>Properties\<close>

text \<open>
  A task that sleeps until time 5: its first poll registers the timer, the next one is ready; and a
  root future that never ends.  The clock reaches 7 after the first tick.
\<close>

datatype sleeper = Forever | Slept bool

definition sleep_env :: "(sleeper, lion_reactor) env" where
  "sleep_env = \<lparr>future_poll = (\<lambda>f r l.
       if f = Slept False \<and> elapsed (wheel r) < 5 \<and> Outbound (PopInjection (Some (TaskView 3))) \<in> set l then
         (case handle_register_timer 5 (WakeReactor 3) r of
            Some (res, r') \<Rightarrow> (False, Slept True, r', [])
          | None \<Rightarrow> (False, f, r, []))
       else (f = Slept True, f, r, [])),
     reactor_park = \<lambda>r d l. (r, []), remote_spawns = \<lambda>l. [], remote_wakes = \<lambda>l. []\<rparr>"

definition sleep_os :: "log \<Rightarrow> os" where
  "sleep_os l = idle_os (if length l < 9 then 0 else 7)"

definition sleep_world :: "(sleeper, lion_reactor) world" where
  "sleep_world = runtime_new [\<lparr>task_id = 3, future = Slept False\<rparr>] 1 1 4"

text \<open>One task that stays pending, polled in the first tick: what the tick does to the reactor and the log.\<close>

lemma one_task_tick:
  assumes E: "\<And>l. remote_spawns E l = []" "\<And>l. remote_wakes E l = []"
    and l: "l = [Inbound (Tick None), Outbound (Drain Deferred []), Outbound (PopInjection (Some (TaskView 3))),
      Outbound (PopInjection None)]"
    and f: "future_poll E f r l = (False, f', r1, [])"
    and p: "\<And>e. env.reactor_park E r1 100 (l @ [e]) = (r2, [])"
  shows "\<exists>w. tick E (executor_new r [\<lparr>task_id = 3, future = f\<rparr>] 1 (tls_new (Some 1)) 4) = Some w \<and>
    reactor w = r2 \<and> elog w = l @ [Outbound (PollTask 3 (Some (TaskView 3)) Pending), Outbound Park,
      Outbound (Drain ReactorWake []), Outbound (Drain TaskWake []), Inbound (Tick (Some ()))]"
proof -
  let ?t = "\<lparr>task_id = 3, future = f\<rparr>"
  let ?w = "executor_new r [?t] 1 (tls_new (Some 1)) 4"
  note defs = executor_new_def tls_new_def log_event_def take_deferred_from_tls_def take_deferred_def wake_deferred_def
    drain_deferred_into_local_def pop_injection_action_def try_recv_raw_def let_spawn_def accept_task_def task_view_of_def
  define w2 where "w2 = wake_deferred (log_event (Inbound (Tick None)) ?w)"
  note w2 = w2_def [unfolded defs Let_def, simplified]
  define w3 where "w3 = w2\<lparr>task_slab := slab_insert 3 ?t slab_new, local_queue := [3],
     injection_queue := [], elog := l, ledger := ledger_mark 3 ledger_new\<rparr>"
  have w3: "pop_injection_loop E w2 = Some w3"
    using E by (subst pop_injection_loop.simps, simp add: w2 w3_def defs l ledger_contains_has)
      (subst pop_injection_loop.simps, simp add: w2 w3_def defs l ledger_contains_has)
  note w3d = w3_def [unfolded w2, simplified]
  obtain sl where sl: "slab_remove 3 (task_slab w3) = (Some ?t, sl)"
    using slab_remove_result [of 3 "task_slab w3"]
    by (cases "slab_remove 3 (task_slab w3)") (simp add: w3d slab_view_insert)
  define w4 where "w4 = w3\<lparr>local_queue := [], reactor := r1,
     elog := elog w3 @ [Outbound (PollTask 3 (Some (TaskView 3)) Pending)],
     task_slab := slab_insert 3 \<lparr>task_id = 3, future = f'\<rparr> sl\<rparr>"
  have "future_poll E f (reactor w3) (elog w3) = (False, f', r1, [])" "clear_notified 3 (cells w3) = cells w3"
    "clear_current_task (set_current_task 3 (cells w3)) = cells w3"
    "create_waker 3 WTask False (set_current_task 3 (cells w3)) =
       Some \<lparr>ew_task_id = 3, ew_source = WTask, ew_defer = False, ew_thread = 1\<rparr>"
    using f by (simp_all add: w3d clear_notified_def clear_current_task_def set_current_task_def create_waker_def Let_def)
  with sl have "poll_task E 3 (w3\<lparr>local_queue := []\<rparr>) = Some w4"
    by (simp add: poll_task_def poll_task_action_def poll_future_raw_def w4_def log_event_def task_view_of_def Let_def)
  moreover have "next_task E w3 = (Some 3, w3\<lparr>local_queue := []\<rparr>)" by (simp add: next_task_def pop_front_def w3d)
  ultimately have loop: "poll_loop E 1 0 w3 = Some (1, w4)" by (simp add: poll_loop_def poll_while.simps)
  have loop2: "poll_loop E 1 1 v = Some (1, v)" for v by (simp add: poll_loop_def)
  have pk: "reactor (park E w4) = r2 \<and> elog (park E w4) = elog w4 @ [Outbound Park, Outbound (Drain ReactorWake []), Outbound (Drain TaskWake [])]"
    using E p [of "Outbound (PollTask 3 (Some (TaskView 3)) Pending)"]
    by (simp add: park_def reset_and_drain_cross_thread_action_def let_wake_def w4_def w3d reset_interrupt_def
        drain_cross_thread_def take_block_on_yielded_def park_action_def log_event_def drain_reactor_ready_into_local_def
        drain_task_ready_into_local_def take_reactor_ready_from_tls_def take_task_ready_from_tls_def
        take_reactor_ready_def take_task_ready_def has_deferred_def has_reactor_ready_def has_task_ready_def Let_def)
  have "tick E ?w = Some (log_event (Inbound (Tick (Some ()))) (park E w4))"
    using w3 [unfolded w2_def] loop by (simp add: tick_def Let_def pop_injection_eq_loop loop2 del: One_nat_def)
  then show ?thesis using pk by (simp add: log_event_def) (simp add: w4_def w3_def)
qed

lemma sleep_env_ok: "handle_client sleep_env" "sends_stop sleep_env 0" "keeps_timer sleep_env 1 (5, WakeReactor 3)"
proof -
  have poll: "r' = r \<or> elapsed (wheel r) < 5 \<and> 3 \<in> injected l \<and>
      (\<exists>res. handle_register_timer 5 (WakeReactor 3) r = Some (res, r'))" and acts: "acts = []"
    if "future_poll sleep_env f r l = (ready, f', r', acts)" for f r l ready f' r' acts
    using that by (auto simp: sleep_env_def injected_def split: if_splits option.splits)
  show "handle_client sleep_env"
    unfolding handle_client_def
  proof (intro conjI allI impI)
    fix f r l ready f' r' acts
    assume a: "reactor_ok r \<and> entered r \<and> future_poll sleep_env f r l = (ready, f', r', acts)"
    then consider "r' = r" | res where "3 \<in> injected l" "reactor_step r (CRegisterTimer 5 (WakeReactor 3) res) r'"
      using poll step_register_timer [of r 5 "WakeReactor 3"] by blast
    then show "\<exists>cs. reactor_run r cs r' \<and> (\<forall>c \<in> set cs. call_known l c)"
    proof cases
      case 1
      then show ?thesis using run_nil by (intro exI [of _ "[]"]) simp
    next
      case (2 res)
      then show ?thesis
        by (intro exI [of _ "[CRegisterTimer 5 (WakeReactor 3) res]"]) (simp add: reactor_run_single known_def)
    qed
    show "\<forall>a \<in> set acts. poll_targets a \<subseteq> insert u64_max (injected l)" using a acts by fastforce
  qed (simp add: sleep_env_def)
  show "sends_stop sleep_env 0" by (simp add: sends_stop_def sleep_env_def)
  show "keeps_timer sleep_env 1 (5, WakeReactor 3)"
    unfolding keeps_timer_def
  proof (intro allI impI)
    fix f r l ready f' r' acts
    assume a: "reactor_ok r \<and> entered r \<and> timers r 1 = Some (5, WakeReactor 3) \<and>
      future_poll sleep_env f r l = (ready, f', r', acts)"
    then consider "r' = r" | res where "elapsed (wheel r) < 5" "handle_register_timer 5 (WakeReactor 3) r = Some (res, r')"
      using poll by blast
    then show "timers r' 1 = Some (5, WakeReactor 3)"
      by cases (use a handle_register_timer_ok [of r 5 "WakeReactor 3"] in \<open>fastforce split: io_result.splits\<close>)+
  qed
qed

lemma sleep_tick:
  "\<exists>w. block_on_rounds (runtime_env sleep_os sleep_env) 1 Forever sleep_world = Some (Some Forever, w) \<and>
     timers (reactor w) 1 = Some (5, WakeReactor 3) \<and> 3 \<in> injected (elog w) \<and> 9 \<le> length (elog w)"
proof -
  let ?r0 = "reactor_enter reactor_new :: lion_reactor"
  have r0: "next_resource_id ?r0 = 1" "pending_deregister ?r0 = None" "elapsed (wheel ?r0) < 5"
    using tw.inv_empty by (simp_all add: reactor_enter_def reactor_new_def)
  have "\<exists>r1. register_timer 5 (WakeReactor 3) ?r0 = (IoOk 1, r1)"
    by (simp add: register_timer_def alloc_resource_id_def Let_def r0 word_le_nat_alt unat_u64_max)
  then obtain r1 where h: "handle_register_timer 5 (WakeReactor 3) ?r0 = Some (IoOk 1, r1)"
    using r0(2) by (auto simp: handle_register_timer_def with_current_reactor_def reactor_ok_start)
  note r1 = handle_register_timer_ok [OF reactor_ok_start r0(3) h]
  have el: "elapsed (wheel r1) = 0"
    using quiet_handle_register_timer(1) [OF h] tw.inv_empty by (simp add: quiet_step_def reactor_enter_def reactor_new_def)
  have t1: "timers r1 = [1 \<mapsto> (5, WakeReactor 3)]" "sources r1 = Map.empty"
    using r1 reactor_abs_start [where ?'a = wake_action] by (simp_all add: reactor_abs_def)
  then have due: "due_timers (park_time (idle_os 0) r1) r1 = {}"
    by (auto simp: due_timers_def park_time_def idle_os_def el split: if_splits)
  have io: "io_wakes Map.empty evs = []" for evs :: "io_event list"
    by (induction evs) (auto split: io_mode.splits)
  define r2 where "r2 = flush_and_park (idle_os 0) 100 r1"
  have ok1: "reactor_ok r1" "entered r1" using r1 by simp_all
  obtain to rs where "set rs = {}" "new_wakes r1 r2 = map (\<lambda>k. (timer_waker r1 k, k)) rs @
      io_wakes Map.empty (case os_poll (idle_os 0) (Some to) of IoOk es \<Rightarrow> collect_io_events es | IoErr e \<Rightarrow> [])"
      "timers r2 = timers r1 |` (- {})"
    unfolding r2_def by (rule park_new_wakes [OF ok1, of 100 "idle_os 0", unfolded due t1(2)])
  then have r2: "new_wakes r1 r2 = []" "timers r2 = timers r1" by (simp_all add: io restrict_map_def)
  let ?E = "runtime_env sleep_os sleep_env"
  have poll: "future_poll ?E (Slept False) ?r0 [Inbound (Tick None), Outbound (Drain Deferred []),
      Outbound (PopInjection (Some (TaskView 3))), Outbound (PopInjection None)] = (False, Slept True, r1, [])"
    using h r0(3) by (simp add: sleep_env_def)
  have park: "env.reactor_park ?E r1 100 ([Inbound (Tick None), Outbound (Drain Deferred []),
      Outbound (PopInjection (Some (TaskView 3))), Outbound (PopInjection None)] @ [e]) = (r2, [])" for e
    using r2(1) by (simp add: sleep_os_def r2_def)
  have E: "remote_spawns ?E l = []" "remote_wakes ?E l = []" for l by (simp_all add: sleep_env_def)
  obtain w where w: "tick ?E sleep_world = Some w" "reactor w = r2"
      "elog w = [Inbound (Tick None), Outbound (Drain Deferred []), Outbound (PopInjection (Some (TaskView 3))),
        Outbound (PopInjection None)] @ [Outbound (PollTask 3 (Some (TaskView 3)) Pending), Outbound Park,
        Outbound (Drain ReactorWake []), Outbound (Drain TaskWake []), Inbound (Tick (Some ()))]"
    unfolding sleep_world_def runtime_new_def using one_task_tick [OF _ _ refl poll park] E by blast
  moreover have "poll_root ?E Forever sleep_world = Some ((False, Forever), sleep_world)"
    by (rule poll_root_idle) (simp_all add: sleep_env_def sleep_world_def runtime_new_def executor_new_def tls_new_def)
  ultimately show ?thesis using r2(2) t1(1) by (auto simp: injected_def)
qed

lemma runtime_reachable:
  assumes "handle_client E" "1 \<le> n" "block_on_run (runtime_env OS E) (Idle, runtime_new chan n th cnt) (ph, w)"
  shows "tick_pre w" "event_interval w = n" "no_lost_wake runtime_inv w"
proof -
  have "no_lost_wake runtime_inv (runtime_new chan n th cnt)"
    unfolding runtime_new_def by (rule nlw_new [where R = runtime_inv, OF runtime_inv_start])
  with block_on_run_inv [OF assms(3) _ _ _ runtime_wakes_known [OF assms(1)]] assms(2)
  show "tick_pre w" "event_interval w = n" "no_lost_wake runtime_inv w"
    by (simp_all add: runtime_new_def)
qed

text \<open>One round after another until the task is polled.\<close>

lemma due_timer_rounds:
  assumes E: "handle_client E" "keeps_timer E k (d, WakeReactor t)" "sends_stop E N"
    and I: "ok w" "no_lost_wake runtime_inv w" "1 \<le> event_interval w" "ctx w \<noteq> None"
    and t: "timers (reactor w) k = Some (d, WakeReactor t)" "t \<in> injected (elog w)" "\<forall>es. d \<le> os_now (OS (elog w @ es))"
  shows "\<exists>j res w' es. block_on_rounds (runtime_env OS E) j fut w = Some (res, w') \<and> elog w' = elog w @ es \<and>
    (res = None \<or> polled_in t es)"
proof -
  let ?E = "runtime_env OS E"
  have stop: "sends_stop ?E N" using E(3) by (simp add: sends_stop_def)
  obtain ready fut' w0 where p: "poll_root ?E fut w = Some ((ready, fut'), w0)" "ctx w0 = ctx w"
    using poll_root_returns [of ?E fut w] by blast
  have sm: "same w w0" by (rule poll_root_same [OF p(1)])
  then have w0: "ok w0" "event_interval w0 = event_interval w" "elog w0 = elog w"
    using same_ok [OF sm] I(1) by (simp_all add: same_def)
  show ?thesis
  proof (cases ready)
    case True
    then show ?thesis using p(1) w0(3) by (intro exI [of _ 1]) simp
  next
    case False
    obtain w1 where w1: "tick ?E w0 = Some w1" "ctx w1 = ctx w0" using tick_returns [OF stop, of w0] p(2) I(4) by auto
    obtain es where es: "elog w1 = elog w0 @ es" "ok w1" "event_interval w1 = event_interval w0"
        "polled_in t es \<or> t \<in> set (local_queue w1)"
      using due_timer_tick [OF E(1,2) w0(1) timer_until_tick(1) [OF E(1,2) I(2) t(1) p(1)] _
          timer_until_tick(2) [OF E(1,2) I(2) t(1) p(1)] _ _ w1(1)] w0 I(3) t(2,3) by auto
    show ?thesis
    proof (cases "polled_in t es")
      case True
      then show ?thesis
        using p(1) False w1(1) es(1) w0(3) by (intro exI [of _ 1] exI [of _ "Some fut'"] exI [of _ w1] exI [of _ es]) simp
    next
      case np: False
      then obtain xs ys where "local_queue w1 = xs @ t # ys" using es(4) by (auto dest: split_list)
      then obtain res w' fs where "block_on_rounds ?E (Suc (length xs)) fut' w1 = Some (res, w')"
          "elog w' = elog w1 @ fs" "res = None \<or> polled_in t fs"
        using block_on_polls [OF es(2) _ _ stop, of xs t ys "Suc (length xs)" fut'] es(3) w1(2) w0(2) p(2) I(3,4) by auto
      then show ?thesis
        using p(1) False w1(1) es(1) w0(3)
        by (intro exI [of _ "Suc (Suc (length xs))"] exI [of _ res] exI [of _ w'] exI [of _ "es @ fs"]) auto
    qed
  qed
qed

text \<open>
  C22: Executor and reactor keep their invariants together.  Take any run of the runtime: any number
  of calls of \<open>block_on\<close>, each of which polls its root future and ticks in turn until that future is
  ready, with the program spawning, waking and dropping futures between the calls.  At every point
  of it, before and after each poll of a root future and each tick, the log has the executor's nine
  properties, the reactor's data invariant holds in an entered reactor, every waker registered there
  belongs to a task the executor knows or to \<open>block_on\<close>, and no notified task is missing from the
  queues.  The futures reach the reactor through the handle layer and wake only tasks that have been
  injected, or \<open>block_on\<close>.
\<close>

theorem runtime_invariant:
  assumes "handle_client E" "1 \<le> n" "block_on_run (runtime_env OS E) (Idle, runtime_new chan n th cnt) (ph, w)"
  shows "tick_pre w \<and> runtime_inv (elog w) (reactor w) \<and>
    (\<forall>t. is_notified (cells w) t \<longrightarrow> t \<in> ready_ids (cells w) \<union> set (local_queue w))"
  using runtime_reachable [OF assms] by (auto simp: no_lost_wake_def wakes_inv_def wakes_kept_def)

lemma sleep_run:
  assumes "block_on_rounds (runtime_env sleep_os sleep_env) 1 Forever sleep_world = Some (Some Forever, w)"
  shows "block_on_run (runtime_env sleep_os sleep_env)
    (Idle, runtime_new [\<lparr>task_id = 3, future = Slept False\<rparr>] 1 1 4) (Root Forever, w)"
proof -
  have "create_waker u64_max WTask False (cells sleep_world) =
      Some \<lparr>ew_task_id = u64_max, ew_source = WTask, ew_defer = False, ew_thread = 1\<rparr>"
    by (simp add: create_waker_def sleep_world_def runtime_new_def tls_new_def)
  from block_on_run_trans [OF block_on_rounds_run [OF assms] one_more [OF at_start enters [OF this]]]
  show ?thesis by (simp add: sleep_world_def)
qed

theorem runtime_invariant_witness:
  "\<exists>w. block_on_rounds (runtime_env sleep_os sleep_env) 1 Forever sleep_world = Some (Some Forever, w) \<and>
     runtime_inv (elog w) (reactor w)"
proof -
  obtain w where w: "block_on_rounds (runtime_env sleep_os sleep_env) 1 Forever sleep_world = Some (Some Forever, w)"
    using sleep_tick by blast
  with runtime_invariant [OF sleep_env_ok(1) _ sleep_run [OF w]] show ?thesis by blast
qed

text \<open>
  C21: A sleeping task is polled again.  The futures reach the reactor through the handle layer and
  wake only injected tasks or \<open>block_on\<close>, as in C22.  Take any reachable state of the runtime inside a call of
  \<open>block_on\<close>, with \<open>fut\<close> the root future about to be polled, in which a timer with deadline \<open>d\<close> holds
  the waker of an injected task \<open>t\<close>.  Suppose that the clock shows at least \<open>d\<close> from now on, that no
  future cancels the timer, and that the other threads stop spawning at some point of the run (a
  producer that never stops may keep the injection loop of one tick going).  Then after finitely
  many rounds of \<open>block_on\<close>, each a poll of the root future and a tick, \<open>t\<close> has been polled, unless the
  root future was ready before and \<open>block_on\<close> has returned.  What the network and the other futures
  do, and which tasks other threads wake, is arbitrary otherwise.
\<close>

theorem sleeping_task_polled:
  assumes "handle_client E" "1 \<le> n"
    and "block_on_run (runtime_env OS E) (Idle, runtime_new chan n th cnt) (Root fut, w)"
    and "sends_stop E N" "timers (reactor w) k = Some (d, WakeReactor t)" "t \<in> injected (elog w)"
    and "\<forall>es. d \<le> os_now (OS (elog w @ es))" "keeps_timer E k (d, WakeReactor t)"
  shows "\<exists>j res w' es. block_on_rounds (runtime_env OS E) j fut w = Some (res, w') \<and> elog w' = elog w @ es \<and>
    (res = None \<or> polled_in t es)"
proof -
  note st = runtime_reachable [OF assms(1-3)]
  have "ok w" "1 \<le> event_interval w" using st(1,2) assms(2) by (simp_all add: tick_pre_ok)
  moreover have "sends_stop (runtime_env OS E) N" using assms(4) by (simp add: sends_stop_def)
  then have "ctx w \<noteq> None" using block_on_run_ctx [OF assms(3)] by (simp add: runtime_new_def tls_new_def)
  ultimately show ?thesis by (intro due_timer_rounds [OF assms(1,8,4) _ st(3) _ _ assms(5-7)])
qed

lemma forever_goes_on:
  "block_on_rounds (runtime_env sleep_os sleep_env) n Forever w = Some (res, w') \<Longrightarrow> res = Some Forever"
proof (induction n arbitrary: w)
  case (Suc n)
  obtain ready fut w1 where p: "poll_root (runtime_env sleep_os sleep_env) Forever w = Some ((ready, fut), w1)"
    using poll_root_returns [of "runtime_env sleep_os sleep_env" Forever w] by blast
  have "\<not> ready \<and> fut = Forever" by (rule poll_root_cases [OF p]) (simp add: sleep_env_def)
  then show ?case using Suc p by (auto simp: bind_eq_Some_conv)
qed simp

theorem sleeping_task_polled_witness:
  "\<exists>w j w' es. block_on_rounds (runtime_env sleep_os sleep_env) 1 Forever sleep_world = Some (Some Forever, w) \<and>
     block_on_rounds (runtime_env sleep_os sleep_env) j Forever w = Some (Some Forever, w') \<and>
     elog w' = elog w @ es \<and> polled_in 3 es"
proof -
  obtain w where w: "block_on_rounds (runtime_env sleep_os sleep_env) 1 Forever sleep_world = Some (Some Forever, w)"
      "timers (reactor w) 1 = Some (5, WakeReactor 3)" "3 \<in> injected (elog w)" "9 \<le> length (elog w)"
    using sleep_tick by blast
  have "\<forall>es. 5 \<le> os_now (sleep_os (elog w @ es))" using w(4) by (simp add: sleep_os_def idle_os_def)
  with sleeping_task_polled [OF sleep_env_ok(1) _ sleep_run [OF w(1)] sleep_env_ok(2) w(2,3) _ sleep_env_ok(3)]
  obtain j res w' es where "block_on_rounds (runtime_env sleep_os sleep_env) j Forever w = Some (res, w')"
    "elog w' = elog w @ es" "res = None \<or> polled_in 3 es" by auto
  with forever_goes_on [OF this(1)] show ?thesis using w(1) by auto
qed

end
