(* ===== verification/Utility_Log.thy ===== *)
theory Utility_Log
  imports Exec_Log Reactor_Types
begin

text \<open>
  The log of a utility (sleep, TCP stream, semaphore, ...): model of
  \<^verbatim>\<open>lion-utility/lion-utility-spec/src/generic/\<close> (\<open>events.rs\<close>, \<open>log.rs\<close>, \<open>invariants.rs\<close>,
  \<open>types.rs\<close>).  Every utility keeps two invariants of its log: a call that ends pending has armed a
  source that will wake its task, and an operation on a resource names one that is registered.
  The lemma \<open>utility_inv_append\<close> is what the kernels use to extend their logs.
\<close>

section \<open>Events\<close>

datatype 'r tick_result = TPending | TFinished 'r | TOngoing 'r

datatype ('m, 'r) utility_inbound = UTick int 'm "'r tick_result option"

datatype utility_outbound =
  PassWaker int
| WakeWaker int
| CancelWaker int
| URegisterTimer int int "nat option"
| UDeregisterTimer nat bool
| URegisterIo int "bool \<times> bool" "nat io_result option"
| UDeregisterIo nat "unit io_result"
| USetIoWaker nat "bool \<times> bool" int "unit io_result"
| UDefer

datatype ('m, 'r) utility_event = UInbound "('m, 'r) utility_inbound" | UOutbound utility_outbound

type_synonym ('m, 'r) ulog = "('m, 'r) utility_event list"

fun is_utick_begin :: "('m, 'r) utility_event \<Rightarrow> bool" where
  "is_utick_begin (UInbound (UTick w m None)) = True"
| "is_utick_begin _ = False"

fun is_utick_end :: "('m, 'r) utility_event \<Rightarrow> bool" where
  "is_utick_end (UInbound (UTick w m (Some r))) = True"
| "is_utick_end _ = False"

fun is_utick_end_pending :: "('m, 'r) utility_event \<Rightarrow> bool" where
  "is_utick_end_pending (UInbound (UTick w m (Some TPending))) = True"
| "is_utick_end_pending _ = False"

fun is_utick_end_finished :: "('m, 'r) utility_event \<Rightarrow> bool" where
  "is_utick_end_finished (UInbound (UTick w m (Some (TFinished r)))) = True"
| "is_utick_end_finished _ = False"

fun is_utick_end_ongoing :: "('m, 'r) utility_event \<Rightarrow> bool" where
  "is_utick_end_ongoing (UInbound (UTick w m (Some (TOngoing r)))) = True"
| "is_utick_end_ongoing _ = False"

fun get_utick_waker :: "('m, 'r) utility_event \<Rightarrow> int" where
  "get_utick_waker (UInbound (UTick w m r)) = w"
| "get_utick_waker _ = undefined"

fun is_pass_waker :: "int \<Rightarrow> ('m, 'r) utility_event \<Rightarrow> bool" where
  "is_pass_waker w (UOutbound (PassWaker v)) \<longleftrightarrow> v = w"
| "is_pass_waker w _ \<longleftrightarrow> False"

fun is_wake_waker :: "('m, 'r) utility_event \<Rightarrow> bool" where
  "is_wake_waker (UOutbound (WakeWaker v)) = True"
| "is_wake_waker _ = False"

fun is_register_timer_succ :: "int \<Rightarrow> nat \<Rightarrow> ('m, 'r) utility_event \<Rightarrow> bool" where
  "is_register_timer_succ w rt (UOutbound (URegisterTimer d v (Some t))) \<longleftrightarrow> v = w \<and> t = rt"
| "is_register_timer_succ w rt _ \<longleftrightarrow> False"

fun is_register_io_succ :: "nat \<Rightarrow> ('m, 'r) utility_event \<Rightarrow> bool" where
  "is_register_io_succ rt (UOutbound (URegisterIo s i (Some (IoOk t)))) \<longleftrightarrow> t = rt"
| "is_register_io_succ rt _ \<longleftrightarrow> False"

fun is_deregister_timer :: "nat \<Rightarrow> ('m, 'r) utility_event \<Rightarrow> bool" where
  "is_deregister_timer rt (UOutbound (UDeregisterTimer t b)) \<longleftrightarrow> t = rt"
| "is_deregister_timer rt _ \<longleftrightarrow> False"

fun is_deregister_io :: "nat \<Rightarrow> ('m, 'r) utility_event \<Rightarrow> bool" where
  "is_deregister_io rt (UOutbound (UDeregisterIo t b)) \<longleftrightarrow> t = rt"
| "is_deregister_io rt _ \<longleftrightarrow> False"

fun is_set_io_waker :: "nat \<Rightarrow> int \<Rightarrow> ('m, 'r) utility_event \<Rightarrow> bool" where
  "is_set_io_waker rt w (UOutbound (USetIoWaker t i v b)) \<longleftrightarrow> t = rt \<and> v = w"
| "is_set_io_waker rt w _ \<longleftrightarrow> False"

fun is_defer :: "('m, 'r) utility_event \<Rightarrow> bool" where
  "is_defer (UOutbound UDefer) = True"
| "is_defer _ = False"

fun resource_token :: "('m, 'r) utility_event \<Rightarrow> nat option" where
  "resource_token (UOutbound (UDeregisterTimer t b)) = Some t"
| "resource_token (UOutbound (UDeregisterIo t b)) = Some t"
| "resource_token (UOutbound (USetIoWaker t i v b)) = Some t"
| "resource_token _ = None"

section \<open>Log predicates\<close>

text \<open>\<open>P\<close> holds of the event at index \<open>i\<close>.\<close>

definition at :: "'e list \<Rightarrow> nat \<Rightarrow> ('e \<Rightarrow> bool) \<Rightarrow> bool" where
  "at l i P \<longleftrightarrow> i < length l \<and> P (l ! i)"

definition complete_tick_cycle :: "('m, 'r) ulog \<Rightarrow> nat \<Rightarrow> nat \<Rightarrow> bool" where
  "complete_tick_cycle l b e \<longleftrightarrow> at l b is_utick_begin \<and> at l e is_utick_end \<and> b < e \<and>
     (\<forall>k. b < k \<and> k < e \<longrightarrow> \<not> at l k is_utick_begin \<and> \<not> at l k is_utick_end)"

definition io_active_at :: "('m, 'r) ulog \<Rightarrow> nat \<Rightarrow> nat \<Rightarrow> bool" where
  "io_active_at l rid i \<longleftrightarrow>
     (\<exists>j < i. at l j (is_register_io_succ rid)) \<and> \<not> (\<exists>k < i. at l k (is_deregister_io rid))"

definition passwaker_armed_in_cycle :: "('m, 'r) ulog \<Rightarrow> int \<Rightarrow> nat \<Rightarrow> nat \<Rightarrow> bool" where
  "passwaker_armed_in_cycle l w b i \<longleftrightarrow> (\<exists>j < i. b < j \<and> at l j (is_pass_waker w))"

definition defer_in_cycle :: "('m, 'r) ulog \<Rightarrow> nat \<Rightarrow> nat \<Rightarrow> bool" where
  "defer_in_cycle l b i \<longleftrightarrow> (\<exists>j < i. b < j \<and> at l j is_defer)"

definition timer_armed_for_in_cycle :: "('m, 'r) ulog \<Rightarrow> int \<Rightarrow> nat \<Rightarrow> nat \<Rightarrow> bool" where
  "timer_armed_for_in_cycle l w b i \<longleftrightarrow>
     (\<exists>j < i. b < j \<and> (\<exists>rt. at l j (is_register_timer_succ w rt) \<and>
        \<not> (\<exists>k < i. j < k \<and> at l k (is_deregister_timer rt))))"

definition io_armed_for_in_cycle :: "('m, 'r) ulog \<Rightarrow> int \<Rightarrow> nat \<Rightarrow> nat \<Rightarrow> bool" where
  "io_armed_for_in_cycle l w b i \<longleftrightarrow>
     (\<exists>rid. io_active_at l rid i \<and> (\<exists>j < i. b < j \<and> at l j (is_set_io_waker rid w)))"

definition active_wakeup_source_for :: "('m, 'r) ulog \<Rightarrow> int \<Rightarrow> nat \<Rightarrow> nat \<Rightarrow> bool" where
  "active_wakeup_source_for l w b i \<longleftrightarrow>
     passwaker_armed_in_cycle l w b i \<or> defer_in_cycle l b i \<or>
     timer_armed_for_in_cycle l w b i \<or> io_armed_for_in_cycle l w b i"

definition token_active_before :: "('m, 'r) ulog \<Rightarrow> nat \<Rightarrow> nat \<Rightarrow> bool" where
  "token_active_before l rt i \<longleftrightarrow>
     (\<exists>j < i. (at l j (\<lambda>e. \<exists>w. is_register_timer_succ w rt e) \<or> at l j (is_register_io_succ rt)) \<and>
        \<not> (\<exists>k < i. j < k \<and> (at l k (is_deregister_timer rt) \<or> at l k (is_deregister_io rt))))"

section \<open>The invariants\<close>

definition wakeup_guarantee :: "('m, 'r) ulog action_safety" where
  "wakeup_guarantee =
     \<lparr>as_acceptance = (\<lambda>l i. at l i is_utick_end_pending),
      as_validity = (\<lambda>l i. \<exists>b. complete_tick_cycle l b i \<and>
        active_wakeup_source_for l (get_utick_waker (l ! i)) b i)\<rparr>"

definition resource_ownership :: "('m, 'r) ulog action_safety" where
  "resource_ownership =
     \<lparr>as_acceptance = (\<lambda>l i. at l i (\<lambda>e. resource_token e \<noteq> None)),
      as_validity = (\<lambda>l i. token_active_before l (the (resource_token (l ! i))) i)\<rparr>"

definition utility_inv :: "('m, 'r) ulog \<Rightarrow> bool" where
  "utility_inv l \<longleftrightarrow> action_safety_satisfied wakeup_guarantee l \<and> action_safety_satisfied resource_ownership l"

section \<open>Appending to a log\<close>

text \<open>What a predicate says of an index does not depend on what comes later.\<close>

lemma at_append [simp]: "i < length l \<Longrightarrow> at (l @ s) i P = at l i P"
  by (simp add: at_def nth_append)

lemma at_suffix [simp]: "at (l @ s) (length l + i) P = at s i P"
  by (simp add: at_def nth_append)

lemma io_active_at_append [simp]: "i \<le> length l \<Longrightarrow> io_active_at (l @ s) rid i = io_active_at l rid i"
  by (auto simp: io_active_at_def)

lemma token_active_before_append [simp]:
  "i \<le> length l \<Longrightarrow> token_active_before (l @ s) rt i = token_active_before l rt i"
  unfolding token_active_before_def by (intro ex_cong1 conj_cong refl) auto

lemma complete_tick_cycle_append [simp]:
  "e < length l \<Longrightarrow> complete_tick_cycle (l @ s) b e = complete_tick_cycle l b e"
  unfolding complete_tick_cycle_def by (cases "b < e") auto

lemma active_wakeup_source_append [simp]:
  assumes "i \<le> length l"
  shows "active_wakeup_source_for (l @ s) w b i = active_wakeup_source_for l w b i"
proof -
  have at: "at (l @ s) j P = at l j P" if "j < i" for j P
    using that assms by simp
  show ?thesis
    unfolding active_wakeup_source_for_def passwaker_armed_in_cycle_def defer_in_cycle_def
      timer_armed_for_in_cycle_def io_armed_for_in_cycle_def io_active_at_append [OF assms]
    by (auto simp: at cong: conj_cong)
qed

lemma utility_inv_nil [simp]: "utility_inv []"
  by (simp add: utility_inv_def action_safety_satisfied_def wakeup_guarantee_def resource_ownership_def at_def)

lemma utility_inv_append:
  assumes "utility_inv l"
    and "\<And>i. at s i is_utick_end_pending \<Longrightarrow>
      \<exists>b. complete_tick_cycle (l @ s) b (length l + i) \<and>
        active_wakeup_source_for (l @ s) (get_utick_waker (s ! i)) b (length l + i)"
    and "\<And>i rt. at s i (\<lambda>e. resource_token e = Some rt) \<Longrightarrow> token_active_before (l @ s) rt (length l + i)"
  shows "utility_inv (l @ s)"
proof -
  have new: "\<exists>i. k = length l + i \<and> at s i P" if "at (l @ s) k P" "\<not> k < length l" for k P
    using that by (intro exI [of _ "k - length l"]) (auto simp: at_def nth_append)
  have nth: "(l @ s) ! (length l + i) = s ! i" for i by simp
  have "\<exists>b. complete_tick_cycle (l @ s) b k \<and> active_wakeup_source_for (l @ s) (get_utick_waker ((l @ s) ! k)) b k"
    if "at (l @ s) k is_utick_end_pending" for k
  proof (cases "k < length l")
    case True
    then show ?thesis
      using that assms(1) by (simp add: utility_inv_def action_safety_satisfied_def wakeup_guarantee_def nth_append)
  next
    case False
    then show ?thesis using new [OF that] assms(2) nth by metis
  qed
  moreover have "token_active_before (l @ s) (the (resource_token ((l @ s) ! k))) k"
    if res: "at (l @ s) k (\<lambda>e. resource_token e \<noteq> None)" for k
  proof (cases "k < length l")
    case True
    then show ?thesis
      using res assms(1) by (simp add: utility_inv_def action_safety_satisfied_def resource_ownership_def nth_append)
  next
    case False
    then obtain i where i: "k = length l + i" "at s i (\<lambda>e. resource_token e \<noteq> None)" using new [OF res] by blast
    then show ?thesis using assms(3) [of i "the (resource_token (s ! i))"] by (auto simp: at_def)
  qed
  ultimately show ?thesis
    by (simp add: utility_inv_def action_safety_satisfied_def wakeup_guarantee_def resource_ownership_def)
qed

text \<open>A cycle that is a whole appended segment.\<close>

lemma segment_cycle:
  assumes "s = UInbound (UTick w m None) # mid @ [UInbound (UTick w m (Some r))]"
    and "\<forall>e \<in> set mid. \<not> is_utick_begin e \<and> \<not> is_utick_end e"
  shows "complete_tick_cycle (l @ s) (length l) (length l + Suc (length mid))"
proof -
  have "\<not> at (l @ s) k is_utick_begin \<and> \<not> at (l @ s) k is_utick_end"
    if "length l < k" "k < length l + Suc (length mid)" for k
  proof -
    have "(l @ s) ! k = mid ! (k - Suc (length l))" "k - Suc (length l) < length mid"
      using that by (auto simp: assms(1) nth_append nth_Cons' Suc_diff_Suc)
    then show ?thesis using assms(2) by (simp add: at_def)
  qed
  then show ?thesis by (simp add: complete_tick_cycle_def) (simp add: at_def assms(1) nth_append)
qed

text \<open>A token stays active as long as no appended event gives it up.\<close>

lemma token_active_snoc:
  assumes act: "token_active_before l rt (length l)"
    and keep: "\<And>j. j < i \<Longrightarrow> \<not> at s j (is_deregister_timer rt) \<and> \<not> at s j (is_deregister_io rt)"
  shows "token_active_before (l @ s) rt (length l + i)"
proof -
  obtain j where j: "j < length l" "at l j (\<lambda>e. \<exists>w. is_register_timer_succ w rt e) \<or> at l j (is_register_io_succ rt)"
    "\<not> (\<exists>k < length l. j < k \<and> (at l k (is_deregister_timer rt) \<or> at l k (is_deregister_io rt)))"
    using act unfolding token_active_before_def by blast
  have "\<not> (at (l @ s) k (is_deregister_timer rt) \<or> at (l @ s) k (is_deregister_io rt))" if k: "k < length l + i" "j < k" for k
  proof (cases "k < length l")
    case True
    then show ?thesis using j(3) k(2) by auto
  next
    case False
    then obtain m where "k = length l + m" "m < i" using k(1) by (metis add_less_cancel_left le_Suc_ex not_less)
    then show ?thesis using keep by simp
  qed
  then show ?thesis unfolding token_active_before_def using j(1,2) by (intro exI [of _ j]) auto
qed

end
