(* ===== verification/Waiter.thy ===== *)
theory Waiter
  imports Utility_Log
begin

text \<open>
  The waiter kernel: model of \<^verbatim>\<open>lion-utility/src/sync/waiter/\<close> (\<open>kernel.rs\<close>, \<open>proof.rs\<close>,
  \<open>coupling.rs\<close>, \<open>method.rs\<close>).  A kernel is a permit counter, the first-in first-out queue of the
  ids of parked waiters, and the log of what happened.  It is the core of \<open>Semaphore\<close>, \<open>Mutex\<close>,
  \<open>Notify\<close> and of the channels.

  The source verifies the coupling of the queue and the counter with the log (\<open>well_formed\<close>).  The
  locale \<open>permit_queue\<close> states what the users of a kernel rely on, \<open>kernel_ok\<close> adds to the coupling
  that no waiter is parked while a permit is free.

  \<open>permit + 1\<close> wraps, as in a build without overflow checks: \<open>signal_step\<close> has the precondition
  \<open>permit < u64::MAX\<close>.
\<close>

section \<open>The parts of std that the glue uses\<close>

text \<open>\<open>Vec::remove\<close> at an index in range, and \<open>Iterator::position\<close>.\<close>

definition vec_remove :: "nat \<Rightarrow> 'a list \<Rightarrow> 'a list" where
  "vec_remove i xs = take i xs @ drop (Suc i) xs"

fun position :: "('a \<Rightarrow> bool) \<Rightarrow> 'a list \<Rightarrow> nat option" where
  "position P [] = None"
| "position P (x # xs) = (if P x then Some 0 else map_option Suc (position P xs))"

lemma vec_remove_Cons [simp]: "vec_remove 0 (x # xs) = xs" "vec_remove (Suc i) (x # xs) = x # vec_remove i xs"
  by (simp_all add: vec_remove_def)

lemma map_vec_remove: "map f (vec_remove i xs) = vec_remove i (map f xs)"
  by (simp add: vec_remove_def take_map drop_map)

lemma set_vec_remove: "set (vec_remove i xs) \<subseteq> set xs"
  by (auto simp: vec_remove_def dest: in_set_takeD in_set_dropD)

lemma position_None: "position P xs = None \<longleftrightarrow> (\<forall>x \<in> set xs. \<not> P x)"
  by (induction xs) auto

lemma position_Some: "position P xs = Some i \<Longrightarrow> i < length xs \<and> P (xs ! i) \<and> (\<forall>j < i. \<not> P (xs ! j))"
  by (induction xs arbitrary: i) (auto simp: less_Suc_eq_0_disj split: if_splits)

lemma position_map: "position P (map f xs) = position (\<lambda>x. P (f x)) xs"
  by (induction xs) auto

lemma position_cong [cong]:
  "xs = ys \<Longrightarrow> (\<And>x. x \<in> set ys \<Longrightarrow> P x = Q x) \<Longrightarrow> position P xs = position Q ys"
proof (induction xs arbitrary: ys)
  case (Cons x xs)
  then show ?case by (cases ys) auto
qed auto

lemma vec_remove_position: "position (\<lambda>y. y = x) xs = Some i \<Longrightarrow> vec_remove i xs = remove1 x xs"
  by (induction xs arbitrary: i) (auto split: if_splits)

section \<open>Methods, outcomes, segments\<close>

datatype sync_method = Wait | Signal

type_synonym sync_log = "(sync_method, unit) ulog"

datatype wait_outcome = WReady | WPark

datatype signal_outcome = SWoke int | SStored

fun wait_segment :: "int \<Rightarrow> wait_outcome \<Rightarrow> sync_log" where
  "wait_segment w WReady = [UInbound (UTick w Wait None), UInbound (UTick w Wait (Some (TFinished ())))]"
| "wait_segment w WPark =
     [UInbound (UTick w Wait None), UOutbound (PassWaker w), UInbound (UTick w Wait (Some TPending))]"

fun signal_segment :: "int \<Rightarrow> signal_outcome \<Rightarrow> sync_log" where
  "signal_segment n (SWoke w) =
     [UInbound (UTick n Signal None), UOutbound (WakeWaker w), UInbound (UTick n Signal (Some (TOngoing ())))]"
| "signal_segment n SStored = [UInbound (UTick n Signal None), UInbound (UTick n Signal (Some (TOngoing ())))]"

section \<open>The state that a log implies\<close>

fun remove_first :: "int list \<Rightarrow> int \<Rightarrow> int list" where
  "remove_first [] x = []"
| "remove_first (y # s) x = (if y = x then s else y # remove_first s x)"

fun waiters_step :: "int list \<Rightarrow> (sync_method, unit) utility_event \<Rightarrow> int list" where
  "waiters_step q (UOutbound (PassWaker w)) = q @ [w]"
| "waiters_step q (UOutbound (WakeWaker w)) = remove_first q w"
| "waiters_step q (UOutbound (CancelWaker w)) = remove_first q w"
| "waiters_step q _ = q"

definition waiters :: "sync_log \<Rightarrow> int list" where
  "waiters l = foldl waiters_step [] l"

definition perm_delta :: "(sync_method, unit) utility_event \<Rightarrow> int" where
  "perm_delta e = (if is_utick_end_ongoing e then 1 else if is_wake_waker e then - 1
     else if is_utick_end_finished e then - 1 else 0)"

definition log_permits :: "sync_log \<Rightarrow> int" where
  "log_permits l = sum_list (map perm_delta l)"

definition queue_view :: "u64 list \<Rightarrow> int list" where
  "queue_view q = map uint q"

section \<open>The kernel\<close>

datatype wait_action = Ready | Park u64

datatype signal_action = Woke u64 | Stored

record waiter_kernel =
  permit :: u64
  queue :: "u64 list"
  slog :: sync_log
  birth :: int

fun find_first_from :: "nat \<Rightarrow> u64 list \<Rightarrow> u64 \<Rightarrow> nat option" where
  "find_first_from i [] x = None"
| "find_first_from i (y # q) x = (if y = x then Some i else find_first_from (Suc i) q x)"

definition find_first :: "u64 list \<Rightarrow> u64 \<Rightarrow> nat option" where
  "find_first q x = find_first_from 0 q x"

definition well_formed :: "waiter_kernel \<Rightarrow> bool" where
  "well_formed k \<longleftrightarrow> utility_inv (slog k) \<and> queue_view (queue k) = waiters (slog k) \<and>
     uint (permit k) = birth k + log_permits (slog k)"

definition waiter_with_permits :: "u64 \<Rightarrow> waiter_kernel" where
  "waiter_with_permits p = \<lparr>permit = p, queue = [], slog = [], birth = uint p\<rparr>"

definition waiter_new :: waiter_kernel where
  "waiter_new = \<lparr>permit = 0, queue = [], slog = [], birth = 0\<rparr>"

definition try_acquire_step :: "waiter_kernel \<Rightarrow> waiter_kernel \<times> bool" where
  "try_acquire_step k =
     (if 0 < permit k then (k\<lparr>permit := permit k - 1, slog := slog k @ wait_segment 0 WReady\<rparr>, True)
      else (k, False))"

definition wait_step :: "u64 \<Rightarrow> waiter_kernel \<Rightarrow> waiter_kernel \<times> wait_action" where
  "wait_step x k =
     (if 0 < permit k then (k\<lparr>permit := permit k - 1, slog := slog k @ wait_segment (uint x) WReady\<rparr>, Ready)
      else (k\<lparr>queue := queue k @ [x], slog := slog k @ wait_segment (uint x) WPark\<rparr>, Park x))"

definition signal_step :: "u64 \<Rightarrow> waiter_kernel \<Rightarrow> waiter_kernel \<times> signal_action" where
  "signal_step n k =
     (case queue k of
        h # q \<Rightarrow> (k\<lparr>queue := q, slog := slog k @ signal_segment (uint n) (SWoke (uint h))\<rparr>, Woke h)
      | [] \<Rightarrow> (k\<lparr>permit := permit k + 1, slog := slog k @ signal_segment (uint n) SStored\<rparr>, Stored))"

definition remove_step :: "u64 \<Rightarrow> waiter_kernel \<Rightarrow> waiter_kernel \<times> bool" where
  "remove_step x k =
     (case find_first (queue k) x of
        Some i \<Rightarrow> (k\<lparr>queue := vec_remove i (queue k), slog := slog k @ [UOutbound (CancelWaker (uint x))]\<rparr>, True)
      | None \<Rightarrow> (k, False))"

section \<open>The coupling is preserved\<close>

lemma find_first_position: "find_first q x = position (\<lambda>y. y = x) q"
proof -
  have "find_first_from i q x = map_option ((+) i) (position (\<lambda>y. y = x) q)" for i
    by (induction q arbitrary: i) (auto simp: option.map_comp o_def intro!: option.map_cong)
  from this [of 0] show ?thesis by (simp add: find_first_def fun_eq_iff option.map_ident_strong)
qed

lemma find_first_None: "find_first q x = None \<longleftrightarrow> x \<notin> set q"
  by (auto simp: find_first_position position_None)

lemma find_first_remove: "find_first q x = Some i \<Longrightarrow> vec_remove i q = remove1 x q"
  by (simp add: find_first_position vec_remove_position)

lemma remove_first_view: "remove_first (queue_view q) (uint x) = queue_view (remove1 x q)"
  by (induction q) (auto simp: queue_view_def word_uint_eq_iff)

lemma queue_view_simps [simp]: "queue_view [] = []" "queue_view (q @ [x]) = queue_view q @ [uint x]"
  by (simp_all add: queue_view_def)

lemma waiters_append [simp]: "waiters (l @ s) = foldl waiters_step (waiters l) s"
  by (simp add: waiters_def)

lemma log_permits_append [simp]: "log_permits (l @ s) = log_permits l + log_permits s"
  by (simp add: log_permits_def)

lemma segment_permits [simp]:
  "log_permits (wait_segment w WReady) = - 1" "log_permits (wait_segment w WPark) = 0"
  "log_permits (signal_segment n (SWoke v)) = 0" "log_permits (signal_segment n SStored) = 1"
  "log_permits [UOutbound (CancelWaker v)] = 0" "log_permits [] = 0"
  by (simp_all add: log_permits_def perm_delta_def)

lemma segment_waiters [simp]:
  "foldl waiters_step q (wait_segment w WReady) = q" "foldl waiters_step q (wait_segment w WPark) = q @ [w]"
  "foldl waiters_step q (signal_segment n (SWoke v)) = remove_first q v"
  "foldl waiters_step q (signal_segment n SStored) = q"
  by simp_all

text \<open>No event of a segment names a resource, and a segment that ends pending has passed its waker.\<close>

lemma wait_segment_inv:
  assumes "utility_inv l"
  shows "utility_inv (l @ wait_segment w out)"
proof (rule utility_inv_append [OF assms])
  fix i
  assume i: "at (wait_segment w out) i is_utick_end_pending"
  then have out: "out = WPark" and [simp]: "i = 2"
    by (cases out; auto simp: at_def less_Suc_eq numeral_2_eq_2)+
  let ?l = "l @ wait_segment w out"
  have "complete_tick_cycle ?l (length l) (length l + 2)"
    using segment_cycle [of "wait_segment w out" w Wait "[UOutbound (PassWaker w)]" TPending l] by (simp add: out)
  moreover have "at ?l (length l + 1) (is_pass_waker w)"
    by (simp add: out at_def nth_append)
  then have "active_wakeup_source_for ?l w (length l) (length l + i)"
    unfolding active_wakeup_source_for_def passwaker_armed_in_cycle_def
    by (intro disjI1 exI [of _ "length l + 1"]) simp
  ultimately show "\<exists>b. complete_tick_cycle ?l b (length l + i) \<and>
      active_wakeup_source_for ?l (get_utick_waker (wait_segment w out ! i)) b (length l + i)"
    by (intro exI [of _ "length l"]) (simp add: out numeral_2_eq_2)
qed (cases out; auto simp: at_def less_Suc_eq)

lemma signal_segment_inv: "utility_inv l \<Longrightarrow> utility_inv (l @ signal_segment n out)"
  by (rule utility_inv_append; cases out; auto simp: at_def less_Suc_eq)

lemma cancel_inv: "utility_inv l \<Longrightarrow> utility_inv (l @ [UOutbound (CancelWaker v)])"
  by (rule utility_inv_append) (auto simp: at_def)

declare wait_segment.simps [simp del] signal_segment.simps [simp del]

lemmas segment_inv = wait_segment_inv signal_segment_inv cancel_inv

lemma uint_pred: "0 < permit k \<Longrightarrow> uint (permit k - 1) = uint (permit k) - 1"
  unfolding uint_nat using unat_minus_one [of "permit k"] unat_gt_0 [of "permit k"] by fastforce

lemma uint_succ: "unat (permit k) < 2 ^ 64 - 1 \<Longrightarrow> uint (permit k + 1) = uint (permit k) + 1"
  unfolding uint_nat using unat_add_u64 [of "permit k" 1] by simp

lemma well_formed_new: "well_formed waiter_new" "well_formed (waiter_with_permits p)"
  by (simp_all add: well_formed_def waiter_new_def waiter_with_permits_def waiters_def)

lemma well_formed_try: "well_formed k \<Longrightarrow> well_formed (fst (try_acquire_step k))"
  by (auto simp: well_formed_def try_acquire_step_def segment_inv uint_pred)

lemma well_formed_wait: "well_formed k \<Longrightarrow> well_formed (fst (wait_step x k))"
  by (auto simp: well_formed_def wait_step_def segment_inv uint_pred)

lemma well_formed_signal:
  assumes "well_formed k" "unat (permit k) < 2 ^ 64 - 1"
  shows "well_formed (fst (signal_step n k))"
proof (cases "queue k")
  case (Cons h q)
  then have "waiters (slog k) = uint h # queue_view q"
    using assms by (simp add: well_formed_def queue_view_def)
  then show ?thesis using assms Cons by (simp add: well_formed_def signal_step_def segment_inv)
qed (use assms in \<open>simp add: well_formed_def signal_step_def segment_inv uint_succ\<close>)

lemma well_formed_remove: "well_formed k \<Longrightarrow> well_formed (fst (remove_step x k))"
proof (cases "find_first (queue k) x")
  case (Some i)
  assume k: "well_formed k"
  then have "remove_first (waiters (slog k)) (uint x) = queue_view (vec_remove i (queue k))"
    by (simp add: well_formed_def find_first_remove [OF Some] flip: remove_first_view)
  then show ?thesis using k Some by (simp add: well_formed_def remove_step_def segment_inv)
qed (simp add: remove_step_def)

section \<open>What the users of a kernel rely on\<close>

text \<open>
  A permit queue: a number of free permits and the ids that wait, never both.  The laws say what
  each operation does; the clients' case rules are derived once, in the locale.
\<close>

locale permit_queue =
  fixes ok :: "'k \<Rightarrow> bool"
    and free :: "'k \<Rightarrow> nat"
    and waiting :: "'k \<Rightarrow> u64 list"
    and try_acquire :: "'k \<Rightarrow> 'k \<times> bool"
    and wait :: "u64 \<Rightarrow> 'k \<Rightarrow> 'k \<times> wait_action"
    and signal :: "u64 \<Rightarrow> 'k \<Rightarrow> 'k \<times> signal_action"
    and remove :: "u64 \<Rightarrow> 'k \<Rightarrow> 'k \<times> bool"
  assumes exclusive: "ok k \<Longrightarrow> free k = 0 \<or> waiting k = []"
    and ok_try: "ok k \<Longrightarrow> ok (fst (try_acquire k))"
    and ok_wait: "ok k \<Longrightarrow> ok (fst (wait x k))"
    and ok_signal: "ok k \<Longrightarrow> free k < 2 ^ 64 - 1 \<Longrightarrow> ok (fst (signal n k))"
    and ok_remove: "ok k \<Longrightarrow> ok (fst (remove x k))"
    and try_result: "snd (try_acquire k) = (0 < free k)"
    and try_free: "free (fst (try_acquire k)) = free k - 1"
    and try_waiting: "waiting (fst (try_acquire k)) = waiting k"
    and wait_result: "snd (wait x k) = (if 0 < free k then Ready else Park x)"
    and wait_free: "free (fst (wait x k)) = free k - 1"
    and wait_waiting: "waiting (fst (wait x k)) = (if 0 < free k then waiting k else waiting k @ [x])"
    and signal_result: "snd (signal n k) = (case waiting k of h # q \<Rightarrow> Woke h | [] \<Rightarrow> Stored)"
    and signal_free:
      "free k < 2 ^ 64 - 1 \<Longrightarrow> free (fst (signal n k)) = (if waiting k = [] then Suc (free k) else free k)"
    and signal_waiting: "waiting (fst (signal n k)) = tl (waiting k)"
    and remove_result: "snd (remove x k) = (x \<in> set (waiting k))"
    and remove_free: "free (fst (remove x k)) = free k"
    and remove_waiting: "waiting (fst (remove x k)) = remove1 x (waiting k)"
begin

lemma try_cases:
  assumes "ok k" "try_acquire k = (k', b)"
  obtains "b" "ok k'" "free k = Suc (free k')" "waiting k' = waiting k" "waiting k = []"
    | "\<not> b" "ok k'" "free k' = 0" "free k = 0" "waiting k' = waiting k"
  using assms ok_try [of k] try_result [of k] try_free [of k] try_waiting [of k] exclusive [of k]
  by (cases "free k") auto

lemma wait_cases:
  assumes "ok k" "wait x k = (k', a)"
  obtains "a = Ready" "ok k'" "free k = Suc (free k')" "waiting k' = []" "waiting k = []"
    | "a = Park x" "ok k'" "free k' = 0" "free k = 0" "waiting k' = waiting k @ [x]"
  using assms ok_wait [of k x] wait_result [of x k] wait_free [of x k] wait_waiting [of x k] exclusive [of k]
  by (cases "free k") auto

lemma signal_cases:
  assumes "ok k" "free k < 2 ^ 64 - 1" "signal n k = (k', a)"
  obtains h q where "a = Woke h" "ok k'" "free k' = 0" "free k = 0" "waiting k = h # q" "waiting k' = q"
    | "a = Stored" "ok k'" "free k' = Suc (free k)" "waiting k = []" "waiting k' = []"
  using assms ok_signal [of k n] signal_result [of n k] signal_free [of k n] signal_waiting [of n k] exclusive [of k]
  by (cases "waiting k") auto

lemma remove_cases:
  assumes "ok k" "remove x k = (k', b)"
  obtains "b = (x \<in> set (waiting k))" "ok k'" "free k' = free k" "waiting k' = remove1 x (waiting k)"
  using assms ok_remove [of k x] remove_result [of x k] remove_free [of x k] remove_waiting [of x k] by auto

end

definition kernel_ok :: "waiter_kernel \<Rightarrow> bool" where
  "kernel_ok k \<longleftrightarrow> well_formed k \<and> (permit k = 0 \<or> queue k = [])"

abbreviation kernel_free :: "waiter_kernel \<Rightarrow> nat" where
  "kernel_free k \<equiv> unat (permit k)"

lemma kernel_ok_new [simp]: "kernel_ok waiter_new" "kernel_ok (waiter_with_permits p)"
  by (simp_all add: kernel_ok_def well_formed_new) (simp_all add: waiter_new_def waiter_with_permits_def)

interpretation kq: permit_queue kernel_ok kernel_free queue try_acquire_step wait_step signal_step remove_step
proof unfold_locales
  fix k :: waiter_kernel and x n :: u64
  note pos = unat_gt_0 word_gt_0
  show "kernel_ok k \<Longrightarrow> kernel_free k = 0 \<or> queue k = []" by (auto simp: kernel_ok_def)
  show "kernel_ok k \<Longrightarrow> kernel_ok (fst (try_acquire_step k))"
    using well_formed_try [of k] by (auto simp: kernel_ok_def try_acquire_step_def)
  show "kernel_ok k \<Longrightarrow> kernel_ok (fst (wait_step x k))"
    using well_formed_wait [of k x] by (auto simp: kernel_ok_def wait_step_def pos)
  show "kernel_ok k \<Longrightarrow> kernel_free k < 2 ^ 64 - 1 \<Longrightarrow> kernel_ok (fst (signal_step n k))"
    using well_formed_signal [of k n] by (auto simp: kernel_ok_def signal_step_def split: list.splits)
  show "kernel_ok k \<Longrightarrow> kernel_ok (fst (remove_step x k))"
    using well_formed_remove [of k x]
    by (auto simp: kernel_ok_def remove_step_def vec_remove_def split: option.splits)
  show "snd (try_acquire_step k) = (0 < kernel_free k)" by (simp add: try_acquire_step_def pos)
  show "kernel_free (fst (try_acquire_step k)) = kernel_free k - 1"
    by (auto simp: try_acquire_step_def pos unat_minus_one)
  show "queue (fst (try_acquire_step k)) = queue k" by (simp add: try_acquire_step_def)
  show "snd (wait_step x k) = (if 0 < kernel_free k then Ready else Park x)" by (simp add: wait_step_def pos)
  show "kernel_free (fst (wait_step x k)) = kernel_free k - 1"
    by (auto simp: wait_step_def pos unat_minus_one)
  show "queue (fst (wait_step x k)) = (if 0 < kernel_free k then queue k else queue k @ [x])"
    by (simp add: wait_step_def pos)
  show "snd (signal_step n k) = (case queue k of h # q \<Rightarrow> Woke h | [] \<Rightarrow> Stored)"
    by (simp add: signal_step_def split: list.split)
  show "kernel_free k < 2 ^ 64 - 1 \<Longrightarrow>
      kernel_free (fst (signal_step n k)) = (if queue k = [] then Suc (kernel_free k) else kernel_free k)"
    using unat_add_u64 [of "permit k" 1] by (auto simp: signal_step_def split: list.split)
  show "queue (fst (signal_step n k)) = tl (queue k)" by (simp add: signal_step_def split: list.split)
  show "snd (remove_step x k) = (x \<in> set (queue k))"
    by (auto simp: remove_step_def find_first_None split: option.split) (metis find_first_None option.distinct(1))
  show "kernel_free (fst (remove_step x k)) = kernel_free k" by (simp add: remove_step_def split: option.split)
  show "queue (fst (remove_step x k)) = remove1 x (queue k)"
    by (auto simp: remove_step_def find_first_remove find_first_None remove1_idem split: option.split)
qed

end
