(* ===== verification/Waiting.thy ===== *)
theory Waiting
  imports Waiter
begin

text \<open>
  The bookkeeping around a waiter kernel that \<open>Semaphore\<close> and \<open>Notify\<close> share: the table of the
  parked wakers, the shared flag of every future (an \<open>Arc\<close> of an atomic, one per future, so the
  future's key is its address), the fields of the live futures and the calls of \<open>wake()\<close> made so
  far.  The functions are the pieces that \<^verbatim>\<open>lion-utility/src/sync/semaphore.rs\<close> and
  \<^verbatim>\<open>lion-utility/src/sync/notify.rs\<close> have in common: a loop that hands a permit to the first live
  waiter, the first poll, the refresh of a waker, the withdrawal of a dropped future.

  The invariant \<open>waiting_inv\<close> says in particular that a future that is parked and not yet flagged
  stands in the kernel's queue and in the table, with the waker of its last poll.
\<close>

section \<open>State\<close>

text \<open>The fields \<open>id\<close>, \<open>parked\<close> and \<open>completed\<close> of \<open>Acquire\<close> and \<open>Notified\<close>.\<close>

record wait_fut =
  ident :: u64
  parked :: bool
  completed :: bool

record ('f, 'w) waiting =
  kernel :: waiter_kernel
  wakers :: "(u64 \<times> nat \<times> 'w) list"
  next_id :: u64
  flags :: "nat \<Rightarrow> 'f"
  futs :: "nat \<rightharpoonup> wait_fut"
  woken :: "'w list"

section \<open>Operations\<close>

definition waker_pos :: "u64 \<Rightarrow> (u64 \<times> nat \<times> 'w) list \<Rightarrow> nat option" where
  "waker_pos i ws = position (\<lambda>e. fst e = i) ws"

text \<open>\<open>wake()\<close> after the lock is released.\<close>

definition wake_all :: "'w list \<Rightarrow> ('f, 'w, 'z) waiting_scheme \<Rightarrow> ('f, 'w, 'z) waiting_scheme" where
  "wake_all ws s = s\<lparr>woken := woken s @ ws\<rparr>"

text \<open>\<open>acquire()\<close> and \<open>notified()\<close>: a future under a fresh key, with its flag cleared.\<close>

definition new_fut :: "'f \<Rightarrow> nat \<Rightarrow> ('f, 'w, 'z) waiting_scheme \<Rightarrow> ('f, 'w, 'z) waiting_scheme" where
  "new_fut pend f s = s\<lparr>flags := (flags s)(f := pend),
     futs := (futs s)(f \<mapsto> \<lparr>ident = 0, parked = False, completed = False\<rparr>)\<rparr>"

text \<open>One delivery: dead ids are skipped, the first live waiter is flagged, else the permit is stored.\<close>

function deliver ::
  "'f \<Rightarrow> ('f, 'w, 'z) waiting_scheme \<Rightarrow> ('f, 'w, 'z) waiting_scheme \<times> 'w option" where
  "deliver v s =
     (case signal_step 0 (kernel s) of
        (k, Stored) \<Rightarrow> (s\<lparr>kernel := k\<rparr>, None)
      | (k, Woke i) \<Rightarrow>
          (case waker_pos i (wakers s) of
             Some p \<Rightarrow> (s\<lparr>kernel := k, wakers := vec_remove p (wakers s),
                         flags := (flags s)(fst (snd (wakers s ! p)) := v)\<rparr>, Some (snd (snd (wakers s ! p))))
           | None \<Rightarrow> deliver v (s\<lparr>kernel := k\<rparr>)))"
  by pat_completeness auto
termination
  by (relation "measure (\<lambda>(v, s). length (queue (kernel s)))")
    (auto simp: signal_step_def split: list.splits)

declare deliver.simps [simp del]

text \<open>The branch of a first poll, under the lock: an id is drawn, the kernel decides.\<close>

definition first_poll :: "nat \<Rightarrow> 'w \<Rightarrow> ('f, 'w, 'z) waiting_scheme \<Rightarrow> ('f, 'w, 'z) waiting_scheme \<times> bool" where
  "first_poll f w s =
     (let i = next_id s; fu = the (futs s f) in
      case wait_step i (kernel s) of
        (k, Ready) \<Rightarrow> (s\<lparr>kernel := k, next_id := i + 1, futs := (futs s)(f \<mapsto> fu\<lparr>ident := i\<rparr>)\<rparr>, True)
      | (k, Park p) \<Rightarrow> (s\<lparr>kernel := k, wakers := wakers s @ [(p, f, w)], next_id := i + 1,
                         futs := (futs s)(f \<mapsto> fu\<lparr>ident := i, parked := True\<rparr>)\<rparr>, False))"

text \<open>The branch of a later poll: the stored waker is replaced.\<close>

definition refresh :: "nat \<Rightarrow> 'w \<Rightarrow> ('f, 'w, 'z) waiting_scheme \<Rightarrow> ('f, 'w, 'z) waiting_scheme" where
  "refresh f w s =
     (case waker_pos (ident (the (futs s f))) (wakers s) of
        Some p \<Rightarrow> s\<lparr>wakers := (wakers s)[p := (fst (wakers s ! p), fst (snd (wakers s ! p)), w)]\<rparr>
      | None \<Rightarrow> s)"

text \<open>The drop of a parked future: the kernel's queue and the table forget it.\<close>

definition withdraw :: "nat \<Rightarrow> ('f, 'w, 'z) waiting_scheme \<Rightarrow> ('f, 'w, 'z) waiting_scheme \<times> bool" where
  "withdraw f s =
     (let i = ident (the (futs s f)) in
      case remove_step i (kernel s) of
        (k, True) \<Rightarrow> (s\<lparr>kernel := k, wakers := (case waker_pos i (wakers s) of
            Some p \<Rightarrow> vec_remove p (wakers s) | None \<Rightarrow> wakers s)\<rparr>, True)
      | (k, False) \<Rightarrow> (s\<lparr>kernel := k\<rparr>, False))"

definition complete :: "nat \<Rightarrow> ('f, 'w, 'z) waiting_scheme \<Rightarrow> ('f, 'w, 'z) waiting_scheme" where
  "complete f s = s\<lparr>futs := (futs s)(f \<mapsto> (the (futs s f))\<lparr>completed := True\<rparr>)\<rparr>"

definition forget_fut :: "nat \<Rightarrow> ('f, 'w, 'z) waiting_scheme \<Rightarrow> ('f, 'w, 'z) waiting_scheme" where
  "forget_fut f s = s\<lparr>futs := (futs s)(f := None)\<rparr>"

section \<open>The invariant\<close>

text \<open>
  \<open>pend\<close> is the cleared flag, \<open>al\<close> says whether the table is in step with the queue (it is until a
  \<open>close()\<close> empties it), \<open>lw\<close> gives the waker of every future's last poll and \<open>c\<close> bounds the ids
  drawn so far.
\<close>

definition fut_ok :: "'f \<Rightarrow> bool \<Rightarrow> ('f, 'w, 'z) waiting_scheme \<Rightarrow> nat \<Rightarrow> wait_fut \<Rightarrow> bool" where
  "fut_ok pend al s f fu \<longleftrightarrow>
     (\<not> parked fu \<longrightarrow> flags s f = pend) \<and>
     (parked fu \<longrightarrow> unat (ident fu) < unat (next_id s)) \<and>
     (parked fu \<and> completed fu \<longrightarrow> flags s f \<noteq> pend) \<and>
     (parked fu \<and> flags s f \<noteq> pend \<longrightarrow> ident fu \<notin> set (queue (kernel s))) \<and>
     (al \<and> parked fu \<and> flags s f = pend \<longrightarrow> ident fu \<in> set (queue (kernel s)))"

definition waiting_inv ::
  "'f \<Rightarrow> bool \<Rightarrow> (nat \<Rightarrow> 'w) \<Rightarrow> nat \<Rightarrow> ('f, 'w, 'z) waiting_scheme \<Rightarrow> bool" where
  "waiting_inv pend al lw c s \<longleftrightarrow>
     kernel_ok (kernel s) \<and> distinct (queue (kernel s)) \<and>
     (\<forall>i \<in> set (queue (kernel s)). unat i < unat (next_id s)) \<and> unat (next_id s) \<le> c \<and>
     map fst (wakers s) = (if al then queue (kernel s) else []) \<and>
     (\<forall>(i, f, w) \<in> set (wakers s).
        (\<exists>fu. futs s f = Some fu \<and> ident fu = i \<and> parked fu) \<and> flags s f = pend \<and> w = lw f) \<and>
     finite (dom (futs s)) \<and>
     (\<forall>f fu. futs s f = Some fu \<longrightarrow> fut_ok pend al s f fu) \<and>
     (\<forall>f g fu gu. futs s f = Some fu \<and> futs s g = Some gu \<and> parked fu \<and> parked gu \<and> ident fu = ident gu \<longrightarrow> f = g)"

text \<open>The futures that were handed a permit and have not been polled since, and the permits at hand.\<close>

definition in_flight :: "'f \<Rightarrow> ('f, 'w, 'z) waiting_scheme \<Rightarrow> nat set" where
  "in_flight v s = {f. flags s f = v \<and> (\<exists>fu. futs s f = Some fu \<and> \<not> completed fu)}"

definition stock :: "'f \<Rightarrow> ('f, 'w, 'z) waiting_scheme \<Rightarrow> nat" where
  "stock v s = kernel_free (kernel s) + card (in_flight v s)"

section \<open>The invariant is preserved\<close>

lemma waker_pos_Cons [simp]: "waker_pos i ((i, e) # ws) = Some 0"
  by (simp add: waker_pos_def)

lemma waker_pos_queue: "waker_pos i ws = find_first (map fst ws) i"
  by (simp add: waker_pos_def find_first_position position_map)

lemma waiting_invD:
  assumes "waiting_inv pend al lw c s"
  shows "kernel_ok (kernel s)" "distinct (queue (kernel s))" "i \<in> set (queue (kernel s)) \<Longrightarrow> unat i < unat (next_id s)"
    "unat (next_id s) \<le> c" "map fst (wakers s) = (if al then queue (kernel s) else [])" "finite (dom (futs s))"
    "(i, f, w) \<in> set (wakers s) \<Longrightarrow>
       (\<exists>fu. futs s f = Some fu \<and> ident fu = i \<and> parked fu) \<and> flags s f = pend \<and> w = lw f"
    "futs s f = Some fu \<Longrightarrow> fut_ok pend al s f fu"
    "futs s f = Some fu \<Longrightarrow> futs s g = Some gu \<Longrightarrow> parked fu \<Longrightarrow> parked gu \<Longrightarrow> ident fu = ident gu \<Longrightarrow> f = g"
proof -
  note D = assms [unfolded waiting_inv_def]
  show "kernel_ok (kernel s)" "distinct (queue (kernel s))" "unat (next_id s) \<le> c"
    "map fst (wakers s) = (if al then queue (kernel s) else [])" "finite (dom (futs s))"
    using D by (blast | metis)+
  show "unat i < unat (next_id s)" if "i \<in> set (queue (kernel s))" using D that by simp
  show "(\<exists>fu. futs s f = Some fu \<and> ident fu = i \<and> parked fu) \<and> flags s f = pend \<and> w = lw f"
    if "(i, f, w) \<in> set (wakers s)"
    using D that by (fastforce simp del: split_paired_All)
  show "fut_ok pend al s f fu" if "futs s f = Some fu" using D that by simp
  show "f = g" if "futs s f = Some fu" "futs s g = Some gu" "parked fu" "parked gu" "ident fu = ident gu"
    using D that by simp
qed

text \<open>A parked future that is not flagged is registered with the waker of its last poll.\<close>

lemma parked_registered:
  assumes "waiting_inv pend True lw c s" "futs s f = Some fu" "parked fu" "flags s f = pend"
  shows "(ident fu, f, lw f) \<in> set (wakers s)" "ident fu \<in> set (queue (kernel s))" "kernel_free (kernel s) = 0"
proof -
  note D = waiting_invD [OF assms(1)]
  show q: "ident fu \<in> set (queue (kernel s))" using D(8) [OF assms(2)] assms by (simp add: fut_ok_def)
  then have "ident fu \<in> fst ` set (wakers s)" using D(5) by (metis list.set_map)
  then obtain g w where e: "(ident fu, g, w) \<in> set (wakers s)" by auto
  have "g = f" using D(7) [OF e] D(9) assms by metis
  then show "(ident fu, f, lw f) \<in> set (wakers s)" using e D(7) by blast
  show "kernel_free (kernel s) = 0" using kq.exclusive [OF D(1)] q by auto
qed

lemma deliver_stored:
  assumes "waiting_inv pend True lw c s" "queue (kernel s) = []"
  shows "deliver v s = (s\<lparr>kernel := fst (signal_step 0 (kernel s))\<rparr>, None)"
  using assms by (subst deliver.simps) (simp add: signal_step_def)

lemma deliver_woke:
  assumes "waiting_inv pend True lw c s" "queue (kernel s) = i # q"
  obtains f ws fu where "wakers s = (i, f, lw f) # ws" "map fst ws = q" "futs s f = Some fu" "ident fu = i"
    "parked fu" "flags s f = pend" "deliver v s = (s\<lparr>kernel := fst (signal_step 0 (kernel s)), wakers := ws,
      flags := (flags s)(f := v)\<rparr>, Some (lw f))"
proof -
  note D = waiting_invD [OF assms(1)]
  obtain f w ws where ws: "wakers s = (i, f, w) # ws" "map fst ws = q"
    using D(5) assms(2) by (cases "wakers s") auto
  then have e: "(\<exists>fu. futs s f = Some fu \<and> ident fu = i \<and> parked fu) \<and> flags s f = pend \<and> w = lw f"
    using D(7) [of i f w] by simp
  then show ?thesis
    using that [of f ws] ws assms(2) by (subst (asm) deliver.simps) (auto simp: signal_step_def)
qed

text \<open>Once the table is empty every queued id is dead, and a delivery ends by storing the permit.\<close>

lemma deliver_dead:
  assumes "kernel_ok (kernel s)" "wakers s = []" "kernel_free (kernel s) < 2 ^ 64 - 1"
  obtains k where "deliver v s = (s\<lparr>kernel := k\<rparr>, None)" "kernel_ok k" "queue k = []"
    "kernel_free k = Suc (kernel_free (kernel s))"
proof -
  have "\<exists>k. deliver v s = (s\<lparr>kernel := k\<rparr>, None) \<and> kernel_ok k \<and> queue k = [] \<and>
      kernel_free k = Suc (kernel_free (kernel s))"
    using assms
  proof (induction "length (queue (kernel s))" arbitrary: s)
    case 0
    obtain k a where ka: "signal_step 0 (kernel s) = (k, a)" by fastforce
    show ?case
      by (rule kq.signal_cases [OF 0(2,4) ka]) (use 0 ka in \<open>auto simp: deliver.simps [of v s]\<close>)
  next
    case (Suc n)
    obtain k a where ka: "signal_step 0 (kernel s) = (k, a)" by fastforce
    show ?case
    proof (rule kq.signal_cases [OF Suc(3,5) ka])
      fix h q
      assume h: "a = Woke h" "kernel_ok k" "kernel_free k = 0" "kernel_free (kernel s) = 0"
        "queue (kernel s) = h # q" "queue k = q"
      have "deliver v s = deliver v (s\<lparr>kernel := k\<rparr>)"
        using ka h Suc.prems(2) by (simp add: deliver.simps [of v s] waker_pos_def)
      then show ?thesis using Suc.hyps(1) [of "s\<lparr>kernel := k\<rparr>"] Suc.hyps(2) Suc.prems h by auto
    qed (use Suc.hyps(2) in simp)
  qed
  then show ?thesis using that by blast
qed

lemma stock_kernel [simp]: "stock v (s\<lparr>kernel := k\<rparr>) = kernel_free k + card (in_flight v s)"
  by (simp add: stock_def in_flight_def)

lemma finite_in_flight: "waiting_inv pend al lw c s \<Longrightarrow> finite (in_flight v s)"
  by (rule finite_subset [OF _ waiting_invD(6)]) (auto simp: in_flight_def)

lemma waiting_invI:
  assumes "kernel_ok (kernel s)" "distinct (queue (kernel s))" "\<And>i. i \<in> set (queue (kernel s)) \<Longrightarrow> unat i < unat (next_id s)"
    "unat (next_id s) \<le> c" "map fst (wakers s) = (if al then queue (kernel s) else [])" "finite (dom (futs s))"
    "\<And>i f w. (i, f, w) \<in> set (wakers s) \<Longrightarrow>
       (\<exists>fu. futs s f = Some fu \<and> ident fu = i \<and> parked fu) \<and> flags s f = pend \<and> w = lw f"
    "\<And>f fu. futs s f = Some fu \<Longrightarrow> fut_ok pend al s f fu"
    "\<And>f g fu gu. futs s f = Some fu \<Longrightarrow> futs s g = Some gu \<Longrightarrow> parked fu \<Longrightarrow> parked gu \<Longrightarrow>
       ident fu = ident gu \<Longrightarrow> f = g"
  shows "waiting_inv pend al lw c s"
  unfolding waiting_inv_def using assms by (intro conjI) (blast | metis)+

lemma waiting_inv_woken [simp]: "waiting_inv pend al lw c (wake_all ws s) = waiting_inv pend al lw c s"
  by (simp add: waiting_inv_def fut_ok_def wake_all_def)

lemma stock_woken [simp]: "stock v (wake_all ws s) = stock v s"
  by (simp add: stock_def in_flight_def wake_all_def)

lemma waiting_inv_mono: "waiting_inv pend al lw c s \<Longrightarrow> c \<le> d \<Longrightarrow> waiting_inv pend al lw d s"
  unfolding waiting_inv_def by (elim conjE, intro conjI) (assumption | linarith)+

text \<open>The waker of a future that is not in the table may change.\<close>

lemma waiting_inv_lw:
  assumes "waiting_inv pend al lw c s" "\<And>i w. (i, f, w) \<notin> set (wakers s)"
  shows "waiting_inv pend al (lw(f := u)) c s"
  using waiting_invD [OF assms(1)] assms(2) by (intro waiting_invI) (metis fun_upd_other)+

lemma not_in_table:
  assumes "waiting_inv pend al lw c s"
    and "futs s f = None \<or> (\<exists>fu. futs s f = Some fu \<and> \<not> parked fu) \<or> flags s f \<noteq> pend \<or> \<not> al"
  shows "(i, f, w) \<notin> set (wakers s)"
  using assms(2) waiting_invD(5) [OF assms(1)] waiting_invD(7) [OF assms(1), of i f w] by (cases al) auto

lemma new_fut_inv:
  assumes "waiting_inv pend al lw c s" "futs s f = None"
  shows "waiting_inv pend al lw c (new_fut pend f s)"
proof -
  note D = waiting_invD [OF assms(1)]
  show ?thesis
  proof (rule waiting_invI)
    fix g gu
    assume "futs (new_fut pend f s) g = Some gu"
    then show "fut_ok pend al (new_fut pend f s) g gu"
      using D(8) [of g gu] by (auto simp: new_fut_def fut_ok_def split: if_splits)
  next
    fix i g w
    assume e: "(i, g, w) \<in> set (wakers (new_fut pend f s))"
    then have "g \<noteq> f" using not_in_table [OF assms(1), of f] assms(2) by (auto simp: new_fut_def)
    then show "(\<exists>fu. futs (new_fut pend f s) g = Some fu \<and> ident fu = i \<and> parked fu) \<and>
        flags (new_fut pend f s) g = pend \<and> w = lw g"
      using D(7) [of i g w] e by (simp add: new_fut_def)
  qed (use D in \<open>auto simp: new_fut_def split: if_splits\<close>)
qed

lemma new_fut_stock: "v \<noteq> pend \<Longrightarrow> futs s f = None \<Longrightarrow> stock v (new_fut pend f s) = stock v s"
proof -
  assume "v \<noteq> pend" "futs s f = None"
  then have "in_flight v (new_fut pend f s) = in_flight v s" by (auto simp: in_flight_def new_fut_def)
  then show ?thesis by (simp add: stock_def) (simp add: new_fut_def)
qed

text \<open>A future that is not in the table may be dropped or marked complete.\<close>

lemma forget_inv:
  assumes "waiting_inv pend al lw c s" "\<And>i w. (i, f, w) \<notin> set (wakers s)"
  shows "waiting_inv pend al lw c (forget_fut f s)"
proof -
  note D = waiting_invD [OF assms(1)]
  show ?thesis
  proof (rule waiting_invI)
    fix i g w
    assume "(i, g, w) \<in> set (wakers (forget_fut f s))"
    then show "(\<exists>fu. futs (forget_fut f s) g = Some fu \<and> ident fu = i \<and> parked fu) \<and>
        flags (forget_fut f s) g = pend \<and> w = lw g"
      using D(7) [of i g w] assms(2) by (auto simp: forget_fut_def)
  qed (use D in \<open>auto simp: forget_fut_def fut_ok_def split: if_splits\<close>)
qed

lemma complete_inv:
  assumes "waiting_inv pend al lw c s" "futs s f = Some fu" "\<not> parked fu \<or> flags s f \<noteq> pend"
  shows "waiting_inv pend al lw c (complete f s)"
proof -
  note D = waiting_invD [OF assms(1)]
  have orig: "\<exists>xu'. futs s x = Some xu' \<and> parked xu' = parked xu \<and> ident xu' = ident xu"
    if "futs (complete f s) x = Some xu" for x xu
    using that assms(2) by (auto simp: complete_def split: if_splits)
  show ?thesis
  proof (rule waiting_invI)
    fix g gu
    assume "futs (complete f s) g = Some gu"
    then show "fut_ok pend al (complete f s) g gu"
      using D(8) [of g] D(8) [OF assms(2)] assms(2,3)
      by (cases "g = f") (auto simp: complete_def fut_ok_def)
  next
    fix i g w
    assume e: "(i, g, w) \<in> set (wakers (complete f s))"
    then show "(\<exists>fu. futs (complete f s) g = Some fu \<and> ident fu = i \<and> parked fu) \<and>
        flags (complete f s) g = pend \<and> w = lw g"
      using D(7) [of i g w] by (auto simp: complete_def assms(2))
  next
    fix g h gu hu
    assume g: "futs (complete f s) g = Some gu" "parked gu" and h: "futs (complete f s) h = Some hu" "parked hu"
      and "ident gu = ident hu"
    then show "g = h" using orig [OF g(1)] orig [OF h(1)] D(9) [of g _ h] by auto
  qed (use D(1-6) in \<open>auto simp: complete_def\<close>)
qed

lemma stock_remove_in_flight:
  assumes "waiting_inv pend al lw c s" "f \<in> in_flight v s"
    and "in_flight v s' = in_flight v s - {f}" "kernel s' = kernel s"
  shows "stock v s = Suc (stock v s')"
  using finite_in_flight [OF assms(1), of v] assms card_Suc_Diff1 [of "in_flight v s" f] by (simp add: stock_def)

lemma in_flight_complete: "futs s f = Some fu \<Longrightarrow> in_flight v (complete f s) = in_flight v s - {f}"
  by (auto simp: in_flight_def complete_def)

lemma in_flight_forget: "in_flight v (forget_fut f s) = in_flight v s - {f}"
  by (auto simp: in_flight_def forget_fut_def)

text \<open>The delivery: what it does, in the two cases.\<close>

lemma deliver_cases:
  assumes inv: "waiting_inv pend al lw c s" and free: "kernel_free (kernel s) < 2 ^ 64 - 1"
  obtains (stored) k where "deliver v s = (s\<lparr>kernel := k\<rparr>, None)" "kernel_ok k" "queue k = []"
      "kernel_free k = Suc (kernel_free (kernel s))" "al \<Longrightarrow> queue (kernel s) = []"
  | (woke) i q f ws fu k where "al" "queue (kernel s) = i # q" "wakers s = (i, f, lw f) # ws" "map fst ws = q"
      "futs s f = Some fu" "ident fu = i" "parked fu" "\<not> completed fu" "flags s f = pend"
      "deliver v s = (s\<lparr>kernel := k, wakers := ws, flags := (flags s)(f := v)\<rparr>, Some (lw f))"
      "kernel_ok k" "queue k = q" "kernel_free k = kernel_free (kernel s)"
proof -
  note D = waiting_invD [OF inv]
  obtain k a where ka: "signal_step 0 (kernel s) = (k, a)" by fastforce
  consider "al" "queue (kernel s) = []" | i q where "al" "queue (kernel s) = i # q" | "\<not> al"
    by (cases "queue (kernel s)") auto
  then show ?thesis
  proof cases
    case 1
    have d: "deliver v s = (s\<lparr>kernel := k\<rparr>, None)" using deliver_stored [of pend lw c s v] inv 1 ka by simp
    show ?thesis by (rule kq.signal_cases [OF D(1) free ka]; use 1 in \<open>auto intro!: stored [OF d]\<close>)
  next
    case (2 i q)
    have "waiting_inv pend True lw c s" using inv \<open>al\<close> by simp
    then show ?thesis
    proof (rule deliver_woke [OF _ 2(2), of _ _ _ v])
      fix f ws fu
      assume w: "wakers s = (i, f, lw f) # ws" "map fst ws = q" "futs s f = Some fu" "ident fu = i" "parked fu"
        "flags s f = pend" and d: "deliver v s = (s\<lparr>kernel := fst (signal_step 0 (kernel s)), wakers := ws,
          flags := (flags s)(f := v)\<rparr>, Some (lw f))"
      have "\<not> completed fu" using D(8) [OF w(3)] w by (auto simp: fut_ok_def)
      then show ?thesis
        by - (rule kq.signal_cases [OF D(1) free ka];
          use 2 in \<open>auto intro!: woke [OF 2 w(1-5) _ w(6) d [unfolded ka fst_conv]]\<close>)
    qed
  next
    case 3
    then have "wakers s = []" using D(5) by simp
    then show ?thesis using deliver_dead [OF D(1) _ free, of v] stored 3 by blast
  qed
qed

lemma deliver_frame:
  assumes "waiting_inv pend al lw c s" "kernel_free (kernel s) < 2 ^ 64 - 1"
  shows "futs (fst (deliver v s)) = futs s" "next_id (fst (deliver v s)) = next_id s"
    "woken (fst (deliver v s)) = woken s" "waiting.more (fst (deliver v s)) = waiting.more s"
  by (rule deliver_cases [OF assms, of v]; simp)+

lemma deliver_inv:
  assumes inv: "waiting_inv pend al lw c s" and free: "kernel_free (kernel s) < 2 ^ 64 - 1" and v: "v \<noteq> pend"
  shows "waiting_inv pend al lw c (fst (deliver v s))"
proof -
  note D = waiting_invD [OF inv]
  show ?thesis
  proof (rule deliver_cases [OF inv free, of v])
    fix k
    assume d: "deliver v s = (s\<lparr>kernel := k\<rparr>, None)" and k: "kernel_ok k" "queue k = []"
      and al: "al \<Longrightarrow> queue (kernel s) = []"
    show ?thesis unfolding d fst_conv
    proof (rule waiting_invI)
      fix f fu
      assume "futs (s\<lparr>kernel := k\<rparr>) f = Some fu"
      then show "fut_ok pend al (s\<lparr>kernel := k\<rparr>) f fu" using D(8) [of f fu] k(2) al by (auto simp: fut_ok_def)
    qed (use D k al in \<open>auto split: if_splits\<close>)
  next
    fix i q f ws fu k
    assume al: "al" and q: "queue (kernel s) = i # q"
      and w: "wakers s = (i, f, lw f) # ws" "map fst ws = q" "futs s f = Some fu" "ident fu = i" "parked fu"
      and d: "deliver v s = (s\<lparr>kernel := k, wakers := ws, flags := (flags s)(f := v)\<rparr>, Some (lw f))"
      and k: "kernel_ok k" "queue k = q"
    let ?s = "s\<lparr>kernel := k, wakers := ws, flags := (flags s)(f := v)\<rparr>"
    show ?thesis unfolding d fst_conv
    proof (rule waiting_invI)
      fix g gu
      assume g: "futs ?s g = Some gu"
      then have "parked gu \<Longrightarrow> ident gu = i \<Longrightarrow> g = f" using D(9) [of g gu f fu] w by simp
      then show "fut_ok pend al ?s g gu"
        using D(8) [of g gu] g k(2) q D(2) v w by (cases "g = f") (auto simp: fut_ok_def)
    next
      fix j g u
      assume e: "(j, g, u) \<in> set (wakers ?s)"
      then have "j \<in> set q" using w(2) by (force simp flip: w(2))
      then have "(j, g, u) \<in> set (wakers s)" "j \<noteq> i" using e w(1) D(2) q by auto
      then show "(\<exists>fu. futs ?s g = Some fu \<and> ident fu = j \<and> parked fu) \<and> flags ?s g = pend \<and> u = lw g"
        using D(7) [of j g u] w by auto
    next
      fix g h gu hu
      assume "futs ?s g = Some gu" "futs ?s h = Some hu" "parked gu" "parked hu" "ident gu = ident hu"
      then show "g = h" using D(9) by simp
    qed (use D(2-6) k w q al in auto)
  qed
qed

lemma deliver_stock:
  assumes inv: "waiting_inv pend al lw c s" and free: "kernel_free (kernel s) < 2 ^ 64 - 1" and v: "v \<noteq> pend"
  shows "stock v (fst (deliver v s)) = Suc (stock v s)"
proof (rule deliver_cases [OF inv free, of v])
  fix i q f ws fu k
  assume w: "futs s f = Some fu" "\<not> completed fu" "flags s f = pend" "kernel_free k = kernel_free (kernel s)"
    and d: "deliver v s = (s\<lparr>kernel := k, wakers := ws, flags := (flags s)(f := v)\<rparr>, Some (lw f))"
  have "in_flight v (fst (deliver v s)) = insert f (in_flight v s)" "f \<notin> in_flight v s"
    using w v by (auto simp: in_flight_def d)
  then show ?thesis using finite_in_flight [OF inv, of v] w by (simp add: stock_def d)
qed (simp add: stock_def in_flight_def)

text \<open>The first poll.\<close>

lemma first_poll_cases:
  assumes "kernel_ok (kernel s)" "futs s f = Some fu"
  obtains (ready) k where "first_poll f w s = (s\<lparr>kernel := k, next_id := next_id s + 1,
        futs := (futs s)(f \<mapsto> fu\<lparr>ident := next_id s\<rparr>)\<rparr>, True)"
      "kernel_ok k" "queue k = []" "queue (kernel s) = []" "kernel_free (kernel s) = Suc (kernel_free k)"
  | (parked) k where "first_poll f w s = (s\<lparr>kernel := k, wakers := wakers s @ [(next_id s, f, w)],
        next_id := next_id s + 1, futs := (futs s)(f \<mapsto> fu\<lparr>ident := next_id s, parked := True\<rparr>)\<rparr>, False)"
      "kernel_ok k" "queue k = queue (kernel s) @ [next_id s]" "kernel_free k = 0" "kernel_free (kernel s) = 0"
proof -
  obtain k a where ka: "wait_step (next_id s) (kernel s) = (k, a)" by fastforce
  show ?thesis
    by (rule kq.wait_cases [OF assms(1) ka], rule ready [of k], simp_all add: first_poll_def Let_def ka assms(2))
      (rule parked [of k], simp_all add: first_poll_def Let_def ka assms(2))
qed

lemma first_poll_inv:
  assumes inv: "waiting_inv pend True lw c s" and f: "futs s f = Some fu" "\<not> parked fu" "\<not> completed fu"
    and c: "Suc c < 2 ^ 64"
  shows "waiting_inv pend True (lw(f := w)) (Suc c) (fst (first_poll f w s))"
proof -
  note D = waiting_invD [OF inv]
  have nx: "unat (next_id s + 1) = Suc (unat (next_id s))" using unat_add_u64 [of "next_id s" 1] D(4) c by simp
  have flag: "flags s f = pend" using D(8) [OF f(1)] f(2) by (simp add: fut_ok_def)
  have fresh: "parked gu \<Longrightarrow> ident gu \<noteq> next_id s" if "futs s g = Some gu" for g gu
    using D(8) [OF that] by (auto simp: fut_ok_def)
  have free: "(i, f, u) \<notin> set (wakers s)" for i u by (rule not_in_table [OF inv]) (use f in simp)
  show ?thesis
  proof (rule first_poll_cases [OF D(1) f(1), of w])
    fix k
    let ?s = "s\<lparr>kernel := k, next_id := next_id s + 1, futs := (futs s)(f \<mapsto> fu\<lparr>ident := next_id s\<rparr>)\<rparr>"
    assume p: "first_poll f w s = (?s, True)" and k: "kernel_ok k" "queue k = []" "queue (kernel s) = []"
    show ?thesis unfolding p fst_conv
    proof (rule waiting_invI)
      fix g gu
      assume "futs ?s g = Some gu"
      then show "fut_ok pend True ?s g gu"
        using D(8) [of g gu] k f flag nx by (cases "g = f") (auto simp: fut_ok_def)
    next
      fix g h gu hu
      assume "futs ?s g = Some gu" "futs ?s h = Some hu" "parked gu" "parked hu" "ident gu = ident hu"
      then show "g = h" using D(9) [of g gu h hu] f by (auto split: if_splits)
    qed (use D(4-6) k nx in auto)
  next
    fix k
    let ?s = "s\<lparr>kernel := k, wakers := wakers s @ [(next_id s, f, w)], next_id := next_id s + 1,
      futs := (futs s)(f \<mapsto> fu\<lparr>ident := next_id s, parked := True\<rparr>)\<rparr>"
    assume p: "first_poll f w s = (?s, False)" and k: "kernel_ok k" "queue k = queue (kernel s) @ [next_id s]"
    show ?thesis unfolding p fst_conv
    proof (rule waiting_invI)
      fix g gu
      assume g: "futs ?s g = Some gu"
      then show "fut_ok pend True ?s g gu"
        using D(8) [of g gu] fresh [of g gu] f k flag nx
        by (cases "g = f") (auto simp: fut_ok_def)
    next
      fix g h gu hu
      assume "futs ?s g = Some gu" "futs ?s h = Some hu" "parked gu" "parked hu" "ident gu = ident hu"
      then show "g = h" using D(9) [of g gu h hu] fresh [of g gu] fresh [of h hu] by (auto split: if_splits)
    next
      fix i g u
      assume "(i, g, u) \<in> set (wakers ?s)"
      then show "(\<exists>fu. futs ?s g = Some fu \<and> ident fu = i \<and> parked fu) \<and> flags ?s g = pend \<and> u = (lw(f := w)) g"
        using D(7) [of i g u] free flag by (cases "g = f") auto
    next
      fix i
      assume "i \<in> set (queue (kernel ?s))"
      then show "unat i < unat (next_id ?s)" using D(3) [of i] k nx by auto
    qed (use D(2-6) k nx in auto)
  qed
qed

lemma first_poll_stock:
  assumes inv: "waiting_inv pend al lw c s" and f: "futs s f = Some fu" "\<not> parked fu" and v: "v \<noteq> pend"
  shows "stock v s = stock v (fst (first_poll f w s)) + (if snd (first_poll f w s) then 1 else 0)"
proof -
  note D = waiting_invD [OF inv]
  have flag: "flags s f = pend" using D(8) [OF f(1)] f(2) by (simp add: fut_ok_def)
  show ?thesis
    by (rule first_poll_cases [OF D(1) f(1), of w])
      (use v flag in \<open>auto simp: stock_def in_flight_def intro!: arg_cong [where f = card]\<close>)
qed

text \<open>The refresh.\<close>

lemma refresh_inv:
  assumes inv: "waiting_inv pend True lw c s" and f: "futs s f = Some fu" "parked fu"
  shows "waiting_inv pend True (lw(f := w)) c (refresh f w s)"
proof -
  note D = waiting_invD [OF inv]
  have only: "g = f" if "(ident fu, g, u) \<in> set (wakers s)" for g u using D(7) [OF that] D(9) [of g _ f] f by auto
  show ?thesis
  proof (cases "waker_pos (ident fu) (wakers s)")
    case None
    then have "(i, f, u) \<notin> set (wakers s)" for i u
      using D(7) [of i f u] f by (auto simp: waker_pos_def position_None)
    then show ?thesis using waiting_inv_lw [OF inv] None f by (simp add: refresh_def)
  next
    case (Some p)
    then have p: "p < length (wakers s)" "fst (wakers s ! p) = ident fu"
      using position_Some [of "\<lambda>e. fst e = ident fu" "wakers s" p] by (auto simp: waker_pos_def)
    then have e: "wakers s ! p = (ident fu, f, lw f)"
      using only [of "fst (snd (wakers s ! p))" "snd (snd (wakers s ! p))"] nth_mem [OF p(1)]
        D(7) [of "ident fu" f "snd (snd (wakers s ! p))"] by (metis prod.collapse)
    let ?s = "s\<lparr>wakers := (wakers s)[p := (ident fu, f, w)]\<rparr>"
    have r: "refresh f w s = ?s" using Some f e by (simp add: refresh_def)
    have "distinct (map fst (wakers s))" using D(2,5) by simp
    then have other: "g \<noteq> f \<and> (i, g, u) \<in> set (wakers s)"
      if ent: "(i, g, u) \<in> set (wakers ?s)" "(i, g, u) \<noteq> (ident fu, f, w)" for i g u
    proof -
      obtain j where j: "j < length (wakers s)" "j \<noteq> p" "wakers s ! j = (i, g, u)"
        using ent p(1) by (auto simp: in_set_conv_nth nth_list_update split: if_splits)
      then have "i \<noteq> ident fu"
        using nth_eq_iff_index_eq [OF \<open>distinct (map fst (wakers s))\<close>, of j p] p by auto
      then show ?thesis using j D(7) [of i g u] f nth_mem [OF j(1)] by auto
    qed
    show ?thesis unfolding r
    proof (rule waiting_invI)
      fix i g u
      assume "(i, g, u) \<in> set (wakers ?s)"
      then show "(\<exists>fu. futs ?s g = Some fu \<and> ident fu = i \<and> parked fu) \<and> flags ?s g = pend \<and> u = (lw(f := w)) g"
        using other [of i g u] D(7) [of i g u] D(7) [of "ident fu" f "lw f"] nth_mem [OF p(1)] e f
        by (cases "(i, g, u) = (ident fu, f, w)") auto
    next
      show "map fst (wakers ?s) = (if True then queue (kernel ?s) else [])"
        using D(5) p by (simp add: map_update list_update_same_conv flip: p(2)) (metis list_update_id nth_map)
    qed (use D in \<open>auto simp: fut_ok_def\<close>)
  qed
qed

lemma refresh_frame:
  "kernel (refresh f w s) = kernel s" "futs (refresh f w s) = futs s" "flags (refresh f w s) = flags s"
  "woken (refresh f w s) = woken s" "waiting.more (refresh f w s) = waiting.more s" "stock v (refresh f w s) = stock v s"
  by (simp_all add: refresh_def stock_def in_flight_def split: option.split)

text \<open>The withdrawal.\<close>

lemma withdraw_cases:
  assumes inv: "waiting_inv pend al lw c s" and f: "futs s f = Some fu" "parked fu"
  obtains (removed) k where "withdraw f s = (s\<lparr>kernel := k, wakers := filter (\<lambda>e. fst e \<noteq> ident fu) (wakers s)\<rparr>, True)"
      "ident fu \<in> set (queue (kernel s))" "flags s f = pend" "kernel_ok k" "kernel_free k = kernel_free (kernel s)"
      "queue k = filter (\<lambda>i. i \<noteq> ident fu) (queue (kernel s))"
  | (gone) k where "withdraw f s = (s\<lparr>kernel := k\<rparr>, False)" "ident fu \<notin> set (queue (kernel s))"
      "kernel_ok k" "kernel_free k = kernel_free (kernel s)" "queue k = queue (kernel s)"
      "al \<Longrightarrow> flags s f \<noteq> pend"
proof -
  note D = waiting_invD [OF inv]
  obtain k b where kb: "remove_step (ident fu) (kernel s) = (k, b)" by fastforce
  have fk: "fut_ok pend al s f fu" by (rule D(8) [OF f(1)])
  have rm: "remove1 x xs = filter (\<lambda>y. y \<noteq> x) xs" if "distinct xs" for x :: u64 and xs
    using that by (simp add: distinct_remove1_removeAll removeAll_filter_not_eq) metis
  have ws: "(case waker_pos (ident fu) (wakers s) of Some p \<Rightarrow> vec_remove p (wakers s) | None \<Rightarrow> wakers s) =
      filter (\<lambda>e. fst e \<noteq> ident fu) (wakers s)"
  proof -
    have "distinct (map fst xs) \<Longrightarrow> (case waker_pos i xs of Some p \<Rightarrow> vec_remove p xs | None \<Rightarrow> xs) =
        filter (\<lambda>e. fst e \<noteq> i) xs" for i and xs :: "(u64 \<times> nat \<times> 'b) list"
    proof (induction xs)
      case (Cons x xs)
      have "fst x = i \<Longrightarrow> filter (\<lambda>e. fst e \<noteq> i) xs = xs"
        using Cons.prems by (intro filter_True) (fastforce simp: image_iff)
      then show ?case using Cons by (auto simp: waker_pos_def split: option.splits)
    qed (simp add: waker_pos_def)
    then show ?thesis using D(2,5) by simp
  qed
  show ?thesis
  proof (rule kq.remove_cases [OF D(1) kb])
    assume k: "b = (ident fu \<in> set (queue (kernel s)))" "kernel_ok k" "kernel_free k = kernel_free (kernel s)"
      "queue k = remove1 (ident fu) (queue (kernel s))"
    show ?thesis
    proof (cases b)
      case True
      have "withdraw f s = (s\<lparr>kernel := k, wakers := filter (\<lambda>e. fst e \<noteq> ident fu) (wakers s)\<rparr>, True)"
        by (simp add: withdraw_def f(1) kb True Let_def ws)
      then show ?thesis by (rule removed) (use k True rm [OF D(2)] fk f in \<open>auto simp: fut_ok_def\<close>)
    next
      case False
      have "withdraw f s = (s\<lparr>kernel := k\<rparr>, False)" by (simp add: withdraw_def f(1) kb False)
      then show ?thesis by (rule gone) (use k False fk f in \<open>auto simp: fut_ok_def remove1_idem\<close>)
    qed
  qed
qed

lemma withdraw_inv:
  assumes inv: "waiting_inv pend al lw c s" and f: "futs s f = Some fu" "parked fu"
  shows "waiting_inv pend al lw c (forget_fut f (fst (withdraw f s)))"
proof -
  note D = waiting_invD [OF inv]
  show ?thesis
  proof (rule withdraw_cases [OF inv f])
    fix k
    assume k: "withdraw f s = (s\<lparr>kernel := k\<rparr>, False)" "ident fu \<notin> set (queue (kernel s))"
      "kernel_ok k" "queue k = queue (kernel s)" "al \<Longrightarrow> flags s f \<noteq> pend"
    have "waiting_inv pend al lw c (s\<lparr>kernel := k\<rparr>)"
      by (rule waiting_invI) (use D k(3,4) in \<open>auto simp: fut_ok_def\<close>)
    then show ?thesis unfolding k(1) fst_conv
      by (rule forget_inv) (use not_in_table [OF inv, of f] k(5) in auto)
  next
    fix k
    let ?s = "forget_fut f (s\<lparr>kernel := k, wakers := filter (\<lambda>e. fst e \<noteq> ident fu) (wakers s)\<rparr>)"
    assume k: "withdraw f s = (s\<lparr>kernel := k, wakers := filter (\<lambda>e. fst e \<noteq> ident fu) (wakers s)\<rparr>, True)"
      "kernel_ok k" "queue k = filter (\<lambda>i. i \<noteq> ident fu) (queue (kernel s))"
    show ?thesis unfolding k(1) fst_conv
    proof (rule waiting_invI)
      fix g gu
      assume g: "futs ?s g = Some gu"
      then have "g \<noteq> f" "futs s g = Some gu" by (auto simp: forget_fut_def split: if_splits)
      then have "parked gu \<Longrightarrow> ident gu \<noteq> ident fu" using D(9) [of g gu f fu] f by auto
      then show "fut_ok pend al ?s g gu"
        using D(8) [OF \<open>futs s g = Some gu\<close>] k(3) by (auto simp: fut_ok_def forget_fut_def)
    next
      fix i g u
      assume "(i, g, u) \<in> set (wakers ?s)"
      then show "(\<exists>fu. futs ?s g = Some fu \<and> ident fu = i \<and> parked fu) \<and> flags ?s g = pend \<and> u = lw g"
        using D(7) [of i g u] f by (auto simp: forget_fut_def)
    next
      have "map fst (filter (\<lambda>e. fst e \<noteq> ident fu) (wakers s)) = filter (\<lambda>i. i \<noteq> ident fu) (map fst (wakers s))"
        by (simp add: filter_map o_def)
      then show "map fst (wakers ?s) = (if al then queue (kernel ?s) else [])"
        using D(5) k(3) by (simp add: forget_fut_def)
    next
      fix g h gu hu
      assume "futs ?s g = Some gu" "futs ?s h = Some hu" "parked gu" "parked hu" "ident gu = ident hu"
      then show "g = h" using D(9) [of g gu h hu] by (auto simp: forget_fut_def split: if_splits)
    qed (use D(2-6) k in \<open>auto simp: forget_fut_def\<close>)
  qed
qed

end
