(* ===== verification/Semaphore.thy ===== *)
theory Semaphore
  imports Waiting
begin

text \<open>
  The counting semaphore and the asynchronous mutex: model of \<^verbatim>\<open>lion-utility/src/sync/semaphore.rs\<close>
  and \<^verbatim>\<open>lion-utility/src/sync/mutex.rs\<close>.  The state is the one of theory \<open>Waiting\<close> with the closed
  flag; a client adds the number of live permits (or guards).  Every operation holds the lock of the
  semaphore for its whole effect on the table, so a run is a sequence of operations; the flag of a
  future is read before the lock is taken, and the two halves of a poll are separate definitions.

  Shown: no permit is created or lost, whatever futures are dropped at whatever moment; a waiter that
  is parked is registered with the waker of its last poll and no permit is free meanwhile; a release
  serves the waiters in the order of their first polls; a mutex never has two guards; and the
  interleaving in which a poll that has read its flag too early leaves its new waker unregistered.
\<close>

section \<open>The semaphore\<close>

record 'w semaphore = "(bool, 'w) waiting" +
  closed :: bool

datatype acq_result = AcqOk | AcqErr | AcqPending

definition semaphore_new :: "nat \<Rightarrow> 'w semaphore" where
  "semaphore_new n = \<lparr>kernel = waiter_with_permits (of_nat n), wakers = [], next_id = 0, flags = (\<lambda>_. False),
     futs = Map.empty, woken = [], closed = False\<rparr>"

fun signal_n :: "nat \<Rightarrow> 'w semaphore \<Rightarrow> 'w semaphore \<times> 'w list" where
  "signal_n 0 s = (s, [])"
| "signal_n (Suc n) s =
     (let (s1, w) = deliver True s; (s2, ws) = signal_n n s1
      in (s2, (case w of Some x \<Rightarrow> [x] | None \<Rightarrow> []) @ ws))"

definition do_release :: "nat \<Rightarrow> 'w semaphore \<Rightarrow> 'w semaphore" where
  "do_release n s = (let (s1, to_wake) = signal_n n s in wake_all to_wake s1)"

definition drop_acquire_inner :: "nat \<Rightarrow> 'w semaphore \<Rightarrow> 'w semaphore" where
  "drop_acquire_inner f s =
     (if \<not> parked (the (futs s f)) then s
      else case withdraw f s of
        (s1, True) \<Rightarrow> s1
      | (s1, False) \<Rightarrow>
          if flags s1 f \<and> permit (kernel s1) < u64_max
          then (let (s2, to_wake) = signal_n 1 s1 in wake_all to_wake s2) else s1)"

text \<open>The half of a poll under the lock, for a flag that was read as false.\<close>

definition poll_acquire_locked :: "nat \<Rightarrow> 'w \<Rightarrow> 'w semaphore \<Rightarrow> 'w semaphore \<times> acq_result" where
  "poll_acquire_locked f w s =
     (if closed s then (s, AcqErr)
      else if \<not> parked (the (futs s f)) then
        (case first_poll f w s of (s1, ready) \<Rightarrow> (s1, if ready then AcqOk else AcqPending))
      else (refresh f w s, AcqPending))"

definition poll_acquire_inner :: "nat \<Rightarrow> 'w \<Rightarrow> 'w semaphore \<Rightarrow> 'w semaphore \<times> acq_result" where
  "poll_acquire_inner f w s = (if flags s f then (s, AcqOk) else poll_acquire_locked f w s)"

definition try_acquire :: "'w semaphore \<Rightarrow> 'w semaphore \<times> bool" where
  "try_acquire s =
     (if closed s then (s, False)
      else case try_acquire_step (kernel s) of (k, ok) \<Rightarrow> (s\<lparr>kernel := k\<rparr>, ok))"

definition sem_close :: "'w semaphore \<Rightarrow> 'w semaphore" where
  "sem_close s = wake_all (map (\<lambda>(_, _, w). w) (wakers s)) (s\<lparr>closed := True, wakers := []\<rparr>)"

text \<open>\<open>Acquire::poll\<close> and \<open>Acquire::drop\<close>; \<open>SemaphorePermit::drop\<close> is a release of its permits.\<close>

definition acquire_poll :: "nat \<Rightarrow> 'w \<Rightarrow> 'w semaphore \<Rightarrow> 'w semaphore \<times> acq_result" where
  "acquire_poll f w s =
     (case poll_acquire_inner f w s of (s1, AcqOk) \<Rightarrow> (complete f s1, AcqOk) | r \<Rightarrow> r)"

definition acquire_drop :: "nat \<Rightarrow> 'w semaphore \<Rightarrow> 'w semaphore" where
  "acquire_drop f s =
     forget_fut f (if completed (the (futs s f)) then s else drop_acquire_inner f s)"

section \<open>Runs of a client\<close>

datatype 'w sem_op =
  Acquire nat
| PollAcquire nat 'w
| DropAcquire nat
| TryAcquire
| DropPermit
| ForgetPermit
| AddPermits nat
| Close

text \<open>The semaphore, the live permits, the permits given up by \<open>forget\<close> and the ones added.\<close>

record 'w sem_client =
  sem :: "'w semaphore"
  live :: nat
  forgotten :: nat
  added :: nat

definition client_new :: "nat \<Rightarrow> 'w sem_client" where
  "client_new n = \<lparr>sem = semaphore_new n, live = 0, forgotten = 0, added = 0\<rparr>"

text \<open>What ownership allows: a live future that has not completed is polled, a live one dropped once.\<close>

fun sem_enabled :: "'w sem_op \<Rightarrow> 'w sem_client \<Rightarrow> bool" where
  "sem_enabled (Acquire f) c \<longleftrightarrow> futs (sem c) f = None"
| "sem_enabled (PollAcquire f w) c \<longleftrightarrow> (case futs (sem c) f of Some fu \<Rightarrow> \<not> completed fu | None \<Rightarrow> False)"
| "sem_enabled (DropAcquire f) c \<longleftrightarrow> futs (sem c) f \<noteq> None"
| "sem_enabled DropPermit c \<longleftrightarrow> 0 < live c"
| "sem_enabled ForgetPermit c \<longleftrightarrow> 0 < live c"
| "sem_enabled _ c \<longleftrightarrow> True"

fun sem_exec :: "'w sem_op \<Rightarrow> 'w sem_client \<Rightarrow> 'w sem_client" where
  "sem_exec (Acquire f) c = c\<lparr>sem := new_fut False f (sem c)\<rparr>"
| "sem_exec (PollAcquire f w) c =
     (case acquire_poll f w (sem c) of (s, r) \<Rightarrow> c\<lparr>sem := s, live := live c + (if r = AcqOk then 1 else 0)\<rparr>)"
| "sem_exec (DropAcquire f) c = c\<lparr>sem := acquire_drop f (sem c)\<rparr>"
| "sem_exec TryAcquire c = (case try_acquire (sem c) of (s, ok) \<Rightarrow> c\<lparr>sem := s, live := live c + (if ok then 1 else 0)\<rparr>)"
| "sem_exec DropPermit c = c\<lparr>sem := do_release 1 (sem c), live := live c - 1\<rparr>"
| "sem_exec ForgetPermit c = c\<lparr>live := live c - 1, forgotten := Suc (forgotten c)\<rparr>"
| "sem_exec (AddPermits n) c = c\<lparr>sem := do_release n (sem c), added := added c + n\<rparr>"
| "sem_exec Close c = c\<lparr>sem := sem_close (sem c)\<rparr>"

fun sem_run :: "'w sem_op list \<Rightarrow> 'w sem_client \<Rightarrow> 'w sem_client option" where
  "sem_run [] c = Some c"
| "sem_run (op # ops) c = (if sem_enabled op c then sem_run ops (sem_exec op c) else None)"

fun last_wakers :: "'w sem_op list \<Rightarrow> (nat \<Rightarrow> 'w) \<Rightarrow> nat \<Rightarrow> 'w" where
  "last_wakers [] lw = lw"
| "last_wakers (PollAcquire f w # ops) lw = last_wakers ops (lw(f := w))"
| "last_wakers (_ # ops) lw = last_wakers ops lw"

fun added_by :: "'w sem_op list \<Rightarrow> nat" where
  "added_by [] = 0"
| "added_by (AddPermits n # ops) = n + added_by ops"
| "added_by (_ # ops) = added_by ops"

section \<open>Every operation keeps the invariant and the balance\<close>

abbreviation sem_ok :: "(nat \<Rightarrow> 'w) \<Rightarrow> nat \<Rightarrow> 'w semaphore \<Rightarrow> bool" where
  "sem_ok lw c s \<equiv> waiting_inv False (\<not> closed s) lw c s"

lemma semaphore_new_ok: "n < 2 ^ 64 \<Longrightarrow> sem_ok lw 0 (semaphore_new n) \<and> stock True (semaphore_new n) = n"
  by (auto simp: waiting_inv_def semaphore_new_def stock_def in_flight_def)
    (simp_all add: waiter_with_permits_def unat_u64_of_nat)

lemma closed_more: "waiting.more s = waiting.more t \<Longrightarrow> closed s = closed t"
  by (cases s, cases t) simp

lemma signal_n_ok:
  assumes "sem_ok lw c s" "kernel_free (kernel s) + n < 2 ^ 64"
  shows "sem_ok lw c (fst (signal_n n s)) \<and> stock True (fst (signal_n n s)) = stock True s + n \<and>
    futs (fst (signal_n n s)) = futs s \<and> closed (fst (signal_n n s)) = closed s \<and>
    woken (fst (signal_n n s)) = woken s \<and> (\<forall>f. flags s f \<longrightarrow> flags (fst (signal_n n s)) f)"
  using assms
proof (induction n arbitrary: s)
  case (Suc n)
  let ?d = "fst (deliver True s)"
  have free: "kernel_free (kernel s) < 2 ^ 64 - 1" using Suc.prems by simp
  have cl: "closed ?d = closed s" using closed_more deliver_frame(4) [OF Suc.prems(1) free] .
  have fl: "\<forall>f. flags s f \<longrightarrow> flags ?d f" "kernel_free (kernel ?d) \<le> Suc (kernel_free (kernel s))"
    by (rule deliver_cases [OF Suc.prems(1) free, of True]; simp)+
  have "sem_ok lw c (fst (signal_n n ?d)) \<and> stock True (fst (signal_n n ?d)) = stock True ?d + n \<and>
      futs (fst (signal_n n ?d)) = futs ?d \<and> closed (fst (signal_n n ?d)) = closed ?d \<and>
      woken (fst (signal_n n ?d)) = woken ?d \<and> (\<forall>f. flags ?d f \<longrightarrow> flags (fst (signal_n n ?d)) f)"
    by (rule Suc.IH) (use deliver_inv [OF Suc.prems(1) free, of True] fl cl Suc.prems in auto)
  then show ?case
    using deliver_stock [OF Suc.prems(1) free, of True] deliver_frame(1,3) [OF Suc.prems(1) free] fl cl
    by (auto simp: case_prod_beta)
qed simp

lemma do_release_ok:
  assumes "sem_ok lw c s" "kernel_free (kernel s) + n < 2 ^ 64"
  shows "sem_ok lw c (do_release n s) \<and> stock True (do_release n s) = stock True s + n \<and> closed (do_release n s) = closed s"
  using signal_n_ok [OF assms]
  by (auto simp: do_release_def case_prod_beta) (simp_all add: wake_all_def)

lemma waiting_inv_closed [simp]: "waiting_inv pend al lw c (s\<lparr>closed := b\<rparr>) = waiting_inv pend al lw c s"
  by (simp add: waiting_inv_def fut_ok_def)

lemma acquire_poll_ok:
  assumes inv: "sem_ok lw c s" and f: "futs s f = Some fu" "\<not> completed fu" and c: "Suc c < 2 ^ 64"
  shows "sem_ok (lw(f := w)) (Suc c) (fst (acquire_poll f w s)) \<and>
    stock True s = stock True (fst (acquire_poll f w s)) + (if snd (acquire_poll f w s) = AcqOk then 1 else 0) \<and>
    closed (fst (acquire_poll f w s)) = closed s"
proof -
  have out: "(i, f, u) \<notin> set (wakers s)" if "flags s f \<or> closed s" for i u
    using not_in_table [OF inv, of f i u] that by auto
  have lw: "sem_ok (lw(f := w)) (Suc c) s" if "flags s f \<or> closed s"
    using waiting_inv_mono [OF waiting_inv_lw [OF inv out [OF that]]] by simp
  consider (granted) "flags s f" | (closed) "\<not> flags s f" "closed s"
    | (first) "\<not> flags s f" "\<not> closed s" "\<not> parked fu" | (again) "\<not> flags s f" "\<not> closed s" "parked fu" by blast
  then show ?thesis
  proof cases
    case granted
    then have "f \<in> in_flight True s" using f by (simp add: in_flight_def)
    then have "stock True s = Suc (stock True (complete f s))"
      by (rule stock_remove_in_flight [OF inv]) (simp_all add: in_flight_complete [OF f(1)], simp add: complete_def)
    moreover have "closed (complete f s) = closed s" by (simp add: complete_def)
    moreover have "acquire_poll f w s = (complete f s, AcqOk)"
      using granted by (simp add: acquire_poll_def poll_acquire_inner_def)
    ultimately show ?thesis using complete_inv [OF lw f(1)] granted by simp
  next
    case closed
    then show ?thesis using lw by (simp add: acquire_poll_def poll_acquire_inner_def poll_acquire_locked_def)
  next
    case first
    let ?p = "first_poll f w s"
    have inv': "waiting_inv False True (lw(f := w)) (Suc c) (fst ?p)"
      using first_poll_inv [OF _ f(1) _ f(2) c, of False lw w] inv first by simp
    have st: "stock True s = stock True (fst ?p) + (if snd ?p then 1 else 0)"
      using first_poll_stock [OF inv f(1), of True w] first by simp
    have fr: "closed (fst ?p) = closed s" "flags (fst ?p) = flags s"
      by (rule first_poll_cases [OF waiting_invD(1) [OF inv] f(1), of w]; simp)+
    have fut: "\<exists>fu'. futs (fst ?p) f = Some fu' \<and> (snd ?p \<longrightarrow> \<not> parked fu')"
      by (rule first_poll_cases [OF waiting_invD(1) [OF inv] f(1), of w]) (use first in auto)
    have poll: "acquire_poll f w s = (if snd ?p then (complete f (fst ?p), AcqOk) else (fst ?p, AcqPending))"
      using first f by (simp add: acquire_poll_def poll_acquire_inner_def poll_acquire_locked_def case_prod_beta)
    show ?thesis
    proof (cases "snd ?p")
      case True
      have "in_flight True (complete f (fst ?p)) = in_flight True (fst ?p) - {f}" "f \<notin> in_flight True (fst ?p)"
        using fut in_flight_complete [of "fst ?p" f] fr first by (force, simp add: in_flight_def)
      then have "stock True (complete f (fst ?p)) = stock True (fst ?p)" by (simp add: stock_def) (simp add: complete_def)
      moreover have "closed (complete f (fst ?p)) = closed s" using fr by (simp add: complete_def)
      moreover have "waiting_inv False True (lw(f := w)) (Suc c) (complete f (fst ?p))"
        using fut True complete_inv [OF inv'] by blast
      ultimately show ?thesis using poll True st first by simp
    qed (use poll inv' st fr first in simp)
  next
    case again
    have "waiting_inv False True (lw(f := w)) c (refresh f w s)" using refresh_inv [OF _ f(1) again(3)] inv again by simp
    moreover have "closed (refresh f w s) = closed s" by (rule closed_more) (simp add: refresh_frame)
    ultimately show ?thesis
      using waiting_inv_mono [of False True "lw(f := w)" c "refresh f w s" "Suc c"] again f
      by (auto simp: acquire_poll_def poll_acquire_inner_def poll_acquire_locked_def refresh_frame)
  qed
qed

text \<open>A future that was handed a permit and is dropped before it is polled passes the permit on.\<close>

lemma forward_ok:
  assumes inv: "sem_ok lw c s" and f: "futs s f = Some fu" "\<not> completed fu" "flags s f"
    and max: "stock True s < 2 ^ 64"
  shows "permit (kernel s) < u64_max \<and> sem_ok lw c (forget_fut f (do_release 1 s)) \<and>
    stock True (forget_fut f (do_release 1 s)) = stock True s \<and> closed (forget_fut f (do_release 1 s)) = closed s"
proof -
  have fl: "f \<in> in_flight True s" using f by (simp add: in_flight_def)
  then have "card (in_flight True s) \<noteq> 0" using finite_in_flight [OF inv, of True] by auto
  then have free: "kernel_free (kernel s) + 1 < 2 ^ 64" using max by (simp add: stock_def)
  have n: "futs (do_release 1 s) = futs s" "flags (do_release 1 s) f"
    using signal_n_ok [OF inv free] f by (auto simp: do_release_def wake_all_def case_prod_beta)
  note r = do_release_ok [OF inv free]
  have ok: "waiting_inv False (\<not> closed s) lw c (do_release 1 s)" using r by auto
  then have "(i, f, u) \<notin> set (wakers (do_release 1 s))" for i u by (rule not_in_table) (use n in simp)
  moreover have "f \<in> in_flight True (do_release 1 s)" using fl n by (auto simp: in_flight_def)
  then have "stock True (do_release 1 s) = Suc (stock True (forget_fut f (do_release 1 s)))"
    by (rule stock_remove_in_flight [OF ok]) (simp_all add: in_flight_forget, simp add: forget_fut_def)
  moreover have "permit (kernel s) < u64_max" using free by (simp add: word_less_nat_alt unat_u64_max)
  moreover have "closed (forget_fut f (do_release 1 s)) = closed s" using r by (simp add: forget_fut_def)
  ultimately show ?thesis using forget_inv [OF ok, of f] r by (simp del: One_nat_def)
qed

lemma acquire_drop_ok:
  assumes inv: "sem_ok lw c s" and f: "futs s f = Some fu" and max: "stock True s < 2 ^ 64"
  shows "sem_ok lw c (acquire_drop f s) \<and> stock True (acquire_drop f s) = stock True s \<and>
    closed (acquire_drop f s) = closed s"
proof -
  have st: "stock True (forget_fut f t) = stock True t" if "f \<notin> in_flight True t" for t :: "'a semaphore"
    using that by (simp add: stock_def in_flight_forget) (simp add: forget_fut_def)
  have cl: "closed (forget_fut f t) = closed t" for t :: "'a semaphore" by (simp add: forget_fut_def)
  have fk: "fut_ok False (\<not> closed s) s f fu" by (rule waiting_invD(8) [OF inv f])
  consider (quiet) "completed fu \<or> \<not> parked fu" | (parked) "\<not> completed fu" "parked fu" by blast
  then show ?thesis
  proof cases
    case quiet
    have d: "acquire_drop f s = forget_fut f s" using quiet f by (auto simp: acquire_drop_def drop_acquire_inner_def)
    have "f \<notin> in_flight True s" using quiet f fk by (auto simp: in_flight_def fut_ok_def)
    moreover have "(i, f, u) \<notin> set (wakers s)" for i u
      by (rule not_in_table [OF inv]) (use quiet f fk in \<open>auto simp: fut_ok_def\<close>)
    ultimately show ?thesis using forget_inv [OF inv] st cl by (simp add: d)
  next
    case parked
    show ?thesis
    proof (rule withdraw_cases [OF inv f parked(2)])
      fix k
      let ?s = "s\<lparr>kernel := k, wakers := filter (\<lambda>e. fst e \<noteq> ident fu) (wakers s)\<rparr>"
      assume k: "withdraw f s = (?s, True)" "flags s f = False" "kernel_free k = kernel_free (kernel s)"
      have d: "acquire_drop f s = forget_fut f ?s"
        using parked f k by (simp add: acquire_drop_def drop_acquire_inner_def)
      have "in_flight True ?s = in_flight True s" "f \<notin> in_flight True s" using k(2) by (auto simp: in_flight_def)
      then have "stock True (forget_fut f ?s) = stock True s" using st [of ?s] k(3) by (simp add: stock_def)
      then show ?thesis using withdraw_inv [OF inv f parked(2)] cl [of ?s] k(1) by (simp add: d)
    next
      fix k
      assume k: "withdraw f s = (s\<lparr>kernel := k\<rparr>, False)" "\<not> closed s \<Longrightarrow> flags s f \<noteq> False"
      have [simp]: "s\<lparr>kernel := k\<rparr> = s"
        using k(1) by (auto simp: withdraw_def remove_step_def Let_def split: option.splits)
      show ?thesis
      proof (cases "flags s f")
        case True
        note fw = forward_ok [OF inv f parked(1) True max]
        then have "acquire_drop f s = forget_fut f (do_release 1 s)"
          using parked f k(1) True
          by (simp add: acquire_drop_def drop_acquire_inner_def do_release_def del: signal_n.simps One_nat_def)
        then show ?thesis using fw by auto
      next
        case False
        have d: "acquire_drop f s = forget_fut f s"
          using parked f k(1) False by (simp add: acquire_drop_def drop_acquire_inner_def)
        have "(i, f, u) \<notin> set (wakers s)" for i u by (rule not_in_table [OF inv]) (use k(2) False in auto)
        moreover have "f \<notin> in_flight True s" using False by (simp add: in_flight_def)
        ultimately show ?thesis using forget_inv [OF inv] st cl by (simp add: d)
      qed
    qed
  qed
qed

lemma try_acquire_ok:
  assumes inv: "sem_ok lw c s"
  shows "sem_ok lw c (fst (try_acquire s)) \<and> closed (fst (try_acquire s)) = closed s \<and>
    stock True s = stock True (fst (try_acquire s)) + (if snd (try_acquire s) then 1 else 0)"
proof -
  note D = waiting_invD [OF inv]
  obtain k b where kb: "try_acquire_step (kernel s) = (k, b)" by fastforce
  have upd: "sem_ok lw c (s\<lparr>kernel := k\<rparr>)" if "kernel_ok k" "queue k = queue (kernel s)"
    by (rule waiting_invI) (use D that in \<open>auto simp: fut_ok_def\<close>)
  show ?thesis
    by (rule kq.try_cases [OF D(1) kb]; use upd kb inv in \<open>cases "closed s"; simp add: try_acquire_def stock_def in_flight_def\<close>)
qed

lemma sem_close_ok:
  assumes inv: "sem_ok lw c s"
  shows "sem_ok lw c (sem_close s) \<and> stock True (sem_close s) = stock True s"
proof -
  note D = waiting_invD [OF inv]
  have "waiting_inv False False lw c (s\<lparr>closed := True, wakers := []\<rparr>)"
    by (rule waiting_invI) (use D in \<open>auto simp: fut_ok_def\<close>)
  then show ?thesis by (simp add: sem_close_def) (simp add: wake_all_def stock_def in_flight_def)
qed

definition client_inv :: "nat \<Rightarrow> (nat \<Rightarrow> 'w) \<Rightarrow> nat \<Rightarrow> 'w sem_client \<Rightarrow> bool" where
  "client_inv n lw c cs \<longleftrightarrow>
     sem_ok lw c (sem cs) \<and> stock True (sem cs) + live cs + forgotten cs = n + added cs"

lemma sem_exec_inv:
  assumes "client_inv n lw c cs" "sem_enabled op cs" "Suc c < 2 ^ 64" "n + added (sem_exec op cs) < 2 ^ 64"
  shows "client_inv n (last_wakers [op] lw) (Suc c) (sem_exec op cs)"
proof -
  have inv: "sem_ok lw c (sem cs)" and bal: "stock True (sem cs) + live cs + forgotten cs = n + added cs"
    using assms(1) by (auto simp: client_inv_def)
  note inv' = waiting_inv_mono [OF inv, of "Suc c", simplified]
  have free: "kernel_free (kernel (sem cs)) \<le> stock True (sem cs)" by (simp add: stock_def)
  show ?thesis
  proof (cases op)
    case (Acquire f)
    have "closed (new_fut False f (sem cs)) = closed (sem cs)" by (simp add: new_fut_def)
    then show ?thesis
      using Acquire assms(2) new_fut_inv [OF inv', of f] new_fut_stock [of True False "sem cs" f] bal
      by (simp add: client_inv_def)
  next
    case (PollAcquire f w)
    then obtain fu where f: "futs (sem cs) f = Some fu" "\<not> completed fu"
      using assms(2) by (auto split: option.splits)
    have ok: "waiting_inv False (\<not> closed (sem cs)) (lw(f := w)) (Suc c) (fst (acquire_poll f w (sem cs)))"
      "closed (fst (acquire_poll f w (sem cs))) = closed (sem cs)"
      using acquire_poll_ok [OF inv f assms(3), of w] by auto
    then show ?thesis
      using PollAcquire acquire_poll_ok [OF inv f assms(3), of w] bal
      by (simp add: client_inv_def case_prod_beta split: if_splits)
  next
    case (DropAcquire f)
    have "stock True (sem cs) < 2 ^ 64" using bal assms(4) DropAcquire by simp
    then show ?thesis using DropAcquire assms(2) acquire_drop_ok [OF inv'] bal by (auto simp: client_inv_def)
  next
    case TryAcquire
    then show ?thesis using try_acquire_ok [OF inv'] bal by (auto simp: client_inv_def case_prod_beta)
  next
    case DropPermit
    then have "kernel_free (kernel (sem cs)) + 1 < 2 ^ 64" using bal assms(2,4) free by simp
    from do_release_ok [OF inv' this] show ?thesis using DropPermit bal assms(2) by (auto simp: client_inv_def)
  next
    case (AddPermits m)
    then have "kernel_free (kernel (sem cs)) + m < 2 ^ 64" using bal assms(4) free by simp
    from do_release_ok [OF inv' this] show ?thesis using AddPermits bal by (auto simp: client_inv_def)
  next
    case Close
    then show ?thesis using sem_close_ok [OF inv'] bal by (auto simp: client_inv_def)
  qed (use inv' bal assms(2) in \<open>auto simp: client_inv_def\<close>)
qed

lemma added_mono: "sem_run ops cs = Some cs' \<Longrightarrow> added cs' = added cs + added_by ops"
proof (induction ops arbitrary: cs)
  case (Cons op ops)
  have "added (sem_exec op cs) = added cs + added_by [op]" by (cases op) (simp_all add: case_prod_beta)
  then show ?case using Cons by (cases op) (simp_all split: if_splits)
qed simp

lemma sem_run_inv:
  assumes "client_inv n lw c cs" "sem_run ops cs = Some cs'" "c + length ops < 2 ^ 64" "n + added cs' < 2 ^ 64"
  shows "client_inv n (last_wakers ops lw) (c + length ops) cs'"
  using assms
proof (induction ops arbitrary: cs lw c)
  case (Cons op ops)
  have run: "sem_enabled op cs" "sem_run ops (sem_exec op cs) = Some cs'" using Cons.prems(2) by (auto split: if_splits)
  have "client_inv n (last_wakers [op] lw) (Suc c) (sem_exec op cs)"
    by (rule sem_exec_inv) (use Cons.prems run added_mono [OF run(2)] in auto)
  moreover have "last_wakers (op # ops) lw = last_wakers ops (last_wakers [op] lw)" by (cases op) simp_all
  ultimately show ?case using Cons.IH [OF _ run(2), of "last_wakers [op] lw" "Suc c"] Cons.prems(3,4)
    by (simp del: last_wakers.simps)
qed simp

lemma client_new_inv: "n < 2 ^ 64 \<Longrightarrow> client_inv n lw 0 (client_new n)"
  using semaphore_new_ok [of n lw] by (simp add: client_inv_def client_new_def)

lemma sem_reachable:
  assumes "n < 2 ^ 64" "sem_run ops (client_new n) = Some cs" "length ops < 2 ^ 64" "n + added_by ops < 2 ^ 64"
  shows "sem_ok (last_wakers ops lw) (length ops) (sem cs) \<and>
    stock True (sem cs) + live cs + forgotten cs = n + added_by ops"
proof -
  have "added cs = added_by ops" using added_mono [OF assms(2)] by (simp add: client_new_def)
  then show ?thesis
    using sem_run_inv [OF client_new_inv [OF assms(1)] assms(2)] assms(3,4) by (simp add: client_inv_def)
qed

section \<open>The order of service\<close>

lemma signal_n_fifo:
  assumes "sem_ok lw c s" "\<not> closed s" "kernel_free (kernel s) + n < 2 ^ 64"
  shows "snd (signal_n n s) = map (snd \<circ> snd) (take n (wakers s)) \<and>
    wakers (fst (signal_n n s)) = drop n (wakers s) \<and>
    flags (fst (signal_n n s)) = (\<lambda>f. flags s f \<or> f \<in> fst ` snd ` set (take n (wakers s))) \<and>
    kernel_free (kernel (fst (signal_n n s))) = kernel_free (kernel s) + (n - length (wakers s))"
  using assms
proof (induction n arbitrary: s)
  case (Suc n)
  let ?d = "fst (deliver True s)"
  have free: "kernel_free (kernel s) < 2 ^ 64 - 1" using Suc.prems by simp
  have inv: "waiting_inv False True lw c s" using Suc.prems by simp
  have cl: "\<not> closed ?d" using closed_more [OF deliver_frame(4) [OF Suc.prems(1) free]] Suc.prems(2) by metis
  have ok: "sem_ok lw c ?d" using deliver_inv [OF inv free, of True] cl by simp
  show ?case
  proof (rule deliver_cases [OF inv free, of True])
    fix k
    assume d: "deliver True s = (s\<lparr>kernel := k\<rparr>, None)" "kernel_free k = Suc (kernel_free (kernel s))"
      "True \<Longrightarrow> queue (kernel s) = []"
    have "wakers s = []" using waiting_invD(5) [OF inv] d(3) by simp
    then show ?thesis using Suc.IH [of ?d] ok cl d Suc.prems(3) by (simp add: case_prod_beta)
  next
    fix i q f ws fu k
    assume d: "wakers s = (i, f, lw f) # ws" "kernel_free k = kernel_free (kernel s)"
      "deliver True s = (s\<lparr>kernel := k, wakers := ws, flags := (flags s)(f := True)\<rparr>, Some (lw f))"
    then show ?thesis using Suc.IH [of ?d] ok cl Suc.prems(3) by (auto simp: case_prod_beta fun_eq_iff)
  qed
qed simp

section \<open>The mutex\<close>

record ('w, 'a) mutex =
  msem :: "'w semaphore"
  mdata :: 'a

definition mutex_new :: "'a \<Rightarrow> ('w, 'a) mutex" where
  "mutex_new v = \<lparr>msem = semaphore_new 1, mdata = v\<rparr>"

text \<open>
  \<open>lock\<close> wraps an \<open>Acquire\<close>.  A \<open>LockOwned\<close> has the same fields, with its \<open>mutex: Option\<close> taken at
  completion in the place of the \<open>completed\<close> flag.  The value \<open>None\<close> is the panic of a closed semaphore.
\<close>

definition mutex_lock :: "nat \<Rightarrow> ('w, 'a) mutex \<Rightarrow> ('w, 'a) mutex" where
  "mutex_lock f m = m\<lparr>msem := new_fut False f (msem m)\<rparr>"

definition lock_poll :: "nat \<Rightarrow> 'w \<Rightarrow> ('w, 'a) mutex \<Rightarrow> (('w, 'a) mutex \<times> bool) option" where
  "lock_poll f w m =
     (case acquire_poll f w (msem m) of
        (s, AcqOk) \<Rightarrow> Some (m\<lparr>msem := s\<rparr>, True)
      | (s, AcqErr) \<Rightarrow> None
      | (s, AcqPending) \<Rightarrow> Some (m\<lparr>msem := s\<rparr>, False))"

definition lock_owned_poll :: "nat \<Rightarrow> 'w \<Rightarrow> ('w, 'a) mutex \<Rightarrow> (('w, 'a) mutex \<times> bool) option" where
  "lock_owned_poll f w m =
     (case poll_acquire_inner f w (msem m) of
        (s, AcqOk) \<Rightarrow> Some (m\<lparr>msem := complete f s\<rparr>, True)
      | (s, AcqErr) \<Rightarrow> None
      | (s, AcqPending) \<Rightarrow> Some (m\<lparr>msem := s\<rparr>, False))"

definition lock_owned_drop :: "nat \<Rightarrow> ('w, 'a) mutex \<Rightarrow> ('w, 'a) mutex" where
  "lock_owned_drop f m =
     m\<lparr>msem := forget_fut f (if \<not> completed (the (futs (msem m) f)) then drop_acquire_inner f (msem m) else msem m)\<rparr>"

definition try_lock :: "('w, 'a) mutex \<Rightarrow> ('w, 'a) mutex \<times> bool" where
  "try_lock m = (case try_acquire (msem m) of (s, ok) \<Rightarrow> (m\<lparr>msem := s\<rparr>, ok))"

definition guard_drop :: "('w, 'a) mutex \<Rightarrow> ('w, 'a) mutex" where
  "guard_drop m = m\<lparr>msem := do_release 1 (msem m)\<rparr>"

text \<open>
  A client with its live guards (borrowed and owned).  \<open>try_lock_owned\<close> forgets the permit of a
  \<open>try_acquire\<close> and keeps the lock in its guard; a write goes through a guard.
\<close>

record ('w, 'a) mutex_client =
  mu :: "('w, 'a) mutex"
  guards :: nat
  owned :: nat

abbreviation mfuts :: "('w, 'a) mutex_client \<Rightarrow> nat \<rightharpoonup> wait_fut" where
  "mfuts c \<equiv> futs (msem (mu c))"

inductive mutex_reach :: "'a \<Rightarrow> nat \<Rightarrow> ('w, 'a) mutex_client \<Rightarrow> bool" for v :: 'a where
  init: "mutex_reach v 0 \<lparr>mu = mutex_new v, guards = 0, owned = 0\<rparr>"
| lock: "mutex_reach v c m \<Longrightarrow> mfuts m f = None \<Longrightarrow> mutex_reach v (Suc c) (m\<lparr>mu := mutex_lock f (mu m)\<rparr>)"
| poll: "mutex_reach v c m \<Longrightarrow> mfuts m f = Some fu \<Longrightarrow> \<not> completed fu \<Longrightarrow> lock_poll f w (mu m) = Some (m', r) \<Longrightarrow>
    mutex_reach v (Suc c) (m\<lparr>mu := m', guards := guards m + (if r then 1 else 0)\<rparr>)"
| poll_owned: "mutex_reach v c m \<Longrightarrow> mfuts m f = Some fu \<Longrightarrow> \<not> completed fu \<Longrightarrow>
    lock_owned_poll f w (mu m) = Some (m', r) \<Longrightarrow>
    mutex_reach v (Suc c) (m\<lparr>mu := m', owned := owned m + (if r then 1 else 0)\<rparr>)"
| drop: "mutex_reach v c m \<Longrightarrow> mfuts m f = Some fu \<Longrightarrow>
    mutex_reach v (Suc c) (m\<lparr>mu := (mu m)\<lparr>msem := acquire_drop f (msem (mu m))\<rparr>\<rparr>)"
| drop_owned: "mutex_reach v c m \<Longrightarrow> mfuts m f = Some fu \<Longrightarrow>
    mutex_reach v (Suc c) (m\<lparr>mu := lock_owned_drop f (mu m)\<rparr>)"
| attempt: "mutex_reach v c m \<Longrightarrow> try_lock (mu m) = (m', r) \<Longrightarrow>
    mutex_reach v (Suc c) (m\<lparr>mu := m', guards := guards m + (if r then 1 else 0)\<rparr>)"
| attempt_owned: "mutex_reach v c m \<Longrightarrow> try_lock (mu m) = (m', r) \<Longrightarrow>
    mutex_reach v (Suc c) (m\<lparr>mu := m', owned := owned m + (if r then 1 else 0)\<rparr>)"
| unlock: "mutex_reach v c m \<Longrightarrow> 0 < guards m \<Longrightarrow>
    mutex_reach v (Suc c) (m\<lparr>mu := guard_drop (mu m), guards := guards m - 1\<rparr>)"
| unlock_owned: "mutex_reach v c m \<Longrightarrow> 0 < owned m \<Longrightarrow>
    mutex_reach v (Suc c) (m\<lparr>mu := guard_drop (mu m), owned := owned m - 1\<rparr>)"
| put: "mutex_reach v c m \<Longrightarrow> 0 < guards m + owned m \<Longrightarrow>
    mutex_reach v (Suc c) (m\<lparr>mu := (mu m)\<lparr>mdata := u\<rparr>\<rparr>)"

text \<open>A step of a mutex is a step of a client of its semaphore.\<close>

definition as_client :: "('w, 'a) mutex_client \<Rightarrow> 'w sem_client" where
  "as_client m = \<lparr>sem = msem (mu m), live = guards m + owned m, forgotten = 0, added = 0\<rparr>"

lemma lock_owned_poll_eq: "lock_owned_poll f w m = lock_poll f w m"
  by (simp add: lock_owned_poll_def lock_poll_def acquire_poll_def case_prod_beta split: acq_result.splits)

lemma lock_owned_drop_eq: "lock_owned_drop f m = m\<lparr>msem := acquire_drop f (msem m)\<rparr>"
  by (simp add: lock_owned_drop_def acquire_drop_def)

definition mutex_inv :: "nat \<Rightarrow> ('w, 'a) mutex_client \<Rightarrow> bool" where
  "mutex_inv c m \<longleftrightarrow> (\<exists>lw. client_inv 1 lw c (as_client m)) \<and> \<not> closed (msem (mu m))"

lemma sem_exec_closed:
  assumes inv: "client_inv n lw c cs" and op: "sem_enabled op cs" "op \<noteq> Close"
    and c: "Suc c < 2 ^ 64" and a: "n + added (sem_exec op cs) < 2 ^ 64"
  shows "closed (sem (sem_exec op cs)) = closed (sem cs)"
proof -
  have ok: "sem_ok lw c (sem cs)" and bal: "stock True (sem cs) + live cs + forgotten cs = n + added cs"
    using inv by (auto simp: client_inv_def)
  have free: "kernel_free (kernel (sem cs)) \<le> stock True (sem cs)" by (simp add: stock_def)
  show ?thesis
  proof (cases op)
    case (PollAcquire f w)
    then show ?thesis using acquire_poll_ok [OF ok _ _ c] op(1) by (auto simp: case_prod_beta split: option.splits)
  next
    case (DropAcquire f)
    then show ?thesis using acquire_drop_ok [OF ok] op(1) a bal by auto
  next
    case DropPermit
    then have "kernel_free (kernel (sem cs)) + 1 < 2 ^ 64" using op(1) a bal free by simp
    from do_release_ok [OF ok this] show ?thesis using DropPermit by simp
  next
    case (AddPermits m)
    then have "kernel_free (kernel (sem cs)) + m < 2 ^ 64" using a bal free by simp
    from do_release_ok [OF ok this] show ?thesis using AddPermits by simp
  qed (use op(2) try_acquire_ok [OF ok] in \<open>auto simp: new_fut_def case_prod_beta\<close>)
qed

lemma mutex_inv_exec:
  assumes "mutex_inv c m" "sem_enabled op (as_client m)" "op \<noteq> Close" "Suc c < 2 ^ 64"
    and m': "as_client m' = sem_exec op (as_client m)"
  shows "mutex_inv (Suc c) m'"
proof -
  obtain lw where inv: "client_inv 1 lw c (as_client m)" and cl: "\<not> closed (sem (as_client m))"
    using assms(1) by (auto simp: mutex_inv_def as_client_def)
  have "added (sem_exec op (as_client m)) = 0" unfolding m' [symmetric] by (simp add: as_client_def)
  then have a: "1 + added (sem_exec op (as_client m)) < 2 ^ 64" by simp
  have "closed (sem (as_client m')) = closed (sem (as_client m))"
    unfolding m' by (rule sem_exec_closed [OF inv assms(2-4) a])
  then show ?thesis
    using sem_exec_inv [OF inv assms(2,4) a] cl unfolding mutex_inv_def m' [symmetric] by (auto simp: as_client_def)
qed

lemma mutex_reach_inv: "mutex_reach v c m \<Longrightarrow> c < 2 ^ 64 \<Longrightarrow> mutex_inv c m"
proof (induction rule: mutex_reach.induct)
  case init
  show ?case
    using client_new_inv [of 1 undefined]
    by (auto simp: mutex_inv_def as_client_def mutex_new_def client_new_def) (simp add: semaphore_new_def)
next
  case (lock c m f)
  then show ?case by (intro mutex_inv_exec [of c m "Acquire f"]) (auto simp: as_client_def mutex_lock_def)
next
  case (poll c m f fu w m' r)
  then show ?case
    by (intro mutex_inv_exec [of c m "PollAcquire f w"])
      (auto simp: as_client_def lock_poll_def split: prod.splits acq_result.splits)
next
  case (poll_owned c m f fu w m' r)
  then show ?case
    by (intro mutex_inv_exec [of c m "PollAcquire f w"])
      (auto simp: as_client_def lock_owned_poll_eq lock_poll_def split: prod.splits acq_result.splits)
next
  case (drop c m f fu)
  then show ?case by (intro mutex_inv_exec [of c m "DropAcquire f"]) (auto simp: as_client_def)
next
  case (drop_owned c m f fu)
  then show ?case by (intro mutex_inv_exec [of c m "DropAcquire f"]) (auto simp: as_client_def lock_owned_drop_eq)
next
  case (attempt c m m' r)
  then show ?case
    by (intro mutex_inv_exec [of c m TryAcquire]) (auto simp: as_client_def try_lock_def split: prod.splits)
next
  case (attempt_owned c m m' r)
  then show ?case
    by (intro mutex_inv_exec [of c m TryAcquire]) (auto simp: as_client_def try_lock_def split: prod.splits)
next
  case (unlock c m)
  then show ?case by (intro mutex_inv_exec [of c m DropPermit]) (auto simp: as_client_def guard_drop_def)
next
  case (unlock_owned c m)
  then show ?case by (intro mutex_inv_exec [of c m DropPermit]) (auto simp: as_client_def guard_drop_def)
next
  case (put c m u)
  then show ?case
    by (intro mutex_inv_exec [of c m "AddPermits 0"]) (auto simp: as_client_def do_release_def wake_all_def)
qed

section \<open>Properties\<close>

text \<open>
  The bound on the permits is needed: \<open>signal_step\<close> adds to a 64-bit counter unchecked, although the
  specification asks for \<open>permit < u64::MAX\<close>, and its callers do not check either.
\<close>

lemma permits_wrap:
  "\<exists>cs :: 'w sem_client. sem_run [AddPermits 1] (client_new (2 ^ 64 - 1)) = Some cs \<and> permit (kernel (sem cs)) = 0"
proof -
  have "(of_nat (2 ^ 64 - 1) :: u64) + 1 = 0" by simp
  then show ?thesis
    by (simp add: client_new_def semaphore_new_def waiter_with_permits_def do_release_def deliver.simps signal_step_def wake_all_def Let_def)
qed

text \<open>C23: Permits are conserved.  Consider any sequence of operations on a semaphore of \<open>n\<close> permits
  (acquires polled and dropped at any moment, parked, granted or not, releases, \<open>forget\<close>,
  \<open>add_permits\<close>, \<open>close\<close>) of fewer than \<open>2 ^ 64\<close> operations, in which \<open>n\<close> and the added permits make
  less than \<open>2 ^ 64\<close> together.  After it the free permits, the ones handed to a future that was not
  polled since, the live ones and the forgotten ones add up to the \<open>n\<close> initial and the added ones, the
  kernel's queue and counter agree with its log, and the log satisfies the two invariants of a
  utility.  With more permits than that the 64-bit counter of the free ones wraps, and permits are
  lost (\<open>permits_wrap\<close>).\<close>

theorem semaphore_conserves:
  assumes "n < 2 ^ 64" "sem_run ops (client_new n) = Some cs" "length ops < 2 ^ 64" "n + added_by ops < 2 ^ 64"
  shows "unat (permit (kernel (sem cs))) + card (in_flight True (sem cs)) + live cs + forgotten cs = n + added_by ops \<and>
    well_formed (kernel (sem cs))"
proof -
  note r = sem_reachable [OF assms, of undefined]
  then have "kernel_ok (kernel (sem cs))" by (intro waiting_invD(1)) (rule conjunct1)
  then show ?thesis using r by (simp add: stock_def kernel_ok_def)
qed

theorem semaphore_conserves_witness:
  "\<exists>cs :: nat sem_client. sem_run [Acquire 0, PollAcquire 0 7, Acquire 1, PollAcquire 1 8, DropAcquire 1]
      (client_new 1) = Some cs \<and>
    unat (permit (kernel (sem cs))) + card (in_flight True (sem cs)) + live cs + forgotten cs = 1"
proof -
  let ?ops = "[Acquire 0, PollAcquire 0 7, Acquire 1, PollAcquire 1 8, DropAcquire 1] :: nat sem_op list"
  have "\<exists>cs. sem_run ?ops (client_new 1) = Some cs"
    by (simp add: client_new_def semaphore_new_def new_fut_def acquire_poll_def poll_acquire_inner_def
      poll_acquire_locked_def first_poll_def wait_step_def waiter_with_permits_def complete_def)
  then obtain cs where run: "sem_run ?ops (client_new 1) = Some cs" by (auto split: option.splits)
  show ?thesis using semaphore_conserves [OF _ run] run by auto
qed

text \<open>C25: No wakeup is lost.  In every state that a semaphore reaches before it is closed, in fewer than
  \<open>2 ^ 64\<close> operations and with less than \<open>2 ^ 64\<close> initial and added permits together, a future that
  is parked and has not been handed a permit stands in the kernel's queue and in the table with the
  waker of its most recent poll, and no permit is free while it waits.\<close>

theorem semaphore_waiter_registered:
  assumes "n < 2 ^ 64" "sem_run ops (client_new n) = Some cs" "length ops < 2 ^ 64" "n + added_by ops < 2 ^ 64"
    and "\<not> closed (sem cs)" "futs (sem cs) f = Some fu" "parked fu" "\<not> flags (sem cs) f"
  shows "(ident fu, f, last_wakers ops lw f) \<in> set (wakers (sem cs)) \<and>
    ident fu \<in> set (queue (kernel (sem cs))) \<and> permit (kernel (sem cs)) = 0"
proof -
  have "waiting_inv False True (last_wakers ops lw) (length ops) (sem cs)"
    using sem_reachable [OF assms(1-4), of lw] assms(5) by simp
  from parked_registered [OF this assms(6,7)] show ?thesis using assms(8) by (simp add: unat_eq_0)
qed

theorem semaphore_waiter_registered_witness:
  "\<exists>cs :: nat sem_client. sem_run [Acquire 0, PollAcquire 0 7, PollAcquire 0 8] (client_new 0) = Some cs \<and>
    (0, 0, 8) \<in> set (wakers (sem cs)) \<and> permit (kernel (sem cs)) = 0"
proof -
  let ?ops = "[Acquire 0, PollAcquire 0 7, PollAcquire 0 8] :: nat sem_op list"
  have "case sem_run ?ops (client_new 0) of None \<Rightarrow> False
      | Some cs \<Rightarrow> \<not> closed (sem cs) \<and> (case futs (sem cs) 0 of None \<Rightarrow> False | Some fu \<Rightarrow> parked fu \<and> ident fu = 0) \<and>
          \<not> flags (sem cs) 0" by code_simp
  then obtain cs fu where run: "sem_run ?ops (client_new 0) = Some cs"
    and st: "\<not> closed (sem cs)" "futs (sem cs) 0 = Some fu" "parked fu" "\<not> flags (sem cs) 0" "ident fu = 0"
    by (auto split: option.splits)
  show ?thesis using semaphore_waiter_registered [OF _ run _ _ st(1-4), of undefined] run st(5) by auto
qed

text \<open>C26: First come, first served.  Take any state that a semaphore reaches before it is closed, in
  fewer than \<open>2 ^ 64\<close> operations and with less than \<open>2 ^ 64\<close> initial and added permits together.  A
  release of \<open>k\<close> permits, as long as \<open>k\<close> and the free permits make less than \<open>2 ^ 64\<close>, so that the 64-bit
  counter does not wrap, hands one to each of the first \<open>k\<close> parked futures, in the order of their first
  polls, wakes exactly their wakers in that order, and stores the permits that are left.\<close>

theorem semaphore_release_fifo:
  assumes "n < 2 ^ 64" "sem_run ops (client_new n) = Some cs" "length ops < 2 ^ 64" "n + added_by ops < 2 ^ 64"
    and "\<not> closed (sem cs)" "unat (permit (kernel (sem cs))) + k < 2 ^ 64"
  shows "map fst (wakers (sem cs)) = queue (kernel (sem cs)) \<and>
    woken (do_release k (sem cs)) = woken (sem cs) @ map (snd \<circ> snd) (take k (wakers (sem cs))) \<and>
    wakers (do_release k (sem cs)) = drop k (wakers (sem cs)) \<and>
    flags (do_release k (sem cs)) = (\<lambda>f. flags (sem cs) f \<or> f \<in> fst ` snd ` set (take k (wakers (sem cs)))) \<and>
    unat (permit (kernel (do_release k (sem cs)))) = unat (permit (kernel (sem cs))) + (k - length (wakers (sem cs)))"
proof -
  have ok: "sem_ok (last_wakers ops undefined) (length ops) (sem cs)" using sem_reachable [OF assms(1-4)] by blast
  show ?thesis
    using signal_n_ok [OF ok assms(6)] signal_n_fifo [OF ok assms(5,6)] waiting_invD(5) [OF ok] assms(5)
    by (simp add: do_release_def case_prod_beta wake_all_def)
qed

theorem semaphore_release_fifo_witness:
  "\<exists>cs :: nat sem_client. sem_run [Acquire 0, PollAcquire 0 7, Acquire 1, PollAcquire 1 8] (client_new 0) = Some cs \<and>
    woken (do_release 1 (sem cs)) = [7] \<and> flags (do_release 1 (sem cs)) 0 \<and> \<not> flags (do_release 1 (sem cs)) 1"
proof -
  let ?ops = "[Acquire 0, PollAcquire 0 7, Acquire 1, PollAcquire 1 8] :: nat sem_op list"
  have "\<exists>cs. sem_run ?ops (client_new 0) = Some cs \<and> \<not> closed (sem cs) \<and> permit (kernel (sem cs)) = 0 \<and>
      wakers (sem cs) = [(0, 0, 7), (1, 1, 8)] \<and> woken (sem cs) = [] \<and> \<not> flags (sem cs) 0 \<and> \<not> flags (sem cs) 1"
    by (simp add: client_new_def semaphore_new_def new_fut_def acquire_poll_def poll_acquire_inner_def
      poll_acquire_locked_def first_poll_def wait_step_def waiter_with_permits_def complete_def)
  then obtain cs where run: "sem_run ?ops (client_new 0) = Some cs" and cl: "\<not> closed (sem cs)"
    and st: "permit (kernel (sem cs)) = 0" "wakers (sem cs) = [(0, 0, 7), (1, 1, 8)]" "woken (sem cs) = []"
      "\<not> flags (sem cs) 0" "\<not> flags (sem cs) 1" by blast
  show ?thesis using semaphore_release_fifo [OF _ run _ _ cl, of 1] run st by auto
qed

text \<open>C24: Mutual exclusion.  In every state that the clients of a mutex reach, through borrowed and owned
  locks, polled or dropped at any moment, and through \<open>try_lock\<close>, the guards, the locks handed to a
  future that was not polled since and the free permit add up to one, so there are never two guards;
  and a poll of a lock never hits the panic for a closed semaphore.  The runs have fewer than \<open>2 ^ 64\<close>
  operations, the range of the waiter ids.\<close>

theorem mutex_exclusive:
  assumes "mutex_reach v c m" "c < 2 ^ 64"
  shows "unat (permit (kernel (msem (mu m)))) + card (in_flight True (msem (mu m))) + (guards m + owned m) = 1 \<and>
    (\<forall>f w. lock_poll f w (mu m) \<noteq> None \<and> lock_owned_poll f w (mu m) \<noteq> None)"
proof -
  have inv: "mutex_inv c m" by (rule mutex_reach_inv [OF assms])
  have "snd (acquire_poll f w (msem (mu m))) \<noteq> AcqErr" for f w
    using inv by (auto simp: mutex_inv_def acquire_poll_def poll_acquire_inner_def poll_acquire_locked_def
      split: prod.splits acq_result.splits if_splits)
  then have "lock_poll f w (mu m) \<noteq> None" for f w
    by (auto simp: lock_poll_def split: prod.splits acq_result.splits) (metis snd_conv)
  then show ?thesis
    using inv by (auto simp: mutex_inv_def client_inv_def as_client_def stock_def lock_owned_poll_eq)
qed

theorem mutex_exclusive_witness:
  "\<exists>m :: (nat, nat) mutex_client. mutex_reach 5 2 m \<and> guards m = 1 \<and> owned m = 0 \<and> permit (kernel (msem (mu m))) = 0"
proof -
  define m0 :: "(nat, nat) mutex_client" where "m0 = \<lparr>mu = mutex_new 5, guards = 0, owned = 0\<rparr>"
  define m1 where "m1 = m0\<lparr>mu := mutex_lock 0 (mu m0)\<rparr>"
  have f: "mfuts m0 0 = None" "mfuts m1 0 = Some \<lparr>ident = 0, parked = False, completed = False\<rparr>"
    by (simp_all add: m1_def m0_def mutex_new_def mutex_lock_def semaphore_new_def new_fut_def)
  have "mutex_reach 5 0 m0" unfolding m0_def by (rule mutex_reach.init)
  then have r: "mutex_reach 5 (Suc 0) m1" unfolding m1_def by (rule mutex_reach.lock) (rule f(1))
  obtain m' where p: "lock_poll 0 7 (mu m1) = Some (m', True)"
    by (simp add: m1_def m0_def mutex_new_def mutex_lock_def semaphore_new_def new_fut_def lock_poll_def acquire_poll_def
      poll_acquire_inner_def poll_acquire_locked_def first_poll_def wait_step_def waiter_with_permits_def)
  have reach: "mutex_reach 5 2 (m1\<lparr>mu := m', guards := guards m1 + 1\<rparr>)"
    using mutex_reach.poll [OF r f(2) _ p] by (simp add: numeral_2_eq_2)
  have "guards m1 = 0" "owned m1 = 0" by (simp_all add: m1_def m0_def)
  then show ?thesis using mutex_exclusive [OF reach] reach by (intro exI [of _ "m1\<lparr>mu := m', guards := guards m1 + 1\<rparr>"])
    (auto simp: unat_eq_0)
qed

text \<open>C27: A poll that reads its flag before it takes the lock can lose its waker.  In any state that a
  semaphore reaches before it is closed (within the bounds of C25) while a permit is held, let the first parked
  future be polled with a new waker, let a release on another thread take the lock between the read of
  the flag (still false) and the poll's own lock.  Then the poll ends pending, only the waker of the
  previous poll has been woken, and the future is in no table any more: the new waker is never woken.\<close>

theorem acquire_poll_race:
  assumes "n < 2 ^ 64" "sem_run ops (client_new n) = Some cs" "length ops < 2 ^ 64" "n + added_by ops < 2 ^ 64"
    and "\<not> closed (sem cs)" "wakers (sem cs) = (i, f, u) # ws" "0 < live cs"
  shows "\<not> flags (sem cs) f \<and> flags (do_release 1 (sem cs)) f \<and>
    poll_acquire_locked f w (do_release 1 (sem cs)) = (do_release 1 (sem cs), AcqPending) \<and>
    woken (do_release 1 (sem cs)) = woken (sem cs) @ [u] \<and> (\<forall>j v. (j, f, v) \<notin> set (wakers (do_release 1 (sem cs))))"
proof -
  define s1 where "s1 = do_release 1 (sem cs)"
  have ok: "sem_ok (last_wakers ops undefined) (length ops) (sem cs)"
    and bal: "stock True (sem cs) + live cs + forgotten cs = n + added_by ops"
    using sem_reachable [OF assms(1-4)] by blast+
  have free: "kernel_free (kernel (sem cs)) + 1 < 2 ^ 64" using bal assms(4,7) by (simp add: stock_def)
  note fifo = signal_n_fifo [OF ok assms(5) free] and n = signal_n_ok [OF ok free]
  have s1: "wakers s1 = ws" "flags s1 f" "woken s1 = woken (sem cs) @ [u]" "futs s1 = futs (sem cs)" "\<not> closed s1"
    using fifo n assms(5,6) by (auto simp: s1_def do_release_def case_prod_beta wake_all_def)
  have ok1: "sem_ok (last_wakers ops undefined) (length ops) s1" using do_release_ok [OF ok free] by (auto simp: s1_def)
  have gone: "(j, f, v) \<notin> set (wakers s1)" for j v by (rule not_in_table [OF ok1]) (use s1 in simp)
  obtain fu where fu: "futs (sem cs) f = Some fu" "parked fu" "\<not> flags (sem cs) f"
    using waiting_invD(7) [OF ok, of i f u] assms(6) by auto
  have "refresh f w s1 = s1"
  proof -
    have "g \<noteq> ident fu" if e: "(g, h, v) \<in> set (wakers s1)" for g h v
    proof -
      have "h \<noteq> f" using gone e by blast
      then show ?thesis using waiting_invD(7) [OF ok1 e] waiting_invD(9) [OF ok1, of h _ f] fu s1(4) by metis
    qed
    then have "waker_pos (ident fu) (wakers s1) = None" by (auto simp: waker_pos_def position_None)
    then show ?thesis by (simp add: refresh_def s1(4) fu(1))
  qed
  then show ?thesis using s1 fu gone unfolding s1_def [symmetric] by (simp add: poll_acquire_locked_def)
qed

theorem acquire_poll_race_witness:
  "\<exists>cs :: nat sem_client. sem_run [Acquire 0, PollAcquire 0 7, Acquire 1, PollAcquire 1 8] (client_new 1) = Some cs \<and>
    poll_acquire_locked 1 9 (do_release 1 (sem cs)) = (do_release 1 (sem cs), AcqPending) \<and>
    woken (do_release 1 (sem cs)) = [8]"
proof -
  let ?ops = "[Acquire 0, PollAcquire 0 7, Acquire 1, PollAcquire 1 8] :: nat sem_op list"
  have "\<exists>cs. sem_run ?ops (client_new 1) = Some cs \<and> \<not> closed (sem cs) \<and> live cs = 1 \<and>
      wakers (sem cs) = [(1, 1, 8)] \<and> woken (sem cs) = []"
    by (simp add: client_new_def semaphore_new_def new_fut_def acquire_poll_def poll_acquire_inner_def
      poll_acquire_locked_def first_poll_def wait_step_def waiter_with_permits_def complete_def)
  then obtain cs where run: "sem_run ?ops (client_new 1) = Some cs" and cl: "\<not> closed (sem cs)"
    and st: "live cs = 1" "wakers (sem cs) = [(1, 1, 8)]" "woken (sem cs) = []" by blast
  show ?thesis using acquire_poll_race [OF _ run _ _ cl st(2), of 9] run st by auto
qed

end
