(* ===== verification/Notify.thy ===== *)
theory Notify
  imports Waiting
begin

text \<open>
  The notification primitive: model of \<^verbatim>\<open>lion-utility/src/sync/notify.rs\<close>.  The state is the one of
  theory \<open>Waiting\<close>, the flag of a future has three values.  Shown: a \<open>notify_one\<close> is never lost, it is
  stored, on its way to a live future, or consumed, also when the future it was meant for is dropped;
  a \<open>notify_waiters\<close> wakes exactly the parked futures and stores nothing.
\<close>

section \<open>Operations\<close>

datatype notified_flag = PENDING | NOTIFIED_ONE | NOTIFIED_ALL

type_synonym 'w notify = "(notified_flag, 'w) waiting"

definition notify_new :: "'w notify" where
  "notify_new = \<lparr>kernel = waiter_new, wakers = [], next_id = 0, flags = (\<lambda>_. PENDING), futs = Map.empty, woken = []\<rparr>"

definition opt_list :: "'a option \<Rightarrow> 'a list" where
  "opt_list x = (case x of Some y \<Rightarrow> [y] | None \<Rightarrow> [])"

definition deliver_one :: "'w notify \<Rightarrow> 'w notify \<times> 'w option" where
  "deliver_one s = deliver NOTIFIED_ONE s"

definition notify_one :: "'w notify \<Rightarrow> 'w notify" where
  "notify_one s = (let (s1, w) = deliver_one s in wake_all (opt_list w) s1)"

text \<open>The loop of \<open>notify_waiters\<close>, with the wakers it collects.\<close>

function notify_drain :: "'w notify \<Rightarrow> 'w notify \<times> 'w list" where
  "notify_drain s =
     (if queue (kernel s) = [] then (s, [])
      else case signal_step 0 (kernel s) of
        (k, Stored) \<Rightarrow> (s\<lparr>kernel := k\<rparr>, [])
      | (k, Woke i) \<Rightarrow>
          (case waker_pos i (wakers s) of
             Some p \<Rightarrow>
               (let (s2, ws) = notify_drain (s\<lparr>kernel := k, wakers := vec_remove p (wakers s),
                      flags := (flags s)(fst (snd (wakers s ! p)) := NOTIFIED_ALL)\<rparr>)
                in (s2, snd (snd (wakers s ! p)) # ws))
           | None \<Rightarrow> notify_drain (s\<lparr>kernel := k\<rparr>)))"
  by pat_completeness auto
termination
  by (relation "measure (\<lambda>s. length (queue (kernel s)))") (auto simp: signal_step_def split: list.splits)

declare notify_drain.simps [simp del]

definition notify_waiters :: "'w notify \<Rightarrow> 'w notify" where
  "notify_waiters s = (let (s1, to_wake) = notify_drain s in wake_all to_wake s1)"

definition notified_poll :: "nat \<Rightarrow> 'w \<Rightarrow> 'w notify \<Rightarrow> 'w notify \<times> bool" where
  "notified_poll f w s =
     (if flags s f \<noteq> PENDING then (complete f s, True)
      else if \<not> parked (the (futs s f)) then
        (case first_poll f w s of (s1, True) \<Rightarrow> (complete f s1, True) | (s1, False) \<Rightarrow> (s1, False))
      else (refresh f w s, False))"

definition notified_drop :: "nat \<Rightarrow> 'w notify \<Rightarrow> 'w notify" where
  "notified_drop f s =
     forget_fut f
       (if completed (the (futs s f)) \<or> \<not> parked (the (futs s f)) then s
        else case withdraw f s of
          (s1, True) \<Rightarrow> s1
        | (s1, False) \<Rightarrow>
            if flags s1 f = NOTIFIED_ONE \<and> permit (kernel s1) < u64_max
            then (let (s2, w) = deliver_one s1 in wake_all (opt_list w) s2) else s1)"

section \<open>Runs\<close>

datatype 'w notify_op =
  Notified nat
| PollNotified nat 'w
| DropNotified nat
| NotifyOne
| NotifyWaiters

text \<open>The notify, the calls of \<open>notify_one\<close> and the futures completed by one of them.\<close>

record 'w notify_client =
  nt :: "'w notify"
  sent :: nat
  taken :: nat

definition notify_client_new :: "'w notify_client" where
  "notify_client_new = \<lparr>nt = notify_new, sent = 0, taken = 0\<rparr>"

fun notify_enabled :: "'w notify_op \<Rightarrow> 'w notify_client \<Rightarrow> bool" where
  "notify_enabled (Notified f) c \<longleftrightarrow> futs (nt c) f = None"
| "notify_enabled (PollNotified f w) c \<longleftrightarrow> (case futs (nt c) f of Some fu \<Rightarrow> \<not> completed fu | None \<Rightarrow> False)"
| "notify_enabled (DropNotified f) c \<longleftrightarrow> futs (nt c) f \<noteq> None"
| "notify_enabled _ c \<longleftrightarrow> True"

fun notify_exec :: "'w notify_op \<Rightarrow> 'w notify_client \<Rightarrow> 'w notify_client" where
  "notify_exec (Notified f) c = c\<lparr>nt := new_fut PENDING f (nt c)\<rparr>"
| "notify_exec (PollNotified f w) c =
     (case notified_poll f w (nt c) of (s, r) \<Rightarrow>
        c\<lparr>nt := s, taken := taken c + (if r \<and> flags (nt c) f \<noteq> NOTIFIED_ALL then 1 else 0)\<rparr>)"
| "notify_exec (DropNotified f) c = c\<lparr>nt := notified_drop f (nt c)\<rparr>"
| "notify_exec NotifyOne c = c\<lparr>nt := notify_one (nt c), sent := Suc (sent c)\<rparr>"
| "notify_exec NotifyWaiters c = c\<lparr>nt := notify_waiters (nt c)\<rparr>"

fun notify_run :: "'w notify_op list \<Rightarrow> 'w notify_client \<Rightarrow> 'w notify_client option" where
  "notify_run [] c = Some c"
| "notify_run (op # ops) c = (if notify_enabled op c then notify_run ops (notify_exec op c) else None)"

fun polled_with :: "'w notify_op \<Rightarrow> (nat \<Rightarrow> 'w) \<Rightarrow> nat \<Rightarrow> 'w" where
  "polled_with (PollNotified f w) lw = lw(f := w)"
| "polled_with _ lw = lw"

definition last_poll :: "'w notify_op list \<Rightarrow> (nat \<Rightarrow> 'w) \<Rightarrow> nat \<Rightarrow> 'w" where
  "last_poll ops lw = fold polled_with ops lw"

section \<open>Every operation keeps the invariant and the balance\<close>

abbreviation notify_ok :: "(nat \<Rightarrow> 'w) \<Rightarrow> nat \<Rightarrow> 'w notify \<Rightarrow> bool" where
  "notify_ok lw c s \<equiv> waiting_inv PENDING True lw c s"

lemma notify_new_ok: "notify_ok lw 0 (notify_new :: 'w notify) \<and> stock NOTIFIED_ONE (notify_new :: 'w notify) = 0"
  by (auto simp: waiting_inv_def notify_new_def stock_def in_flight_def) (simp_all add: waiter_new_def)

lemma notify_one_ok:
  assumes "notify_ok lw c s" "kernel_free (kernel s) < 2 ^ 64 - 1"
  shows "notify_ok lw c (notify_one s) \<and> stock NOTIFIED_ONE (notify_one s) = Suc (stock NOTIFIED_ONE s)"
  using deliver_inv [OF assms, of NOTIFIED_ONE] deliver_stock [OF assms, of NOTIFIED_ONE]
  by (simp add: notify_one_def deliver_one_def case_prod_beta)

text \<open>One round of the loop is a delivery with the flag of a broadcast.\<close>

lemma notify_drain_spec:
  assumes "notify_ok lw c s"
  shows "notify_ok lw c (fst (notify_drain s)) \<and> stock NOTIFIED_ONE (fst (notify_drain s)) = stock NOTIFIED_ONE s \<and>
    snd (notify_drain s) = map (snd \<circ> snd) (wakers s) \<and> wakers (fst (notify_drain s)) = [] \<and>
    queue (kernel (fst (notify_drain s))) = [] \<and> permit (kernel (fst (notify_drain s))) = permit (kernel s) \<and>
    futs (fst (notify_drain s)) = futs s \<and> woken (fst (notify_drain s)) = woken s \<and>
    flags (fst (notify_drain s)) = (\<lambda>f. if f \<in> fst ` snd ` set (wakers s) then NOTIFIED_ALL else flags s f)"
  using assms
proof (induction "length (queue (kernel s))" arbitrary: s)
  case 0
  then show ?case using waiting_invD(5) [OF 0(2)] by (simp add: notify_drain.simps [of s])
next
  case (Suc n)
  have free: "kernel_free (kernel s) = 0" using kq.exclusive [OF waiting_invD(1) [OF Suc.prems]] Suc.hyps(2) by auto
  then have free': "kernel_free (kernel s) < 2 ^ 64 - 1" by simp
  show ?case
  proof (rule deliver_cases [OF Suc.prems free', of NOTIFIED_ALL])
    fix k
    assume "True \<Longrightarrow> queue (kernel s) = []"
    then show ?thesis using Suc.hyps(2) by simp
  next
    fix i q f ws fu k
    let ?s = "s\<lparr>kernel := k, wakers := ws, flags := (flags s)(f := NOTIFIED_ALL)\<rparr>"
    assume q: "queue (kernel s) = i # q" "queue k = q" and w: "wakers s = (i, f, lw f) # ws"
      and f: "futs s f = Some fu" "flags s f = PENDING"
      and d: "deliver NOTIFIED_ALL s = (?s, Some (lw f))" and k: "kernel_free k = kernel_free (kernel s)"
    have ok: "notify_ok lw c ?s" using deliver_inv [OF Suc.prems free', of NOTIFIED_ALL] d by simp
    have ks: "signal_step 0 (kernel s) = (k, Woke i)"
      using arg_cong [OF d, of "\<lambda>r. kernel (fst r)"] q w by (simp add: deliver.simps [of _ s] signal_step_def)
    then have step: "notify_drain s = (fst (notify_drain ?s), lw f # snd (notify_drain ?s))"
      using q w by (simp add: notify_drain.simps [of s] case_prod_beta)
    have "in_flight NOTIFIED_ONE ?s = in_flight NOTIFIED_ONE s" using f by (auto simp: in_flight_def)
    then have "stock NOTIFIED_ONE ?s = stock NOTIFIED_ONE s" using k by (simp add: stock_def)
    moreover have "permit k = permit (kernel s)" using k by (simp add: u64_eq_nat)
    ultimately show ?thesis using Suc.hyps(1) [OF _ ok] Suc.hyps(2) q w by (auto simp: step)
  qed
qed

lemma notified_poll_ok:
  assumes inv: "notify_ok lw c s" and f: "futs s f = Some fu" "\<not> completed fu" and c: "Suc c < 2 ^ 64"
  shows "notify_ok (lw(f := w)) (Suc c) (fst (notified_poll f w s)) \<and>
    stock NOTIFIED_ONE s = stock NOTIFIED_ONE (fst (notified_poll f w s)) +
      (if snd (notified_poll f w s) \<and> flags s f \<noteq> NOTIFIED_ALL then 1 else 0)"
proof -
  consider (flagged) "flags s f \<noteq> PENDING" | (first) "flags s f = PENDING" "\<not> parked fu"
    | (again) "flags s f = PENDING" "parked fu" by blast
  then show ?thesis
  proof cases
    case flagged
    have "(i, f, u) \<notin> set (wakers s)" for i u using not_in_table [OF inv, of f] flagged by auto
    then have lw: "notify_ok (lw(f := w)) (Suc c) s" using waiting_inv_mono [OF waiting_inv_lw [OF inv]] by simp
    have "in_flight NOTIFIED_ONE (complete f s) = in_flight NOTIFIED_ONE s - {f}" by (rule in_flight_complete [OF f(1)])
    moreover have "f \<in> in_flight NOTIFIED_ONE s \<longleftrightarrow> flags s f \<noteq> NOTIFIED_ALL"
      using f flagged by (cases "flags s f") (auto simp: in_flight_def)
    moreover have "kernel (complete f s) = kernel s" by (simp add: complete_def)
    ultimately have "stock NOTIFIED_ONE s = stock NOTIFIED_ONE (complete f s) + (if flags s f \<noteq> NOTIFIED_ALL then 1 else 0)"
      using stock_remove_in_flight [OF inv, of f NOTIFIED_ONE "complete f s"]
      by (cases "flags s f = NOTIFIED_ALL") (simp_all add: stock_def)
    then show ?thesis using complete_inv [OF lw f(1)] flagged by (simp add: notified_poll_def)
  next
    case first
    let ?p = "first_poll f w s"
    have inv': "notify_ok (lw(f := w)) (Suc c) (fst ?p)" using first_poll_inv [OF inv f(1) first(2) f(2) c] .
    have st: "stock NOTIFIED_ONE s = stock NOTIFIED_ONE (fst ?p) + (if snd ?p then 1 else 0)"
      using first_poll_stock [OF inv f(1) first(2), of NOTIFIED_ONE w] by simp
    have fut: "flags (fst ?p) = flags s" "\<exists>fu'. futs (fst ?p) f = Some fu' \<and> (snd ?p \<longrightarrow> \<not> parked fu')"
      by (rule first_poll_cases [OF waiting_invD(1) [OF inv] f(1), of w]; use first in simp)+
    then have "in_flight NOTIFIED_ONE (complete f (fst ?p)) = in_flight NOTIFIED_ONE (fst ?p) - {f}"
        "f \<notin> in_flight NOTIFIED_ONE (fst ?p)"
      using in_flight_complete [of "fst ?p" f] first by (force, simp add: in_flight_def)
    then have "stock NOTIFIED_ONE (complete f (fst ?p)) = stock NOTIFIED_ONE (fst ?p)"
      by (simp add: stock_def) (simp add: complete_def)
    moreover have "notify_ok (lw(f := w)) (Suc c) (complete f (fst ?p))" if "snd ?p"
      using fut that complete_inv [OF inv'] by blast
    ultimately show ?thesis
      using first f st inv' by (auto simp: notified_poll_def case_prod_beta split: bool.splits)
  next
    case again
    then show ?thesis
      using waiting_inv_mono [OF refresh_inv [OF inv f(1) again(2), of w], of "Suc c"] f
      by (simp add: notified_poll_def refresh_frame)
  qed
qed

text \<open>A future that a \<open>notify_one\<close> picked and that is dropped before it is polled passes it on.\<close>

lemma notify_forward_ok:
  assumes inv: "notify_ok lw c s" and f: "futs s f = Some fu" "\<not> completed fu" "flags s f = NOTIFIED_ONE"
    and max: "stock NOTIFIED_ONE s < 2 ^ 64"
  shows "permit (kernel s) < u64_max \<and> notify_ok lw c (forget_fut f (notify_one s)) \<and>
    stock NOTIFIED_ONE (forget_fut f (notify_one s)) = stock NOTIFIED_ONE s"
proof -
  have fl: "f \<in> in_flight NOTIFIED_ONE s" using f by (simp add: in_flight_def)
  then have "card (in_flight NOTIFIED_ONE s) \<noteq> 0" using finite_in_flight [OF inv, of NOTIFIED_ONE] by auto
  then have free: "kernel_free (kernel s) < 2 ^ 64 - 1" using max by (simp add: stock_def)
  have n: "futs (notify_one s) = futs s" "flags (notify_one s) f = NOTIFIED_ONE"
    by (rule deliver_cases [OF inv free, of NOTIFIED_ONE];
      use f in \<open>simp add: notify_one_def deliver_one_def wake_all_def\<close>)+
  note r = notify_one_ok [OF inv free]
  have ok: "notify_ok lw c (notify_one s)" using r by simp
  then have "(i, f, u) \<notin> set (wakers (notify_one s))" for i u by (rule not_in_table) (use n in simp)
  moreover have "f \<in> in_flight NOTIFIED_ONE (notify_one s)" using fl n by (simp add: in_flight_def)
  then have "stock NOTIFIED_ONE (notify_one s) = Suc (stock NOTIFIED_ONE (forget_fut f (notify_one s)))"
    by (rule stock_remove_in_flight [OF ok]) (simp_all add: in_flight_forget, simp add: forget_fut_def)
  moreover have "permit (kernel s) < u64_max" using free by (simp add: word_less_nat_alt unat_u64_max)
  ultimately show ?thesis using forget_inv [OF ok, of f] r by simp
qed

lemma notified_drop_ok:
  assumes inv: "notify_ok lw c s" and f: "futs s f = Some fu" and max: "stock NOTIFIED_ONE s < 2 ^ 64"
  shows "notify_ok lw c (notified_drop f s) \<and> stock NOTIFIED_ONE (notified_drop f s) = stock NOTIFIED_ONE s"
proof -
  have st: "stock NOTIFIED_ONE (forget_fut f t) = stock NOTIFIED_ONE t" if "f \<notin> in_flight NOTIFIED_ONE t" for t :: "'a notify"
    using that by (simp add: stock_def in_flight_forget) (simp add: forget_fut_def)
  have fk: "fut_ok PENDING True s f fu" by (rule waiting_invD(8) [OF inv f])
  consider (quiet) "completed fu \<or> \<not> parked fu" | (parked) "\<not> completed fu" "parked fu" by blast
  then show ?thesis
  proof cases
    case quiet
    have "f \<notin> in_flight NOTIFIED_ONE s" using quiet f fk by (auto simp: in_flight_def fut_ok_def)
    moreover have "(i, f, u) \<notin> set (wakers s)" for i u
      by (rule not_in_table [OF inv]) (use quiet f fk in \<open>auto simp: fut_ok_def\<close>)
    ultimately show ?thesis using forget_inv [OF inv] st quiet f by (auto simp: notified_drop_def)
  next
    case parked
    show ?thesis
    proof (rule withdraw_cases [OF inv f parked(2)])
      fix k
      let ?s = "s\<lparr>kernel := k, wakers := filter (\<lambda>e. fst e \<noteq> ident fu) (wakers s)\<rparr>"
      assume k: "withdraw f s = (?s, True)" "flags s f = PENDING" "kernel_free k = kernel_free (kernel s)"
      have "in_flight NOTIFIED_ONE ?s = in_flight NOTIFIED_ONE s" "f \<notin> in_flight NOTIFIED_ONE s"
        using k(2) by (auto simp: in_flight_def)
      then have "stock NOTIFIED_ONE (forget_fut f ?s) = stock NOTIFIED_ONE s" using st [of ?s] k(3) by (simp add: stock_def)
      then show ?thesis using withdraw_inv [OF inv f parked(2)] parked f k(1) by (simp add: notified_drop_def)
    next
      fix k
      assume k: "withdraw f s = (s\<lparr>kernel := k\<rparr>, False)" "True \<Longrightarrow> flags s f \<noteq> PENDING"
      have [simp]: "s\<lparr>kernel := k\<rparr> = s"
        using k(1) by (auto simp: withdraw_def remove_step_def Let_def split: option.splits)
      show ?thesis
      proof (cases "flags s f = NOTIFIED_ONE")
        case True
        note fw = notify_forward_ok [OF inv f parked(1) True max]
        then have "notified_drop f s = forget_fut f (notify_one s)"
          using parked f k(1) True by (simp add: notified_drop_def notify_one_def)
        then show ?thesis using fw by simp
      next
        case False
        have "(i, f, u) \<notin> set (wakers s)" for i u by (rule not_in_table [OF inv]) (use k(2) in auto)
        moreover have "f \<notin> in_flight NOTIFIED_ONE s" using False by (simp add: in_flight_def)
        ultimately show ?thesis using forget_inv [OF inv] st parked f k(1) False by (simp add: notified_drop_def)
      qed
    qed
  qed
qed

section \<open>Properties\<close>

lemma notify_exec_inv:
  assumes inv: "notify_ok lw c (nt cs)" and bal: "stock NOTIFIED_ONE (nt cs) + taken cs = sent cs"
    and op: "notify_enabled op cs" and c: "Suc c < 2 ^ 64" "sent cs \<le> c"
  shows "notify_ok (polled_with op lw) (Suc c) (nt (notify_exec op cs)) \<and>
    stock NOTIFIED_ONE (nt (notify_exec op cs)) + taken (notify_exec op cs) = sent (notify_exec op cs) \<and>
    sent (notify_exec op cs) \<le> Suc c"
proof -
  note inv' = waiting_inv_mono [OF inv, of "Suc c", simplified]
  have free: "kernel_free (kernel (nt cs)) < 2 ^ 64 - 1" "stock NOTIFIED_ONE (nt cs) < 2 ^ 64"
    using bal c by (simp_all add: stock_def)
  show ?thesis
  proof (cases op)
    case (Notified f)
    then show ?thesis
      using op new_fut_inv [OF inv', of f] new_fut_stock [of NOTIFIED_ONE PENDING "nt cs" f] bal c by simp
  next
    case (PollNotified f w)
    then obtain fu where "futs (nt cs) f = Some fu" "\<not> completed fu" using op by (auto split: option.splits)
    from notified_poll_ok [OF inv this c(1), of w] show ?thesis
      using PollNotified bal c by (simp add: case_prod_beta split: if_splits)
  next
    case (DropNotified f)
    then show ?thesis using op notified_drop_ok [OF inv' _ free(2)] bal c by auto
  next
    case NotifyOne
    then show ?thesis using notify_one_ok [OF inv' free(1)] bal c by simp
  next
    case NotifyWaiters
    then show ?thesis using notify_drain_spec [OF inv'] bal c by (simp add: notify_waiters_def case_prod_beta)
  qed
qed

lemma notify_run_inv:
  assumes "notify_ok lw c (nt cs)" "stock NOTIFIED_ONE (nt cs) + taken cs = sent cs" "sent cs \<le> c"
    and "notify_run ops cs = Some cs'" "c + length ops < 2 ^ 64"
  shows "notify_ok (last_poll ops lw) (c + length ops) (nt cs') \<and> stock NOTIFIED_ONE (nt cs') + taken cs' = sent cs'"
  using assms
proof (induction ops arbitrary: cs lw c)
  case (Cons op ops)
  have run: "notify_enabled op cs" "notify_run ops (notify_exec op cs) = Some cs'" using Cons.prems(4) by (auto split: if_splits)
  have "Suc c < 2 ^ 64" using Cons.prems(5) by simp
  note step = notify_exec_inv [OF Cons.prems(1,2) run(1) this Cons.prems(3)]
  then show ?case using Cons.IH [of "polled_with op lw" "Suc c" "notify_exec op cs"] run(2) Cons.prems(5)
    by (simp add: last_poll_def)
qed (simp add: last_poll_def)

lemma notify_reachable:
  assumes "notify_run ops notify_client_new = Some cs" "length ops < 2 ^ 64"
  shows "notify_ok (last_poll ops lw) (length ops) (nt cs) \<and> stock NOTIFIED_ONE (nt cs) + taken cs = sent cs"
  using notify_run_inv [of lw 0 notify_client_new ops cs] assms notify_new_ok [of lw]
  by (simp add: notify_client_new_def)

text \<open>C28: A notification is never lost.  After every sequence of fewer than \<open>2 ^ 64\<close> operations on a \<open>Notify\<close> the stored
  permits, the notifications on their way to a live future and the ones that completed a future add up
  to the calls of \<open>notify_one\<close>; and a future that is parked and not notified is registered with the
  waker of its most recent poll, with no permit stored meanwhile.\<close>

theorem notify_never_lost:
  assumes "notify_run ops notify_client_new = Some cs" "length ops < 2 ^ 64"
  shows "unat (permit (kernel (nt cs))) + card (in_flight NOTIFIED_ONE (nt cs)) + taken cs = sent cs \<and>
    (\<forall>f fu. futs (nt cs) f = Some fu \<and> parked fu \<and> flags (nt cs) f = PENDING \<longrightarrow>
       (ident fu, f, last_poll ops lw f) \<in> set (wakers (nt cs)) \<and> permit (kernel (nt cs)) = 0)"
proof -
  have "notify_ok (last_poll ops lw) (length ops) (nt cs)" "stock NOTIFIED_ONE (nt cs) + taken cs = sent cs"
    using notify_reachable [OF assms, of lw] by auto
  then show ?thesis using parked_registered by (auto simp: stock_def unat_eq_0)
qed

theorem notify_never_lost_witness:
  "\<exists>cs :: nat notify_client. notify_run [Notified 0, PollNotified 0 7, PollNotified 0 8] notify_client_new = Some cs \<and>
    (0, 0, 8) \<in> set (wakers (nt cs))"
proof -
  let ?ops = "[Notified 0, PollNotified 0 7, PollNotified 0 8] :: nat notify_op list"
  have "\<exists>cs fu. notify_run ?ops notify_client_new = Some cs \<and> futs (nt cs) 0 = Some fu \<and> parked fu \<and> ident fu = 0 \<and>
      flags (nt cs) 0 = PENDING"
    by (simp add: notify_client_new_def notify_new_def new_fut_def notified_poll_def first_poll_def wait_step_def
      waiter_new_def refresh_def)
  then obtain cs fu where run: "notify_run ?ops notify_client_new = Some cs"
    and st: "futs (nt cs) 0 = Some fu" "parked fu" "ident fu = 0" "flags (nt cs) 0 = PENDING" by blast
  have "(ident fu, 0, last_poll ?ops undefined 0) \<in> set (wakers (nt cs))"
    using notify_never_lost [OF run, of undefined] st(1,2,4) by simp
  then show ?thesis using run st by (auto simp: last_poll_def)
qed

text \<open>A broadcast reaches exactly the parked futures.  In every state that a \<open>Notify\<close> reaches,
  \<open>notify_waiters\<close> wakes the wakers of all parked futures, in the order of their first polls, flags
  these futures and no other, leaves none parked and stores no permit.\<close>

theorem notify_waiters_broadcast:
  assumes "notify_run ops notify_client_new = Some cs" "length ops < 2 ^ 64"
  shows "woken (notify_waiters (nt cs)) = woken (nt cs) @ map (snd \<circ> snd) (wakers (nt cs)) \<and>
    map fst (wakers (nt cs)) = queue (kernel (nt cs)) \<and>
    queue (kernel (notify_waiters (nt cs))) = [] \<and> wakers (notify_waiters (nt cs)) = [] \<and>
    permit (kernel (notify_waiters (nt cs))) = permit (kernel (nt cs)) \<and>
    flags (notify_waiters (nt cs)) =
      (\<lambda>f. if f \<in> fst ` snd ` set (wakers (nt cs)) then NOTIFIED_ALL else flags (nt cs) f)"
proof -
  have ok: "notify_ok (last_poll ops undefined) (length ops) (nt cs)" using notify_reachable [OF assms] by blast
  show ?thesis
    using notify_drain_spec [OF ok] waiting_invD(5) [OF ok] by (simp add: notify_waiters_def case_prod_beta wake_all_def)
qed

theorem notify_waiters_broadcast_witness:
  "\<exists>cs :: nat notify_client. notify_run [Notified 0, PollNotified 0 7, Notified 1, PollNotified 1 8] notify_client_new = Some cs \<and>
    woken (notify_waiters (nt cs)) = [7, 8]"
proof -
  let ?ops = "[Notified 0, PollNotified 0 7, Notified 1, PollNotified 1 8] :: nat notify_op list"
  have "\<exists>cs. notify_run ?ops notify_client_new = Some cs \<and> wakers (nt cs) = [(0, 0, 7), (1, 1, 8)] \<and> woken (nt cs) = []"
    by (simp add: notify_client_new_def notify_new_def new_fut_def notified_poll_def first_poll_def wait_step_def
      waiter_new_def refresh_def)
  then obtain cs where run: "notify_run ?ops notify_client_new = Some cs"
    and st: "wakers (nt cs) = [(0, 0, 7), (1, 1, 8)]" "woken (nt cs) = []" by blast
  show ?thesis using notify_waiters_broadcast [OF run] run st by auto
qed

end
