(* ===== verification/Channel.thy ===== *)
theory Channel
  imports Waiter
begin

text \<open>
  The kernel of the channels and the receiving half of an mpsc channel: model of
  \<^verbatim>\<open>lion-utility/src/sync/channel_kernel.rs\<close> and of the unbounded channel of
  \<^verbatim>\<open>lion-utility/src/sync/mpsc.rs\<close>, whose state \<open>UnboundedInner\<close> is also the receiving half of the
  bounded one.  Shown here: the kernel's invariant, and that the loop of a receiver's poll ends, never
  panics, and returns the oldest value, the end of the stream, or parks.
\<close>

section \<open>The kernel\<close>

record channel_kernel =
  buffered :: u64
  reserved :: u64
  capacity :: u64
  csent :: nat
  crecvd :: nat
  cbuf :: "nat list"

definition ch_wf :: "channel_kernel \<Rightarrow> bool" where
  "ch_wf k \<longleftrightarrow> unat (buffered k) = length (cbuf k) \<and> csent k = crecvd k + length (cbuf k) \<and>
     (\<forall>i < length (cbuf k). cbuf k ! i = crecvd k + i) \<and>
     unat (buffered k) + unat (reserved k) \<le> unat (capacity k)"

definition channel_kernel_new :: "u64 \<Rightarrow> channel_kernel" where
  "channel_kernel_new cap = \<lparr>buffered = 0, reserved = 0, capacity = cap, csent = 0, crecvd = 0, cbuf = []\<rparr>"

definition try_push :: "channel_kernel \<Rightarrow> channel_kernel \<times> bool" where
  "try_push k =
     (if buffered k + reserved k < capacity k
      then (k\<lparr>buffered := buffered k + 1, csent := csent k + 1, cbuf := cbuf k @ [csent k]\<rparr>, True)
      else (k, False))"

definition pop_step :: "channel_kernel \<Rightarrow> channel_kernel \<times> bool" where
  "pop_step k =
     (if 0 < buffered k
      then (k\<lparr>buffered := buffered k - 1, crecvd := crecvd k + 1, cbuf := tl (cbuf k)\<rparr>, True)
      else (k, False))"

definition reserve_step :: "channel_kernel \<Rightarrow> channel_kernel \<times> bool" where
  "reserve_step k =
     (if buffered k + reserved k < capacity k then (k\<lparr>reserved := reserved k + 1\<rparr>, True) else (k, False))"

definition fill :: "channel_kernel \<Rightarrow> channel_kernel" where
  "fill k = k\<lparr>buffered := buffered k + 1, reserved := reserved k - 1, csent := csent k + 1, cbuf := cbuf k @ [csent k]\<rparr>"

definition unreserve :: "channel_kernel \<Rightarrow> channel_kernel" where
  "unreserve k = k\<lparr>reserved := reserved k - 1\<rparr>"

text \<open>The slots that are neither filled nor reserved.\<close>

definition free_slots :: "channel_kernel \<Rightarrow> nat" where
  "free_slots k = unat (capacity k) - (unat (buffered k) + unat (reserved k))"

lemma ch_wf_sum: "ch_wf k \<Longrightarrow> unat (buffered k + reserved k) = unat (buffered k) + unat (reserved k)"
  using unat_u64_less [of "capacity k"] by (intro unat_add_u64) (simp add: ch_wf_def)

lemma has_room: "ch_wf k \<Longrightarrow> buffered k + reserved k < capacity k \<longleftrightarrow> 0 < free_slots k"
  using ch_wf_sum [of k] by (simp add: word_less_nat_alt free_slots_def)

lemma try_push_full: "ch_wf k \<Longrightarrow> free_slots k = 0 \<Longrightarrow> try_push k = (k, False)"
  and reserve_full: "ch_wf k \<Longrightarrow> free_slots k = 0 \<Longrightarrow> reserve_step k = (k, False)"
  by (simp_all add: try_push_def reserve_step_def has_room)

lemma room_bounds:
  assumes "ch_wf k" "0 < free_slots k"
  shows "unat (buffered k + 1) = Suc (unat (buffered k))" "unat (reserved k + 1) = Suc (unat (reserved k))"
  using assms unat_u64_less [of "capacity k"] unat_add_u64 [of "buffered k" 1] unat_add_u64 [of "reserved k" 1]
  by (auto simp: ch_wf_def free_slots_def)

lemma try_push_room:
  assumes "ch_wf k" "0 < free_slots k"
  obtains k' where "try_push k = (k', True)" "ch_wf k'" "unat (buffered k') = Suc (unat (buffered k))"
    "reserved k' = reserved k" "free_slots k = Suc (free_slots k')"
proof -
  obtain k' where k: "try_push k = (k', True)" using assms by (simp add: try_push_def has_room)
  then have "ch_wf k'" "unat (buffered k') = Suc (unat (buffered k))" "reserved k' = reserved k"
    using assms room_bounds [OF assms] by (auto simp: try_push_def ch_wf_def free_slots_def nth_append less_Suc_eq split: if_splits)
  moreover from this have "free_slots k = Suc (free_slots k')"
    using k assms by (auto simp: try_push_def free_slots_def split: if_splits)
  ultimately show ?thesis using that k by blast
qed

lemma reserve_room:
  assumes "ch_wf k" "0 < free_slots k"
  obtains k' where "reserve_step k = (k', True)" "ch_wf k'" "buffered k' = buffered k"
    "unat (reserved k') = Suc (unat (reserved k))" "free_slots k = Suc (free_slots k')"
proof -
  obtain k' where k: "reserve_step k = (k', True)" using assms by (simp add: reserve_step_def has_room)
  then have "ch_wf k'" "unat (reserved k') = Suc (unat (reserved k))" "buffered k' = buffered k"
    using assms room_bounds [OF assms] by (auto simp: reserve_step_def ch_wf_def free_slots_def split: if_splits)
  moreover from this have "free_slots k = Suc (free_slots k')"
    using k assms by (auto simp: reserve_step_def free_slots_def split: if_splits)
  ultimately show ?thesis using that k by blast
qed

lemma pop_empty: "unat (buffered k) = 0 \<Longrightarrow> pop_step k = (k, False)"
  by (simp add: pop_step_def unat_eq_0)

lemma pop_some:
  assumes "ch_wf k" "0 < unat (buffered k)"
  obtains k' where "pop_step k = (k', True)" "ch_wf k'" "unat (buffered k) = Suc (unat (buffered k'))"
    "reserved k' = reserved k" "free_slots k' = Suc (free_slots k)"
proof -
  have b: "0 < buffered k" "unat (buffered k - 1) = unat (buffered k) - 1"
    using assms by (auto simp: unat_gt_0 unat_minus_one word_gt_0)
  then obtain k' where k: "pop_step k = (k', True)" by (simp add: pop_step_def)
  have "ch_wf k'" "unat (buffered k) = Suc (unat (buffered k'))" "reserved k' = reserved k"
    using assms k b by (auto simp: pop_step_def ch_wf_def nth_tl split: if_splits)
  moreover have "capacity k' = capacity k" using k by (auto simp: pop_step_def split: if_splits)
  moreover have "unat (buffered k) + unat (reserved k) \<le> unat (capacity k)" using assms(1) by (simp add: ch_wf_def)
  ultimately have "free_slots k' = Suc (free_slots k)" by (simp add: free_slots_def)
  moreover note \<open>ch_wf k'\<close> \<open>unat (buffered k) = Suc (unat (buffered k'))\<close> \<open>reserved k' = reserved k\<close>
  ultimately show ?thesis using that k by blast
qed

lemma unat_pred: "0 < unat x \<Longrightarrow> unat (x - 1 :: u64) = unat x - 1"
  by (simp add: unat_gt_0 unat_minus_one)

lemma fill_ok:
  assumes "ch_wf k" "0 < unat (reserved k)"
  shows "ch_wf (fill k) \<and> unat (buffered (fill k)) = Suc (unat (buffered k)) \<and>
    unat (reserved k) = Suc (unat (reserved (fill k))) \<and> free_slots (fill k) = free_slots k"
proof -
  have "unat (buffered k + 1) = Suc (unat (buffered k))"
    using assms unat_u64_less [of "capacity k"] unat_add_u64 [of "buffered k" 1] by (auto simp: ch_wf_def)
  then show ?thesis
    using assms unat_pred [OF assms(2)] by (auto simp: fill_def ch_wf_def free_slots_def nth_append less_Suc_eq)
qed

lemma unreserve_ok:
  assumes "ch_wf k" "0 < unat (reserved k)"
  shows "ch_wf (unreserve k) \<and> buffered (unreserve k) = buffered k \<and>
    unat (reserved k) = Suc (unat (reserved (unreserve k))) \<and> free_slots (unreserve k) = Suc (free_slots k)"
  using assms unat_pred [OF assms(2)] by (auto simp: unreserve_def ch_wf_def free_slots_def)

section \<open>The receiving half\<close>

record ('t, 'w) rx_half =
  rx_kernel :: waiter_kernel
  ckernel :: channel_kernel
  buffer :: "'t list"
  rx_waker :: "'w option"
  sender_count :: nat
  rx_closed :: bool
  rx_next_id :: u64

record rx_fut =
  rid :: u64
  rparked :: bool

datatype 't recv_poll = RValue 't | RNone | RPending | RPanic

text \<open>The loop of \<open>Recv::poll\<close>: a stored hint makes it try again.\<close>

function recv_loop ::
  "rx_fut \<Rightarrow> ('t, 'w, 'z) rx_half_scheme \<Rightarrow> ('t, 'w, 'z) rx_half_scheme \<times> rx_fut \<times> 't recv_poll" where
  "recv_loop r g =
     (case pop_step (ckernel g) of
        (ck, True) \<Rightarrow>
          (case buffer g of
             v # b \<Rightarrow> (g\<lparr>ckernel := ck, buffer := b\<rparr>, r, RValue v)
           | [] \<Rightarrow> (g\<lparr>ckernel := ck\<rparr>, r, RPanic))
      | (ck, False) \<Rightarrow>
          if sender_count g = 0 then (g, r, RNone)
          else if rparked r then (g, r, RPending)
          else case wait_step (rx_next_id g) (rx_kernel g) of
            (k, Ready) \<Rightarrow> recv_loop r (g\<lparr>rx_kernel := k, rx_next_id := rx_next_id g + 1\<rparr>)
          | (k, Park _) \<Rightarrow> (g\<lparr>rx_kernel := k, rx_next_id := rx_next_id g + 1\<rparr>,
                            \<lparr>rid = rx_next_id g, rparked = True\<rparr>, RPending))"
  by pat_completeness auto
termination
  by (relation "measure (\<lambda>(r, g). unat (permit (rx_kernel g)))")
    (auto simp: wait_step_def unat_minus_one word_gt_0 unat_gt_0 split: if_splits)

declare recv_loop.simps [simp del]

definition recv_poll ::
  "'w \<Rightarrow> rx_fut \<Rightarrow> ('t, 'w, 'z) rx_half_scheme \<Rightarrow> ('t, 'w, 'z) rx_half_scheme \<times> rx_fut \<times> 't recv_poll" where
  "recv_poll w r g =
     (case recv_loop r g of
        (g1, r1, RPending) \<Rightarrow> (g1\<lparr>rx_waker := Some w\<rparr>, r1, RPending)
      | res \<Rightarrow> res)"

definition wake_rx :: "('t, 'w, 'z) rx_half_scheme \<Rightarrow> ('t, 'w, 'z) rx_half_scheme \<times> 'w option" where
  "wake_rx g = (g\<lparr>rx_kernel := fst (signal_step 0 (rx_kernel g)), rx_waker := None\<rparr>, rx_waker g)"

definition drop_recv :: "rx_fut \<Rightarrow> ('t, 'w, 'z) rx_half_scheme \<Rightarrow> ('t, 'w, 'z) rx_half_scheme" where
  "drop_recv r g =
     (if \<not> rparked r then g else g\<lparr>rx_kernel := fst (remove_step (rid r) (rx_kernel g)), rx_waker := None\<rparr>)"

definition clone_sender :: "('t, 'w, 'z) rx_half_scheme \<Rightarrow> ('t, 'w, 'z) rx_half_scheme" where
  "clone_sender g = g\<lparr>sender_count := sender_count g + 1\<rparr>"

definition drop_sender :: "('t, 'w, 'z) rx_half_scheme \<Rightarrow> ('t, 'w, 'z) rx_half_scheme \<times> 'w option" where
  "drop_sender g =
     (let g1 = g\<lparr>sender_count := sender_count g - 1\<rparr> in if sender_count g1 = 0 then wake_rx g1 else (g1, None))"

text \<open>The operations of the unbounded channel.\<close>

definition unbounded_channel :: "('t, 'w) rx_half" where
  "unbounded_channel = \<lparr>rx_kernel = waiter_new, ckernel = channel_kernel_new u64_max, buffer = [], rx_waker = None,
     sender_count = 1, rx_closed = False, rx_next_id = 0\<rparr>"

definition unbounded_send :: "'t \<Rightarrow> ('t, 'w) rx_half \<Rightarrow> ('t, 'w) rx_half \<times> bool \<times> 'w option" where
  "unbounded_send v g =
     (if rx_closed g then (g, False, None)
      else let g1 = g\<lparr>ckernel := fst (try_push (ckernel g)), buffer := buffer g @ [v]\<rparr>; (g2, w) = wake_rx g1
           in (g2, True, w))"

definition unbounded_try_recv :: "('t, 'w) rx_half \<Rightarrow> ('t, 'w) rx_half \<times> 't recv_poll" where
  "unbounded_try_recv g =
     (case pop_step (ckernel g) of
        (ck, True) \<Rightarrow> (case buffer g of v # b \<Rightarrow> (g\<lparr>ckernel := ck, buffer := b\<rparr>, RValue v)
                                    | [] \<Rightarrow> (g\<lparr>ckernel := ck\<rparr>, RPanic))
      | (ck, False) \<Rightarrow> (g, RNone))"

definition unbounded_close :: "('t, 'w) rx_half \<Rightarrow> ('t, 'w) rx_half" where
  "unbounded_close g = g\<lparr>rx_closed := True\<rparr>"

section \<open>The receiver's poll\<close>

definition rx_ok :: "nat \<Rightarrow> ('t, 'w, 'z) rx_half_scheme \<Rightarrow> bool" where
  "rx_ok c g \<longleftrightarrow> kernel_ok (rx_kernel g) \<and> kernel_free (rx_kernel g) \<le> c \<and> ch_wf (ckernel g) \<and>
     unat (buffered (ckernel g)) = length (buffer g)"

lemma rx_ok_mono: "rx_ok c g \<Longrightarrow> c \<le> d \<Longrightarrow> rx_ok d g"
  by (simp add: rx_ok_def)

lemma recv_loop_value:
  assumes "rx_ok c g" "buffer g = v # b"
  obtains ck where "recv_loop r g = (g\<lparr>ckernel := ck, buffer := b\<rparr>, r, RValue v)"
    "rx_ok c (g\<lparr>ckernel := ck, buffer := b\<rparr>)" "reserved ck = reserved (ckernel g)"
    "free_slots ck = Suc (free_slots (ckernel g))" "pop_step (ckernel g) = (ck, True)"
proof -
  have k: "ch_wf (ckernel g)" "0 < unat (buffered (ckernel g))" using assms by (auto simp: rx_ok_def)
  show ?thesis
  proof (rule pop_some [OF k])
    fix ck
    assume ck: "pop_step (ckernel g) = (ck, True)" "ch_wf ck" "unat (buffered (ckernel g)) = Suc (unat (buffered ck))"
      "reserved ck = reserved (ckernel g)" "free_slots ck = Suc (free_slots (ckernel g))"
    show ?thesis
      by (rule that [of ck]) (use assms ck in \<open>auto simp: recv_loop.simps [of r g] rx_ok_def\<close>)
  qed
qed

lemma recv_loop_end: "rx_ok c g \<Longrightarrow> buffer g = [] \<Longrightarrow> sender_count g = 0 \<Longrightarrow> recv_loop r g = (g, r, RNone)"
  by (simp add: recv_loop.simps [of r g] rx_ok_def pop_empty)

lemma recv_loop_parked:
  "rx_ok c g \<Longrightarrow> buffer g = [] \<Longrightarrow> sender_count g \<noteq> 0 \<Longrightarrow> rparked r \<Longrightarrow> recv_loop r g = (g, r, RPending)"
  by (simp add: recv_loop.simps [of r g] rx_ok_def pop_empty)

lemma recv_loop_unparked:
  assumes "rx_ok c g" "buffer g = []" "sender_count g \<noteq> 0" "\<not> rparked r"
  shows "\<exists>k n r'. recv_loop r g = (g\<lparr>rx_kernel := k, rx_next_id := n\<rparr>, r', RPending) \<and> rparked r' \<and>
    kernel_ok k \<and> kernel_free k \<le> c"
  using assms
proof (induction "kernel_free (rx_kernel g)" arbitrary: g)
  case 0
  obtain k a where ka: "wait_step (rx_next_id g) (rx_kernel g) = (k, a)" by fastforce
  have ok: "kernel_ok (rx_kernel g)" and pop: "pop_step (ckernel g) = (ckernel g, False)"
    using 0 by (simp_all add: rx_ok_def pop_empty)
  show ?case
    by (rule kq.wait_cases [OF ok ka]) (use 0 ka pop in \<open>auto simp: recv_loop.simps [of r g]\<close>)
next
  case (Suc m)
  obtain k a where ka: "wait_step (rx_next_id g) (rx_kernel g) = (k, a)" by fastforce
  have ok: "kernel_ok (rx_kernel g)" and pop: "pop_step (ckernel g) = (ckernel g, False)"
    using Suc.prems by (simp_all add: rx_ok_def pop_empty)
  let ?g = "g\<lparr>rx_kernel := k, rx_next_id := rx_next_id g + 1\<rparr>"
  have ready: "a = Ready" "kernel_ok k" "kernel_free (rx_kernel g) = Suc (kernel_free k)"
    by (rule kq.wait_cases [OF ok ka]; use Suc.hyps(2) in simp)+
  have "rx_ok c ?g" using ready Suc.prems(1) by (simp add: rx_ok_def)
  then obtain k' n r' where r: "recv_loop r ?g = (?g\<lparr>rx_kernel := k', rx_next_id := n\<rparr>, r', RPending)" "rparked r'"
    "kernel_ok k'" "kernel_free k' \<le> c"
    using Suc.hyps(1) [of ?g] Suc.hyps(2) Suc.prems(2-4) ready(3) by auto
  have "recv_loop r g = recv_loop r ?g" using ka pop ready(1) Suc.prems by (simp add: recv_loop.simps [of r g])
  then show ?case using r by (intro exI [of _ k'] exI [of _ n] exI [of _ r']) simp
qed

lemma recv_loop_park:
  assumes "rx_ok c g" "buffer g = []" "sender_count g \<noteq> 0"
  obtains k n r' where "recv_loop r g = (g\<lparr>rx_kernel := k, rx_next_id := n\<rparr>, r', RPending)" "rparked r'"
    "kernel_ok k" "kernel_free k \<le> c"
proof (cases "rparked r")
  case True
  then show ?thesis using recv_loop_parked [OF assms True] assms(1) that [where k = "rx_kernel g" and n = "rx_next_id g"] by (simp add: rx_ok_def)
next
  case False
  then show ?thesis using recv_loop_unparked [OF assms False] that by blast
qed

end
