(* ===== verification/Parking.thy ===== *)
theory Parking
  imports Waiter
begin

text \<open>
  A waiter kernel with its table of wakers, as the senders of a bounded channel
  (\<^verbatim>\<open>lion-utility/src/sync/mpsc.rs\<close>) and the receivers of \<open>watch\<close> and \<open>broadcast\<close> use it: the fields
  \<open>tx_kernel\<close>, \<open>tx_wakers\<close>, \<open>tx_next_id\<close> (or \<open>rx_kernel\<close>, \<open>waiters\<close>, \<open>next_id\<close>) are the record \<open>lot\<close>.
  Signals are sent only while an id is queued, so no permit is ever stored.

  The locale \<open>parking_lot\<close> is the contract of such a table: a first-in first-out list of pairs of an id
  and a waker.  The channels use its laws, not the kernel.
\<close>

section \<open>State and operations\<close>

record 'w lot =
  lkernel :: waiter_kernel
  lwaiters :: "(u64 \<times> 'w) list"
  lnext :: u64

definition lot_new :: "'w lot" where
  "lot_new = \<lparr>lkernel = waiter_new, lwaiters = [], lnext = 0\<rparr>"

definition lot_pos :: "u64 \<Rightarrow> (u64 \<times> 'w) list \<Rightarrow> nat option" where
  "lot_pos i ws = position (\<lambda>e. fst e = i) ws"

text \<open>An id is drawn and the kernel decides; \<open>None\<close> is the kernel's answer \<open>Ready\<close>.\<close>

definition lot_park :: "'w \<Rightarrow> 'w lot \<Rightarrow> 'w lot \<times> u64 option" where
  "lot_park w l =
     (case wait_step (lnext l) (lkernel l) of
        (k, Ready) \<Rightarrow> (l\<lparr>lkernel := k, lnext := lnext l + 1\<rparr>, None)
      | (k, Park _) \<Rightarrow> (l\<lparr>lkernel := k, lwaiters := lwaiters l @ [(lnext l, w)], lnext := lnext l + 1\<rparr>, Some (lnext l)))"

definition lot_refresh :: "u64 \<Rightarrow> 'w \<Rightarrow> 'w lot \<Rightarrow> 'w lot" where
  "lot_refresh i w l =
     (case lot_pos i (lwaiters l) of
        Some p \<Rightarrow> l\<lparr>lwaiters := (lwaiters l)[p := (fst (lwaiters l ! p), w)]\<rparr>
      | None \<Rightarrow> l)"

function lot_wake_one :: "'w lot \<Rightarrow> 'w lot \<times> 'w option" where
  "lot_wake_one l =
     (if queue (lkernel l) = [] then (l, None)
      else case signal_step 0 (lkernel l) of
        (k, Stored) \<Rightarrow> (l\<lparr>lkernel := k\<rparr>, None)
      | (k, Woke i) \<Rightarrow>
          (case lot_pos i (lwaiters l) of
             Some p \<Rightarrow> (l\<lparr>lkernel := k, lwaiters := vec_remove p (lwaiters l)\<rparr>, Some (snd (lwaiters l ! p)))
           | None \<Rightarrow> lot_wake_one (l\<lparr>lkernel := k\<rparr>)))"
  by pat_completeness auto
termination
  by (relation "measure (\<lambda>l. length (queue (lkernel l)))") (auto simp: signal_step_def split: list.splits)

function lot_wake_all :: "'w lot \<Rightarrow> 'w lot \<times> 'w list" where
  "lot_wake_all l =
     (if queue (lkernel l) = [] then (l, [])
      else case signal_step 0 (lkernel l) of
        (k, Stored) \<Rightarrow> (l\<lparr>lkernel := k\<rparr>, [])
      | (k, Woke i) \<Rightarrow>
          (case lot_pos i (lwaiters l) of
             Some p \<Rightarrow>
               (let (l2, ws) = lot_wake_all (l\<lparr>lkernel := k, lwaiters := vec_remove p (lwaiters l)\<rparr>)
                in (l2, snd (lwaiters l ! p) # ws))
           | None \<Rightarrow> lot_wake_all (l\<lparr>lkernel := k\<rparr>)))"
  by pat_completeness auto
termination
  by (relation "measure (\<lambda>l. length (queue (lkernel l)))") (auto simp: signal_step_def split: list.splits)

declare lot_wake_one.simps [simp del] lot_wake_all.simps [simp del]

definition lot_forget :: "u64 \<Rightarrow> (u64 \<times> 'w) list \<Rightarrow> (u64 \<times> 'w) list" where
  "lot_forget i ws = (case lot_pos i ws of Some p \<Rightarrow> vec_remove p ws | None \<Rightarrow> ws)"

definition lot_remove :: "u64 \<Rightarrow> 'w lot \<Rightarrow> 'w lot \<times> bool" where
  "lot_remove i l =
     (case remove_step i (lkernel l) of (k, b) \<Rightarrow> (l\<lparr>lkernel := k, lwaiters := lot_forget i (lwaiters l)\<rparr>, b))"

text \<open>The variant that touches the table only when the kernel had the id.\<close>

definition lot_withdraw :: "u64 \<Rightarrow> 'w lot \<Rightarrow> 'w lot" where
  "lot_withdraw i l =
     (case remove_step i (lkernel l) of
        (k, True) \<Rightarrow> l\<lparr>lkernel := k, lwaiters := lot_forget i (lwaiters l)\<rparr>
      | (k, False) \<Rightarrow> l\<lparr>lkernel := k\<rparr>)"

definition lot_clear :: "'w lot \<Rightarrow> 'w lot" where
  "lot_clear l = l\<lparr>lwaiters := []\<rparr>"

text \<open>What makes the loops around \<open>lot_park\<close> end: every retry consumes a permit.\<close>

lemma lot_park_None: "lot_park w l = (l', None) \<Longrightarrow> unat (permit (lkernel l')) < unat (permit (lkernel l))"
  by (auto simp: lot_park_def wait_step_def unat_minus_one word_gt_0 unat_gt_0 split: if_splits)

section \<open>The contract\<close>

text \<open>
  \<open>ok c l\<close>: the table is in order and at most \<open>c\<close> ids have been drawn; \<open>dead c l\<close>: the table has been
  emptied by a close and stays empty.  \<open>entries\<close> is the list of the parked ids with their wakers.
\<close>

definition set_waker :: "u64 \<Rightarrow> 'w \<Rightarrow> (u64 \<times> 'w) list \<Rightarrow> (u64 \<times> 'w) list" where
  "set_waker i w ws = map (\<lambda>e. if fst e = i then (i, w) else e) ws"

locale parking_lot =
  fixes ok :: "nat \<Rightarrow> 'l \<Rightarrow> bool"
    and dead :: "nat \<Rightarrow> 'l \<Rightarrow> bool"
    and entries :: "'l \<Rightarrow> (u64 \<times> 'w) list"
    and fresh :: "'l \<Rightarrow> u64"
    and park :: "'w \<Rightarrow> 'l \<Rightarrow> 'l \<times> u64 option"
    and refresh :: "u64 \<Rightarrow> 'w \<Rightarrow> 'l \<Rightarrow> 'l"
    and wake_one :: "'l \<Rightarrow> 'l \<times> 'w option"
    and wake_all :: "'l \<Rightarrow> 'l \<times> 'w list"
    and remove :: "u64 \<Rightarrow> 'l \<Rightarrow> 'l \<times> bool"
    and clear :: "'l \<Rightarrow> 'l"
  assumes distinct_ids: "ok c l \<Longrightarrow> distinct (map fst (entries l))"
    and ids_below: "ok c l \<Longrightarrow> (i, w) \<in> set (entries l) \<Longrightarrow> unat i < unat (fresh l)"
    and fresh_le: "ok c l \<Longrightarrow> unat (fresh l) \<le> c"
    and ok_mono: "ok c l \<Longrightarrow> c \<le> d \<Longrightarrow> ok d l"
    and park_ok: "ok c l \<Longrightarrow> Suc c < 2 ^ 64 \<Longrightarrow> ok (Suc c) (fst (park w l)) \<and> snd (park w l) = Some (fresh l) \<and>
      entries (fst (park w l)) = entries l @ [(fresh l, w)] \<and> unat (fresh (fst (park w l))) = Suc (unat (fresh l))"
    and refresh_ok: "ok c l \<Longrightarrow> ok c (refresh i w l) \<and> entries (refresh i w l) = set_waker i w (entries l) \<and>
      fresh (refresh i w l) = fresh l"
    and wake_one_ok: "ok c l \<Longrightarrow> ok c (fst (wake_one l)) \<and> entries (fst (wake_one l)) = tl (entries l) \<and>
      fresh (fst (wake_one l)) = fresh l \<and>
      snd (wake_one l) = (case entries l of [] \<Rightarrow> None | e # es \<Rightarrow> Some (snd e))"
    and wake_all_ok: "ok c l \<Longrightarrow> ok c (fst (wake_all l)) \<and> entries (fst (wake_all l)) = [] \<and>
      fresh (fst (wake_all l)) = fresh l \<and> snd (wake_all l) = map snd (entries l)"
    and remove_ok: "ok c l \<Longrightarrow> ok c (fst (remove i l)) \<and> fresh (fst (remove i l)) = fresh l \<and>
      entries (fst (remove i l)) = filter (\<lambda>e. fst e \<noteq> i) (entries l) \<and> snd (remove i l) = (i \<in> fst ` set (entries l))"
    and clear_dead: "ok c l \<Longrightarrow> dead c (clear l)"
    and dead_entries: "dead c l \<Longrightarrow> entries l = []"
    and dead_mono: "dead c l \<Longrightarrow> c \<le> d \<Longrightarrow> dead d l"
    and dead_wake_one: "dead c l \<Longrightarrow> dead c (fst (wake_one l)) \<and> snd (wake_one l) = None"
    and dead_remove: "dead c l \<Longrightarrow> dead c (fst (remove i l))"
begin

text \<open>A new id is not in use, and an id in use has one waker.\<close>

lemma fresh_not_parked: "ok c l \<Longrightarrow> (fresh l, w) \<notin> set (entries l)"
  using ids_below by blast

lemma one_waker: "ok c l \<Longrightarrow> (i, v) \<in> set (entries l) \<Longrightarrow> (i, w) \<in> set (entries l) \<Longrightarrow> v = w"
  using distinct_ids eq_key_imp_eq_value by metis

text \<open>A refresh changes one entry, a removal deletes one.\<close>

lemma refresh_entry:
  assumes "ok c l" "(i, v) \<in> set (entries l)"
  shows "(i, w) \<in> set (entries (refresh i w l))"
  using refresh_ok [OF assms(1), of i w] assms(2) by (force simp: set_waker_def)

lemma refresh_other: "ok c l \<Longrightarrow> j \<noteq> i \<Longrightarrow> (j, v) \<in> set (entries (refresh i w l)) \<longleftrightarrow> (j, v) \<in> set (entries l)"
  using refresh_ok [of c l i w] by (force simp: set_waker_def)

lemma refresh_ids: "ok c l \<Longrightarrow> map fst (entries (refresh i w l)) = map fst (entries l)"
  using refresh_ok [of c l i w] by (simp add: set_waker_def)

lemma remove_ids: "ok c l \<Longrightarrow> i \<notin> fst ` set (entries (fst (remove i l)))"
  using remove_ok [of c l i] by auto

end

section \<open>The lot satisfies it\<close>

definition lot_ok :: "nat \<Rightarrow> 'w lot \<Rightarrow> bool" where
  "lot_ok c l \<longleftrightarrow> kernel_ok (lkernel l) \<and> kernel_free (lkernel l) = 0 \<and> distinct (queue (lkernel l)) \<and>
     (\<forall>i \<in> set (queue (lkernel l)). unat i < unat (lnext l)) \<and> unat (lnext l) \<le> c \<and>
     map fst (lwaiters l) = queue (lkernel l)"

definition lot_dead :: "nat \<Rightarrow> 'w lot \<Rightarrow> bool" where
  "lot_dead c l \<longleftrightarrow> kernel_ok (lkernel l) \<and> kernel_free (lkernel l) = 0 \<and> unat (lnext l) \<le> c \<and> lwaiters l = []"

lemma lot_new_ok [simp]: "lot_ok c lot_new"
  by (simp add: lot_ok_def lot_new_def) (simp add: waiter_new_def)

lemma lot_pos_Cons [simp]: "lot_pos i ((i, w) # ws) = Some 0"
  by (simp add: lot_pos_def)

lemma fst_set_waker [simp]: "map fst (set_waker i w ws) = map fst ws"
  by (simp add: set_waker_def)

lemma lot_forget_filter: "distinct (map fst ws) \<Longrightarrow> lot_forget i ws = filter (\<lambda>e. fst e \<noteq> i) ws"
proof (induction ws)
  case (Cons x ws)
  have "fst x = i \<Longrightarrow> filter (\<lambda>e. fst e \<noteq> i) ws = ws"
    using Cons.prems by (intro filter_True) (fastforce simp: image_iff)
  then show ?case using Cons by (auto simp: lot_forget_def lot_pos_def split: option.splits)
qed (simp add: lot_forget_def lot_pos_def)

lemma lot_refresh_set: "distinct (map fst (lwaiters l)) \<Longrightarrow> lot_refresh i w l = l\<lparr>lwaiters := set_waker i w (lwaiters l)\<rparr>"
proof -
  have "distinct (map fst ws) \<Longrightarrow>
      (case lot_pos i ws of Some p \<Rightarrow> ws[p := (fst (ws ! p), w)] | None \<Rightarrow> ws) = set_waker i w ws" for ws
  proof (induction ws)
    case (Cons x ws)
    have "fst x = i \<Longrightarrow> set_waker i w ws = ws"
      using Cons.prems unfolding set_waker_def by (intro map_idI) (fastforce simp: image_iff)
    then show ?case using Cons by (auto simp: set_waker_def lot_pos_def split: option.splits)
  qed (simp add: set_waker_def lot_pos_def)
  from this [of "lwaiters l"] show "distinct (map fst (lwaiters l)) \<Longrightarrow> ?thesis"
    by (cases l) (auto simp: lot_refresh_def split: option.splits)
qed

lemma lot_park_spec:
  assumes "lot_ok c l" "Suc c < 2 ^ 64"
  shows "lot_ok (Suc c) (fst (lot_park w l)) \<and> snd (lot_park w l) = Some (lnext l) \<and>
    lwaiters (fst (lot_park w l)) = lwaiters l @ [(lnext l, w)] \<and> unat (lnext (fst (lot_park w l))) = Suc (unat (lnext l))"
proof -
  obtain k a where ka: "wait_step (lnext l) (lkernel l) = (k, a)" by fastforce
  have k: "kernel_ok (lkernel l)" and nx: "unat (lnext l + 1) = Suc (unat (lnext l))"
    using assms unat_add_u64 [of "lnext l" 1] by (auto simp: lot_ok_def)
  show ?thesis
    by (rule kq.wait_cases [OF k ka]) (use assms ka nx in \<open>auto simp: lot_ok_def lot_park_def\<close>)
qed

lemma lot_wake_one_spec:
  assumes "lot_ok c l"
  shows "lot_ok c (fst (lot_wake_one l)) \<and> lwaiters (fst (lot_wake_one l)) = tl (lwaiters l) \<and>
    lnext (fst (lot_wake_one l)) = lnext l \<and>
    snd (lot_wake_one l) = (case lwaiters l of [] \<Rightarrow> None | e # es \<Rightarrow> Some (snd e))"
proof (cases "lwaiters l")
  case Nil
  then show ?thesis using assms by (simp add: lot_wake_one.simps [of l] lot_ok_def)
next
  case (Cons e es)
  obtain k a where ka: "signal_step 0 (lkernel l) = (k, a)" by fastforce
  have k: "kernel_ok (lkernel l)" "kernel_free (lkernel l) < 2 ^ 64 - 1" using assms by (auto simp: lot_ok_def)
  obtain i w where [simp]: "e = (i, w)" by fastforce
  show ?thesis
    by (rule kq.signal_cases [OF k ka]; use assms ka Cons in \<open>auto simp: lot_ok_def lot_wake_one.simps [of l]\<close>)
qed

text \<open>A broadcast is a sequence of single wakes.\<close>

lemma lot_wake_all_unfold:
  assumes "lot_ok c l"
  shows "lot_wake_all l = (case lot_wake_one l of
    (l1, None) \<Rightarrow> (l, []) | (l1, Some w) \<Rightarrow> (let (l2, ws) = lot_wake_all l1 in (l2, w # ws)))"
proof (cases "lwaiters l")
  case Nil
  then show ?thesis using assms by (simp add: lot_wake_one.simps [of l] lot_wake_all.simps [of l] lot_ok_def)
next
  case (Cons e es)
  obtain k a where ka: "signal_step 0 (lkernel l) = (k, a)" by fastforce
  have k: "kernel_ok (lkernel l)" "kernel_free (lkernel l) < 2 ^ 64 - 1" using assms by (auto simp: lot_ok_def)
  obtain i w where [simp]: "e = (i, w)" by fastforce
  show ?thesis
    by (rule kq.signal_cases [OF k ka];
      use assms ka Cons in \<open>auto simp: lot_ok_def lot_wake_one.simps [of l] lot_wake_all.simps [of l]\<close>)
qed

lemma lot_wake_all_spec:
  assumes "lot_ok c l"
  shows "lot_ok c (fst (lot_wake_all l)) \<and> lwaiters (fst (lot_wake_all l)) = [] \<and>
    lnext (fst (lot_wake_all l)) = lnext l \<and> snd (lot_wake_all l) = map snd (lwaiters l)"
  using assms
proof (induction "lwaiters l" arbitrary: l)
  case Nil
  then show ?case by (auto simp: lot_wake_all.simps [of l] lot_ok_def)
next
  case (Cons e es)
  let ?l = "fst (lot_wake_one l)"
  note one = lot_wake_one_spec [OF Cons.prems] and e = Cons.hyps(2) [symmetric]
  have "lot_wake_all l = (fst (lot_wake_all ?l), snd e # snd (lot_wake_all ?l))"
    using one by (simp add: lot_wake_all_unfold [OF Cons.prems] e case_prod_beta)
  then show ?case using Cons.hyps(1) [of ?l] one by (simp add: e)
qed

lemma lot_remove_spec:
  assumes "lot_ok c l"
  shows "lot_ok c (fst (lot_remove i l)) \<and> lnext (fst (lot_remove i l)) = lnext l \<and>
    lwaiters (fst (lot_remove i l)) = filter (\<lambda>e. fst e \<noteq> i) (lwaiters l) \<and>
    snd (lot_remove i l) = (i \<in> fst ` set (lwaiters l))"
proof -
  obtain k b where kb: "remove_step i (lkernel l) = (k, b)" by fastforce
  have k: "kernel_ok (lkernel l)" and d: "distinct (queue (lkernel l))"
    and q: "map fst (lwaiters l) = queue (lkernel l)" using assms by (auto simp: lot_ok_def)
  have "remove1 i (queue (lkernel l)) = filter (\<lambda>x. x \<noteq> i) (queue (lkernel l))"
    using d by (simp add: distinct_remove1_removeAll removeAll_filter_not_eq) metis
  moreover have "lot_forget i (lwaiters l) = filter (\<lambda>e. fst e \<noteq> i) (lwaiters l)"
    using lot_forget_filter d q by metis
  moreover have "map fst (filter (\<lambda>e. fst e \<noteq> i) (lwaiters l)) = filter (\<lambda>x. x \<noteq> i) (map fst (lwaiters l))"
    by (simp add: filter_map o_def)
  moreover have "set (queue (lkernel l)) = fst ` set (lwaiters l)" using q by (metis list.set_map)
  ultimately show ?thesis
    by - (rule kq.remove_cases [OF k kb]; use assms kb q in \<open>auto simp: lot_ok_def lot_remove_def\<close>)
qed

lemma lot_withdraw_eq: "lot_ok c l \<Longrightarrow> lot_withdraw i l = fst (lot_remove i l)"
proof -
  assume ok: "lot_ok c l"
  obtain k b where kb: "remove_step i (lkernel l) = (k, b)" by fastforce
  have d: "distinct (map fst (lwaiters l))" using ok by (simp add: lot_ok_def)
  have "\<not> b \<Longrightarrow> filter (\<lambda>e. fst e \<noteq> i) (lwaiters l) = lwaiters l"
    using lot_remove_spec [OF ok, of i] kb by (intro filter_True) (force simp: lot_remove_def)
  then show ?thesis by (cases b) (simp_all add: lot_withdraw_def lot_remove_def kb lot_forget_filter [OF d])
qed

lemma lot_dead_wake_one:
  assumes "lot_dead c l"
  shows "lot_dead c (fst (lot_wake_one l)) \<and> snd (lot_wake_one l) = None"
  using assms
proof (induction "length (queue (lkernel l))" arbitrary: l)
  case 0
  then show ?case by (simp add: lot_wake_one.simps [of l])
next
  case (Suc n)
  obtain k a where ka: "signal_step 0 (lkernel l) = (k, a)" by fastforce
  have k: "kernel_ok (lkernel l)" "kernel_free (lkernel l) < 2 ^ 64 - 1" using Suc.prems by (auto simp: lot_dead_def)
  show ?case
  proof (rule kq.signal_cases [OF k ka])
    fix h q
    assume h: "a = Woke h" "kernel_ok k" "kernel_free k = 0" "queue (lkernel l) = h # q" "queue k = q"
    have "lot_wake_one l = lot_wake_one (l\<lparr>lkernel := k\<rparr>)"
      using ka h Suc.prems by (simp add: lot_wake_one.simps [of l] lot_pos_def lot_dead_def)
    then show ?thesis using Suc.hyps(1) [of "l\<lparr>lkernel := k\<rparr>"] Suc.hyps(2) Suc.prems h by (simp add: lot_dead_def)
  qed (use Suc.hyps(2) in simp)
qed

lemma lot_dead_remove: "lot_dead c l \<Longrightarrow> lot_dead c (fst (lot_remove i l))"
proof -
  assume d: "lot_dead c l"
  obtain k b where kb: "remove_step i (lkernel l) = (k, b)" by fastforce
  have k: "kernel_ok (lkernel l)" using d by (simp add: lot_dead_def)
  show ?thesis
    by (rule kq.remove_cases [OF k kb]) (use d kb in \<open>simp add: lot_dead_def lot_remove_def lot_forget_def lot_pos_def\<close>)
qed

interpretation pl: parking_lot lot_ok lot_dead lwaiters lnext lot_park lot_refresh lot_wake_one lot_wake_all
  lot_remove lot_clear
proof unfold_locales
  fix c d :: nat and l :: "'w lot" and i :: u64 and w :: 'w
  show "lot_ok c l \<Longrightarrow> distinct (map fst (lwaiters l))" by (simp add: lot_ok_def)
  show "lot_ok c l \<Longrightarrow> (i, w) \<in> set (lwaiters l) \<Longrightarrow> unat i < unat (lnext l)"
    by (simp add: lot_ok_def) (metis (no_types, lifting) fst_conv image_eqI list.set_map)
  show "lot_ok c l \<Longrightarrow> unat (lnext l) \<le> c" by (simp add: lot_ok_def)
  show "lot_ok c l \<Longrightarrow> c \<le> d \<Longrightarrow> lot_ok d l" by (simp add: lot_ok_def)
  show "lot_ok c l \<Longrightarrow> lot_ok c (lot_refresh i w l) \<and> lwaiters (lot_refresh i w l) = set_waker i w (lwaiters l) \<and>
      lnext (lot_refresh i w l) = lnext l"
    using lot_refresh_set [of l i w] by (simp add: lot_ok_def)
  show "lot_ok c l \<Longrightarrow> lot_dead c (lot_clear l)" by (simp add: lot_ok_def lot_dead_def lot_clear_def)
  show "lot_dead c l \<Longrightarrow> lwaiters l = []" by (simp add: lot_dead_def)
  show "lot_dead c l \<Longrightarrow> c \<le> d \<Longrightarrow> lot_dead d l" by (simp add: lot_dead_def)
qed (rule lot_park_spec lot_wake_one_spec lot_wake_all_spec lot_remove_spec lot_dead_wake_one lot_dead_remove; assumption)+

end
