(* ===== verification/Mpsc.thy ===== *)
theory Mpsc
  imports Channel Parking
begin

text \<open>
  The mpsc channels: model of \<^verbatim>\<open>lion-utility/src/sync/mpsc.rs\<close>.  A client holds the live futures and
  permits; every operation holds the channel's lock, so a run is a sequence of operations.  Shown for
  the bounded and the unbounded channel: the values received are exactly the values accepted, in order
  and each once; the buffer and the permits never exceed the capacity; a receiver that waits is woken
  by the next value or by the drop of the last sender.  For the bounded channel: no sender sleeps on a
  free slot that nobody is on the way to use.
\<close>

section \<open>What a client of either channel holds\<close>

definition opt_wake :: "'w option \<Rightarrow> 'w list" where
  "opt_wake w = (case w of Some x \<Rightarrow> [x] | None \<Rightarrow> [])"

text \<open>
  The channel, the live \<open>Recv\<close> future, the last waker it was polled with if that poll ended pending
  (with the number of wakes made before), all wakes made, the values received and accepted.
\<close>

record ('c, 't, 'w) client =
  ch :: 'c
  rfut :: "rx_fut option"
  rpend :: "('w \<times> nat) option"
  cwoken :: "'w list"
  received :: "'t list"
  accepted :: "'t list"

definition rx_inv ::
  "nat \<Rightarrow> 't list \<Rightarrow> 't list \<Rightarrow> ('w \<times> nat) option \<Rightarrow> 'w list \<Rightarrow> ('t, 'w, 'z) rx_half_scheme \<Rightarrow> bool" where
  "rx_inv c acc rec rp wk g \<longleftrightarrow> rx_ok c g \<and> acc = rec @ buffer g \<and>
     (\<forall>w m. rp = Some (w, m) \<longrightarrow> m \<le> length wk \<and>
        (rx_waker g = Some w \<and> buffer g = [] \<and> 0 < sender_count g \<or> w \<in> set (drop m wk)))"

lemma rx_inv_none [simp]: "rx_inv c acc rec None wk g \<longleftrightarrow> rx_ok c g \<and> acc = rec @ buffer g"
  by (simp add: rx_inv_def)

lemma rx_inv_mono: "rx_inv c acc rec rp wk g \<Longrightarrow> c \<le> d \<Longrightarrow> rx_inv d acc rec rp (wk @ ws) g"
  using rx_ok_mono by (force simp: rx_inv_def)

text \<open>A wake reaches the receiver that waits.\<close>

lemma wake_rx_inv:
  assumes "rx_ok c g" "Suc c < 2 ^ 64" "acc = rec @ buffer g"
    and "\<And>w m. rp = Some (w, m) \<Longrightarrow> m \<le> length wk \<and> (rx_waker g = Some w \<or> w \<in> set (drop m wk))"
  shows "rx_inv (Suc c) acc rec rp (wk @ opt_wake (snd (wake_rx g))) (fst (wake_rx g))"
proof -
  obtain k a where ka: "signal_step 0 (rx_kernel g) = (k, a)" by fastforce
  have k: "kernel_ok (rx_kernel g)" "kernel_free (rx_kernel g) < 2 ^ 64 - 1" using assms(1,2) by (auto simp: rx_ok_def)
  have "kernel_ok k" "kernel_free k \<le> Suc c"
    by (rule kq.signal_cases [OF k ka]; use assms(1) in \<open>simp add: rx_ok_def\<close>)+
  then show ?thesis using assms ka by (auto simp: rx_inv_def rx_ok_def wake_rx_def opt_wake_def)
qed

lemma rx_push_inv:
  assumes "rx_inv c acc rec rp wk g" "Suc c < 2 ^ 64" "ch_wf ck" "unat (buffered ck) = Suc (unat (buffered (ckernel g)))"
    and "g1 = g\<lparr>ckernel := ck, buffer := buffer g @ [v]\<rparr>"
  shows "rx_inv (Suc c) (acc @ [v]) rec rp (wk @ opt_wake (snd (wake_rx g1))) (fst (wake_rx g1))"
  by (rule wake_rx_inv) (use assms in \<open>auto simp: rx_inv_def rx_ok_def\<close>)

lemma clone_sender_inv: "rx_inv c acc rec rp wk g \<Longrightarrow> rx_inv c acc rec rp wk (clone_sender g)"
  by (auto simp: rx_inv_def rx_ok_def clone_sender_def)

lemma drop_sender_inv:
  assumes "rx_inv c acc rec rp wk g" "Suc c < 2 ^ 64"
  shows "rx_inv (Suc c) acc rec rp (wk @ opt_wake (snd (drop_sender g))) (fst (drop_sender g))"
proof (cases "sender_count g - 1 = 0")
  case True
  have "rx_inv (Suc c) acc rec rp (wk @ opt_wake (snd (wake_rx (g\<lparr>sender_count := 0\<rparr>)))) (fst (wake_rx (g\<lparr>sender_count := 0\<rparr>)))"
    by (rule wake_rx_inv) (use assms in \<open>auto simp: rx_inv_def rx_ok_def\<close>)
  then show ?thesis using True by (simp add: drop_sender_def)
next
  case False
  have "rx_inv c acc rec rp wk (g\<lparr>sender_count := sender_count g - 1\<rparr>)"
    using assms(1) False by (auto simp: rx_inv_def rx_ok_def)
  then show ?thesis using False rx_inv_mono [of c acc rec rp wk _ "Suc c" "[]"] by (simp add: drop_sender_def opt_wake_def)
qed

lemma drop_recv_inv:
  assumes "rx_inv c acc rec rp wk g"
  shows "rx_inv c acc rec None wk (drop_recv r g)"
proof -
  obtain k b where kb: "remove_step (rid r) (rx_kernel g) = (k, b)" by fastforce
  have k: "kernel_ok (rx_kernel g)" using assms by (simp add: rx_inv_def rx_ok_def)
  have "kernel_ok k" "kernel_free k = kernel_free (rx_kernel g)" by (rule kq.remove_cases [OF k kb]; simp)+
  then show ?thesis using assms kb by (auto simp: rx_inv_def rx_ok_def drop_recv_def)
qed

text \<open>The poll of a receiver: the three outcomes.\<close>

lemma recv_poll_cases:
  assumes "rx_inv c acc rec rp wk g"
  obtains (got) v b ck where "recv_poll w r g = (g\<lparr>ckernel := ck, buffer := b\<rparr>, r, RValue v)" "buffer g = v # b"
      "rx_inv c acc (rec @ [v]) None wk (g\<lparr>ckernel := ck, buffer := b\<rparr>)"
      "reserved ck = reserved (ckernel g)" "free_slots ck = Suc (free_slots (ckernel g))" "pop_step (ckernel g) = (ck, True)"
  | (ended) "recv_poll w r g = (g, r, RNone)" "buffer g = []" "sender_count g = 0"
  | (waits) k n r' where "recv_poll w r g = (g\<lparr>rx_kernel := k, rx_waker := Some w, rx_next_id := n\<rparr>, r', RPending)"
      "rparked r'" "buffer g = []" "0 < sender_count g"
      "rx_inv c acc rec (Some (w, length wk)) wk (g\<lparr>rx_kernel := k, rx_waker := Some w, rx_next_id := n\<rparr>)"
proof -
  have ok: "rx_ok c g" and acc: "acc = rec @ buffer g" using assms by (auto simp: rx_inv_def)
  consider v b where "buffer g = v # b" | "buffer g = []" "sender_count g = 0" | "buffer g = []" "sender_count g \<noteq> 0"
    by (cases "buffer g") auto
  then show ?thesis
  proof cases
    case (1 v b)
    show ?thesis
      by (rule recv_loop_value [OF ok 1, of r], rule got) (use 1 acc in \<open>auto simp: recv_poll_def rx_inv_def\<close>)
  next
    case 2
    show ?thesis by (rule ended) (use recv_loop_end [OF ok 2] 2 in \<open>simp_all add: recv_poll_def\<close>)
  next
    case 3
    show ?thesis
    proof (rule recv_loop_park [OF ok 3, of r])
      fix k n r'
      assume "recv_loop r g = (g\<lparr>rx_kernel := k, rx_next_id := n\<rparr>, r', RPending)" "rparked r'" "kernel_ok k" "kernel_free k \<le> c"
      then show ?thesis
        by (intro waits [where k = k and n = n and r' = r']) (use 3 acc ok in \<open>auto simp: recv_poll_def rx_inv_def rx_ok_def\<close>)
    qed
  qed
qed

section \<open>The unbounded channel\<close>

datatype ('t, 'w) unbounded_op =
  USend 't
| UClone
| UDropSender
| URecv
| UPoll 'w
| UDropRecv
| UTryRecv
| UClose

type_synonym ('t, 'w) uclient = "(('t, 'w) rx_half, 't, 'w) client"

definition uclient_new :: "('t, 'w) uclient" where
  "uclient_new = \<lparr>ch = unbounded_channel, rfut = None, rpend = None, cwoken = [], received = [], accepted = []\<rparr>"

text \<open>What ownership allows: a sender exists to be cloned or dropped, a \<open>Recv\<close> borrows the receiver.\<close>

fun u_enabled :: "('t, 'w) unbounded_op \<Rightarrow> ('t, 'w) uclient \<Rightarrow> bool" where
  "u_enabled (USend v) c \<longleftrightarrow> 0 < sender_count (ch c)"
| "u_enabled UClone c \<longleftrightarrow> 0 < sender_count (ch c)"
| "u_enabled UDropSender c \<longleftrightarrow> 0 < sender_count (ch c)"
| "u_enabled (UPoll w) c \<longleftrightarrow> rfut c \<noteq> None"
| "u_enabled UDropRecv c \<longleftrightarrow> rfut c \<noteq> None"
| "u_enabled _ c \<longleftrightarrow> rfut c = None"

definition got_value :: "'t recv_poll \<Rightarrow> 't list" where
  "got_value r = (case r of RValue v \<Rightarrow> [v] | _ \<Rightarrow> [])"

fun u_exec :: "('t, 'w) unbounded_op \<Rightarrow> ('t, 'w) uclient \<Rightarrow> ('t, 'w) uclient" where
  "u_exec (USend v) c =
     (case unbounded_send v (ch c) of (g, sent, w) \<Rightarrow>
        c\<lparr>ch := g, cwoken := cwoken c @ opt_wake w, accepted := accepted c @ (if sent then [v] else [])\<rparr>)"
| "u_exec UClone c = c\<lparr>ch := clone_sender (ch c)\<rparr>"
| "u_exec UDropSender c = (case drop_sender (ch c) of (g, w) \<Rightarrow> c\<lparr>ch := g, cwoken := cwoken c @ opt_wake w\<rparr>)"
| "u_exec URecv c = c\<lparr>rfut := Some \<lparr>rid = 0, rparked = False\<rparr>\<rparr>"
| "u_exec (UPoll w) c =
     (case recv_poll w (the (rfut c)) (ch c) of (g, r, res) \<Rightarrow>
        c\<lparr>ch := g, rfut := Some r, rpend := (if res = RPending then Some (w, length (cwoken c)) else None),
          received := received c @ got_value res\<rparr>)"
| "u_exec UDropRecv c = c\<lparr>ch := drop_recv (the (rfut c)) (ch c), rfut := None, rpend := None\<rparr>"
| "u_exec UTryRecv c =
     (case unbounded_try_recv (ch c) of (g, res) \<Rightarrow> c\<lparr>ch := g, received := received c @ got_value res\<rparr>)"
| "u_exec UClose c = c\<lparr>ch := unbounded_close (ch c)\<rparr>"

fun u_run :: "('t, 'w) unbounded_op list \<Rightarrow> ('t, 'w) uclient \<Rightarrow> ('t, 'w) uclient option" where
  "u_run [] c = Some c"
| "u_run (op # ops) c = (if u_enabled op c then u_run ops (u_exec op c) else None)"

definition u_inv :: "nat \<Rightarrow> ('t, 'w) uclient \<Rightarrow> bool" where
  "u_inv n c \<longleftrightarrow> rx_inv n (accepted c) (received c) (rpend c) (cwoken c) (ch c) \<and>
     capacity (ckernel (ch c)) = u64_max \<and> reserved (ckernel (ch c)) = 0 \<and> length (buffer (ch c)) \<le> n \<and>
     (rfut c = None \<longrightarrow> rpend c = None)"

lemma pop_frame: "capacity (fst (pop_step k)) = capacity k \<and> reserved (fst (pop_step k)) = reserved k"
  and push_frame: "capacity (fst (try_push k)) = capacity k \<and> reserved (fst (try_push k)) = reserved k"
  by (simp_all add: pop_step_def try_push_def)

lemma u_exec_inv:
  assumes inv: "u_inv n c" and op: "u_enabled op c" and n: "Suc n < 2 ^ 64"
  shows "u_inv (Suc n) (u_exec op c)"
proof -
  let ?g = "ch c"
  have rx: "rx_inv n (accepted c) (received c) (rpend c) (cwoken c) ?g" and ok: "rx_ok n ?g"
    and cap: "capacity (ckernel ?g) = u64_max" "reserved (ckernel ?g) = 0" "length (buffer ?g) \<le> n"
    and rf: "rfut c = None \<longrightarrow> rpend c = None" using inv by (auto simp: u_inv_def rx_inv_def)
  note rx' = rx_inv_mono [OF rx, of "Suc n" "[]", simplified]
  show ?thesis
  proof (cases op)
    case (USend v)
    show ?thesis
    proof (cases "rx_closed ?g")
      case False
      have "0 < free_slots (ckernel ?g)" using ok cap n by (simp add: free_slots_def rx_ok_def unat_u64_max)
      then obtain ck where ck: "try_push (ckernel ?g) = (ck, True)" "ch_wf ck"
        "unat (buffered ck) = Suc (unat (buffered (ckernel ?g)))"
        using ok by (auto simp: rx_ok_def elim: try_push_room)
      let ?g1 = "?g\<lparr>ckernel := ck, buffer := buffer ?g @ [v]\<rparr>"
      have "rx_inv (Suc n) (accepted c @ [v]) (received c) (rpend c) (cwoken c @ opt_wake (snd (wake_rx ?g1))) (fst (wake_rx ?g1))"
        by (rule rx_push_inv [OF rx n ck(2,3)]) simp
      moreover have "ckernel (fst (wake_rx ?g1)) = ck" "buffer (fst (wake_rx ?g1)) = buffer ?g @ [v]"
        by (simp_all add: wake_rx_def)
      ultimately show ?thesis using USend False ck(1) cap rf push_frame [of "ckernel ?g"]
        by (simp add: u_inv_def unbounded_send_def case_prod_beta Let_def)
    qed (use USend rx' cap rf in \<open>simp add: u_inv_def unbounded_send_def opt_wake_def\<close>)
  next
    case UClone
    then show ?thesis using clone_sender_inv [OF rx'] cap rf by (simp add: u_inv_def) (simp add: clone_sender_def)
  next
    case UDropSender
    have "ckernel (fst (drop_sender ?g)) = ckernel ?g" "buffer (fst (drop_sender ?g)) = buffer ?g"
      by (simp_all add: drop_sender_def wake_rx_def Let_def)
    then show ?thesis using UDropSender drop_sender_inv [OF rx n] cap rf by (simp add: u_inv_def case_prod_beta)
  next
    case (UPoll w)
    then obtain r where r: "rfut c = Some r" using op by auto
    show ?thesis
      by (rule recv_poll_cases [OF rx', of w r]; use UPoll r rx' cap pop_frame [of "ckernel ?g"] in \<open>simp add: u_inv_def got_value_def rx_inv_def\<close>)
  next
    case UDropRecv
    then show ?thesis using drop_recv_inv [OF rx', of "the (rfut c)"] cap by (simp add: u_inv_def) (simp add: drop_recv_def)
  next
    case UTryRecv
    show ?thesis
    proof (cases "buffer ?g")
      case Nil
      then show ?thesis using UTryRecv rx' ok cap rf
        by (simp add: u_inv_def unbounded_try_recv_def got_value_def rx_ok_def pop_empty)
    next
      case (Cons v b)
      show ?thesis
        by (rule recv_loop_value [OF ok Cons, of undefined])
          (use UTryRecv op rx cap rf Cons pop_frame [of "ckernel ?g"] in
            \<open>auto simp: u_inv_def unbounded_try_recv_def got_value_def rx_inv_def intro: rx_ok_mono\<close>)
    qed
  qed (use rx' cap rf op in \<open>auto simp: u_inv_def unbounded_close_def rx_inv_def rx_ok_def\<close>)
qed

lemma u_run_inv:
  assumes "u_inv n c" "u_run ops c = Some c'" "n + length ops < 2 ^ 64"
  shows "u_inv (n + length ops) c'"
  using assms
proof (induction ops arbitrary: c n)
  case (Cons op ops)
  then have "u_enabled op c" "u_run ops (u_exec op c) = Some c'" by (auto split: if_splits)
  then show ?case using Cons.IH [of "Suc n" "u_exec op c"] u_exec_inv [of n c op] Cons.prems by simp
qed simp

lemma u_new_inv: "u_inv 0 uclient_new"
  by (simp add: u_inv_def uclient_new_def rx_ok_def unbounded_channel_def channel_kernel_new_def ch_wf_def)
    (simp add: waiter_new_def)

text \<open>The unbounded channel is a queue.  After every sequence of operations the accepted values are
  the received ones followed by the buffered ones, in order; the kernel's counter is the length of the
  buffer; and a receiver whose last poll ended pending either still waits with an empty buffer, a live
  sender and its waker in the channel, or has been woken since that poll.\<close>

theorem unbounded_fifo:
  assumes "u_run ops uclient_new = Some c" "length ops < 2 ^ 64"
  shows "accepted c = received c @ buffer (ch c) \<and> unat (buffered (ckernel (ch c))) = length (buffer (ch c)) \<and>
    (\<forall>w m. rpend c = Some (w, m) \<longrightarrow>
       rx_waker (ch c) = Some w \<and> buffer (ch c) = [] \<and> 0 < sender_count (ch c) \<or> w \<in> set (drop m (cwoken c)))"
  using u_run_inv [OF u_new_inv assms(1)] assms(2) by (auto simp: u_inv_def rx_inv_def rx_ok_def)

theorem unbounded_fifo_witness:
  "\<exists>c :: (nat, nat) uclient. u_run [URecv, UPoll 7, USend 3] uclient_new = Some c \<and>
    accepted c = received c @ buffer (ch c) \<and> buffer (ch c) = [3] \<and> 7 \<in> set (cwoken c)"
proof -
  let ?ops = "[URecv, UPoll 7, USend 3] :: (nat, nat) unbounded_op list"
  have "recv_loop \<lparr>rid = 0, rparked = False\<rparr> (unbounded_channel :: (nat, nat) rx_half) =
      (unbounded_channel\<lparr>rx_kernel := fst (wait_step 0 waiter_new), rx_next_id := 1\<rparr>, \<lparr>rid = 0, rparked = True\<rparr>, RPending)"
    by (subst recv_loop.simps)
      (simp add: unbounded_channel_def pop_step_def channel_kernel_new_def wait_step_def waiter_new_def)
  then have "\<exists>c. u_run ?ops uclient_new = Some c \<and> rpend c = Some (7, 0) \<and> buffer (ch c) = [3]"
    by (simp add: uclient_new_def recv_poll_def got_value_def)
      (simp add: unbounded_channel_def unbounded_send_def wake_rx_def)
  then obtain c where c: "u_run ?ops uclient_new = Some c" "rpend c = Some (7, 0)" "buffer (ch c) = [3]" by blast
  show ?thesis using unbounded_fifo [OF c(1)] c by auto
qed

end
