(* ===== verification/Bounded.thy ===== *)
theory Bounded
  imports Mpsc
begin

text \<open>
  The bounded mpsc channel: the sending half of \<^verbatim>\<open>lion-utility/src/sync/mpsc.rs\<close>, with the futures
  \<open>Send\<close> and \<open>Reserve\<close>, the permits and the drain-only wakes of parked senders.
\<close>

section \<open>State and operations\<close>

record ('t, 'w) bounded = "('t, 'w) rx_half" +
  tx :: "'w lot"

text \<open>A future \<open>Send\<close> (with its value) or \<open>Reserve\<close>.\<close>

record 't tx_fut =
  reserving :: bool
  tval :: "'t option"
  tid :: u64
  tparked :: bool
  tcompleted :: bool

datatype tx_result = TxClosed | TxAcquired | TxPending

datatype 't send_result = SOk | SErr 't | SPending

definition bounded_channel :: "nat \<Rightarrow> ('t, 'w) bounded option" where
  "bounded_channel cap =
     (if 0 < cap then Some \<lparr>rx_kernel = waiter_new, ckernel = channel_kernel_new (of_nat cap), buffer = [], rx_waker = None,
        sender_count = 1, rx_closed = False, rx_next_id = 0, tx = lot_new\<rparr>
      else None)"

definition wake_one_tx :: "('t, 'w) bounded \<Rightarrow> ('t, 'w) bounded \<times> 'w option" where
  "wake_one_tx g = (case lot_wake_one (tx g) of (l, w) \<Rightarrow> (g\<lparr>tx := l\<rparr>, w))"

definition remove_tx_waiter :: "u64 \<Rightarrow> ('t, 'w) bounded \<Rightarrow> ('t, 'w) bounded \<times> bool" where
  "remove_tx_waiter i g = (case lot_remove i (tx g) of (l, b) \<Rightarrow> (g\<lparr>tx := l\<rparr>, b))"

definition drop_tx_waiter :: "'t tx_fut \<Rightarrow> ('t, 'w) bounded \<Rightarrow> ('t, 'w) bounded \<times> 'w option" where
  "drop_tx_waiter x g =
     (if tcompleted x \<or> \<not> tparked x then (g, None)
      else case remove_tx_waiter (tid x) g of (g1, True) \<Rightarrow> (g1, None) | (g1, False) \<Rightarrow> wake_one_tx g1)"

text \<open>
  The loop of \<open>Send::poll\<close> and \<open>Reserve::poll\<close>, which differ in the operation \<open>acq\<close> of the kernel that
  takes a slot and in what follows it.
\<close>

function tx_loop ::
  "(channel_kernel \<Rightarrow> channel_kernel \<times> bool) \<Rightarrow> 't tx_fut \<Rightarrow> 'w \<Rightarrow> ('t, 'w) bounded \<Rightarrow>
     ('t, 'w) bounded \<times> 't tx_fut \<times> tx_result" where
  "tx_loop acq x w g =
     (if rx_closed g then (g, x, TxClosed)
      else case acq (ckernel g) of
        (ck, True) \<Rightarrow> (g\<lparr>ckernel := ck\<rparr>, x, TxAcquired)
      | (ck, False) \<Rightarrow>
          if tparked x \<and> list_ex (\<lambda>e. fst e = tid x) (lwaiters (tx g))
          then (g\<lparr>ckernel := ck, tx := lot_refresh (tid x) w (tx g)\<rparr>, x, TxPending)
          else case lot_park w (tx g) of
            (l, None) \<Rightarrow> tx_loop acq x w (g\<lparr>ckernel := ck, tx := l\<rparr>)
          | (l, Some i) \<Rightarrow> (g\<lparr>ckernel := ck, tx := l\<rparr>, x\<lparr>tid := i, tparked := True\<rparr>, TxPending))"
  by pat_completeness auto
termination
  by (relation "measure (\<lambda>(acq, x, w, g). unat (permit (lkernel (tx g))))") (auto dest: lot_park_None [OF sym])

declare tx_loop.simps [simp del]

definition leave_lot :: "'t tx_fut \<Rightarrow> ('t, 'w) bounded \<Rightarrow> ('t, 'w) bounded" where
  "leave_lot x g = (if tparked x then fst (remove_tx_waiter (tid x) g) else g)"

definition push_value :: "'t \<Rightarrow> ('t, 'w) bounded \<Rightarrow> ('t, 'w) bounded" where
  "push_value v g = g\<lparr>buffer := buffer g @ [v]\<rparr>"

definition send_poll ::
  "'w \<Rightarrow> 't tx_fut \<Rightarrow> ('t, 'w) bounded \<Rightarrow> ('t, 'w) bounded \<times> 't tx_fut \<times> 't send_result \<times> 'w option" where
  "send_poll w x g =
     (case tx_loop try_push x w g of
        (g1, x1, TxClosed) \<Rightarrow> (g1, x1\<lparr>tval := None\<rparr>, SErr (the (tval x1)), None)
      | (g1, x1, TxAcquired) \<Rightarrow>
          (let (g2, wk) = wake_rx (leave_lot x1 (push_value (the (tval x1)) g1))
           in (g2, x1\<lparr>tval := None, tcompleted := True\<rparr>, SOk, wk))
      | (g1, x1, TxPending) \<Rightarrow> (g1, x1, SPending, None))"

definition reserve_poll ::
  "'w \<Rightarrow> 't tx_fut \<Rightarrow> ('t, 'w) bounded \<Rightarrow> ('t, 'w) bounded \<times> 't tx_fut \<times> unit send_result" where
  "reserve_poll w x g =
     (case tx_loop reserve_step x w g of
        (g1, x1, TxClosed) \<Rightarrow> (g1, x1, SErr ())
      | (g1, x1, TxAcquired) \<Rightarrow> (leave_lot x1 g1, x1\<lparr>tcompleted := True\<rparr>, SOk)
      | (g1, x1, TxPending) \<Rightarrow> (g1, x1, SPending))"

definition try_send :: "'t \<Rightarrow> ('t, 'w) bounded \<Rightarrow> ('t, 'w) bounded \<times> bool \<times> 'w option" where
  "try_send v g =
     (if rx_closed g then (g, False, None)
      else case try_push (ckernel g) of
        (ck, True) \<Rightarrow> (let (g1, w) = wake_rx (push_value v (g\<lparr>ckernel := ck\<rparr>)) in (g1, True, w))
      | (ck, False) \<Rightarrow> (g\<lparr>ckernel := ck\<rparr>, False, None))"

definition try_reserve :: "('t, 'w) bounded \<Rightarrow> ('t, 'w) bounded \<times> bool" where
  "try_reserve g =
     (if rx_closed g then (g, False) else case reserve_step (ckernel g) of (ck, b) \<Rightarrow> (g\<lparr>ckernel := ck\<rparr>, b))"

definition permit_send :: "'t \<Rightarrow> ('t, 'w) bounded \<Rightarrow> ('t, 'w) bounded \<times> 'w option" where
  "permit_send v g = wake_rx (push_value v (g\<lparr>ckernel := fill (ckernel g)\<rparr>))"

definition permit_drop :: "('t, 'w) bounded \<Rightarrow> ('t, 'w) bounded \<times> 'w option" where
  "permit_drop g = wake_one_tx (g\<lparr>ckernel := unreserve (ckernel g)\<rparr>)"

text \<open>The receiver: a value that leaves the buffer wakes one sender.\<close>

definition bounded_recv_poll ::
  "'w \<Rightarrow> rx_fut \<Rightarrow> ('t, 'w) bounded \<Rightarrow> ('t, 'w) bounded \<times> rx_fut \<times> 't recv_poll \<times> 'w option" where
  "bounded_recv_poll w r g =
     (case recv_poll w r g of
        (g1, r1, RValue v) \<Rightarrow> (let (g2, wk) = wake_one_tx g1 in (g2, r1, RValue v, wk))
      | (g1, r1, res) \<Rightarrow> (g1, r1, res, None))"

definition bounded_try_recv :: "('t, 'w) bounded \<Rightarrow> ('t, 'w) bounded \<times> 't recv_poll \<times> 'w option" where
  "bounded_try_recv g =
     (case pop_step (ckernel g) of
        (ck, True) \<Rightarrow>
          (case buffer g of
             v # b \<Rightarrow> (let (g1, w) = wake_one_tx (g\<lparr>ckernel := ck, buffer := b\<rparr>) in (g1, RValue v, w))
           | [] \<Rightarrow> (g\<lparr>ckernel := ck\<rparr>, RPanic, None))
      | (ck, False) \<Rightarrow> (g, RNone, None))"

definition bounded_close :: "('t, 'w) bounded \<Rightarrow> ('t, 'w) bounded \<times> 'w list" where
  "bounded_close g = (g\<lparr>rx_closed := True, tx := lot_clear (tx g)\<rparr>, map snd (lwaiters (tx g)))"

section \<open>The parked senders\<close>

text \<open>
  The senders that were woken and have not been polled since: parked, not completed, not in the table.
  While the channel is open, the free slots never outnumber them as long as a sender sleeps.
\<close>

definition hinted :: "'w lot \<Rightarrow> (nat \<rightharpoonup> 't tx_fut) \<Rightarrow> nat set" where
  "hinted l txs = {f. \<exists>x. txs f = Some x \<and> tparked x \<and> \<not> tcompleted x \<and> tid x \<notin> fst ` set (lwaiters l)}"

definition open_inv ::
  "nat \<Rightarrow> nat \<Rightarrow> 'w lot \<Rightarrow> (nat \<rightharpoonup> 't tx_fut) \<Rightarrow> (nat \<rightharpoonup> 'w \<times> nat) \<Rightarrow> 'w list \<Rightarrow> bool" where
  "open_inv c F l txs tp wk \<longleftrightarrow> lot_ok c l \<and> finite (dom txs) \<and>
     (\<forall>f x. txs f = Some x \<and> tparked x \<longrightarrow> unat (tid x) < unat (lnext l)) \<and>
     (\<forall>f g x y. txs f = Some x \<and> txs g = Some y \<and> tparked x \<and> tparked y \<and> tid x = tid y \<longrightarrow> f = g) \<and>
     (\<forall>i \<in> fst ` set (lwaiters l). \<exists>f x. txs f = Some x \<and> tparked x \<and> \<not> tcompleted x \<and> tid x = i) \<and>
     (\<forall>f w m. tp f = Some (w, m) \<longrightarrow> m \<le> length wk \<and> (\<exists>x. txs f = Some x \<and> tparked x \<and> \<not> tcompleted x \<and>
        ((tid x, w) \<in> set (lwaiters l) \<or> w \<in> set (drop m wk)))) \<and>
     (lwaiters l \<noteq> [] \<longrightarrow> F \<le> card (hinted l txs))"

definition closed_inv ::
  "nat \<Rightarrow> 'w lot \<Rightarrow> (nat \<rightharpoonup> 't tx_fut) \<Rightarrow> (nat \<rightharpoonup> 'w \<times> nat) \<Rightarrow> 'w list \<Rightarrow> bool" where
  "closed_inv c l txs tp wk \<longleftrightarrow> lot_dead c l \<and>
     (\<forall>f w m. tp f = Some (w, m) \<longrightarrow> txs f \<noteq> None \<and> w \<in> set (drop m wk))"

lemma open_invI:
  assumes "lot_ok c l" "finite (dom txs)"
    "\<And>f x. txs f = Some x \<Longrightarrow> tparked x \<Longrightarrow> unat (tid x) < unat (lnext l)"
    "\<And>f g x y. txs f = Some x \<Longrightarrow> txs g = Some y \<Longrightarrow> tparked x \<Longrightarrow> tparked y \<Longrightarrow> tid x = tid y \<Longrightarrow> f = g"
    "\<And>i. i \<in> fst ` set (lwaiters l) \<Longrightarrow> \<exists>f x. txs f = Some x \<and> tparked x \<and> \<not> tcompleted x \<and> tid x = i"
    "\<And>f w m. tp f = Some (w, m) \<Longrightarrow> m \<le> length wk \<and> (\<exists>x. txs f = Some x \<and> tparked x \<and> \<not> tcompleted x \<and>
        ((tid x, w) \<in> set (lwaiters l) \<or> w \<in> set (drop m wk)))"
    "lwaiters l \<noteq> [] \<Longrightarrow> F \<le> card (hinted l txs)"
  shows "open_inv c F l txs tp wk"
  unfolding open_inv_def using assms by (intro conjI) (blast | metis)+

lemma open_invD:
  assumes "open_inv c F l txs tp wk"
  shows "lot_ok c l" "finite (dom txs)"
    "txs f = Some x \<Longrightarrow> tparked x \<Longrightarrow> unat (tid x) < unat (lnext l)"
    "txs f = Some x \<Longrightarrow> txs g = Some y \<Longrightarrow> tparked x \<Longrightarrow> tparked y \<Longrightarrow> tid x = tid y \<Longrightarrow> f = g"
    "i \<in> fst ` set (lwaiters l) \<Longrightarrow> \<exists>f x. txs f = Some x \<and> tparked x \<and> \<not> tcompleted x \<and> tid x = i"
    "tp f = Some (w, m) \<Longrightarrow> m \<le> length wk \<and> (\<exists>x. txs f = Some x \<and> tparked x \<and> \<not> tcompleted x \<and>
        ((tid x, w) \<in> set (lwaiters l) \<or> w \<in> set (drop m wk)))"
    "lwaiters l \<noteq> [] \<Longrightarrow> F \<le> card (hinted l txs)"
  using assms unfolding open_inv_def by - (elim conjE, (simp only: | blast | metis)+)

lemma finite_hinted: "finite (dom txs) \<Longrightarrow> finite (hinted l txs)"
  by (erule rev_finite_subset) (auto simp: hinted_def)

lemma open_inv_weaken:
  assumes "open_inv c F l txs tp wk" "c \<le> d" "F' \<le> F"
  shows "open_inv d F' l txs tp (wk @ ws)"
proof -
  note D = open_invD [OF assms(1)]
  show ?thesis
  proof (rule open_invI)
    fix f w m
    assume "tp f = Some (w, m)"
    then show "m \<le> length (wk @ ws) \<and> (\<exists>x. txs f = Some x \<and> tparked x \<and> \<not> tcompleted x \<and>
        ((tid x, w) \<in> set (lwaiters l) \<or> w \<in> set (drop m (wk @ ws))))"
      using D(6) [of f w m] by auto
  qed (use D(1-5,7) assms pl.ok_mono [OF D(1)] in \<open>auto dest: le_trans\<close>)
qed

text \<open>A slot is freed and a sender woken.\<close>

lemma open_wake_one:
  assumes inv: "open_inv c F l txs tp wk"
  shows "open_inv c (Suc F) (fst (lot_wake_one l)) txs tp (wk @ opt_wake (snd (lot_wake_one l)))"
proof -
  note D = open_invD [OF inv] and one = pl.wake_one_ok [OF open_invD(1) [OF inv]]
  let ?l = "fst (lot_wake_one l)"
  show ?thesis
  proof (cases "lwaiters l")
    case Nil
    then have "lwaiters ?l = lwaiters l" using one by simp
    then show ?thesis
    proof (intro open_invI)
      fix g w m
      assume "tp g = Some (w, m)"
      then show "m \<le> length (wk @ opt_wake (snd (lot_wake_one l))) \<and> (\<exists>x. txs g = Some x \<and> tparked x \<and>
          \<not> tcompleted x \<and> ((tid x, w) \<in> set (lwaiters ?l) \<or> w \<in> set (drop m (wk @ opt_wake (snd (lot_wake_one l))))))"
        using D(6) [of g w m] Nil one by (auto simp: opt_wake_def)
    qed (use D(2-4) one Nil in auto)
  next
    case (Cons e es)
    obtain i u where e: "e = (i, u)" by fastforce
    have l: "lwaiters ?l = es" "snd (lot_wake_one l) = Some u" "lnext ?l = lnext l" "i \<notin> fst ` set es"
      using one Cons e pl.distinct_ids [OF D(1)] by auto
    obtain f x where f: "txs f = Some x" "tparked x" "\<not> tcompleted x" "tid x = i" using D(5) [of i] Cons e by auto
    have own: "g = f" if "txs g = Some y" "tparked y" "tid y = i" for g y
      using D(4) [OF that(1) f(1)] that f by simp
    have "hinted ?l txs = insert f (hinted l txs)"
    proof (rule set_eqI)
      fix g
      show "g \<in> hinted ?l txs \<longleftrightarrow> g \<in> insert f (hinted l txs)"
        using own [of g] f l(1,4) by (cases "txs g") (auto simp: hinted_def Cons e image_iff)
    qed
    moreover have "f \<notin> hinted l txs" using f Cons e by (auto simp: hinted_def)
    ultimately have "Suc F \<le> card (hinted ?l txs)"
      using D(7) Cons finite_hinted [OF D(2), of l] by simp
    then show ?thesis
    proof (intro open_invI)
      fix g w m
      assume "tp g = Some (w, m)"
      then show "m \<le> length (wk @ opt_wake (snd (lot_wake_one l))) \<and> (\<exists>x. txs g = Some x \<and> tparked x \<and>
          \<not> tcompleted x \<and> ((tid x, w) \<in> set (lwaiters ?l) \<or> w \<in> set (drop m (wk @ opt_wake (snd (lot_wake_one l))))))"
        using D(6) [of g w m] l Cons e by (auto simp: opt_wake_def)
    qed (use D(2-5) l one Cons e in auto)
  qed
qed

text \<open>A sender parks, refreshes its waker, gets a slot, is created, is dropped.\<close>

lemma open_park:
  assumes inv: "open_inv c 0 l txs tp wk" and c: "Suc c < 2 ^ 64" and f: "txs f = Some x" "\<not> tcompleted x"
    and out: "tparked x \<Longrightarrow> tid x \<notin> fst ` set (lwaiters l)"
  shows "open_inv (Suc c) 0 (fst (lot_park w l)) (txs(f \<mapsto> x\<lparr>tid := lnext l, tparked := True\<rparr>))
    (tp(f \<mapsto> (w, length wk))) wk"
proof -
  note D = open_invD [OF inv] and pk = pl.park_ok [OF open_invD(1) [OF inv] c, of w]
  let ?l = "fst (lot_park w l)" and ?txs = "txs(f \<mapsto> x\<lparr>tid := lnext l, tparked := True\<rparr>)"
  have old: "tid y < lnext l" if "txs g = Some y" "tparked y" for g y
    using D(3) [OF that] by (simp add: word_less_nat_alt)
  show ?thesis
  proof (rule open_invI)
    fix g y
    assume "?txs g = Some y" "tparked y"
    then show "unat (tid y) < unat (lnext ?l)" using pk D(3) [of g y] by (auto split: if_splits)
  next
    fix g h y z
    assume "?txs g = Some y" "?txs h = Some z" "tparked y" "tparked z" "tid y = tid z"
    then show "g = h" using D(4) [of g y h z] old [of g y] old [of h z] by (auto split: if_splits)
  next
    fix i
    assume "i \<in> fst ` set (lwaiters ?l)"
    then consider "i = lnext l" | "i \<in> fst ` set (lwaiters l)" using pk by auto
    then show "\<exists>g y. ?txs g = Some y \<and> tparked y \<and> \<not> tcompleted y \<and> tid y = i"
    proof cases
      case 1
      then show ?thesis using f(2) by (intro exI [of _ f]) simp
    next
      case 2
      then obtain g y where g: "txs g = Some y" "tparked y" "\<not> tcompleted y" "tid y = i" using D(5) by blast
      then have "g \<noteq> f" using out f(1) 2 by (metis option.inject)
      then show ?thesis using g by (intro exI [of _ g]) simp
    qed
  next
    fix g u m
    assume "(tp(f \<mapsto> (w, length wk))) g = Some (u, m)"
    then show "m \<le> length wk \<and> (\<exists>y. ?txs g = Some y \<and> tparked y \<and> \<not> tcompleted y \<and>
        ((tid y, u) \<in> set (lwaiters ?l) \<or> u \<in> set (drop m wk)))"
      using D(6) [of g u m] f(2) pk by (cases "g = f") auto
  qed (use pk D(2) in auto)
qed

lemma open_refresh:
  assumes inv: "open_inv c 0 l txs tp wk" and f: "txs f = Some x" "\<not> tcompleted x" "tparked x"
    and reg: "tid x \<in> fst ` set (lwaiters l)"
  shows "open_inv c 0 (lot_refresh (tid x) w l) txs (tp(f \<mapsto> (w, length wk))) wk"
proof -
  note D = open_invD [OF inv] and rf = pl.refresh_ok [OF open_invD(1) [OF inv], of "tid x" w]
  let ?l = "lot_refresh (tid x) w l"
  have ids: "fst ` set (lwaiters ?l) = fst ` set (lwaiters l)"
    using pl.refresh_ids [OF D(1), of "tid x" w] by (metis list.set_map)
  show ?thesis
  proof (rule open_invI)
    fix i
    assume "i \<in> fst ` set (lwaiters ?l)"
    then show "\<exists>g y. txs g = Some y \<and> tparked y \<and> \<not> tcompleted y \<and> tid y = i" using D(5) unfolding ids by blast
  next
    fix g u m
    assume g: "(tp(f \<mapsto> (w, length wk))) g = Some (u, m)"
    show "m \<le> length wk \<and> (\<exists>y. txs g = Some y \<and> tparked y \<and> \<not> tcompleted y \<and>
        ((tid y, u) \<in> set (lwaiters ?l) \<or> u \<in> set (drop m wk)))"
    proof (cases "g = f")
      case True
      have "(tid x, w) \<in> set (lwaiters ?l)" using reg pl.refresh_entry [OF D(1)] by auto
      then show ?thesis using True g f by auto
    next
      case False
      then obtain y where y: "m \<le> length wk" "txs g = Some y" "tparked y" "\<not> tcompleted y"
        "(tid y, u) \<in> set (lwaiters l) \<or> u \<in> set (drop m wk)" using D(6) [of g u m] g by auto
      then have "tid y \<noteq> tid x" using D(4) [OF y(2) f(1)] f False by auto
      then show ?thesis using y pl.refresh_other [OF D(1), of "tid y" "tid x" u w] by auto
    qed
  next
    fix g y
    assume "txs g = Some y" "tparked y"
    then show "unat (tid y) < unat (lnext ?l)" using D(3) rf by simp
  next
    fix g h y z
    assume "txs g = Some y" "txs h = Some z" "tparked y" "tparked z" "tid y = tid z"
    then show "g = h" by (rule D(4))
  qed (use rf D(2) in auto)
qed

text \<open>A future leaves the table: the entries and the owners that are left.\<close>

lemma open_leave:
  assumes inv: "open_inv c F l txs tp wk" and f: "txs f = Some x"
    and l: "lot_ok c l'" "lnext l' = lnext l"
    and ent: "lwaiters l' = (if tparked x \<and> \<not> tcompleted x then filter (\<lambda>e. fst e \<noteq> tid x) (lwaiters l) else lwaiters l)"
    and x': "x' = None \<or> x' = Some y \<and> tcompleted y \<and> (tparked y \<longrightarrow> tparked x \<and> tid y = tid x)"
  shows "open_inv c (if f \<in> hinted l txs then F - 1 else F) l' (txs(f := x')) (tp(f := None)) wk"
proof -
  note D = open_invD [OF inv]
  let ?txs = "txs(f := x')"
  have own: "tparked z \<Longrightarrow> tparked x \<Longrightarrow> tid z \<noteq> tid x" if "txs g = Some z" "g \<noteq> f" for g z
    using D(4) [OF that(1) f] that(2) by blast
  have ent': "i \<in> fst ` set (lwaiters l') \<longleftrightarrow> i \<in> fst ` set (lwaiters l) \<and> \<not> (tparked x \<and> \<not> tcompleted x \<and> i = tid x)" for i
    by (auto simp: ent)
  show ?thesis
  proof (rule open_invI)
    fix i
    assume i: "i \<in> fst ` set (lwaiters l')"
    then obtain g z where g: "txs g = Some z" "tparked z" "\<not> tcompleted z" "tid z = i" using D(5) [of i] ent' [of i] by metis
    then have "g \<noteq> f" using i ent' [of i] f by (metis option.inject)
    then show "\<exists>g y. ?txs g = Some y \<and> tparked y \<and> \<not> tcompleted y \<and> tid y = i" using g by (intro exI [of _ g]) simp
  next
    fix g u m
    assume "(tp(f := None)) g = Some (u, m)"
    then have g: "g \<noteq> f" "tp g = Some (u, m)" by (auto split: if_splits)
    obtain z where z: "m \<le> length wk" "txs g = Some z" "tparked z" "\<not> tcompleted z"
      "(tid z, u) \<in> set (lwaiters l) \<or> u \<in> set (drop m wk)" using D(6) [OF g(2)] by blast
    then show "m \<le> length wk \<and> (\<exists>y. ?txs g = Some y \<and> tparked y \<and> \<not> tcompleted y \<and>
        ((tid y, u) \<in> set (lwaiters l') \<or> u \<in> set (drop m wk)))"
      using g(1) own [OF z(2) g(1)] by (auto simp: ent)
  next
    fix g h z v
    assume "?txs g = Some z" "?txs h = Some v" "tparked z" "tparked v" "tid z = tid v"
    then show "g = h" using D(4) [of g z h v] x' own [of g z] own [of h v] by (auto split: if_splits)
  next
    fix g z
    assume "?txs g = Some z" "tparked z"
    then show "unat (tid z) < unat (lnext l')" using D(3) [of g z] D(3) [OF f] x' l by (auto split: if_splits)
  next
    assume "lwaiters l' \<noteq> []"
    then have ne: "lwaiters l \<noteq> []" by (auto simp: ent split: if_splits)
    have "hinted l' ?txs = hinted l txs - {f}"
    proof (rule set_eqI)
      fix g
      show "g \<in> hinted l' ?txs \<longleftrightarrow> g \<in> hinted l txs - {f}"
      proof (cases "g = f")
        case False
        have "tid z \<in> fst ` set (lwaiters l') \<longleftrightarrow> tid z \<in> fst ` set (lwaiters l)" if "txs g = Some z" "tparked z" for z
          using ent' [of "tid z"] own [OF that(1) False] that(2) by metis
        then show ?thesis unfolding hinted_def mem_Collect_eq Diff_iff fun_upd_other [OF False] using False by (simp only: singleton_iff) metis
      qed (use x' in \<open>auto simp: hinted_def\<close>)
    qed
    moreover have "F - 1 \<le> card (hinted l txs - {f})" if "f \<in> hinted l txs"
      using card_Diff_singleton [OF that] D(7) [OF ne] by linarith
    ultimately show "(if f \<in> hinted l txs then F - 1 else F) \<le> card (hinted l' ?txs)"
      using D(7) [OF ne] by (cases "f \<in> hinted l txs") simp_all
  qed (use l D(2) in \<open>auto simp: dom_fun_upd\<close>)
qed

lemma open_new: "open_inv c F l txs tp wk \<Longrightarrow> txs f = None \<Longrightarrow> \<not> tparked x \<Longrightarrow> open_inv c F l (txs(f \<mapsto> x)) tp wk"
proof -
  assume inv: "open_inv c F l txs tp wk" and f: "txs f = None" and x: "\<not> tparked x"
  note D = open_invD [OF inv]
  have h: "hinted l (txs(f \<mapsto> x)) = hinted l txs" using f x by (auto simp: hinted_def)
  have tpf: "tp f = None" using D(6) [of f] f by (cases "tp f") auto
  show ?thesis
  proof (rule open_invI)
    fix i
    assume "i \<in> fst ` set (lwaiters l)"
    then obtain g y where g: "txs g = Some y" "tparked y" "\<not> tcompleted y" "tid y = i" using D(5) by blast
    then show "\<exists>g y. (txs(f \<mapsto> x)) g = Some y \<and> tparked y \<and> \<not> tcompleted y \<and> tid y = i"
      using f by (intro exI [of _ g]) auto
  next
    fix g w m
    assume g: "tp g = Some (w, m)"
    then have "g \<noteq> f" using tpf by auto
    then show "m \<le> length wk \<and> (\<exists>y. (txs(f \<mapsto> x)) g = Some y \<and> tparked y \<and> \<not> tcompleted y \<and>
        ((tid y, w) \<in> set (lwaiters l) \<or> w \<in> set (drop m wk)))" using D(6) [OF g] by simp
  next
    fix g h y z
    assume "(txs(f \<mapsto> x)) g = Some y" "(txs(f \<mapsto> x)) h = Some z" "tparked y" "tparked z" "tid y = tid z"
    then show "g = h" using D(4) [of g y h z] x by (auto split: if_splits)
  next
    fix g y
    assume "(txs(f \<mapsto> x)) g = Some y" "tparked y"
    then show "unat (tid y) < unat (lnext l)" using D(3) [of g y] x by (auto split: if_splits)
  qed (use D(1,2,7) h in auto)
qed

lemma open_close:
  assumes inv: "open_inv c F l txs tp wk"
  shows "closed_inv c (lot_clear l) txs tp (wk @ map snd (lwaiters l))"
proof -
  note D = open_invD [OF inv]
  have "txs f \<noteq> None \<and> w \<in> set (drop m (wk @ map snd (lwaiters l)))" if "tp f = Some (w, m)" for f w m
    using D(6) [OF that] by (force simp: image_iff)
  then show ?thesis using pl.clear_dead [OF D(1)] by (simp add: closed_inv_def)
qed

section \<open>Runs of a client\<close>

datatype ('t, 'w) bounded_op =
  BSend nat 't
| BReserve nat
| BPollTx nat 'w
| BDropTx nat
| BTrySend 't
| BTryReserve
| BPermitSend 't
| BPermitDrop
| BClone
| BDropSender
| BRecv
| BPollRx 'w
| BDropRecv
| BTryRecv
| BClose

text \<open>
  Beside the receiving side, a client holds the \<open>Send\<close> and \<open>Reserve\<close> futures, the number of live
  permits, and for every future whose last poll ended pending the waker of that poll.
\<close>

record ('t, 'w) mpsc = "(('t, 'w) bounded, 't, 'w) client" +
  txs :: "nat \<rightharpoonup> 't tx_fut"
  permits :: nat
  tpend :: "nat \<rightharpoonup> 'w \<times> nat"

definition mpsc_new :: "nat \<Rightarrow> ('t, 'w) mpsc option" where
  "mpsc_new cap = map_option (\<lambda>g. \<lparr>ch = g, rfut = None, rpend = None, cwoken = [], received = [], accepted = [],
     txs = Map.empty, permits = 0, tpend = Map.empty\<rparr>) (bounded_channel cap)"

fun b_enabled :: "('t, 'w) bounded_op \<Rightarrow> ('t, 'w) mpsc \<Rightarrow> bool" where
  "b_enabled (BSend f v) c \<longleftrightarrow> txs c f = None"
| "b_enabled (BReserve f) c \<longleftrightarrow> txs c f = None"
| "b_enabled (BPollTx f w) c \<longleftrightarrow>
     (case txs c f of Some x \<Rightarrow> \<not> tcompleted x \<and> (reserving x \<or> tval x \<noteq> None) | None \<Rightarrow> False)"
| "b_enabled (BDropTx f) c \<longleftrightarrow> txs c f \<noteq> None"
| "b_enabled (BPermitSend v) c \<longleftrightarrow> 0 < permits c"
| "b_enabled BPermitDrop c \<longleftrightarrow> 0 < permits c"
| "b_enabled BClone c \<longleftrightarrow> 0 < sender_count (ch c)"
| "b_enabled BDropSender c \<longleftrightarrow> 0 < sender_count (ch c)"
| "b_enabled BRecv c \<longleftrightarrow> rfut c = None"
| "b_enabled (BPollRx w) c \<longleftrightarrow> rfut c \<noteq> None"
| "b_enabled BDropRecv c \<longleftrightarrow> rfut c \<noteq> None"
| "b_enabled BTryRecv c \<longleftrightarrow> rfut c = None"
| "b_enabled BClose c \<longleftrightarrow> rfut c = None"
| "b_enabled _ c \<longleftrightarrow> True"

definition tx_fut_new :: "'t option \<Rightarrow> 't tx_fut" where
  "tx_fut_new v = \<lparr>reserving = (v = None), tval = v, tid = 0, tparked = False, tcompleted = False\<rparr>"

definition poll_tx :: "nat \<Rightarrow> 'w \<Rightarrow> ('t, 'w) mpsc \<Rightarrow> ('t, 'w) mpsc" where
  "poll_tx f w c =
     (let x = the (txs c f); pend = (\<lambda>p. (tpend c)(f := if p then Some (w, length (cwoken c)) else None)) in
      if reserving x then
        (case reserve_poll w x (ch c) of (g, x', r) \<Rightarrow>
           c\<lparr>ch := g, txs := (txs c)(f \<mapsto> x'), permits := permits c + (if r = SOk then 1 else 0),
             tpend := pend (r = SPending)\<rparr>)
      else
        (case send_poll w x (ch c) of (g, x', r, wk) \<Rightarrow>
           c\<lparr>ch := g, cwoken := cwoken c @ opt_wake wk, txs := (txs c)(f \<mapsto> x'),
             accepted := accepted c @ (if r = SOk then [the (tval x)] else []), tpend := pend (r = SPending)\<rparr>))"

fun b_exec :: "('t, 'w) bounded_op \<Rightarrow> ('t, 'w) mpsc \<Rightarrow> ('t, 'w) mpsc" where
  "b_exec (BSend f v) c = c\<lparr>txs := (txs c)(f \<mapsto> tx_fut_new (Some v))\<rparr>"
| "b_exec (BReserve f) c = c\<lparr>txs := (txs c)(f \<mapsto> tx_fut_new None)\<rparr>"
| "b_exec (BPollTx f w) c = poll_tx f w c"
| "b_exec (BDropTx f) c =
     (case drop_tx_waiter (the (txs c f)) (ch c) of (g, w) \<Rightarrow>
        c\<lparr>ch := g, cwoken := cwoken c @ opt_wake w, txs := (txs c)(f := None), tpend := (tpend c)(f := None)\<rparr>)"
| "b_exec (BTrySend v) c =
     (case try_send v (ch c) of (g, sent, w) \<Rightarrow>
        c\<lparr>ch := g, cwoken := cwoken c @ opt_wake w, accepted := accepted c @ (if sent then [v] else [])\<rparr>)"
| "b_exec BTryReserve c =
     (case try_reserve (ch c) of (g, b) \<Rightarrow> c\<lparr>ch := g, permits := permits c + (if b then 1 else 0)\<rparr>)"
| "b_exec (BPermitSend v) c =
     (case permit_send v (ch c) of (g, w) \<Rightarrow>
        c\<lparr>ch := g, cwoken := cwoken c @ opt_wake w, accepted := accepted c @ [v], permits := permits c - 1\<rparr>)"
| "b_exec BPermitDrop c =
     (case permit_drop (ch c) of (g, w) \<Rightarrow> c\<lparr>ch := g, cwoken := cwoken c @ opt_wake w, permits := permits c - 1\<rparr>)"
| "b_exec BClone c = c\<lparr>ch := clone_sender (ch c)\<rparr>"
| "b_exec BDropSender c = (case drop_sender (ch c) of (g, w) \<Rightarrow> c\<lparr>ch := g, cwoken := cwoken c @ opt_wake w\<rparr>)"
| "b_exec BRecv c = c\<lparr>rfut := Some \<lparr>rid = 0, rparked = False\<rparr>\<rparr>"
| "b_exec (BPollRx w) c =
     (case bounded_recv_poll w (the (rfut c)) (ch c) of (g, r, res, wk) \<Rightarrow>
        c\<lparr>ch := g, rfut := Some r, rpend := (if res = RPending then Some (w, length (cwoken c)) else None),
          cwoken := cwoken c @ opt_wake wk, received := received c @ got_value res\<rparr>)"
| "b_exec BDropRecv c = c\<lparr>ch := drop_recv (the (rfut c)) (ch c), rfut := None, rpend := None\<rparr>"
| "b_exec BTryRecv c =
     (case bounded_try_recv (ch c) of (g, res, wk) \<Rightarrow>
        c\<lparr>ch := g, cwoken := cwoken c @ opt_wake wk, received := received c @ got_value res\<rparr>)"
| "b_exec BClose c = (case bounded_close (ch c) of (g, ws) \<Rightarrow> c\<lparr>ch := g, cwoken := cwoken c @ ws\<rparr>)"

fun b_run :: "('t, 'w) bounded_op list \<Rightarrow> ('t, 'w) mpsc \<Rightarrow> ('t, 'w) mpsc option" where
  "b_run [] c = Some c"
| "b_run (op # ops) c = (if b_enabled op c then b_run ops (b_exec op c) else None)"

section \<open>The invariant of a client\<close>

definition tx_inv ::
  "nat \<Rightarrow> ('t, 'w) bounded \<Rightarrow> (nat \<rightharpoonup> 't tx_fut) \<Rightarrow> (nat \<rightharpoonup> 'w \<times> nat) \<Rightarrow> 'w list \<Rightarrow> bool" where
  "tx_inv n g xs tp wk \<longleftrightarrow>
     (if rx_closed g then closed_inv n (tx g) xs tp wk else open_inv n (free_slots (ckernel g)) (tx g) xs tp wk)"

definition b_inv :: "nat \<Rightarrow> nat \<Rightarrow> ('t, 'w) mpsc \<Rightarrow> bool" where
  "b_inv cap n c \<longleftrightarrow> rx_inv n (accepted c) (received c) (rpend c) (cwoken c) (ch c) \<and>
     unat (reserved (ckernel (ch c))) = permits c \<and> unat (capacity (ckernel (ch c))) = cap \<and>
     (rfut c = None \<longrightarrow> rpend c = None) \<and> tx_inv n (ch c) (txs c) (tpend c) (cwoken c)"

lemma tx_inv_weaken:
  assumes "tx_inv n g xs tp wk" "n \<le> m" "tx g' = tx g" "rx_closed g' = rx_closed g"
    "free_slots (ckernel g') \<le> free_slots (ckernel g)"
  shows "tx_inv m g' xs tp (wk @ ws)"
proof (cases "rx_closed g")
  case True
  then show ?thesis using assms pl.dead_mono by (fastforce simp: tx_inv_def closed_inv_def)
next
  case False
  then show ?thesis using assms open_inv_weaken [of n _ "tx g" xs tp wk m _ ws] by (simp add: tx_inv_def)
qed

lemma rx_inv_tx [simp]:
  "rx_inv c acc rec rp wk (g\<lparr>tx := l\<rparr>) = rx_inv c acc rec rp wk g"
  "rx_inv c acc rec rp wk (g\<lparr>rx_closed := b\<rparr>) = rx_inv c acc rec rp wk g"
  by (simp_all add: rx_inv_def rx_ok_def)

text \<open>A slot was freed: one parked sender is woken.\<close>

lemma wake_one_tx_inv:
  assumes "tx_inv n g0 xs tp wk" "tx g = tx g0" "rx_closed g = rx_closed g0"
    "free_slots (ckernel g) \<le> Suc (free_slots (ckernel g0))"
  shows "tx_inv n (fst (wake_one_tx g)) xs tp (wk @ opt_wake (snd (wake_one_tx g)))"
proof (cases "rx_closed g")
  case True
  then have "closed_inv n (tx g) xs tp wk" using assms by (simp add: tx_inv_def)
  then show ?thesis using pl.dead_wake_one [of n "tx g"] True
    by (auto simp: tx_inv_def closed_inv_def wake_one_tx_def case_prod_beta opt_wake_def)
next
  case False
  then have "open_inv n (free_slots (ckernel g0)) (tx g) xs tp wk" using assms by (simp add: tx_inv_def)
  from open_wake_one [OF this] open_inv_weaken [of n _ _ xs tp _ n _ "[]"] show ?thesis
    using False assms(4) by (simp add: tx_inv_def wake_one_tx_def case_prod_beta)
qed

lemma wake_one_tx_frame:
  "ckernel (fst (wake_one_tx g)) = ckernel g" "buffer (fst (wake_one_tx g)) = buffer g"
  "rx_inv c acc rec rp wk (fst (wake_one_tx g)) = rx_inv c acc rec rp wk g"
  by (simp_all add: wake_one_tx_def case_prod_beta)

lemma wake_rx_frame:
  "ckernel (fst (wake_rx g)) = ckernel g" "tx (fst (wake_rx g)) = tx g" "rx_closed (fst (wake_rx g)) = rx_closed g"
  by (simp_all add: wake_rx_def)

text \<open>The four outcomes of the senders' loop.\<close>

lemma tx_loop_closed: "rx_closed g \<Longrightarrow> tx_loop acq x w g = (g, x, TxClosed)"
  by (simp add: tx_loop.simps [of acq x w g])

lemma tx_loop_acquired: "\<not> rx_closed g \<Longrightarrow> acq (ckernel g) = (ck, True) \<Longrightarrow> tx_loop acq x w g = (g\<lparr>ckernel := ck\<rparr>, x, TxAcquired)"
  by (simp add: tx_loop.simps [of acq x w g])

lemma tx_loop_full:
  assumes "\<not> rx_closed g" "acq (ckernel g) = (ckernel g, False)" "lot_ok n (tx g)" "Suc n < 2 ^ 64"
  shows "tx_loop acq x w g =
    (if tparked x \<and> tid x \<in> fst ` set (lwaiters (tx g)) then (g\<lparr>tx := lot_refresh (tid x) w (tx g)\<rparr>, x, TxPending)
     else (g\<lparr>tx := fst (lot_park w (tx g))\<rparr>, x\<lparr>tid := lnext (tx g), tparked := True\<rparr>, TxPending))"
proof -
  have "list_ex (\<lambda>e. fst e = tid x) (lwaiters (tx g)) \<longleftrightarrow> tid x \<in> fst ` set (lwaiters (tx g))"
    by (force simp: list_ex_iff)
  then show ?thesis
    using assms pl.park_ok [OF assms(3,4), of w] by (auto simp: tx_loop.simps [of acq x w g] case_prod_beta)
qed

lemma leave_lot_frame:
  "ckernel (leave_lot x g) = ckernel g" "buffer (leave_lot x g) = buffer g" "rx_closed (leave_lot x g) = rx_closed g"
  "rx_inv c acc rec rp wk (leave_lot x g) = rx_inv c acc rec rp wk g"
  "leave_lot x (push_value v g) = push_value v (leave_lot x g)"
  by (simp_all add: leave_lot_def remove_tx_waiter_def push_value_def case_prod_beta)

text \<open>A poll that gets a slot leaves the table; one that does not is registered.\<close>

lemma leave_lot_inv:
  assumes inv: "open_inv n (Suc F) (tx g) xs tp wk" and f: "xs f = Some x" "\<not> tcompleted x"
  shows "open_inv n F (tx (leave_lot x g)) (xs(f \<mapsto> x\<lparr>tval := v, tcompleted := True\<rparr>)) (tp(f := None)) wk"
proof -
  note rm = pl.remove_ok [OF open_invD(1) [OF inv], of "tid x"]
  have "open_inv n (if f \<in> hinted (tx g) xs then Suc F - 1 else Suc F) (tx (leave_lot x g))
      (xs(f := Some (x\<lparr>tval := v, tcompleted := True\<rparr>))) (tp(f := None)) wk"
    by (rule open_leave [OF inv f(1)])
      (use rm f(2) open_invD(1) [OF inv] in \<open>auto simp: leave_lot_def remove_tx_waiter_def case_prod_beta\<close>)
  from open_inv_weaken [OF this, of n F "[]"] show ?thesis by simp
qed

lemma tx_full_inv:
  assumes inv: "open_inv n 0 (tx g) xs tp wk" and f: "xs f = Some x" "\<not> tcompleted x" and n: "Suc n < 2 ^ 64"
    and loop: "tx_loop acq x w g = (g', x', r)" "\<not> rx_closed g" "acq (ckernel g) = (ckernel g, False)"
  shows "r = TxPending \<and> open_inv (Suc n) 0 (tx g') (xs(f \<mapsto> x')) (tp(f \<mapsto> (w, length wk))) wk \<and>
    g' = g\<lparr>tx := tx g'\<rparr>"
proof (cases "tparked x \<and> tid x \<in> fst ` set (lwaiters (tx g))")
  case True
  have "open_inv n 0 (lot_refresh (tid x) w (tx g)) xs (tp(f \<mapsto> (w, length wk))) wk"
    using open_refresh [OF inv f] True by blast
  from open_inv_weaken [OF this, of "Suc n" 0 "[]"] show ?thesis
    using loop tx_loop_full [of g acq n x w] open_invD(1) [OF inv] n True f(1) by (auto simp: fun_upd_idem)
next
  case False
  then show ?thesis
    using open_park [OF inv n f, of w] loop tx_loop_full [of g acq n x w] open_invD(1) [OF inv] n by auto
qed

lemma drop_tx_inv:
  assumes inv: "tx_inv n g xs tp wk" and f: "xs f = Some x"
  shows "tx_inv n (fst (drop_tx_waiter x g)) (xs(f := None)) (tp(f := None)) (wk @ opt_wake (snd (drop_tx_waiter x g)))"
proof (cases "rx_closed g")
  case True
  then have d: "closed_inv n (tx g) xs tp wk" using inv by (simp add: tx_inv_def)
  let ?r = "lot_remove (tid x) (tx g)"
  have "lot_dead n (fst ?r)" using d pl.dead_remove by (auto simp: closed_inv_def)
  then show ?thesis using d True pl.dead_wake_one [of n "fst ?r"]
    by (cases "snd ?r") (auto simp: tx_inv_def closed_inv_def drop_tx_waiter_def remove_tx_waiter_def wake_one_tx_def
      case_prod_beta opt_wake_def)
next
  case False
  let ?F = "free_slots (ckernel g)" and ?r = "lot_remove (tid x) (tx g)"
  have o: "open_inv n ?F (tx g) xs tp wk" using inv False by (simp add: tx_inv_def)
  note D = open_invD [OF o] and rm = pl.remove_ok [OF open_invD(1) [OF o], of "tid x"]
  show ?thesis
  proof (cases "tcompleted x \<or> \<not> tparked x")
    case True
    then have "f \<notin> hinted (tx g) xs" using f by (auto simp: hinted_def)
    then have "open_inv n ?F (tx g) (xs(f := None)) (tp(f := None)) wk"
      using open_leave [OF o f D(1) refl, of None undefined] True by auto
    then show ?thesis using True False by (simp add: tx_inv_def drop_tx_waiter_def opt_wake_def)
  next
    case live: False
    then have h: "f \<in> hinted (tx g) xs \<longleftrightarrow> \<not> snd ?r" using f rm by (auto simp: hinted_def)
    have o': "open_inv n (if snd ?r then ?F else ?F - 1) (fst ?r) (xs(f := None)) (tp(f := None)) wk"
      using open_leave [OF o f, of "fst ?r" None undefined] rm live by (cases "snd ?r") (simp_all add: h)
    show ?thesis
    proof (cases "snd ?r")
      case True
      then show ?thesis using o' live False
        by (simp add: tx_inv_def drop_tx_waiter_def remove_tx_waiter_def case_prod_beta opt_wake_def)
    next
      case gone: False
      have "open_inv n ?F (fst (lot_wake_one (fst ?r))) (xs(f := None)) (tp(f := None))
          (wk @ opt_wake (snd (lot_wake_one (fst ?r))))"
        using open_inv_weaken [OF open_wake_one, of n "?F - 1" "fst ?r" "xs(f := None)" "tp(f := None)" wk n ?F "[]"] o' gone
        by simp
      then show ?thesis using live False gone
        by (simp add: tx_inv_def drop_tx_waiter_def remove_tx_waiter_def wake_one_tx_def case_prod_beta)
    qed
  qed
qed

lemma drop_tx_frame:
  "ckernel (fst (drop_tx_waiter x g)) = ckernel g" "rx_inv c acc rec rp wk (fst (drop_tx_waiter x g)) = rx_inv c acc rec rp wk g"
  by (auto simp: drop_tx_waiter_def remove_tx_waiter_def wake_one_tx_def case_prod_beta split: bool.splits)

lemma poll_reserve_room:
  assumes inv: "b_inv cap n c" and x: "txs c f = Some x" "\<not> tcompleted x" "reserving x" and n: "Suc n < 2 ^ 64"
    and room: "\<not> rx_closed (ch c)" "0 < free_slots (ckernel (ch c))"
  shows "b_inv cap (Suc n) (poll_tx f w c)"
proof -
  let ?g = "ch c" and ?k = "ckernel (ch c)"
  have rx: "rx_inv n (accepted c) (received c) (rpend c) (cwoken c) ?g" and wf: "ch_wf ?k"
    and res: "unat (reserved ?k) = permits c" "unat (capacity ?k) = cap" and rf: "rfut c = None \<longrightarrow> rpend c = None"
    and t: "tx_inv n ?g (txs c) (tpend c) (cwoken c)" using inv by (auto simp: b_inv_def rx_inv_def rx_ok_def)
  note rx' = rx_inv_mono [OF rx, of "Suc n" "[]", simplified]
  have o: "open_inv n (free_slots ?k) (tx ?g) (txs c) (tpend c) (cwoken c)" using t room by (simp add: tx_inv_def)
  show ?thesis
  proof (rule reserve_room [OF wf room(2)])
    fix k
    assume k: "reserve_step ?k = (k, True)" "ch_wf k" "buffered k = buffered ?k" "unat (reserved k) = Suc (unat (reserved ?k))"
      "free_slots ?k = Suc (free_slots k)"
    let ?g1 = "leave_lot x (?g\<lparr>ckernel := k\<rparr>)"
    have "open_inv n (free_slots k) (tx ?g1) ((txs c)(f \<mapsto> x\<lparr>tcompleted := True\<rparr>)) ((tpend c)(f := None)) (cwoken c)"
      using leave_lot_inv [of n "free_slots k" "?g\<lparr>ckernel := k\<rparr>" "txs c" "tpend c" "cwoken c" f x "tval x"] o x k(5) by simp
    from open_inv_weaken [OF this, of "Suc n" "free_slots k" "[]"]
    have "tx_inv (Suc n) ?g1 ((txs c)(f \<mapsto> x\<lparr>tcompleted := True\<rparr>)) ((tpend c)(f := None)) (cwoken c)"
      using room(1) by (simp add: tx_inv_def leave_lot_frame)
    moreover have "rx_inv (Suc n) (accepted c) (received c) (rpend c) (cwoken c) (?g\<lparr>ckernel := k\<rparr>)"
      using rx' k by (simp add: rx_inv_def rx_ok_def)
    moreover have "capacity k = capacity ?k" using k(1) by (auto simp: reserve_step_def split: if_splits)
    ultimately show ?thesis using x room k res rf tx_loop_acquired [of ?g reserve_step k x w]
      by (simp add: b_inv_def poll_tx_def reserve_poll_def Let_def leave_lot_frame)
  qed
qed

lemma poll_send_room:
  assumes inv: "b_inv cap n c" and x: "txs c f = Some x" "\<not> tcompleted x" "\<not> reserving x" "tval x = Some v" and n: "Suc n < 2 ^ 64"
    and room: "\<not> rx_closed (ch c)" "0 < free_slots (ckernel (ch c))"
  shows "b_inv cap (Suc n) (poll_tx f w c)"
proof -
  let ?g = "ch c" and ?k = "ckernel (ch c)"
  have rx: "rx_inv n (accepted c) (received c) (rpend c) (cwoken c) ?g" and wf: "ch_wf ?k"
    and res: "unat (reserved ?k) = permits c" "unat (capacity ?k) = cap" and rf: "rfut c = None \<longrightarrow> rpend c = None"
    and t: "tx_inv n ?g (txs c) (tpend c) (cwoken c)" using inv by (auto simp: b_inv_def rx_inv_def rx_ok_def)
  note rx' = rx_inv_mono [OF rx, of "Suc n" "[]", simplified]
  have o: "open_inv n (free_slots ?k) (tx ?g) (txs c) (tpend c) (cwoken c)" using t room by (simp add: tx_inv_def)
  show ?thesis
  proof (rule try_push_room [OF wf room(2)])
    fix k
    assume k: "try_push ?k = (k, True)" "ch_wf k" "unat (buffered k) = Suc (unat (buffered ?k))" "reserved k = reserved ?k"
      "free_slots ?k = Suc (free_slots k)"
    let ?gl = "leave_lot x (?g\<lparr>ckernel := k\<rparr>)" and ?y = "x\<lparr>tval := None, tcompleted := True\<rparr>"
    let ?g1 = "push_value v ?gl"
    have "open_inv n (free_slots k) (tx ?gl) ((txs c)(f \<mapsto> ?y)) ((tpend c)(f := None)) (cwoken c)"
      using leave_lot_inv [of n "free_slots k" "?g\<lparr>ckernel := k\<rparr>" "txs c" "tpend c" "cwoken c" f x None] o x k(5) by simp
    from open_inv_weaken [OF this, of "Suc n" "free_slots k" "opt_wake (snd (wake_rx ?g1))"]
    have t1: "tx_inv (Suc n) (fst (wake_rx ?g1)) ((txs c)(f \<mapsto> ?y)) ((tpend c)(f := None))
        (cwoken c @ opt_wake (snd (wake_rx ?g1)))"
      using room(1) by (simp add: tx_inv_def wake_rx_frame) (simp add: push_value_def leave_lot_frame)
    have "rx_inv (Suc n) (accepted c @ [v]) (received c) (rpend c) (cwoken c @ opt_wake (snd (wake_rx ?g1))) (fst (wake_rx ?g1))"
      by (rule rx_push_inv [of n _ _ _ _ "leave_lot x ?g" k])
        (use rx n k in \<open>simp_all add: leave_lot_frame push_value_def, simp add: leave_lot_def remove_tx_waiter_def case_prod_beta\<close>)
    moreover have "capacity k = capacity ?k" using k(1) by (auto simp: try_push_def split: if_splits)
    moreover have "ckernel (fst (wake_rx ?g1)) = k" by (simp add: wake_rx_frame push_value_def leave_lot_frame)
    ultimately show ?thesis using x room k res rf t1 tx_loop_acquired [of ?g try_push k x w]
      by (simp add: b_inv_def poll_tx_def send_poll_def Let_def leave_lot_frame case_prod_beta)
  qed
qed

lemma poll_tx_inv:
  assumes inv: "b_inv cap n c" and x: "txs c f = Some x" "\<not> tcompleted x" "reserving x \<or> tval x \<noteq> None"
    and n: "Suc n < 2 ^ 64"
  shows "b_inv cap (Suc n) (poll_tx f w c)"
proof -
  let ?g = "ch c" and ?k = "ckernel (ch c)"
  have rx: "rx_inv n (accepted c) (received c) (rpend c) (cwoken c) ?g" and wf: "ch_wf ?k"
    and res: "unat (reserved ?k) = permits c" "unat (capacity ?k) = cap" and rf: "rfut c = None \<longrightarrow> rpend c = None"
    and t: "tx_inv n ?g (txs c) (tpend c) (cwoken c)" using inv by (auto simp: b_inv_def rx_inv_def rx_ok_def)
  note rx' = rx_inv_mono [OF rx, of "Suc n" "[]", simplified]
  consider (closed) "rx_closed ?g" | (full) "\<not> rx_closed ?g" "free_slots ?k = 0" | (room) "\<not> rx_closed ?g" "0 < free_slots ?k"
    by blast
  then show ?thesis
  proof cases
    case closed
    have "closed_inv (Suc n) (tx ?g) (txs c) (tpend c) (cwoken c)"
      using tx_inv_weaken [OF t, of "Suc n" ?g "[]"] closed by (simp add: tx_inv_def)
    then have "closed_inv (Suc n) (tx ?g) ((txs c)(f \<mapsto> y)) ((tpend c)(f := None)) (cwoken c)" for y
      by (auto simp: closed_inv_def)
    then show ?thesis using closed x rx' res rf
      by (simp add: b_inv_def tx_inv_def poll_tx_def send_poll_def reserve_poll_def tx_loop_closed opt_wake_def Let_def)
  next
    case full
    have o: "open_inv n 0 (tx ?g) (txs c) (tpend c) (cwoken c)" using t full by (simp add: tx_inv_def)
    have acq: "try_push ?k = (?k, False)" "reserve_step ?k = (?k, False)"
      using try_push_full [OF wf full(2)] reserve_full [OF wf full(2)] by auto
    obtain g1 x1 r1 where l1: "tx_loop try_push x w ?g = (g1, x1, r1)" by (metis prod_cases3)
    obtain g2 x2 r2 where l2: "tx_loop reserve_step x w ?g = (g2, x2, r2)" by (metis prod_cases3)
    note a1 = tx_full_inv [OF o x(1,2) n l1 full(1) acq(1)] and a2 = tx_full_inv [OF o x(1,2) n l2 full(1) acq(2)]
    have g: "rx_closed g1 = rx_closed ?g" "ckernel g1 = ?k" "rx_closed g2 = rx_closed ?g" "ckernel g2 = ?k"
      "rx_inv (Suc n) (accepted c) (received c) (rpend c) (cwoken c) g1"
      "rx_inv (Suc n) (accepted c) (received c) (rpend c) (cwoken c) g2"
      using a1 a2 rx' by (metis bounded.ext_inject bounded.surjective bounded.update_convs(1) rx_half.select_convs(2,6) rx_inv_tx(1))+
    show ?thesis
      using x l1 l2 a1 a2 g res rf full
      by (auto simp: b_inv_def tx_inv_def poll_tx_def send_poll_def reserve_poll_def opt_wake_def Let_def)
  next
    case room
    then show ?thesis using poll_reserve_room [OF inv x(1,2) _ n] poll_send_room [OF inv x(1,2) _ _ n] x(3) by blast
  qed
qed

text \<open>The operations that put a value in or take a permit.\<close>

lemma try_send_inv:
  assumes inv: "b_inv cap n c" and n: "Suc n < 2 ^ 64"
  shows "b_inv cap (Suc n) (b_exec (BTrySend v) c)"
proof -
  let ?g = "ch c" and ?k = "ckernel (ch c)"
  have rx: "rx_inv n (accepted c) (received c) (rpend c) (cwoken c) ?g" and wf: "ch_wf ?k"
    and res: "unat (reserved ?k) = permits c" "unat (capacity ?k) = cap" and rf: "rfut c = None \<longrightarrow> rpend c = None"
    and t: "tx_inv n ?g (txs c) (tpend c) (cwoken c)" using inv by (auto simp: b_inv_def rx_inv_def rx_ok_def)
  note rx' = rx_inv_mono [OF rx, of "Suc n" "[]", simplified] and t' = tx_inv_weaken [OF t, of "Suc n" ?g "[]", simplified]
  consider "rx_closed ?g \<or> free_slots ?k = 0" | "\<not> rx_closed ?g" "0 < free_slots ?k" by blast
  then show ?thesis
  proof cases
    case 1
    then show ?thesis using rx' t' res rf try_push_full [OF wf]
      by (auto simp: b_inv_def try_send_def opt_wake_def)
  next
    case 2
    show ?thesis
    proof (rule try_push_room [OF wf 2(2)])
      fix k
      assume k: "try_push ?k = (k, True)" "ch_wf k" "unat (buffered k) = Suc (unat (buffered ?k))" "reserved k = reserved ?k"
        "free_slots ?k = Suc (free_slots k)"
      let ?h = "push_value v (?g\<lparr>ckernel := k\<rparr>)"
      have "rx_inv (Suc n) (accepted c @ [v]) (received c) (rpend c) (cwoken c @ opt_wake (snd (wake_rx ?h))) (fst (wake_rx ?h))"
        by (rule rx_push_inv [OF rx n k(2,3)]) (simp add: push_value_def)
      moreover have "tx_inv (Suc n) (fst (wake_rx ?h)) (txs c) (tpend c) (cwoken c @ opt_wake (snd (wake_rx ?h)))"
        by (rule tx_inv_weaken [OF t]) (use k in \<open>simp_all add: wake_rx_frame push_value_def\<close>)
      moreover have "capacity k = capacity ?k" using k(1) by (auto simp: try_push_def split: if_splits)
      moreover have "ckernel (fst (wake_rx ?h)) = k" by (simp add: wake_rx_frame push_value_def)
      ultimately show ?thesis using 2 k res rf by (simp add: b_inv_def try_send_def case_prod_beta)
    qed
  qed
qed

lemma permit_inv:
  assumes inv: "b_inv cap n c" and p: "0 < permits c" and n: "Suc n < 2 ^ 64"
  shows "b_inv cap (Suc n) (b_exec (BPermitSend v) c)" "b_inv cap (Suc n) (b_exec BPermitDrop c)"
proof -
  let ?g = "ch c" and ?k = "ckernel (ch c)"
  have rx: "rx_inv n (accepted c) (received c) (rpend c) (cwoken c) ?g" and wf: "ch_wf ?k"
    and res: "unat (reserved ?k) = permits c" "unat (capacity ?k) = cap" and rf: "rfut c = None \<longrightarrow> rpend c = None"
    and t: "tx_inv n ?g (txs c) (tpend c) (cwoken c)" using inv by (auto simp: b_inv_def rx_inv_def rx_ok_def)
  note rx' = rx_inv_mono [OF rx, of "Suc n" "[]", simplified] and t' = tx_inv_weaken [OF t, of "Suc n" ?g "[]", simplified]
  have r: "0 < unat (reserved ?k)" using res p by simp
  note fl = fill_ok [OF wf r] and un = unreserve_ok [OF wf r]
  let ?h = "push_value v (?g\<lparr>ckernel := fill ?k\<rparr>)" and ?u = "?g\<lparr>ckernel := unreserve ?k\<rparr>"
  have cap: "capacity (fill ?k) = capacity ?k" "capacity (unreserve ?k) = capacity ?k"
    by (simp_all add: fill_def unreserve_def)
  have "rx_inv (Suc n) (accepted c @ [v]) (received c) (rpend c) (cwoken c @ opt_wake (snd (wake_rx ?h))) (fst (wake_rx ?h))"
    by (rule rx_push_inv [OF rx n]) (use fl in \<open>simp_all add: push_value_def\<close>)
  moreover have "tx_inv (Suc n) (fst (wake_rx ?h)) (txs c) (tpend c) (cwoken c @ opt_wake (snd (wake_rx ?h)))"
    by (rule tx_inv_weaken [OF t]) (use fl in \<open>simp_all add: wake_rx_frame push_value_def\<close>)
  moreover have "ckernel (fst (wake_rx ?h)) = fill ?k" by (simp add: wake_rx_frame push_value_def)
  ultimately show "b_inv cap (Suc n) (b_exec (BPermitSend v) c)"
    using fl res rf cap by (simp add: b_inv_def permit_send_def case_prod_beta)
  have "rx_inv (Suc n) (accepted c) (received c) (rpend c) (cwoken c @ opt_wake (snd (wake_one_tx ?u))) ?u"
    using rx_inv_mono [OF rx, of "Suc n" "opt_wake (snd (wake_one_tx ?u))"] un by (simp add: rx_inv_def rx_ok_def)
  moreover have "tx_inv (Suc n) (fst (wake_one_tx ?u)) (txs c) (tpend c) (cwoken c @ opt_wake (snd (wake_one_tx ?u)))"
    by (rule wake_one_tx_inv [OF t']) (use un in simp_all)
  ultimately show "b_inv cap (Suc n) (b_exec BPermitDrop c)"
    using un res rf cap by (simp add: b_inv_def permit_drop_def case_prod_beta wake_one_tx_frame)
qed

lemma recv_inv:
  assumes inv: "b_inv cap n c" and n: "Suc n < 2 ^ 64"
  shows "rfut c = Some r \<Longrightarrow> b_inv cap (Suc n) (b_exec (BPollRx w) c)"
    and "rfut c = None \<Longrightarrow> b_inv cap (Suc n) (b_exec BTryRecv c)"
proof -
  let ?g = "ch c" and ?k = "ckernel (ch c)"
  have rx: "rx_inv n (accepted c) (received c) (rpend c) (cwoken c) ?g" and ok: "rx_ok n ?g"
    and res: "unat (reserved ?k) = permits c" "unat (capacity ?k) = cap" and rf: "rfut c = None \<longrightarrow> rpend c = None"
    and t: "tx_inv n ?g (txs c) (tpend c) (cwoken c)" using inv by (auto simp: b_inv_def rx_inv_def)
  note rx' = rx_inv_mono [OF rx, of "Suc n" "[]", simplified] and t' = tx_inv_weaken [OF t, of "Suc n" ?g "[]", simplified]
  have took: "rx_inv (Suc n) (accepted c) (received c @ [v]) None (cwoken c @ opt_wake (snd (wake_one_tx h))) (fst (wake_one_tx h)) \<and>
      tx_inv (Suc n) (fst (wake_one_tx h)) (txs c) (tpend c) (cwoken c @ opt_wake (snd (wake_one_tx h))) \<and>
      capacity ck = capacity ?k"
    if "rx_inv (Suc n) (accepted c) (received c @ [v]) None (cwoken c) h" "free_slots ck = Suc (free_slots ?k)"
      "pop_step ?k = (ck, True)" "h = ?g\<lparr>ckernel := ck, buffer := b\<rparr>" for v b ck h
    using that wake_one_tx_inv [OF t', of h] pop_frame [of ?k] by (auto simp: wake_one_tx_frame)
  show "b_inv cap (Suc n) (b_exec (BPollRx w) c)" if r: "rfut c = Some r"
  proof (rule recv_poll_cases [OF rx', of w r])
    fix v b ck
    let ?h = "?g\<lparr>ckernel := ck, buffer := b\<rparr>"
    assume p: "recv_poll w r ?g = (?h, r, RValue v)" "rx_inv (Suc n) (accepted c) (received c @ [v]) None (cwoken c) ?h"
      "reserved ck = reserved ?k" "free_slots ck = Suc (free_slots ?k)" "pop_step ?k = (ck, True)"
    then show ?thesis using took [OF p(2,4,5) refl] r res
      by (simp add: b_inv_def bounded_recv_poll_def case_prod_beta wake_one_tx_frame got_value_def)
  next
    assume "recv_poll w r ?g = (?g, r, RNone)"
    then show ?thesis using r rx' t' res
      by (simp add: b_inv_def bounded_recv_poll_def got_value_def opt_wake_def rx_inv_def)
  next
    fix k m r'
    let ?h = "?g\<lparr>rx_kernel := k, rx_waker := Some w, rx_next_id := m\<rparr>"
    assume p: "recv_poll w r ?g = (?h, r', RPending)"
      "rx_inv (Suc n) (accepted c) (received c) (Some (w, length (cwoken c))) (cwoken c) ?h"
    then show ?thesis using r t' res
      by (simp add: b_inv_def bounded_recv_poll_def got_value_def opt_wake_def tx_inv_def)
  qed
  show "b_inv cap (Suc n) (b_exec BTryRecv c)" if r: "rfut c = None"
  proof (cases "buffer ?g")
    case Nil
    then show ?thesis using r rx' t' ok res rf
      by (simp add: b_inv_def bounded_try_recv_def got_value_def opt_wake_def rx_ok_def pop_empty)
  next
    case (Cons v b)
    show ?thesis
    proof (rule recv_loop_value [OF ok Cons, of undefined])
      fix ck
      let ?h = "?g\<lparr>ckernel := ck, buffer := b\<rparr>"
      assume p: "rx_ok n ?h" "reserved ck = reserved ?k" "free_slots ck = Suc (free_slots ?k)" "pop_step ?k = (ck, True)"
      then have "rx_inv (Suc n) (accepted c) (received c @ [v]) None (cwoken c) ?h"
        using rx Cons rx_ok_mono [of n ?h "Suc n"] by (simp add: rx_inv_def)
      then show ?thesis using took [OF _ p(3,4) refl] r res p Cons rf
        by (simp add: b_inv_def bounded_try_recv_def case_prod_beta wake_one_tx_frame got_value_def)
    qed
  qed
qed

lemma try_reserve_inv:
  assumes inv: "b_inv cap n c" and n: "Suc n < 2 ^ 64"
  shows "b_inv cap (Suc n) (b_exec BTryReserve c)"
proof -
  let ?g = "ch c" and ?k = "ckernel (ch c)"
  have rx: "rx_inv n (accepted c) (received c) (rpend c) (cwoken c) ?g" and wf: "ch_wf ?k"
    and res: "unat (reserved ?k) = permits c" "unat (capacity ?k) = cap" and rf: "rfut c = None \<longrightarrow> rpend c = None"
    and t: "tx_inv n ?g (txs c) (tpend c) (cwoken c)" using inv by (auto simp: b_inv_def rx_inv_def rx_ok_def)
  note rx' = rx_inv_mono [OF rx, of "Suc n" "[]", simplified] and t' = tx_inv_weaken [OF t, of "Suc n" ?g "[]", simplified]
  consider "rx_closed ?g \<or> free_slots ?k = 0" | "\<not> rx_closed ?g" "0 < free_slots ?k" by blast
  then show ?thesis
  proof cases
    case 1
    then show ?thesis using rx' t' res rf reserve_full [OF wf] by (auto simp: b_inv_def try_reserve_def)
  next
    case 2
    show ?thesis
    proof (rule reserve_room [OF wf 2(2)])
      fix k
      assume k: "reserve_step ?k = (k, True)" "ch_wf k" "buffered k = buffered ?k" "unat (reserved k) = Suc (unat (reserved ?k))"
        "free_slots ?k = Suc (free_slots k)"
      have "capacity k = capacity ?k" using k(1) by (auto simp: reserve_step_def split: if_splits)
      moreover have "tx_inv (Suc n) (?g\<lparr>ckernel := k\<rparr>) (txs c) (tpend c) (cwoken c)"
        using tx_inv_weaken [OF t, of "Suc n" "?g\<lparr>ckernel := k\<rparr>" "[]"] k by simp
      ultimately show ?thesis using 2 k rx' res rf by (simp add: b_inv_def try_reserve_def rx_inv_def rx_ok_def)
    qed
  qed
qed

lemma close_tx_inv:
  assumes "tx_inv n g xs pend woken"
  shows "closed_inv n (lot_clear (tx g)) xs pend (woken @ map snd (lwaiters (tx g)))"
proof (cases "rx_closed g")
  case True
  then show ?thesis using assms pl.dead_entries [of n "tx g"]
    by (auto simp: tx_inv_def closed_inv_def lot_clear_def lot_dead_def)
next
  case False
  then show ?thesis using assms open_close by (simp add: tx_inv_def)
qed

lemma b_exec_inv:
  assumes inv: "b_inv cap n c" and op: "b_enabled op c" and n: "Suc n < 2 ^ 64"
  shows "b_inv cap (Suc n) (b_exec op c)"
proof -
  let ?g = "ch c" and ?k = "ckernel (ch c)"
  have rx: "rx_inv n (accepted c) (received c) (rpend c) (cwoken c) ?g" and wf: "ch_wf ?k"
    and res: "unat (reserved ?k) = permits c" "unat (capacity ?k) = cap" and rf: "rfut c = None \<longrightarrow> rpend c = None"
    and t: "tx_inv n ?g (txs c) (tpend c) (cwoken c)" using inv by (auto simp: b_inv_def rx_inv_def rx_ok_def)
  note rx' = rx_inv_mono [OF rx, of "Suc n" "[]", simplified] and t' = tx_inv_weaken [OF t, of "Suc n" ?g "[]", simplified]
  have new: "tx_inv (Suc n) ?g ((txs c)(f \<mapsto> tx_fut_new v)) (tpend c) (cwoken c)" if "txs c f = None" for f v
    using t' that open_new [of "Suc n" _ "tx ?g" "txs c" "tpend c" "cwoken c" f "tx_fut_new v"]
    by (auto simp: tx_inv_def closed_inv_def tx_fut_new_def)
  show ?thesis
  proof (cases op)
    case (BPollTx f w)
    then show ?thesis using op poll_tx_inv [OF inv _ _ _ n, of f] by (auto split: option.splits)
  next
    case (BDropTx f)
    then obtain x where x: "txs c f = Some x" using op by auto
    show ?thesis using BDropTx drop_tx_inv [OF t' x] rx_inv_mono [OF rx, of "Suc n"] x res rf
      by (simp add: b_inv_def case_prod_beta drop_tx_frame)
  next
    case BTryReserve
    then show ?thesis using try_reserve_inv [OF inv n] by simp
  next
    case BClone
    then show ?thesis using clone_sender_inv [OF rx'] t' res rf by (simp add: b_inv_def tx_inv_def) (simp add: clone_sender_def)
  next
    case BDropSender
    have "ckernel (fst (drop_sender ?g)) = ?k" "tx (fst (drop_sender ?g)) = tx ?g" "rx_closed (fst (drop_sender ?g)) = rx_closed ?g"
      by (simp_all add: drop_sender_def wake_rx_def Let_def)
    then show ?thesis
      using BDropSender drop_sender_inv [OF rx n] tx_inv_weaken [OF t, of "Suc n" "fst (drop_sender ?g)"] res rf
      by (simp add: b_inv_def case_prod_beta)
  next
    case BDropRecv
    have "ckernel (drop_recv r ?g) = ?k" "tx (drop_recv r ?g) = tx ?g" "rx_closed (drop_recv r ?g) = rx_closed ?g" for r
      by (simp_all add: drop_recv_def)
    then show ?thesis using BDropRecv drop_recv_inv [OF rx'] t' res by (simp add: b_inv_def tx_inv_def)
  next
    case BClose
    then show ?thesis using close_tx_inv [OF t'] rx_inv_mono [OF rx, of "Suc n"] res rf
      by (simp add: b_inv_def tx_inv_def bounded_close_def)
  next
    case (BPollRx w)
    then show ?thesis using op recv_inv(1) [OF inv n] by auto
  next
    case BTryRecv
    then show ?thesis using op recv_inv(2) [OF inv n] by simp
  qed (use op new rx' t' res rf try_send_inv [OF inv n] permit_inv [OF inv _ n] in \<open>auto simp: b_inv_def\<close>)
qed

lemma b_run_inv:
  assumes "b_inv cap n c" "b_run ops c = Some c'" "n + length ops < 2 ^ 64"
  shows "b_inv cap (n + length ops) c'"
  using assms
proof (induction ops arbitrary: c n)
  case (Cons op ops)
  then have "b_enabled op c" "b_run ops (b_exec op c) = Some c'" by (auto split: if_splits)
  then show ?case using Cons.IH [of "Suc n" "b_exec op c"] b_exec_inv [of cap n c op] Cons.prems by simp
qed simp

lemma mpsc_new_inv: "mpsc_new cap = Some c \<Longrightarrow> cap < 2 ^ 64 \<Longrightarrow> b_inv cap 0 c"
  by (auto simp: mpsc_new_def bounded_channel_def b_inv_def rx_ok_def ch_wf_def channel_kernel_new_def tx_inv_def
      open_inv_def unat_u64_of_nat split: if_splits)
    (simp_all add: waiter_new_def lot_new_def)

section \<open>Properties\<close>

text \<open>C29: The bounded channel is a bounded queue.  After every sequence of fewer than \<open>2 ^ 64\<close> operations on a channel of
  capacity \<open>cap\<close>, itself below \<open>2 ^ 64\<close> (sends and reservations polled and dropped at any moment, \<open>try_send\<close>, permits sent or
  dropped, receives, \<open>close\<close>) the accepted values are the received ones followed by the buffered ones,
  in order; the buffer and the live permits fit in the capacity; the kernel's counters agree with both;
  and a receiver whose last poll ended pending either still waits with an empty buffer, a live sender
  and its waker in the channel, or has been woken since that poll.\<close>

theorem mpsc_fifo:
  assumes "mpsc_new cap = Some c0" "cap < 2 ^ 64" "b_run ops c0 = Some c" "length ops < 2 ^ 64"
  shows "accepted c = received c @ buffer (ch c) \<and> length (buffer (ch c)) + permits c \<le> cap \<and>
    unat (buffered (ckernel (ch c))) = length (buffer (ch c)) \<and> unat (reserved (ckernel (ch c))) = permits c \<and>
    (\<forall>w m. rpend c = Some (w, m) \<longrightarrow>
       rx_waker (ch c) = Some w \<and> buffer (ch c) = [] \<and> 0 < sender_count (ch c) \<or> w \<in> set (drop m (cwoken c)))"
  using b_run_inv [OF mpsc_new_inv [OF assms(1,2)] assms(3)] assms(4)
  by (auto simp: b_inv_def rx_inv_def rx_ok_def ch_wf_def)

theorem mpsc_fifo_witness:
  "\<exists>c0 c :: (nat, nat) mpsc. mpsc_new 2 = Some c0 \<and> b_run [BTryReserve, BTrySend 3, BTrySend 4] c0 = Some c \<and>
    accepted c = received c @ buffer (ch c) \<and> length (buffer (ch c)) + permits c \<le> 2"
proof -
  obtain c0 :: "(nat, nat) mpsc" where c0: "mpsc_new 2 = Some c0" by (simp add: mpsc_new_def bounded_channel_def)
  obtain c where c: "b_run [BTryReserve, BTrySend 3, BTrySend 4] c0 = Some c" by simp
  show ?thesis using mpsc_fifo [OF c0 _ c] c0 c by auto
qed

text \<open>C30: No sender sleeps on a free slot.  In every state that a bounded channel reaches, within the bounds of C29, a \<open>Send\<close> or
  \<open>Reserve\<close> whose last poll ended pending is in the table of parked senders with the waker of that poll
  or has been woken since (always so once the channel is closed); and while the channel is open and a
  sender is parked, there are at least as many senders woken and not yet polled again as there are
  free slots, so a slot that a receive or a dropped permit frees is never forgotten.\<close>

theorem mpsc_no_lost_slot:
  assumes "mpsc_new cap = Some c0" "cap < 2 ^ 64" "b_run ops c0 = Some c" "length ops < 2 ^ 64"
  shows "(\<forall>f w m. tpend c f = Some (w, m) \<longrightarrow>
       (\<exists>x. txs c f = Some x \<and> \<not> rx_closed (ch c) \<and> (tid x, w) \<in> set (lwaiters (tx (ch c)))) \<or> w \<in> set (drop m (cwoken c))) \<and>
    (\<not> rx_closed (ch c) \<and> lwaiters (tx (ch c)) \<noteq> [] \<longrightarrow>
       free_slots (ckernel (ch c)) \<le> card (hinted (tx (ch c)) (txs c)))"
proof -
  have t: "tx_inv (length ops) (ch c) (txs c) (tpend c) (cwoken c)"
    using b_run_inv [OF mpsc_new_inv [OF assms(1,2)] assms(3)] assms(4) by (simp add: b_inv_def)
  show ?thesis
  proof (cases "rx_closed (ch c)")
    case True
    then show ?thesis using t by (auto simp: tx_inv_def closed_inv_def)
  next
    case False
    then have o: "open_inv (length ops) (free_slots (ckernel (ch c))) (tx (ch c)) (txs c) (tpend c) (cwoken c)"
      using t by (simp add: tx_inv_def)
    show ?thesis using open_invD(6) [OF o] open_invD(7) [OF o] False by blast
  qed
qed

theorem mpsc_no_lost_slot_witness:
  "\<exists>c0 c x. mpsc_new 1 = Some (c0 :: (nat, nat) mpsc) \<and> b_run [BTrySend 3, BSend 0 4, BPollTx 0 7] c0 = Some c \<and>
    txs c 0 = Some x \<and> (tid x, 7) \<in> set (lwaiters (tx (ch c)))"
proof -
  let ?ops = "[BTrySend 3, BSend 0 4, BPollTx 0 7] :: (nat, nat) bounded_op list"
  obtain c0 :: "(nat, nat) mpsc" where c0: "mpsc_new 1 = Some c0" by (simp add: mpsc_new_def bounded_channel_def)
  have "\<exists>c. b_run ?ops c0 = Some c \<and> tpend c 0 = Some (7, 0) \<and> cwoken c = []"
  proof -
    obtain c1 where c1: "c1 = b_exec (BTrySend 3) c0" by simp
    have g: "\<not> rx_closed (ch c1)" "try_push (ckernel (ch c1)) = (ckernel (ch c1), False)" "lot_ok 0 (tx (ch c1))"
      "cwoken c1 = []" "txs c1 0 = None"
      using c0 unfolding c1
      by (auto simp: mpsc_new_def bounded_channel_def channel_kernel_new_def try_send_def try_push_def push_value_def wake_rx_def
        opt_wake_def)
    have "b_run ?ops c0 = b_run [BSend 0 4, BPollTx 0 7] c1" by (simp add: c1)
    then show ?thesis
      using tx_loop_full [of "ch c1" try_push 0 "tx_fut_new (Some 4)" 7] g
      by (simp add: poll_tx_def send_poll_def tx_fut_new_def opt_wake_def)
  qed
  then obtain c where c: "b_run ?ops c0 = Some c" "tpend c 0 = Some (7, 0)" "cwoken c = []" by blast
  show ?thesis using mpsc_no_lost_slot [OF c0 _ c(1)] c0 c by auto
qed

end
