(* ===== verification/Oneshot.thy ===== *)
theory Oneshot
  imports Waiter
begin

text \<open>
  The oneshot channel: model of \<^verbatim>\<open>lion-utility/src/sync/oneshot_kernel.rs\<close> and
  \<^verbatim>\<open>lion-utility/src/sync/oneshot.rs\<close>.  \<open>Sender::send\<close> consumes the sender, so its destructor runs after
  it, in a section under the lock of its own; \<open>oneshot_send\<close> makes the two sections in one step, so a
  poll of the receiver between them is not among the runs.  Shown: a value that was accepted is in the channel or was received, once; the receiver's poll
  never panics; and a receiver that waits is woken by the send or by the drop of the sender.
\<close>

section \<open>The kernel\<close>

datatype ostate = Empty | Full | Taken | Closed

datatype recv_decision = DReady | DClosed | DPark

record oneshot_kernel =
  ost :: ostate
  osent :: nat
  odelivered :: nat

definition ok_wf :: "oneshot_kernel \<Rightarrow> bool" where
  "ok_wf k \<longleftrightarrow> osent k \<le> 1 \<and> odelivered k \<le> osent k \<and>
     (ost k = Empty \<longrightarrow> osent k = 0 \<and> odelivered k = 0) \<and> (ost k = Full \<longrightarrow> osent k = 1 \<and> odelivered k = 0) \<and>
     (ost k = Taken \<longrightarrow> osent k = 1 \<and> odelivered k = 1) \<and> (ost k = Closed \<longrightarrow> osent k = 0 \<and> odelivered k = 0)"

definition oneshot_kernel_new :: oneshot_kernel where
  "oneshot_kernel_new = \<lparr>ost = Empty, osent = 0, odelivered = 0\<rparr>"

definition osend_step :: "oneshot_kernel \<Rightarrow> oneshot_kernel \<times> bool" where
  "osend_step k = (if ost k = Empty then (k\<lparr>ost := Full, osent := osent k + 1\<rparr>, True) else (k, False))"

definition orecv_step :: "oneshot_kernel \<Rightarrow> oneshot_kernel \<times> recv_decision" where
  "orecv_step k =
     (if ost k = Full then (k\<lparr>ost := Taken, odelivered := odelivered k + 1\<rparr>, DReady)
      else if ost k = Empty then (k, DPark) else (k, DClosed))"

definition oclose_step :: "oneshot_kernel \<Rightarrow> oneshot_kernel" where
  "oclose_step k = (if ost k = Empty then k\<lparr>ost := Closed\<rparr> else k)"

lemma ok_wf_new [simp]: "ok_wf oneshot_kernel_new"
  and ok_wf_send: "ok_wf k \<Longrightarrow> ok_wf (fst (osend_step k))"
  and ok_wf_recv: "ok_wf k \<Longrightarrow> ok_wf (fst (orecv_step k))"
  and ok_wf_close: "ok_wf k \<Longrightarrow> ok_wf (oclose_step k)"
  by (auto simp: ok_wf_def oneshot_kernel_new_def osend_step_def orecv_step_def oclose_step_def)

section \<open>The channel\<close>

record ('t, 'w) oneshot =
  okernel :: oneshot_kernel
  wkernel :: waiter_kernel
  ovalue :: "'t option"
  orx_waker :: "(u64 \<times> 'w) option"
  rx_dropped :: bool
  onext_id :: u64

record orx_fut =
  oid :: u64
  oparked :: bool

datatype 't orecv = OValue 't | OErr | OPending | OPanic

definition oneshot_channel :: "('t, 'w) oneshot" where
  "oneshot_channel = \<lparr>okernel = oneshot_kernel_new, wkernel = waiter_new, ovalue = None, orx_waker = None,
     rx_dropped = False, onext_id = 0\<rparr>"

definition odeliver :: "('t, 'w) oneshot \<Rightarrow> ('t, 'w) oneshot \<times> 'w option" where
  "odeliver s =
     (case signal_step 0 (wkernel s) of
        (k, Stored) \<Rightarrow> (s\<lparr>wkernel := k\<rparr>, None)
      | (k, Woke i) \<Rightarrow>
          (case orx_waker s of
             Some (wid, w) \<Rightarrow> if wid = i then (s\<lparr>wkernel := k, orx_waker := None\<rparr>, Some w) else (s\<lparr>wkernel := k\<rparr>, None)
           | None \<Rightarrow> (s\<lparr>wkernel := k\<rparr>, None)))"

definition withdraw_rx :: "u64 \<Rightarrow> ('t, 'w) oneshot \<Rightarrow> ('t, 'w) oneshot" where
  "withdraw_rx i s = s\<lparr>wkernel := fst (remove_step i (wkernel s)),
     orx_waker := (case orx_waker s of Some (wid, w) \<Rightarrow> if wid = i then None else Some (wid, w) | None \<Rightarrow> None)\<rparr>"

definition sender_drop :: "('t, 'w) oneshot \<Rightarrow> ('t, 'w) oneshot \<times> 'w list" where
  "sender_drop s = (case odeliver (s\<lparr>okernel := oclose_step (okernel s)\<rparr>) of (s1, w) \<Rightarrow> (s1, case w of Some x \<Rightarrow> [x] | None \<Rightarrow> []))"

text \<open>The result says whether the value was accepted; the sender is dropped on every way out.\<close>

definition oneshot_send :: "'t \<Rightarrow> ('t, 'w) oneshot \<Rightarrow> ('t, 'w) oneshot \<times> bool \<times> 'w list" where
  "oneshot_send v s =
     (if rx_dropped s then (case sender_drop s of (s1, ws) \<Rightarrow> (s1, False, ws))
      else case osend_step (okernel s) of
        (k, True) \<Rightarrow>
          (case odeliver (s\<lparr>okernel := k, ovalue := Some v\<rparr>) of (s1, w) \<Rightarrow>
           case sender_drop s1 of (s2, ws) \<Rightarrow> (s2, True, (case w of Some x \<Rightarrow> [x] | None \<Rightarrow> []) @ ws))
      | (k, False) \<Rightarrow> (case sender_drop (s\<lparr>okernel := k\<rparr>) of (s1, ws) \<Rightarrow> (s1, False, ws)))"

definition leave :: "orx_fut \<Rightarrow> ('t, 'w) oneshot \<Rightarrow> ('t, 'w) oneshot \<times> orx_fut" where
  "leave r s = (if oparked r then (withdraw_rx (oid r) s, r\<lparr>oparked := False\<rparr>) else (s, r))"

function oneshot_poll :: "'w \<Rightarrow> orx_fut \<Rightarrow> ('t, 'w) oneshot \<Rightarrow> ('t, 'w) oneshot \<times> orx_fut \<times> 't orecv" where
  "oneshot_poll w r s =
     (case orecv_step (okernel s) of
        (k, DReady) \<Rightarrow>
          (case leave r (s\<lparr>okernel := k\<rparr>) of (s1, r1) \<Rightarrow>
           case ovalue s1 of Some v \<Rightarrow> (s1\<lparr>ovalue := None\<rparr>, r1, OValue v) | None \<Rightarrow> (s1, r1, OPanic))
      | (k, DClosed) \<Rightarrow> (case leave r (s\<lparr>okernel := k\<rparr>) of (s1, r1) \<Rightarrow> (s1, r1, OErr))
      | (k, DPark) \<Rightarrow>
          if oparked r then
            (s\<lparr>orx_waker := (case orx_waker s of Some (wid, u) \<Rightarrow> Some (wid, if wid = oid r then w else u) | None \<Rightarrow> None)\<rparr>,
             r, OPending)
          else case wait_step (onext_id s) (wkernel s) of
            (wk, Ready) \<Rightarrow> oneshot_poll w r (s\<lparr>wkernel := wk, onext_id := onext_id s + 1\<rparr>)
          | (wk, Park _) \<Rightarrow> (s\<lparr>wkernel := wk, orx_waker := Some (onext_id s, w), onext_id := onext_id s + 1\<rparr>,
                             \<lparr>oid = onext_id s, oparked = True\<rparr>, OPending))"
  by pat_completeness auto
termination
  by (relation "measure (\<lambda>(w, r, s). unat (permit (wkernel s)))")
    (auto simp: wait_step_def unat_minus_one word_gt_0 unat_gt_0 split: if_splits)

declare oneshot_poll.simps [simp del]

definition receiver_drop :: "orx_fut \<Rightarrow> ('t, 'w) oneshot \<Rightarrow> ('t, 'w) oneshot" where
  "receiver_drop r s =
     (let s1 = s\<lparr>rx_dropped := True\<rparr> in if oparked r then withdraw_rx (oid r) s1 else s1)"

section \<open>Runs\<close>

datatype ('t, 'w) oneshot_op = OSend 't | ODropTx | OPoll 'w | ODropRx

text \<open>
  The channel, whether the sender lives, the receiver while it lives, its last waker if its last poll
  ended pending (with the number of wakes before), the wakes, and the values received and accepted.
\<close>

record ('t, 'w) oclient =
  och :: "('t, 'w) oneshot"
  otx :: bool
  orx :: "orx_fut option"
  opend :: "('w \<times> nat) option"
  owoken :: "'w list"
  ogot :: "'t list"
  oaccepted :: "'t list"
  opanicked :: bool

definition oclient_new :: "('t, 'w) oclient" where
  "oclient_new = \<lparr>och = oneshot_channel, otx = True, orx = Some \<lparr>oid = 0, oparked = False\<rparr>, opend = None, owoken = [],
     ogot = [], oaccepted = [], opanicked = False\<rparr>"

fun o_enabled :: "('t, 'w) oneshot_op \<Rightarrow> ('t, 'w) oclient \<Rightarrow> bool" where
  "o_enabled (OSend v) c \<longleftrightarrow> otx c"
| "o_enabled ODropTx c \<longleftrightarrow> otx c"
| "o_enabled (OPoll w) c \<longleftrightarrow> orx c \<noteq> None"
| "o_enabled ODropRx c \<longleftrightarrow> orx c \<noteq> None"

fun o_exec :: "('t, 'w) oneshot_op \<Rightarrow> ('t, 'w) oclient \<Rightarrow> ('t, 'w) oclient" where
  "o_exec (OSend v) c =
     (case oneshot_send v (och c) of (s, ok, ws) \<Rightarrow>
        c\<lparr>och := s, otx := False, owoken := owoken c @ ws, oaccepted := oaccepted c @ (if ok then [v] else [])\<rparr>)"
| "o_exec ODropTx c = (case sender_drop (och c) of (s, ws) \<Rightarrow> c\<lparr>och := s, otx := False, owoken := owoken c @ ws\<rparr>)"
| "o_exec (OPoll w) c =
     (case oneshot_poll w (the (orx c)) (och c) of (s, r, res) \<Rightarrow>
        c\<lparr>och := s, orx := Some r, opend := (if res = OPending then Some (w, length (owoken c)) else None),
          ogot := ogot c @ (case res of OValue v \<Rightarrow> [v] | _ \<Rightarrow> []), opanicked := (opanicked c \<or> res = OPanic)\<rparr>)"
| "o_exec ODropRx c = c\<lparr>och := receiver_drop (the (orx c)) (och c), orx := None, opend := None\<rparr>"

fun o_run :: "('t, 'w) oneshot_op list \<Rightarrow> ('t, 'w) oclient \<Rightarrow> ('t, 'w) oclient option" where
  "o_run [] c = Some c"
| "o_run (op # ops) c = (if o_enabled op c then o_run ops (o_exec op c) else None)"

section \<open>The invariant\<close>

text \<open>While the sender lives nothing was signalled: a parked receiver is queued with its waker.\<close>

definition o_inv :: "('t, 'w) oclient \<Rightarrow> bool" where
  "o_inv c \<longleftrightarrow> ok_wf (okernel (och c)) \<and> kernel_ok (wkernel (och c)) \<and> \<not> opanicked c \<and>
     (otx c \<longleftrightarrow> ost (okernel (och c)) = Empty) \<and>
     (ost (okernel (och c)) = Full \<longleftrightarrow> ovalue (och c) \<noteq> None) \<and>
     oaccepted c = ogot c @ (case ovalue (och c) of Some v \<Rightarrow> [v] | None \<Rightarrow> []) \<and> length (oaccepted c) = osent (okernel (och c)) \<and>
     (otx c \<longrightarrow> kernel_free (wkernel (och c)) = 0 \<and>
        (case orx c of
           Some r \<Rightarrow> if oparked r then queue (wkernel (och c)) = [oid r] \<and> (\<exists>w. orx_waker (och c) = Some (oid r, w))
                     else queue (wkernel (och c)) = []
         | None \<Rightarrow> queue (wkernel (och c)) = [])) \<and>
     (\<forall>w m. opend c = Some (w, m) \<longrightarrow> m \<le> length (owoken c) \<and>
        (otx c \<and> (\<exists>r. orx c = Some r \<and> oparked r \<and> orx_waker (och c) = Some (oid r, w)) \<or> w \<in> set (drop m (owoken c))))"


lemma o_inv_new [simp]: "o_inv oclient_new"
  by (simp add: o_inv_def oclient_new_def oneshot_channel_def) (simp add: waiter_new_def oneshot_kernel_new_def)

text \<open>The two wakes: the first one reaches the parked receiver, a wake with nobody parked stores a permit.\<close>

lemma odeliver_cases:
  assumes "odeliver s = (s', x)" "kernel_ok (wkernel s)" "kernel_free (wkernel s) < 2 ^ 64 - 1"
  obtains i q where "queue (wkernel s) = i # q" "queue (wkernel s') = q" "kernel_free (wkernel s') = 0"
      "kernel_ok (wkernel s')" "okernel s' = okernel s" "ovalue s' = ovalue s"
      "\<And>w. orx_waker s = Some (i, w) \<Longrightarrow> x = Some w"
    | "queue (wkernel s) = []" "queue (wkernel s') = []" "kernel_free (wkernel s') = Suc (kernel_free (wkernel s))"
      "kernel_ok (wkernel s')" "okernel s' = okernel s" "ovalue s' = ovalue s" "x = None"
proof -
  obtain k a where ka: "signal_step 0 (wkernel s) = (k, a)" by fastforce
  show thesis
    by (rule kq.signal_cases [OF assms(2,3) ka];
      rule that; use assms(1) ka in \<open>fastforce simp: odeliver_def split: option.splits if_splits prod.splits\<close>)
qed


text \<open>What a live sender's end does to the receiver: its waker, when it is parked, is among the wakes.\<close>

definition rx_parked :: "('t, 'w) oneshot \<Rightarrow> 'w \<Rightarrow> bool" where
  "rx_parked s w \<longleftrightarrow> (\<exists>i q. queue (wkernel s) = i # q \<and> orx_waker s = Some (i, w))"

lemma sender_drop_cases:
  assumes "sender_drop s = (s', ws)" "kernel_ok (wkernel s)" "kernel_free (wkernel s) < 2 ^ 64 - 1"
  obtains "kernel_ok (wkernel s')" "okernel s' = oclose_step (okernel s)" "ovalue s' = ovalue s"
    "\<And>w. rx_parked s w \<Longrightarrow> w \<in> set ws"
proof -
  obtain s1 x where d: "odeliver (s\<lparr>okernel := oclose_step (okernel s)\<rparr>) = (s1, x)" by fastforce
  have e: "s' = s1" "ws = (case x of Some y \<Rightarrow> [y] | None \<Rightarrow> [])" using assms(1) d by (auto simp: sender_drop_def)
  show thesis
    by (rule odeliver_cases [OF d]; (rule that)?; use assms(2,3) e in \<open>auto simp: rx_parked_def\<close>)
qed

lemma oneshot_send_cases:
  assumes "oneshot_send v s = (s', b, ws)" "kernel_ok (wkernel s)" "kernel_free (wkernel s) = 0" "ost (okernel s) = Empty"
  obtains "\<not> b" "kernel_ok (wkernel s')" "okernel s' = oclose_step (okernel s)" "ovalue s' = ovalue s"
      "\<And>w. rx_parked s w \<Longrightarrow> w \<in> set ws"
    | "b" "kernel_ok (wkernel s')" "okernel s' = fst (osend_step (okernel s))" "ovalue s' = Some v"
      "\<And>w. rx_parked s w \<Longrightarrow> w \<in> set ws"
proof (cases "rx_dropped s")
  case True
  then have d: "sender_drop s = (s', ws)" "\<not> b" using assms(1) by (auto simp: oneshot_send_def split: prod.splits)
  show thesis by (rule sender_drop_cases [OF d(1)]; (rule that(1))?) (use assms(2,3) d(2) in auto)
next
  case False
  let ?s = "s\<lparr>okernel := fst (osend_step (okernel s)), ovalue := Some v\<rparr>"
  obtain s1 x where d: "odeliver ?s = (s1, x)" by fastforce
  obtain s2 us where e: "sender_drop s1 = (s2, us)" by fastforce
  have r: "b" "s' = s2" "ws = (case x of Some y \<Rightarrow> [y] | None \<Rightarrow> []) @ us"
    using assms(1,4) False d e by (auto simp: oneshot_send_def osend_step_def)
  have k: "kernel_ok (wkernel ?s)" "kernel_free (wkernel ?s) < 2 ^ 64 - 1" using assms(2,3) by simp_all
  have s1: "kernel_ok (wkernel s1)" "kernel_free (wkernel s1) < 2 ^ 64 - 1" "okernel s1 = okernel ?s" "ovalue s1 = Some v"
    by (rule odeliver_cases [OF d k]; use assms(3) in simp)+
  have w: "rx_parked s y \<Longrightarrow> x = Some y" for y
    by (rule odeliver_cases [OF d k]) (auto simp: rx_parked_def)
  have c: "oclose_step (okernel s1) = fst (osend_step (okernel s))"
    using s1(3) assms(4) by (simp add: oclose_step_def osend_step_def)
  show thesis by (rule sender_drop_cases [OF e s1(1,2)]; rule that(2)) (use r s1 w c in auto)
qed

lemma drop_append_le: "m \<le> length xs \<Longrightarrow> set (drop m (xs @ ys)) = set (drop m xs) \<union> set ys"
  by simp

text \<open>Both ways to end the sender leave the same picture; \<open>b\<close> says whether the value was stored.\<close>

lemma o_inv_end:
  assumes inv: "o_inv c" and tx: "otx c" and k: "kernel_ok (wkernel s')"
    and parked: "\<And>w. rx_parked (och c) w \<Longrightarrow> w \<in> set ws"
    and data: "okernel s' = oclose_step (okernel (och c)) \<and> ovalue s' = ovalue (och c) \<and> vs = [] \<or>
      okernel s' = fst (osend_step (okernel (och c))) \<and> ovalue s' = Some v \<and> vs = [v]"
  shows "o_inv (c\<lparr>och := s', otx := False, owoken := owoken c @ ws, oaccepted := oaccepted c @ vs\<rparr>)"
proof -
  have e: "ost (okernel (och c)) = Empty" "ovalue (och c) = None" using inv tx by (auto simp: o_inv_def)
  have wf: "ok_wf (okernel s')"
    using inv data ok_wf_close [of "okernel (och c)"] ok_wf_send [of "okernel (och c)"] by (auto simp: o_inv_def)
  have pend: "m \<le> length (owoken c @ ws) \<and> w \<in> set (drop m (owoken c @ ws))" if p: "opend c = Some (w, m)" for w m
  proof -
    have m: "m \<le> length (owoken c)" and
      dis: "(\<exists>r. orx c = Some r \<and> oparked r \<and> orx_waker (och c) = Some (oid r, w)) \<or> w \<in> set (drop m (owoken c))"
      using inv p by (auto simp: o_inv_def)
    have "rx_parked (och c) w" if "\<exists>r. orx c = Some r \<and> oparked r \<and> orx_waker (och c) = Some (oid r, w)"
      using inv tx that by (auto simp: o_inv_def rx_parked_def)
    then show ?thesis using dis m parked by (auto simp: drop_append_le)
  qed
  show ?thesis
    using inv e wf k data pend unfolding o_inv_def
    by (elim disjE conjE) (auto simp: oclose_step_def osend_step_def)
qed


lemma withdraw_rx_simps [simp]:
  "okernel (withdraw_rx i s) = okernel s" "ovalue (withdraw_rx i s) = ovalue s"
  "kernel_ok (wkernel s) \<Longrightarrow> kernel_ok (wkernel (withdraw_rx i s))"
  "kernel_ok (wkernel s) \<Longrightarrow> queue (wkernel (withdraw_rx i s)) = remove1 i (queue (wkernel s))"
  "kernel_ok (wkernel s) \<Longrightarrow> kernel_free (wkernel (withdraw_rx i s)) = kernel_free (wkernel s)"
  by (auto simp: withdraw_rx_def kq.ok_remove kq.remove_waiting kq.remove_free)

lemma leave_cases:
  assumes "leave r s = (s', r')" "kernel_ok (wkernel s)"
  obtains "kernel_ok (wkernel s')" "okernel s' = okernel s" "ovalue s' = ovalue s"
  using assms by (auto simp: leave_def split: if_splits)

text \<open>A poll after the sender's end gives the value, once, and an error from then on.\<close>

lemma oneshot_poll_ended:
  assumes p: "oneshot_poll w r s = (s', r', res)" and k: "kernel_ok (wkernel s)" and e: "ost (okernel s) \<noteq> Empty"
  shows "kernel_ok (wkernel s') \<and> okernel s' = fst (orecv_step (okernel s)) \<and>
    (ost (okernel s) = Full \<and> (ovalue s = None \<or> (\<exists>v. ovalue s = Some v \<and> res = OValue v \<and> ovalue s' = None)) \<or>
     ost (okernel s) \<noteq> Full \<and> res = OErr \<and> ovalue s' = ovalue s)"
proof -
  obtain s1 r1 where l: "leave r (s\<lparr>okernel := fst (orecv_step (okernel s))\<rparr>) = (s1, r1)" by fastforce
  show ?thesis
    by (rule leave_cases [OF l])
      (use p k e l in \<open>auto simp: oneshot_poll.simps [of w r s] orecv_step_def split: if_splits option.splits\<close>)
qed

text \<open>A poll before it parks the receiver, or refreshes its waker.\<close>

lemma oneshot_poll_live:
  assumes p: "oneshot_poll w r s = (s', r', res)" and k: "kernel_ok (wkernel s)" "kernel_free (wkernel s) = 0"
    and e: "ost (okernel s) = Empty"
    and park: "if oparked r then queue (wkernel s) = [oid r] \<and> (\<exists>u. orx_waker s = Some (oid r, u)) else queue (wkernel s) = []"
  shows "res = OPending \<and> kernel_ok (wkernel s') \<and> kernel_free (wkernel s') = 0 \<and> okernel s' = okernel s \<and>
    ovalue s' = ovalue s \<and> oparked r' \<and> queue (wkernel s') = [oid r'] \<and> orx_waker s' = Some (oid r', w)"
proof -
  obtain k a where ka: "wait_step (onext_id s) (wkernel s) = (k, a)" by fastforce
  show ?thesis
    by (rule kq.wait_cases [OF k(1) ka])
      (use p k e park ka in \<open>auto simp: oneshot_poll.simps [of w r s] orecv_step_def split: if_splits\<close>)
qed

lemma o_inv_poll:
  assumes "o_inv c" "orx c = Some r"
  shows "o_inv (o_exec (OPoll w) c)"
proof -
  obtain s' r' res where p: "oneshot_poll w r (och c) = (s', r', res)" by (metis prod_cases3)
  have k: "kernel_ok (wkernel (och c))" using assms by (simp add: o_inv_def)
  show ?thesis
  proof (cases "otx c")
    case True
    then have "res = OPending \<and> kernel_ok (wkernel s') \<and> kernel_free (wkernel s') = 0 \<and> okernel s' = okernel (och c) \<and>
        ovalue s' = ovalue (och c) \<and> oparked r' \<and> queue (wkernel s') = [oid r'] \<and> orx_waker s' = Some (oid r', w)"
      using assms by (intro oneshot_poll_live [OF p]) (auto simp: o_inv_def split: if_splits)
    moreover have "ovalue (och c) = None" using assms True by (auto simp: o_inv_def)
    ultimately show ?thesis using assms True p by (auto simp: o_inv_def)
  next
    case False
    have "ok_wf (fst (orecv_step (okernel (och c))))" using assms by (simp add: o_inv_def ok_wf_recv)
    then show ?thesis using oneshot_poll_ended [OF p k] assms False p
      by (cases "ost (okernel (och c))") (auto simp: o_inv_def orecv_step_def)
  qed
qed

lemma o_inv_exec:
  assumes inv: "o_inv c" and en: "o_enabled op c"
  shows "o_inv (o_exec op c)"
proof (cases op)
  case (OSend v)
  obtain s' b ws where p: "oneshot_send v (och c) = (s', b, ws)" by (metis prod_cases3)
  have c: "kernel_ok (wkernel (och c))" "kernel_free (wkernel (och c)) = 0" "ost (okernel (och c)) = Empty" "otx c"
    using inv en OSend by (auto simp: o_inv_def)
  have "o_inv (c\<lparr>och := s', otx := False, owoken := owoken c @ ws, oaccepted := oaccepted c @ (if b then [v] else [])\<rparr>)"
    by (rule oneshot_send_cases [OF p c(1-3)]; rule o_inv_end [OF inv c(4)]) simp_all
  then show ?thesis using p OSend by simp
next
  case ODropTx
  obtain s' ws where p: "sender_drop (och c) = (s', ws)" by fastforce
  have c: "kernel_ok (wkernel (och c))" "kernel_free (wkernel (och c)) < 2 ^ 64 - 1" "otx c"
    using inv en ODropTx by (auto simp: o_inv_def)
  have "o_inv (c\<lparr>och := s', otx := False, owoken := owoken c @ ws, oaccepted := oaccepted c @ []\<rparr>)"
    by (rule sender_drop_cases [OF p c(1,2)]; rule o_inv_end [OF inv c(3)]) simp_all
  then show ?thesis using p ODropTx by simp
next
  case (OPoll w)
  then show ?thesis using o_inv_poll [OF inv] en by auto
next
  case ODropRx
  then show ?thesis using inv en by (auto simp: o_inv_def receiver_drop_def Let_def)
qed


lemma o_inv_run: "o_run ops c = Some c' \<Longrightarrow> o_inv c \<Longrightarrow> o_inv c'"
  by (induction ops arbitrary: c) (auto split: if_splits intro: o_inv_exec)

section \<open>Property\<close>

text \<open>
  C31: In every run of a oneshot channel (a send, the drop of the sender, polls and the drop of the
  receiver, in any order the ownership allows) at most one value is accepted, and it was received or is
  still in the channel; the receiver's \<open>unwrap\<close> never panics; and if its last poll ended pending, then
  it waits for a sender that lives, with the waker of that poll registered, or that waker has been woken
  since.
\<close>

theorem oneshot_exactly_once:
  assumes "o_run ops oclient_new = Some c"
  shows "length (oaccepted c) \<le> 1 \<and> oaccepted c = ogot c @ (case ovalue (och c) of Some v \<Rightarrow> [v] | None \<Rightarrow> []) \<and>
    \<not> opanicked c \<and>
    (\<forall>w m. opend c = Some (w, m) \<longrightarrow>
       (otx c \<and> (\<exists>i. queue (wkernel (och c)) = [i] \<and> orx_waker (och c) = Some (i, w))) \<or> w \<in> set (drop m (owoken c)))"
proof -
  have inv: "o_inv c" using o_inv_run [OF assms] by simp
  have "osent (okernel (och c)) \<le> 1" using inv by (simp add: o_inv_def ok_wf_def)
  then show ?thesis using inv unfolding o_inv_def by (auto split: if_splits)
qed

lemma oneshot_poll_full:
  "ost (okernel s) = Full \<Longrightarrow> oneshot_poll w r s =
     (case leave r (s\<lparr>okernel := fst (orecv_step (okernel s))\<rparr>) of (s1, r1) \<Rightarrow>
      case ovalue s1 of Some v \<Rightarrow> (s1\<lparr>ovalue := None\<rparr>, r1, OValue v) | None \<Rightarrow> (s1, r1, OPanic))"
  by (simp add: oneshot_poll.simps [of w r s] orecv_step_def)

lemma oneshot_poll_park:
  "ost (okernel s) = Empty \<Longrightarrow> \<not> oparked r \<Longrightarrow> permit (wkernel s) = 0 \<Longrightarrow> oneshot_poll w r s =
     (s\<lparr>wkernel := fst (wait_step (onext_id s) (wkernel s)), orx_waker := Some (onext_id s, w), onext_id := onext_id s + 1\<rparr>,
      \<lparr>oid = onext_id s, oparked = True\<rparr>, OPending)"
  by (simp add: oneshot_poll.simps [of w r s] orecv_step_def wait_step_def)

text \<open>Witness: the receiver polls, the value is sent, the receiver gets it.\<close>

theorem oneshot_exactly_once_witness:
  "\<exists>c. o_run [OPoll (7::nat), OSend (42::nat), OPoll 8] oclient_new = Some c \<and> ogot c = [42] \<and> owoken c = [7] \<and>
     oaccepted c = ogot c \<and> length (oaccepted c) \<le> 1"
proof -
  obtain c where c: "o_run [OPoll (7::nat), OSend (42::nat), OPoll 8] oclient_new = Some c" "ogot c = [42]" "owoken c = [7]"
    "ovalue (och c) = None"
    by (simp add: oclient_new_def oneshot_channel_def oneshot_kernel_new_def waiter_new_def oneshot_poll_full oneshot_poll_park
      oneshot_send_def sender_drop_def odeliver_def osend_step_def orecv_step_def oclose_step_def wait_step_def
      signal_step_def leave_def withdraw_rx_def remove_step_def find_first_def)
  from oneshot_exactly_once [OF c(1)] c show ?thesis by auto
qed

end
