(* ===== verification/Subscribers.thy ===== *)
theory Subscribers
  imports Parking
begin

text \<open>
  What the receivers of \<open>watch\<close> and \<open>broadcast\<close> have in common
  (\<^verbatim>\<open>lion-utility/src/sync/watch.rs\<close>, \<^verbatim>\<open>lion-utility/src/sync/broadcast.rs\<close>): each receiver has a cursor into what
  was published, at most one future that waits on it (the future borrows the receiver), and parks in the
  channel's table when there is nothing to see.  Every wake is a broadcast.

  The locale \<open>subscription\<close> is the contract of such a channel's poll; its lemmas show that a future which
  returned pending is registered with the waker of that poll, or that waker has been woken since.
\<close>

record park_fut =
  pid :: u64
  pparked :: bool

definition park_fut_new :: park_fut where
  "park_fut_new = \<lparr>pid = 0, pparked = False\<rparr>"

text \<open>A receiver; the flag says that its future has returned ready and must not be polled again.\<close>

record subscriber =
  cursor :: u64
  sfut :: "park_fut option"
  sdone :: bool

definition subscriber_at :: "u64 \<Rightarrow> subscriber" where
  "subscriber_at c = \<lparr>cursor = c, sfut = None, sdone = False\<rparr>"

type_synonym subscribers = "nat \<rightharpoonup> subscriber"

text \<open>A future borrows its receiver: while it lives the receiver is used through it only.\<close>

definition free_rx :: "subscribers \<Rightarrow> nat \<Rightarrow> bool" where
  "free_rx rxs k = (case rxs k of Some r \<Rightarrow> sfut r = None | None \<Rightarrow> False)"

definition has_fut :: "subscribers \<Rightarrow> nat \<Rightarrow> bool" where
  "has_fut rxs k = (case rxs k of Some r \<Rightarrow> sfut r \<noteq> None | None \<Rightarrow> False)"

lemma free_rxE: "free_rx rxs k \<Longrightarrow> (\<And>r. rxs k = Some r \<Longrightarrow> sfut r = None \<Longrightarrow> P) \<Longrightarrow> P"
  by (auto simp: free_rx_def split: option.splits)

lemma has_futE: "has_fut rxs k \<Longrightarrow> (\<And>r f. rxs k = Some r \<Longrightarrow> sfut r = Some f \<Longrightarrow> P) \<Longrightarrow> P"
  by (auto simp: has_fut_def split: option.splits)

definition parked_id :: "subscriber option \<Rightarrow> u64 option" where
  "parked_id x = (case x of Some r \<Rightarrow> (case sfut r of Some f \<Rightarrow> if pparked f then Some (pid f) else None | None \<Rightarrow> None) | None \<Rightarrow> None)"

lemma parked_id_simps [simp]:
  "parked_id None = None" "parked_id (Some (subscriber_at c)) = None" "cursor (subscriber_at c) = c"
  "sfut r = None \<Longrightarrow> parked_id (Some r) = None"
  "sfut r = Some f \<Longrightarrow> parked_id (Some r) = (if pparked f then Some (pid f) else None)"
  by (auto simp: parked_id_def subscriber_at_def)

text \<open>The ids in use are distinct, and those of the table are the ones of the futures that have nothing to see.\<close>

definition sub_ids :: "(u64 \<Rightarrow> bool) \<Rightarrow> 'w lot \<Rightarrow> subscribers \<Rightarrow> bool" where
  "sub_ids idle l rxs \<longleftrightarrow>
     (\<forall>k i. parked_id (rxs k) = Some i \<longrightarrow> unat i < unat (lnext l)) \<and>
     (\<forall>k k' i. parked_id (rxs k) = Some i \<longrightarrow> parked_id (rxs k') = Some i \<longrightarrow> k = k') \<and>
     (\<forall>k r i. rxs k = Some r \<longrightarrow> parked_id (Some r) = Some i \<longrightarrow>
        ((\<exists>w. (i, w) \<in> set (lwaiters l)) \<longleftrightarrow> \<not> sdone r \<and> idle (cursor r))) \<and>
     (\<forall>i w. (i, w) \<in> set (lwaiters l) \<longrightarrow> (\<exists>k. parked_id (rxs k) = Some i))"

text \<open>A pending future: its last waker, and the number of wakes before that poll.\<close>

definition sub_pend :: "'w lot \<Rightarrow> subscribers \<Rightarrow> (nat \<rightharpoonup> 'w \<times> nat) \<Rightarrow> 'w list \<Rightarrow> bool" where
  "sub_pend l rxs pend woken \<longleftrightarrow> (\<forall>k w m. pend k = Some (w, m) \<longrightarrow> m \<le> length woken \<and>
     (\<exists>r i. rxs k = Some r \<and> \<not> sdone r \<and> parked_id (Some r) = Some i \<and>
        ((i, w) \<in> set (lwaiters l) \<or> w \<in> set (drop m woken))))"

section \<open>The contract of a poll\<close>

locale subscription =
  fixes lot_of :: "'g \<Rightarrow> 'w lot"
    and idle :: "'g \<Rightarrow> u64 \<Rightarrow> bool"
    and poll :: "'w \<Rightarrow> u64 \<Rightarrow> park_fut \<Rightarrow> 'g \<Rightarrow> 'g \<times> u64 \<times> park_fut \<times> 'r"
    and pending :: "'r \<Rightarrow> bool"
  assumes poll_ready: "\<not> idle g c \<Longrightarrow> poll w c f g = (g', c', f', res) \<Longrightarrow> g' = g \<and> f' = f \<and> \<not> pending res"
    and poll_refresh: "idle g c \<Longrightarrow> pparked f \<Longrightarrow> poll w c f g = (g', c', f', res) \<Longrightarrow>
      c' = c \<and> f' = f \<and> pending res \<and> lot_of g' = lot_refresh (pid f) w (lot_of g) \<and> idle g' = idle g"
    and poll_park: "idle g c \<Longrightarrow> \<not> pparked f \<Longrightarrow> lot_ok n (lot_of g) \<Longrightarrow> Suc n < 2 ^ 64 \<Longrightarrow>
      poll w c f g = (g', c', f', res) \<Longrightarrow>
      c' = c \<and> f' = \<lparr>pid = lnext (lot_of g), pparked = True\<rparr> \<and> pending res \<and>
      lot_of g' = fst (lot_park w (lot_of g)) \<and> idle g' = idle g"
begin

definition sub_inv :: "nat \<Rightarrow> 'g \<Rightarrow> subscribers \<Rightarrow> (nat \<rightharpoonup> 'w \<times> nat) \<Rightarrow> 'w list \<Rightarrow> bool" where
  "sub_inv n g rxs pend woken \<longleftrightarrow>
     lot_ok n (lot_of g) \<and> sub_ids (idle g) (lot_of g) rxs \<and> sub_pend (lot_of g) rxs pend woken"

lemma sub_inv_lot: "sub_inv n g rxs pend woken \<Longrightarrow> lot_ok n (lot_of g)"
  by (simp add: sub_inv_def)

lemma sub_inv_mono: "sub_inv n g rxs pend woken \<Longrightarrow> n \<le> m \<Longrightarrow> sub_inv m g rxs pend woken"
  by (auto simp: sub_inv_def intro: pl.ok_mono)

lemma sub_pendE:
  assumes "sub_inv n g rxs pend woken" "pend k = Some (w, m)"
  obtains r i where "m \<le> length woken" "rxs k = Some r" "\<not> sdone r" "parked_id (Some r) = Some i"
    "(i, w) \<in> set (lwaiters (lot_of g)) \<or> w \<in> set (drop m woken)"
  using assms unfolding sub_inv_def sub_pend_def by blast

lemma sub_inv_Suc: "sub_inv n g rxs pend woken \<Longrightarrow> sub_inv (Suc n) g rxs pend woken"
  by (erule sub_inv_mono) simp

text \<open>A pending future is registered, and then there is nothing to see, or it has been woken.\<close>

lemma sub_pending:
  assumes "sub_inv n g rxs pend woken" "pend k = Some (w, m)"
  shows "\<exists>r i. rxs k = Some r \<and> parked_id (Some r) = Some i \<and>
    ((i, w) \<in> set (lwaiters (lot_of g)) \<and> idle g (cursor r) \<or> w \<in> set (drop m woken))"
  using assms unfolding sub_inv_def sub_ids_def sub_pend_def by blast

lemma sub_inv_cong: "sub_inv n g rxs pend woken \<Longrightarrow> lot_of g' = lot_of g \<Longrightarrow> idle g' = idle g \<Longrightarrow> sub_inv n g' rxs pend woken"
  by (simp add: sub_inv_def)

text \<open>A receiver without a parked future comes, changes, or goes.\<close>

lemma sub_quiet:
  assumes "sub_inv n g rxs pend woken" "parked_id (rxs k) = None" "parked_id x = None"
  shows "sub_inv n g (rxs(k := x)) pend woken"
proof -
  have p: "parked_id ((rxs(k := x)) j) = parked_id (rxs j)" for j using assms(2,3) by simp
  have q: "(rxs(k := x)) j = Some r \<Longrightarrow> parked_id (Some r) = Some i \<Longrightarrow> rxs j = Some r" for j r i
    using assms(2,3) by (auto split: if_splits)
  have "sub_pend (lot_of g) (rxs(k := x)) pend woken"
    using assms unfolding sub_inv_def sub_pend_def by (metis fun_upd_apply option.distinct(1))
  moreover have "sub_ids (idle g) (lot_of g) (rxs(k := x))"
    using assms(1) q unfolding sub_inv_def sub_ids_def p by blast
  ultimately show ?thesis using assms(1) by (simp add: sub_inv_def)
qed

text \<open>A broadcast after which no parked future has nothing to see.\<close>

lemma sub_broadcast:
  assumes inv: "sub_inv n g rxs pend woken" and l: "lot_wake_all (lot_of g) = (l', ws)" "lot_of g' = l'"
    and news: "\<And>k r i. rxs k = Some r \<Longrightarrow> parked_id (Some r) = Some i \<Longrightarrow> \<not> sdone r \<Longrightarrow> \<not> idle g' (cursor r)"
  shows "sub_inv n g' rxs pend (woken @ ws)"
proof -
  have ok: "lot_ok n (lot_of g)" by (rule sub_inv_lot [OF inv])
  have l': "lot_ok n l'" "lwaiters l' = []" "lnext l' = lnext (lot_of g)" "ws = map snd (lwaiters (lot_of g))"
    using pl.wake_all_ok [OF ok] l by simp_all
  have "sub_ids (idle g') (lot_of g') rxs"
    using inv news l l' unfolding sub_inv_def sub_ids_def by simp metis
  moreover have "sub_pend (lot_of g') rxs pend (woken @ ws)"
    unfolding sub_pend_def
  proof (intro allI impI)
    fix k w m
    assume p: "pend k = Some (w, m)"
    then obtain r i where r: "m \<le> length woken" "rxs k = Some r" "\<not> sdone r" "parked_id (Some r) = Some i"
      "(i, w) \<in> set (lwaiters (lot_of g)) \<or> w \<in> set (drop m woken)" using sub_pendE [OF inv p] by blast
    then have "w \<in> set (drop m (woken @ ws))" using l'(4) by force
    then show "m \<le> length (woken @ ws) \<and> (\<exists>r i. rxs k = Some r \<and> \<not> sdone r \<and> parked_id (Some r) = Some i \<and>
        ((i, w) \<in> set (lwaiters (lot_of g')) \<or> w \<in> set (drop m (woken @ ws))))" using r by auto
  qed
  ultimately show ?thesis using l l' by (simp add: sub_inv_def)
qed

text \<open>A future is dropped; what it left in the table goes with it.\<close>

lemma sub_drop:
  assumes inv: "sub_inv n g rxs pend woken" and r: "rxs k = Some r" "parked_id (Some r) = Some i"
    and x: "parked_id x = None" and g': "lot_of g' = fst (lot_remove i (lot_of g))" "idle g' = idle g"
  shows "sub_inv n g' (rxs(k := x)) (pend(k := None)) woken"
proof -
  have rm: "lot_ok n (lot_of g')" "lnext (lot_of g') = lnext (lot_of g)"
      "lwaiters (lot_of g') = filter (\<lambda>e. fst e \<noteq> i) (lwaiters (lot_of g))"
    using pl.remove_ok [OF sub_inv_lot [OF inv], of i] g' by simp_all
  have p: "parked_id ((rxs(k := x)) j) = (if j = k then None else parked_id (rxs j))" for j using x by simp
  have inj: "parked_id (rxs j) = Some i \<Longrightarrow> j = k" for j
    using inv r unfolding sub_inv_def sub_ids_def by metis
  have "sub_ids (idle g') (lot_of g') (rxs(k := x))"
    unfolding sub_ids_def p
  proof (intro conjI allI impI)
    fix j r' i'
    assume a: "(rxs(k := x)) j = Some r'" "parked_id (Some r') = Some i'"
    then have "j \<noteq> k" "rxs j = Some r'" using x by (auto split: if_splits)
    moreover from this have "i' \<noteq> i" using inj a(2) by metis
    ultimately show "(\<exists>w. (i', w) \<in> set (lwaiters (lot_of g'))) \<longleftrightarrow> \<not> sdone r' \<and> idle g' (cursor r')"
      using inv a(2) rm(3) g'(2) unfolding sub_inv_def sub_ids_def by auto
  next
    fix i' w
    assume "(i', w) \<in> set (lwaiters (lot_of g'))"
    then have "(i', w) \<in> set (lwaiters (lot_of g))" "i' \<noteq> i" using rm(3) by auto
    then obtain j where j: "parked_id (rxs j) = Some i'" using inv unfolding sub_inv_def sub_ids_def by blast
    then have "j \<noteq> k" using r \<open>i' \<noteq> i\<close> by auto
    then show "\<exists>j. (if j = k then None else parked_id (rxs j)) = Some i'" using j by auto
  qed (use inv rm(2) in \<open>auto simp: sub_inv_def sub_ids_def split: if_splits\<close>)
  moreover have "sub_pend (lot_of g') (rxs(k := x)) (pend(k := None)) woken"
    unfolding sub_pend_def
  proof (intro allI impI)
    fix j w m
    assume p: "(pend(k := None)) j = Some (w, m)"
    then have j: "j \<noteq> k" "pend j = Some (w, m)" by (auto split: if_splits)
    then obtain r' i' where r': "m \<le> length woken" "rxs j = Some r'" "\<not> sdone r'" "parked_id (Some r') = Some i'"
      "(i', w) \<in> set (lwaiters (lot_of g)) \<or> w \<in> set (drop m woken)" using sub_pendE [OF inv] by blast
    moreover have "i' \<noteq> i" using inj r' j(1) by metis
    ultimately show "m \<le> length woken \<and> (\<exists>r i. (rxs(k := x)) j = Some r \<and> \<not> sdone r \<and> parked_id (Some r) = Some i \<and>
        ((i, w) \<in> set (lwaiters (lot_of g')) \<or> w \<in> set (drop m woken)))" using j(1) rm(3) by auto
  qed
  ultimately show ?thesis using rm(1) by (simp add: sub_inv_def)
qed

lemma sub_forget:
  assumes inv: "sub_inv n g rxs pend woken" and r: "rxs k = Some r" "sfut r = Some f" and x: "parked_id x = None"
    and g': "lot_of g' = (if pparked f then fst (lot_remove (pid f) (lot_of g)) else lot_of g)" "idle g' = idle g"
  shows "sub_inv n g' (rxs(k := x)) (pend(k := None)) woken"
proof (cases "pparked f")
  case True
  then show ?thesis using assms by (intro sub_drop [OF inv]) auto
next
  case False
  have "pend k = None"
  proof (rule ccontr)
    assume "pend k \<noteq> None"
    then obtain w m where "pend k = Some (w, m)" by auto
    then show False by (rule sub_pendE [OF inv]) (use r False in auto)
  qed
  then have "sub_inv n g (rxs(k := x)) (pend(k := None)) woken"
    using sub_quiet [OF inv, of k x] r x False by (simp add: fun_upd_idem)
  then show ?thesis using sub_inv_cong g' False by simp
qed

text \<open>The three ways a poll can go.\<close>

lemma sub_poll_done:
  assumes inv: "sub_inv n g rxs pend woken" and r: "rxs k = Some r" "sfut r = Some f" "\<not> idle g (cursor r)"
  shows "sub_inv n g (rxs(k \<mapsto> r\<lparr>cursor := c, sfut := Some f, sdone := True\<rparr>)) (pend(k := None)) woken"
proof -
  let ?rxs = "rxs(k \<mapsto> r\<lparr>cursor := c, sfut := Some f, sdone := True\<rparr>)"
  have p: "parked_id (?rxs j) = parked_id (rxs j)" for j using r by simp
  have q: "\<not> (\<exists>w. (i, w) \<in> set (lwaiters (lot_of g)))" if "parked_id (Some r) = Some i" for i
    using inv r that unfolding sub_inv_def sub_ids_def by blast
  have "sub_ids (idle g) (lot_of g) ?rxs"
    unfolding sub_ids_def p
  proof (intro conjI allI impI)
    fix j r' i
    assume a: "?rxs j = Some r'" "parked_id (Some r') = Some i"
    show "(\<exists>w. (i, w) \<in> set (lwaiters (lot_of g))) \<longleftrightarrow> \<not> sdone r' \<and> idle g (cursor r')"
    proof (cases "j = k")
      case True
      then have "parked_id (Some r) = Some i" "sdone r'" using a r by (auto split: if_splits)
      then show ?thesis using q by blast
    qed (use a inv in \<open>simp add: sub_inv_def sub_ids_def\<close>)
  qed (use inv in \<open>auto simp: sub_inv_def sub_ids_def\<close>)
  moreover have "sub_pend (lot_of g) ?rxs (pend(k := None)) woken"
    using inv unfolding sub_inv_def sub_pend_def by simp
  ultimately show ?thesis using inv by (simp add: sub_inv_def)
qed

lemma sub_poll_refresh:
  assumes inv: "sub_inv n g rxs pend woken" and r: "rxs k = Some r" "sfut r = Some f" "pparked f" "\<not> sdone r"
      "idle g (cursor r)"
    and g': "lot_of g' = lot_refresh (pid f) w (lot_of g)" "idle g' = idle g"
  shows "sub_inv n g' rxs (pend(k \<mapsto> (w, length woken))) woken"
proof -
  note ok = sub_inv_lot [OF inv]
  have l: "lot_ok n (lot_of g')" "lnext (lot_of g') = lnext (lot_of g)"
    using pl.refresh_ok [OF ok, of "pid f" w] g' by simp_all
  obtain v where v: "(pid f, v) \<in> set (lwaiters (lot_of g))"
    using inv r unfolding sub_inv_def sub_ids_def by fastforce
  have e: "(\<exists>u. (i, u) \<in> set (lwaiters (lot_of g'))) \<longleftrightarrow> (\<exists>u. (i, u) \<in> set (lwaiters (lot_of g)))" for i
    using pl.refresh_other [OF ok, of i "pid f"] pl.refresh_entry [OF ok v, of w] v g'(1) by (cases "i = pid f") auto
  have "sub_ids (idle g') (lot_of g') rxs"
    using inv l(2) g'(2) e unfolding sub_inv_def sub_ids_def by (simp add: e)
  moreover have "sub_pend (lot_of g') rxs (pend(k \<mapsto> (w, length woken))) woken"
    unfolding sub_pend_def
  proof (intro allI impI)
    fix j u m
    assume p: "(pend(k \<mapsto> (w, length woken))) j = Some (u, m)"
    show "m \<le> length woken \<and> (\<exists>r i. rxs j = Some r \<and> \<not> sdone r \<and> parked_id (Some r) = Some i \<and>
        ((i, u) \<in> set (lwaiters (lot_of g')) \<or> u \<in> set (drop m woken)))"
    proof (cases "j = k")
      case True
      then show ?thesis using p r pl.refresh_entry [OF ok v, of w] g'(1) by simp
    next
      case False
      then have pj: "pend j = Some (u, m)" using p by simp
      obtain r' i where r': "m \<le> length woken" "rxs j = Some r'" "\<not> sdone r'" "parked_id (Some r') = Some i"
        "(i, u) \<in> set (lwaiters (lot_of g)) \<or> u \<in> set (drop m woken)"
        by (rule sub_pendE [OF inv pj])
      moreover have "i \<noteq> pid f" using inv r r' False unfolding sub_inv_def sub_ids_def by fastforce
      ultimately show ?thesis using pl.refresh_other [OF ok, of i "pid f" u w] g'(1) by auto
    qed
  qed
  ultimately show ?thesis using l(1) by (simp add: sub_inv_def)
qed

lemma sub_poll_park:
  assumes inv: "sub_inv n g rxs pend woken" and n: "Suc n < 2 ^ 64"
    and r: "rxs k = Some r" "parked_id (Some r) = None" "\<not> sdone r" "idle g (cursor r)"
    and g': "lot_of g' = fst (lot_park w (lot_of g))" "idle g' = idle g"
  shows "sub_inv (Suc n) g' (rxs(k \<mapsto> r\<lparr>sfut := Some \<lparr>pid = lnext (lot_of g), pparked = True\<rparr>\<rparr>))
    (pend(k \<mapsto> (w, length woken))) woken"
proof -
  let ?i = "lnext (lot_of g)" and ?r = "r\<lparr>sfut := Some \<lparr>pid = lnext (lot_of g), pparked = True\<rparr>\<rparr>"
  note ok = sub_inv_lot [OF inv]
  have l: "lot_ok (Suc n) (lot_of g')" "lwaiters (lot_of g') = lwaiters (lot_of g) @ [(?i, w)]"
      "unat (lnext (lot_of g')) = Suc (unat ?i)"
    using pl.park_ok [OF ok n, of w] g' by simp_all
  have p: "parked_id ((rxs(k \<mapsto> ?r)) j) = (if j = k then Some ?i else parked_id (rxs j))" for j by simp
  have fresh: "parked_id (rxs j) = Some i \<Longrightarrow> unat i < unat ?i" for i j
    using inv unfolding sub_inv_def sub_ids_def by blast
  have "sub_ids (idle g') (lot_of g') (rxs(k \<mapsto> ?r))"
    unfolding sub_ids_def p
  proof (intro conjI allI impI)
    fix j r' i
    assume a: "(rxs(k \<mapsto> ?r)) j = Some r'" "parked_id (Some r') = Some i"
    show "(\<exists>u. (i, u) \<in> set (lwaiters (lot_of g'))) \<longleftrightarrow> \<not> sdone r' \<and> idle g' (cursor r')"
    proof (cases "j = k")
      case False
      then have "rxs j = Some r'" using a(1) by simp
      moreover from this have "i \<noteq> ?i" using fresh [of j i] a(2) by auto
      ultimately show ?thesis using inv a(2) l(2) g'(2) unfolding sub_inv_def sub_ids_def by auto
    qed (use a r l(2) g'(2) in auto)
  next
    fix i u
    assume "(i, u) \<in> set (lwaiters (lot_of g'))"
    then consider "i = ?i" | "(i, u) \<in> set (lwaiters (lot_of g))" using l(2) by auto
    then show "\<exists>j. (if j = k then Some ?i else parked_id (rxs j)) = Some i"
    proof cases
      case 2
      then obtain j where "parked_id (rxs j) = Some i" using inv unfolding sub_inv_def sub_ids_def by blast
      then show ?thesis using r(1,2) by (intro exI [of _ j]) auto
    qed auto
  next
    fix j j' i
    assume "(if j = k then Some ?i else parked_id (rxs j)) = Some i"
      "(if j' = k then Some ?i else parked_id (rxs j')) = Some i"
    then show "j = j'" using inv fresh unfolding sub_inv_def sub_ids_def by (fastforce split: if_splits)
  qed (use fresh l(3) in \<open>force split: if_splits\<close>)
  moreover have "sub_pend (lot_of g') (rxs(k \<mapsto> ?r)) (pend(k \<mapsto> (w, length woken))) woken"
    unfolding sub_pend_def
  proof (intro allI impI)
    fix j u m
    assume p: "(pend(k \<mapsto> (w, length woken))) j = Some (u, m)"
    show "m \<le> length woken \<and> (\<exists>r i. (rxs(k \<mapsto> ?r)) j = Some r \<and> \<not> sdone r \<and> parked_id (Some r) = Some i \<and>
        ((i, u) \<in> set (lwaiters (lot_of g')) \<or> u \<in> set (drop m woken)))"
    proof (cases "j = k")
      case False
      then have pj: "pend j = Some (u, m)" using p by simp
      obtain r' i where "m \<le> length woken" "rxs j = Some r'" "\<not> sdone r'" "parked_id (Some r') = Some i"
        "(i, u) \<in> set (lwaiters (lot_of g)) \<or> u \<in> set (drop m woken)"
        by (rule sub_pendE [OF inv pj])
      then show ?thesis using False l(2) by auto
    qed (use p r l(2) in simp)
  qed
  ultimately show ?thesis using l(1) by (simp add: sub_inv_def)
qed

text \<open>Together: a poll of a future that has not returned ready.\<close>

lemma sub_poll:
  assumes inv: "sub_inv n g rxs pend woken" and n: "Suc n < 2 ^ 64"
    and r: "rxs k = Some r" "sfut r = Some f" "\<not> sdone r" and p: "poll w (cursor r) f g = (g', c', f', res)"
  shows "sub_inv (Suc n) g' (rxs(k \<mapsto> r\<lparr>cursor := c', sfut := Some f', sdone := \<not> pending res\<rparr>))
    (pend(k := if pending res then Some (w, length woken) else None)) woken"
proof (cases "idle g (cursor r)")
  case False
  with poll_ready [OF _ p] have "g' = g" "f' = f" "\<not> pending res" by auto
  then show ?thesis using sub_inv_mono [OF sub_poll_done [OF inv r(1,2) False]] by simp
next
  case idle: True
  show ?thesis
  proof (cases "pparked f")
    case True
    with poll_refresh [OF idle _ p]
    have e: "c' = cursor r" "f' = f" "pending res" "lot_of g' = lot_refresh (pid f) w (lot_of g)" "idle g' = idle g" by auto
    have "rxs(k \<mapsto> r\<lparr>cursor := c', sfut := Some f', sdone := \<not> pending res\<rparr>) = rxs" using r e by auto
    then show ?thesis using sub_inv_mono [OF sub_poll_refresh [OF inv r(1,2) True r(3) idle e(4,5)]] e(3) by simp
  next
    case False
    with poll_park [OF idle _ sub_inv_lot [OF inv] n p]
    have e: "c' = cursor r" "f' = \<lparr>pid = lnext (lot_of g), pparked = True\<rparr>" "pending res"
      "lot_of g' = fst (lot_park w (lot_of g))" "idle g' = idle g" by auto
    have q: "parked_id (Some r) = None" using r False by simp
    have "r\<lparr>cursor := c', sfut := Some f', sdone := \<not> pending res\<rparr> = r\<lparr>sfut := Some f'\<rparr>" using r e by simp
    then show ?thesis using sub_poll_park [OF inv n r(1) q r(3) idle e(4,5)] e(2,3) by simp
  qed
qed

end

end
