(* ===== verification/Watch.thy ===== *)
theory Watch
  imports Subscribers
begin

text \<open>
  The watch channel: model of \<^verbatim>\<open>lion-utility/src/sync/watch_kernel.rs\<close> and \<^verbatim>\<open>lion-utility/src/sync/watch.rs\<close>.
  One sender publishes values, every receiver sees that there is a newer one than the version it has
  seen.  The functions of the source that call user code (\<open>send_modify\<close>, \<open>wait_for\<close>) take it as a
  parameter, a function on the value.
\<close>

section \<open>The kernel\<close>

record watch_kernel =
  version :: u64
  vsent :: nat

definition w_wf :: "watch_kernel \<Rightarrow> bool" where
  "w_wf k \<longleftrightarrow> unat (version k) = 1 + vsent k"

definition watch_kernel_new :: watch_kernel where
  "watch_kernel_new = \<lparr>version = 1, vsent = 0\<rparr>"

definition wsend_step :: "watch_kernel \<Rightarrow> watch_kernel" where
  "wsend_step k = k\<lparr>version := version k + 1, vsent := vsent k + 1\<rparr>"

lemma wsend_step_wf:
  assumes "w_wf k" "unat (version k) < 2 ^ 64 - 1"
  shows "w_wf (wsend_step k) \<and> unat (version (wsend_step k)) = Suc (unat (version k))"
  using assms unat_add_u64 [of "version k" 1] by (simp add: w_wf_def wsend_step_def)

section \<open>The channel\<close>

record ('t, 'w) watch =
  wlot :: "'w lot"
  wvalue :: 't
  wkern :: watch_kernel
  wtx_dropped :: bool

datatype changed_result = COk | CErr | CPending

definition watch_channel :: "'t \<Rightarrow> ('t, 'w) watch" where
  "watch_channel v = \<lparr>wlot = lot_new, wvalue = v, wkern = watch_kernel_new, wtx_dropped = False\<rparr>"

definition watch_wake_all :: "('t, 'w) watch \<Rightarrow> ('t, 'w) watch \<times> 'w list" where
  "watch_wake_all g = (case lot_wake_all (wlot g) of (l, ws) \<Rightarrow> (g\<lparr>wlot := l\<rparr>, ws))"

definition watch_send :: "'t \<Rightarrow> ('t, 'w) watch \<Rightarrow> ('t, 'w) watch \<times> 'w list" where
  "watch_send v g = watch_wake_all (g\<lparr>wvalue := v, wkern := wsend_step (wkern g)\<rparr>)"

definition send_replace :: "'t \<Rightarrow> ('t, 'w) watch \<Rightarrow> ('t, 'w) watch \<times> 't \<times> 'w list" where
  "send_replace v g =
     (case watch_wake_all (g\<lparr>wvalue := v, wkern := wsend_step (wkern g)\<rparr>) of (g1, ws) \<Rightarrow> (g1, wvalue g, ws))"

definition send_modify :: "('t \<Rightarrow> 't) \<Rightarrow> ('t, 'w) watch \<Rightarrow> ('t, 'w) watch \<times> 'w list" where
  "send_modify f g = watch_wake_all (g\<lparr>wvalue := f (wvalue g), wkern := wsend_step (wkern g)\<rparr>)"

definition watch_sender_drop :: "('t, 'w) watch \<Rightarrow> ('t, 'w) watch \<times> 'w list" where
  "watch_sender_drop g = watch_wake_all (g\<lparr>wtx_dropped := True\<rparr>)"

definition has_changed :: "u64 \<Rightarrow> ('t, 'w) watch \<Rightarrow> bool option" where
  "has_changed seen g =
     (if wtx_dropped g \<and> version (wkern g) = seen then None else Some (version (wkern g) \<noteq> seen))"

text \<open>The new seen version and the value read.\<close>

definition borrow_and_update :: "('t, 'w) watch \<Rightarrow> u64 \<times> 't" where
  "borrow_and_update g = (version (wkern g), wvalue g)"

function changed_poll ::
  "'w \<Rightarrow> u64 \<Rightarrow> park_fut \<Rightarrow> ('t, 'w) watch \<Rightarrow> ('t, 'w) watch \<times> u64 \<times> park_fut \<times> changed_result" where
  "changed_poll w seen f g =
     (if version (wkern g) \<noteq> seen then (g, version (wkern g), f, COk)
      else if wtx_dropped g then (g, seen, f, CErr)
      else if pparked f then (g\<lparr>wlot := lot_refresh (pid f) w (wlot g)\<rparr>, seen, f, CPending)
      else case lot_park w (wlot g) of
        (l, None) \<Rightarrow> changed_poll w seen f (g\<lparr>wlot := l\<rparr>)
      | (l, Some i) \<Rightarrow> (g\<lparr>wlot := l\<rparr>, seen, \<lparr>pid = i, pparked = True\<rparr>, CPending))"
  by pat_completeness auto
termination
  by (relation "measure (\<lambda>(w, seen, f, g). unat (permit (lkernel (wlot g))))") (auto dest: lot_park_None [OF sym])

declare changed_poll.simps [simp del]

definition changed_drop :: "park_fut \<Rightarrow> ('t, 'w) watch \<Rightarrow> ('t, 'w) watch" where
  "changed_drop f g = (if pparked f then g\<lparr>wlot := lot_withdraw (pid f) (wlot g)\<rparr> else g)"

text \<open>
  \<open>wait_for\<close> is an async function: the section under the lock that tests the predicate, then, when it
  fails, an await of \<open>changed()\<close>; and, when it holds, a second section under the lock.
\<close>

datatype wait_check = Matched | Failed | Await

definition wait_for_check :: "('t \<Rightarrow> bool) \<Rightarrow> ('t, 'w) watch \<Rightarrow> wait_check" where
  "wait_for_check p g = (if p (wvalue g) then Matched else if wtx_dropped g then Failed else Await)"

definition wait_for_finish :: "('t, 'w) watch \<Rightarrow> u64 \<times> 't" where
  "wait_for_finish g = (version (wkern g), wvalue g)"

section \<open>The channel is a subscription\<close>

definition watch_idle :: "('t, 'w) watch \<Rightarrow> u64 \<Rightarrow> bool" where
  "watch_idle g c \<longleftrightarrow> version (wkern g) = c \<and> \<not> wtx_dropped g"

interpretation ws: subscription wlot watch_idle changed_poll "\<lambda>res. res = CPending"
proof unfold_locales
  fix g g' :: "('t, 'w) watch" and c c' w f f' res n
  assume p: "changed_poll w c f g = (g', c', f', res)"
  show "\<not> watch_idle g c \<Longrightarrow> g' = g \<and> f' = f \<and> res \<noteq> CPending"
    using p by (auto simp: changed_poll.simps [of w c f g] watch_idle_def split: if_splits)
  show "watch_idle g c \<Longrightarrow> pparked f \<Longrightarrow> c' = c \<and> f' = f \<and> res = CPending \<and>
      wlot g' = lot_refresh (pid f) w (wlot g) \<and> watch_idle g' = watch_idle g"
    using p by (auto simp: changed_poll.simps [of w c f g] watch_idle_def)
  assume a: "watch_idle g c" "\<not> pparked f" "lot_ok n (wlot g)" "Suc n < 2 ^ 64"
  show "c' = c \<and> f' = \<lparr>pid = lnext (wlot g), pparked = True\<rparr> \<and> res = CPending \<and>
      wlot g' = fst (lot_park w (wlot g)) \<and> watch_idle g' = watch_idle g"
    using p a pl.park_ok [OF a(3,4), of w]
    by (auto simp: changed_poll.simps [of w c f g] watch_idle_def split: prod.splits option.splits)
qed

section \<open>Runs\<close>

datatype ('t, 'w) watch_op =
    WSend 't
  | WSendReplace 't
  | WSendModify "'t \<Rightarrow> 't"
  | WDropTx
  | WSubscribe nat
  | WClone nat nat
  | WUpdate nat
  | WChanged nat
  | WPoll nat 'w
  | WDropChanged nat
  | WDropRx nat

text \<open>The channel, whether the sender lives, the receivers with their futures, the wakes, and all values published.\<close>

record ('t, 'w) wclient =
  wch :: "('t, 'w) watch"
  wtx :: bool
  wrxs :: subscribers
  wpend :: "nat \<rightharpoonup> 'w \<times> nat"
  wwoken :: "'w list"
  whist :: "'t list"

definition wclient_new :: "'t \<Rightarrow> ('t, 'w) wclient" where
  "wclient_new v = \<lparr>wch = watch_channel v, wtx = True, wrxs = [0 \<mapsto> subscriber_at 1], wpend = Map.empty, wwoken = [], whist = [v]\<rparr>"

fun w_enabled :: "('t, 'w) watch_op \<Rightarrow> ('t, 'w) wclient \<Rightarrow> bool" where
  "w_enabled (WSend v) c = wtx c"
| "w_enabled (WSendReplace v) c = wtx c"
| "w_enabled (WSendModify f) c = wtx c"
| "w_enabled WDropTx c = wtx c"
| "w_enabled (WSubscribe k) c = (wtx c \<and> wrxs c k = None)"
| "w_enabled (WClone k j) c = (free_rx (wrxs c) k \<and> wrxs c j = None)"
| "w_enabled (WUpdate k) c = free_rx (wrxs c) k"
| "w_enabled (WChanged k) c = free_rx (wrxs c) k"
| "w_enabled (WPoll k w) c = (has_fut (wrxs c) k \<and> \<not> sdone (the (wrxs c k)))"
| "w_enabled (WDropChanged k) c = has_fut (wrxs c) k"
| "w_enabled (WDropRx k) c = free_rx (wrxs c) k"

definition w_publish :: "('t, 'w) watch \<times> 'w list \<Rightarrow> ('t, 'w) wclient \<Rightarrow> ('t, 'w) wclient" where
  "w_publish gw c = c\<lparr>wch := fst gw, wwoken := wwoken c @ snd gw, whist := whist c @ [wvalue (fst gw)]\<rparr>"

fun w_exec :: "('t, 'w) watch_op \<Rightarrow> ('t, 'w) wclient \<Rightarrow> ('t, 'w) wclient" where
  "w_exec (WSend v) c = w_publish (watch_send v (wch c)) c"
| "w_exec (WSendReplace v) c = (case send_replace v (wch c) of (g, old, ws) \<Rightarrow> w_publish (g, ws) c)"
| "w_exec (WSendModify f) c = w_publish (send_modify f (wch c)) c"
| "w_exec WDropTx c =
     (case watch_sender_drop (wch c) of (g, ws) \<Rightarrow> c\<lparr>wch := g, wtx := False, wwoken := wwoken c @ ws\<rparr>)"
| "w_exec (WSubscribe k) c = c\<lparr>wrxs := (wrxs c)(k \<mapsto> subscriber_at (version (wkern (wch c))))\<rparr>"
| "w_exec (WClone k j) c = c\<lparr>wrxs := (wrxs c)(j \<mapsto> subscriber_at (cursor (the (wrxs c k))))\<rparr>"
| "w_exec (WUpdate k) c = c\<lparr>wrxs := (wrxs c)(k \<mapsto> subscriber_at (fst (borrow_and_update (wch c))))\<rparr>"
| "w_exec (WChanged k) c = c\<lparr>wrxs := (wrxs c)(k \<mapsto> (the (wrxs c k))\<lparr>sfut := Some park_fut_new, sdone := False\<rparr>)\<rparr>"
| "w_exec (WPoll k w) c =
     (case changed_poll w (cursor (the (wrxs c k))) (the (sfut (the (wrxs c k)))) (wch c) of (g, seen, f, res) \<Rightarrow>
        c\<lparr>wch := g,
          wrxs := (wrxs c)(k \<mapsto> (the (wrxs c k))\<lparr>cursor := seen, sfut := Some f, sdone := \<not> res = CPending\<rparr>),
          wpend := (wpend c)(k := if res = CPending then Some (w, length (wwoken c)) else None)\<rparr>)"
| "w_exec (WDropChanged k) c =
     c\<lparr>wch := changed_drop (the (sfut (the (wrxs c k)))) (wch c),
       wrxs := (wrxs c)(k \<mapsto> subscriber_at (cursor (the (wrxs c k)))), wpend := (wpend c)(k := None)\<rparr>"
| "w_exec (WDropRx k) c = c\<lparr>wrxs := (wrxs c)(k := None)\<rparr>"

fun w_run :: "('t, 'w) watch_op list \<Rightarrow> ('t, 'w) wclient \<Rightarrow> ('t, 'w) wclient option" where
  "w_run [] c = Some c"
| "w_run (op # ops) c = (if w_enabled op c then w_run ops (w_exec op c) else None)"

section \<open>The invariant\<close>

definition w_data :: "nat \<Rightarrow> ('t, 'w) wclient \<Rightarrow> bool" where
  "w_data n c \<longleftrightarrow> w_wf (wkern (wch c)) \<and> unat (version (wkern (wch c))) \<le> Suc n \<and>
     length (whist c) = unat (version (wkern (wch c))) \<and> wvalue (wch c) = last (whist c) \<and> (wtx c \<longleftrightarrow> \<not> wtx_dropped (wch c)) \<and>
     (\<forall>k r. wrxs c k = Some r \<longrightarrow> unat (cursor r) \<le> unat (version (wkern (wch c))))"

definition w_inv :: "nat \<Rightarrow> ('t, 'w) wclient \<Rightarrow> bool" where
  "w_inv n c \<longleftrightarrow> w_data n c \<and> ws.sub_inv n (wch c) (wrxs c) (wpend c) (wwoken c)"

lemma w_inv_new: "w_inv 0 (wclient_new v)"
  by (simp add: w_inv_def w_data_def wclient_new_def ws.sub_inv_def sub_ids_def sub_pend_def watch_channel_def
    w_wf_def watch_kernel_new_def)
   (simp add: subscriber_at_def lot_new_def)

lemma w_data_mono: "w_data n c \<Longrightarrow> w_data (Suc n) c"
  by (simp add: w_data_def)

text \<open>Every way to publish is the same step.\<close>

lemma watch_wake_all_fields:
  "wvalue (fst (watch_wake_all g)) = wvalue g" "wkern (fst (watch_wake_all g)) = wkern g"
  "wtx_dropped (fst (watch_wake_all g)) = wtx_dropped g" "wlot (fst (watch_wake_all g)) = fst (lot_wake_all (wlot g))"
  "snd (watch_wake_all g) = snd (lot_wake_all (wlot g))"
  by (simp_all add: watch_wake_all_def split: prod.splits)

lemma w_inv_publish:
  assumes inv: "w_inv n c" and n: "Suc (Suc n) < 2 ^ 64"
    and gw: "gw = watch_wake_all ((wch c)\<lparr>wvalue := v, wkern := wsend_step (wkern (wch c))\<rparr>)"
  shows "w_inv (Suc n) (w_publish gw c)"
proof -
  let ?k = "wsend_step (wkern (wch c))"
  have d: "w_data n c" and s: "ws.sub_inv (Suc n) (wch c) (wrxs c) (wpend c) (wwoken c)"
    using inv by (auto simp: w_inv_def intro: ws.sub_inv_Suc)
  have k: "w_wf ?k" "unat (version ?k) = Suc (unat (version (wkern (wch c))))"
    using wsend_step_wf [of "wkern (wch c)"] d n by (auto simp: w_data_def)
  have "wrxs c j = Some r \<Longrightarrow> cursor r \<noteq> version ?k" for j r using d k by (fastforce simp: w_data_def)
  then have news: "wrxs c j = Some r \<Longrightarrow> \<not> watch_idle (fst gw) (cursor r)" for j r
    using gw by (metis watch_idle_def watch_wake_all_fields(2) watch.select_convs(3) watch.surjective watch.update_convs(3))
  have "ws.sub_inv (Suc n) (fst gw) (wrxs c) (wpend c) (wwoken c @ snd gw)"
    by (rule ws.sub_broadcast [OF s, of "wlot (fst gw)"]) (use gw news in \<open>auto simp: watch_wake_all_fields\<close>)
  moreover have "w_data (Suc n) (w_publish gw c)"
    using d k gw by (fastforce simp: w_data_def w_publish_def watch_wake_all_fields)
  ultimately show ?thesis by (simp add: w_inv_def w_publish_def)
qed

lemma w_inv_drop_tx:
  assumes inv: "w_inv n c" "wtx c"
  shows "w_inv (Suc n) (w_exec WDropTx c)"
proof -
  obtain g ws where gw: "watch_sender_drop (wch c) = (g, ws)" by fastforce
  then have g: "fst (watch_wake_all ((wch c)\<lparr>wtx_dropped := True\<rparr>)) = g" "snd (watch_wake_all ((wch c)\<lparr>wtx_dropped := True\<rparr>)) = ws"
    by (simp_all add: watch_sender_drop_def)
  note f = watch_wake_all_fields [of "(wch c)\<lparr>wtx_dropped := True\<rparr>", unfolded g]
  have d: "w_data n c" and s: "ws.sub_inv (Suc n) (wch c) (wrxs c) (wpend c) (wwoken c)"
    using inv by (auto simp: w_inv_def intro: ws.sub_inv_Suc)
  have "ws.sub_inv (Suc n) g (wrxs c) (wpend c) (wwoken c @ ws)"
    by (rule ws.sub_broadcast [OF s, of "wlot g"]) (use f in \<open>auto simp: watch_idle_def\<close>)
  moreover have "w_data (Suc n) (c\<lparr>wch := g, wtx := False, wwoken := wwoken c @ ws\<rparr>)"
    using d f by (auto simp: w_data_def)
  ultimately show ?thesis by (simp add: w_inv_def gw)
qed

text \<open>A receiver without a parked future comes, changes, or goes.\<close>

lemma w_inv_quiet:
  assumes inv: "w_inv n c" and k: "parked_id (wrxs c k) = None" "parked_id x = None"
    and x: "\<And>r. x = Some r \<Longrightarrow> unat (cursor r) \<le> unat (version (wkern (wch c)))"
  shows "w_inv (Suc n) (c\<lparr>wrxs := (wrxs c)(k := x)\<rparr>)"
proof -
  have "ws.sub_inv (Suc n) (wch c) ((wrxs c)(k := x)) (wpend c) (wwoken c)"
    using inv k by (intro ws.sub_quiet) (auto simp: w_inv_def intro: ws.sub_inv_Suc)
  then show ?thesis using inv x by (auto simp: w_inv_def w_data_def)
qed

lemma w_inv_cursor: "w_inv n c \<Longrightarrow> wrxs c k = Some r \<Longrightarrow> unat (cursor r) \<le> unat (version (wkern (wch c)))"
  by (auto simp: w_inv_def w_data_def)

lemma changed_poll_fields:
  "changed_poll w seen f g = (g', seen', f', res) \<Longrightarrow>
     wkern g' = wkern g \<and> wvalue g' = wvalue g \<and> wtx_dropped g' = wtx_dropped g \<and> (seen' = seen \<or> seen' = version (wkern g))"
proof (induction w seen f g rule: changed_poll.induct)
  case (1 w seen f g)
  show ?case
  proof (cases "version (wkern g) = seen \<and> \<not> wtx_dropped g \<and> \<not> pparked f \<and> snd (lot_park w (wlot g)) = None")
    case True
    then obtain l where l: "lot_park w (wlot g) = (l, None)" by (metis prod.collapse)
    then have "changed_poll w seen f (g\<lparr>wlot := l\<rparr>) = (g', seen', f', res)"
      using 1(2) True by (subst (asm) changed_poll.simps) simp
    from 1(1) [OF _ _ _ _ _ this] True l show ?thesis by simp
  next
    case False
    then show ?thesis using 1(2) by (subst (asm) changed_poll.simps) (auto split: if_splits prod.splits option.splits)
  qed
qed

lemma w_inv_poll:
  assumes inv: "w_inv n c" and n: "Suc (Suc n) < 2 ^ 64" and en: "w_enabled (WPoll k w) c"
  shows "w_inv (Suc n) (w_exec (WPoll k w) c)"
proof -
  obtain r f where r: "wrxs c k = Some r" "sfut r = Some f" "\<not> sdone r"
    using en by (auto elim: has_futE)
  obtain g' s' f' res where p: "changed_poll w (cursor r) f (wch c) = (g', s', f', res)" by (metis prod_cases4)
  have n': "Suc n < 2 ^ 64" using n by simp
  have s: "ws.sub_inv n (wch c) (wrxs c) (wpend c) (wwoken c)" using inv by (simp add: w_inv_def)
  note f = changed_poll_fields [OF p]
  have "w_data (Suc n) (w_exec (WPoll k w) c)"
    using inv r p f w_inv_cursor [OF inv r(1)] by (auto simp: w_inv_def w_data_def)
  then show ?thesis using ws.sub_poll [OF s n' r p] r p by (simp add: w_inv_def)
qed

lemma w_inv_drop_changed:
  assumes inv: "w_inv n c" and en: "w_enabled (WDropChanged k) c"
  shows "w_inv (Suc n) (w_exec (WDropChanged k) c)"
proof -
  obtain r f where r: "wrxs c k = Some r" "sfut r = Some f" using en by (auto elim: has_futE)
  let ?x = "Some (subscriber_at (cursor r))" and ?g = "changed_drop f (wch c)"
  have s: "ws.sub_inv n (wch c) (wrxs c) (wpend c) (wwoken c)" using inv by (simp add: w_inv_def)
  have "ws.sub_inv n ?g ((wrxs c)(k := ?x)) ((wpend c)(k := None)) (wwoken c)"
    using r lot_withdraw_eq [OF ws.sub_inv_lot [OF s]]
    by (intro ws.sub_forget [OF s r]) (auto simp: changed_drop_def watch_idle_def)
  moreover have "w_data (Suc n) (w_exec (WDropChanged k) c)"
    using inv r w_inv_cursor [OF inv r(1)] by (auto simp: w_inv_def w_data_def changed_drop_def)
  ultimately show ?thesis using r by (auto simp: w_inv_def intro: ws.sub_inv_Suc)
qed


lemma w_inv_exec:
  assumes inv: "w_inv n c" and n: "Suc (Suc n) < 2 ^ 64" and en: "w_enabled op c"
  shows "w_inv (Suc n) (w_exec op c)"
proof (cases op)
  case (WSend v)
  then show ?thesis using w_inv_publish [OF inv n refl] by (simp add: watch_send_def)
next
  case (WSendReplace v)
  then show ?thesis using w_inv_publish [OF inv n refl, of v] by (simp add: send_replace_def case_prod_beta)
next
  case (WSendModify f)
  then show ?thesis using w_inv_publish [OF inv n refl] by (simp add: send_modify_def)
next
  case WDropTx
  then show ?thesis using w_inv_drop_tx [OF inv] en by simp
next
  case (WPoll k w)
  then show ?thesis using w_inv_poll [OF inv n] en by blast
next
  case (WDropChanged k)
  then show ?thesis using w_inv_drop_changed [OF inv] en by blast
qed (use en w_inv_cursor [OF inv] in \<open>auto intro!: w_inv_quiet [OF inv] elim!: free_rxE
      simp: borrow_and_update_def park_fut_new_def\<close>)

lemma w_inv_run: "w_run ops c = Some c' \<Longrightarrow> w_inv n c \<Longrightarrow> Suc (n + length ops) < 2 ^ 64 \<Longrightarrow> w_inv (n + length ops) c'"
proof (induction ops arbitrary: c n)
  case (Cons op ops)
  then have "w_inv (Suc n) (w_exec op c)" by (intro w_inv_exec) (auto split: if_splits)
  then show ?case using Cons.IH [of "w_exec op c" "Suc n"] Cons.prems by (simp split: if_splits)
qed simp

section \<open>Properties\<close>

text \<open>
  C32: After every run of a watch channel with fewer than 2^64 - 1 operations (sends in all their forms,
  subscriptions, clones, drops, polls and drops of \<open>changed()\<close>) the version counts the values published and
  the value is the last one.  A receiver whose version is older gets \<open>Ok\<close> from the next poll and has then
  seen the last value; and a \<open>changed()\<close> whose last poll returned pending is registered with the waker of
  that poll, its receiver is up to date and the sender lives, or that waker has been woken since.
\<close>

theorem watch_no_missed_update:
  assumes "w_run ops (wclient_new v) = Some c" "length ops < 2 ^ 64 - 1"
  shows "wvalue (wch c) = last (whist c) \<and> unat (version (wkern (wch c))) = length (whist c) \<and>
    (\<forall>k r f w. wrxs c k = Some r \<longrightarrow> sfut r = Some f \<longrightarrow> unat (cursor r) < length (whist c) \<longrightarrow>
       changed_poll w (cursor r) f (wch c) = (wch c, of_nat (length (whist c)), f, COk)) \<and>
    (\<forall>k w m. wpend c k = Some (w, m) \<longrightarrow>
       (\<exists>r f. wrxs c k = Some r \<and> sfut r = Some f \<and> (pid f, w) \<in> set (lwaiters (wlot (wch c))) \<and>
          unat (cursor r) = length (whist c) \<and> wtx c) \<or> w \<in> set (drop m (wwoken c)))"
proof -
  have inv: "w_inv (length ops) c" using w_inv_run [OF assms(1) w_inv_new] assms(2) by simp
  then have d: "w_data (length ops) c" and s: "ws.sub_inv (length ops) (wch c) (wrxs c) (wpend c) (wwoken c)"
    by (auto simp: w_inv_def)
  have ver: "unat (version (wkern (wch c))) = length (whist c)" "version (wkern (wch c)) = of_nat (length (whist c))"
    using d by (simp_all add: w_data_def)
  have "(\<exists>r f. wrxs c k = Some r \<and> sfut r = Some f \<and> (pid f, w) \<in> set (lwaiters (wlot (wch c))) \<and>
      unat (cursor r) = length (whist c) \<and> wtx c) \<or> w \<in> set (drop m (wwoken c))" if p: "wpend c k = Some (w, m)" for k w m
    using ws.sub_pending [OF s p] d ver(1)
    by (auto simp: watch_idle_def w_data_def parked_id_def split: option.splits if_splits)
  moreover have "changed_poll w (cursor r) f (wch c) = (wch c, of_nat (length (whist c)), f, COk)"
    if "unat (cursor r) < length (whist c)" for r :: subscriber and f w
    using that ver by (auto simp: changed_poll.simps [of w "cursor r" f "wch c"])
  ultimately show ?thesis using d ver by (simp add: w_data_def)
qed

text \<open>Witness: a receiver waits, a value is published.\<close>

lemma changed_poll_park:
  "version (wkern g) = seen \<Longrightarrow> \<not> wtx_dropped g \<Longrightarrow> \<not> pparked f \<Longrightarrow> permit (lkernel (wlot g)) = 0 \<Longrightarrow>
     changed_poll w seen f g = (g\<lparr>wlot := fst (lot_park w (wlot g))\<rparr>, seen, \<lparr>pid = lnext (wlot g), pparked = True\<rparr>, CPending)"
  by (simp add: changed_poll.simps [of w seen f g] lot_park_def wait_step_def)

theorem watch_no_missed_update_witness:
  "\<exists>c. w_run [WChanged 0, WPoll 0 (7::nat), WSend (42::nat)] (wclient_new 5) = Some c \<and> wwoken c = [7] \<and>
     wvalue (wch c) = 42 \<and> unat (version (wkern (wch c))) = 2"
proof -
  obtain c where c: "w_run [WChanged 0, WPoll 0 (7::nat), WSend (42::nat)] (wclient_new 5) = Some c" "wwoken c = [7]"
    "whist c = [5, 42]"
    by (simp add: wclient_new_def watch_channel_def watch_kernel_new_def lot_new_def waiter_new_def free_rx_def has_fut_def
      subscriber_at_def park_fut_new_def changed_poll_park lot_park_def wait_step_def watch_send_def watch_wake_all_def
      wsend_step_def w_publish_def lot_wake_all.simps signal_step_def vec_remove_def)
  from watch_no_missed_update [OF c(1)] c show ?thesis by auto
qed

text \<open>
  \<open>wait_for\<close> gives up the lock between the test of its predicate and the read of the result.  For every
  channel whose value satisfies the predicate and every value that does not, a send in between makes
  \<open>wait_for\<close> return the value that does not satisfy the predicate, and mark it as seen, so that no later
  \<open>changed()\<close> reports it.
\<close>

theorem watch_wait_for_race:
  assumes "p (wvalue g)" "\<not> p v" and send: "watch_send v g = (g', ws)"
  shows "wait_for_check p g = Matched \<and> \<not> p (snd (wait_for_finish g')) \<and>
    has_changed (fst (wait_for_finish g')) g' \<noteq> Some True"
proof -
  have "wvalue g' = v" using send watch_wake_all_fields(1) [of "g\<lparr>wvalue := v, wkern := wsend_step (wkern g)\<rparr>"]
    by (simp add: watch_send_def)
  then show ?thesis using assms by (simp add: wait_for_check_def wait_for_finish_def has_changed_def)
qed

text \<open>Witness: waiting for an even value.\<close>

theorem watch_wait_for_race_witness:
  "\<exists>g'. watch_send (3::nat) (watch_channel 2 :: (nat, nat) watch) = (g', []) \<and>
     wait_for_check even (watch_channel 2 :: (nat, nat) watch) = Matched \<and> odd (snd (wait_for_finish g'))"
proof -
  have e: "watch_send (3::nat) (watch_channel 2 :: (nat, nat) watch) =
      ((watch_channel 2)\<lparr>wvalue := 3, wkern := wsend_step watch_kernel_new\<rparr>, [])"
    by (simp add: watch_send_def watch_wake_all_def watch_channel_def lot_new_def lot_wake_all.simps waiter_new_def)
  from watch_wait_for_race [OF _ _ e, of even] e show ?thesis by (simp add: watch_channel_def)
qed

end
