(* ===== verification/Broadcast.thy ===== *)
theory Broadcast
  imports Subscribers
begin

text \<open>
  The broadcast channel: model of \<^verbatim>\<open>lion-utility/src/sync/broadcast_kernel.rs\<close> and
  \<^verbatim>\<open>lion-utility/src/sync/broadcast.rs\<close>.  Every receiver reads every value from its cursor on; the ring keeps the
  last \<open>capacity\<close> values and a receiver that falls behind is told by how many.  The number of handles that
  \<open>Arc::strong_count\<close> reports is an argument of \<open>broadcast_send\<close>.
\<close>

section \<open>The kernel\<close>

datatype brecv = BLagged u64 u64 | BReady u64 | BPark

record broadcast_kernel =
  next_seq :: u64
  buffered :: u64
  capacity :: u64

definition b_wf :: "broadcast_kernel \<Rightarrow> bool" where
  "b_wf k \<longleftrightarrow> unat (buffered k) \<le> unat (capacity k) \<and> unat (buffered k) \<le> unat (next_seq k)"

definition broadcast_kernel_new :: "u64 \<Rightarrow> broadcast_kernel" where
  "broadcast_kernel_new cap = \<lparr>next_seq = 0, buffered = 0, capacity = cap\<rparr>"

definition bsend_step :: "broadcast_kernel \<Rightarrow> broadcast_kernel \<times> u64" where
  "bsend_step k =
     (let k1 = k\<lparr>next_seq := next_seq k + 1\<rparr>;
          k2 = (if buffered k1 < capacity k1 then k1\<lparr>buffered := buffered k1 + 1\<rparr> else k1)
      in (k2, next_seq k))"

definition brecv_step :: "u64 \<Rightarrow> broadcast_kernel \<Rightarrow> brecv" where
  "brecv_step c k =
     (let oldest = next_seq k - buffered k
      in if c < oldest then BLagged (oldest - c) oldest else if c < next_seq k then BReady c else BPark)"

section \<open>The channel\<close>

record ('t, 'w) broadcast =
  blot :: "'w lot"
  bkern :: broadcast_kernel
  bbuffer :: "('t \<times> u64) list"
  bclosed :: bool
  bsender_count :: nat

datatype 't bresult = BValue 't | BErrClosed | BErrLagged u64 | BPending | BPanic

definition broadcast_channel :: "nat \<Rightarrow> ('t, 'w) broadcast option" where
  "broadcast_channel cap =
     (if 0 < cap then Some \<lparr>blot = lot_new, bkern = broadcast_kernel_new (of_nat cap), bbuffer = [], bclosed = False,
        bsender_count = 1\<rparr>
      else None)"

definition broadcast_wake_all :: "('t, 'w) broadcast \<Rightarrow> ('t, 'w) broadcast \<times> 'w list" where
  "broadcast_wake_all g = (case lot_wake_all (blot g) of (l, ws) \<Rightarrow> (g\<lparr>blot := l\<rparr>, ws))"

definition push_slot :: "'t \<Rightarrow> ('t, 'w) broadcast \<Rightarrow> ('t, 'w) broadcast" where
  "push_slot v g =
     (case bsend_step (bkern g) of (k, seq) \<Rightarrow>
        g\<lparr>bkern := k,
          bbuffer := (if length (bbuffer g) = unat (capacity k) then tl (bbuffer g) else bbuffer g) @ [(v, seq)]\<rparr>)"

definition broadcast_send :: "nat \<Rightarrow> 't \<Rightarrow> ('t, 'w) broadcast \<Rightarrow> ('t, 'w) broadcast \<times> nat option \<times> 'w list" where
  "broadcast_send arcs v g =
     (if bclosed g then (g, None, [])
      else case broadcast_wake_all (push_slot v g) of (g1, ws) \<Rightarrow> (g1, Some (arcs - 1), ws))"

definition clone_tx :: "('t, 'w) broadcast \<Rightarrow> ('t, 'w) broadcast" where
  "clone_tx g = g\<lparr>bsender_count := bsender_count g + 1\<rparr>"

definition drop_tx :: "('t, 'w) broadcast \<Rightarrow> ('t, 'w) broadcast \<times> 'w list" where
  "drop_tx g =
     (let g1 = g\<lparr>bsender_count := bsender_count g - 1\<rparr>
      in if bsender_count g1 = 0 then broadcast_wake_all (g1\<lparr>bclosed := True\<rparr>) else (g1, []))"

text \<open>The two branches that both receive operations share; \<open>None\<close> when there is nothing to read.\<close>

definition read_slot :: "u64 \<Rightarrow> ('t, 'w) broadcast \<Rightarrow> (u64 \<times> 't bresult) option" where
  "read_slot c g =
     (case brecv_step c (bkern g) of
        BLagged skipped new \<Rightarrow> Some (new, BErrLagged skipped)
      | BReady seq \<Rightarrow>
          Some (seq + 1, case find (\<lambda>s. snd s = seq) (bbuffer g) of Some s \<Rightarrow> BValue (fst s) | None \<Rightarrow> BPanic)
      | BPark \<Rightarrow> None)"

definition broadcast_try_recv :: "u64 \<Rightarrow> ('t, 'w) broadcast \<Rightarrow> u64 \<times> 't bresult" where
  "broadcast_try_recv c g = (case read_slot c g of Some x \<Rightarrow> x | None \<Rightarrow> (c, BErrClosed))"

function broadcast_poll ::
  "'w \<Rightarrow> u64 \<Rightarrow> park_fut \<Rightarrow> ('t, 'w) broadcast \<Rightarrow> ('t, 'w) broadcast \<times> u64 \<times> park_fut \<times> 't bresult" where
  "broadcast_poll w c f g =
     (case read_slot c g of
        Some (c1, res) \<Rightarrow> (g, c1, f, res)
      | None \<Rightarrow>
          if bclosed g then (g, c, f, BErrClosed)
          else if \<not> pparked f then
            (case lot_park w (blot g) of
               (l, None) \<Rightarrow> broadcast_poll w c (f\<lparr>pid := lnext (blot g)\<rparr>) (g\<lparr>blot := l\<rparr>)
             | (l, Some i) \<Rightarrow> (g\<lparr>blot := l\<rparr>, c, f\<lparr>pid := i, pparked := True\<rparr>, BPending))
          else (g\<lparr>blot := lot_refresh (pid f) w (blot g)\<rparr>, c, f, BPending))"
  by pat_completeness auto
termination
  by (relation "measure (\<lambda>(w, c, f, g). unat (permit (lkernel (blot g))))") (auto dest: lot_park_None [OF sym])

declare broadcast_poll.simps [simp del]

definition recv_drop :: "park_fut \<Rightarrow> ('t, 'w) broadcast \<Rightarrow> ('t, 'w) broadcast" where
  "recv_drop f g = (if pparked f then g\<lparr>blot := fst (lot_remove (pid f) (blot g))\<rparr> else g)"

section \<open>The channel is a subscription\<close>

definition broadcast_idle :: "('t, 'w) broadcast \<Rightarrow> u64 \<Rightarrow> bool" where
  "broadcast_idle g c \<longleftrightarrow> brecv_step c (bkern g) = BPark \<and> \<not> bclosed g"

lemma read_slot_None: "read_slot c g = None \<longleftrightarrow> brecv_step c (bkern g) = BPark"
  by (auto simp: read_slot_def split: brecv.splits)

lemma read_slot_not_pending: "read_slot c g = Some (c', res) \<Longrightarrow> res \<noteq> BPending"
  by (auto simp: read_slot_def split: brecv.splits option.splits)

interpretation bs: subscription blot broadcast_idle broadcast_poll "\<lambda>res. res = BPending"
proof unfold_locales
  fix g g' :: "('t, 'w) broadcast" and c c' w f f' res n
  assume p: "broadcast_poll w c f g = (g', c', f', res)"
  show "\<not> broadcast_idle g c \<Longrightarrow> g' = g \<and> f' = f \<and> res \<noteq> BPending"
    using p by (auto simp: broadcast_poll.simps [of w c f g] broadcast_idle_def read_slot_None
      split: option.splits if_splits dest: read_slot_not_pending)
  show "broadcast_idle g c \<Longrightarrow> pparked f \<Longrightarrow> c' = c \<and> f' = f \<and> res = BPending \<and>
      blot g' = lot_refresh (pid f) w (blot g) \<and> broadcast_idle g' = broadcast_idle g"
    using p by (auto simp: broadcast_poll.simps [of w c f g] broadcast_idle_def read_slot_None [symmetric])
  assume a: "broadcast_idle g c" "\<not> pparked f" "lot_ok n (blot g)" "Suc n < 2 ^ 64"
  have e: "read_slot c g = None" "\<not> bclosed g" using a(1) by (simp_all add: broadcast_idle_def read_slot_None)
  obtain l where "lot_park w (blot g) = (l, Some (lnext (blot g)))" using pl.park_ok [OF a(3,4), of w] by (metis prod.collapse)
  then show "c' = c \<and> f' = \<lparr>pid = lnext (blot g), pparked = True\<rparr> \<and> res = BPending \<and>
      blot g' = fst (lot_park w (blot g)) \<and> broadcast_idle g' = broadcast_idle g"
    using p a(2) e by (auto simp: broadcast_poll.simps [of w c f g] broadcast_idle_def)
qed

section \<open>The ring\<close>

text \<open>The oldest sequence number in the ring after \<open>N\<close> values, and the ring itself.\<close>

definition oldest_seq :: "nat \<Rightarrow> nat \<Rightarrow> nat" where
  "oldest_seq cap N = N - min N cap"

definition ring :: "nat \<Rightarrow> 't list \<Rightarrow> ('t \<times> u64) list" where
  "ring cap h = map (\<lambda>i. (h ! i, of_nat i)) [oldest_seq cap (length h)..<length h]"

definition ring_inv :: "nat \<Rightarrow> 't list \<Rightarrow> ('t, 'w) broadcast \<Rightarrow> bool" where
  "ring_inv cap h g \<longleftrightarrow> 0 < cap \<and> cap < 2 ^ 64 \<and> length h < 2 ^ 64 \<and> bkern g = \<lparr>next_seq = of_nat (length h),
     buffered = of_nat (min (length h) cap), capacity = of_nat cap\<rparr> \<and> bbuffer g = ring cap h"

lemma ring_wf: "ring_inv cap h g \<Longrightarrow> b_wf (bkern g)"
  by (auto simp: ring_inv_def b_wf_def unat_u64_of_nat min_less_iff_disj)

lemma length_ring [simp]: "length (ring cap h) = min (length h) cap"
  by (simp add: ring_def oldest_seq_def)

lemma ring_snoc: "0 < cap \<Longrightarrow> ring cap (h @ [v]) = (if cap \<le> length h then tl (ring cap h) else ring cap h) @ [(v, of_nat (length h))]"
proof -
  assume cap: "0 < cap"
  let ?o = "oldest_seq cap (length h)"
  have eq: "map (\<lambda>i. ((h @ [v]) ! i, of_nat i :: u64)) [a..<length h] = map (\<lambda>i. (h ! i, of_nat i)) [a..<length h]" for a
    by (simp add: nth_append)
  have o: "?o < length h" "oldest_seq cap (Suc (length h)) = Suc ?o" if "cap \<le> length h"
    using that cap by (auto simp: oldest_seq_def)
  have z: "?o = 0" "oldest_seq cap (Suc (length h)) = 0" if "\<not> cap \<le> length h"
    using that by (auto simp: oldest_seq_def)
  show ?thesis
  proof (cases "cap \<le> length h")
    case True
    then show ?thesis using o eq by (simp add: ring_def upt_conv_Cons)
  next
    case False
    then show ?thesis using z eq [of 0] by (simp add: ring_def)
  qed
qed

lemma ring_find:
  assumes "oldest_seq cap (length h) \<le> c" "c < length h" "length h < 2 ^ 64"
  shows "find (\<lambda>s. snd s = (of_nat c :: u64)) (ring cap h) = Some (h ! c, of_nat c)"
proof -
  let ?o = "oldest_seq cap (length h)"
  have "of_nat i \<noteq> (of_nat c :: u64)" if "i < c" for i
    using that assms(2,3) by (simp add: u64_eq_nat unat_u64_of_nat)
  then show ?thesis
    unfolding find_Some_iff using assms by (intro exI [of _ "c - ?o"]) (auto simp: ring_def)
qed

text \<open>What a cursor sees: how far it fell behind, the value, or nothing.\<close>

lemma read_slot_ring:
  assumes inv: "ring_inv cap h g" and c: "c \<le> length h"
  shows "read_slot (of_nat c) g =
    (if c < oldest_seq cap (length h)
     then Some (of_nat (oldest_seq cap (length h)), BErrLagged (of_nat (oldest_seq cap (length h) - c)))
     else if c < length h then Some (of_nat (Suc c), BValue (h ! c)) else None)"
proof -
  let ?N = "length h" and ?o = "oldest_seq cap (length h)"
  have b: "c < 2 ^ 64" "?o < 2 ^ 64" "?N < 2 ^ 64" "?o \<le> ?N" using inv c by (auto simp: ring_inv_def oldest_seq_def)
  have o: "of_nat ?N - of_nat (min ?N cap) = (of_nat ?o :: u64)" by (simp add: oldest_seq_def of_nat_diff)
  have lt: "(of_nat i :: u64) < of_nat j \<longleftrightarrow> i < j" if "i < 2 ^ 64" "j < 2 ^ 64" for i j
    using that by (simp add: u64_less_nat unat_u64_of_nat)
  have "brecv_step (of_nat c) (bkern g) =
      (if c < ?o then BLagged (of_nat (?o - c)) (of_nat ?o) else if c < ?N then BReady (of_nat c) else BPark)"
    using inv b lt o by (auto simp: brecv_step_def ring_inv_def Let_def of_nat_diff)
  then show ?thesis
    using ring_find [of cap h c] inv b by (auto simp: read_slot_def ring_inv_def)
qed

lemma push_slot_ring:
  assumes inv: "ring_inv cap h g" and n: "Suc (length h) < 2 ^ 64"
  shows "ring_inv cap (h @ [v]) (push_slot v g)"
proof -
  have cap: "0 < cap" "cap < 2 ^ 64" and k: "bkern g = \<lparr>next_seq = of_nat (length h), buffered = of_nat (min (length h) cap),
     capacity = of_nat cap\<rparr>" and r: "bbuffer g = ring cap h" using inv by (auto simp: ring_inv_def)
  have lt: "(of_nat (min (length h) cap) :: u64) < of_nat cap \<longleftrightarrow> length h < cap"
    using cap by (auto simp: u64_less_nat unat_u64_of_nat)
  have "min (length h) cap = cap \<longleftrightarrow> cap \<le> length h" by auto
  then show ?thesis
    using cap n lt k r by (auto simp: ring_inv_def push_slot_def bsend_step_def ring_snoc unat_u64_of_nat min_def)
qed

section \<open>Runs\<close>

datatype ('t, 'w) broadcast_op =
    BSend 't
  | BCloneTx
  | BDropTx
  | BSubscribe nat
  | BClone nat nat
  | BResubscribe nat nat
  | BRecv nat
  | BPoll nat 'w
  | BDropRecv nat
  | BTryRecv nat
  | BDropRx nat

text \<open>The channel, the number of senders and receivers, the receivers with their futures, the wakes, and all values sent.\<close>

record ('t, 'w) bclient =
  bch :: "('t, 'w) broadcast"
  bsenders :: nat
  breceivers :: nat
  brxs :: subscribers
  bpend :: "nat \<rightharpoonup> 'w \<times> nat"
  bwoken :: "'w list"
  bhist :: "'t list"

definition bclient_new :: "nat \<Rightarrow> ('t, 'w) bclient option" where
  "bclient_new cap = map_option (\<lambda>g. \<lparr>bch = g, bsenders = 1, breceivers = 1, brxs = [0 \<mapsto> subscriber_at 0], bpend = Map.empty,
     bwoken = [], bhist = []\<rparr>) (broadcast_channel cap)"

fun bc_enabled :: "('t, 'w) broadcast_op \<Rightarrow> ('t, 'w) bclient \<Rightarrow> bool" where
  "bc_enabled (BSend v) c = (0 < bsenders c)"
| "bc_enabled BCloneTx c = (0 < bsenders c)"
| "bc_enabled BDropTx c = (0 < bsenders c)"
| "bc_enabled (BSubscribe k) c = (0 < bsenders c \<and> brxs c k = None)"
| "bc_enabled (BClone k j) c = (free_rx (brxs c) k \<and> brxs c j = None)"
| "bc_enabled (BResubscribe k j) c = (free_rx (brxs c) k \<and> brxs c j = None)"
| "bc_enabled (BRecv k) c = free_rx (brxs c) k"
| "bc_enabled (BPoll k w) c = (has_fut (brxs c) k \<and> \<not> sdone (the (brxs c k)))"
| "bc_enabled (BDropRecv k) c = has_fut (brxs c) k"
| "bc_enabled (BTryRecv k) c = free_rx (brxs c) k"
| "bc_enabled (BDropRx k) c = free_rx (brxs c) k"

definition add_rx :: "nat \<Rightarrow> u64 \<Rightarrow> ('t, 'w) bclient \<Rightarrow> ('t, 'w) bclient" where
  "add_rx k cur c = c\<lparr>brxs := (brxs c)(k \<mapsto> subscriber_at cur), breceivers := breceivers c + 1\<rparr>"

fun bc_exec :: "('t, 'w) broadcast_op \<Rightarrow> ('t, 'w) bclient \<Rightarrow> ('t, 'w) bclient" where
  "bc_exec (BSend v) c =
     (case broadcast_send (bsenders c + breceivers c) v (bch c) of (g, res, ws) \<Rightarrow>
        c\<lparr>bch := g, bwoken := bwoken c @ ws, bhist := bhist c @ (if res = None then [] else [v])\<rparr>)"
| "bc_exec BCloneTx c = c\<lparr>bch := clone_tx (bch c), bsenders := bsenders c + 1\<rparr>"
| "bc_exec BDropTx c =
     (case drop_tx (bch c) of (g, ws) \<Rightarrow> c\<lparr>bch := g, bsenders := bsenders c - 1, bwoken := bwoken c @ ws\<rparr>)"
| "bc_exec (BSubscribe k) c = add_rx k (next_seq (bkern (bch c))) c"
| "bc_exec (BClone k j) c = add_rx j (cursor (the (brxs c k))) c"
| "bc_exec (BResubscribe k j) c = add_rx j (next_seq (bkern (bch c))) c"
| "bc_exec (BRecv k) c = c\<lparr>brxs := (brxs c)(k \<mapsto> (the (brxs c k))\<lparr>sfut := Some park_fut_new, sdone := False\<rparr>)\<rparr>"
| "bc_exec (BPoll k w) c =
     (case broadcast_poll w (cursor (the (brxs c k))) (the (sfut (the (brxs c k)))) (bch c) of (g, cur, f, res) \<Rightarrow>
        c\<lparr>bch := g,
          brxs := (brxs c)(k \<mapsto> (the (brxs c k))\<lparr>cursor := cur, sfut := Some f, sdone := \<not> res = BPending\<rparr>),
          bpend := (bpend c)(k := if res = BPending then Some (w, length (bwoken c)) else None)\<rparr>)"
| "bc_exec (BDropRecv k) c =
     c\<lparr>bch := recv_drop (the (sfut (the (brxs c k)))) (bch c),
       brxs := (brxs c)(k \<mapsto> subscriber_at (cursor (the (brxs c k)))), bpend := (bpend c)(k := None)\<rparr>"
| "bc_exec (BTryRecv k) c =
     c\<lparr>brxs := (brxs c)(k \<mapsto> subscriber_at (fst (broadcast_try_recv (cursor (the (brxs c k))) (bch c))))\<rparr>"
| "bc_exec (BDropRx k) c = c\<lparr>brxs := (brxs c)(k := None), breceivers := breceivers c - 1\<rparr>"

fun bc_run :: "('t, 'w) broadcast_op list \<Rightarrow> ('t, 'w) bclient \<Rightarrow> ('t, 'w) bclient option" where
  "bc_run [] c = Some c"
| "bc_run (op # ops) c = (if bc_enabled op c then bc_run ops (bc_exec op c) else None)"

section \<open>The invariant\<close>

definition bc_data :: "nat \<Rightarrow> nat \<Rightarrow> ('t, 'w) bclient \<Rightarrow> bool" where
  "bc_data cap n c \<longleftrightarrow> ring_inv cap (bhist c) (bch c) \<and> length (bhist c) \<le> n \<and> bsender_count (bch c) = bsenders c \<and>
     (bclosed (bch c) \<longleftrightarrow> bsenders c = 0) \<and> (\<forall>k r. brxs c k = Some r \<longrightarrow> unat (cursor r) \<le> length (bhist c))"

definition bc_inv :: "nat \<Rightarrow> nat \<Rightarrow> ('t, 'w) bclient \<Rightarrow> bool" where
  "bc_inv cap n c \<longleftrightarrow> bc_data cap n c \<and> bs.sub_inv n (bch c) (brxs c) (bpend c) (bwoken c)"

lemma bc_inv_new:
  assumes "bclient_new cap = Some c" "cap < 2 ^ 64"
  shows "bc_inv cap 0 c"
  using assms by (auto simp: bclient_new_def broadcast_channel_def bc_inv_def bc_data_def bs.sub_inv_def sub_ids_def
    sub_pend_def ring_inv_def ring_def oldest_seq_def broadcast_kernel_new_def lot_new_def subscriber_at_def split: if_splits)
    (simp_all add: lot_new_def [symmetric])

lemma bc_inv_cursor:
  assumes "bc_inv cap n c" "brxs c k = Some r"
  obtains i where "cursor r = of_nat i" "i \<le> length (bhist c)"
proof -
  have "unat (cursor r) \<le> length (bhist c)" using assms by (auto simp: bc_inv_def bc_data_def)
  moreover have "cursor r = of_nat (unat (cursor r))" by simp
  ultimately show thesis using that by blast
qed

text \<open>Both receive operations move the cursor inside the history.\<close>

lemma read_slot_cursor:
  assumes "ring_inv cap h g" "i \<le> length h" "read_slot (of_nat i) g = Some (c', res)"
  shows "unat c' \<le> length h"
proof -
  have "oldest_seq cap (length h) \<le> length h" by (simp add: oldest_seq_def)
  then show ?thesis using assms(3) assms(1,2) unfolding read_slot_ring [OF assms(1,2)]
    by (auto simp: ring_inv_def unat_u64_of_nat simp del: of_nat_Suc split: if_splits)
qed

lemma broadcast_poll_fields:
  "broadcast_poll w c f g = (g', c', f', res) \<Longrightarrow>
     bkern g' = bkern g \<and> bbuffer g' = bbuffer g \<and> bclosed g' = bclosed g \<and> bsender_count g' = bsender_count g \<and>
     (c' = c \<or> (\<exists>x. read_slot c g = Some (c', x)))"
proof (induction w c f g rule: broadcast_poll.induct)
  case (1 w c f g)
  show ?case
  proof (cases "read_slot c g = None \<and> \<not> bclosed g \<and> \<not> pparked f \<and> snd (lot_park w (blot g)) = None")
    case True
    then obtain l where l: "lot_park w (blot g) = (l, None)" by (metis prod.collapse)
    then have "broadcast_poll w c (f\<lparr>pid := lnext (blot g)\<rparr>) (g\<lparr>blot := l\<rparr>) = (g', c', f', res)"
      using 1(2) True by (subst (asm) broadcast_poll.simps) simp
    moreover have "read_slot c (g\<lparr>blot := l\<rparr>) = read_slot c g"
      by (simp add: read_slot_def split: brecv.split option.split)
    ultimately show ?thesis using 1(1) True l by simp
  next
    case False
    then show ?thesis using 1(2) by (subst (asm) broadcast_poll.simps) (auto split: if_splits prod.splits option.splits)
  qed
qed

lemma broadcast_wake_all_fields:
  "bkern (fst (broadcast_wake_all g)) = bkern g" "bbuffer (fst (broadcast_wake_all g)) = bbuffer g"
  "bclosed (fst (broadcast_wake_all g)) = bclosed g" "bsender_count (fst (broadcast_wake_all g)) = bsender_count g"
  "blot (fst (broadcast_wake_all g)) = fst (lot_wake_all (blot g))"
  "snd (broadcast_wake_all g) = snd (lot_wake_all (blot g))"
  by (simp_all add: broadcast_wake_all_def split: prod.splits)


lemma bc_inv_send:
  assumes inv: "bc_inv cap n c" and n: "Suc (Suc n) < 2 ^ 64" and tx: "0 < bsenders c"
  shows "bc_inv cap (Suc n) (bc_exec (BSend v) c)"
proof -
  let ?g = "push_slot v (bch c)"
  obtain g ws where gw: "broadcast_wake_all ?g = (g, ws)" by fastforce
  note f = broadcast_wake_all_fields [of ?g, unfolded gw fst_conv snd_conv]
  have d: "bc_data cap n c" and s: "bs.sub_inv (Suc n) (bch c) (brxs c) (bpend c) (bwoken c)"
    using inv by (auto simp: bc_inv_def intro: bs.sub_inv_Suc)
  have lot: "blot ?g = blot (bch c)" "bclosed ?g = bclosed (bch c)" "bsender_count ?g = bsender_count (bch c)"
    by (auto simp: push_slot_def split: prod.splits)
  have r: "ring_inv cap (bhist c @ [v]) g"
    using push_slot_ring [of cap "bhist c" "bch c" v] d n f by (simp add: bc_data_def ring_inv_def)
  have news: "\<not> broadcast_idle g (cursor r)" if k: "brxs c k = Some r" for k r
  proof -
    obtain i where "cursor r = of_nat i" "i \<le> length (bhist c)" by (rule bc_inv_cursor [OF inv k])
    then have "read_slot (cursor r) g \<noteq> None" using read_slot_ring [OF r, of i] by simp
    then show ?thesis by (simp add: broadcast_idle_def read_slot_None)
  qed
  have "bs.sub_inv (Suc n) g (brxs c) (bpend c) (bwoken c @ ws)"
    by (rule bs.sub_broadcast [OF s, of "blot g"]) (use f lot news in \<open>auto simp: prod_eq_iff\<close>)
  moreover have "bc_data cap (Suc n) (c\<lparr>bch := g, bwoken := bwoken c @ ws, bhist := bhist c @ [v]\<rparr>)"
    using d r f lot by (fastforce simp: bc_data_def)
  moreover have "\<not> bclosed (bch c)" using d tx by (simp add: bc_data_def)
  ultimately show ?thesis by (simp add: bc_inv_def broadcast_send_def gw)
qed

lemma bc_inv_drop_tx:
  assumes inv: "bc_inv cap n c" and tx: "0 < bsenders c"
  shows "bc_inv cap (Suc n) (bc_exec BDropTx c)"
proof -
  have d: "bc_data cap n c" and s: "bs.sub_inv (Suc n) (bch c) (brxs c) (bpend c) (bwoken c)"
    using inv by (auto simp: bc_inv_def intro: bs.sub_inv_Suc)
  obtain g ws where gw: "drop_tx (bch c) = (g, ws)" by fastforce
  let ?g = "(bch c)\<lparr>bsender_count := bsenders c - 1, bclosed := True\<rparr>"
  have sc: "bsender_count (bch c) = bsenders c" "\<not> bclosed (bch c)" using d tx by (simp_all add: bc_data_def)
  have g: "if bsenders c = 1 then broadcast_wake_all ?g = (g, ws) else g = (bch c)\<lparr>bsender_count := bsenders c - 1\<rparr> \<and> ws = []"
    using gw sc tx by (auto simp: drop_tx_def Let_def split: if_splits)
  have "bs.sub_inv (Suc n) g (brxs c) (bpend c) (bwoken c @ ws)"
  proof (cases "bsenders c = 1")
    case True
    then have e: "broadcast_wake_all ?g = (g, ws)" using g by simp
    note f = broadcast_wake_all_fields [of ?g, unfolded e fst_conv snd_conv]
    show ?thesis
      by (rule bs.sub_broadcast [OF s, of "blot g"]) (use f in \<open>auto simp: prod_eq_iff broadcast_idle_def\<close>)
  next
    case False
    then show ?thesis using bs.sub_inv_cong [OF s, of g] g by (simp add: broadcast_idle_def fun_eq_iff)
  qed
  moreover have "bc_data cap (Suc n) (c\<lparr>bch := g, bsenders := bsenders c - 1, bwoken := bwoken c @ ws\<rparr>)"
    using d g sc broadcast_wake_all_fields [of ?g] by (auto simp: bc_data_def ring_inv_def split: if_splits)
  ultimately show ?thesis by (simp add: bc_inv_def gw)
qed

lemma bc_inv_poll:
  assumes inv: "bc_inv cap n c" and n: "Suc (Suc n) < 2 ^ 64" and en: "bc_enabled (BPoll k w) c"
  shows "bc_inv cap (Suc n) (bc_exec (BPoll k w) c)"
proof -
  obtain r f where r: "brxs c k = Some r" "sfut r = Some f" "\<not> sdone r" using en by (auto elim: has_futE)
  obtain g' c' f' res where p: "broadcast_poll w (cursor r) f (bch c) = (g', c', f', res)" by (metis prod_cases4)
  obtain i where i: "cursor r = of_nat i" "i \<le> length (bhist c)" by (rule bc_inv_cursor [OF inv r(1)])
  have n': "Suc n < 2 ^ 64" using n by simp
  have s: "bs.sub_inv n (bch c) (brxs c) (bpend c) (bwoken c)" and d: "bc_data cap n c" using inv by (simp_all add: bc_inv_def)
  have ring: "ring_inv cap (bhist c) (bch c)" and cur: "unat (cursor r) \<le> length (bhist c)" using d r by (auto simp: bc_data_def)
  note f = broadcast_poll_fields [OF p]
  have "unat c' \<le> length (bhist c)" using f read_slot_cursor [OF ring i(2)] i(1) cur by auto
  then have "bc_data cap (Suc n) (bc_exec (BPoll k w) c)"
    using d r p f by (auto simp: bc_data_def ring_inv_def)
  then show ?thesis using bs.sub_poll [OF s n' r p] r p by (simp add: bc_inv_def)
qed

lemma bc_inv_drop_recv:
  assumes inv: "bc_inv cap n c" and en: "bc_enabled (BDropRecv k) c"
  shows "bc_inv cap (Suc n) (bc_exec (BDropRecv k) c)"
proof -
  obtain r f where r: "brxs c k = Some r" "sfut r = Some f" using en by (auto elim: has_futE)
  let ?x = "Some (subscriber_at (cursor r))" and ?g = "recv_drop f (bch c)"
  have s: "bs.sub_inv n (bch c) (brxs c) (bpend c) (bwoken c)" using inv by (simp add: bc_inv_def)
  have "bs.sub_inv n ?g ((brxs c)(k := ?x)) ((bpend c)(k := None)) (bwoken c)"
    using r by (intro bs.sub_forget [OF s r]) (auto simp: recv_drop_def broadcast_idle_def fun_eq_iff)
  moreover have "bc_data cap (Suc n) (bc_exec (BDropRecv k) c)"
    using inv r by (auto simp: bc_inv_def bc_data_def recv_drop_def ring_inv_def)
  ultimately show ?thesis using r by (auto simp: bc_inv_def intro: bs.sub_inv_Suc)
qed

lemma bc_inv_quiet:
  assumes inv: "bc_inv cap n c" and k: "parked_id (brxs c k) = None" "parked_id x = None"
    and x: "\<And>r. x = Some r \<Longrightarrow> unat (cursor r) \<le> length (bhist c)"
  shows "bc_inv cap (Suc n) (c\<lparr>brxs := (brxs c)(k := x), breceivers := m\<rparr>)"
proof -
  have "bs.sub_inv (Suc n) (bch c) ((brxs c)(k := x)) (bpend c) (bwoken c)"
    using inv k by (intro bs.sub_quiet) (auto simp: bc_inv_def intro: bs.sub_inv_Suc)
  then show ?thesis using inv x by (auto simp: bc_inv_def bc_data_def)
qed


lemma bc_inv_exec:
  assumes inv: "bc_inv cap n c" and n: "Suc (Suc n) < 2 ^ 64" and en: "bc_enabled op c"
  shows "bc_inv cap (Suc n) (bc_exec op c)"
proof -
  have d: "bc_data cap n c" using inv by (simp add: bc_inv_def)
  then have seq: "unat (next_seq (bkern (bch c))) = length (bhist c)" by (simp add: bc_data_def ring_inv_def unat_u64_of_nat)
  have cur: "brxs c k = Some r \<Longrightarrow> unat (cursor r) \<le> length (bhist c)" for k r using d by (auto simp: bc_data_def)
  have tried: "unat (fst (broadcast_try_recv (cursor r) (bch c))) \<le> length (bhist c)" if k: "brxs c k = Some r" for k r
  proof -
    obtain i where i: "cursor r = of_nat i" "i \<le> length (bhist c)" by (rule bc_inv_cursor [OF inv k])
    have "ring_inv cap (bhist c) (bch c)" using d by (simp add: bc_data_def)
    from read_slot_cursor [OF this i(2)] cur [OF k] show ?thesis
      using i(1) by (auto simp: broadcast_try_recv_def split: option.split)
  qed
  note quiet = bc_inv_quiet [OF inv]
  have same: "c\<lparr>brxs := rxs, breceivers := breceivers c\<rparr> = c\<lparr>brxs := rxs\<rparr>" for rxs by simp
  show ?thesis
  proof (cases op)
    case (BSend v)
    then show ?thesis using bc_inv_send [OF inv n] en by simp
  next
    case BCloneTx
    have "bs.sub_inv (Suc n) (clone_tx (bch c)) (brxs c) (bpend c) (bwoken c)"
      by (rule bs.sub_inv_cong) (use inv in \<open>auto simp: bc_inv_def clone_tx_def broadcast_idle_def fun_eq_iff intro: bs.sub_inv_Suc\<close>)
    then show ?thesis using BCloneTx d en by (auto simp: bc_inv_def bc_data_def clone_tx_def ring_inv_def)
  next
    case BDropTx
    then show ?thesis using bc_inv_drop_tx [OF inv] en by simp
  next
    case (BPoll k w)
    then show ?thesis using bc_inv_poll [OF inv n] en by blast
  next
    case (BDropRecv k)
    then show ?thesis using bc_inv_drop_recv [OF inv] en by blast
  next
    case (BRecv k)
    then show ?thesis using en cur
      by (auto simp: park_fut_new_def elim!: free_rxE intro!: quiet [of k _ "breceivers c", unfolded same])
  next
    case (BTryRecv k)
    then show ?thesis using en tried
      by (auto elim!: free_rxE intro!: quiet [of k _ "breceivers c", unfolded same])
  qed (use en cur seq in \<open>auto simp: add_rx_def intro!: quiet elim!: free_rxE\<close>)
qed

lemma bc_inv_run:
  "bc_run ops c = Some c' \<Longrightarrow> bc_inv cap n c \<Longrightarrow> Suc (n + length ops) < 2 ^ 64 \<Longrightarrow> bc_inv cap (n + length ops) c'"
proof (induction ops arbitrary: c n)
  case (Cons op ops)
  then have "bc_inv cap (Suc n) (bc_exec op c)" by (intro bc_inv_exec) (auto split: if_splits)
  then show ?case using Cons.IH [of "bc_exec op c" "Suc n"] Cons.prems by (simp split: if_splits)
qed simp

text \<open>What the invariant says about the next poll, and about a pending one.\<close>

lemma bc_read:
  assumes inv: "bc_inv cap n c" and k: "brxs c k = Some r"
  defines "N \<equiv> length (bhist c)" and "i \<equiv> unat (cursor r)"
  shows "read_slot (cursor r) (bch c) =
      (if i < oldest_seq cap N then Some (of_nat (oldest_seq cap N), BErrLagged (of_nat (oldest_seq cap N - i)))
       else if i < N then Some (of_nat (Suc i), BValue (bhist c ! i)) else None)"
    and "i \<le> N" "N < 2 ^ 64" "oldest_seq cap N \<le> N"
proof -
  have ring: "ring_inv cap (bhist c) (bch c)" and "i \<le> N" using inv k by (auto simp: bc_inv_def bc_data_def i_def N_def)
  then show "i \<le> N" "N < 2 ^ 64" "oldest_seq cap N \<le> N" by (auto simp: ring_inv_def N_def oldest_seq_def)
  from read_slot_ring [OF ring, of i] show "read_slot (cursor r) (bch c) =
      (if i < oldest_seq cap N then Some (of_nat (oldest_seq cap N), BErrLagged (of_nat (oldest_seq cap N - i)))
       else if i < N then Some (of_nat (Suc i), BValue (bhist c ! i)) else None)"
    using \<open>i \<le> N\<close> unfolding N_def i_def by (simp only: of_nat_unat ucast_id)
qed

lemma bc_poll_exact:
  assumes inv: "bc_inv cap n c" and n: "Suc n < 2 ^ 64" and k: "brxs c k = Some r"
    and p: "broadcast_poll w (cursor r) f (bch c) = (g', c', f', res)"
  defines "N \<equiv> length (bhist c)" and "i \<equiv> unat (cursor r)"
  shows "if i < oldest_seq cap N then res = BErrLagged (of_nat (oldest_seq cap N - i)) \<and> unat c' = oldest_seq cap N
    else if i < N then res = BValue (bhist c ! i) \<and> unat c' = Suc i
    else c' = cursor r \<and> res = (if bsenders c = 0 then BErrClosed else BPending)"
proof -
  note read = bc_read [OF inv k, folded N_def i_def]
  show ?thesis
  proof (cases "read_slot (cursor r) (bch c)")
    case (Some x)
    then have "x = (c', res)" using p by (auto simp: broadcast_poll.simps [of w "cursor r" f "bch c"] split: prod.splits)
    then show ?thesis using Some read(2-4) unfolding read(1)
      by (auto simp: unat_u64_of_nat simp del: of_nat_Suc split: if_splits)
  next
    case None
    then have N: "\<not> i < oldest_seq cap N" "\<not> i < N" using read(1) by (auto split: if_splits)
    have d: "bc_data cap n c" and s: "bs.sub_inv n (bch c) (brxs c) (bpend c) (bwoken c)" using inv by (simp_all add: bc_inv_def)
    show ?thesis
    proof (cases "bsenders c = 0")
      case True
      then show ?thesis using p None d N by (auto simp: broadcast_poll.simps [of w "cursor r" f "bch c"] bc_data_def)
    next
      case False
      then have i: "broadcast_idle (bch c) (cursor r)" using None d by (simp add: broadcast_idle_def read_slot_None bc_data_def)
      have "c' = cursor r \<and> res = BPending"
        using bs.poll_refresh [OF i _ p] bs.poll_park [OF i _ bs.sub_inv_lot [OF s] n p] by blast
      then show ?thesis using False N by simp
    qed
  qed
qed

lemma bc_pending:
  assumes inv: "bc_inv cap n c" and p: "bpend c k = Some (w, m)"
  shows "(\<exists>r f. brxs c k = Some r \<and> sfut r = Some f \<and> (pid f, w) \<in> set (lwaiters (blot (bch c))) \<and>
    unat (cursor r) = length (bhist c) \<and> 0 < bsenders c) \<or> w \<in> set (drop m (bwoken c))"
proof -
  have d: "bc_data cap n c" and s: "bs.sub_inv n (bch c) (brxs c) (bpend c) (bwoken c)" using inv by (simp_all add: bc_inv_def)
  obtain r i where r: "brxs c k = Some r" "parked_id (Some r) = Some i"
    "(i, w) \<in> set (lwaiters (blot (bch c))) \<and> broadcast_idle (bch c) (cursor r) \<or> w \<in> set (drop m (bwoken c))"
    using bs.sub_pending [OF s p] by blast
  note read = bc_read [OF inv r(1)]
  have "unat (cursor r) = length (bhist c) \<and> 0 < bsenders c" if "broadcast_idle (bch c) (cursor r)"
    using that read(1,2) d by (auto simp: broadcast_idle_def read_slot_None [symmetric] bc_data_def split: if_splits)
  then show ?thesis using r by (auto simp: parked_id_def split: option.splits if_splits)
qed

lemma broadcast_poll_park:
  "read_slot c g = None \<Longrightarrow> \<not> bclosed g \<Longrightarrow> \<not> pparked f \<Longrightarrow> permit (lkernel (blot g)) = 0 \<Longrightarrow>
     broadcast_poll w c f g = (g\<lparr>blot := fst (lot_park w (blot g))\<rparr>, c, f\<lparr>pid := lnext (blot g), pparked := True\<rparr>, BPending)"
  by (simp add: broadcast_poll.simps [of w c f g] lot_park_def wait_step_def)

section \<open>Property\<close>

text \<open>
  C33: After every run of a broadcast channel with fewer than 2^64 - 1 operations, the next poll of a receiver's
  \<open>recv()\<close> is exactly determined by all values sent and the receiver's cursor: a cursor before the last
  \<open>capacity\<close> values gets \<open>Lagged\<close> with the exact number of values missed and moves to the oldest one kept; a
  cursor inside them gets the value at that position and moves on by one; at the end it gets \<open>Closed\<close> when
  no sender is left and pends otherwise.  It never panics.  And a \<open>recv()\<close> whose last poll pended is
  registered with the waker of that poll while its receiver has read everything and a sender lives, or
  that waker has been woken since.
\<close>

theorem broadcast_exact:
  assumes "bclient_new cap = Some c0" "cap < 2 ^ 64" "bc_run ops c0 = Some c" "length ops < 2 ^ 64 - 1"
  shows "(\<forall>k r f w. brxs c k = Some r \<longrightarrow> sfut r = Some f \<longrightarrow>
      (let N = length (bhist c); oldest = N - min N cap; i = unat (cursor r) in
       case broadcast_poll w (cursor r) f (bch c) of (g', c', f', res) \<Rightarrow>
         if i < oldest then res = BErrLagged (of_nat (oldest - i)) \<and> unat c' = oldest
         else if i < N then res = BValue (bhist c ! i) \<and> unat c' = Suc i
         else c' = cursor r \<and> res = (if bsenders c = 0 then BErrClosed else BPending))) \<and>
    (\<forall>k w m. bpend c k = Some (w, m) \<longrightarrow>
      (\<exists>r f. brxs c k = Some r \<and> sfut r = Some f \<and> (pid f, w) \<in> set (lwaiters (blot (bch c))) \<and>
         unat (cursor r) = length (bhist c) \<and> 0 < bsenders c) \<or> w \<in> set (drop m (bwoken c)))"
proof -
  have inv: "bc_inv cap (length ops) c" using bc_inv_run [OF assms(3) bc_inv_new [OF assms(1,2)]] assms(4) by simp
  have n: "Suc (length ops) < 2 ^ 64" using assms(4) by simp
  have poll: "case broadcast_poll w (cursor r) f (bch c) of (g', c', f', res) \<Rightarrow>
      if unat (cursor r) < oldest_seq cap (length (bhist c))
      then res = BErrLagged (of_nat (oldest_seq cap (length (bhist c)) - unat (cursor r))) \<and> unat c' = oldest_seq cap (length (bhist c))
      else if unat (cursor r) < length (bhist c) then res = BValue (bhist c ! unat (cursor r)) \<and> unat c' = Suc (unat (cursor r))
      else c' = cursor r \<and> res = (if bsenders c = 0 then BErrClosed else BPending)" if k: "brxs c k = Some r" for k r f w
    using bc_poll_exact [OF inv n k] by (cases "broadcast_poll w (cursor r) f (bch c)" rule: prod_cases4) (simp only: prod.case)
  show ?thesis unfolding Let_def oldest_seq_def [symmetric]
    by (intro conjI allI impI) ((rule poll bc_pending [OF inv]), assumption)+
qed

text \<open>Witness: with capacity 1 the receiver misses the first of two values.\<close>

theorem broadcast_exact_witness:
  "\<exists>c0 c. bclient_new 1 = Some c0 \<and> bc_run [BRecv 0, BPoll 0 (7::nat), BSend (41::nat), BSend 42] c0 = Some c \<and> bwoken c = [7] \<and>
     (\<exists>r f g' c' f'. brxs c 0 = Some r \<and> sfut r = Some f \<and>
        broadcast_poll 8 (cursor r) f (bch c) = (g', c', f', BErrLagged 1) \<and> unat c' = 1)"
proof -
  obtain c0 :: "(nat, nat) bclient" where c0: "bclient_new 1 = Some c0"
    "c0 = \<lparr>bch = \<lparr>blot = lot_new, bkern = broadcast_kernel_new 1, bbuffer = [], bclosed = False, bsender_count = 1\<rparr>, bsenders = 1,
      breceivers = 1, brxs = [0 \<mapsto> subscriber_at 0], bpend = Map.empty, bwoken = [], bhist = []\<rparr>"
    by (simp add: bclient_new_def broadcast_channel_def)
  obtain c r f where c: "bc_run [BRecv 0, BPoll 0 7, BSend 41, BSend 42] c0 = Some c" "bwoken c = [7]"
    "bhist c = [41, 42]" "brxs c 0 = Some r" "sfut r = Some f" "cursor r = 0"
    by (simp add: c0(2) broadcast_kernel_new_def lot_new_def waiter_new_def free_rx_def has_fut_def subscriber_at_def
      park_fut_new_def broadcast_poll_park lot_park_def wait_step_def broadcast_send_def broadcast_wake_all_def push_slot_def
      bsend_step_def Let_def lot_wake_all.simps signal_step_def vec_remove_def read_slot_def brecv_step_def)
  obtain g' c' f' res where p: "broadcast_poll 8 (cursor r) f (bch c) = (g', c', f', res)" by (metis prod_cases4)
  have "length [BRecv 0, BPoll 0 (7::nat), BSend (41::nat), BSend 42] < 2 ^ 64 - 1" by simp
  note all = broadcast_exact [OF c0(1) _ c(1) this, THEN conjunct1, simplified Let_def, rule_format, OF _ c(4,5), of 8]
  have "res = BErrLagged 1 \<and> unat c' = 1" using all c(3,6) p by simp
  then show ?thesis using c0(1) c p by blast
qed

end
