(* ===== verification/Sleep.thy ===== *)
theory Sleep
  imports Utility_Log Reactor_Props
begin

text \<open>
  Sleeping: model of \<^verbatim>\<open>lion-utility/src/time/sleep/kernel.rs\<close>, \<^verbatim>\<open>sleep/proof.rs\<close> and \<^verbatim>\<open>sleep/future.rs\<close>.  The kernel keeps the
  deadline, the id of the armed timer and the log of the utility; the future reads the clock, arms the
  reactor's timer and follows the kernel's decision.  A poll that panics is \<open>None\<close>.
\<close>

section \<open>The kernel\<close>

datatype sleep_method = SleepPoll

type_synonym sleep_log = "(sleep_method, unit) ulog"

definition ev_tick_begin :: "int \<Rightarrow> (sleep_method, unit) utility_event" where
  "ev_tick_begin w = UInbound (UTick w SleepPoll None)"

definition ev_tick_end :: "int \<Rightarrow> unit tick_result \<Rightarrow> (sleep_method, unit) utility_event" where
  "ev_tick_end w res = UInbound (UTick w SleepPoll (Some res))"

definition ev_register_timer :: "int \<Rightarrow> int \<Rightarrow> nat option \<Rightarrow> (sleep_method, unit) utility_event" where
  "ev_register_timer d w res = UOutbound (URegisterTimer d w res)"

definition ev_deregister_timer :: "nat \<Rightarrow> (sleep_method, unit) utility_event" where
  "ev_deregister_timer rid = UOutbound (UDeregisterTimer rid True)"

definition sleep_wf :: "sleep_log \<Rightarrow> nat option \<Rightarrow> bool" where
  "sleep_wf l rid \<longleftrightarrow> utility_inv l \<and> (\<forall>t. rid = Some t \<longrightarrow> token_active_before l t (length l))"

datatype poll_outcome = Expired | ArmedOk nat | RegisterErr

definition dereg_prefix :: "nat option \<Rightarrow> sleep_log" where
  "dereg_prefix old = (case old of Some t \<Rightarrow> [ev_deregister_timer t] | None \<Rightarrow> [])"

definition step_segment :: "int \<Rightarrow> int \<Rightarrow> nat option \<Rightarrow> poll_outcome \<Rightarrow> sleep_log" where
  "step_segment w d old out =
     (case out of
        Expired \<Rightarrow> [ev_tick_begin w, ev_tick_end w (TFinished ())]
      | ArmedOk new \<Rightarrow>
          [ev_tick_begin w] @ dereg_prefix old @ [ev_register_timer d w (Some new), ev_tick_end w TPending]
      | RegisterErr \<Rightarrow>
          [ev_tick_begin w] @ dereg_prefix old @ [ev_register_timer d w None, ev_tick_end w (TFinished ())])"

definition new_rid_of :: "poll_outcome \<Rightarrow> nat option" where
  "new_rid_of out = (case out of ArmedOk new \<Rightarrow> Some new | _ \<Rightarrow> None)"

definition drop_segment :: "nat option \<Rightarrow> sleep_log" where
  "drop_segment old = (case old of Some t \<Rightarrow> [ev_deregister_timer t] | None \<Rightarrow> [])"

record sleep_kernel =
  sl_deadline :: u64
  sl_rid :: "u64 option"
  sl_log :: sleep_log

definition opt_rid_view :: "u64 option \<Rightarrow> nat option" where
  "opt_rid_view rid = map_option unat rid"

definition sleep_well_formed :: "sleep_kernel \<Rightarrow> bool" where
  "sleep_well_formed k \<longleftrightarrow> sleep_wf (sl_log k) (opt_rid_view (sl_rid k))"

datatype sleep_action = SComplete | SSuspend | SFail

definition sleep_kernel_new :: "u64 \<Rightarrow> sleep_kernel" where
  "sleep_kernel_new d = \<lparr>sl_deadline = d, sl_rid = None, sl_log = []\<rparr>"

text \<open>The waker view that the source leaves arbitrary is the first argument.\<close>

definition sleep_poll_step :: "int \<Rightarrow> u64 \<Rightarrow> u64 option \<Rightarrow> sleep_kernel \<Rightarrow> sleep_kernel \<times> sleep_action" where
  "sleep_poll_step wv now reg k =
     (let d = uint (sl_deadline k); old = opt_rid_view (sl_rid k) in
      if now \<ge> sl_deadline k
      then (k\<lparr>sl_rid := None, sl_log := sl_log k @ step_segment wv d old Expired\<rparr>, SComplete)
      else case reg of
        Some x \<Rightarrow> (k\<lparr>sl_rid := Some x, sl_log := sl_log k @ step_segment wv d old (ArmedOk (unat x))\<rparr>, SSuspend)
      | None \<Rightarrow> (k\<lparr>sl_rid := None, sl_log := sl_log k @ step_segment wv d old RegisterErr\<rparr>, SFail))"

definition sleep_reset_step :: "u64 \<Rightarrow> sleep_kernel \<Rightarrow> sleep_kernel" where
  "sleep_reset_step d k =
     k\<lparr>sl_rid := None, sl_deadline := d, sl_log := sl_log k @ drop_segment (opt_rid_view (sl_rid k))\<rparr>"

definition sleep_drop_step :: "sleep_kernel \<Rightarrow> sleep_kernel" where
  "sleep_drop_step k = k\<lparr>sl_rid := None, sl_log := sl_log k @ drop_segment (opt_rid_view (sl_rid k))\<rparr>"

section \<open>The future\<close>

text \<open>\<open>clock\<close> is what \<open>Instant::now()\<close> answers; it is read only before the reactor's first park.\<close>

definition observed_now :: "instant \<Rightarrow> 'w reactor_thread \<Rightarrow> instant" where
  "observed_now clock r = (case cached_now r of Some t \<Rightarrow> t | None \<Rightarrow> clock)"

definition deregister_held :: "sleep_kernel \<Rightarrow> 'w reactor_thread \<Rightarrow> 'w reactor_thread option" where
  "deregister_held k r = (case sl_rid k of Some rid \<Rightarrow> handle_deregister_timer rid r | None \<Rightarrow> Some r)"

datatype sleep_poll_result = SleepReady | SleepPending

definition sleep_poll ::
  "int \<Rightarrow> 'w \<Rightarrow> instant \<Rightarrow> sleep_kernel \<Rightarrow> 'w reactor_thread \<Rightarrow>
     (sleep_kernel \<times> 'w reactor_thread \<times> sleep_poll_result) option" where
  "sleep_poll wv w clock k r =
     (let now = observed_now clock r in
      case (if now \<ge> sl_deadline k then Some (None, r)
            else case deregister_held k r of
              None \<Rightarrow> None
            | Some r1 \<Rightarrow>
                (case handle_register_timer (sl_deadline k) w r1 of
                   None \<Rightarrow> None
                 | Some (IoOk rid, r2) \<Rightarrow> Some (Some rid, r2)
                 | Some (IoErr e, r2) \<Rightarrow> Some (None, r2))) of
        None \<Rightarrow> None
      | Some (reg, r2) \<Rightarrow>
          (case sleep_poll_step wv now reg k of
             (k1, SSuspend) \<Rightarrow> Some (k1, r2, SleepPending)
           | (k1, SComplete) \<Rightarrow> Some (k1, r2, SleepReady)
           | (k1, SFail) \<Rightarrow> None))"

definition sleep_reset :: "instant \<Rightarrow> sleep_kernel \<Rightarrow> 'w reactor_thread \<Rightarrow> (sleep_kernel \<times> 'w reactor_thread) option" where
  "sleep_reset d k r = map_option (\<lambda>r1. (sleep_reset_step d k, r1)) (deregister_held k r)"

definition sleep_drop :: "sleep_kernel \<Rightarrow> 'w reactor_thread \<Rightarrow> (sleep_kernel \<times> 'w reactor_thread) option" where
  "sleep_drop k r = map_option (\<lambda>r1. (sleep_drop_step k, r1)) (deregister_held k r)"

definition sleep_for :: "duration \<Rightarrow> instant \<Rightarrow> sleep_kernel" where
  "sleep_for dur clock = sleep_kernel_new (instant_add clock dur)"

section \<open>The kernel keeps its log in order\<close>

lemmas sleep_events = ev_tick_begin_def ev_tick_end_def ev_register_timer_def ev_deregister_timer_def

text \<open>The segment of a poll: a cycle around what happens in between.\<close>

definition step_middle :: "int \<Rightarrow> int \<Rightarrow> nat option \<Rightarrow> poll_outcome \<Rightarrow> sleep_log" where
  "step_middle w d old out =
     (case out of Expired \<Rightarrow> [] | ArmedOk new \<Rightarrow> dereg_prefix old @ [ev_register_timer d w (Some new)]
      | RegisterErr \<Rightarrow> dereg_prefix old @ [ev_register_timer d w None])"

definition step_result :: "poll_outcome \<Rightarrow> unit tick_result" where
  "step_result out = (case out of ArmedOk _ \<Rightarrow> TPending | _ \<Rightarrow> TFinished ())"

lemma step_segment_middle:
  "step_segment w d old out = UInbound (UTick w SleepPoll None) # step_middle w d old out @ [UInbound (UTick w SleepPoll (Some (step_result out)))]"
  by (cases out) (auto simp: step_segment_def step_middle_def step_result_def sleep_events)

lemma step_middle_events: "e \<in> set (step_middle w d old out) \<Longrightarrow> \<not> is_utick_begin e \<and> \<not> is_utick_end e"
  by (cases out; cases old) (auto simp: step_middle_def dereg_prefix_def sleep_events)

lemma at_Cons: "at (e # s) i P \<longleftrightarrow> (case i of 0 \<Rightarrow> P e | Suc j \<Rightarrow> at s j P)"
  by (simp add: at_def split: nat.split)

lemma at_Nil: "\<not> at [] i P"
  by (simp add: at_def)

lemma sleep_poll_inv:
  assumes inv: "utility_inv l" and held: "\<And>t. old = Some t \<Longrightarrow> token_active_before l t (length l)"
  shows "utility_inv (l @ step_segment w d old out)"
proof (rule utility_inv_append [OF inv])
  let ?s = "step_segment w d old out"
  note cyc = segment_cycle [OF step_segment_middle, of w d old out l]
  fix i
  assume i: "at ?s i is_utick_end_pending"
  obtain new where out: "out = ArmedOk new" and i': "i = Suc (length (step_middle w d old out))"
    using i by (cases out; cases old)
      (auto simp: step_segment_def step_middle_def dereg_prefix_def sleep_events at_Cons at_Nil split: nat.splits)
  have "at ?s (length (step_middle w d old out)) (is_register_timer_succ w new)"
    by (cases old) (simp_all add: out step_segment_def step_middle_def dereg_prefix_def sleep_events at_Cons)
  then have reg: "at (l @ ?s) (length l + length (step_middle w d old out)) (is_register_timer_succ w new)" by simp
  have "0 < length (step_middle w d old out)" by (simp add: out step_middle_def)
  then have "timer_armed_for_in_cycle (l @ ?s) w (length l) (length l + i)"
    unfolding timer_armed_for_in_cycle_def i'
    by (intro exI [of _ "length l + length (step_middle w d old out)"] conjI exI [of _ new] reg) auto
  moreover have "get_utick_waker (?s ! i) = w"
    using i' by (cases old) (simp_all add: out step_segment_def step_middle_def dereg_prefix_def sleep_events)
  ultimately show "\<exists>b. complete_tick_cycle (l @ ?s) b (length l + i) \<and>
      active_wakeup_source_for (l @ ?s) (get_utick_waker (?s ! i)) b (length l + i)"
    using cyc step_middle_events by (intro exI [of _ "length l"]) (auto simp: i' active_wakeup_source_for_def)
next
  let ?s = "step_segment w d old out"
  fix i rt
  assume i: "at ?s i (\<lambda>e. resource_token e = Some rt)"
  then have "old = Some rt" "i = 1"
    by (cases out; cases old; auto simp: step_segment_def dereg_prefix_def sleep_events at_Cons at_Nil split: nat.splits)+
  then show "token_active_before (l @ ?s) rt (length l + i)"
    using held by (intro token_active_snoc)
      (auto simp: step_segment_def sleep_events at_Cons split: poll_outcome.split)
qed

lemma sleep_wf_poll:
  assumes "sleep_wf l old"
  shows "sleep_wf (l @ step_segment w d old out) (new_rid_of out)"
proof -
  have "token_active_before (l @ step_segment w d old out) new (length (l @ step_segment w d old out))" if "out = ArmedOk new" for new
    unfolding token_active_before_def
    by (rule exI [of _ "length l + Suc (length (dereg_prefix old))"])
      (cases old; auto simp: that step_segment_def dereg_prefix_def sleep_events at_def nth_append nth_Cons' less_Suc_eq)
  then show ?thesis using assms sleep_poll_inv [of l old w d out] by (auto simp: sleep_wf_def new_rid_of_def split: poll_outcome.splits)
qed

lemma sleep_wf_drop:
  assumes "sleep_wf l old"
  shows "sleep_wf (l @ drop_segment old) None"
proof (cases old)
  case (Some t)
  have "utility_inv (l @ [ev_deregister_timer t])"
    by (rule utility_inv_append) (use assms Some in \<open>auto simp: sleep_wf_def at_Cons at_Nil sleep_events split: nat.splits\<close>)
  then show ?thesis by (simp add: Some drop_segment_def sleep_wf_def)
qed (use assms in \<open>simp add: drop_segment_def sleep_wf_def\<close>)

lemma sleep_kernel_wf:
  "sleep_well_formed (sleep_kernel_new d)"
  "sleep_well_formed k \<Longrightarrow> sleep_well_formed (fst (sleep_poll_step wv now reg k))"
  "sleep_well_formed k \<Longrightarrow> sleep_well_formed (sleep_reset_step d k)"
  "sleep_well_formed k \<Longrightarrow> sleep_well_formed (sleep_drop_step k)"
proof -
  note poll = sleep_wf_poll [of "sl_log k" "opt_rid_view (sl_rid k)"]
  show "sleep_well_formed (sleep_kernel_new d)"
    by (simp add: sleep_well_formed_def sleep_kernel_new_def sleep_wf_def opt_rid_view_def)
  show "sleep_well_formed k \<Longrightarrow> sleep_well_formed (fst (sleep_poll_step wv now reg k))"
    using poll [of wv "uint (sl_deadline k)" Expired] poll [of wv "uint (sl_deadline k)" RegisterErr]
      poll [of wv "uint (sl_deadline k)" "ArmedOk (unat (the reg))"]
    by (auto simp: sleep_well_formed_def sleep_poll_step_def Let_def new_rid_of_def opt_rid_view_def split: option.splits)
  show "sleep_well_formed k \<Longrightarrow> sleep_well_formed (sleep_reset_step d k)"
    "sleep_well_formed k \<Longrightarrow> sleep_well_formed (sleep_drop_step k)"
    using sleep_wf_drop [of "sl_log k" "opt_rid_view (sl_rid k)"]
    by (simp_all add: sleep_well_formed_def sleep_reset_step_def sleep_drop_step_def opt_rid_view_def)
qed

section \<open>The future and the reactor\<close>

text \<open>
  The id a sleep holds is no source, and, as long as the sleep sees its deadline ahead, names a timer with
  that deadline.
\<close>

definition sleep_owns :: "instant \<Rightarrow> sleep_kernel \<Rightarrow> 'w reactor_thread \<Rightarrow> bool" where
  "sleep_owns clock k r \<longleftrightarrow> (\<forall>rid. sl_rid k = Some rid \<longrightarrow> sources r rid = None \<and>
     (observed_now clock r < sl_deadline k \<longrightarrow> (\<exists>w. timers r rid = Some (sl_deadline k, w))))"

lemma next_id_handle_deregister: "handle_deregister_timer rid r = Some r' \<Longrightarrow> next_resource_id r' = next_resource_id r"
  by (auto simp: handle_deregister_timer_def with_current_reactor_def deregister_timer_def Let_def split: if_splits option.splits)

lemma observed_now_park:
  assumes "reactor_ok r"
  shows "observed_now clock (flush_and_park S t r) = park_time S r"
proof -
  obtain res r' where p: "reactor_park S (Some t) (flush_pending_deregister r) = (res, r')" by fastforce
  have "cached_now r' = Some (park_time S (flush_pending_deregister r))"
    using reactor_park_ok [OF flush_ok(1,2) [OF assms] p] by blast
  then show ?thesis using p flush_ok(6) [OF assms] by (simp add: observed_now_def flush_and_park_def park_time_def)
qed

text \<open>Re-arming: give up the held timer, register the deadline again.\<close>

definition rearm_calls :: "sleep_kernel \<Rightarrow> 'w \<Rightarrow> u64 \<Rightarrow> 'w reactor_call list" where
  "rearm_calls k w rid = (case sl_rid k of Some old \<Rightarrow> [CDeregisterTimer old] | None \<Rightarrow> []) @ [CRegisterTimer (sl_deadline k) w (IoOk rid)]"

definition given_up :: "sleep_kernel \<Rightarrow> 'w reactor_thread \<Rightarrow> u64 \<Rightarrow> (instant \<times> 'w) option" where
  "given_up k r = (case sl_rid k of Some old \<Rightarrow> (timers r)(old := None) | None \<Rightarrow> timers r)"

lemma deregister_held_ok:
  assumes ok: "reactor_ok r" "entered r" and own: "sleep_owns clock k r"
  obtains r1 where "deregister_held k r = Some r1" "reactor_ok r1" "entered r1" "timers r1 = given_up k r"
    "sources r1 = sources r" "elapsed (wheel r1) = elapsed (wheel r)" "next_resource_id r1 = next_resource_id r"
    "reactor_run r (case sl_rid k of Some old \<Rightarrow> [CDeregisterTimer old] | None \<Rightarrow> []) r1"
proof (cases "sl_rid k")
  case None
  then show thesis using that [of r] ok by (simp add: deregister_held_def given_up_def run_nil)
next
  case (Some old)
  have src: "sources r old = None" using own Some by (simp add: sleep_owns_def)
  obtain r1 where h: "handle_deregister_timer old r = Some r1"
    using ok(2) by (auto simp: handle_deregister_timer_def with_current_reactor_def)
  have "reactor_run r [CDeregisterTimer old] r1" using step_deregister_timer [OF src h] by (simp add: reactor_run_single)
  then show thesis
    using that [of r1] handle_deregister_timer_ok [OF ok src h] quiet_handle_deregister_timer(1) [OF h]
      next_id_handle_deregister [OF h] h Some by (simp add: deregister_held_def given_up_def quiet_step_def)
qed

lemma sleep_poll_arms:
  assumes ok: "reactor_ok r" "entered r" and own: "sleep_owns clock k r" and clock: "elapsed (wheel r) \<le> clock"
    and ids: "next_resource_id r \<noteq> u64_max" and early: "observed_now clock r < sl_deadline k"
  obtains k' r' rid where "sleep_poll wv w clock k r = Some (k', r', SleepPending)" "sl_rid k' = Some rid" "sl_deadline k' = sl_deadline k"
    "reactor_run r (rearm_calls k w rid) r'" "timers r' = (given_up k r)(rid \<mapsto> (sl_deadline k, w))" "sources r' rid = None"
    "reactor_ok r'" "entered r'" "elapsed (wheel r') < sl_deadline k"
proof -
  let ?d = "sl_deadline k"
  obtain r1 where r1: "deregister_held k r = Some r1" "reactor_ok r1" "entered r1" "timers r1 = given_up k r"
    "sources r1 = sources r" "elapsed (wheel r1) = elapsed (wheel r)" "next_resource_id r1 = next_resource_id r"
    "reactor_run r (case sl_rid k of Some old \<Rightarrow> [CDeregisterTimer old] | None \<Rightarrow> []) r1"
    by (rule deregister_held_ok [OF ok own])
  have "observed_now clock r = elapsed (wheel r) \<or> observed_now clock r = clock"
    using ok(1) by (auto simp: observed_now_def reactor_ok_def split: option.splits)
  then have el: "elapsed (wheel r) < ?d" using early clock by auto
  have el1: "elapsed (wheel r1) < ?d" using el r1(6) by simp
  have "handle_register_timer ?d w r1 \<noteq> None" using r1(3) by (simp add: handle_register_timer_def with_current_reactor_def)
  then obtain res r' where h: "handle_register_timer ?d w r1 = Some (res, r')" by auto
  note reg = handle_register_timer_ok [OF r1(2,3) el1 h]
  obtain rid where res: "res = IoOk rid" using reg ids r1(7) by (cases res) auto
  have run: "reactor_run r (rearm_calls k w rid) r'"
    unfolding rearm_calls_def using step_register_timer [OF el1 h] res by (intro run_snoc [OF r1(8)]) simp
  have el': "elapsed (wheel r') < ?d" using quiet_handle_register_timer(1) [OF h] el1 by (simp add: quiet_step_def)
  have "sleep_poll wv w clock k r = Some (fst (sleep_poll_step wv (observed_now clock r) (Some rid) k), r', SleepPending)"
    using early r1(1) h res by (simp add: sleep_poll_def sleep_poll_step_def Let_def)
  then show thesis
    by (rule that [OF _ _ _ run]) (use early reg res r1 el' in \<open>auto simp: sleep_poll_step_def Let_def\<close>)
qed

lemma sleep_poll_ready_iff:
  "(\<exists>k' r'. sleep_poll wv w clock k r = Some (k', r', SleepReady)) \<longleftrightarrow> sl_deadline k \<le> observed_now clock r"
  by (auto simp: sleep_poll_def sleep_poll_step_def Let_def split: option.splits io_result.splits prod.splits if_splits)

lemma park_sources_None:
  assumes "reactor_ok r" "sources r rid = None"
  shows "sources (flush_and_park S t r) rid = None"
proof -
  obtain res r' where p: "reactor_park S (Some t) (flush_pending_deregister r) = (res, r')" by fastforce
  have "sources r' = sources r" using reactor_park_ok [OF flush_ok(1,2) [OF assms(1)] p] flush_ok(4) [OF assms(1)] by metis
  then show ?thesis using assms(2) p by (simp add: flush_and_park_def)
qed

section \<open>Property\<close>

text \<open>
  C38: A sleep composed with the reactor.  Polled in any reachable state of the reactor, with ids left and at a
  time not before that of the wheel, a sleep
  whose deadline the clock has reached is ready and leaves the reactor alone.  Otherwise it pends: the
  timer it held is given up and one timer with its deadline and the waker of this poll is armed, through
  calls the reactor allows; the next park wakes this waker, once, exactly when the deadline has been
  reached by then, and exactly then the next poll is ready.  In both cases the sleep still owns the timer it
  names.
\<close>

theorem sleep_on_time:
  assumes "reactor_run (reactor_enter reactor_new) cs r" "sleep_owns clock k r" "elapsed (wheel r) \<le> clock"
    "next_resource_id r \<noteq> u64_max"
  shows "if sl_deadline k \<le> observed_now clock r
    then \<exists>k'. sleep_poll wv w clock k r = Some (k', r, SleepReady) \<and> sl_rid k' = None
    else \<exists>k' r' rid. sleep_poll wv w clock k r = Some (k', r', SleepPending) \<and> sl_rid k' = Some rid \<and>
      reactor_run (reactor_enter reactor_new) (cs @ rearm_calls k w rid) r' \<and>
      timers r' = (given_up k r)(rid \<mapsto> (sl_deadline k, w)) \<and> sleep_owns clock k' r' \<and>
      (\<forall>S t clock'.
         filter (\<lambda>x. snd x = rid) (new_wakes r' (flush_and_park S t r')) = (if sl_deadline k \<le> os_now S then [(w, rid)] else []) \<and>
         sleep_owns clock' k' (flush_and_park S t r') \<and>
         ((\<exists>k2 r2. sleep_poll wv' w' clock' k' (flush_and_park S t r') = Some (k2, r2, SleepReady)) \<longleftrightarrow> sl_deadline k \<le> os_now S))"
proof (cases "sl_deadline k \<le> observed_now clock r")
  case True
  then show ?thesis by (simp add: sleep_poll_def sleep_poll_step_def Let_def)
next
  case False
  have ok: "reactor_ok r" "entered r" using reactor_run_ok [OF assms(1) reactor_ok_start] by blast+
  obtain k' r' rid where p: "sleep_poll wv w clock k r = Some (k', r', SleepPending)" "sl_rid k' = Some rid" "sl_deadline k' = sl_deadline k"
    "reactor_run r (rearm_calls k w rid) r'" "timers r' = (given_up k r)(rid \<mapsto> (sl_deadline k, w))" "sources r' rid = None"
    and r': "reactor_ok r'" "entered r'" and el: "elapsed (wheel r') < sl_deadline k"
    using False by (elim sleep_poll_arms [OF ok assms(2-4), of wv w thesis, rotated]) auto
  have armed: "timers r' rid = Some (sl_deadline k, w)" by (simp add: p(5))
  have "filter (\<lambda>x. snd x = rid) (new_wakes r' (flush_and_park S t r')) = (if sl_deadline k \<le> os_now S then [(w, rid)] else []) \<and>
      sleep_owns clock' k' (flush_and_park S t r') \<and>
      ((\<exists>k2 r2. sleep_poll wv' w' clock' k' (flush_and_park S t r') = Some (k2, r2, SleepReady)) \<longleftrightarrow> sl_deadline k \<le> os_now S)"
    for S t clock'
  proof -
    let ?r2 = "flush_and_park S t r'"
    have due: "sl_deadline k \<le> park_time S r' \<longleftrightarrow> sl_deadline k \<le> os_now S" using el by (auto simp: park_time_def max_def)
    note now = observed_now_park [OF r'(1), of clock' S t]
    note t = armed_timer_park [OF r' armed el, of S t]
    have src: "sources ?r2 rid = None" by (rule park_sources_None [OF r'(1) p(6)])
    have "(\<exists>k2 r2. sleep_poll wv' w' clock' k' ?r2 = Some (k2, r2, SleepReady)) \<longleftrightarrow> sl_deadline k \<le> os_now S"
      unfolding sleep_poll_ready_iff now p(3) due ..
    then show ?thesis using t src now due by (auto simp: sleep_owns_def p(2,3) not_le)
  qed
  moreover have "reactor_run (reactor_enter reactor_new) (cs @ rearm_calls k w rid) r'"
    using assms(1) p(4) reactor_run_append by blast
  ultimately show ?thesis using False p armed by (auto simp: sleep_owns_def)
qed

text \<open>Witness: a new sleep until 5, polled at 1, with a park at 7.\<close>

theorem sleep_on_time_witness:
  "\<exists>k' r' rid. sleep_poll 0 (42 :: nat) 1 (sleep_kernel_new 5) (reactor_enter reactor_new) = Some (k', r', SleepPending) \<and>
     filter (\<lambda>x. snd x = rid) (new_wakes r' (flush_and_park (idle_os 7) 10 r')) = [(42, rid)] \<and>
     (\<exists>k2 r2. sleep_poll 0 43 8 k' (flush_and_park (idle_os 7) 10 r') = Some (k2, r2, SleepReady))"
proof -
  let ?r = "reactor_enter reactor_new :: nat reactor_thread"
  have el: "elapsed (wheel ?r) \<le> 1" and c: "cached_now ?r = None" and n: "next_resource_id ?r \<noteq> u64_max"
    using tw.inv_empty by (simp_all add: reactor_enter_def reactor_new_def)
  have own: "sleep_owns 1 (sleep_kernel_new 5) ?r" by (simp add: sleep_owns_def sleep_kernel_new_def)
  have late: "\<not> sl_deadline (sleep_kernel_new 5) \<le> observed_now 1 ?r" using c by (simp add: observed_now_def sleep_kernel_new_def word_le_nat_alt)
  have due: "sl_deadline (sleep_kernel_new 5) \<le> os_now (idle_os 7)" by (simp add: idle_os_def sleep_kernel_new_def word_le_nat_alt)
  note all = sleep_on_time [OF run_nil own el n, of 0 42 0 43, unfolded if_not_P [OF late]]
  then obtain k' r' rid where p: "sleep_poll 0 42 1 (sleep_kernel_new 5) ?r = Some (k', r', SleepPending)"
    and "\<forall>S t clock'.
      filter (\<lambda>x. snd x = rid) (new_wakes r' (flush_and_park S t r')) =
        (if sl_deadline (sleep_kernel_new 5) \<le> os_now S then [(42, rid)] else []) \<and>
      sleep_owns clock' k' (flush_and_park S t r') \<and>
      ((\<exists>k2 r2. sleep_poll 0 43 clock' k' (flush_and_park S t r') = Some (k2, r2, SleepReady)) \<longleftrightarrow>
        sl_deadline (sleep_kernel_new 5) \<le> os_now S)" by blast
  from this(2) [rule_format, of "idle_os 7" 10 8] due p show ?thesis by auto
qed

end
