(* ===== verification/Interval.thy ===== *)
theory Interval
  imports Sleep
begin

text \<open>
  What is built on a sleep: the interval (\<^verbatim>\<open>lion-utility/src/time/interval_kernel.rs\<close>, \<^verbatim>\<open>interval.rs\<close>) and the
  timeout (\<^verbatim>\<open>timeout_kernel.rs\<close>, \<^verbatim>\<open>timeout.rs\<close>).  The future that a timeout wraps is a parameter: its state and its
  poll function.
\<close>

section \<open>Interval\<close>

record interval_kernel =
  iv_deadline :: u64
  iv_period :: u64
  iv_first :: nat
  iv_fires :: nat

definition iv_wf :: "interval_kernel \<Rightarrow> bool" where
  "iv_wf k \<longleftrightarrow> unat (iv_deadline k) = iv_first k + iv_fires k * unat (iv_period k)"

definition interval_kernel_new :: "u64 \<Rightarrow> u64 \<Rightarrow> interval_kernel" where
  "interval_kernel_new start period = \<lparr>iv_deadline = start, iv_period = period, iv_first = unat start, iv_fires = 0\<rparr>"

definition tick_step :: "interval_kernel \<Rightarrow> interval_kernel" where
  "tick_step k = k\<lparr>iv_deadline := iv_deadline k + iv_period k, iv_fires := iv_fires k + 1\<rparr>"

record interval =
  iv_sleep :: sleep_kernel
  ikern :: interval_kernel

definition period_ticks :: "duration \<Rightarrow> u64" where
  "period_ticks period = (if period = 0 then 1 else period)"

definition interval_new_at :: "instant \<Rightarrow> duration \<Rightarrow> interval" where
  "interval_new_at start period =
     \<lparr>iv_sleep = sleep_kernel_new start, ikern = interval_kernel_new start (period_ticks period)\<rparr>"

definition interval_new :: "duration \<Rightarrow> instant \<Rightarrow> interval" where
  "interval_new period clock = interval_new_at (instant_add clock period) period"

text \<open>
  The assignment of the next sleep drops the one that is done.  \<open>now\<close> is the reading of the clock that a
  tick returns.
\<close>

definition poll_tick ::
  "int \<Rightarrow> 'w \<Rightarrow> instant \<Rightarrow> instant \<Rightarrow> interval \<Rightarrow> 'w reactor_thread \<Rightarrow> (interval \<times> 'w reactor_thread \<times> instant option) option" where
  "poll_tick wv w clock now iv r =
     (case sleep_poll wv w clock (iv_sleep iv) r of
        None \<Rightarrow> None
      | Some (sl, r1, SleepReady) \<Rightarrow>
          (let ik = tick_step (ikern iv)
           in case sleep_drop sl r1 of
                None \<Rightarrow> None
              | Some (_, r2) \<Rightarrow> Some (iv\<lparr>iv_sleep := sleep_kernel_new (iv_deadline ik), ikern := ik\<rparr>, r2, Some now))
      | Some (sl, r1, SleepPending) \<Rightarrow> Some (iv\<lparr>iv_sleep := sl\<rparr>, r1, None))"

section \<open>Timeout\<close>

datatype timeout_action = ReadyOk | ReadyElapsed | BothPending

definition timeout_step :: "bool \<Rightarrow> bool \<Rightarrow> timeout_action" where
  "timeout_step fut_ready sleep_ready = (if fut_ready then ReadyOk else if sleep_ready then ReadyElapsed else BothPending)"

record 'f timeout =
  inner :: 'f
  to_sleep :: sleep_kernel

datatype 'o timeout_result = TimeoutOk 'o | TimeoutElapsed | TimeoutPending

definition timeout_new :: "duration \<Rightarrow> instant \<Rightarrow> 'f \<Rightarrow> 'f timeout" where
  "timeout_new dur clock f = \<lparr>inner = f, to_sleep = sleep_for dur clock\<rparr>"

definition timeout_poll ::
  "('w \<Rightarrow> 'f \<Rightarrow> 'w reactor_thread \<Rightarrow> 'f \<times> 'w reactor_thread \<times> 'o option) \<Rightarrow> int \<Rightarrow> 'w \<Rightarrow> instant \<Rightarrow> 'f timeout \<Rightarrow> 'w reactor_thread \<Rightarrow>
     ('f timeout \<times> 'w reactor_thread \<times> 'o timeout_result) option" where
  "timeout_poll poll wv w clock t r =
     (case poll w (inner t) r of (f1, r1, out) \<Rightarrow>
        let t1 = t\<lparr>inner := f1\<rparr> in
        case (if out \<noteq> None then Some (to_sleep t1, r1, False)
              else map_option (\<lambda>(sl, r2, res). (sl, r2, res = SleepReady)) (sleep_poll wv w clock (to_sleep t1) r1)) of
          None \<Rightarrow> None
        | Some (sl, r2, sleep_ready) \<Rightarrow>
            Some (t1\<lparr>to_sleep := sl\<rparr>, r2,
              case timeout_step (out \<noteq> None) sleep_ready of
                ReadyOk \<Rightarrow> TimeoutOk (the out) | ReadyElapsed \<Rightarrow> TimeoutElapsed | BothPending \<Rightarrow> TimeoutPending))"

text \<open>A timeout that pends has polled both futures and both pend: each has a source that will wake it.\<close>

lemma timeout_pending_both:
  assumes "timeout_poll poll wv w clock t r = Some (t', r', TimeoutPending)"
  obtains r1 where "poll w (inner t) r = (inner t', r1, None)"
    "sleep_poll wv w clock (to_sleep t) r1 = Some (to_sleep t', r', SleepPending)"
proof -
  obtain f1 r1 out where p: "poll w (inner t) r = (f1, r1, out)" by (metis prod_cases3)
  have out: "out = None" using assms p by (cases out) (auto simp: timeout_poll_def timeout_step_def)
  then obtain sl r2 res where s: "sleep_poll wv w clock (to_sleep t) r1 = Some (sl, r2, res)"
    using assms p by (cases "sleep_poll wv w clock (to_sleep t) r1") (auto simp: timeout_poll_def Let_def)
  have "res = SleepPending" using assms p out s by (cases res) (auto simp: timeout_poll_def timeout_step_def)
  then show thesis using that [of r1] assms p out s by (auto simp: timeout_poll_def timeout_step_def)
qed

section \<open>Ticks\<close>

text \<open>Polls of an interval, in reactor states that the rest of the program produces; the clock seen at each tick.\<close>

fun interval_run ::
  "(int \<times> 'w \<times> instant \<times> instant \<times> 'w reactor_thread) list \<Rightarrow> interval \<Rightarrow> instant list \<Rightarrow> (interval \<times> instant list) option" where
  "interval_run [] iv obs = Some (iv, obs)"
| "interval_run ((wv, w, clock, now, r) # ps) iv obs =
     (case poll_tick wv w clock now iv r of
        None \<Rightarrow> None
      | Some (iv1, _, None) \<Rightarrow> interval_run ps iv1 obs
      | Some (iv1, _, Some _) \<Rightarrow> interval_run ps iv1 (obs @ [observed_now clock r]))"

definition interval_inv :: "instant \<Rightarrow> u64 \<Rightarrow> interval \<Rightarrow> instant list \<Rightarrow> bool" where
  "interval_inv start p iv obs \<longleftrightarrow>
     iv_period (ikern iv) = p \<and> iv_deadline (ikern iv) = start + of_nat (length obs) * p \<and> iv_first (ikern iv) = unat start \<and>
     iv_fires (ikern iv) = length obs \<and> sl_deadline (iv_sleep iv) = iv_deadline (ikern iv) \<and>
     (\<forall>i < length obs. start + of_nat i * p \<le> obs ! i)"

lemma sleep_poll_deadline: "sleep_poll wv w clock k r = Some (k', r', res) \<Longrightarrow> sl_deadline k' = sl_deadline k"
  by (auto simp: sleep_poll_def sleep_poll_step_def Let_def split: option.splits io_result.splits prod.splits if_splits sleep_action.splits)

lemma poll_tick_cases:
  assumes "poll_tick wv w clock now iv r = Some (iv', r', res)"
  obtains "res = None" "ikern iv' = ikern iv" "sl_deadline (iv_sleep iv') = sl_deadline (iv_sleep iv)"
    | "res = Some now" "ikern iv' = tick_step (ikern iv)" "sl_deadline (iv_sleep iv') = iv_deadline (ikern iv')"
      "sl_deadline (iv_sleep iv) \<le> observed_now clock r"
proof -
  obtain sl r1 q where p: "sleep_poll wv w clock (iv_sleep iv) r = Some (sl, r1, q)"
    using assms by (auto simp: poll_tick_def split: option.splits)
  show thesis
  proof (cases q)
    case SleepReady
    then have "sl_deadline (iv_sleep iv) \<le> observed_now clock r" using p sleep_poll_ready_iff [of wv w clock "iv_sleep iv" r] by blast
    then show thesis using that(2) assms p SleepReady
      by (auto simp: poll_tick_def sleep_kernel_new_def Let_def split: option.splits)
  next
    case SleepPending
    then show thesis using that(1) assms p sleep_poll_deadline [OF p] by (auto simp: poll_tick_def)
  qed
qed

lemma interval_run_inv:
  "interval_run ps iv obs = Some (iv', obs') \<Longrightarrow> interval_inv start p iv obs \<Longrightarrow> interval_inv start p iv' obs'"
proof (induction ps arbitrary: iv obs)
  case (Cons a ps)
  obtain wv w clock now r where a: "a = (wv, w, clock, now, r)" by (metis prod_cases5)
  obtain iv1 r1 res where p: "poll_tick wv w clock now iv r = Some (iv1, r1, res)"
    using Cons.prems(1) a by (auto split: option.splits)
  show ?case
  proof (rule poll_tick_cases [OF p])
    assume "res = None" "ikern iv1 = ikern iv" "sl_deadline (iv_sleep iv1) = sl_deadline (iv_sleep iv)"
    then show ?thesis using Cons a p by (auto simp: interval_inv_def)
  next
    assume t: "res = Some now" "ikern iv1 = tick_step (ikern iv)" "sl_deadline (iv_sleep iv1) = iv_deadline (ikern iv1)"
      "sl_deadline (iv_sleep iv) \<le> observed_now clock r"
    then have "interval_inv start p iv1 (obs @ [observed_now clock r])"
      using Cons.prems(2) by (auto simp: interval_inv_def tick_step_def nth_append less_Suc_eq algebra_simps)
    then show ?thesis using Cons.IH Cons.prems(1) a p t(1) by auto
  qed
qed simp

section \<open>Property\<close>

text \<open>
  C40: An interval does not drift.  However late its polls come, after \<open>n\<close> ticks the next deadline is exactly
  the start plus \<open>n\<close> periods, and no tick comes before the deadline it stands for, as long as that
  deadline fits in 64 bits (the code adds without a check and wraps beyond).  A period of zero counts as
  one millisecond.
\<close>

theorem interval_drift_free:
  assumes "interval_run ps (interval_new_at start period) [] = Some (iv, obs)"
    "unat start + length obs * max 1 (unat period) < 2 ^ 64"
  shows "iv_wf (ikern iv) \<and> unat (sl_deadline (iv_sleep iv)) = unat start + length obs * max 1 (unat period) \<and>
    (\<forall>i < length obs. unat start + i * max 1 (unat period) \<le> unat (obs ! i))"
proof -
  let ?p = "period_ticks period"
  have p: "unat ?p = max 1 (unat period)"
    using unat_gt_0 [of period] by (auto simp: period_ticks_def max_def simp del: unat_gt_0)
  have inv: "interval_inv start ?p iv obs"
    by (rule interval_run_inv [OF assms(1)]) (simp add: interval_inv_def interval_new_at_def interval_kernel_new_def sleep_kernel_new_def)
  have fits: "unat (start + of_nat i * ?p) = unat start + i * unat ?p" if "i \<le> length obs" for i
  proof -
    have "unat start + i * unat ?p \<le> unat start + length obs * unat ?p" using that by simp
    then have "unat start + i * unat ?p < 2 ^ 64" by (rule le_less_trans) (use assms(2) p in simp)
    moreover have "start + of_nat i * ?p = of_nat (unat start + i * unat ?p)" by simp
    ultimately show ?thesis using unat_u64_of_nat [of "unat start + i * unat ?p"] by simp
  qed
  have "unat start + i * unat ?p \<le> unat (obs ! i)" if "i < length obs" for i
    using inv that fits [of i] by (auto simp: interval_inv_def word_le_nat_alt)
  then show ?thesis using inv fits [of "length obs"] by (simp add: interval_inv_def iv_wf_def p)
qed

text \<open>Witness: two late polls, at 10, of an interval that starts at 0 with period 4.\<close>

theorem interval_drift_free_witness:
  "\<exists>iv. interval_run [(0, 7::nat, 10, 10, reactor_new), (0, 7, 11, 11, reactor_new)] (interval_new_at 0 4) [] = Some (iv, [10, 11]) \<and>
     unat (sl_deadline (iv_sleep iv)) = 8"
proof -
  obtain iv where r: "interval_run [(0, 7::nat, 10, 10, reactor_new), (0, 7, 11, 11, reactor_new)] (interval_new_at 0 4) [] = Some (iv, [10, 11])"
    by (simp add: interval_new_at_def period_ticks_def interval_kernel_new_def sleep_kernel_new_def poll_tick_def sleep_poll_def
      observed_now_def reactor_new_def sleep_poll_step_def tick_step_def sleep_drop_def deregister_held_def Let_def)
  from interval_drift_free [OF r] r show ?thesis by auto
qed

end
