(* ===== verification/Net.thy ===== *)
theory Net
  imports Sleep
begin

text \<open>
  Sockets: model of \<^verbatim>\<open>lion-utility/src/net/tcp/\<close> (\<open>kernel.rs\<close>, \<open>proof.rs\<close>, \<open>stream.rs\<close>, \<open>listener.rs\<close>) and
  \<^verbatim>\<open>lion-utility/src/net/udp.rs\<close>.  A socket is its resource id and its kernel; what the system calls answer is an
  argument of each operation, and so is the waker that \<open>create_reactor_waker_for_current\<close> makes.  A call that
  panics is \<open>None\<close>.
\<close>

section \<open>The kernel\<close>

datatype io_method = MRead | MWrite | MAccept

type_synonym io_log = "(io_method, unit) ulog"

definition io_tick_begin :: "int \<Rightarrow> io_method \<Rightarrow> (io_method, unit) utility_event" where
  "io_tick_begin w m = UInbound (UTick w m None)"

definition io_tick_end :: "int \<Rightarrow> io_method \<Rightarrow> unit tick_result \<Rightarrow> (io_method, unit) utility_event" where
  "io_tick_end w m res = UInbound (UTick w m (Some res))"

definition ev_register_io :: "nat \<Rightarrow> (io_method, unit) utility_event" where
  "ev_register_io rid = UOutbound (URegisterIo 0 (True, True) (Some (IoOk rid)))"

definition ev_set_io_waker :: "nat \<Rightarrow> int \<Rightarrow> (io_method, unit) utility_event" where
  "ev_set_io_waker rid w = UOutbound (USetIoWaker rid (True, True) w (IoOk ()))"

definition ev_deregister_io :: "nat \<Rightarrow> (io_method, unit) utility_event" where
  "ev_deregister_io rid = UOutbound (UDeregisterIo rid (IoOk ()))"

definition io_wf :: "io_log \<Rightarrow> nat option \<Rightarrow> bool" where
  "io_wf l rid \<longleftrightarrow> utility_inv l \<and>
     (\<forall>t. rid = Some t \<longrightarrow> io_active_at l t (length l) \<and> token_active_before l t (length l))"

datatype io_outcome = OutReady | OutWouldBlock

definition io_step_segment :: "nat \<Rightarrow> int \<Rightarrow> io_method \<Rightarrow> io_outcome \<Rightarrow> io_log" where
  "io_step_segment rid w m out =
     (case out of
        OutReady \<Rightarrow> [io_tick_begin w m, io_tick_end w m (TFinished ())]
      | OutWouldBlock \<Rightarrow> [io_tick_begin w m, ev_set_io_waker rid w, io_tick_end w m TPending])"

definition io_new_segment :: "nat \<Rightarrow> io_log" where
  "io_new_segment rid = [ev_register_io rid]"

definition io_drop_segment :: "nat \<Rightarrow> io_log" where
  "io_drop_segment rid = [ev_deregister_io rid]"

record io_kernel =
  io_rid :: "u64 option"
  io_log :: io_log

definition io_well_formed :: "io_kernel \<Rightarrow> bool" where
  "io_well_formed k \<longleftrightarrow> io_wf (io_log k) (opt_rid_view (io_rid k))"

datatype io_action = IoComplete | IoArm

definition io_kernel_new :: "u64 \<Rightarrow> io_kernel" where
  "io_kernel_new rid = \<lparr>io_rid = Some rid, io_log = io_new_segment (unat rid)\<rparr>"

definition io_poll_step :: "int \<Rightarrow> io_method \<Rightarrow> bool \<Rightarrow> bool \<Rightarrow> io_kernel \<Rightarrow> (io_kernel \<times> io_action) option" where
  "io_poll_step wv m was_ready would_block k =
     (let arm = \<not> was_ready \<or> would_block in
      case io_rid k of
        None \<Rightarrow> None
      | Some r \<Rightarrow>
          Some (k\<lparr>io_log := io_log k @ io_step_segment (unat r) wv m (if arm then OutWouldBlock else OutReady)\<rparr>,
                if arm then IoArm else IoComplete))"

definition io_drop_step :: "io_kernel \<Rightarrow> io_kernel" where
  "io_drop_step k =
     (case io_rid k of
        Some r \<Rightarrow> k\<lparr>io_rid := None, io_log := io_log k @ io_drop_segment (unat r)\<rparr>
      | None \<Rightarrow> k)"

section \<open>Sockets\<close>

record socket =
  resource_id :: u64
  skernel :: io_kernel

datatype ('a, 'e) syscall = SysOk 'a | SysWouldBlock | SysErr 'e

datatype ('a, 'e) io_poll = IoReady 'a | IoFailed 'e | IoPending

definition INTEREST_READABLE :: interest where "INTEREST_READABLE = \<lparr>readable = True, writable = False\<rparr>"
definition INTEREST_WRITABLE :: interest where "INTEREST_WRITABLE = \<lparr>readable = False, writable = True\<rparr>"
definition INTEREST_READABLE_WRITABLE :: interest where "INTEREST_READABLE_WRITABLE = \<lparr>readable = True, writable = True\<rparr>"

text \<open>The registration that every constructor makes: the interest differs.\<close>

definition socket_new :: "os \<Rightarrow> int \<Rightarrow> interest \<Rightarrow> 'w reactor_thread \<Rightarrow> (socket io_result \<times> 'w reactor_thread) option" where
  "socket_new S source interest r =
     (case handle_register_io_resource S source interest r of
        None \<Rightarrow> None
      | Some (IoErr e, r1) \<Rightarrow> Some (IoErr e, r1)
      | Some (IoOk rid, r1) \<Rightarrow>
          Some (IoOk \<lparr>resource_id = rid, skernel = io_kernel_new rid\<rparr>,
                r1\<lparr>io_readiness := init_readiness rid (io_readiness r1)\<rparr>))"

definition tcp_from_mio :: "os \<Rightarrow> int \<Rightarrow> 'w reactor_thread \<Rightarrow> (socket io_result \<times> 'w reactor_thread) option" where
  "tcp_from_mio S source = socket_new S source INTEREST_READABLE_WRITABLE"

definition listener_new :: "os \<Rightarrow> int \<Rightarrow> 'w reactor_thread \<Rightarrow> (socket io_result \<times> 'w reactor_thread) option" where
  "listener_new S source = socket_new S source INTEREST_READABLE"

definition udp_new :: "os \<Rightarrow> int \<Rightarrow> 'w reactor_thread \<Rightarrow> (socket io_result \<times> 'w reactor_thread) option" where
  "udp_new S source = socket_new S source INTEREST_READABLE_WRITABLE"

definition socket_drop :: "os \<Rightarrow> int \<Rightarrow> socket \<Rightarrow> 'w reactor_thread \<Rightarrow> (socket \<times> 'w reactor_thread) option" where
  "socket_drop S source s r =
     map_option (\<lambda>(_, r1). (s\<lparr>skernel := io_drop_step (skernel s)\<rparr>, r1)) (handle_deregister_io_resource S (resource_id s) source r)"

text \<open>
  The two halves of every poll.  First, when the flag of the direction is up, the system call:
  it takes the flag down when it would block, or when \<open>short\<close> says that the result was partial.  Then the
  kernel's decision: arm the waker and pend, or return what the call gave.
\<close>

definition io_attempt ::
  "bool \<Rightarrow> (readiness \<Rightarrow> readiness) \<Rightarrow> ('a \<Rightarrow> bool) \<Rightarrow> ('a, 'e) io_poll \<Rightarrow> ('a, 'e) syscall \<Rightarrow> 'w reactor_thread \<Rightarrow>
     'w reactor_thread \<times> bool \<times> ('a, 'e) io_poll" where
  "io_attempt was_ready clear short initial sys r =
     (if \<not> was_ready then (r, False, initial)
      else case sys of
        SysOk n \<Rightarrow> (if short n then r\<lparr>io_readiness := clear (io_readiness r)\<rparr> else r, False, IoReady n)
      | SysWouldBlock \<Rightarrow> (r\<lparr>io_readiness := clear (io_readiness r)\<rparr>, True, initial)
      | SysErr e \<Rightarrow> (r, False, IoFailed e))"

definition io_decide ::
  "int \<Rightarrow> 'w \<Rightarrow> io_method \<Rightarrow> interest \<Rightarrow> bool \<Rightarrow> socket \<Rightarrow> 'w reactor_thread \<times> bool \<times> ('a, 'e) io_poll \<Rightarrow>
     (socket \<times> 'w reactor_thread \<times> ('a, 'e) io_poll) option" where
  "io_decide wv w m interest was_ready s x =
     (case x of (r1, would_block, result) \<Rightarrow>
      case io_poll_step wv m was_ready would_block (skernel s) of
        None \<Rightarrow> None
      | Some (k, IoArm) \<Rightarrow>
          map_option (\<lambda>r2. (s\<lparr>skernel := k\<rparr>, r2, IoPending)) (handle_set_waker (resource_id s) interest w r1)
      | Some (k, IoComplete) \<Rightarrow> Some (s\<lparr>skernel := k\<rparr>, r1, result))"

definition partial_len :: "nat \<Rightarrow> nat \<Rightarrow> bool" where
  "partial_len len n \<longleftrightarrow> 0 < n \<and> n < len"

definition poll_read ::
  "int \<Rightarrow> 'w \<Rightarrow> nat \<Rightarrow> (nat, 'e) syscall \<Rightarrow> socket \<Rightarrow> 'w reactor_thread \<Rightarrow> (socket \<times> 'w reactor_thread \<times> (nat, 'e) io_poll) option" where
  "poll_read wv w len sys s r =
     (let was_ready = is_readable (resource_id s) (io_readiness r)
      in io_decide wv w MRead INTEREST_READABLE was_ready s
           (io_attempt was_ready (clear_readable (resource_id s)) (partial_len len) (IoReady 0) sys r))"

definition poll_write ::
  "int \<Rightarrow> 'w \<Rightarrow> nat \<Rightarrow> (nat, 'e) syscall \<Rightarrow> socket \<Rightarrow> 'w reactor_thread \<Rightarrow> (socket \<times> 'w reactor_thread \<times> (nat, 'e) io_poll) option" where
  "poll_write wv w len sys s r =
     (let was_ready = is_writable (resource_id s) (io_readiness r)
      in io_decide wv w MWrite INTEREST_WRITABLE was_ready s
           (io_attempt was_ready (clear_writable (resource_id s)) (partial_len len) (IoReady 0) sys r))"

definition recv_from ::
  "int \<Rightarrow> 'w \<Rightarrow> ('a, 'e) syscall \<Rightarrow> socket \<Rightarrow> 'w reactor_thread \<Rightarrow> (socket \<times> 'w reactor_thread \<times> ('a, 'e) io_poll) option" where
  "recv_from wv w sys s r =
     (let was_ready = is_readable (resource_id s) (io_readiness r)
      in io_decide wv w MRead INTEREST_READABLE was_ready s
           (io_attempt was_ready (clear_readable (resource_id s)) (\<lambda>_. False) IoPending sys r))"

definition send_to ::
  "int \<Rightarrow> 'w \<Rightarrow> ('a, 'e) syscall \<Rightarrow> socket \<Rightarrow> 'w reactor_thread \<Rightarrow> (socket \<times> 'w reactor_thread \<times> ('a, 'e) io_poll) option" where
  "send_to wv w sys s r =
     (let was_ready = is_writable (resource_id s) (io_readiness r)
      in io_decide wv w MWrite INTEREST_WRITABLE was_ready s
           (io_attempt was_ready (clear_writable (resource_id s)) (\<lambda>_. False) IoPending sys r))"

text \<open>
  A listener registers the accepted socket as a new stream before it returns it; the error of that
  registration is on the left.
\<close>

definition accept_poll ::
  "int \<Rightarrow> 'w \<Rightarrow> os \<Rightarrow> (int \<times> 'a, 'e) syscall \<Rightarrow> socket \<Rightarrow> 'w reactor_thread \<Rightarrow>
     (socket \<times> 'w reactor_thread \<times> (socket \<times> 'a, int + 'e) io_poll) option" where
  "accept_poll wv w S sys s r =
     (let was_ready = is_readable (resource_id s) (io_readiness r)
      in case (if \<not> was_ready then Some (r, False, IoPending)
               else case sys of
                 SysOk (source, addr) \<Rightarrow>
                   (case tcp_from_mio S source r of
                      None \<Rightarrow> None
                    | Some (IoOk st, r1) \<Rightarrow> Some (r1, False, IoReady (st, addr))
                    | Some (IoErr e, r1) \<Rightarrow> Some (r1, False, IoFailed (Inl e)))
               | SysWouldBlock \<Rightarrow> Some (r\<lparr>io_readiness := clear_readable (resource_id s) (io_readiness r)\<rparr>, True, IoPending)
               | SysErr e \<Rightarrow> Some (r, False, IoFailed (Inr e))) of
           None \<Rightarrow> None
         | Some x \<Rightarrow> io_decide wv w MAccept INTEREST_READABLE was_ready s x)"

text \<open>A connection in progress: the pending error of the socket (an outer error when it cannot be read), then the peer.\<close>

datatype 'e peer_addr = Connected | NotConnected | PeerErr 'e

definition connect_poll ::
  "'w \<Rightarrow> 'e + 'e option \<Rightarrow> 'e peer_addr \<Rightarrow> socket \<Rightarrow> 'w reactor_thread \<Rightarrow> ('w reactor_thread \<times> (socket, 'e) io_poll) option" where
  "connect_poll w take_error peer s r =
     (let arm = (\<lambda>r1. map_option (\<lambda>r2. (r2, IoPending)) (handle_set_waker (resource_id s) INTEREST_WRITABLE w r1))
      in if is_writable (resource_id s) (io_readiness r)
         then case take_error of
             Inl e \<Rightarrow> Some (r, IoFailed e)
           | Inr (Some e) \<Rightarrow> Some (r, IoFailed e)
           | Inr None \<Rightarrow>
               (case peer of
                  Connected \<Rightarrow> Some (r, IoReady s)
                | NotConnected \<Rightarrow> arm (r\<lparr>io_readiness := clear_writable (resource_id s) (io_readiness r)\<rparr>)
                | PeerErr e \<Rightarrow> Some (r, IoFailed e))
         else arm r)"

section \<open>The kernel keeps its log in order\<close>

lemmas io_events = io_tick_begin_def io_tick_end_def ev_register_io_def ev_set_io_waker_def ev_deregister_io_def

lemma io_active_snoc:
  assumes "io_active_at l rid (length l)" "\<And>e. e \<in> set s \<Longrightarrow> \<not> is_deregister_io rid e"
  shows "io_active_at (l @ s) rid (length l + i)"
proof -
  have "\<not> at (l @ s) k (is_deregister_io rid)" for k
  proof (cases "k < length l")
    case True
    then show ?thesis using assms(1) by (auto simp: io_active_at_def)
  next
    case False
    then show ?thesis using assms(2) by (auto simp: at_def nth_append)
  qed
  moreover obtain j where "j < length l" "at l j (is_register_io_succ rid)" using assms(1) by (auto simp: io_active_at_def)
  ultimately show ?thesis unfolding io_active_at_def by (intro conjI exI [of _ j]) auto
qed

lemma io_step_keeps:
  "\<not> at (io_step_segment rid w m out) j (is_deregister_timer rt) \<and> \<not> at (io_step_segment rid w m out) j (is_deregister_io rt)"
  by (cases out) (auto simp: io_step_segment_def io_events at_Cons at_Nil split: nat.splits)

lemma io_step_inv:
  assumes inv: "utility_inv l" and act: "io_active_at l rid (length l)" "token_active_before l rid (length l)"
  shows "utility_inv (l @ io_step_segment rid w m out)"
proof (rule utility_inv_append [OF inv])
  let ?s = "io_step_segment rid w m out"
  fix i
  assume "at ?s i is_utick_end_pending"
  then have out: "out = OutWouldBlock" and i: "i = 2"
    by (cases out; auto simp: io_step_segment_def io_events at_Cons at_Nil numeral_2_eq_2 split: nat.splits)+
  have "complete_tick_cycle (l @ ?s) (length l) (length l + 2)"
    using segment_cycle [of ?s w m "[ev_set_io_waker rid w]" TPending l] by (simp add: out io_step_segment_def io_events)
  moreover have "at (l @ ?s) (length l + 1) (is_set_io_waker rid w)"
    unfolding at_suffix by (simp add: out io_step_segment_def io_events at_Cons)
  then have "io_armed_for_in_cycle (l @ ?s) w (length l) (length l + 2)"
    unfolding io_armed_for_in_cycle_def
    by (intro exI [of _ rid] conjI exI [of _ "length l + 1"] io_active_snoc [OF act(1)])
      (auto simp: out io_step_segment_def io_events)
  moreover have "get_utick_waker (?s ! i) = w" by (simp add: out i io_step_segment_def io_events)
  ultimately show "\<exists>b. complete_tick_cycle (l @ ?s) b (length l + i) \<and>
      active_wakeup_source_for (l @ ?s) (get_utick_waker (?s ! i)) b (length l + i)"
    by (intro exI [of _ "length l"]) (simp add: i active_wakeup_source_for_def)
next
  let ?s = "io_step_segment rid w m out"
  fix i rt
  assume "at ?s i (\<lambda>e. resource_token e = Some rt)"
  then have "rt = rid" by (cases out) (auto simp: io_step_segment_def io_events at_Cons at_Nil split: nat.splits)
  then show "token_active_before (l @ ?s) rt (length l + i)"
    using act(2) io_step_keeps by (intro token_active_snoc) auto
qed

lemma io_wf_step:
  assumes "io_wf l (Some rid)"
  shows "io_wf (l @ io_step_segment rid w m out) (Some rid)"
proof -
  let ?s = "io_step_segment rid w m out"
  have "io_active_at (l @ ?s) rid (length l + length ?s)"
    using assms by (intro io_active_snoc) (cases out; auto simp: io_wf_def io_step_segment_def io_events)+
  moreover have "token_active_before (l @ ?s) rid (length l + length ?s)"
    using assms io_step_keeps by (intro token_active_snoc) (auto simp: io_wf_def)
  ultimately show ?thesis using assms io_step_inv [of l rid w m out] by (simp add: io_wf_def)
qed

lemma io_kernel_wf:
  "io_well_formed (io_kernel_new rid)"
  "io_well_formed k \<Longrightarrow> io_poll_step wv m was_ready would_block k = Some (k', a) \<Longrightarrow> io_well_formed k'"
  "io_well_formed k \<Longrightarrow> io_well_formed (io_drop_step k)"
proof -
  have "utility_inv ([] @ io_new_segment (unat rid))"
    by (rule utility_inv_append) (auto simp: io_new_segment_def io_events at_Cons at_Nil split: nat.splits)
  then show "io_well_formed (io_kernel_new rid)"
    by (auto simp: io_well_formed_def io_wf_def io_kernel_new_def opt_rid_view_def io_active_at_def token_active_before_def
      io_new_segment_def io_events at_def)
  show "io_well_formed k \<Longrightarrow> io_poll_step wv m was_ready would_block k = Some (k', a) \<Longrightarrow> io_well_formed k'"
    using io_wf_step by (auto simp: io_well_formed_def io_poll_step_def opt_rid_view_def Let_def split: option.splits)
  show "io_well_formed (io_drop_step k)" if k: "io_well_formed k"
  proof (cases "io_rid k")
    case (Some t)
    have "utility_inv (io_log k @ io_drop_segment (unat t))"
      by (rule utility_inv_append)
        (use k Some in \<open>auto simp: io_well_formed_def io_wf_def opt_rid_view_def io_drop_segment_def io_events at_Cons at_Nil split: nat.splits\<close>)
    then show ?thesis by (simp add: io_well_formed_def io_wf_def io_drop_step_def Some opt_rid_view_def)
  qed (use k in \<open>simp add: io_drop_step_def\<close>)
qed

section \<open>Sockets and the reactor\<close>

text \<open>The socket's id names a source of the reactor, its flags exist and its kernel is in order.\<close>

definition socket_ok :: "socket \<Rightarrow> 'w reactor_thread \<Rightarrow> bool" where
  "socket_ok s r \<longleftrightarrow> io_rid (skernel s) = Some (resource_id s) \<and> io_well_formed (skernel s) \<and>
     sources r (resource_id s) \<noteq> None \<and> unat (resource_id s) < length (io_readiness r)"

lemma readiness_length [simp]:
  "length (clear_readable k v) = length v" "length (clear_writable k v) = length v"
  "length (mark_readable k v) = length v" "length (mark_writable k v) = length v"
  by (simp_all add: readiness_defs)

lemma reactor_readiness [simp]:
  "reactor_ok (r\<lparr>io_readiness := v\<rparr>) = reactor_ok r" "timers (r\<lparr>io_readiness := v\<rparr>) = timers r"
  "sources (r\<lparr>io_readiness := v\<rparr>) = sources r"
  by (rule reactor_ok_cong; simp)+

lemma mark_all_flags:
  "is_readable k (mark_all evs v) \<longleftrightarrow> is_readable k v \<or> unat k < length v \<and> (\<exists>e \<in> set evs. ev_rid e = k \<and> ev_mode e = IoReadable)"
  "is_writable k (mark_all evs v) \<longleftrightarrow> is_writable k v \<or> unat k < length v \<and> (\<exists>e \<in> set evs. ev_rid e = k \<and> ev_mode e = IoWritable)"
  by (induction evs arbitrary: v) (auto simp: readiness_laws split: io_mode.splits)

text \<open>An event of a direction reaches the waker of that direction, and the flag goes up.\<close>

lemma park_delivers:
  assumes ok: "reactor_ok r" "entered r" and src: "sources r k = Some (rw, ww)" and flag: "unat k < length (io_readiness r)"
    and es: "\<forall>to. os_poll S to = IoOk es" and x: "x \<in> set es" "decode_token_raw (token x) = k"
  shows "mio_readable x \<Longrightarrow> is_readable k (io_readiness (flush_and_park S t r)) \<and>
      (\<forall>w. rw = Some w \<longrightarrow> (w, k) \<in> set (new_wakes r (flush_and_park S t r)))"
    and "mio_writable x \<Longrightarrow> is_writable k (io_readiness (flush_and_park S t r)) \<and>
      (\<forall>w. ww = Some w \<longrightarrow> (w, k) \<in> set (new_wakes r (flush_and_park S t r)))"
proof -
  obtain to rs where "new_wakes r (flush_and_park S t r) = map (\<lambda>k. (timer_waker r k, k)) rs @
      io_wakes (sources r) (case os_poll S (Some to) of IoOk es \<Rightarrow> collect_io_events es | IoErr e \<Rightarrow> [])"
    by (rule park_new_wakes [OF ok, of t S])
  then have w: "(w, k) \<in> set (io_wakes (sources r) (collect_io_events es)) \<Longrightarrow> (w, k) \<in> set (new_wakes r (flush_and_park S t r))" for w
    using es by simp
  obtain res r' where p: "reactor_park S (Some t) (flush_pending_deregister r) = (res, r')" by fastforce
  have "io_readiness (flush_pending_deregister r) = io_readiness r"
    by (simp add: flush_pending_deregister_def split: option.split)
  then have rd: "io_readiness (flush_and_park S t r) = mark_all (collect_io_events es) (io_readiness r)"
    using reactor_park_ok [OF flush_ok(1,2) [OF ok(1)] p] p es by (auto simp: flush_and_park_def park_events_def)
  have ev: "\<exists>e \<in> set (collect_io_events es). ev_rid e = k \<and> ev_mode e = m"
    if "case m of IoReadable \<Rightarrow> mio_readable x | IoWritable \<Rightarrow> mio_writable x" for m
    using that x collect_io_events_iff by blast
  show "mio_readable x \<Longrightarrow> is_readable k (io_readiness (flush_and_park S t r)) \<and>
      (\<forall>w. rw = Some w \<longrightarrow> (w, k) \<in> set (new_wakes r (flush_and_park S t r)))"
    using ev [of IoReadable] flag w x src unfolding rd mark_all_flags io_wakes_collect by auto
  show "mio_writable x \<Longrightarrow> is_writable k (io_readiness (flush_and_park S t r)) \<and>
      (\<forall>w. ww = Some w \<longrightarrow> (w, k) \<in> set (new_wakes r (flush_and_park S t r)))"
    using ev [of IoWritable] flag w x src unfolding rd mark_all_flags io_wakes_collect by auto
qed

lemma handle_set_waker_ok:
  assumes ok: "reactor_ok r" "entered r" and src: "sources r k = Some (rw, ww)"
  obtains r' where "handle_set_waker k i w r = Some r'" "reactor_ok r'" "entered r'" "io_readiness r' = io_readiness r"
    "sources r' = (sources r)(k \<mapsto> (if readable i then Some w else rw, if writable i then Some w else ww))"
proof -
  obtain r' where s: "set_waker k i w r = Some r'" "reactor_ok r'"
    "sources r' = (sources r)(k \<mapsto> (if readable i then Some w else rw, if writable i then Some w else ww))"
    using set_waker_ok [OF ok(1) src] by blast
  have "io_readiness r' = io_readiness r \<and> entered r' = entered r"
    using s(1) by (auto simp: set_waker_def Let_def split: option.splits)
  then show thesis using that [of r'] s ok(2) by (simp add: handle_set_waker_def with_current_reactor_def)
qed

text \<open>A poll that pends has armed the waker of its direction after it has taken the flag down.\<close>

lemma io_decide_pends:
  assumes ok: "reactor_ok r" "entered r" and s: "socket_ok s r" "sources r (resource_id s) = Some (rw, ww)"
    and flag: "\<And>v. \<not> is_ready (clear v)" "\<And>v. length (clear v) = length v"
    and d: "io_decide wv w m i (is_ready (io_readiness r)) s
      (io_attempt (is_ready (io_readiness r)) clear short initial sys r) = Some (s', r', IoPending)"
  shows "\<not> is_ready (io_readiness r') \<and> reactor_ok r' \<and> entered r' \<and> socket_ok s' r' \<and> resource_id s' = resource_id s \<and>
    sources r' (resource_id s) = Some (if readable i then Some w else rw, if writable i then Some w else ww)"
proof -
  have "io_poll_step wv m (is_ready (io_readiness r)) wb (skernel s) = Some (k', a) \<Longrightarrow> io_well_formed k' \<and> io_rid k' = io_rid (skernel s)" for wb k' a
    using io_kernel_wf(2) [of "skernel s"] s(1) by (auto simp: socket_ok_def io_poll_step_def Let_def split: option.splits)
  note kern = this
  have arm: ?thesis
    if r1: "r1 = r \<or> r1 = r\<lparr>io_readiness := clear (io_readiness r)\<rparr>" "\<not> is_ready (io_readiness r1)"
      and p: "io_poll_step wv m (is_ready (io_readiness r)) wb (skernel s) = Some (k', IoArm)"
      and h: "handle_set_waker (resource_id s) i w r1 = Some r'" "s' = s\<lparr>skernel := k'\<rparr>" for r1 wb k'
  proof -
    have r1': "reactor_ok r1" "entered r1" "sources r1 (resource_id s) = Some (rw, ww)" "length (io_readiness r1) = length (io_readiness r)"
      using r1(1) ok s(2) flag(2) by auto
    obtain r2 where "handle_set_waker (resource_id s) i w r1 = Some r2" "reactor_ok r2" "entered r2" "io_readiness r2 = io_readiness r1"
      "sources r2 = (sources r1)(resource_id s \<mapsto> (if readable i then Some w else rw, if writable i then Some w else ww))"
      by (rule handle_set_waker_ok [OF r1'(1-3)])
    then show ?thesis using h kern [OF p] r1 s(1) r1'(4) by (auto simp: socket_ok_def)
  qed
  obtain rid where rid: "io_rid (skernel s) = Some rid" using s(1) by (simp add: socket_ok_def)
  show ?thesis
  proof (cases "is_ready (io_readiness r)")
    case False
    then show ?thesis using d rid arm [of r False] by (auto simp: io_decide_def io_attempt_def io_poll_step_def Let_def)
  next
    case True
    have "sys = SysWouldBlock" using d rid True
      by (cases sys) (auto simp: io_decide_def io_attempt_def io_poll_step_def Let_def)
    then show ?thesis using d rid True flag(1) arm [of "r\<lparr>io_readiness := clear (io_readiness r)\<rparr>" True]
      by (auto simp: io_decide_def io_attempt_def io_poll_step_def Let_def)
  qed
qed

text \<open>A new socket is in order, whichever constructor made it.\<close>

lemma socket_new_ok:
  assumes ok: "reactor_ok r" "entered r" and n: "socket_new S source i r = Some (IoOk s, r')"
  shows "reactor_ok r' \<and> entered r' \<and> socket_ok s r' \<and> sources r' (resource_id s) = Some (None, None) \<and>
    is_readable (resource_id s) (io_readiness r') \<and> is_writable (resource_id s) (io_readiness r')"
proof -
  obtain rid r1 where h: "register_io_resource S source i r = (IoOk rid, r1)" "s = \<lparr>resource_id = rid, skernel = io_kernel_new rid\<rparr>"
      "r' = r1\<lparr>io_readiness := init_readiness rid (io_readiness r1)\<rparr>"
    using n ok(2) by (auto simp: socket_new_def handle_register_io_resource_def with_current_reactor_def split: io_result.splits prod.splits)
  have "handle_register_io_resource S source i r = Some (IoOk rid, r1)"
    using h(1) ok(2) by (simp add: handle_register_io_resource_def with_current_reactor_def)
  then have "entered r1" using quiet_handle_io(1) ok(2) by (fastforce simp: quiet_step_def)
  moreover have "reactor_ok r1" "sources r1 rid = Some (None, None)" using register_io_ok [OF ok(1) h(1)] by auto
  moreover have "unat rid < length (init_readiness rid v)" for v by (simp add: init_readiness_def vec_resize_def Let_def)
  ultimately show ?thesis using h(2,3) io_kernel_wf(1) [of rid] by (simp add: socket_ok_def io_kernel_new_def readiness_laws)
qed

section \<open>Property\<close>

text \<open>
  C39: A socket that pends is woken by the next event of its direction.  When a read, a receive, a write or a send
  pends on a socket that is in order, the flag of its direction is down, the waker of this poll is the
  reactor's waker of that direction, and the socket is still in order; the next park that reports an event
  of that direction for the socket calls this waker and puts the flag up, so that the poll that follows
  makes the system call.
\<close>

theorem socket_pending_wakes:
  fixes r r' :: "'w reactor_thread" and sys :: "(nat, 'e) syscall"
  assumes "reactor_ok r" "entered r" "socket_ok s r" "\<forall>to. os_poll S to = IoOk es" "x \<in> set es"
    "decode_token_raw (token x) = resource_id s"
  shows "(poll_read wv w len sys s r = Some (s', r', IoPending) \<or> recv_from wv w sys s r = Some (s', r', IoPending) \<longrightarrow>
      \<not> is_readable (resource_id s) (io_readiness r') \<and> socket_ok s' r' \<and> (\<exists>ww. sources r' (resource_id s) = Some (Some w, ww)) \<and>
      (mio_readable x \<longrightarrow> (w, resource_id s) \<in> set (new_wakes r' (flush_and_park S t r')) \<and>
         is_readable (resource_id s) (io_readiness (flush_and_park S t r')))) \<and>
    (poll_write wv w len sys s r = Some (s', r', IoPending) \<or> send_to wv w sys s r = Some (s', r', IoPending) \<longrightarrow>
      \<not> is_writable (resource_id s) (io_readiness r') \<and> socket_ok s' r' \<and> (\<exists>rw. sources r' (resource_id s) = Some (rw, Some w)) \<and>
      (mio_writable x \<longrightarrow> (w, resource_id s) \<in> set (new_wakes r' (flush_and_park S t r')) \<and>
         is_writable (resource_id s) (io_readiness (flush_and_park S t r'))))"
proof -
  let ?k = "resource_id s"
  obtain rw ww where src: "sources r ?k = Some (rw, ww)" using assms(3) by (auto simp: socket_ok_def)
  have flags: "\<not> is_readable ?k (clear_readable ?k v)" "\<not> is_writable ?k (clear_writable ?k v)" for v by (simp_all add: readiness_laws)
  note rd = io_decide_pends [OF assms(1-3) src, of "is_readable ?k" "clear_readable ?k" wv w _ INTEREST_READABLE, OF flags(1) readiness_length(1)]
  note wr = io_decide_pends [OF assms(1-3) src, of "is_writable ?k" "clear_writable ?k" wv w _ INTEREST_WRITABLE, OF flags(2) readiness_length(2)]
  have "\<not> is_readable ?k (io_readiness r') \<and> reactor_ok r' \<and> entered r' \<and> socket_ok s' r' \<and> resource_id s' = ?k \<and>
      sources r' ?k = Some (Some w, ww)"
    if "poll_read wv w len sys s r = Some (s', r', IoPending) \<or> recv_from wv w sys s r = Some (s', r', IoPending)"
    using that rd [of MRead "partial_len len" "IoReady 0" sys s' r'] rd [of MRead "\<lambda>_. False" IoPending sys s' r']
    by (auto simp: poll_read_def recv_from_def Let_def INTEREST_READABLE_def)
  moreover have "\<not> is_writable ?k (io_readiness r') \<and> reactor_ok r' \<and> entered r' \<and> socket_ok s' r' \<and> resource_id s' = ?k \<and>
      sources r' ?k = Some (rw, Some w)"
    if "poll_write wv w len sys s r = Some (s', r', IoPending) \<or> send_to wv w sys s r = Some (s', r', IoPending)"
    using that wr [of MWrite "partial_len len" "IoReady 0" sys s' r'] wr [of MWrite "\<lambda>_. False" IoPending sys s' r']
    by (auto simp: poll_write_def send_to_def Let_def INTEREST_WRITABLE_def)
  ultimately show ?thesis
    using park_delivers [of r' ?k _ _ S es x t] assms(4-6) by (auto simp: socket_ok_def)
qed

text \<open>Witness: the first read of a new socket would block; a readable event follows.\<close>

theorem socket_pending_wakes_witness:
  "\<exists>S s r s' r'. socket_ok s r \<and> poll_read 0 (42 :: nat) 10 (SysWouldBlock :: (nat, unit) syscall) s r = Some (s', r', IoPending) \<and>
     (42, resource_id s) \<in> set (new_wakes r' (flush_and_park S 10 r')) \<and>
     is_readable (resource_id s) (io_readiness (flush_and_park S 10 r'))"
proof -
  let ?x = "\<lparr>token = 1, mio_readable = True, mio_writable = False, mio_error = False, mio_read_closed = False, mio_write_closed = False\<rparr>"
  let ?S = "(idle_os 7)\<lparr>os_poll := \<lambda>_. IoOk [?x]\<rparr>" and ?r = "reactor_enter reactor_new :: nat reactor_thread"
  have ok: "reactor_ok ?r" "entered ?r" by (auto simp: reactor_ok_start)
  obtain r1 where "register_io_resource ?S 3 INTEREST_READABLE_WRITABLE ?r = (IoOk 1, r1)"
    by (simp add: register_io_resource_def alloc_resource_id_def register_io_source_action_def Let_def reactor_enter_def reactor_new_def
      idle_os_def word_le_nat_alt unat_u64_max log_in_def log_out_def)
  then obtain r where n: "tcp_from_mio ?S 3 ?r = Some (IoOk \<lparr>resource_id = 1, skernel = io_kernel_new 1\<rparr>, r)" (is "_ = Some (IoOk ?s, r)")
    using ok(2) by (simp add: tcp_from_mio_def socket_new_def handle_register_io_resource_def with_current_reactor_def)
  have r: "reactor_ok r" "entered r" "socket_ok ?s r" "is_readable 1 (io_readiness r)" "sources r 1 = Some (None, None)"
    using socket_new_ok [OF ok n [unfolded tcp_from_mio_def]] by simp_all
  let ?r1 = "r\<lparr>io_readiness := clear_readable 1 (io_readiness r)\<rparr>"
  obtain r' where "handle_set_waker 1 INTEREST_READABLE 42 ?r1 = Some r'"
    by (rule handle_set_waker_ok [of ?r1 1 None None]) (use r in auto)
  then obtain s' where p: "poll_read 0 (42 :: nat) 10 (SysWouldBlock :: (nat, unit) syscall) ?s r = Some (s', r', IoPending)"
    using r(4) by (simp add: poll_read_def io_decide_def io_attempt_def io_poll_step_def io_kernel_new_def Let_def)
  have e: "\<forall>to. os_poll ?S to = IoOk [?x]" "?x \<in> set [?x]" "decode_token_raw (token ?x) = resource_id ?s"
    by (simp_all add: decode_token_raw_def)
  have "(42, resource_id ?s) \<in> set (new_wakes r' (flush_and_park ?S 10 r')) \<and>
      is_readable (resource_id ?s) (io_readiness (flush_and_park ?S 10 r'))"
    using socket_pending_wakes [OF r(1-3) e, of 0 42 10 SysWouldBlock s' r' 10, THEN conjunct1, THEN mp, OF disjI1 [OF p]] by simp
  with p r(3) show ?thesis by blast
qed

end
