(* ===== verification/Net_Stream.thy ===== *)
theory Net_Stream
  imports Net Tls
begin

text \<open>
  The rest of a TCP stream (\<^verbatim>\<open>lion-utility/src/net/tcp/stream.rs\<close>): \<open>poll_read_ready\<close> and \<open>try_io\<close>, flush
  and shutdown, the two owned halves that share one stream; and \<open>yield_now\<close> (\<^verbatim>\<open>lion-utility/src/task.rs\<close>).
  Shown: the stream of two halves is dropped with the second of them, so its source is deregistered once;
  a call through \<open>try_io\<close> that would block takes the read flag down, whatever direction it was for.
\<close>

section \<open>Calls on the stream\<close>

text \<open>The answer is the poll, with the waker it wakes at once.\<close>

definition poll_read_ready :: "'w \<Rightarrow> socket \<Rightarrow> 'w reactor_thread \<Rightarrow> (unit, 'e) io_poll \<times> 'w list" where
  "poll_read_ready w s r =
     (if is_readable (resource_id s) (io_readiness r) then (IoReady (), []) else (IoPending, [w]))"

definition try_io :: "interest \<Rightarrow> ('a, 'e) syscall \<Rightarrow> socket \<Rightarrow> 'w reactor_thread \<Rightarrow> 'w reactor_thread \<times> ('a, 'e) syscall" where
  "try_io interest f s r =
     (case f of
        SysOk v \<Rightarrow> (r, SysOk v)
      | SysWouldBlock \<Rightarrow> (r\<lparr>io_readiness := clear_readable (resource_id s) (io_readiness r)\<rparr>, SysWouldBlock)
      | SysErr e \<Rightarrow> (r, SysErr e))"

definition poll_flush :: "(unit, 'e) io_poll" where
  "poll_flush = IoReady ()"

text \<open>The system call of \<open>shutdown\<close> answers with its error, if any.\<close>

definition poll_shutdown :: "'e option \<Rightarrow> (unit, 'e) io_poll" where
  "poll_shutdown sys = (case sys of Some e \<Rightarrow> IoFailed e | None \<Rightarrow> IoReady ())"

section \<open>The owned halves\<close>

text \<open>The shared stream with its two owners; it is dropped with the last of them.\<close>

record split_stream =
  shared :: socket
  read_half :: bool
  write_half :: bool

definition into_split :: "socket \<Rightarrow> split_stream" where
  "into_split s = \<lparr>shared = s, read_half = True, write_half = True\<rparr>"

definition half_poll_read ::
  "int \<Rightarrow> 'w \<Rightarrow> nat \<Rightarrow> (nat, 'e) syscall \<Rightarrow> split_stream \<Rightarrow> 'w reactor_thread \<Rightarrow>
     (split_stream \<times> 'w reactor_thread \<times> (nat, 'e) io_poll) option" where
  "half_poll_read wv w len sys h r =
     map_option (\<lambda>(s, r1, res). (h\<lparr>shared := s\<rparr>, r1, res)) (poll_read wv w len sys (shared h) r)"

definition half_poll_write ::
  "int \<Rightarrow> 'w \<Rightarrow> nat \<Rightarrow> (nat, 'e) syscall \<Rightarrow> split_stream \<Rightarrow> 'w reactor_thread \<Rightarrow>
     (split_stream \<times> 'w reactor_thread \<times> (nat, 'e) io_poll) option" where
  "half_poll_write wv w len sys h r =
     map_option (\<lambda>(s, r1, res). (h\<lparr>shared := s\<rparr>, r1, res)) (poll_write wv w len sys (shared h) r)"

definition drop_stream :: "os \<Rightarrow> int \<Rightarrow> split_stream \<Rightarrow> 'w reactor_thread \<Rightarrow> (split_stream \<times> 'w reactor_thread) option" where
  "drop_stream S source h r =
     (if read_half h \<or> write_half h then Some (h, r)
      else map_option (\<lambda>(s, r1). (h\<lparr>shared := s\<rparr>, r1)) (socket_drop S source (shared h) r))"

definition drop_read_half :: "os \<Rightarrow> int \<Rightarrow> split_stream \<Rightarrow> 'w reactor_thread \<Rightarrow> (split_stream \<times> 'w reactor_thread) option" where
  "drop_read_half S source h = drop_stream S source (h\<lparr>read_half := False\<rparr>)"

definition drop_write_half :: "os \<Rightarrow> int \<Rightarrow> split_stream \<Rightarrow> 'w reactor_thread \<Rightarrow> (split_stream \<times> 'w reactor_thread) option" where
  "drop_write_half S source h = drop_stream S source (h\<lparr>write_half := False\<rparr>)"

section \<open>Yielding\<close>

text \<open>The poll of \<open>YieldNow\<close>, whose state is the flag \<open>yielded\<close>; it answers whether it is ready.\<close>

definition yield_poll :: "bool \<Rightarrow> tls \<Rightarrow> (bool \<times> tls \<times> bool) option" where
  "yield_poll yielded s =
     (if yielded then Some (True, s, True)
      else map_option (\<lambda>s1. (True, s1, False)) (defer_current s))"

section \<open>What they guarantee\<close>

text \<open>
  The halves poll one stream: a write of one half leaves what the other half waits for, its flag and
  its waker, alone, so two tasks may own the two halves.
\<close>

lemma halves_independent:
  assumes "reactor_ok r" "entered r" "socket_ok (shared h) r" "sources r (resource_id (shared h)) = Some (rw, ww)"
    "half_poll_write wv w len sys h r = Some (h', r', IoPending)"
  shows "resource_id (shared h') = resource_id (shared h) \<and>
    is_readable (resource_id (shared h)) (io_readiness r') = is_readable (resource_id (shared h)) (io_readiness r) \<and>
    sources r' (resource_id (shared h)) = Some (rw, Some w) \<and> read_half h' = read_half h"
proof -
  let ?k = "resource_id (shared h)"
  obtain s' where p: "poll_write wv w len sys (shared h) r = Some (s', r', IoPending)" "h' = h\<lparr>shared := s'\<rparr>"
    using assms(5) by (auto simp: half_poll_write_def)
  have "\<not> is_writable ?k (io_readiness r') \<and> reactor_ok r' \<and> entered r' \<and> socket_ok s' r' \<and> resource_id s' = ?k \<and>
      sources r' ?k = Some (rw, Some w)"
    using io_decide_pends [OF assms(1-4), of "is_writable ?k" "clear_writable ?k" wv w MWrite INTEREST_WRITABLE "partial_len len"
        "IoReady 0" sys s' r'] p(1)
    by (simp add: poll_write_def Let_def INTEREST_WRITABLE_def readiness_laws)
  moreover have "is_readable ?k (io_readiness r') = is_readable ?k (io_readiness r)"
  proof -
    have q: "io_readiness r2 = io_readiness r1" if "handle_set_waker k i w r1 = Some r2" for k i r1 r2
      using that by (auto simp: handle_set_waker_def with_current_reactor_def set_waker_def Let_def split: option.splits if_splits)
    show ?thesis
      using p(1) by (auto simp: poll_write_def io_decide_def io_attempt_def Let_def readiness_laws dest!: q
          split: option.splits prod.splits io_action.splits if_splits syscall.splits)
  qed
  ultimately show ?thesis using p(2) by simp
qed

text \<open>The first half that goes leaves the stream alone; the second deregisters its source, in either order.\<close>

lemma halves_dropped:
  assumes "reactor_ok r" "entered r" "socket_ok s r"
    and "drop_read_half S source (into_split s) r = Some (h1, r1) \<and> drop_write_half S source h1 r1 = Some (h2, r2) \<or>
      drop_write_half S source (into_split s) r = Some (h1, r1) \<and> drop_read_half S source h1 r1 = Some (h2, r2)"
  shows "r1 = r \<and> shared h1 = s \<and> reactor_ok r2 \<and> sources r2 = (sources r)(resource_id s := None) \<and>
    timers r2 = timers r \<and> io_rid (skernel (shared h2)) = None"
proof -
  have h1: "r1 = r \<and> shared h1 = s \<and>
      map_option (\<lambda>(s, r1). (\<lparr>shared = s, read_half = False, write_half = False\<rparr>, r1)) (socket_drop S source s r) = Some (h2, r2)"
    using assms(4)
  proof (elim disjE conjE)
    assume a: "drop_read_half S source (into_split s) r = Some (h1, r1)" "drop_write_half S source h1 r1 = Some (h2, r2)"
    then have "h1 = \<lparr>shared = s, read_half = False, write_half = True\<rparr>" "r1 = r"
      by (simp_all add: drop_read_half_def drop_stream_def into_split_def)
    then show ?thesis using a(2) by (simp add: drop_write_half_def drop_stream_def)
  next
    assume a: "drop_write_half S source (into_split s) r = Some (h1, r1)" "drop_read_half S source h1 r1 = Some (h2, r2)"
    then have "h1 = \<lparr>shared = s, read_half = True, write_half = False\<rparr>" "r1 = r"
      by (simp_all add: drop_write_half_def drop_stream_def into_split_def)
    then show ?thesis using a(2) by (simp add: drop_read_half_def drop_stream_def)
  qed
  then obtain s' where d: "socket_drop S source s r = Some (s', r2)" "shared h2 = s'" by auto
  obtain res where dr: "deregister_io_resource S (resource_id s) source r = (res, r2)" "s' = s\<lparr>skernel := io_drop_step (skernel s)\<rparr>"
    using d(1) assms(2)
    by (auto simp: socket_drop_def handle_deregister_io_resource_def with_current_reactor_def split: prod.splits)
  have "sources r (resource_id s) \<noteq> None" using assms(3) by (simp add: socket_ok_def)
  note o = deregister_io_ok [OF assms(1) this dr(1)]
  have "io_rid (io_drop_step (skernel s)) = None"
    by (simp add: io_drop_step_def split: option.split)
  then show ?thesis using h1 o(1-3) dr(2) d(2) by simp
qed

text \<open>
  \<open>try_io\<close> ignores the interest it is given.  When a write through it would block, the write flag
  stays up, and the read flag goes down although nothing was read; the next read pends without a
  system call, whatever the socket has to give.
\<close>

lemma try_io_drops_read_flag:
  assumes "reactor_ok r" "entered r" "socket_ok s r" "is_writable (resource_id s) (io_readiness r)"
    and "try_io INTEREST_WRITABLE SysWouldBlock s r = (r1, res)"
  shows "is_writable (resource_id s) (io_readiness r1) \<and> \<not> is_readable (resource_id s) (io_readiness r1) \<and>
    (\<exists>s' r2. poll_read wv w len sys s r1 = Some (s', r2, IoPending))"
proof -
  let ?k = "resource_id s"
  have r1: "r1 = r\<lparr>io_readiness := clear_readable ?k (io_readiness r)\<rparr>" using assms(5) by (simp add: try_io_def)
  have f: "\<not> is_readable ?k (io_readiness r1)" "is_writable ?k (io_readiness r1)"
    using assms(4) by (simp_all add: r1 readiness_laws)
  obtain rw ww where "sources r ?k = Some (rw, ww)" "io_rid (skernel s) = Some ?k" using assms(3) by (auto simp: socket_ok_def)
  then obtain r2 where "handle_set_waker ?k INTEREST_READABLE w r1 = Some r2"
    using handle_set_waker_ok [of r1 ?k rw ww INTEREST_READABLE w] assms(1,2) r1 by auto
  then show ?thesis
    using f \<open>io_rid (skernel s) = Some ?k\<close> by (simp add: poll_read_def io_decide_def io_attempt_def io_poll_step_def Let_def)
qed

text \<open>A task that yields pends once, queued for the next drain, and is ready at its second poll.\<close>

lemma yield_once:
  assumes "current_task s = Some t"
  shows "\<exists>s1. yield_poll False s = Some (True, s1, False) \<and> defer_queue s1 = defer_queue s @ [t] \<and>
    yield_poll True s1 = Some (True, s1, True)"
  using assms by (simp add: yield_poll_def defer_current_def push_deferred_def set_block_on_yielded_def Let_def)

end
