(* ===== verification/Reactor_Log.thy ===== *)
theory Reactor_Log
  imports Exec_Log Reactor_Props
begin

text \<open>
  The log of the reactor and the seventeen conditions R1 to R17 on it: model of \<^verbatim>\<open>lion-reactor-spec\<close>
  (\<open>events.rs\<close>, \<open>log.rs\<close>, \<open>invariants/\<close>, \<open>bridge.rs\<close>) and of the grouping in
  \<^verbatim>\<open>lion-reactor/src/invariants/mod.rs\<close> and \<^verbatim>\<open>spec/predicates.rs\<close>.  I/O registrations have two
  anchors: the call of the client (\<open>api\<close>, the form \<^verbatim>\<open>lion-reactor\<close> proves) and the call of the
  operating system (\<open>syscall\<close>, the form \<^verbatim>\<open>lion-liveness\<close> starts from).  Positions are \<open>nat\<close>; a
  search that the source answers with \<open>-1\<close> is \<open>None\<close>; an accessor is unspecified off its domain, as
  the source's \<open>arbitrary()\<close>.
\<close>

section \<open>Events\<close>

type_synonym 'w rlog = "'w reactor_event list"

fun is_park_begin :: "'w reactor_event \<Rightarrow> bool" where
  "is_park_begin (RInbound (ReactorPark t None)) = True"
| "is_park_begin _ = False"

fun is_park_end :: "'w reactor_event \<Rightarrow> bool" where
  "is_park_end (RInbound (ReactorPark t (Some res))) = True"
| "is_park_end _ = False"

fun is_succ_register_timer :: "'w reactor_event \<Rightarrow> bool" where
  "is_succ_register_timer (RInbound (RegisterTimer d w (Some (IoOk k)))) = True"
| "is_succ_register_timer _ = False"

fun is_succ_deregister_timer :: "'w reactor_event \<Rightarrow> bool" where
  "is_succ_deregister_timer (RInbound (DeregisterTimer k True)) = True"
| "is_succ_deregister_timer _ = False"

fun is_io_syscall_register :: "'w reactor_event \<Rightarrow> bool" where
  "is_io_syscall_register (ROutbound (OsRegisterIoResource s k i res)) = True"
| "is_io_syscall_register _ = False"

fun is_succ_io_syscall_register :: "'w reactor_event \<Rightarrow> bool" where
  "is_succ_io_syscall_register (ROutbound (OsRegisterIoResource s k i (IoOk u))) = True"
| "is_succ_io_syscall_register _ = False"

fun is_io_syscall_deregister :: "'w reactor_event \<Rightarrow> bool" where
  "is_io_syscall_deregister (ROutbound (OsDeregisterIoResource s k res)) = True"
| "is_io_syscall_deregister _ = False"

fun is_succ_io_api_register :: "'w reactor_event \<Rightarrow> bool" where
  "is_succ_io_api_register (RInbound (RegisterIoResource s i (Some (IoOk k)))) = True"
| "is_succ_io_api_register _ = False"

fun is_io_api_deregister :: "'w reactor_event \<Rightarrow> bool" where
  "is_io_api_deregister (RInbound (DeregisterIoResource k res)) = True"
| "is_io_api_deregister _ = False"

fun is_succ_set_waker :: "'w reactor_event \<Rightarrow> bool" where
  "is_succ_set_waker (RInbound (SetWaker k i w (Some (IoOk u)))) = True"
| "is_succ_set_waker _ = False"

fun is_inbound_register_io_begin :: "'w reactor_event \<Rightarrow> bool" where
  "is_inbound_register_io_begin (RInbound (RegisterIoResource s i None)) = True"
| "is_inbound_register_io_begin _ = False"

fun is_inbound_register_io_end :: "'w reactor_event \<Rightarrow> bool" where
  "is_inbound_register_io_end (RInbound (RegisterIoResource s i (Some res))) = True"
| "is_inbound_register_io_end _ = False"

fun is_inbound_deregister_io_begin :: "'w reactor_event \<Rightarrow> bool" where
  "is_inbound_deregister_io_begin (RInbound (DeregisterIoResource k None)) = True"
| "is_inbound_deregister_io_begin _ = False"

fun is_inbound_deregister_io_end :: "'w reactor_event \<Rightarrow> bool" where
  "is_inbound_deregister_io_end (RInbound (DeregisterIoResource k (Some res))) = True"
| "is_inbound_deregister_io_end _ = False"

fun is_poll_events :: "'w reactor_event \<Rightarrow> bool" where
  "is_poll_events (ROutbound (PollEvents t res)) = True"
| "is_poll_events _ = False"

fun is_io_event_ready :: "'w reactor_event \<Rightarrow> bool" where
  "is_io_event_ready (ROutbound (IoEventReady ev)) = True"
| "is_io_event_ready _ = False"

fun is_get_current_time :: "'w reactor_event \<Rightarrow> bool" where
  "is_get_current_time (ROutbound (GetCurrentTime ts)) = True"
| "is_get_current_time _ = False"

fun is_wake_task :: "'w reactor_event \<Rightarrow> bool" where
  "is_wake_task (ROutbound (WakeTask w k)) = True"
| "is_wake_task _ = False"

fun get_register_timer_deadline :: "'w reactor_event \<Rightarrow> instant" where
  "get_register_timer_deadline (RInbound (RegisterTimer d w res)) = d"
| "get_register_timer_deadline _ = undefined"

fun get_register_timer_waker :: "'w reactor_event \<Rightarrow> 'w" where
  "get_register_timer_waker (RInbound (RegisterTimer d w res)) = w"
| "get_register_timer_waker _ = undefined"

fun get_register_timer_rid :: "'w reactor_event \<Rightarrow> u64" where
  "get_register_timer_rid (RInbound (RegisterTimer d w (Some (IoOk k)))) = k"
| "get_register_timer_rid _ = undefined"

fun get_deregister_timer_rid :: "'w reactor_event \<Rightarrow> u64" where
  "get_deregister_timer_rid (RInbound (DeregisterTimer k b)) = k"
| "get_deregister_timer_rid _ = undefined"

fun get_current_timestamp :: "'w reactor_event \<Rightarrow> instant" where
  "get_current_timestamp (ROutbound (GetCurrentTime ts)) = ts"
| "get_current_timestamp _ = undefined"

fun get_wake_task_waker :: "'w reactor_event \<Rightarrow> 'w" where
  "get_wake_task_waker (ROutbound (WakeTask w k)) = w"
| "get_wake_task_waker _ = undefined"

fun get_wake_task_source_rid :: "'w reactor_event \<Rightarrow> u64" where
  "get_wake_task_source_rid (ROutbound (WakeTask w k)) = k"
| "get_wake_task_source_rid _ = undefined"

fun get_io_event :: "'w reactor_event \<Rightarrow> io_event" where
  "get_io_event (ROutbound (IoEventReady ev)) = ev"
| "get_io_event _ = undefined"

fun get_io_api_register_rid :: "'w reactor_event \<Rightarrow> u64" where
  "get_io_api_register_rid (RInbound (RegisterIoResource s i (Some (IoOk k)))) = k"
| "get_io_api_register_rid _ = undefined"

fun get_io_api_deregister_rid :: "'w reactor_event \<Rightarrow> u64" where
  "get_io_api_deregister_rid (RInbound (DeregisterIoResource k res)) = k"
| "get_io_api_deregister_rid _ = undefined"

fun get_io_syscall_register_rid :: "'w reactor_event \<Rightarrow> u64" where
  "get_io_syscall_register_rid (ROutbound (OsRegisterIoResource s k i res)) = k"
| "get_io_syscall_register_rid _ = undefined"

fun get_io_syscall_deregister_rid :: "'w reactor_event \<Rightarrow> u64" where
  "get_io_syscall_deregister_rid (ROutbound (OsDeregisterIoResource s k res)) = k"
| "get_io_syscall_deregister_rid _ = undefined"

fun get_set_waker_rid :: "'w reactor_event \<Rightarrow> u64" where
  "get_set_waker_rid (RInbound (SetWaker k i w res)) = k"
| "get_set_waker_rid _ = undefined"

fun get_set_waker_waker :: "'w reactor_event \<Rightarrow> 'w" where
  "get_set_waker_waker (RInbound (SetWaker k i w res)) = w"
| "get_set_waker_waker _ = undefined"

fun get_set_waker_interest :: "'w reactor_event \<Rightarrow> interest" where
  "get_set_waker_interest (RInbound (SetWaker k i w res)) = i"
| "get_set_waker_interest _ = undefined"

section \<open>Positions\<close>

definition is_park_begin_at :: "'w rlog \<Rightarrow> nat \<Rightarrow> bool" where
  "is_park_begin_at l i \<longleftrightarrow> i < length l \<and> is_park_begin (l ! i)"

definition is_park_end_at :: "'w rlog \<Rightarrow> nat \<Rightarrow> bool" where
  "is_park_end_at l i \<longleftrightarrow> i < length l \<and> is_park_end (l ! i)"

definition is_succ_register_timer_at :: "'w rlog \<Rightarrow> nat \<Rightarrow> bool" where
  "is_succ_register_timer_at l i \<longleftrightarrow> i < length l \<and> is_succ_register_timer (l ! i)"

definition is_succ_deregister_timer_at :: "'w rlog \<Rightarrow> nat \<Rightarrow> bool" where
  "is_succ_deregister_timer_at l i \<longleftrightarrow> i < length l \<and> is_succ_deregister_timer (l ! i)"

definition io_syscall_register_at :: "'w rlog \<Rightarrow> nat \<Rightarrow> bool" where
  "io_syscall_register_at l i \<longleftrightarrow> i < length l \<and> is_io_syscall_register (l ! i)"

definition io_syscall_registered_at :: "'w rlog \<Rightarrow> nat \<Rightarrow> bool" where
  "io_syscall_registered_at l i \<longleftrightarrow> i < length l \<and> is_succ_io_syscall_register (l ! i)"

definition io_syscall_deregistered_at :: "'w rlog \<Rightarrow> nat \<Rightarrow> bool" where
  "io_syscall_deregistered_at l i \<longleftrightarrow> i < length l \<and> is_io_syscall_deregister (l ! i)"

definition io_api_registered_at :: "'w rlog \<Rightarrow> nat \<Rightarrow> bool" where
  "io_api_registered_at l i \<longleftrightarrow> i < length l \<and> is_succ_io_api_register (l ! i)"

definition io_api_deregistered_at :: "'w rlog \<Rightarrow> nat \<Rightarrow> bool" where
  "io_api_deregistered_at l i \<longleftrightarrow> i < length l \<and> is_io_api_deregister (l ! i)"

definition is_succ_set_waker_at :: "'w rlog \<Rightarrow> nat \<Rightarrow> bool" where
  "is_succ_set_waker_at l i \<longleftrightarrow> i < length l \<and> is_succ_set_waker (l ! i)"

definition is_get_current_time_at :: "'w rlog \<Rightarrow> nat \<Rightarrow> bool" where
  "is_get_current_time_at l i \<longleftrightarrow> i < length l \<and> is_get_current_time (l ! i)"

definition is_wake_task_at :: "'w rlog \<Rightarrow> nat \<Rightarrow> bool" where
  "is_wake_task_at l i \<longleftrightarrow> i < length l \<and> is_wake_task (l ! i)"

definition is_io_event_ready_at :: "'w rlog \<Rightarrow> nat \<Rightarrow> bool" where
  "is_io_event_ready_at l i \<longleftrightarrow> i < length l \<and> is_io_event_ready (l ! i)"

definition is_poll_events_at :: "'w rlog \<Rightarrow> nat \<Rightarrow> bool" where
  "is_poll_events_at l i \<longleftrightarrow> i < length l \<and> is_poll_events (l ! i)"

definition is_inbound_register_io_begin_at :: "'w rlog \<Rightarrow> nat \<Rightarrow> bool" where
  "is_inbound_register_io_begin_at l i \<longleftrightarrow> i < length l \<and> is_inbound_register_io_begin (l ! i)"

definition is_inbound_register_io_end_at :: "'w rlog \<Rightarrow> nat \<Rightarrow> bool" where
  "is_inbound_register_io_end_at l i \<longleftrightarrow> i < length l \<and> is_inbound_register_io_end (l ! i)"

definition is_inbound_deregister_io_begin_at :: "'w rlog \<Rightarrow> nat \<Rightarrow> bool" where
  "is_inbound_deregister_io_begin_at l i \<longleftrightarrow> i < length l \<and> is_inbound_deregister_io_begin (l ! i)"

definition is_inbound_deregister_io_end_at :: "'w rlog \<Rightarrow> nat \<Rightarrow> bool" where
  "is_inbound_deregister_io_end_at l i \<longleftrightarrow> i < length l \<and> is_inbound_deregister_io_end (l ! i)"

lemmas rlog_at_defs = is_park_begin_at_def is_park_end_at_def is_succ_register_timer_at_def
  is_succ_deregister_timer_at_def io_syscall_register_at_def io_syscall_registered_at_def
  io_syscall_deregistered_at_def io_api_registered_at_def io_api_deregistered_at_def
  is_succ_set_waker_at_def is_get_current_time_at_def is_wake_task_at_def is_io_event_ready_at_def
  is_poll_events_at_def is_inbound_register_io_begin_at_def is_inbound_register_io_end_at_def
  is_inbound_deregister_io_begin_at_def is_inbound_deregister_io_end_at_def

text \<open>The backward searches of the source: the last position before \<open>i\<close> where \<open>P\<close> holds.\<close>

primrec find_back :: "(nat \<Rightarrow> bool) \<Rightarrow> nat \<Rightarrow> nat option" where
  "find_back P 0 = None"
| "find_back P (Suc i) = (if P i then Some i else find_back P i)"

primrec current_park_start :: "'w rlog \<Rightarrow> nat \<Rightarrow> nat option" where
  "current_park_start l 0 = None"
| "current_park_start l (Suc i) =
     (if is_park_begin_at l i then Some i else if is_park_end_at l i then None else current_park_start l i)"

definition timer_retired_at :: "'w rlog \<Rightarrow> u64 \<Rightarrow> nat \<Rightarrow> bool" where
  "timer_retired_at l rid j \<longleftrightarrow>
     (is_succ_deregister_timer_at l j \<and> get_deregister_timer_rid (l ! j) = rid) \<or>
     (is_wake_task_at l j \<and> get_wake_task_source_rid (l ! j) = rid)"

definition timer_active_at :: "'w rlog \<Rightarrow> nat \<Rightarrow> nat \<Rightarrow> bool" where
  "timer_active_at l register_idx i \<longleftrightarrow>
     (let rid = get_register_timer_rid (l ! register_idx)
      in is_succ_register_timer_at l register_idx \<and> register_idx < i \<and>
         (\<forall>j. register_idx < j \<and> j < i \<longrightarrow> \<not> timer_retired_at l rid j))"

definition io_api_active_at :: "'w rlog \<Rightarrow> nat \<Rightarrow> nat \<Rightarrow> bool" where
  "io_api_active_at l register_idx i \<longleftrightarrow>
     io_api_registered_at l register_idx \<and> register_idx < i \<and>
     (\<forall>k. register_idx < k \<and> k < i \<longrightarrow> \<not> (io_api_deregistered_at l k \<and>
        get_io_api_deregister_rid (l ! k) = get_io_api_register_rid (l ! register_idx)))"

definition io_syscall_active_at :: "'w rlog \<Rightarrow> nat \<Rightarrow> nat \<Rightarrow> bool" where
  "io_syscall_active_at l register_idx i \<longleftrightarrow>
     (let rid = get_io_syscall_register_rid (l ! register_idx)
      in register_idx < i \<and>
         \<not> (\<exists>j. register_idx < j \<and> j < i \<and> io_syscall_deregistered_at l j \<and>
              get_io_syscall_deregister_rid (l ! j) = rid))"

definition io_api_active_at_set_waker :: "'w rlog \<Rightarrow> u64 \<Rightarrow> nat \<Rightarrow> bool" where
  "io_api_active_at_set_waker l rid set_waker_idx \<longleftrightarrow>
     (\<exists>reg_idx < set_waker_idx. io_api_registered_at l reg_idx \<and>
        get_io_api_register_rid (l ! reg_idx) = rid \<and> io_api_active_at l reg_idx set_waker_idx)"

definition find_io_syscall_register_for_rid :: "'w rlog \<Rightarrow> u64 \<Rightarrow> nat \<Rightarrow> nat option" where
  "find_io_syscall_register_for_rid l rid =
     find_back (\<lambda>j. io_syscall_registered_at l j \<and> get_io_syscall_register_rid (l ! j) = rid)"

definition io_syscall_active_at_set_waker :: "'w rlog \<Rightarrow> u64 \<Rightarrow> nat \<Rightarrow> bool" where
  "io_syscall_active_at_set_waker l rid set_waker_idx \<longleftrightarrow>
     (case find_io_syscall_register_for_rid l rid set_waker_idx of
        None \<Rightarrow> False
      | Some register_idx \<Rightarrow> register_idx < set_waker_idx \<and> io_syscall_active_at l register_idx set_waker_idx)"

fun max_timestamp_up_to :: "'w rlog \<Rightarrow> nat \<Rightarrow> instant" where
  "max_timestamp_up_to l 0 = 0"
| "max_timestamp_up_to l (Suc i) =
     (if is_get_current_time_at l i
      then (let ts = get_current_timestamp (l ! i); prev_max = max_timestamp_up_to l i
            in if ts > prev_max then ts else prev_max)
      else max_timestamp_up_to l i)"

definition no_prior_timer_registration :: "'w rlog \<Rightarrow> u64 \<Rightarrow> nat \<Rightarrow> bool" where
  "no_prior_timer_registration l rid stop \<longleftrightarrow>
     (\<forall>k < stop. is_succ_register_timer_at l k \<and> get_register_timer_rid (l ! k) = rid \<longrightarrow>
        (\<exists>j < stop. k < j \<and> timer_retired_at l rid j))"

definition no_prior_io_api_registration :: "'w rlog \<Rightarrow> u64 \<Rightarrow> nat \<Rightarrow> bool" where
  "no_prior_io_api_registration l rid stop \<longleftrightarrow>
     (\<forall>k < stop. io_api_registered_at l k \<and> get_io_api_register_rid (l ! k) = rid \<longrightarrow>
        (\<exists>j < stop. k < j \<and> io_api_deregistered_at l j \<and> get_io_api_deregister_rid (l ! j) = rid))"

definition no_prior_io_syscall_registration :: "'w rlog \<Rightarrow> u64 \<Rightarrow> nat \<Rightarrow> bool" where
  "no_prior_io_syscall_registration l rid stop \<longleftrightarrow>
     (\<forall>k < stop. io_syscall_registered_at l k \<and> get_io_syscall_register_rid (l ! k) = rid \<longrightarrow>
        (\<exists>j < stop. k < j \<and> io_syscall_deregistered_at l j \<and> get_io_syscall_deregister_rid (l ! j) = rid))"

definition has_timeout_point :: "'w rlog \<Rightarrow> nat \<Rightarrow> bool" where
  "has_timeout_point l register_idx \<longleftrightarrow>
     (\<exists>timeout_idx > register_idx. is_get_current_time_at l timeout_idx \<and>
        get_current_timestamp (l ! timeout_idx) \<ge> get_register_timer_deadline (l ! register_idx) \<and>
        timer_active_at l register_idx timeout_idx)"


section \<open>The conditions R1 to R17\<close>

definition timer_deadline_future_at :: "'w rlog \<Rightarrow> nat \<Rightarrow> bool" where
  "timer_deadline_future_at l i \<longleftrightarrow> get_register_timer_deadline (l ! i) > max_timestamp_up_to l i"

definition has_get_current_time_in_park :: "'w rlog \<Rightarrow> nat \<Rightarrow> bool" where
  "has_get_current_time_in_park l park_end_idx \<longleftrightarrow>
     (case current_park_start l park_end_idx of
        None \<Rightarrow> False
      | Some park_start \<Rightarrow> \<exists>j. park_start < j \<and> j < park_end_idx \<and> is_get_current_time_at l j)"

function count_poll_events_in_range :: "'w rlog \<Rightarrow> nat \<Rightarrow> nat \<Rightarrow> nat" where
  "count_poll_events_in_range l start stop =
     (if start \<ge> stop then 0
      else if is_poll_events_at l start then 1 + count_poll_events_in_range l (start + 1) stop
      else count_poll_events_in_range l (start + 1) stop)"
  by pat_completeness auto
termination by (relation "measure (\<lambda>(l, start, stop). stop - start)") auto

declare count_poll_events_in_range.simps [simp del]

definition has_exactly_one_poll_events_in_park :: "'w rlog \<Rightarrow> nat \<Rightarrow> bool" where
  "has_exactly_one_poll_events_in_park l park_end_idx \<longleftrightarrow>
     (case current_park_start l park_end_idx of
        None \<Rightarrow> False
      | Some park_start \<Rightarrow> count_poll_events_in_range l park_start park_end_idx = 1)"

definition is_in_park_cycle :: "'w rlog \<Rightarrow> nat \<Rightarrow> bool" where
  "is_in_park_cycle l i \<longleftrightarrow> current_park_start l i \<noteq> None"

definition is_timer_wake_at :: "'w rlog \<Rightarrow> nat \<Rightarrow> bool" where
  "is_timer_wake_at l i \<longleftrightarrow> is_wake_task_at l i \<and>
     (\<exists>j < i. is_succ_register_timer_at l j \<and>
        get_register_timer_rid (l ! j) = get_wake_task_source_rid (l ! i) \<and> timer_active_at l j i)"

definition timer_waker_valid_at :: "'w rlog \<Rightarrow> nat \<Rightarrow> bool" where
  "timer_waker_valid_at l i \<longleftrightarrow>
     (let rid = get_wake_task_source_rid (l ! i); waker = get_wake_task_waker (l ! i)
      in \<exists>j < i. is_succ_register_timer_at l j \<and> get_register_timer_rid (l ! j) = rid \<and>
           get_register_timer_waker (l ! j) = waker \<and> timer_active_at l j i)"

definition is_io_api_wake_at :: "'w rlog \<Rightarrow> nat \<Rightarrow> bool" where
  "is_io_api_wake_at l i \<longleftrightarrow> is_wake_task_at l i \<and>
     (\<exists>j < i. io_api_registered_at l j \<and>
        get_io_api_register_rid (l ! j) = get_wake_task_source_rid (l ! i) \<and> io_api_active_at l j i)"

definition is_io_syscall_wake_at :: "'w rlog \<Rightarrow> nat \<Rightarrow> bool" where
  "is_io_syscall_wake_at l i \<longleftrightarrow> is_wake_task_at l i \<and>
     (let rid = get_wake_task_source_rid (l ! i)
      in \<exists>j < i. io_syscall_registered_at l j \<and> get_io_syscall_register_rid (l ! j) = rid \<and>
           io_syscall_active_at l j i)"

definition io_waker_valid_api :: "'w rlog \<Rightarrow> nat \<Rightarrow> bool" where
  "io_waker_valid_api l i \<longleftrightarrow>
     (let rid = get_wake_task_source_rid (l ! i); waker = get_wake_task_waker (l ! i)
      in \<exists>sw_idx < i. is_succ_set_waker_at l sw_idx \<and> get_set_waker_rid (l ! sw_idx) = rid \<and>
           get_set_waker_waker (l ! sw_idx) = waker \<and> io_api_active_at_set_waker l rid sw_idx)"

definition io_waker_valid_syscall :: "'w rlog \<Rightarrow> nat \<Rightarrow> bool" where
  "io_waker_valid_syscall l i \<longleftrightarrow>
     (let rid = get_wake_task_source_rid (l ! i); waker = get_wake_task_waker (l ! i)
      in \<exists>sw_idx < i. is_succ_set_waker_at l sw_idx \<and> get_set_waker_rid (l ! sw_idx) = rid \<and>
           get_set_waker_waker (l ! sw_idx) = waker \<and> io_syscall_active_at_set_waker l rid sw_idx)"

definition find_last_inbound_register_io_begin :: "'w rlog \<Rightarrow> nat \<Rightarrow> nat option" where
  "find_last_inbound_register_io_begin l = find_back (is_inbound_register_io_begin_at l)"

definition in_register_io_cycle :: "'w rlog \<Rightarrow> nat \<Rightarrow> bool" where
  "in_register_io_cycle l i \<longleftrightarrow>
     (case find_last_inbound_register_io_begin l i of
        None \<Rightarrow> False
      | Some begin_idx \<Rightarrow> \<forall>k. begin_idx < k \<and> k < i \<longrightarrow> \<not> is_inbound_register_io_end_at l k)"

definition find_last_inbound_deregister_io_begin :: "'w rlog \<Rightarrow> nat \<Rightarrow> nat option" where
  "find_last_inbound_deregister_io_begin l = find_back (is_inbound_deregister_io_begin_at l)"

definition in_deregister_io_cycle :: "'w rlog \<Rightarrow> nat \<Rightarrow> bool" where
  "in_deregister_io_cycle l i \<longleftrightarrow>
     (case find_last_inbound_deregister_io_begin l i of
        None \<Rightarrow> False
      | Some begin_idx \<Rightarrow> \<forall>k. begin_idx < k \<and> k < i \<longrightarrow> \<not> is_inbound_deregister_io_end_at l k)"

fun get_inbound_register_io_source :: "'w reactor_event \<Rightarrow> int" where
  "get_inbound_register_io_source (RInbound (RegisterIoResource s i res)) = s"
| "get_inbound_register_io_source _ = 0"

fun get_inbound_register_io_interest :: "'w reactor_event \<Rightarrow> interest" where
  "get_inbound_register_io_interest (RInbound (RegisterIoResource s i res)) = i"
| "get_inbound_register_io_interest _ = \<lparr>readable = False, writable = False\<rparr>"

fun get_inbound_register_io_result :: "'w reactor_event \<Rightarrow> u64 io_result" where
  "get_inbound_register_io_result (RInbound (RegisterIoResource s i (Some r))) = r"
| "get_inbound_register_io_result _ = IoErr 0"

fun get_outbound_register_io_source :: "'w reactor_event \<Rightarrow> int" where
  "get_outbound_register_io_source (ROutbound (OsRegisterIoResource s k i res)) = s"
| "get_outbound_register_io_source _ = 0"

fun get_outbound_register_io_interest :: "'w reactor_event \<Rightarrow> interest" where
  "get_outbound_register_io_interest (ROutbound (OsRegisterIoResource s k i res)) = i"
| "get_outbound_register_io_interest _ = \<lparr>readable = False, writable = False\<rparr>"

fun get_outbound_register_io_result :: "'w reactor_event \<Rightarrow> unit io_result" where
  "get_outbound_register_io_result (ROutbound (OsRegisterIoResource s k i res)) = res"
| "get_outbound_register_io_result _ = IoErr 0"

fun inbound_result_matches_outbound_register :: "u64 io_result \<Rightarrow> unit io_result \<Rightarrow> u64 \<Rightarrow> bool" where
  "inbound_result_matches_outbound_register (IoOk rid) (IoOk u) outbound_rid = (rid = outbound_rid)"
| "inbound_result_matches_outbound_register (IoErr e1) (IoErr e2) outbound_rid = (e1 = e2)"
| "inbound_result_matches_outbound_register _ _ _ = False"

definition find_register_io_cycle_begin :: "'w rlog \<Rightarrow> nat \<Rightarrow> nat option" where
  "find_register_io_cycle_begin l = find_back (is_inbound_register_io_begin_at l)"

definition has_matching_outbound_register ::
  "'w rlog \<Rightarrow> nat \<Rightarrow> nat \<Rightarrow> int \<Rightarrow> interest \<Rightarrow> u64 io_result \<Rightarrow> bool" where
  "has_matching_outbound_register l begin_idx end_idx source interest inbound_result \<longleftrightarrow>
     (\<exists>k. begin_idx < k \<and> k < end_idx \<and> io_syscall_register_at l k \<and>
        get_outbound_register_io_source (l ! k) = source \<and>
        get_outbound_register_io_interest (l ! k) = interest \<and>
        inbound_result_matches_outbound_register inbound_result
          (get_outbound_register_io_result (l ! k)) (get_io_syscall_register_rid (l ! k)))"

definition register_io_result_valid :: "'w rlog \<Rightarrow> nat \<Rightarrow> bool" where
  "register_io_result_valid l i \<longleftrightarrow>
     (let source = get_inbound_register_io_source (l ! i);
          interest = get_inbound_register_io_interest (l ! i);
          result = get_inbound_register_io_result (l ! i)
      in case find_register_io_cycle_begin l i of
           None \<Rightarrow> False
         | Some begin_idx \<Rightarrow>
             get_inbound_register_io_source (l ! begin_idx) = source \<and>
             get_inbound_register_io_interest (l ! begin_idx) = interest \<and>
             has_matching_outbound_register l begin_idx i source interest result)"

fun get_inbound_deregister_io_result :: "'w reactor_event \<Rightarrow> unit io_result" where
  "get_inbound_deregister_io_result (RInbound (DeregisterIoResource k (Some r))) = r"
| "get_inbound_deregister_io_result _ = IoErr 0"

fun get_outbound_deregister_io_result :: "'w reactor_event \<Rightarrow> unit io_result" where
  "get_outbound_deregister_io_result (ROutbound (OsDeregisterIoResource s k r)) = r"
| "get_outbound_deregister_io_result _ = IoErr 0"

definition find_deregister_io_cycle_begin :: "'w rlog \<Rightarrow> nat \<Rightarrow> nat option" where
  "find_deregister_io_cycle_begin l = find_back (is_inbound_deregister_io_begin_at l)"

definition has_matching_outbound_deregister ::
  "'w rlog \<Rightarrow> nat \<Rightarrow> nat \<Rightarrow> u64 \<Rightarrow> unit io_result \<Rightarrow> bool" where
  "has_matching_outbound_deregister l begin_idx end_idx rid result \<longleftrightarrow>
     (\<exists>k. begin_idx < k \<and> k < end_idx \<and> io_syscall_deregistered_at l k \<and>
        get_io_syscall_deregister_rid (l ! k) = rid \<and> get_outbound_deregister_io_result (l ! k) = result)"

definition deregister_io_result_valid :: "'w rlog \<Rightarrow> nat \<Rightarrow> bool" where
  "deregister_io_result_valid l i \<longleftrightarrow>
     (let rid = get_io_api_deregister_rid (l ! i); result = get_inbound_deregister_io_result (l ! i)
      in case find_deregister_io_cycle_begin l i of
           None \<Rightarrow> False
         | Some begin_idx \<Rightarrow>
             get_io_api_deregister_rid (l ! begin_idx) = rid \<and>
             has_matching_outbound_deregister l begin_idx i rid result)"

definition wake_registered_api :: "'w rlog \<Rightarrow> nat \<Rightarrow> bool" where
  "wake_registered_api l i \<longleftrightarrow>
     (let rid = get_wake_task_source_rid (l ! i)
      in (\<exists>j < i. is_succ_register_timer_at l j \<and> get_register_timer_rid (l ! j) = rid) \<or>
         (\<exists>j < i. io_api_registered_at l j \<and> get_io_api_register_rid (l ! j) = rid))"

definition wake_registered_syscall :: "'w rlog \<Rightarrow> nat \<Rightarrow> bool" where
  "wake_registered_syscall l i \<longleftrightarrow>
     (let rid = get_wake_task_source_rid (l ! i)
      in (\<exists>j < i. is_succ_register_timer_at l j \<and> get_register_timer_rid (l ! j) = rid) \<or>
         (\<exists>j < i. io_syscall_registered_at l j \<and> get_io_syscall_register_rid (l ! j) = rid))"

definition timer_awaiting_wake :: "'w rlog \<Rightarrow> nat \<Rightarrow> bool" where
  "timer_awaiting_wake l register_idx \<longleftrightarrow>
     register_idx < length l \<and> is_succ_register_timer_at l register_idx \<and>
     timer_active_at l register_idx (length l) \<and>
     (\<forall>k. register_idx < k \<and> k < length l \<longrightarrow> \<not> (is_wake_task_at l k \<and>
        get_wake_task_source_rid (l ! k) = get_register_timer_rid (l ! register_idx)))"

text \<open>The first clock reading at or after the deadline while the timer is active, searched forward.\<close>

definition has_timeout_point_at :: "'w rlog \<Rightarrow> nat \<Rightarrow> nat \<Rightarrow> bool" where
  "has_timeout_point_at l register_idx timeout_idx \<longleftrightarrow>
     is_get_current_time_at l timeout_idx \<and>
     get_current_timestamp (l ! timeout_idx) \<ge> get_register_timer_deadline (l ! register_idx) \<and>
     timer_active_at l register_idx timeout_idx"

definition first_timeout_point_rec :: "'w rlog \<Rightarrow> nat \<Rightarrow> nat option" where
  "first_timeout_point_rec l register_idx =
     List.find (has_timeout_point_at l register_idx) [Suc register_idx ..< length l]"

definition wake_on_expired :: "'w rlog local_liveness" where
  "wake_on_expired =
     \<lparr>ll_acceptance = (\<lambda>l i. is_succ_register_timer_at l i \<and> first_timeout_point_rec l i \<noteq> None \<and>
        timer_awaiting_wake l i),
      ll_fulfillment = (\<lambda>l i j. is_wake_task_at l j \<and>
        get_wake_task_source_rid (l ! j) = get_register_timer_rid (l ! i) \<and>
        get_wake_task_waker (l ! j) = get_register_timer_waker (l ! i)),
      ll_timely = (\<lambda>l i j. \<exists>t. first_timeout_point_rec l i = Some t \<and> t < j \<and>
        \<not> (\<exists>k. t < k \<and> k < j \<and> is_park_end_at l k))\<rparr>"

text \<open>The two directions of R17 differ in the component of the interest and of the event.\<close>

definition ev_readable :: "io_event \<Rightarrow> bool" where
  "ev_readable ev \<longleftrightarrow> ev_mode ev = IoReadable"

definition ev_writable :: "io_event \<Rightarrow> bool" where
  "ev_writable ev \<longleftrightarrow> ev_mode ev = IoWritable"

definition find_last_set_waker_for_rid_readable :: "'w rlog \<Rightarrow> u64 \<Rightarrow> nat \<Rightarrow> nat option" where
  "find_last_set_waker_for_rid_readable l rid = find_back (\<lambda>j. is_succ_set_waker_at l j \<and>
     get_set_waker_rid (l ! j) = rid \<and> readable (get_set_waker_interest (l ! j)))"

definition find_last_set_waker_for_rid_writable :: "'w rlog \<Rightarrow> u64 \<Rightarrow> nat \<Rightarrow> nat option" where
  "find_last_set_waker_for_rid_writable l rid = find_back (\<lambda>j. is_succ_set_waker_at l j \<and>
     get_set_waker_rid (l ! j) = rid \<and> writable (get_set_waker_interest (l ! j)))"

definition has_valid_set_waker_readable_api :: "'w rlog \<Rightarrow> nat \<Rightarrow> bool" where
  "has_valid_set_waker_readable_api l io_ready_idx \<longleftrightarrow>
     (let event = get_io_event (l ! io_ready_idx); rid = ev_rid event
      in ev_readable event \<and>
         (\<exists>sw_idx < io_ready_idx. is_succ_set_waker_at l sw_idx \<and> get_set_waker_rid (l ! sw_idx) = rid \<and>
            readable (get_set_waker_interest (l ! sw_idx)) \<and> io_api_active_at_set_waker l rid sw_idx \<and>
            (\<forall>k. sw_idx < k \<and> k < io_ready_idx \<longrightarrow>
               \<not> (io_api_deregistered_at l k \<and> get_io_api_deregister_rid (l ! k) = rid))))"

definition has_valid_set_waker_writable_api :: "'w rlog \<Rightarrow> nat \<Rightarrow> bool" where
  "has_valid_set_waker_writable_api l io_ready_idx \<longleftrightarrow>
     (let event = get_io_event (l ! io_ready_idx); rid = ev_rid event
      in ev_writable event \<and>
         (\<exists>sw_idx < io_ready_idx. is_succ_set_waker_at l sw_idx \<and> get_set_waker_rid (l ! sw_idx) = rid \<and>
            writable (get_set_waker_interest (l ! sw_idx)) \<and> io_api_active_at_set_waker l rid sw_idx \<and>
            (\<forall>k. sw_idx < k \<and> k < io_ready_idx \<longrightarrow>
               \<not> (io_api_deregistered_at l k \<and> get_io_api_deregister_rid (l ! k) = rid))))"

definition has_valid_set_waker_readable_syscall :: "'w rlog \<Rightarrow> nat \<Rightarrow> bool" where
  "has_valid_set_waker_readable_syscall l io_ready_idx \<longleftrightarrow>
     (let event = get_io_event (l ! io_ready_idx); rid = ev_rid event
      in ev_readable event \<and>
         (\<exists>sw_idx < io_ready_idx. is_succ_set_waker_at l sw_idx \<and> get_set_waker_rid (l ! sw_idx) = rid \<and>
            readable (get_set_waker_interest (l ! sw_idx)) \<and> io_syscall_active_at_set_waker l rid sw_idx \<and>
            (\<forall>k. sw_idx < k \<and> k < io_ready_idx \<longrightarrow>
               \<not> (io_syscall_deregistered_at l k \<and> get_io_syscall_deregister_rid (l ! k) = rid))))"

definition has_valid_set_waker_writable_syscall :: "'w rlog \<Rightarrow> nat \<Rightarrow> bool" where
  "has_valid_set_waker_writable_syscall l io_ready_idx \<longleftrightarrow>
     (let event = get_io_event (l ! io_ready_idx); rid = ev_rid event
      in ev_writable event \<and>
         (\<exists>sw_idx < io_ready_idx. is_succ_set_waker_at l sw_idx \<and> get_set_waker_rid (l ! sw_idx) = rid \<and>
            writable (get_set_waker_interest (l ! sw_idx)) \<and> io_syscall_active_at_set_waker l rid sw_idx \<and>
            (\<forall>k. sw_idx < k \<and> k < io_ready_idx \<longrightarrow>
               \<not> (io_syscall_deregistered_at l k \<and> get_io_syscall_deregister_rid (l ! k) = rid))))"

definition woken_with :: "'w rlog \<Rightarrow> nat \<Rightarrow> nat option \<Rightarrow> nat \<Rightarrow> bool" where
  "woken_with l i sw_opt j \<longleftrightarrow>
     (case sw_opt of
        None \<Rightarrow> False
      | Some sw \<Rightarrow> is_wake_task_at l j \<and> get_wake_task_source_rid (l ! j) = ev_rid (get_io_event (l ! i)) \<and>
          get_wake_task_waker (l ! j) = get_set_waker_waker (l ! sw))"

definition before_park_end_or_poll :: "'w rlog \<Rightarrow> nat \<Rightarrow> nat \<Rightarrow> bool" where
  "before_park_end_or_poll l i j \<longleftrightarrow>
     i < j \<and> \<not> (\<exists>k. i < k \<and> k < j \<and> (is_park_end_at l k \<or> is_poll_events_at l k))"


definition wake_on_io_ready_readable :: "'w rlog local_liveness" where
  "wake_on_io_ready_readable =
     \<lparr>ll_acceptance = (\<lambda>l i. is_io_event_ready_at l i \<and> has_valid_set_waker_readable_syscall l i),
      ll_fulfillment = (\<lambda>l i j.
        woken_with l i (find_last_set_waker_for_rid_readable l (ev_rid (get_io_event (l ! i))) i) j),
      ll_timely = before_park_end_or_poll\<rparr>"

definition wake_on_io_ready_writable :: "'w rlog local_liveness" where
  "wake_on_io_ready_writable =
     \<lparr>ll_acceptance = (\<lambda>l i. is_io_event_ready_at l i \<and> has_valid_set_waker_writable_syscall l i),
      ll_fulfillment = (\<lambda>l i j.
        woken_with l i (find_last_set_waker_for_rid_writable l (ev_rid (get_io_event (l ! i))) i) j),
      ll_timely = before_park_end_or_poll\<rparr>"

section \<open>The conditions as the reactor proves them\<close>

text \<open>
  R5 and R16 speak of the wakers and the expiry of timers and stand alone; \<open>reactor_io_inv\<close> and
  \<open>reactor_wake_inv\<close> are the other conditions of the source's \<open>reactor_safety_inv\<close> and
  \<open>reactor_liveness_inv\<close>.
\<close>

definition timer_waker_validity :: "'w rlog action_safety" where
  "timer_waker_validity = \<lparr>as_acceptance = is_timer_wake_at, as_validity = timer_waker_valid_at\<rparr>"

definition reactor_io_inv :: "'w rlog \<Rightarrow> bool" where
  "reactor_io_inv l \<longleftrightarrow>
     (\<forall>i. is_succ_register_timer_at l i \<longrightarrow> no_prior_timer_registration l (get_register_timer_rid (l ! i)) i) \<and>
     (\<forall>i. io_api_registered_at l i \<longrightarrow> no_prior_io_api_registration l (get_io_api_register_rid (l ! i)) i) \<and>
     (\<forall>i. is_succ_register_timer_at l i \<longrightarrow> no_prior_io_api_registration l (get_register_timer_rid (l ! i)) i) \<and>
     (\<forall>i. io_api_registered_at l i \<longrightarrow> no_prior_timer_registration l (get_io_api_register_rid (l ! i)) i) \<and>
     (\<forall>i. is_io_api_wake_at l i \<longrightarrow> io_waker_valid_api l i) \<and>
     (\<forall>i. is_wake_task_at l i \<longrightarrow> wake_registered_api l i)"

definition reactor_safety_inv :: "'w rlog \<Rightarrow> bool" where
  "reactor_safety_inv l \<longleftrightarrow> reactor_io_inv l \<and> action_safety_satisfied timer_waker_validity l"

definition reactor_wake_inv :: "'w rlog \<Rightarrow> bool" where
  "reactor_wake_inv l \<longleftrightarrow>
     (\<forall>i. is_io_event_ready_at l i \<and> has_valid_set_waker_readable_api l i \<longrightarrow>
        (\<exists>j > i. woken_with l i (find_last_set_waker_for_rid_readable l (ev_rid (get_io_event (l ! i))) i) j \<and>
           before_park_end_or_poll l i j)) \<and>
     (\<forall>i. is_io_event_ready_at l i \<and> has_valid_set_waker_writable_api l i \<longrightarrow>
        (\<exists>j > i. woken_with l i (find_last_set_waker_for_rid_writable l (ev_rid (get_io_event (l ! i))) i) j \<and>
           before_park_end_or_poll l i j))"

definition reactor_liveness_inv :: "'w rlog \<Rightarrow> bool" where
  "reactor_liveness_inv l \<longleftrightarrow> local_liveness_satisfied wake_on_expired l \<and> reactor_wake_inv l"

definition reactor_inv :: "'w rlog \<Rightarrow> bool" where
  "reactor_inv l \<longleftrightarrow> reactor_safety_inv l \<and> reactor_liveness_inv l"

definition reactor_ext_inv :: "'w rlog \<Rightarrow> bool" where
  "reactor_ext_inv l \<longleftrightarrow>
     (\<forall>i. is_succ_register_timer_at l i \<longrightarrow> timer_deadline_future_at l i) \<and>
     (\<forall>i. is_park_end_at l i \<longrightarrow> has_get_current_time_in_park l i) \<and>
     (\<forall>i. is_park_end_at l i \<longrightarrow> has_exactly_one_poll_events_in_park l i) \<and>
     (\<forall>i. is_io_event_ready_at l i \<longrightarrow> is_in_park_cycle l i) \<and>
     (\<forall>i. io_syscall_register_at l i \<longrightarrow> in_register_io_cycle l i) \<and>
     (\<forall>i. io_syscall_deregistered_at l i \<longrightarrow> in_deregister_io_cycle l i) \<and>
     (\<forall>i. is_inbound_deregister_io_end_at l i \<longrightarrow> deregister_io_result_valid l i) \<and>
     (\<forall>i. io_api_registered_at l i \<longrightarrow> register_io_result_valid l i) \<and>
     (\<forall>i. is_succ_set_waker_at l i \<longrightarrow> io_api_active_at_set_waker l (get_set_waker_rid (l ! i)) i)"

definition alloc_inv :: "'w rlog \<Rightarrow> nat \<Rightarrow> bool" where
  "alloc_inv l next_rid \<longleftrightarrow> next_rid \<ge> 1 \<and>
     (\<forall>i. is_succ_register_timer_at l i \<longrightarrow>
        unat (get_register_timer_rid (l ! i)) < next_rid \<and> unat (get_register_timer_rid (l ! i)) \<ge> 1) \<and>
     (\<forall>i. io_api_registered_at l i \<longrightarrow>
        unat (get_io_api_register_rid (l ! i)) < next_rid \<and> unat (get_io_api_register_rid (l ! i)) \<ge> 1)"

definition reactor_wf :: "'w rlog \<Rightarrow> nat \<Rightarrow> bool" where
  "reactor_wf l next_rid \<longleftrightarrow> reactor_inv l \<and> reactor_ext_inv l \<and> alloc_inv l next_rid"

section \<open>The conditions as the liveness proof assumes them\<close>

definition io_reg_uniqueness :: "'w rlog action_safety" where
  "io_reg_uniqueness =
     \<lparr>as_acceptance = io_syscall_registered_at,
      as_validity = (\<lambda>l i. no_prior_io_syscall_registration l (get_io_syscall_register_rid (l ! i)) i)\<rparr>"

definition timer_io_disjoint_at_timer :: "'w rlog action_safety" where
  "timer_io_disjoint_at_timer =
     \<lparr>as_acceptance = is_succ_register_timer_at,
      as_validity = (\<lambda>l i. no_prior_io_syscall_registration l (get_register_timer_rid (l ! i)) i)\<rparr>"

definition timer_io_disjoint_at_io :: "'w rlog action_safety" where
  "timer_io_disjoint_at_io =
     \<lparr>as_acceptance = io_syscall_registered_at,
      as_validity = (\<lambda>l i. no_prior_timer_registration l (get_io_syscall_register_rid (l ! i)) i)\<rparr>"

definition io_waker_validity :: "'w rlog action_safety" where
  "io_waker_validity = \<lparr>as_acceptance = is_io_syscall_wake_at, as_validity = io_waker_valid_syscall\<rparr>"

definition inbound_register_io_result :: "'w rlog action_safety" where
  "inbound_register_io_result =
     \<lparr>as_acceptance = is_inbound_register_io_end_at, as_validity = register_io_result_valid\<rparr>"

definition wake_has_registration :: "'w rlog action_safety" where
  "wake_has_registration = \<lparr>as_acceptance = is_wake_task_at, as_validity = wake_registered_syscall\<rparr>"

definition set_waker_active_io :: "'w rlog action_safety" where
  "set_waker_active_io =
     \<lparr>as_acceptance = is_succ_set_waker_at,
      as_validity = (\<lambda>l i. io_syscall_active_at_set_waker l (get_set_waker_rid (l ! i)) i)\<rparr>"

definition timer_deadline_future :: "'w rlog action_safety" where
  "timer_deadline_future =
     \<lparr>as_acceptance = is_succ_register_timer_at, as_validity = timer_deadline_future_at\<rparr>"

definition park_has_timestamp :: "'w rlog action_safety" where
  "park_has_timestamp = \<lparr>as_acceptance = is_park_end_at, as_validity = has_get_current_time_in_park\<rparr>"

definition park_poll_once :: "'w rlog action_safety" where
  "park_poll_once = \<lparr>as_acceptance = is_park_end_at, as_validity = has_exactly_one_poll_events_in_park\<rparr>"

definition io_ready_in_park :: "'w rlog action_safety" where
  "io_ready_in_park = \<lparr>as_acceptance = is_io_event_ready_at, as_validity = is_in_park_cycle\<rparr>"

definition timer_reg_uniqueness :: "'w rlog action_safety" where
  "timer_reg_uniqueness =
     \<lparr>as_acceptance = is_succ_register_timer_at,
      as_validity = (\<lambda>l i. no_prior_timer_registration l (get_register_timer_rid (l ! i)) i)\<rparr>"

definition register_io_in_cycle :: "'w rlog action_safety" where
  "register_io_in_cycle = \<lparr>as_acceptance = io_syscall_register_at, as_validity = in_register_io_cycle\<rparr>"

definition deregister_io_in_cycle :: "'w rlog action_safety" where
  "deregister_io_in_cycle =
     \<lparr>as_acceptance = io_syscall_deregistered_at, as_validity = in_deregister_io_cycle\<rparr>"

definition inbound_deregister_io_result :: "'w rlog action_safety" where
  "inbound_deregister_io_result =
     \<lparr>as_acceptance = is_inbound_deregister_io_end_at, as_validity = deregister_io_result_valid\<rparr>"

text \<open>
  The invariant the liveness proof starts from, condition by condition
  (\<^verbatim>\<open>lion-liveness/src/reactor/invariants/mod.rs\<close>).
\<close>

definition liveness_action_safety_inv :: "'w rlog \<Rightarrow> bool" where
  "liveness_action_safety_inv l \<longleftrightarrow>
     action_safety_satisfied timer_deadline_future l \<and>
     action_safety_satisfied park_has_timestamp l \<and>
     action_safety_satisfied park_poll_once l \<and>
     action_safety_satisfied io_ready_in_park l \<and>
     action_safety_satisfied timer_waker_validity l \<and>
     action_safety_satisfied io_waker_validity l \<and>
     action_safety_satisfied timer_reg_uniqueness l \<and>
     action_safety_satisfied io_reg_uniqueness l \<and>
     action_safety_satisfied timer_io_disjoint_at_timer l \<and>
     action_safety_satisfied timer_io_disjoint_at_io l \<and>
     action_safety_satisfied register_io_in_cycle l \<and>
     action_safety_satisfied deregister_io_in_cycle l \<and>
     action_safety_satisfied inbound_register_io_result l \<and>
     action_safety_satisfied inbound_deregister_io_result l \<and>
     action_safety_satisfied wake_has_registration l \<and>
     action_safety_satisfied set_waker_active_io l"

definition liveness_local_inv :: "'w rlog \<Rightarrow> bool" where
  "liveness_local_inv l \<longleftrightarrow>
     local_liveness_satisfied wake_on_expired l \<and>
     local_liveness_satisfied wake_on_io_ready_readable l \<and>
     local_liveness_satisfied wake_on_io_ready_writable l"

definition liveness_reactor_inv :: "'w rlog \<Rightarrow> bool" where
  "liveness_reactor_inv l \<longleftrightarrow> liveness_action_safety_inv l \<and> liveness_local_inv l"

text \<open>
  The part of it that no call can break, also at the handle layer: all but R5 and R16, which the
  handle layer breaks, and R12, which fails once the resource ids have run out.
\<close>

definition syscall_anchored_inv :: "'w rlog \<Rightarrow> bool" where
  "syscall_anchored_inv l \<longleftrightarrow>
     action_safety_satisfied timer_deadline_future l \<and>
     action_safety_satisfied park_has_timestamp l \<and>
     action_safety_satisfied park_poll_once l \<and>
     action_safety_satisfied io_ready_in_park l \<and>
     action_safety_satisfied io_waker_validity l \<and>
     action_safety_satisfied timer_reg_uniqueness l \<and>
     action_safety_satisfied io_reg_uniqueness l \<and>
     action_safety_satisfied timer_io_disjoint_at_timer l \<and>
     action_safety_satisfied timer_io_disjoint_at_io l \<and>
     action_safety_satisfied register_io_in_cycle l \<and>
     action_safety_satisfied deregister_io_in_cycle l \<and>
     action_safety_satisfied inbound_deregister_io_result l \<and>
     action_safety_satisfied wake_has_registration l \<and>
     action_safety_satisfied set_waker_active_io l \<and>
     local_liveness_satisfied wake_on_io_ready_readable l \<and>
     local_liveness_satisfied wake_on_io_ready_writable l"

lemma liveness_reactor_inv_split:
  "liveness_reactor_inv l \<longleftrightarrow> syscall_anchored_inv l \<and> action_safety_satisfied timer_waker_validity l \<and>
     local_liveness_satisfied wake_on_expired l \<and> action_safety_satisfied inbound_register_io_result l"
  unfolding liveness_reactor_inv_def liveness_action_safety_inv_def liveness_local_inv_def syscall_anchored_inv_def
  by blast

text \<open>The bridge between the anchors (\<open>bridge.rs\<close>): a call that succeeds contains the system call.\<close>

definition io_api_deregistered_ok_at :: "'w rlog \<Rightarrow> nat \<Rightarrow> bool" where
  "io_api_deregistered_ok_at l i \<longleftrightarrow>
     is_inbound_deregister_io_end_at l i \<and> get_inbound_deregister_io_result (l ! i) = IoOk ()"

definition io_register_bridge_at :: "'w rlog \<Rightarrow> nat \<Rightarrow> bool" where
  "io_register_bridge_at l i \<longleftrightarrow>
     (case find_register_io_cycle_begin l i of
        None \<Rightarrow> False
      | Some b \<Rightarrow> \<exists>k. b < k \<and> k < i \<and> io_syscall_registered_at l k \<and>
          get_io_syscall_register_rid (l ! k) = get_io_api_register_rid (l ! i))"

definition io_deregister_bridge_at :: "'w rlog \<Rightarrow> nat \<Rightarrow> bool" where
  "io_deregister_bridge_at l i \<longleftrightarrow>
     (case find_deregister_io_cycle_begin l i of
        None \<Rightarrow> False
      | Some b \<Rightarrow> \<exists>k. b < k \<and> k < i \<and> io_syscall_deregistered_at l k \<and>
          get_outbound_deregister_io_result (l ! k) = IoOk () \<and>
          get_io_syscall_deregister_rid (l ! k) = get_io_api_deregister_rid (l ! i))"

definition io_anchor_bridge :: "'w rlog \<Rightarrow> bool" where
  "io_anchor_bridge l \<longleftrightarrow>
     (\<forall>i. io_api_registered_at l i \<longrightarrow> io_register_bridge_at l i) \<and>
     (\<forall>i. io_api_deregistered_ok_at l i \<longrightarrow> io_deregister_bridge_at l i)"

end
