(* ===== verification/Reactor_Monitor.thy ===== *)
theory Reactor_Monitor
  imports Reactor_Log
begin

text \<open>
  Logs as histories.  What a log says of timers and sources is read off by recursion
  (\<open>live_timers\<close>, \<open>live_sources\<close>, ...); \<open>lawful h e\<close> says that the event \<open>e\<close> may follow the history
  \<open>h\<close>, and \<open>prompt h e\<close> that it answers a reported I/O event.  A log of such events satisfies the
  conditions R1 to R17 of \<^theory_text>\<open>Reactor_Log\<close>, in both anchors.
\<close>

section \<open>What a history says\<close>

fun note_timer :: "(u64 \<Rightarrow> (instant \<times> 'w) option) \<Rightarrow> 'w reactor_event \<Rightarrow> u64 \<Rightarrow> (instant \<times> 'w) option" where
  "note_timer m (RInbound (RegisterTimer d w (Some (IoOk k)))) = m(k \<mapsto> (d, w))"
| "note_timer m (RInbound (DeregisterTimer k True)) = m(k := None)"
| "note_timer m (ROutbound (WakeTask w k)) = m(k := None)"
| "note_timer m _ = m"

fun note_source :: "(u64 \<Rightarrow> ('w option \<times> 'w option) option) \<Rightarrow> 'w reactor_event \<Rightarrow> u64 \<Rightarrow> ('w option \<times> 'w option) option" where
  "note_source m (RInbound (RegisterIoResource s i (Some (IoOk k)))) = m(k \<mapsto> (None, None))"
| "note_source m (RInbound (DeregisterIoResource k res)) = m(k := None)"
| "note_source m (RInbound (SetWaker k i w (Some (IoOk u)))) =
     (case m k of None \<Rightarrow> m
      | Some (rw, ww) \<Rightarrow> m(k \<mapsto> (if readable i then Some w else rw, if writable i then Some w else ww)))"
| "note_source m _ = m"

fun note_syscall :: "u64 set \<Rightarrow> 'w reactor_event \<Rightarrow> u64 set" where
  "note_syscall A (ROutbound (OsRegisterIoResource s k i (IoOk u))) = insert k A"
| "note_syscall A (ROutbound (OsDeregisterIoResource s k res)) = A - {k}"
| "note_syscall A _ = A"

fun note_wakers :: "(u64 \<Rightarrow> 'w option \<times> 'w option) \<Rightarrow> 'w reactor_event \<Rightarrow> u64 \<Rightarrow> 'w option \<times> 'w option" where
  "note_wakers m (RInbound (SetWaker k i w (Some (IoOk u)))) =
     m(k := (if readable i then Some w else fst (m k), if writable i then Some w else snd (m k)))"
| "note_wakers m _ = m"

definition live_timers :: "'w rlog \<Rightarrow> u64 \<Rightarrow> (instant \<times> 'w) option" where
  "live_timers h = foldl note_timer Map.empty h"

definition live_sources :: "'w rlog \<Rightarrow> u64 \<Rightarrow> ('w option \<times> 'w option) option" where
  "live_sources h = foldl note_source Map.empty h"

definition live_syscalls :: "'w rlog \<Rightarrow> u64 set" where
  "live_syscalls h = foldl note_syscall {} h"

definition last_wakers :: "'w rlog \<Rightarrow> u64 \<Rightarrow> 'w option \<times> 'w option" where
  "last_wakers h = foldl note_wakers (\<lambda>_. (None, None)) h"

definition latest :: "'w rlog \<Rightarrow> instant" where
  "latest h = max_timestamp_up_to h (length h)"

lemma history_snoc [simp]:
  "live_timers [] = Map.empty" "live_timers (h @ [e]) = note_timer (live_timers h) e"
  "live_sources [] = Map.empty" "live_sources (h @ [e]) = note_source (live_sources h) e"
  "live_syscalls [] = {}" "live_syscalls (h @ [e]) = note_syscall (live_syscalls h) e"
  "last_wakers [] = (\<lambda>_. (None, None))" "last_wakers (h @ [e]) = note_wakers (last_wakers h) e"
  by (simp_all add: live_timers_def live_sources_def live_syscalls_def last_wakers_def)

text \<open>The events by resource.\<close>

definition reg_timer :: "u64 \<Rightarrow> 'w reactor_event \<Rightarrow> bool" where
  "reg_timer k e \<longleftrightarrow> is_succ_register_timer e \<and> get_register_timer_rid e = k"

definition retires :: "u64 \<Rightarrow> 'w reactor_event \<Rightarrow> bool" where
  "retires k e \<longleftrightarrow> (is_succ_deregister_timer e \<and> get_deregister_timer_rid e = k) \<or>
     (is_wake_task e \<and> get_wake_task_source_rid e = k)"

definition reg_io :: "u64 \<Rightarrow> 'w reactor_event \<Rightarrow> bool" where
  "reg_io k e \<longleftrightarrow> is_succ_io_api_register e \<and> get_io_api_register_rid e = k"

definition dereg_io :: "u64 \<Rightarrow> 'w reactor_event \<Rightarrow> bool" where
  "dereg_io k e \<longleftrightarrow> is_io_api_deregister e \<and> get_io_api_deregister_rid e = k"

definition reg_sys :: "u64 \<Rightarrow> 'w reactor_event \<Rightarrow> bool" where
  "reg_sys k e \<longleftrightarrow> is_succ_io_syscall_register e \<and> get_io_syscall_register_rid e = k"

definition dereg_sys :: "u64 \<Rightarrow> 'w reactor_event \<Rightarrow> bool" where
  "dereg_sys k e \<longleftrightarrow> is_io_syscall_deregister e \<and> get_io_syscall_deregister_rid e = k"

definition sets_waker :: "u64 \<Rightarrow> 'w reactor_event \<Rightarrow> bool" where
  "sets_waker k e \<longleftrightarrow> is_succ_set_waker e \<and> get_set_waker_rid e = k"

definition timer_ids :: "'w rlog \<Rightarrow> u64 set" where
  "timer_ids h = {k. \<exists>e \<in> set h. reg_timer k e}"

definition io_ids :: "'w rlog \<Rightarrow> u64 set" where
  "io_ids h = {k. \<exists>e \<in> set h. reg_io k e}"

definition sys_ids :: "'w rlog \<Rightarrow> u64 set" where
  "sys_ids h = {k. \<exists>e \<in> set h. reg_sys k e}"

lemma is_succ_register_timer_conv: "is_succ_register_timer e \<longleftrightarrow> (\<exists>d w k. e = RInbound (RegisterTimer d w (Some (IoOk k))))"
  by (cases e rule: is_succ_register_timer.cases) auto

lemma is_succ_deregister_timer_conv: "is_succ_deregister_timer e \<longleftrightarrow> (\<exists>k. e = RInbound (DeregisterTimer k True))"
  by (cases e rule: is_succ_deregister_timer.cases) auto

lemma is_wake_task_conv: "is_wake_task e \<longleftrightarrow> (\<exists>w k. e = ROutbound (WakeTask w k))"
  by (cases e rule: is_wake_task.cases) auto

lemma is_succ_io_api_register_conv: "is_succ_io_api_register e \<longleftrightarrow> (\<exists>s i k. e = RInbound (RegisterIoResource s i (Some (IoOk k))))"
  by (cases e rule: is_succ_io_api_register.cases) auto

lemma is_io_api_deregister_conv: "is_io_api_deregister e \<longleftrightarrow> (\<exists>k res. e = RInbound (DeregisterIoResource k res))"
  by (cases e rule: is_io_api_deregister.cases) auto

lemma is_io_syscall_register_conv: "is_io_syscall_register e \<longleftrightarrow> (\<exists>s k i res. e = ROutbound (OsRegisterIoResource s k i res))"
  by (cases e rule: is_io_syscall_register.cases) auto

lemma is_succ_io_syscall_register_conv: "is_succ_io_syscall_register e \<longleftrightarrow> (\<exists>s k i. e = ROutbound (OsRegisterIoResource s k i (IoOk ())))"
  by (cases e rule: is_succ_io_syscall_register.cases) auto

lemma is_io_syscall_deregister_conv: "is_io_syscall_deregister e \<longleftrightarrow> (\<exists>s k res. e = ROutbound (OsDeregisterIoResource s k res))"
  by (cases e rule: is_io_syscall_deregister.cases) auto

lemma is_succ_set_waker_conv: "is_succ_set_waker e \<longleftrightarrow> (\<exists>k i w. e = RInbound (SetWaker k i w (Some (IoOk ()))))"
  by (cases e rule: is_succ_set_waker.cases) auto

lemma is_get_current_time_conv: "is_get_current_time e \<longleftrightarrow> (\<exists>ts. e = ROutbound (GetCurrentTime ts))"
  by (cases e rule: is_get_current_time.cases) auto

lemma is_io_event_ready_conv: "is_io_event_ready e \<longleftrightarrow> (\<exists>ev. e = ROutbound (IoEventReady ev))"
  by (cases e rule: is_io_event_ready.cases) auto

lemma is_park_end_conv: "is_park_end e \<longleftrightarrow> (\<exists>t res. e = RInbound (ReactorPark t (Some res)))"
  by (cases e rule: is_park_end.cases) auto

lemma is_inbound_register_io_end_conv:
  "is_inbound_register_io_end e \<longleftrightarrow> (\<exists>s i res. e = RInbound (RegisterIoResource s i (Some res)))"
  by (cases e rule: is_inbound_register_io_end.cases) auto

lemma is_inbound_deregister_io_end_conv:
  "is_inbound_deregister_io_end e \<longleftrightarrow> (\<exists>k res. e = RInbound (DeregisterIoResource k (Some res)))"
  by (cases e rule: is_inbound_deregister_io_end.cases) auto

lemmas event_convs = is_succ_register_timer_conv is_succ_deregister_timer_conv is_wake_task_conv
  is_succ_io_api_register_conv is_io_api_deregister_conv is_io_syscall_register_conv
  is_succ_io_syscall_register_conv is_io_syscall_deregister_conv is_succ_set_waker_conv

lemmas event_kinds = reg_timer_def retires_def reg_io_def dereg_io_def reg_sys_def dereg_sys_def sets_waker_def

lemma ids_append [simp]:
  "timer_ids [] = {}" "timer_ids (a @ b) = timer_ids a \<union> timer_ids b"
  "io_ids [] = {}" "io_ids (a @ b) = io_ids a \<union> io_ids b"
  "sys_ids [] = {}" "sys_ids (a @ b) = sys_ids a \<union> sys_ids b"
  by (auto simp: timer_ids_def io_ids_def sys_ids_def)

lemma ids_single:
  "k \<in> timer_ids [e] \<longleftrightarrow> reg_timer k e" "k \<in> io_ids [e] \<longleftrightarrow> reg_io k e" "k \<in> sys_ids [e] \<longleftrightarrow> reg_sys k e"
  by (simp_all add: timer_ids_def io_ids_def sys_ids_def)

text \<open>Each history function changes only at the events of its kind.\<close>

lemma note_timer_other: "\<not> reg_timer k e \<Longrightarrow> \<not> retires k e \<Longrightarrow> note_timer m e k = m k"
  by (cases "(m, e)" rule: note_timer.cases) (auto simp: event_kinds)

lemma note_source_other: "\<not> reg_io k e \<Longrightarrow> \<not> dereg_io k e \<Longrightarrow> \<not> sets_waker k e \<Longrightarrow> note_source m e k = m k"
  by (cases "(m, e)" rule: note_source.cases) (auto simp: event_kinds split: option.splits)

lemma note_source_none: "m k = None \<Longrightarrow> \<not> reg_io k e \<Longrightarrow> note_source m e k = None"
  by (cases "(m, e)" rule: note_source.cases) (auto simp: event_kinds split: option.splits)

lemma note_source_some: "m k \<noteq> None \<Longrightarrow> \<not> dereg_io k e \<Longrightarrow> note_source m e k \<noteq> None"
  by (cases "(m, e)" rule: note_source.cases) (auto simp: event_kinds split: option.splits)

lemma note_source_reg: "reg_io k e \<Longrightarrow> note_source m e k = Some (None, None)"
  by (cases "(m, e)" rule: note_source.cases) (auto simp: event_kinds)

lemma note_wakers_other: "\<not> sets_waker k e \<Longrightarrow> note_wakers m e k = m k"
  by (cases "(m, e)" rule: note_wakers.cases) (auto simp: event_kinds)

lemma note_source_wakers: "m k = Some (v k) \<Longrightarrow> sets_waker k e \<Longrightarrow> note_source m e k = Some (note_wakers v e k)"
  by (cases "v k"; cases "(m, e)" rule: note_source.cases) (auto simp: event_kinds)

lemma kinds_disjoint:
  "reg_io k e \<Longrightarrow> \<not> sets_waker k' e" "reg_io k e \<Longrightarrow> \<not> dereg_io k' e" "sets_waker k e \<Longrightarrow> \<not> dereg_io k' e"
  by (auto simp: event_kinds event_convs)


section \<open>Lawful events\<close>

definition park_open :: "'w rlog \<Rightarrow> 'w rlog \<Rightarrow> bool" where
  "park_open h mid \<longleftrightarrow> (\<exists>a t. h = a @ RInbound (ReactorPark t None) # mid) \<and>
     (\<forall>e \<in> set mid. \<not> is_park_begin e \<and> \<not> is_park_end e)"

fun lawful :: "'w rlog \<Rightarrow> 'w reactor_event \<Rightarrow> bool" where
  "lawful h (RInbound (RegisterTimer d w (Some (IoOk k)))) \<longleftrightarrow>
     k \<notin> timer_ids h \<union> io_ids h \<union> sys_ids h \<and> latest h < d"
| "lawful h (RInbound (RegisterIoResource s i (Some (IoOk k)))) \<longleftrightarrow>
     k \<notin> timer_ids h \<union> io_ids h \<and>
     (\<exists>a. h = a @ [RInbound (RegisterIoResource s i None), ROutbound (OsRegisterIoResource s k i (IoOk ()))])"
| "lawful h (RInbound (RegisterIoResource s i (Some (IoErr err)))) \<longleftrightarrow>
     (\<exists>a k. h = a @ [RInbound (RegisterIoResource s i None), ROutbound (OsRegisterIoResource s k i (IoErr err))]) \<or>
     err = resource_id_overflow"
| "lawful h (RInbound (DeregisterIoResource k (Some res))) \<longleftrightarrow>
     (\<exists>a s. h = a @ [RInbound (DeregisterIoResource k None), ROutbound (OsDeregisterIoResource s k res)])"
| "lawful h (RInbound (SetWaker k i w (Some (IoOk u)))) \<longleftrightarrow> live_sources h k \<noteq> None \<and> k \<in> live_syscalls h"
| "lawful h (RInbound (ReactorPark t (Some res))) \<longleftrightarrow>
     (\<exists>mid. park_open h mid \<and> (\<exists>e \<in> set mid. is_get_current_time e) \<and> length (filter is_poll_events mid) = 1)"
| "lawful h (ROutbound (OsRegisterIoResource s k i res)) \<longleftrightarrow>
     k \<notin> timer_ids h \<union> io_ids h \<union> sys_ids h \<and> (\<exists>a. h = a @ [RInbound (RegisterIoResource s i None)])"
| "lawful h (ROutbound (OsDeregisterIoResource s k res)) \<longleftrightarrow> (\<exists>a. h = a @ [RInbound (DeregisterIoResource k None)])"
| "lawful h (ROutbound (IoEventReady ev)) \<longleftrightarrow>
     (\<exists>mid. park_open h mid) \<and> (live_sources h (ev_rid ev) \<noteq> None \<longleftrightarrow> ev_rid ev \<in> live_syscalls h)"
| "lawful h (ROutbound (WakeTask w k)) \<longleftrightarrow>
     k \<in> timer_ids h \<or> (\<exists>rw ww. live_sources h k = Some (rw, ww) \<and> (rw = Some w \<or> ww = Some w))"
| "lawful h _ \<longleftrightarrow> True"

text \<open>A refused registration returns the error of its system call: so while ids last.\<close>

fun answered :: "'w rlog \<Rightarrow> 'w reactor_event \<Rightarrow> bool" where
  "answered h (RInbound (RegisterIoResource s i (Some (IoErr err)))) \<longleftrightarrow>
     (\<exists>a k. h = a @ [RInbound (RegisterIoResource s i None), ROutbound (OsRegisterIoResource s k i (IoErr err))])"
| "answered h _ \<longleftrightarrow> True"

lemma answered_other: "\<not> is_inbound_register_io_end e \<Longrightarrow> answered h e"
  by (cases "(h, e)" rule: answered.cases) auto

text \<open>The wake an I/O event is owed: the next event.\<close>

definition waker_for :: "(u64 \<Rightarrow> ('w option \<times> 'w option) option) \<Rightarrow> io_event \<Rightarrow> 'w option" where
  "waker_for src ev =
     (case src (ev_rid ev) of None \<Rightarrow> None
      | Some (rw, ww) \<Rightarrow> (case ev_mode ev of IoReadable \<Rightarrow> rw | IoWritable \<Rightarrow> ww))"

definition owed :: "'w rlog \<Rightarrow> 'w reactor_event option" where
  "owed h = (if h = [] then None else
     (case last h of ROutbound (IoEventReady ev) \<Rightarrow>
        map_option (\<lambda>w. ROutbound (WakeTask w (ev_rid ev))) (waker_for (live_sources h) ev)
      | _ \<Rightarrow> None))"

definition prompt :: "'w rlog \<Rightarrow> 'w reactor_event \<Rightarrow> bool" where
  "prompt h e \<longleftrightarrow> owed h = None \<or> owed h = Some e"

text \<open>The timers a wake names are woken with the waker of their registration.\<close>

fun timely :: "'w rlog \<Rightarrow> 'w reactor_event \<Rightarrow> bool" where
  "timely h (ROutbound (WakeTask w k)) \<longleftrightarrow> (k \<in> timer_ids h \<longrightarrow> (\<exists>d. live_timers h k = Some (d, w)))"
| "timely h _ \<longleftrightarrow> True"

abbreviation always :: "('w rlog \<Rightarrow> 'w reactor_event \<Rightarrow> bool) \<Rightarrow> 'w rlog \<Rightarrow> bool" where
  "always good \<equiv> each_event (\<lambda>_. True) good"

lemma always_snoc: "always good (h @ [e]) \<longleftrightarrow> always good h \<and> good h e"
  by (simp add: each_event_snoc)

lemma always_split: "always good (a @ e # b) \<Longrightarrow> always good a \<and> good a e"
proof (induction b rule: rev_induct)
  case (snoc x b)
  have "a @ e # b @ [x] = (a @ e # b) @ [x]" by simp
  then show ?case using snoc by (metis always_snoc)
qed (simp add: always_snoc)

lemma always_take: "always good l \<Longrightarrow> i < length l \<Longrightarrow> always good (take i l) \<and> good (take i l) (l ! i)"
  using always_split [of good "take i l" "l ! i" "drop (Suc i) l"] by (simp add: id_take_nth_drop [symmetric])

lemma lawful_reg_io: "lawful h e \<Longrightarrow> reg_io k e \<Longrightarrow>
    k \<notin> timer_ids h \<union> io_ids h \<and> (\<exists>a s i. e = RInbound (RegisterIoResource s i (Some (IoOk k))) \<and>
      h = a @ [RInbound (RegisterIoResource s i None), ROutbound (OsRegisterIoResource s k i (IoOk ()))])"
  by (auto simp: reg_io_def is_succ_io_api_register_conv)

lemma lawful_reg_timer: "lawful h e \<Longrightarrow> reg_timer k e \<Longrightarrow> k \<notin> timer_ids h \<union> io_ids h \<union> sys_ids h"
  by (auto simp: reg_timer_def is_succ_register_timer_conv)

lemma lawful_reg_sys: "lawful h e \<Longrightarrow> reg_sys k e \<Longrightarrow> k \<notin> timer_ids h \<union> io_ids h \<union> sys_ids h"
  by (auto simp: reg_sys_def is_succ_io_syscall_register_conv)

lemma lawful_sets_waker: "lawful h e \<Longrightarrow> sets_waker k e \<Longrightarrow> live_sources h k \<noteq> None \<and> k \<in> live_syscalls h"
  by (auto simp: sets_waker_def is_succ_set_waker_conv)

lemma io_sub_sys: "always lawful h \<Longrightarrow> io_ids h \<subseteq> sys_ids h"
proof (induction h rule: rev_induct)
  case (snoc e h)
  then have IH: "io_ids h \<subseteq> sys_ids h" and e: "lawful h e" by (simp_all add: always_snoc)
  have "k \<in> sys_ids h" if "reg_io k e" for k
    using lawful_reg_io [OF e that] by (auto simp: ids_single sys_ids_def reg_sys_def)
  then show ?case using IH by (auto simp: ids_single)
qed simp

lemma ids_disjoint: "always lawful h \<Longrightarrow> timer_ids h \<inter> sys_ids h = {}"
proof (induction h rule: rev_induct)
  case (snoc e h)
  then have IH: "timer_ids h \<inter> sys_ids h = {}" and e: "lawful h e" by (simp_all add: always_snoc)
  have "\<not> (reg_timer k e \<and> reg_sys k e)" for k by (auto simp: event_kinds event_convs)
  then show ?case
    using IH lawful_reg_timer [OF e] lawful_reg_sys [OF e] by (auto simp: ids_single)
qed simp

lemma live_sources_ids: "live_sources h k \<noteq> None \<Longrightarrow> k \<in> io_ids h"
proof (induction h rule: rev_induct)
  case (snoc e h)
  have "live_sources h k \<noteq> None \<or> reg_io k e"
    using snoc.prems note_source_none [of "live_sources h" k e] by (metis history_snoc(4))
  then show ?case using snoc.IH by (auto simp: ids_single)
qed simp

lemma live_syscalls_ids: "live_syscalls h \<subseteq> sys_ids h"
proof (induction h rule: rev_induct)
  case (snoc e h)
  have "note_syscall A e \<subseteq> A \<union> {k. reg_sys k e}" for A
    by (cases "(A, e)" rule: note_syscall.cases) (auto simp: event_kinds)
  then show ?case using snoc by (fastforce simp: ids_single)
qed simp

text \<open>A live source carries the wakers that were set last.\<close>

lemma last_wakers_fresh: "always lawful h \<Longrightarrow> k \<notin> io_ids h \<Longrightarrow> last_wakers h k = (None, None)"
proof (induction h rule: rev_induct)
  case (snoc e h)
  then have "\<not> sets_waker k e" using lawful_sets_waker live_sources_ids by (fastforce simp: always_snoc)
  then show ?case using snoc by (simp add: always_snoc note_wakers_other)
qed simp

lemma live_sources_wakers:
  "always lawful h \<Longrightarrow> live_sources h k \<noteq> None \<Longrightarrow> live_sources h k = Some (last_wakers h k)"
proof (induction h rule: rev_induct)
  case (snoc e h)
  then have l: "always lawful h" "lawful h e" by (simp_all add: always_snoc)
  consider "reg_io k e" | "dereg_io k e" | "sets_waker k e" | "\<not> reg_io k e" "\<not> dereg_io k e" "\<not> sets_waker k e"
    by blast
  then show ?case
  proof cases
    case 1
    then have "\<not> sets_waker k e" "k \<notin> io_ids h" using kinds_disjoint(1) lawful_reg_io [OF l(2)] by auto
    then show ?thesis using last_wakers_fresh [OF l(1)] 1 by (simp add: note_source_reg note_wakers_other)
  next
    case 2
    then have "note_source (live_sources h) e k = None"
      by (auto simp: dereg_io_def is_io_api_deregister_conv)
    then show ?thesis using snoc by simp
  next
    case 3
    then have "live_sources h k = Some (last_wakers h k)" using snoc.IH l lawful_sets_waker by blast
    then show ?thesis using 3 by (simp add: note_source_wakers)
  next
    case 4
    then show ?thesis using snoc l by (simp add: note_source_other note_wakers_other)
  qed
qed simp

section \<open>Positions and histories\<close>

lemma find_back_None: "find_back P i = None \<longleftrightarrow> (\<forall>j < i. \<not> P j)"
  by (induction i) (auto simp: less_Suc_eq)

lemma find_back_Some: "find_back P i = Some j \<longleftrightarrow> j < i \<and> P j \<and> (\<forall>k. j < k \<and> k < i \<longrightarrow> \<not> P k)"
proof (induction i)
  case (Suc i)
  then show ?case by (auto simp: less_Suc_eq)
qed simp

lemma rlog_convs:
  "is_succ_register_timer_at l j \<and> get_register_timer_rid (l ! j) = k \<longleftrightarrow> j < length l \<and> reg_timer k (l ! j)"
  "timer_retired_at l k j \<longleftrightarrow> j < length l \<and> retires k (l ! j)"
  "io_api_registered_at l j \<and> get_io_api_register_rid (l ! j) = k \<longleftrightarrow> j < length l \<and> reg_io k (l ! j)"
  "io_api_deregistered_at l j \<and> get_io_api_deregister_rid (l ! j) = k \<longleftrightarrow> j < length l \<and> dereg_io k (l ! j)"
  "io_syscall_registered_at l j \<and> get_io_syscall_register_rid (l ! j) = k \<longleftrightarrow> j < length l \<and> reg_sys k (l ! j)"
  "io_syscall_deregistered_at l j \<and> get_io_syscall_deregister_rid (l ! j) = k \<longleftrightarrow> j < length l \<and> dereg_sys k (l ! j)"
  "is_succ_set_waker_at l j \<and> get_set_waker_rid (l ! j) = k \<longleftrightarrow> j < length l \<and> sets_waker k (l ! j)"
  by (auto simp: rlog_at_defs event_kinds timer_retired_at_def)

lemma max_timestamp_take: "i \<le> length l \<Longrightarrow> max_timestamp_up_to l i = latest (take i l)"
proof -
  have "i \<le> n \<Longrightarrow> n \<le> length l \<Longrightarrow> max_timestamp_up_to (take n l) i = max_timestamp_up_to l i" for n
    by (induction i) (auto simp: is_get_current_time_at_def Let_def)
  from this [of i] show "i \<le> length l \<Longrightarrow> ?thesis" by (simp add: latest_def)
qed

lemma latest_snoc: "latest (h @ [e]) = (case e of ROutbound (GetCurrentTime ts) \<Rightarrow> max (latest h) ts | _ \<Rightarrow> latest h)"
proof -
  have "max_timestamp_up_to (h @ [e]) (length h) = max_timestamp_up_to h (length h)"
    using max_timestamp_take [of "length h" "h @ [e]"] by (simp add: latest_def)
  then show ?thesis
    by (cases e) (auto simp: latest_def is_get_current_time_at_def Let_def max_def not_le dest: less_asym
        split: reactor_inbound.splits reactor_outbound.splits)
qed

text \<open>An activity that starts at a position of a log and is not ended before \<open>i\<close>.\<close>

definition holds_since :: "('e \<Rightarrow> bool) \<Rightarrow> ('e \<Rightarrow> bool) \<Rightarrow> 'e list \<Rightarrow> bool" where
  "holds_since start stop h \<longleftrightarrow> (\<exists>a e b. h = a @ e # b \<and> start e \<and> (\<forall>x \<in> set b. \<not> stop x))"

lemma holds_since_Nil [simp]: "\<not> holds_since start stop []"
  by (simp add: holds_since_def)

lemma holds_since_snoc:
  "holds_since start stop (h @ [e]) \<longleftrightarrow> start e \<or> (holds_since start stop h \<and> \<not> stop e)"
proof
  assume "holds_since start stop (h @ [e])"
  then obtain a x b where x: "h @ [e] = a @ x # b" "start x" "\<forall>y \<in> set b. \<not> stop y"
    by (auto simp: holds_since_def)
  then show "start e \<or> (holds_since start stop h \<and> \<not> stop e)"
    by (cases b rule: rev_cases) (auto simp: holds_since_def)
next
  assume "start e \<or> (holds_since start stop h \<and> \<not> stop e)"
  then show "holds_since start stop (h @ [e])"
  proof
    assume "start e"
    then show ?thesis unfolding holds_since_def by (intro exI [of _ h] exI [of _ e] exI [of _ "[]"]) simp
  next
    assume "holds_since start stop h \<and> \<not> stop e"
    then obtain a x b where "h = a @ x # b" "start x" "\<forall>y \<in> set b. \<not> stop y" "\<not> stop e"
      by (auto simp: holds_since_def)
    then show ?thesis
      unfolding holds_since_def by (intro exI [of _ a] exI [of _ x] exI [of _ "b @ [e]"]) simp
  qed
qed

lemma holds_since_take:
  assumes "i \<le> length l"
  shows "holds_since start stop (take i l) \<longleftrightarrow>
    (\<exists>j < i. start (l ! j) \<and> (\<forall>k. j < k \<and> k < i \<longrightarrow> \<not> stop (l ! k)))"
  using assms
proof (induction i)
  case (Suc i)
  then have "take (Suc i) l = take i l @ [l ! i]" by (simp add: take_Suc_conv_app_nth)
  then show ?case
    using Suc by (auto simp: holds_since_snoc less_Suc_eq)
qed simp

end
