(* ===== verification/Reactor_Lawful.thy ===== *)
theory Reactor_Lawful
  imports Reactor_Monitor
begin

text \<open>
  A log whose events are lawful satisfies the conditions R1 to R15; if they are prompt as well,
  R17; if they are timely, R5; and R16 when at its end no live timer is due.
\<close>

section \<open>Liveness read from the history\<close>

lemma live_sources_iff: "live_sources h k \<noteq> None \<longleftrightarrow> holds_since (reg_io k) (dereg_io k) h"
proof (induction h rule: rev_induct)
  case (snoc e h)
  show ?case
  proof (cases "reg_io k e \<or> dereg_io k e")
    case True
    then have "note_source (live_sources h) e k \<noteq> None \<longleftrightarrow> reg_io k e"
      by (auto simp: note_source_reg dereg_io_def is_io_api_deregister_conv reg_io_def is_succ_io_api_register_conv)
    then show ?thesis using True by (auto simp: holds_since_snoc)
  next
    case False
    then have "note_source (live_sources h) e k \<noteq> None \<longleftrightarrow> live_sources h k \<noteq> None"
      using note_source_some [of "live_sources h" k e] note_source_none [of "live_sources h" k e] by metis
    then show ?thesis using False snoc by (simp add: holds_since_snoc)
  qed
qed simp

lemma live_syscalls_iff: "k \<in> live_syscalls h \<longleftrightarrow> holds_since (reg_sys k) (dereg_sys k) h"
proof (induction h rule: rev_induct)
  case (snoc e h)
  have "k \<in> note_syscall A e \<longleftrightarrow> reg_sys k e \<or> (k \<in> A \<and> \<not> dereg_sys k e)" for A
    by (cases "(A, e)" rule: note_syscall.cases) (auto simp: event_kinds)
  then show ?case using snoc by (simp add: holds_since_snoc)
qed simp

lemma live_timers_since:
  "live_timers h k = Some (d, w) \<Longrightarrow>
     holds_since (\<lambda>e. e = RInbound (RegisterTimer d w (Some (IoOk k)))) (retires k) h"
proof (induction h rule: rev_induct)
  case (snoc e h)
  have "e = RInbound (RegisterTimer d w (Some (IoOk k))) \<or> (live_timers h k = Some (d, w) \<and> \<not> retires k e)"
    using snoc.prems by (cases "(live_timers h, e)" rule: note_timer.cases) (auto simp: event_kinds split: if_splits)
  then show ?case using snoc.IH by (auto simp: holds_since_snoc)
qed simp

lemma live_timers_registered:
  "always lawful (a @ RInbound (RegisterTimer d w (Some (IoOk k))) # b) \<Longrightarrow> \<forall>x \<in> set b. \<not> retires k x \<Longrightarrow>
     live_timers (a @ RInbound (RegisterTimer d w (Some (IoOk k))) # b) k = Some (d, w)"
proof (induction b rule: rev_induct)
  case (snoc x b)
  let ?h = "a @ RInbound (RegisterTimer d w (Some (IoOk k))) # b"
  have l: "always lawful ?h" "lawful ?h x"
    using snoc.prems(1) always_snoc [of lawful ?h x] by simp_all
  have "k \<in> timer_ids ?h" by (simp add: timer_ids_def reg_timer_def)
  then have "\<not> reg_timer k x" using lawful_reg_timer [OF l(2)] by blast
  then have "live_timers (?h @ [x]) k = live_timers ?h k"
    unfolding history_snoc by (rule note_timer_other) (use snoc.prems(2) in simp)
  then show ?case using snoc.IH snoc.prems(2) l(1) by simp
next
  case Nil
  show ?case using history_snoc(2) [of a] by simp
qed

lemma last_wakers_event:
  "fst (last_wakers h k) = Some w \<or> snd (last_wakers h k) = Some w \<Longrightarrow>
     \<exists>i. RInbound (SetWaker k i w (Some (IoOk ()))) \<in> set h"
proof (induction h rule: rev_induct)
  case (snoc e h)
  show ?case
  proof (cases "sets_waker k e")
    case True
    then obtain i v where "e = RInbound (SetWaker k i v (Some (IoOk ())))"
      by (auto simp: sets_waker_def is_succ_set_waker_conv)
    then show ?thesis using snoc by (auto split: if_splits)
  qed (use snoc note_wakers_other in fastforce)
qed simp

section \<open>Membership and positions\<close>

lemma mem_ids_take:
  assumes "i \<le> length l"
  shows "k \<in> timer_ids (take i l) \<longleftrightarrow> (\<exists>j < i. reg_timer k (l ! j))"
    "k \<in> io_ids (take i l) \<longleftrightarrow> (\<exists>j < i. reg_io k (l ! j))"
    "k \<in> sys_ids (take i l) \<longleftrightarrow> (\<exists>j < i. reg_sys k (l ! j))"
  using assms by (auto simp: timer_ids_def io_ids_def sys_ids_def in_set_conv_nth Bex_def)

lemma take_snocD: "take i l = a @ [e] \<Longrightarrow> i < length l \<Longrightarrow> i = Suc (length a) \<and> l ! length a = e"
  by (metis append_eq_conv_conj length_append_singleton length_take less_imp_le lessI min.absorb2 nth_append_length nth_take)

lemma take_ConsD:
  assumes "take i l = a @ e # b" "i < length l"
  shows "length a < i" "l ! length a = e" "length a + Suc (length b) = i"
    "\<And>j. length a < j \<Longrightarrow> j < i \<Longrightarrow> l ! j \<in> set b" "drop (length a) (take i l) = e # b"
proof -
  have "length (take i l) = length a + Suc (length b)" by (simp add: assms(1))
  then show len: "length a + Suc (length b) = i" using assms(2) by simp
  then show lt: "length a < i" by simp
  have n: "l ! j = (a @ e # b) ! j" if "j < i" for j using nth_take [OF that, of l] assms(1) by simp
  show "l ! length a = e" using n [OF lt] by simp
  show "l ! j \<in> set b" if "length a < j" "j < i" for j
  proof -
    have "l ! j = b ! (j - Suc (length a))" using n that by (simp add: nth_append)
    moreover have "j - Suc (length a) < length b" using that len by simp
    ultimately show ?thesis by simp
  qed
  show "drop (length a) (take i l) = e # b" by (simp add: assms(1))
qed

lemma take_snoc2D: "take i l = a @ [e, f] \<Longrightarrow> i < length l \<Longrightarrow>
    i = Suc (Suc (length a)) \<and> l ! length a = e \<and> l ! Suc (length a) = f"
  using take_snocD [of i l "a @ [e]" f] take_ConsD(2,3) [of i l a e "[f]"] by simp

lemma current_park_start_Some:
  "p < i \<Longrightarrow> is_park_begin_at l p \<Longrightarrow> \<forall>k. p < k \<and> k < i \<longrightarrow> \<not> is_park_begin_at l k \<and> \<not> is_park_end_at l k \<Longrightarrow>
     current_park_start l i = Some p"
  by (induction i) (auto simp: less_Suc_eq)

lemma park_open_start:
  assumes "park_open (take i l) mid" "i < length l"
  shows "\<exists>p. current_park_start l i = Some p \<and> p + Suc (length mid) = i \<and>
    (\<exists>b. drop p (take i l) = b # mid \<and> is_park_begin b)"
proof -
  obtain a t where a: "take i l = a @ RInbound (ReactorPark t None) # mid"
    and mid: "\<forall>e \<in> set mid. \<not> is_park_begin e \<and> \<not> is_park_end e"
    using assms(1) by (auto simp: park_open_def)
  note p = take_ConsD [OF a assms(2)]
  have "current_park_start l i = Some (length a)"
    using p mid assms(2) by (intro current_park_start_Some) (auto simp: is_park_begin_at_def is_park_end_at_def)
  then show ?thesis using p(3,5) by auto
qed

lemma count_poll_events_filter:
  "stop \<le> length l \<Longrightarrow> count_poll_events_in_range l start stop = length (filter is_poll_events (drop start (take stop l)))"
proof (induction l start stop rule: count_poll_events_in_range.induct)
  case (1 l start stop)
  show ?case
  proof (cases "stop \<le> start")
    case True
    then show ?thesis by (subst count_poll_events_in_range.simps) simp
  next
    case False
    then have "drop start (take stop l) = l ! start # drop (start + 1) (take stop l)"
      using 1(3) by (simp add: Cons_nth_drop_Suc [symmetric])
    then show ?thesis
      using 1 False by (subst count_poll_events_in_range.simps) (simp add: is_poll_events_at_def)
  qed
qed

section \<open>R1 to R4, R7 to R13 and R15\<close>

lemma lawful_at: "always lawful l \<Longrightarrow> i < length l \<Longrightarrow> lawful (take i l) (l ! i)"
  using always_take by blast

lemma ids_before:
  assumes "always lawful l" "i < length l"
  shows "is_succ_register_timer_at l i \<Longrightarrow>
      get_register_timer_rid (l ! i) \<notin> timer_ids (take i l) \<union> io_ids (take i l) \<union> sys_ids (take i l)"
    "io_api_registered_at l i \<Longrightarrow> get_io_api_register_rid (l ! i) \<notin> timer_ids (take i l) \<union> io_ids (take i l)"
    "io_syscall_registered_at l i \<Longrightarrow>
      get_io_syscall_register_rid (l ! i) \<notin> timer_ids (take i l) \<union> io_ids (take i l) \<union> sys_ids (take i l)"
  using lawful_at [OF assms] lawful_reg_timer [of "take i l" "l ! i"] lawful_reg_io [of "take i l" "l ! i"]
    lawful_reg_sys [of "take i l" "l ! i"]
  by (auto simp: rlog_at_defs event_kinds)

lemma no_prior_ids:
  assumes "i \<le> length l"
  shows "k \<notin> timer_ids (take i l) \<Longrightarrow> no_prior_timer_registration l k i"
    "k \<notin> io_ids (take i l) \<Longrightarrow> no_prior_io_api_registration l k i"
    "k \<notin> sys_ids (take i l) \<Longrightarrow> no_prior_io_syscall_registration l k i"
  unfolding no_prior_timer_registration_def no_prior_io_api_registration_def no_prior_io_syscall_registration_def rlog_convs
  using assms mem_ids_take [OF assms, of k] by auto

lemma timer_deadline_lawful:
  "always lawful l \<Longrightarrow> is_succ_register_timer_at l i \<Longrightarrow> timer_deadline_future_at l i"
  using lawful_at [of l i] max_timestamp_take [of i l]
  by (auto simp: is_succ_register_timer_at_def timer_deadline_future_at_def is_succ_register_timer_conv)

lemma park_end_lawful:
  assumes "always lawful l" "is_park_end_at l i"
  shows "has_get_current_time_in_park l i" "has_exactly_one_poll_events_in_park l i"
proof -
  have i: "i < length l" and "is_park_end (l ! i)" using assms(2) by (simp_all add: is_park_end_at_def)
  then obtain mid where mid: "park_open (take i l) mid" "\<exists>e \<in> set mid. is_get_current_time e"
      "length (filter is_poll_events mid) = 1"
    using lawful_at [OF assms(1) i] by (auto simp: is_park_end_conv) blast
  obtain p b where p: "current_park_start l i = Some p" "p + Suc (length mid) = i"
      "drop p (take i l) = b # mid" "is_park_begin b"
    using park_open_start [OF mid(1) i] by blast
  have mn: "mid ! j = l ! (Suc (p + j))" if "j < length mid" for j
  proof -
    have "(b # mid) ! Suc j = take i l ! (p + Suc j)" using p(3) [symmetric] p(2) that i by simp
    then show ?thesis using p(2) that by simp
  qed
  obtain j where j: "j < length mid" "is_get_current_time (mid ! j)" using mid(2) by (auto simp: in_set_conv_nth)
  then show "has_get_current_time_in_park l i"
    using p(1,2) mn [OF j(1)] i
    by (auto simp: has_get_current_time_in_park_def is_get_current_time_at_def intro!: exI [of _ "Suc (p + j)"])
  have "\<not> is_poll_events b" using p(4) by (cases b rule: is_park_begin.cases) auto
  then show "has_exactly_one_poll_events_in_park l i"
    using p(1,3) mid(3) i by (simp add: has_exactly_one_poll_events_in_park_def count_poll_events_filter)
qed

lemma io_ready_lawful: "always lawful l \<Longrightarrow> is_io_event_ready_at l i \<Longrightarrow> is_in_park_cycle l i"
  using lawful_at [of l i] park_open_start [of i l]
  by (fastforce simp: is_io_event_ready_at_def is_io_event_ready_conv is_in_park_cycle_def)

lemma register_cycle_lawful:
  assumes "always lawful l" "io_syscall_register_at l i"
  shows "in_register_io_cycle l i"
proof -
  have i: "i < length l" using assms(2) by (simp add: io_syscall_register_at_def)
  obtain a s j where "take i l = a @ [RInbound (RegisterIoResource s j None)]"
    using assms(2) lawful_at [OF assms(1) i] by (auto simp: io_syscall_register_at_def is_io_syscall_register_conv)
  note take_snocD [OF this i]
  then show ?thesis
    using i by (auto simp: in_register_io_cycle_def find_last_inbound_register_io_begin_def
        is_inbound_register_io_begin_at_def)
qed

lemma deregister_cycle_lawful:
  assumes "always lawful l" "io_syscall_deregistered_at l i"
  shows "in_deregister_io_cycle l i"
proof -
  have i: "i < length l" using assms(2) by (simp add: io_syscall_deregistered_at_def)
  obtain a k where "take i l = a @ [RInbound (DeregisterIoResource k None)]"
    using assms(2) lawful_at [OF assms(1) i] by (auto simp: io_syscall_deregistered_at_def is_io_syscall_deregister_conv)
  note take_snocD [OF this i]
  then show ?thesis
    using i by (auto simp: in_deregister_io_cycle_def find_last_inbound_deregister_io_begin_def
        is_inbound_deregister_io_begin_at_def)
qed

lemma deregister_result_lawful:
  assumes "always lawful l" "is_inbound_deregister_io_end_at l i"
  shows "deregister_io_result_valid l i"
proof -
  have i: "i < length l" using assms(2) by (simp add: is_inbound_deregister_io_end_at_def)
  obtain a s k res where e: "l ! i = RInbound (DeregisterIoResource k (Some res))"
      "take i l = a @ [RInbound (DeregisterIoResource k None), ROutbound (OsDeregisterIoResource s k res)]"
    using assms(2) lawful_at [OF assms(1) i]
    by (auto simp: is_inbound_deregister_io_end_at_def is_inbound_deregister_io_end_conv)
  note a = take_snoc2D [OF e(2) i]
  then show ?thesis
    using i e(1) by (auto simp: deregister_io_result_valid_def find_deregister_io_cycle_begin_def Let_def
        is_inbound_deregister_io_begin_at_def has_matching_outbound_deregister_def io_syscall_deregistered_at_def
        intro!: exI [of _ "Suc (length a)"])
qed

lemma register_result_valid_at:
  assumes i: "i < length l" and e: "l ! i = RInbound (RegisterIoResource s j (Some res))"
    and t: "take i l = a @ [RInbound (RegisterIoResource s j None), ROutbound (OsRegisterIoResource s k j os)]"
    and m: "inbound_result_matches_outbound_register res os k"
  shows "register_io_result_valid l i"
  using take_snoc2D [OF t i] i e m
  by (auto simp: register_io_result_valid_def find_register_io_cycle_begin_def Let_def
      is_inbound_register_io_begin_at_def has_matching_outbound_register_def io_syscall_register_at_def
      intro!: exI [of _ "Suc (length a)"])

lemma register_result_lawful:
  assumes "always lawful l" "io_api_registered_at l i"
  shows "register_io_result_valid l i"
proof -
  have i: "i < length l" using assms(2) by (simp add: io_api_registered_at_def)
  then obtain a s j k where e: "l ! i = RInbound (RegisterIoResource s j (Some (IoOk k)))"
      and t: "take i l = a @ [RInbound (RegisterIoResource s j None), ROutbound (OsRegisterIoResource s k j (IoOk ()))]"
    using assms(2) lawful_at [OF assms(1) i] by (auto simp: io_api_registered_at_def is_succ_io_api_register_conv)
  show ?thesis by (rule register_result_valid_at [OF i e t]) simp
qed

text \<open>R12 for every return, the refused registrations included.\<close>

lemma register_result_answered:
  assumes "always lawful l" "always answered l"
  shows "action_safety_satisfied inbound_register_io_result l"
  unfolding action_safety_satisfied_def inbound_register_io_result_def
proof (simp, intro allI impI)
  fix i assume e: "is_inbound_register_io_end_at l i"
  then have i: "i < length l" by (simp add: is_inbound_register_io_end_at_def)
  obtain s j res where r: "l ! i = RInbound (RegisterIoResource s j (Some res))"
    using e by (auto simp: is_inbound_register_io_end_at_def is_inbound_register_io_end_conv)
  show "register_io_result_valid l i"
  proof (cases res)
    case (IoOk k)
    then show ?thesis using register_result_lawful [OF assms(1), of i] i r by (simp add: io_api_registered_at_def)
  next
    case (IoErr err)
    then obtain a k where t: "take i l = a @ [RInbound (RegisterIoResource s j None), ROutbound (OsRegisterIoResource s k j (IoErr err))]"
      using always_take [OF assms(2) i] r by auto
    show ?thesis by (rule register_result_valid_at [OF i r t]) (simp add: IoErr)
  qed
qed

section \<open>Wakers and wakes: R5, R6, R14, R15\<close>

lemma set_waker_lawful:
  assumes "always lawful l" "i < length l" "sets_waker k (l ! i)"
  shows "io_api_active_at_set_waker l k i" "io_syscall_active_at_set_waker l k i"
proof -
  note li = less_imp_le [OF assms(2)]
  have e: "live_sources (take i l) k \<noteq> None" "k \<in> live_syscalls (take i l)"
    using lawful_sets_waker [OF lawful_at [OF assms(1,2)] assms(3)] by auto
  obtain j where "j < i" "reg_io k (l ! j)" "\<forall>n. j < n \<and> n < i \<longrightarrow> \<not> dereg_io k (l ! n)"
    using e(1) unfolding live_sources_iff holds_since_take [OF li] by auto
  then show "io_api_active_at_set_waker l k i"
    using assms(2) by (auto simp: io_api_active_at_set_waker_def io_api_active_at_def rlog_at_defs event_kinds intro!: exI [of _ j])
  obtain j where j: "j < i" "reg_sys k (l ! j)" "\<forall>n. j < n \<and> n < i \<longrightarrow> \<not> dereg_sys k (l ! n)"
    using e(2) unfolding live_syscalls_iff holds_since_take [OF li] by auto
  let ?P = "\<lambda>j. io_syscall_registered_at l j \<and> get_io_syscall_register_rid (l ! j) = k"
  have P: "?P n \<longleftrightarrow> n < length l \<and> reg_sys k (l ! n)" for n by (rule rlog_convs)
  have "find_back ?P i \<noteq> None" using j assms(2) unfolding find_back_None P by auto
  then obtain m where m: "find_back ?P i = Some m" by blast
  note m' = m [unfolded find_back_Some]
  have "j \<le> m" using m' j(1,2) assms(2) unfolding P by (metis less_trans not_le)
  then have "\<forall>n. m < n \<and> n < i \<longrightarrow> \<not> dereg_sys k (l ! n)" using j(3) by auto
  then show "io_syscall_active_at_set_waker l k i"
    using m m' by (auto simp: io_syscall_active_at_set_waker_def find_io_syscall_register_for_rid_def
        io_syscall_active_at_def Let_def rlog_convs(6))
qed

text \<open>The waker of a wake for a source was set there, while the source was active.\<close>

lemma wake_set_before:
  assumes "always lawful l" "i < length l" "l ! i = ROutbound (WakeTask w k)" "k \<notin> timer_ids (take i l)"
  shows "\<exists>j < i. sets_waker k (l ! j) \<and> get_set_waker_waker (l ! j) = w"
proof -
  obtain rw ww where "live_sources (take i l) k = Some (rw, ww)" "rw = Some w \<or> ww = Some w"
    using lawful_at [OF assms(1,2)] assms(3,4) by auto
  then have "fst (last_wakers (take i l) k) = Some w \<or> snd (last_wakers (take i l) k) = Some w"
    using live_sources_wakers [of "take i l" k] always_take [OF assms(1,2)] by (cases "last_wakers (take i l) k") auto
  from last_wakers_event [OF this] obtain n where n: "RInbound (SetWaker k n w (Some (IoOk ()))) \<in> set (take i l)" by blast
  then obtain j where "j < i" "l ! j = RInbound (SetWaker k n w (Some (IoOk ())))"
    using assms(2) by (auto simp: in_set_conv_nth)
  then show ?thesis by (intro exI [of _ j]) (simp add: sets_waker_def)
qed

lemma io_wake_not_timer:
  assumes "always lawful l" "i < length l" "k \<in> io_ids (take i l) \<union> sys_ids (take i l)"
  shows "k \<notin> timer_ids (take i l)"
proof -
  have "always lawful (take i l)" using always_take [OF assms(1,2)] by blast
  from io_sub_sys [OF this] ids_disjoint [OF this] show ?thesis using assms(3) by blast
qed

lemma io_waker_valid_lawful:
  assumes "always lawful l" "is_io_api_wake_at l i \<or> is_io_syscall_wake_at l i"
  shows "io_waker_valid_api l i" "io_waker_valid_syscall l i"
proof -
  have wt: "is_wake_task_at l i" using assms(2) by (auto simp: is_io_api_wake_at_def is_io_syscall_wake_at_def)
  then have i: "i < length l" by (simp add: is_wake_task_at_def)
  obtain w k where e: "l ! i = ROutbound (WakeTask w k)"
    using wt by (auto simp: is_wake_task_at_def is_wake_task_conv)
  have "(\<exists>j < i. reg_io k (l ! j)) \<or> (\<exists>j < i. reg_sys k (l ! j))"
    using assms(2) e by (auto simp: is_io_api_wake_at_def is_io_syscall_wake_at_def Let_def rlog_at_defs event_kinds)
  then have "k \<in> io_ids (take i l) \<union> sys_ids (take i l)" using i by (auto simp: mem_ids_take)
  note wake_set_before [OF assms(1) i e io_wake_not_timer [OF assms(1) i this]]
  then obtain j where j: "j < i" "sets_waker k (l ! j)" "get_set_waker_waker (l ! j) = w" by blast
  then have "j < length l" using i by simp
  note a = set_waker_lawful [OF assms(1) this j(2)]
  show "io_waker_valid_api l i" "io_waker_valid_syscall l i"
    unfolding io_waker_valid_api_def io_waker_valid_syscall_def Let_def e
    using a j i by (auto simp: is_succ_set_waker_at_def sets_waker_def intro!: exI [of _ j])
qed

lemma wake_registered_lawful:
  assumes "always lawful l" "is_wake_task_at l i"
  shows "wake_registered_api l i" "wake_registered_syscall l i"
proof -
  have i: "i < length l" using assms(2) by (simp add: is_wake_task_at_def)
  obtain w k where e: "l ! i = ROutbound (WakeTask w k)"
    using assms(2) by (auto simp: is_wake_task_at_def is_wake_task_conv)
  have "k \<in> timer_ids (take i l) \<or> live_sources (take i l) k \<noteq> None"
    using lawful_at [OF assms(1) i] e by auto
  then have "k \<in> timer_ids (take i l) \<or> k \<in> io_ids (take i l)" "k \<in> timer_ids (take i l) \<or> k \<in> sys_ids (take i l)"
    using live_sources_ids [of "take i l" k] io_sub_sys [of "take i l"] always_take [OF assms(1) i] by auto
  then show "wake_registered_api l i" "wake_registered_syscall l i"
    using i e by (auto simp: wake_registered_api_def wake_registered_syscall_def rlog_at_defs event_kinds mem_ids_take)
qed

lemma timer_waker_lawful:
  assumes "always timely l"
  shows "action_safety_satisfied timer_waker_validity l"
  unfolding action_safety_satisfied_def timer_waker_validity_def
proof (simp, intro allI impI)
  fix i assume a: "is_timer_wake_at l i"
  then have i: "i < length l" by (simp add: is_timer_wake_at_def is_wake_task_at_def)
  obtain w k where e: "l ! i = ROutbound (WakeTask w k)"
    using a by (auto simp: is_timer_wake_at_def is_wake_task_at_def is_wake_task_conv)
  have "k \<in> timer_ids (take i l)"
    using a i e by (auto simp: is_timer_wake_at_def mem_ids_take rlog_at_defs event_kinds)
  then obtain d where "live_timers (take i l) k = Some (d, w)"
    using always_take [OF assms i] e by auto
  from live_timers_since [OF this] obtain j where "j < i" "l ! j = RInbound (RegisterTimer d w (Some (IoOk k)))"
      "\<forall>n. j < n \<and> n < i \<longrightarrow> \<not> retires k (l ! n)"
    using i by (auto simp: holds_since_take)
  then show "timer_waker_valid_at l i"
    using i e by (auto simp: timer_waker_valid_at_def timer_active_at_def Let_def is_succ_register_timer_at_def
        rlog_convs(2) intro!: exI [of _ j])
qed

section \<open>R16 and R17\<close>

lemma timestamp_le_latest:
  assumes "i < length l" "l ! i = ROutbound (GetCurrentTime ts)"
  shows "ts \<le> latest l"
proof -
  have "ts \<le> latest (a @ ROutbound (GetCurrentTime ts) # b)" for a b :: "'a rlog"
  proof (induction b rule: rev_induct)
    case (snoc x b)
    have "latest (a @ ROutbound (GetCurrentTime ts) # b) \<le> latest ((a @ ROutbound (GetCurrentTime ts) # b) @ [x])"
      unfolding latest_snoc by (auto split: reactor_event.splits reactor_outbound.splits)
    then show ?case using snoc by simp
  next
    case Nil
    show ?case using latest_snoc [of a "ROutbound (GetCurrentTime ts)"] by simp
  qed
  from this [of "take i l" "drop (Suc i) l"] show ?thesis
    using id_take_nth_drop [OF assms(1), symmetric] unfolding assms(2) by metis
qed

lemma no_timer_due_expired:
  assumes "always lawful l" "\<forall>k d w. live_timers l k = Some (d, w) \<longrightarrow> latest l < d"
  shows "\<not> (is_succ_register_timer_at l i \<and> first_timeout_point_rec l i \<noteq> None \<and> timer_awaiting_wake l i)"
proof
  assume a: "is_succ_register_timer_at l i \<and> first_timeout_point_rec l i \<noteq> None \<and> timer_awaiting_wake l i"
  then obtain d w k where e: "i < length l" "l ! i = RInbound (RegisterTimer d w (Some (IoOk k)))"
    by (auto simp: is_succ_register_timer_at_def is_succ_register_timer_conv)
  have s: "l = take i l @ RInbound (RegisterTimer d w (Some (IoOk k))) # drop (Suc i) l"
    using id_take_nth_drop [OF e(1)] e(2) by simp
  have "\<forall>x \<in> set (drop (Suc i) l). \<not> retires k x"
    using a e by (auto simp: timer_awaiting_wake_def timer_active_at_def Let_def rlog_convs(2) in_set_conv_nth)
  then have "live_timers l k = Some (d, w)" using live_timers_registered s assms(1) by metis
  then have "latest l < d" using assms(2) by blast
  moreover obtain t where t: "has_timeout_point_at l i t"
    using a by (auto simp: first_timeout_point_rec_def find_Some_iff)
  then obtain ts where "t < length l" "l ! t = ROutbound (GetCurrentTime ts)" "d \<le> ts"
    using e by (auto simp: has_timeout_point_at_def is_get_current_time_at_def is_get_current_time_conv)
  ultimately show False using timestamp_le_latest [of t l ts] by simp
qed

lemma wake_on_expired_lawful:
  assumes "always lawful l" "\<forall>k d w. live_timers l k = Some (d, w) \<longrightarrow> latest l < d"
  shows "local_liveness_satisfied wake_on_expired l"
  unfolding local_liveness_satisfied_def wake_on_expired_def local_liveness.simps
  using no_timer_due_expired [OF assms] by blast

text \<open>The searches for the last setting of a waker find the one the history keeps.\<close>

lemma last_wakers_find:
  assumes "i \<le> length l"
  shows "fst (last_wakers (take i l) k) =
      map_option (\<lambda>j. get_set_waker_waker (l ! j)) (find_last_set_waker_for_rid_readable l k i)" (is ?r)
    and "snd (last_wakers (take i l) k) =
      map_option (\<lambda>j. get_set_waker_waker (l ! j)) (find_last_set_waker_for_rid_writable l k i)" (is ?w)
proof -
  have "?r \<and> ?w"
    using assms
  proof (induction i)
    case 0
    show ?case by (simp add: find_last_set_waker_for_rid_readable_def find_last_set_waker_for_rid_writable_def)
  next
    case (Suc i)
    then have t: "take (Suc i) l = take i l @ [l ! i]" by (simp add: take_Suc_conv_app_nth)
    show ?case
    proof (cases "sets_waker k (l ! i)")
      case True
      then obtain n w where "l ! i = RInbound (SetWaker k n w (Some (IoOk ())))"
        by (auto simp: sets_waker_def is_succ_set_waker_conv)
      then show ?thesis
        using Suc unfolding t by (simp add: is_succ_set_waker_at_def
            find_last_set_waker_for_rid_readable_def find_last_set_waker_for_rid_writable_def)
    next
      case False
      then show ?thesis
        using Suc unfolding t by (auto simp: note_wakers_other is_succ_set_waker_at_def sets_waker_def
            find_last_set_waker_for_rid_readable_def find_last_set_waker_for_rid_writable_def)
    qed
  qed
  then show ?r ?w by simp_all
qed

lemma live_from_position:
  assumes "i \<le> length l" "j < i" "reg_io k (l ! j)" "\<forall>n. j < n \<and> n < i \<longrightarrow> \<not> dereg_io k (l ! n)"
  shows "live_sources (take i l) k \<noteq> None"
  unfolding live_sources_iff holds_since_take [OF assms(1)] using assms(2-) by blast

text \<open>An I/O event for a live source whose waker is set is followed by the wake.\<close>

lemma ready_then_wake:
  assumes l: "always lawful l" "always prompt l" "owed l = None"
    and i: "i < length l" "l ! i = ROutbound (IoEventReady ev)"
    and w: "waker_for (live_sources (take i l)) ev = Some w"
  shows "Suc i < length l \<and> l ! Suc i = ROutbound (WakeTask w (ev_rid ev))"
proof -
  have t: "take (Suc i) l = take i l @ [l ! i]" using i(1) by (simp add: take_Suc_conv_app_nth)
  have o: "owed (take (Suc i) l) = Some (ROutbound (WakeTask w (ev_rid ev)))"
    unfolding t using i(2) w by (simp add: owed_def)
  then have "Suc i < length l" using l(3) i(1) by (cases "Suc i < length l") auto
  then show ?thesis using always_take [OF l(2), of "Suc i"] o by (simp add: prompt_def)
qed

lemma last_set_woken:
  assumes l: "always lawful l" "always prompt l" "owed l = None"
    and i: "is_io_event_ready_at l i" and live: "live_sources (take i l) (ev_rid (get_io_event (l ! i))) \<noteq> None"
  shows "ev_readable (get_io_event (l ! i)) \<Longrightarrow>
      find_last_set_waker_for_rid_readable l (ev_rid (get_io_event (l ! i))) i = Some sw \<Longrightarrow>
      \<exists>j > i. woken_with l i (Some sw) j \<and> before_park_end_or_poll l i j"
    and "ev_writable (get_io_event (l ! i)) \<Longrightarrow>
      find_last_set_waker_for_rid_writable l (ev_rid (get_io_event (l ! i))) i = Some sw \<Longrightarrow>
      \<exists>j > i. woken_with l i (Some sw) j \<and> before_park_end_or_poll l i j"
proof -
  obtain ev where ev: "i < length l" "l ! i = ROutbound (IoEventReady ev)"
    using i by (auto simp: is_io_event_ready_at_def is_io_event_ready_conv)
  let ?h = "take i l" and ?k = "ev_rid ev"
  have lw: "live_sources ?h ?k = Some (last_wakers ?h ?k)"
    using live_sources_wakers [of ?h ?k] always_take [OF l(1) ev(1)] live ev(2) by simp
  have woken: "\<exists>j > i. woken_with l i (Some sw) j \<and> before_park_end_or_poll l i j"
    if "waker_for (live_sources ?h) ev = Some (get_set_waker_waker (l ! sw))"
    using ready_then_wake [OF l ev that] ev
    by (intro exI [of _ "Suc i"]) (auto simp: woken_with_def before_park_end_or_poll_def is_wake_task_at_def)
  show "\<exists>j > i. woken_with l i (Some sw) j \<and> before_park_end_or_poll l i j"
    if "ev_readable (get_io_event (l ! i))"
      "find_last_set_waker_for_rid_readable l (ev_rid (get_io_event (l ! i))) i = Some sw"
    using that ev lw last_wakers_find(1) [of i l ?k]
    by (intro woken) (auto simp: waker_for_def ev_readable_def split: prod.splits)
  show "\<exists>j > i. woken_with l i (Some sw) j \<and> before_park_end_or_poll l i j"
    if "ev_writable (get_io_event (l ! i))"
      "find_last_set_waker_for_rid_writable l (ev_rid (get_io_event (l ! i))) i = Some sw"
    using that ev lw last_wakers_find(2) [of i l ?k]
    by (intro woken) (auto simp: waker_for_def ev_writable_def split: prod.splits)
qed


lemma api_waker_live:
  assumes "i < length l" "sw < i" "is_succ_set_waker_at l sw" "io_api_active_at_set_waker l k sw"
    "\<forall>n. sw < n \<and> n < i \<longrightarrow> \<not> (io_api_deregistered_at l n \<and> get_io_api_deregister_rid (l ! n) = k)"
  shows "live_sources (take i l) k \<noteq> None"
proof -
  obtain r where r: "r < sw" "io_api_registered_at l r" "get_io_api_register_rid (l ! r) = k" "io_api_active_at l r sw"
    using assms(4) by (auto simp: io_api_active_at_set_waker_def)
  have "\<not> dereg_io k (l ! sw)"
    using assms(3) by (auto simp: is_succ_set_waker_at_def is_succ_set_waker_conv dereg_io_def)
  then have "\<not> dereg_io k (l ! n)" if "r < n" "n < i" for n
    using that r(3,4) assms(1,5) by (cases n sw rule: linorder_cases) (auto simp: io_api_active_at_def rlog_convs(4))
  moreover have "reg_io k (l ! r)" using r(2,3) by (simp add: io_api_registered_at_def reg_io_def)
  ultimately show ?thesis using live_from_position [of i l r k] assms(1,2) r(1) by auto
qed

lemma syscall_waker_live:
  assumes "i < length l" "sw < i" "is_succ_set_waker_at l sw" "io_syscall_active_at_set_waker l k sw"
    "\<forall>n. sw < n \<and> n < i \<longrightarrow> \<not> (io_syscall_deregistered_at l n \<and> get_io_syscall_deregister_rid (l ! n) = k)"
  shows "k \<in> live_syscalls (take i l)"
proof -
  obtain r where r: "r < sw" "io_syscall_registered_at l r" "get_io_syscall_register_rid (l ! r) = k" "io_syscall_active_at l r sw"
    using assms(4) by (auto simp: io_syscall_active_at_set_waker_def find_io_syscall_register_for_rid_def find_back_Some
        split: option.splits)
  have "\<not> dereg_sys k (l ! sw)"
    using assms(3) by (auto simp: is_succ_set_waker_at_def is_succ_set_waker_conv dereg_sys_def)
  then have "\<not> dereg_sys k (l ! n)" if "r < n" "n < i" for n
    using that r(3,4) assms(1,5)
    by (cases n sw rule: linorder_cases) (auto simp: io_syscall_active_at_def rlog_convs(6) Let_def)
  moreover have "reg_sys k (l ! r)" using r(2,3) by (simp add: io_syscall_registered_at_def reg_sys_def)
  ultimately show ?thesis
    unfolding live_syscalls_iff holds_since_take [OF less_imp_le [OF assms(1)]] using assms(2) r(1) by (auto intro!: exI [of _ r])
qed

lemma syscall_live_source:
  "always lawful l \<Longrightarrow> is_io_event_ready_at l i \<Longrightarrow> ev_rid (get_io_event (l ! i)) \<in> live_syscalls (take i l) \<Longrightarrow>
     live_sources (take i l) (ev_rid (get_io_event (l ! i))) \<noteq> None"
  using lawful_at [of l i] by (auto simp: is_io_event_ready_at_def is_io_event_ready_conv)

lemma set_waker_found:
  assumes "sw < i" "is_succ_set_waker_at l sw" "get_set_waker_rid (l ! sw) = k"
  shows "readable (get_set_waker_interest (l ! sw)) \<Longrightarrow> \<exists>m. find_last_set_waker_for_rid_readable l k i = Some m"
    "writable (get_set_waker_interest (l ! sw)) \<Longrightarrow> \<exists>m. find_last_set_waker_for_rid_writable l k i = Some m"
  using assms
  by (auto simp: find_last_set_waker_for_rid_readable_def find_last_set_waker_for_rid_writable_def
      simp flip: not_None_eq simp: find_back_None)

lemma reactor_wake_lawful:
  assumes l: "always lawful l" "always prompt l" "owed l = None"
  shows "reactor_wake_inv l"
  unfolding reactor_wake_inv_def
proof (intro conjI allI impI; elim conjE)
  fix i assume i: "is_io_event_ready_at l i" "has_valid_set_waker_readable_api l i"
  then obtain sw where sw: "ev_readable (get_io_event (l ! i))" "sw < i" "is_succ_set_waker_at l sw"
      "get_set_waker_rid (l ! sw) = ev_rid (get_io_event (l ! i))" "readable (get_set_waker_interest (l ! sw))"
      "live_sources (take i l) (ev_rid (get_io_event (l ! i))) \<noteq> None"
    using api_waker_live [of i l] by (auto simp: has_valid_set_waker_readable_api_def Let_def is_io_event_ready_at_def)
  then show "\<exists>j > i. woken_with l i (find_last_set_waker_for_rid_readable l (ev_rid (get_io_event (l ! i))) i) j \<and>
      before_park_end_or_poll l i j"
    using last_set_woken(1) [OF l i(1)] set_waker_found(1) [OF sw(2-5)] by metis
next
  fix i assume i: "is_io_event_ready_at l i" "has_valid_set_waker_writable_api l i"
  then obtain sw where sw: "ev_writable (get_io_event (l ! i))" "sw < i" "is_succ_set_waker_at l sw"
      "get_set_waker_rid (l ! sw) = ev_rid (get_io_event (l ! i))" "writable (get_set_waker_interest (l ! sw))"
      "live_sources (take i l) (ev_rid (get_io_event (l ! i))) \<noteq> None"
    using api_waker_live [of i l] by (auto simp: has_valid_set_waker_writable_api_def Let_def is_io_event_ready_at_def)
  then show "\<exists>j > i. woken_with l i (find_last_set_waker_for_rid_writable l (ev_rid (get_io_event (l ! i))) i) j \<and>
      before_park_end_or_poll l i j"
    using last_set_woken(2) [OF l i(1)] set_waker_found(2) [OF sw(2-5)] by metis
qed

lemma syscall_wakes_lawful:
  assumes l: "always lawful l" "always prompt l" "owed l = None"
  shows "local_liveness_satisfied wake_on_io_ready_readable l" "local_liveness_satisfied wake_on_io_ready_writable l"
  unfolding local_liveness_satisfied_def wake_on_io_ready_readable_def wake_on_io_ready_writable_def local_liveness.simps
proof (safe)
  fix i assume i: "is_io_event_ready_at l i" "has_valid_set_waker_readable_syscall l i"
  then obtain sw where sw: "ev_readable (get_io_event (l ! i))" "sw < i" "is_succ_set_waker_at l sw"
      "get_set_waker_rid (l ! sw) = ev_rid (get_io_event (l ! i))" "readable (get_set_waker_interest (l ! sw))"
      "ev_rid (get_io_event (l ! i)) \<in> live_syscalls (take i l)"
    using syscall_waker_live [of i l] by (auto simp: has_valid_set_waker_readable_syscall_def Let_def is_io_event_ready_at_def)
  then show "\<exists>j > i. woken_with l i (find_last_set_waker_for_rid_readable l (ev_rid (get_io_event (l ! i))) i) j \<and>
      before_park_end_or_poll l i j"
    using last_set_woken(1) [OF l i(1) syscall_live_source [OF l(1) i(1)]] set_waker_found(1) [OF sw(2-5)] by metis
next
  fix i assume i: "is_io_event_ready_at l i" "has_valid_set_waker_writable_syscall l i"
  then obtain sw where sw: "ev_writable (get_io_event (l ! i))" "sw < i" "is_succ_set_waker_at l sw"
      "get_set_waker_rid (l ! sw) = ev_rid (get_io_event (l ! i))" "writable (get_set_waker_interest (l ! sw))"
      "ev_rid (get_io_event (l ! i)) \<in> live_syscalls (take i l)"
    using syscall_waker_live [of i l] by (auto simp: has_valid_set_waker_writable_syscall_def Let_def is_io_event_ready_at_def)
  then show "\<exists>j > i. woken_with l i (find_last_set_waker_for_rid_writable l (ev_rid (get_io_event (l ! i))) i) j \<and>
      before_park_end_or_poll l i j"
    using last_set_woken(2) [OF l i(1) syscall_live_source [OF l(1) i(1)]] set_waker_found(2) [OF sw(2-5)] by metis
qed

section \<open>The groups\<close>

lemma reactor_io_lawful:
  assumes "always lawful l"
  shows "reactor_io_inv l"
  unfolding reactor_io_inv_def
  using ids_before [OF assms] no_prior_ids(1,2) [of _ l] io_waker_valid_lawful(1) [OF assms] wake_registered_lawful(1) [OF assms]
  by (auto simp: is_succ_register_timer_at_def io_api_registered_at_def)

lemma reactor_ext_lawful:
  assumes "always lawful l"
  shows "reactor_ext_inv l"
proof -
  have "io_api_active_at_set_waker l (get_set_waker_rid (l ! i)) i" if "is_succ_set_waker_at l i" for i
    using set_waker_lawful(1) [OF assms, of i "get_set_waker_rid (l ! i)"] that
    by (simp add: is_succ_set_waker_at_def sets_waker_def)
  then show ?thesis
    unfolding reactor_ext_inv_def
    using timer_deadline_lawful [OF assms] park_end_lawful [OF assms] io_ready_lawful [OF assms]
      register_cycle_lawful [OF assms] deregister_cycle_lawful [OF assms] deregister_result_lawful [OF assms]
      register_result_lawful [OF assms]
    by (intro conjI) simp_all
qed

lemma syscall_anchored_lawful:
  assumes l: "always lawful l" "always prompt l" "owed l = None"
  shows "syscall_anchored_inv l"
proof -
  have "io_syscall_active_at_set_waker l (get_set_waker_rid (l ! i)) i" if "is_succ_set_waker_at l i" for i
    using set_waker_lawful(2) [OF l(1), of i "get_set_waker_rid (l ! i)"] that
    by (simp add: is_succ_set_waker_at_def sets_waker_def)
  moreover have "no_prior_io_syscall_registration l (get_io_syscall_register_rid (l ! i)) i \<and>
      no_prior_timer_registration l (get_io_syscall_register_rid (l ! i)) i" if "io_syscall_registered_at l i" for i
    using ids_before(3) [OF l(1), of i] no_prior_ids [of i l] that by (auto simp: io_syscall_registered_at_def)
  moreover have "no_prior_io_syscall_registration l (get_register_timer_rid (l ! i)) i"
    if "is_succ_register_timer_at l i" for i
    using ids_before(1) [OF l(1), of i] no_prior_ids [of i l] that by (auto simp: is_succ_register_timer_at_def)
  moreover note io_waker_valid_lawful(2) [OF l(1)] wake_registered_lawful(2) [OF l(1)] syscall_wakes_lawful [OF l]
  moreover have "no_prior_timer_registration l (get_register_timer_rid (l ! i)) i" if "is_succ_register_timer_at l i" for i
    using ids_before(1) [OF l(1), of i] no_prior_ids [of i l] that by (auto simp: is_succ_register_timer_at_def)
  moreover note timer_deadline_lawful [OF l(1)] park_end_lawful [OF l(1)] io_ready_lawful [OF l(1)]
    register_cycle_lawful [OF l(1)] deregister_cycle_lawful [OF l(1)] deregister_result_lawful [OF l(1)]
  ultimately show ?thesis
    unfolding syscall_anchored_inv_def action_safety_satisfied_def io_reg_uniqueness_def timer_io_disjoint_at_timer_def
      timer_io_disjoint_at_io_def io_waker_validity_def wake_has_registration_def set_waker_active_io_def
      timer_deadline_future_def park_has_timestamp_def park_poll_once_def io_ready_in_park_def timer_reg_uniqueness_def
      register_io_in_cycle_def deregister_io_in_cycle_def inbound_deregister_io_result_def action_safety.simps
    by (intro conjI) simp_all
qed

lemma alloc_inv_ids:
  fixes n :: u64
  assumes "1 \<le> n" "\<forall>k \<in> timer_ids l \<union> io_ids l. 1 \<le> k \<and> k < n"
  shows "alloc_inv l (unat n)"
proof -
  have b: "1 \<le> unat k \<and> unat k < unat n" if "k \<in> timer_ids l \<union> io_ids l" for k
    using assms(2) that by (simp add: word_less_nat_alt word_le_nat_alt)
  have "get_register_timer_rid (l ! i) \<in> timer_ids l" if "is_succ_register_timer_at l i" for i
    using that nth_mem [of i l] by (auto simp: timer_ids_def reg_timer_def is_succ_register_timer_at_def)
  moreover have "get_io_api_register_rid (l ! i) \<in> io_ids l" if "io_api_registered_at l i" for i
    using that nth_mem [of i l] by (auto simp: io_ids_def reg_io_def io_api_registered_at_def)
  ultimately show ?thesis using b assms(1) by (auto simp: alloc_inv_def word_le_nat_alt)
qed

end
