(* ===== verification/Reactor_Log_Inv.thy ===== *)
theory Reactor_Log_Inv
  imports Reactor_Lawful
begin

text \<open>
  The reactor writes lawful logs.  \<open>logged\<close> ties the log to the state: the log's live sources are
  the I/O slots, its ids are below the counter, its clock is behind the wheel's.  Every call keeps
  it.  \<open>timer_logged\<close> ties the timers as well; the calls of \<open>Reactor\<close> itself keep that too, the
  handle layer, which cancels timers without logging it and takes timers over, does not.
\<close>

section \<open>Logs that grow by several events\<close>

fun follows :: "('w rlog \<Rightarrow> 'w reactor_event \<Rightarrow> bool) \<Rightarrow> 'w rlog \<Rightarrow> 'w rlog \<Rightarrow> bool" where
  "follows good h [] = True"
| "follows good h (e # es) = (good h e \<and> follows good (h @ [e]) es)"

lemma always_append: "always good (h @ es) \<longleftrightarrow> always good h \<and> follows good h es"
proof (induction es arbitrary: h)
  case (Cons e es)
  have "h @ e # es = (h @ [e]) @ es" by simp
  then show ?case using Cons [of "h @ [e]"] by (metis always_snoc follows.simps(2))
qed simp

lemma follows_append: "follows good h (a @ b) \<longleftrightarrow> follows good h a \<and> follows good (h @ a) b"
  by (induction a arbitrary: h) auto

lemma history_append:
  "live_timers (h @ es) = foldl note_timer (live_timers h) es"
  "live_sources (h @ es) = foldl note_source (live_sources h) es"
  "live_syscalls (h @ es) = foldl note_syscall (live_syscalls h) es"
  by (simp_all add: live_timers_def live_sources_def live_syscalls_def)

lemma ids_Cons [simp]:
  "timer_ids (e # es) = {k. reg_timer k e} \<union> timer_ids es" "io_ids (e # es) = {k. reg_io k e} \<union> io_ids es"
  "sys_ids (e # es) = {k. reg_sys k e} \<union> sys_ids es"
  by (auto simp: timer_ids_def io_ids_def sys_ids_def)

fun note_time :: "instant \<Rightarrow> 'w reactor_event \<Rightarrow> instant" where
  "note_time m (ROutbound (GetCurrentTime ts)) = max m ts"
| "note_time m _ = m"

lemma latest_append: "latest (h @ es) = foldl note_time (latest h) es"
proof (induction es rule: rev_induct)
  case (snoc e es)
  have "latest ((h @ es) @ [e]) = note_time (latest (h @ es)) e"
    unfolding latest_snoc by (cases "(latest (h @ es), e)" rule: note_time.cases) auto
  then show ?case using snoc by simp
qed simp

text \<open>Only a reported I/O event is owed an answer.\<close>

lemma owed_none: "(\<And>ev. last h \<noteq> ROutbound (IoEventReady ev)) \<Longrightarrow> owed h = None"
  by (auto simp: owed_def split: reactor_event.splits reactor_outbound.splits)

lemma u64_max_top: "u64_max \<le> n \<Longrightarrow> n = u64_max"
  using word_order.extremum_uniqueI [of n] by simp

lemma follows_all: "(\<And>e g. e \<in> set es \<Longrightarrow> good g e) \<Longrightarrow> follows good h es"
  by (induction es arbitrary: h) auto

section \<open>The coupling\<close>

definition known_timers :: "'w reactor_thread \<Rightarrow> u64 set" where
  "known_timers r = dom (timers r) \<union> fst ` set_option (pending_deregister r)"

text \<open>Every refusal so far is the system's, unless the ids have run out.\<close>

definition answers_logged :: "'w reactor_thread \<Rightarrow> bool" where
  "answers_logged r \<longleftrightarrow> next_resource_id r = u64_max \<or> always answered (rlog r)"

definition logged :: "'w reactor_thread \<Rightarrow> bool" where
  "logged r \<longleftrightarrow> always lawful (rlog r) \<and> always prompt (rlog r) \<and> owed (rlog r) = None \<and>
     live_sources (rlog r) = sources r \<and> live_syscalls (rlog r) = dom (sources r) \<and>
     known_timers r \<subseteq> timer_ids (rlog r) \<and>
     (\<forall>k \<in> timer_ids (rlog r) \<union> sys_ids (rlog r). 1 \<le> k \<and> k < next_resource_id r) \<and>
     latest (rlog r) \<le> elapsed (wheel r) \<and> answers_logged r"

definition timer_logged :: "'w reactor_thread \<Rightarrow> bool" where
  "timer_logged r \<longleftrightarrow> always timely (rlog r) \<and> live_timers (rlog r) = timers r \<and> pending_deregister r = None"

lemma logged_new: "logged reactor_new" "timer_logged reactor_new"
  by (simp_all add: logged_def answers_logged_def timer_logged_def reactor_new_def owed_def latest_def known_timers_def timers_def sources_def
      slab_get_view fun_eq_iff dom_def)

lemma logged_cong:
  assumes "rlog r' = rlog r" "sources r' = sources r" "known_timers r' \<subseteq> known_timers r"
    "next_resource_id r' = next_resource_id r" "elapsed (wheel r') = elapsed (wheel r)"
  shows "logged r \<Longrightarrow> logged r'"
  using assms by (auto simp: logged_def answers_logged_def)

lemma logged_fresh:
  assumes "logged r" "reactor_ok r"
  shows "next_resource_id r \<notin> timer_ids (rlog r) \<union> io_ids (rlog r) \<union> sys_ids (rlog r)"
proof -
  have "io_ids (rlog r) \<subseteq> sys_ids (rlog r)" using io_sub_sys assms(1) by (auto simp: logged_def)
  then show ?thesis using assms(1) by (fastforce simp: logged_def)
qed

lemma logged_flush: "logged r \<Longrightarrow> reactor_ok r \<Longrightarrow> logged (flush_pending_deregister r)"
  by (rule logged_cong [of _ r]) (simp_all add: flush_ok known_timers_def)

lemma logged_wf:
  assumes "logged r" "reactor_ok r"
  shows "reactor_io_inv (rlog r)" "reactor_wake_inv (rlog r)" "reactor_ext_inv (rlog r)"
    "alloc_inv (rlog r) (unat (next_resource_id r))" "syscall_anchored_inv (rlog r)"
    "next_resource_id r \<noteq> u64_max \<Longrightarrow> action_safety_satisfied inbound_register_io_result (rlog r)"
proof -
  note l = assms(1) [unfolded logged_def]
  have "\<forall>k \<in> timer_ids (rlog r) \<union> io_ids (rlog r). 1 \<le> k \<and> k < next_resource_id r"
    using l io_sub_sys [of "rlog r"] by blast
  then show "alloc_inv (rlog r) (unat (next_resource_id r))"
    using assms(2) by (intro alloc_inv_ids) (auto simp: reactor_ok_def)
  show "action_safety_satisfied inbound_register_io_result (rlog r)" if "next_resource_id r \<noteq> u64_max"
    using that l register_result_answered by (auto simp: answers_logged_def)
  show "reactor_io_inv (rlog r)" "reactor_wake_inv (rlog r)" "reactor_ext_inv (rlog r)" "syscall_anchored_inv (rlog r)"
    using reactor_io_lawful reactor_wake_lawful reactor_ext_lawful syscall_anchored_lawful l by blast+
qed

lemma timer_logged_wf:
  assumes "logged r" "timer_logged r" "reactor_ok r"
  shows "action_safety_satisfied timer_waker_validity (rlog r)" "local_liveness_satisfied wake_on_expired (rlog r)"
proof -
  show "action_safety_satisfied timer_waker_validity (rlog r)"
    using timer_waker_lawful assms(2) by (auto simp: timer_logged_def)
  have t: "table_ok (next_resource_id r) (wheel_view (wheel r)) (slot r)" using assms(3) by (simp add: reactor_ok_iff)
  have "latest (rlog r) < d" if "live_timers (rlog r) k = Some (d, w)" for k d w
  proof -
    have "wheel_view (wheel r) k = Some d"
      using wheel_view_timers [OF t, of k] assms(2) that by (simp add: timer_logged_def)
    then have "elapsed (wheel r) < d" using assms(3) by (auto simp: reactor_ok_def)
    then show ?thesis using assms(1) by (auto simp: logged_def intro: order.strict_trans1)
  qed
  then show "local_liveness_satisfied wake_on_expired (rlog r)"
    using assms(1) by (intro wake_on_expired_lawful) (auto simp: logged_def)
qed

text \<open>What a call owes that appends \<open>es\<close>.\<close>

lemma logged_extend:
  assumes l: "logged r" and e: "rlog r' = rlog r @ es"
    and f: "follows lawful (rlog r) es" "follows prompt (rlog r) es" "owed (rlog r') = None"
    and s: "foldl note_source (sources r) es = sources r'" "foldl note_syscall (dom (sources r)) es = dom (sources r')"
    and k: "known_timers r' \<subseteq> known_timers r \<union> timer_ids es"
    and n: "next_resource_id r \<le> next_resource_id r'" "\<forall>k \<in> timer_ids es \<union> sys_ids es. 1 \<le> k \<and> k < next_resource_id r'"
    and t: "foldl note_time (latest (rlog r)) es \<le> elapsed (wheel r')"
    and a: "next_resource_id r' = u64_max \<or> follows answered (rlog r) es"
  shows "logged r'"
proof -
  note l' = l [unfolded logged_def]
  have "answers_logged r" using l' by blast
  then have al: "answers_logged r'"
    using a n(1) u64_max_top unfolding answers_logged_def e always_append by auto
  have "\<forall>k \<in> timer_ids (rlog r) \<union> sys_ids (rlog r). 1 \<le> k \<and> k < next_resource_id r'"
    using l' n(1) by (auto intro: order.strict_trans2)
  then show ?thesis
    using l' f s k n(2) t al unfolding logged_def e always_append history_append latest_append by auto
qed

section \<open>The calls\<close>

lemmas note_simps = reg_timer_def reg_io_def reg_sys_def

lemma register_timer_logged:
  assumes ok: "reactor_ok r" and l: "logged r" and d: "elapsed (wheel r) < d" and reg: "register_timer d w r = (res, r')"
  shows "logged r'" "timer_logged r \<Longrightarrow> timer_logged r'"
proof -
  have e: "rlog r' = rlog r @ [RInbound (RegisterTimer d w None), RInbound (RegisterTimer d w (Some res))] \<and>
      elapsed (wheel r') = elapsed (wheel r) \<and> next_resource_id r \<le> next_resource_id r'"
  proof (cases r rule: alloc_resource_id_cases)
    case ok
    then have "next_resource_id r \<le> next_resource_id r + 1" by (simp add: word_le_nat_alt)
    then show ?thesis
      using reg ok(1) [folded not_le] by (auto simp: register_timer_def alloc_resource_id_def Let_def)
  qed (use reg in \<open>auto simp: register_timer_def alloc_resource_id_def Let_def\<close>)
  note o = register_timer_ok [OF ok d reg]
  note l' = l [unfolded logged_def]
  have dl: "latest (rlog r) < d" using l' d by auto
  have fresh: "next_resource_id r \<notin> timer_ids (rlog r) \<union> io_ids (rlog r) \<union> sys_ids (rlog r)"
    by (rule logged_fresh [OF l ok])
  have n: "1 \<le> k \<and> k < next_resource_id r'" if "res = IoOk k" for k
    using o that ok by (auto simp: reactor_ok_def word_less_nat_alt unat_word_ariths unat_u64_max)
  show "logged r'"
  proof (rule logged_extend [OF l conjunct1 [OF e]])
    show "follows lawful (rlog r) [RInbound (RegisterTimer d w None), RInbound (RegisterTimer d w (Some res))]"
      using fresh dl o by (cases res) (auto simp: note_simps latest_snoc)
    show "foldl note_source (sources r) [RInbound (RegisterTimer d w None), RInbound (RegisterTimer d w (Some res))] = sources r'"
      "foldl note_syscall (dom (sources r)) [RInbound (RegisterTimer d w None), RInbound (RegisterTimer d w (Some res))] = dom (sources r')"
      using o by simp_all
    show "known_timers r' \<subseteq> known_timers r \<union> timer_ids [RInbound (RegisterTimer d w None), RInbound (RegisterTimer d w (Some res))]"
      using o by (cases res) (auto simp: known_timers_def note_simps)
    show "\<forall>k \<in> timer_ids [RInbound (RegisterTimer d w None), RInbound (RegisterTimer d w (Some res))] \<union>
        sys_ids [RInbound (RegisterTimer d w None), RInbound (RegisterTimer d w (Some res))]. 1 \<le> k \<and> k < next_resource_id r'"
      using n by (cases res) (auto simp: note_simps)
  qed (use l' e in \<open>simp_all add: prompt_def owed_none\<close>)
  show "timer_logged r'" if "timer_logged r"
    using that o e by (auto simp: timer_logged_def always_append history_append split: io_result.splits)
qed


lemma deregister_timer_logged:
  assumes ok: "reactor_ok r" and l: "logged r" and s: "sources r k = None" and p: "pending_deregister r = None"
  shows "logged (deregister_timer k r)" "timer_logged r \<Longrightarrow> timer_logged (deregister_timer k r)"
proof -
  let ?r1 = "log_in (DeregisterTimer k True) r"
  have r': "deregister_timer k r = drop_timer k ?r1"
    by (simp add: deregister_timer_def drop_timer_def Let_def)
  have o: "timers (drop_timer k ?r1) = (timers r)(k := None)" "sources (drop_timer k ?r1) = sources r"
    using drop_timer_ok(2,3) [of ?r1 k] ok p s by (simp_all add: fun_upd_idem)
  have f: "rlog (drop_timer k ?r1) = rlog r @ [RInbound (DeregisterTimer k True)]"
    "elapsed (wheel (drop_timer k ?r1)) = elapsed (wheel r)" "next_resource_id (drop_timer k ?r1) = next_resource_id r"
    "pending_deregister (drop_timer k ?r1) = None"
    using p by (simp_all add: drop_timer_def)
  show "logged (deregister_timer k r)"
    unfolding r'
    by (rule logged_extend [OF l f(1)]) (use l o f in \<open>auto simp: logged_def prompt_def owed_none known_timers_def note_simps\<close>)
  show "timer_logged (deregister_timer k r)" if "timer_logged r"
    using that unfolding r' timer_logged_def by (simp add: f o always_append history_append)
qed

lemma register_io_log:
  assumes "register_io_resource S src i r = (res, r')"
  shows "wheel r' = wheel r \<and> (\<exists>es. rlog r' = rlog r @ RInbound (RegisterIoResource src i None) # es @
      [RInbound (RegisterIoResource src i (Some res))] \<and>
    (es = [] \<and> res = IoErr resource_id_overflow \<and> next_resource_id r = u64_max \<and> next_resource_id r' = u64_max \<or>
     (\<exists>os. es = [ROutbound (OsRegisterIoResource src (next_resource_id r) i os)] \<and>
       res = (case os of IoOk u \<Rightarrow> IoOk (next_resource_id r) | IoErr err \<Rightarrow> IoErr err) \<and>
       next_resource_id r < next_resource_id r')))"
proof (cases r rule: alloc_resource_id_cases)
  case full
  then show ?thesis using assms by (auto simp: register_io_resource_def alloc_resource_id_def Let_def)
next
  case ok
  then have "next_resource_id r < next_resource_id r + 1" by (simp add: word_less_nat_alt)
  then show ?thesis
    using assms ok(1) [folded not_le]
    by (auto simp: register_io_resource_def alloc_resource_id_def register_io_source_action_def Let_def
        split: io_result.splits)
qed

lemma register_io_logged:
  assumes ok: "reactor_ok r" and l: "logged r" and reg: "register_io_resource S src i r = (res, r')"
  shows "logged r'" "timer_logged r \<Longrightarrow> timer_logged r'"
proof -
  obtain es where e: "wheel r' = wheel r" "rlog r' = rlog r @ RInbound (RegisterIoResource src i None) # es @
        [RInbound (RegisterIoResource src i (Some res))]"
      "es = [] \<and> res = IoErr resource_id_overflow \<and> next_resource_id r = u64_max \<and> next_resource_id r' = u64_max \<or>
       (\<exists>os. es = [ROutbound (OsRegisterIoResource src (next_resource_id r) i os)] \<and>
         res = (case os of IoOk u \<Rightarrow> IoOk (next_resource_id r) | IoErr err \<Rightarrow> IoErr err) \<and>
         next_resource_id r < next_resource_id r')"
    using register_io_log [OF reg] by blast
  note o = register_io_ok [OF ok reg]
  note fresh = logged_fresh [OF l ok]
  have n1: "1 \<le> next_resource_id r" using ok by (simp add: reactor_ok_def)
  have kt: "known_timers r' = known_timers r" using o by (simp add: known_timers_def)
  consider (full) "es = []" "res = IoErr resource_id_overflow" "next_resource_id r = u64_max" "next_resource_id r' = u64_max"
    | (ok) "es = [ROutbound (OsRegisterIoResource src (next_resource_id r) i (IoOk ()))]"
        "res = IoOk (next_resource_id r)" "next_resource_id r < next_resource_id r'"
    | (err) err where "es = [ROutbound (OsRegisterIoResource src (next_resource_id r) i (IoErr err))]"
        "res = IoErr err" "next_resource_id r < next_resource_id r'"
    using e(3) by (fastforce split: io_result.splits)
  note c = this
  note simps = logged_def note_simps prompt_def owed_none
  from c show "logged r'"
  proof cases
    case full
    show ?thesis by (rule logged_extend [OF l e(2)]) (use l e(1,2) o kt full in \<open>simp_all add: simps\<close>)
  next
    case ok
    show ?thesis by (rule logged_extend [OF l e(2)]) (use l fresh n1 e(1,2) o kt ok in \<open>simp_all add: simps\<close>)
  next
    case err
    show ?thesis by (rule logged_extend [OF l e(2)]) (use l fresh e(1,2) o kt err in \<open>simp_all add: simps\<close>)
  qed
  from c show "timer_logged r'" if "timer_logged r"
    using that o unfolding timer_logged_def e(2)
    by cases (simp_all add: always_append history_append)
qed

lemma deregister_io_logged:
  assumes ok: "reactor_ok r" and l: "logged r" and s: "sources r k \<noteq> None"
    and reg: "deregister_io_resource S k src r = (res, r')"
  shows "logged r'" "timer_logged r \<Longrightarrow> timer_logged r'"
proof -
  have e: "rlog r' = rlog r @ [RInbound (DeregisterIoResource k None), ROutbound (OsDeregisterIoResource src k res),
      RInbound (DeregisterIoResource k (Some res))]" "wheel r' = wheel r" "next_resource_id r' = next_resource_id r"
    using reg by (auto simp: deregister_io_resource_def deregister_io_source_action_def Let_def)
  note o = deregister_io_ok [OF ok s reg]
  show "logged r'"
    by (rule logged_extend [OF l e(1)])
      (use l e o in \<open>auto simp: logged_def note_simps prompt_def owed_none known_timers_def\<close>)
  show "timer_logged r'" if "timer_logged r"
    using that o unfolding timer_logged_def e(1) by (simp add: always_append history_append)
qed

lemma set_waker_logged:
  assumes ok: "reactor_ok r" and l: "logged r" and s: "sources r k \<noteq> None" and reg: "set_waker k i w r = Some r'"
  shows "logged r'" "timer_logged r \<Longrightarrow> timer_logged r'"
proof -
  obtain rw ww where io: "sources r k = Some (rw, ww)" using s by auto
  have e: "rlog r' = rlog r @ [RInbound (SetWaker k i w None), RInbound (SetWaker k i w (Some (IoOk ())))]"
    "wheel r' = wheel r" "next_resource_id r' = next_resource_id r"
    using reg by (auto simp: set_waker_def Let_def split: option.splits if_splits)
  have o: "timers r' = timers r" "pending_deregister r' = pending_deregister r"
    "sources r' = (sources r)(k \<mapsto> (if readable i then Some w else rw, if writable i then Some w else ww))"
    using set_waker_ok [OF ok io, of i w] reg by auto
  show "logged r'"
    by (rule logged_extend [OF l e(1)])
      (use l e o io in \<open>auto simp: logged_def note_simps prompt_def owed_none known_timers_def history_append\<close>)
  show "timer_logged r'" if "timer_logged r"
    using that o unfolding timer_logged_def e(1) by (simp add: always_append history_append)
qed


section \<open>Park\<close>

lemma io_wakes_single:
  "io_wakes src [e] = (case waker_for src e of None \<Rightarrow> [] | Some w \<Rightarrow> [(w, ev_rid e)])"
  by (auto simp: waker_for_def split: option.splits io_mode.splits)

lemma park_open_append:
  "park_open h mid \<Longrightarrow> \<forall>e \<in> set es. \<not> is_park_begin e \<and> \<not> is_park_end e \<Longrightarrow> park_open (h @ es) (mid @ es)"
  by (auto simp: park_open_def)

lemma wake_events_follow:
  assumes "\<forall>(w, k) \<in> set ws. k \<in> timer_ids h" "owed h = None"
  shows "follows lawful h (wake_events ws) \<and> follows prompt h (wake_events ws)"
  using assms
proof (induction ws arbitrary: h)
  case (Cons p ws)
  obtain w k where p: "p = (w, k)" by (cases p)
  let ?e = "ROutbound (WakeTask w k)"
  have "owed (h @ [?e]) = None" by (simp add: owed_none)
  moreover have "\<forall>(w', k') \<in> set ws. k' \<in> timer_ids (h @ [?e])" using Cons.prems(1) by auto
  ultimately show ?case using Cons p by (simp add: prompt_def del: ids_append)
qed simp

lemma wake_events_notes [simp]:
  "foldl note_source m (wake_events ws) = m" "foldl note_syscall A (wake_events ws) = A"
  "foldl note_time t (wake_events ws) = t"
  by (induction ws) (auto split: prod.splits)

lemma wake_events_not:
  "timer_ids (wake_events ws) = {}" "sys_ids (wake_events ws) = {}" "\<forall>e \<in> set (wake_events ws). \<not> is_park_begin e \<and> \<not> is_park_end e"
  "filter is_poll_events (wake_events ws) = []" "\<forall>e \<in> set (wake_events ws). \<not> is_inbound_register_io_end e"
  by (auto simp: timer_ids_def sys_ids_def event_kinds filter_empty_conv)

lemma io_log_notes [simp]:
  "foldl note_source m (io_log src evs) = m" "foldl note_syscall A (io_log src evs) = A"
  "foldl note_time t (io_log src evs) = t"
  by (induction evs) (simp_all del: io_wakes.simps)

lemma io_log_not:
  "timer_ids (io_log src evs) = {}" "sys_ids (io_log src evs) = {}"
  "\<forall>e \<in> set (io_log src evs). \<not> is_park_begin e \<and> \<not> is_park_end e" "filter is_poll_events (io_log src evs) = []"
  "\<forall>e \<in> set (io_log src evs). \<not> is_inbound_register_io_end e"
  by (induction evs) (auto simp del: io_wakes.simps simp: wake_events_not note_simps)

lemma io_log_follow:
  assumes "park_open h mid" "owed h = None" "live_sources h = src" "live_syscalls h = dom src"
  shows "follows lawful h (io_log src evs) \<and> follows prompt h (io_log src evs) \<and> owed (h @ io_log src evs) = None"
  using assms
proof (induction evs arbitrary: h mid)
  case (Cons e evs)
  let ?i = "ROutbound (IoEventReady e)" and ?ws = "wake_events (io_wakes src [e])"
  let ?h = "h @ [?i]" and ?h' = "(h @ [?i]) @ ?ws"
  have i: "lawful h ?i" "prompt h ?i" using Cons.prems by (auto simp: prompt_def)
  have po: "\<exists>mid. park_open ?h' mid"
    using park_open_append [OF Cons.prems(1), of "?i # ?ws"] wake_events_not(3) by (auto simp del: io_wakes.simps)
  have ws: "follows lawful ?h ?ws \<and> follows prompt ?h ?ws \<and> owed ?h' = None"
  proof (cases "waker_for src e")
    case None
    then show ?thesis using Cons.prems(3) by (simp add: io_wakes_single owed_def del: io_wakes.simps)
  next
    case (Some w)
    then obtain rw ww where "src (ev_rid e) = Some (rw, ww)" "rw = Some w \<or> ww = Some w"
      by (auto simp: waker_for_def split: option.splits io_mode.splits)
    then have "lawful ?h (ROutbound (WakeTask w (ev_rid e)))" using Cons.prems(3) by auto
    moreover have "owed ?h = Some (ROutbound (WakeTask w (ev_rid e)))"
      using Some Cons.prems(3) by (simp add: owed_def)
    ultimately show ?thesis using Some by (simp add: io_wakes_single prompt_def owed_none del: io_wakes.simps)
  qed
  have "live_sources ?h' = src" "live_syscalls ?h' = dom src" using Cons.prems by (simp_all add: history_append)
  then have IH: "follows lawful ?h' (io_log src evs) \<and> follows prompt ?h' (io_log src evs) \<and> owed (?h' @ io_log src evs) = None"
    using Cons.IH po ws by blast
  have "io_log src (e # evs) = ?i # ?ws @ io_log src evs" by simp
  then show ?case using i ws IH by (simp add: follows_append del: io_wakes.simps io_log.simps)
qed simp

text \<open>The wakes of the due timers name them, each once.\<close>

lemma wake_events_timely:
  assumes "distinct ks" "\<forall>k \<in> set ks. live_timers h k = Some (d k, w k)"
  shows "follows timely h (wake_events (map (\<lambda>k. (w k, k)) ks)) \<and>
    foldl note_timer (live_timers h) (wake_events (map (\<lambda>k. (w k, k)) ks)) = live_timers h |` (- set ks)"
  using assms
proof (induction ks arbitrary: h)
  case (Cons k ks)
  let ?e = "ROutbound (WakeTask (w k) k)"
  have lt: "live_timers (h @ [?e]) = (live_timers h)(k := None)" "timely h ?e" using Cons.prems(2) by simp_all
  have "\<forall>j \<in> set ks. live_timers (h @ [?e]) j = Some (d j, w j)" using Cons.prems by auto
  note IH = Cons.IH [OF _ this, unfolded lt(1)]
  have "(live_timers h)(k := None) |` (- set ks) = live_timers h |` (- insert k (set ks))"
    by (auto simp: restrict_map_def)
  then show ?case using IH Cons.prems(1) lt(2) by (simp del: fun_upd_apply map_map Compl_insert)
qed (simp add: restrict_map_def)

lemma io_log_timely:
  assumes "dom src \<inter> timer_ids h = {}" "\<forall>k \<in> dom src. live_timers h k = None"
  shows "follows timely h (io_log src evs) \<and> foldl note_timer (live_timers h) (io_log src evs) = live_timers h"
  using assms
proof (induction evs arbitrary: h)
  case (Cons e evs)
  let ?i = "ROutbound (IoEventReady e)" and ?ws = "wake_events (io_wakes src [e])"
  let ?h' = "(h @ [?i]) @ ?ws"
  have src: "waker_for src e = Some w \<Longrightarrow> ev_rid e \<in> dom src" for w
    by (auto simp: waker_for_def split: option.splits)
  have ws: "follows timely (h @ [?i]) ?ws" "live_timers ?h' = live_timers h" "timer_ids ?h' = timer_ids h"
    using src Cons.prems
    by (auto simp: io_wakes_single history_append note_simps fun_upd_idem simp del: io_wakes.simps split: option.splits)
  then have "follows timely ?h' (io_log src evs) \<and> foldl note_timer (live_timers ?h') (io_log src evs) = live_timers ?h'"
    using Cons.IH [of ?h'] Cons.prems by simp
  moreover have "io_log src (e # evs) = ?i # ?ws @ io_log src evs" by simp
  ultimately show ?case
    using ws by (simp add: follows_append history_append del: io_wakes.simps io_log.simps)
qed simp

text \<open>The entries of a park: its start, the wakes of the due timers, the events of the system, its end.\<close>

definition park_start :: "duration option \<Rightarrow> instant \<Rightarrow> duration option \<Rightarrow> nat io_result \<Rightarrow> 'w rlog" where
  "park_start timeout now polled poll =
     [RInbound (ReactorPark timeout None), ROutbound (GetCurrentTime now), ROutbound (PollEvents polled poll)]"

lemma park_start_notes [simp]:
  "foldl note_source m (park_start timeout now pt poll) = m" "foldl note_syscall A (park_start timeout now pt poll) = A"
  "foldl note_timer m' (park_start timeout now pt poll) = m'"
  "foldl note_time t (park_start timeout now pt poll) = max t now"
  "timer_ids (park_start timeout now pt poll) = {}" "sys_ids (park_start timeout now pt poll) = {}"
  by (simp_all add: park_start_def note_simps)

lemma park_follows:
  assumes o: "owed h = None" and src: "live_sources h = src" "live_syscalls h = dom src"
    and due: "\<forall>(w, k) \<in> set wks. k \<in> timer_ids h"
  shows "follows lawful h (park_start timeout now pt poll @ wake_events wks @ io_log src evs @ [RInbound (ReactorPark timeout (Some res))]) \<and>
    follows prompt h (park_start timeout now pt poll @ wake_events wks @ io_log src evs @ [RInbound (ReactorPark timeout (Some res))])"
proof -
  let ?pre = "park_start timeout now pt poll" and ?ws = "wake_events wks" and ?io = "io_log src evs"
  let ?h = "h @ ?pre" and ?h' = "(h @ ?pre) @ ?ws"
  have f1: "follows lawful h ?pre" "follows prompt h ?pre" "owed ?h = None"
    using o by (simp_all add: park_start_def prompt_def owed_none)
  have f2: "follows lawful ?h ?ws \<and> follows prompt ?h ?ws"
    using due f1(3) by (intro wake_events_follow) auto
  have "owed ?h' = None"
    using f1(3) by (cases wks rule: rev_cases) (auto intro: owed_none split: prod.splits)
  moreover have po: "park_open ?h' (tl ?pre @ ?ws)"
    using wake_events_not(3) [of wks] by (auto simp: park_open_def park_start_def)
  ultimately have f3: "follows lawful ?h' ?io \<and> follows prompt ?h' ?io \<and> owed (?h' @ ?io) = None"
    using src by (intro io_log_follow) (simp_all add: history_append)
  have "park_open (?h' @ ?io) (tl ?pre @ ?ws @ ?io)"
    using park_open_append [OF po io_log_not(3) [of src evs]] by simp
  moreover have "length (filter is_poll_events (tl ?pre @ ?ws @ ?io)) = 1"
    by (simp add: park_start_def wake_events_not(4) io_log_not(4))
  ultimately have "lawful (?h' @ ?io) (RInbound (ReactorPark timeout (Some res))) \<and>
      prompt (?h' @ ?io) (RInbound (ReactorPark timeout (Some res)))"
    using f3 by (auto simp: prompt_def park_start_def intro!: exI [of _ "tl ?pre @ ?ws @ ?io"])
  then show ?thesis using f1 f2 f3 by (simp add: follows_append)
qed

lemma park_timely:
  fixes timeout :: "u64 option" and now :: instant
  assumes ks: "distinct ks" "\<forall>k \<in> set ks. live_timers h k = Some (d k, w k)"
    and src: "dom src \<inter> timer_ids h = {}" "\<forall>k \<in> dom src. live_timers h k = None"
    and es: "es = park_start timeout now pt poll @ wake_events (map (\<lambda>k. (w k, k)) ks) @ io_log src evs @
      [RInbound (ReactorPark timeout (Some res))]"
  shows "follows timely h es \<and> live_timers (h @ es) = live_timers h |` (- set ks)"
proof -
  let ?pre = "park_start timeout now pt poll" and ?ws = "wake_events (map (\<lambda>k. (w k, k)) ks)"
  have lt: "live_timers (h @ ?pre) = live_timers h" by (simp add: history_append)
  have t: "follows timely (h @ ?pre) ?ws \<and> foldl note_timer (live_timers h) ?ws = live_timers h |` (- set ks)"
    using wake_events_timely [OF ks(1), of "h @ ?pre" d w] ks(2) lt by simp
  then have lt': "live_timers ((h @ ?pre) @ ?ws) = live_timers h |` (- set ks)" by (simp add: history_append)
  then have "follows timely ((h @ ?pre) @ ?ws) (io_log src evs) \<and>
      foldl note_timer (live_timers ((h @ ?pre) @ ?ws)) (io_log src evs) = live_timers ((h @ ?pre) @ ?ws)"
    using src by (intro io_log_timely) (auto simp: wake_events_not restrict_map_def simp del: map_map)
  moreover have "follows timely h ?pre" by (simp add: park_start_def)
  ultimately show ?thesis using t lt' unfolding es by (simp add: follows_append history_append)
qed

lemma park_logged:
  fixes r :: "'w reactor_thread"
  assumes ok: "reactor_ok r" and l: "logged r" and pd: "pending_deregister r = None"
    and p: "reactor_park S timeout r = (res, r')"
  shows "logged r'" "timer_logged r \<Longrightarrow> timer_logged r'"
proof -
  let ?now = "park_time S r" and ?w = "timer_waker r"
  obtain ks poll where sh: "distinct ks" "set ks = due_timers ?now r"
      "rlog r' = rlog r @ park_start timeout ?now (park_timeout S timeout r) poll @ wake_events (map (\<lambda>k. (?w k, k)) ks) @
        io_log (sources r) (park_events S timeout r) @ [RInbound (ReactorPark timeout (Some res))]"
      "elapsed (wheel r') = ?now" "pending_deregister r' = None" "next_resource_id r' = next_resource_id r"
      "timers r' = timers r |` (- due_timers ?now r)" "sources r' = sources r"
    using reactor_park_shape [OF ok pd p] by (auto simp: park_start_def)
  define wks where "wks = map (\<lambda>k. (?w k, k)) ks"
  note e = sh(3) [folded wks_def]
  note l' = l [unfolded logged_def]
  have due: "k \<in> timer_ids (rlog r) \<and> (\<exists>d. timers r k = Some (d, ?w k))" if "k \<in> set ks" for k
    using that l' sh(2) by (auto simp: due_timers_def timer_waker_def known_timers_def)
  have ends: "\<not> is_inbound_register_io_end e"
    if "e \<in> set (park_start timeout ?now (park_timeout S timeout r) poll @ wake_events wks @
      io_log (sources r) (park_events S timeout r) @ [RInbound (ReactorPark timeout (Some res))])" for e
    using that wake_events_not(5) [of wks] io_log_not(5) [of "sources r" "park_events S timeout r"]
    by (auto simp: park_start_def)
  show "logged r'"
  proof (rule logged_extend [OF l e])
    show "next_resource_id r' = u64_max \<or> follows answered (rlog r) (park_start timeout ?now (park_timeout S timeout r) poll @
        wake_events wks @ io_log (sources r) (park_events S timeout r) @ [RInbound (ReactorPark timeout (Some res))])"
      using ends answered_other by (intro disjI2 follows_all) blast
    show "follows lawful (rlog r) (park_start timeout ?now (park_timeout S timeout r) poll @ wake_events wks @
        io_log (sources r) (park_events S timeout r) @ [RInbound (ReactorPark timeout (Some res))])"
      "follows prompt (rlog r) (park_start timeout ?now (park_timeout S timeout r) poll @ wake_events wks @
        io_log (sources r) (park_events S timeout r) @ [RInbound (ReactorPark timeout (Some res))])"
      using park_follows [of "rlog r" "sources r" wks] l' due by (auto simp: wks_def)
    show "foldl note_time (latest (rlog r)) (park_start timeout ?now (park_timeout S timeout r) poll @ wake_events wks @
        io_log (sources r) (park_events S timeout r) @ [RInbound (ReactorPark timeout (Some res))]) \<le> elapsed (wheel r')"
      using l' sh(4) by (simp add: park_time_def le_max_iff_disj)
  qed (use l' e sh in \<open>auto simp: wake_events_not io_log_not note_simps owed_none known_timers_def restrict_map_def split: if_splits\<close>)
  show "timer_logged r'" if tl: "timer_logged r"
  proof -
    have lt: "live_timers (rlog r) = timers r" using tl by (simp add: timer_logged_def)
    define es where "es = park_start timeout ?now (park_timeout S timeout r) poll @ wake_events (map (\<lambda>k. (?w k, k)) ks) @
      io_log (sources r) (park_events S timeout r) @ [RInbound (ReactorPark timeout (Some res))]"
    have "\<forall>k \<in> set ks. live_timers (rlog r) k = Some (fst (the (timers r k)), ?w k)"
      using due lt by fastforce
    moreover have "dom (sources r) \<inter> timer_ids (rlog r) = {}"
      using ids_disjoint [of "rlog r"] live_syscalls_ids [of "rlog r"] l' by auto
    moreover have "\<forall>k \<in> dom (sources r). live_timers (rlog r) k = None"
      using not_both [of r] lt by fastforce
    ultimately have "follows timely (rlog r) es \<and> live_timers (rlog r @ es) = live_timers (rlog r) |` (- set ks)"
      by (rule park_timely [OF sh(1) _ _ _ es_def])
    then show ?thesis
      using tl sh(2,5,7) lt unfolding timer_logged_def sh(3) [folded es_def] by (simp add: always_append)
  qed
qed

section \<open>Runs\<close>

text \<open>
  The calls of \<open>Reactor\<close> itself, with what their callers ensure (the \<open>requires\<close> of the source): a
  deadline in the future, and an id of the right kind.
\<close>

inductive core_step :: "'w reactor_thread \<Rightarrow> 'w reactor_thread \<Rightarrow> bool" where
  core_register_timer: "elapsed (wheel r) < d \<Longrightarrow> register_timer d w r = (res, r') \<Longrightarrow> core_step r r'"
| core_deregister_timer: "timers r k \<noteq> None \<Longrightarrow> core_step r (deregister_timer k r)"
| core_register_io: "register_io_resource S src i r = (res, r') \<Longrightarrow> core_step r r'"
| core_deregister_io: "sources r k \<noteq> None \<Longrightarrow> deregister_io_resource S k src r = (res, r') \<Longrightarrow> core_step r r'"
| core_set_waker: "sources r k \<noteq> None \<Longrightarrow> set_waker k i w r = Some r' \<Longrightarrow> core_step r r'"
| core_park: "reactor_park S timeout r = (res, r') \<Longrightarrow> core_step r r'"

inductive core_run :: "'w reactor_thread \<Rightarrow> bool" where
  core_init: "core_run reactor_new"
| core_next: "core_run r \<Longrightarrow> core_step r r' \<Longrightarrow> core_run r'"

lemma core_step_logged:
  assumes "core_step r r'" "reactor_ok r" "logged r" "timer_logged r"
  shows "reactor_ok r' \<and> logged r' \<and> timer_logged r'"
proof -
  have pd: "pending_deregister r = None" using assms(4) by (simp add: timer_logged_def)
  from assms(1) show ?thesis
  proof cases
    case (core_register_timer d w res)
    then show ?thesis
      using register_timer_ok [OF assms(2), of d w res r'] register_timer_logged [OF assms(2,3), of d w res r'] assms(4) by simp
  next
    case (core_deregister_timer k)
    then have s: "sources r k = None" using not_both by blast
    have "deregister_timer k r = drop_timer k (log_in (DeregisterTimer k True) r)"
      by (simp add: deregister_timer_def drop_timer_def Let_def)
    then have "reactor_ok (deregister_timer k r)" using drop_timer_ok(1) [of "log_in (DeregisterTimer k True) r" k] assms(2) pd by simp
    then show ?thesis using core_deregister_timer deregister_timer_logged [OF assms(2,3) s pd] assms(4) by simp
  next
    case (core_register_io S src i res)
    then show ?thesis
      using register_io_ok [OF assms(2), of S src i res r'] register_io_logged [OF assms(2,3), of S src i res r'] assms(4) by simp
  next
    case (core_deregister_io k S src res)
    then show ?thesis
      using deregister_io_ok(1) [OF assms(2), of k S src res r'] deregister_io_logged [OF assms(2,3), of k S src res r'] assms(4) by simp
  next
    case (core_set_waker k i w)
    then have "reactor_ok r'" using set_waker_ok [OF assms(2), of k _ _ i w] by fastforce
    then show ?thesis using core_set_waker set_waker_logged [OF assms(2,3), of k i w r'] assms(4) by simp
  next
    case (core_park S timeout res)
    then have "reactor_ok r'" using reactor_park_ok [OF assms(2) pd] by blast
    then show ?thesis using core_park park_logged [OF assms(2,3) pd] assms(4) by blast
  qed
qed

lemma core_run_logged: "core_run r \<Longrightarrow> reactor_ok r \<and> logged r \<and> timer_logged r"
  by (induction rule: core_run.induct) (use reactor_ok_new logged_new core_step_logged in blast)+

text \<open>The calls of the handle layer keep the coupling of the I/O sources.\<close>

lemma handle_register_timer_logged:
  assumes ok: "reactor_ok r" and l: "logged r" and d: "elapsed (wheel r) < d" and e: "entered r"
    and h: "handle_register_timer d w r = Some (res, r')"
  shows "logged r'"
proof (cases "\<exists>rid. pending_deregister r = Some (rid, d)")
  case True
  then obtain rid where p: "pending_deregister r = Some (rid, d)" by blast
  have "resource_contains rid (resources r)"
    using pending_timer(1) [OF ok p] by (auto simp: resource_contains_def)
  then have r': "r' = r\<lparr>pending_deregister := None, resources := snd (replace_timer_waker rid w (resources r))\<rparr>"
    using h e p by (simp add: handle_register_timer_def with_current_reactor_def Let_def)
  note o = reuse_timer_ok [OF ok p r']
  have f: "rlog r' = rlog r" "next_resource_id r' = next_resource_id r" "elapsed (wheel r') = elapsed (wheel r)"
    "pending_deregister r' = None" by (simp_all add: r')
  have "known_timers r' \<subseteq> known_timers r" using p f o by (auto simp: known_timers_def)
  then show ?thesis using o f by (intro logged_cong [OF _ _ _ _ _ l]) simp_all
next
  case False
  let ?r1 = "flush_pending_deregister r"
  have "register_timer d w ?r1 = (res, r')"
    using h e False
    by (cases "pending_deregister r")
      (auto simp: handle_register_timer_def with_current_reactor_def flush_pending_deregister_def Let_def split: prod.splits)
  then show ?thesis
    using register_timer_logged(1) [OF flush_ok(1) [OF ok] logged_flush [OF l ok]] d flush_ok(6) [OF ok] by simp
qed

lemma handle_deregister_timer_logged:
  assumes ok: "reactor_ok r" and l: "logged r" and e: "entered r" and s: "sources r k = None"
    and h: "handle_deregister_timer k r = Some r'"
  shows "logged r'"
proof -
  let ?r1 = "flush_pending_deregister r"
  note f = flush_ok [OF ok]
  have r': "r' = (case get_deadline k (wheel ?r1) of
      Some d \<Rightarrow> ?r1\<lparr>pending_deregister := Some (k, d)\<rparr> | None \<Rightarrow> deregister_timer k ?r1)"
    using h e by (auto simp: handle_deregister_timer_def with_current_reactor_def flush_pending_deregister_def
        Let_def split: option.splits)
  show ?thesis
  proof (cases "get_deadline k (wheel ?r1)")
    case None
    then show ?thesis using deregister_timer_logged(1) [OF f(1) logged_flush [OF l ok] _ f(2)] s f(4) r' by simp
  next
    case (Some d)
    have "wheel_view (wheel ?r1) k = Some d" using Some by (simp add: get_deadline_def vm_get_view wheel_view_def)
    moreover have "table_ok (next_resource_id ?r1) (wheel_view (wheel ?r1)) (slot ?r1)" using f(1) by (simp add: reactor_ok_iff)
    ultimately have "k \<in> dom (timers ?r1)" using wheel_view_timers [OF _ f(2), of _ k] by auto
    moreover have "r' = ?r1\<lparr>pending_deregister := Some (k, d)\<rparr>" using r' Some by simp
    ultimately have "known_timers r' \<subseteq> known_timers ?r1" "rlog r' = rlog ?r1" "sources r' = sources ?r1"
      "next_resource_id r' = next_resource_id ?r1" "elapsed (wheel r') = elapsed (wheel ?r1)"
      by (auto simp: known_timers_def timers_def sources_def f(2) fun_eq_iff split: if_splits)
    then show ?thesis using logged_cong logged_flush [OF l ok] by blast
  qed
qed

lemma reactor_step_logged:
  assumes "reactor_step r c r'" "reactor_ok r" "entered r" "logged r"
  shows "logged r'"
  using assms(1)
proof cases
  case (step_register_timer d w res)
  then show ?thesis using handle_register_timer_logged [OF assms(2,4) _ assms(3)] by simp
next
  case (step_deregister_timer k)
  then show ?thesis using handle_deregister_timer_logged [OF assms(2,4,3)] by simp
next
  case (step_register_io S src i res)
  then show ?thesis
    using register_io_logged(1) assms(2-4) by (auto simp: handle_register_io_resource_def with_current_reactor_def)
next
  case (step_deregister_io k S src res)
  then show ?thesis
    using deregister_io_logged(1) [OF assms(2,4), of k] assms(3) by (auto simp: handle_deregister_io_resource_def with_current_reactor_def)
next
  case (step_set_waker k i w)
  then show ?thesis
    using set_waker_logged(1) [OF assms(2,4), of k] assms(3)
    by (auto simp: handle_set_waker_def with_current_reactor_def split: option.splits)
next
  case (step_park S t)
  obtain res where p: "reactor_park S (Some t) (flush_pending_deregister r) = (res, r')"
    using step_park(3) by (cases "reactor_park S (Some t) (flush_pending_deregister r)") (simp add: flush_and_park_def)
  then show ?thesis using park_logged(1) [OF flush_ok(1) logged_flush flush_ok(2)] assms(2,4) by blast
qed

lemma reactor_run_logged:
  assumes "reactor_run r cs r'" "reactor_ok r" "entered r" "logged r"
  shows "logged r'"
  using assms
proof induction
  case (run_nil r)
  then show ?case by simp
next
  case (run_snoc r cs r1 c r2)
  have "reactor_ok r1" "entered r1" using reactor_run_ok [OF run_snoc.hyps(1) run_snoc.prems(1,2)] by simp_all
  then show ?case using reactor_step_logged [OF run_snoc.hyps(2)] run_snoc.IH run_snoc.prems by simp
qed

lemma logged_start: "logged (reactor_enter reactor_new)"
proof -
  have f: "rlog (reactor_enter r) = rlog r" "pending_deregister (reactor_enter r) = pending_deregister r"
    "next_resource_id (reactor_enter r) = next_resource_id r" "wheel (reactor_enter r) = wheel r" for r :: "'w reactor_thread"
    by (simp_all add: reactor_enter_def)
  have t: "timers (reactor_enter r) = timers r" "sources (reactor_enter r) = sources r" for r :: "'w reactor_thread"
    by (rule reactor_ok_cong; simp add: reactor_enter_def)+
  show ?thesis by (rule logged_cong [OF _ _ _ _ _ logged_new(1)]) (simp_all add: f t known_timers_def)
qed

end
