(* ===== verification/Reactor_Log_Props.thy ===== *)
theory Reactor_Log_Props
  imports Reactor_Log_Inv
begin

text \<open>
  The properties of the reactor's log: the calls of \<open>Reactor\<close> keep R1 to R17; with the handle layer
  all but R5 and R16 hold, and runs that break these two; the unweakened R12 breaks when the ids
  run out.
\<close>

section \<open>The bridge between the anchors\<close>

lemma io_anchor_bridge_ext:
  assumes "reactor_ext_inv l"
  shows "io_anchor_bridge l"
  unfolding io_anchor_bridge_def
proof (intro conjI allI impI)
  fix i assume a: "io_api_registered_at l i"
  then have "register_io_result_valid l i" using assms by (simp add: reactor_ext_inv_def)
  moreover obtain s j k where e: "l ! i = RInbound (RegisterIoResource s j (Some (IoOk k)))"
    using a by (auto simp: io_api_registered_at_def is_succ_io_api_register_conv)
  ultimately obtain b n where b: "find_register_io_cycle_begin l i = Some b" "b < n" "n < i"
      "io_syscall_register_at l n"
      "inbound_result_matches_outbound_register (IoOk k) (get_outbound_register_io_result (l ! n)) (get_io_syscall_register_rid (l ! n))"
    by (auto simp: register_io_result_valid_def has_matching_outbound_register_def Let_def split: option.splits)
  obtain s' k' j' res where n: "n < length l" "l ! n = ROutbound (OsRegisterIoResource s' k' j' res)"
    using b(4) by (auto simp: io_syscall_register_at_def is_io_syscall_register_conv)
  then have "res = IoOk () \<and> k' = k" using b(5) by (cases res) simp_all
  then show "io_register_bridge_at l i"
    using b(1-3) n e by (auto simp: io_register_bridge_at_def io_syscall_registered_at_def intro!: exI [of _ n])
next
  fix i assume a: "io_api_deregistered_ok_at l i"
  then have "deregister_io_result_valid l i" using assms by (simp add: reactor_ext_inv_def io_api_deregistered_ok_at_def)
  then show "io_deregister_bridge_at l i"
    using a by (auto simp: io_api_deregistered_ok_at_def deregister_io_result_valid_def io_deregister_bridge_at_def
        has_matching_outbound_deregister_def Let_def split: option.splits)
qed

section \<open>A timer that is cancelled or taken over by the handle layer\<close>

lemma first_timer_log:
  fixes w :: 'w
  assumes "0 < d"
  obtains r where "reactor_run (reactor_enter reactor_new) [CRegisterTimer d w (IoOk 1)] r"
    "reactor_ok r" "entered r" "timers r = [1 \<mapsto> (d, w)]" "sources r = Map.empty" "elapsed (wheel r) = 0" "next_resource_id r = 2"
    "rlog r = [RInbound (RegisterTimer d w None), RInbound (RegisterTimer d w (Some (IoOk 1)))]"
proof -
  let ?r = "reactor_enter reactor_new :: 'w reactor_thread"
  have r: "next_resource_id ?r = 1" "pending_deregister ?r = None" "elapsed (wheel ?r) = 0" "rlog ?r = []"
    by (simp_all add: reactor_enter_def reactor_new_def wheel_new_def)
  then have lt: "elapsed (wheel ?r) < d" using assms by simp
  obtain r' where r': "register_timer d w ?r = (IoOk 1, r')"
      "rlog r' = [RInbound (RegisterTimer d w None), RInbound (RegisterTimer d w (Some (IoOk 1)))]"
      "elapsed (wheel r') = 0" "next_resource_id r' = 2"
    by (simp add: register_timer_def alloc_resource_id_def Let_def r word_le_nat_alt unat_u64_max)
  then have h: "handle_register_timer d w ?r = Some (IoOk 1, r')"
    using r(2) by (auto simp: handle_register_timer_def with_current_reactor_def reactor_ok_start)
  from step_register_timer [OF lt this] have "reactor_run ?r [CRegisterTimer d w (IoOk 1)] r'"
    by (simp add: reactor_run_single)
  moreover have "timers ?r = Map.empty" "sources ?r = Map.empty"
    using reactor_abs_start [where ?'a = 'w] by (simp_all add: reactor_abs_def)
  ultimately show ?thesis
    using that [of r'] handle_register_timer_ok [OF reactor_ok_start lt h] r'(2,3,4) by simp
qed

lemma cancelled_timer_log:
  fixes w :: 'w
  assumes "0 < d"
  obtains r where "reactor_run (reactor_enter reactor_new) [CRegisterTimer d w (IoOk 1), CDeregisterTimer 1] r"
    "reactor_ok r" "entered r" "timers r = Map.empty" "sources r = Map.empty" "elapsed (wheel r) = 0" "next_resource_id r = 2"
    "rlog r = [RInbound (RegisterTimer d w None), RInbound (RegisterTimer d w (Some (IoOk 1)))]"
    "\<And>w'. \<exists>r'. reactor_run (reactor_enter reactor_new)
        [CRegisterTimer d w (IoOk 1), CDeregisterTimer 1, CRegisterTimer d w' (IoOk 1)] r' \<and>
      reactor_ok r' \<and> entered r' \<and> timers r' = [1 \<mapsto> (d, w')] \<and> sources r' = Map.empty \<and>
      elapsed (wheel r') = 0 \<and> rlog r' = rlog r"
proof -
  obtain r where r: "reactor_run (reactor_enter reactor_new) [CRegisterTimer d w (IoOk 1)] r"
      "reactor_ok r" "entered r" "timers r = [1 \<mapsto> (d, w)]" "sources r = Map.empty" "elapsed (wheel r) = 0" "next_resource_id r = 2"
      "rlog r = [RInbound (RegisterTimer d w None), RInbound (RegisterTimer d w (Some (IoOk 1)))]"
    by (rule first_timer_log [OF assms])
  have t: "timers r 1 = Some (d, w)" using r(4) by simp
  let ?r1 = "(flush_pending_deregister r)\<lparr>pending_deregister := Some (1, d)\<rparr>"
  note r1 = handle_deregister_live [OF r(2,3) t]
  have s: "sources r 1 = None" using r(5) by simp
  note o = handle_deregister_timer_ok [OF r(2,3) s r1]
  have run: "reactor_run (reactor_enter reactor_new) [CRegisterTimer d w (IoOk 1), CDeregisterTimer 1] ?r1"
    using run_snoc [OF r(1) step_deregister_timer [OF s r1]] by simp
  have f: "rlog ?r1 = rlog r" "elapsed (wheel ?r1) = 0" "next_resource_id ?r1 = 2"
    using flush_ok(6-8) [OF r(2)] r(6,7) by simp_all
  have "\<exists>r'. reactor_run (reactor_enter reactor_new)
        [CRegisterTimer d w (IoOk 1), CDeregisterTimer 1, CRegisterTimer d w' (IoOk 1)] r' \<and>
      reactor_ok r' \<and> entered r' \<and> timers r' = [1 \<mapsto> (d, w')] \<and> sources r' = Map.empty \<and>
      elapsed (wheel r') = 0 \<and> rlog r' = rlog ?r1" for w'
  proof -
    obtain r' where r': "handle_register_timer d w' ?r1 = Some (IoOk 1, r')" "timers r' = (timers r)(1 \<mapsto> (d, w'))"
        "reactor_ok r'" "wheel r' = wheel (flush_pending_deregister r)" "rlog r' = rlog r"
      using timer_rearm [OF r(2,3) t, of w'] r1 by auto
    have lt: "elapsed (wheel ?r1) < d" using f(2) assms by simp
    have "reactor_run (reactor_enter reactor_new)
        [CRegisterTimer d w (IoOk 1), CDeregisterTimer 1, CRegisterTimer d w' (IoOk 1)] r'"
      using run_snoc [OF run step_register_timer [OF lt r'(1)]] by simp
    moreover note handle_register_timer_ok [OF o(1,4) lt r'(1)]
    ultimately show ?thesis using r' f r(4,5) o(3) by (intro exI [of _ r']) simp
  qed
  then show ?thesis using that [of ?r1] run o f r by simp
qed

text \<open>The log of the park that follows, without sources.\<close>

lemma lone_park_log:
  assumes ok: "reactor_ok r" "entered r" and s: "sources r = Map.empty" and e: "elapsed (wheel r) = 0"
    and run: "reactor_run (reactor_enter reactor_new) cs r"
  obtains r' ks x res evs to where "reactor_run (reactor_enter reactor_new) (cs @ [CPark S t]) r'"
    "distinct ks" "set ks = {k. \<exists>d w. timers r k = Some (d, w) \<and> d \<le> os_now S}"
    "rlog r' = rlog r @ [RInbound (ReactorPark (Some t) None), ROutbound (GetCurrentTime (os_now S)), ROutbound (PollEvents to x)] @
       wake_events (map (\<lambda>k. (timer_waker r k, k)) ks) @ map (\<lambda>e. ROutbound (IoEventReady e)) evs @
       [RInbound (ReactorPark (Some t) (Some res))]"
proof -
  let ?f = "flush_pending_deregister r"
  note f = flush_ok [OF ok(1)]
  obtain res r' where p: "reactor_park S (Some t) ?f = (res, r')" by fastforce
  have now: "park_time S ?f = os_now S" using f(6) e by (simp add: park_time_def)
  have io: "io_log Map.empty evs = map (\<lambda>e. ROutbound (IoEventReady e)) evs" for evs
    by (induction evs) (auto split: io_mode.splits)
  have "reactor_step r (CPark S t) r'" using p ok(2) by (intro step_park) (simp_all add: flush_and_park_def)
  note run' = run_snoc [OF run this]
  obtain ks poll where ks: "distinct ks" "set ks = due_timers (os_now S) ?f"
      "rlog r' = rlog ?f @ [RInbound (ReactorPark (Some t) None), ROutbound (GetCurrentTime (os_now S)),
        ROutbound (PollEvents (park_timeout S (Some t) ?f) poll)] @ wake_events (map (\<lambda>k. (timer_waker ?f k, k)) ks) @
        io_log (sources ?f) (park_events S (Some t) ?f) @ [RInbound (ReactorPark (Some t) (Some res))]"
    using reactor_park_shape [OF f(1,2) p] unfolding now by blast
  have d: "timer_waker ?f = timer_waker r" "due_timers (os_now S) ?f = {k. \<exists>d w. timers r k = Some (d, w) \<and> d \<le> os_now S}"
    using f(3) by (auto simp: timer_waker_def due_timers_def fun_eq_iff)
  show ?thesis by (rule that [OF run' ks(1) ks(2) [unfolded d] ks(3) [unfolded d f(4,7) s io]])
qed

lemma not_wakes:
  assumes "\<forall>e \<in> set l. \<not> is_wake_task e"
  shows "\<not> is_wake_task_at l i"
  using assms by (auto simp: is_wake_task_at_def)

text \<open>A log with a registration, a clock reading past its deadline, no wake and no cancellation.\<close>

lemma expired_unwoken:
  fixes l :: "'w rlog"
  assumes l: "l = RInbound (RegisterTimer d w None) # RInbound (RegisterTimer d w (Some (IoOk k))) #
      RInbound (ReactorPark t None) # ROutbound (GetCurrentTime now) # es"
    and d: "d \<le> now" and es: "\<forall>e \<in> set es. \<not> is_wake_task e \<and> \<not> is_succ_deregister_timer e"
  shows "\<not> local_liveness_satisfied wake_on_expired l"
proof -
  have w: "\<not> is_wake_task_at l i" for i using not_wakes [of l i] es by (auto simp: l)
  have dr: "\<not> is_succ_deregister_timer_at l i" for i
    using es by (auto simp: is_succ_deregister_timer_at_def l nth_Cons split: nat.splits dest: nth_mem)
  have ret: "\<not> timer_retired_at l rid j" for rid j using w dr by (auto simp: timer_retired_at_def)
  have r: "is_succ_register_timer_at l 1" by (simp add: is_succ_register_timer_at_def l)
  have a: "timer_active_at l 1 j" if "1 < j" for j using r ret that by (simp add: timer_active_at_def)
  have "has_timeout_point_at l 1 3"
    using a [of 3] d by (simp add: has_timeout_point_at_def is_get_current_time_at_def l)
  moreover have "3 \<in> set [Suc 1 ..< length l]" by (simp only: set_upt l) simp
  ultimately have "first_timeout_point_rec l 1 \<noteq> None"
    unfolding first_timeout_point_rec_def find_None_iff by blast
  moreover have "timer_awaiting_wake l 1" using r a w by (simp add: timer_awaiting_wake_def) (simp add: l)
  ultimately have "ll_acceptance wake_on_expired l 1" using r by (simp add: wake_on_expired_def)
  moreover have "\<not> ll_fulfillment wake_on_expired l 1 j" for j using w by (simp add: wake_on_expired_def)
  ultimately show ?thesis by (auto simp: local_liveness_satisfied_def)
qed

text \<open>A log where the only registration of a timer carries another waker than the wake.\<close>

lemma woken_with_other:
  fixes l :: "'w rlog"
  assumes l: "l = RInbound (RegisterTimer d w None) # RInbound (RegisterTimer d w (Some (IoOk k))) #
      RInbound (ReactorPark t None) # ROutbound (GetCurrentTime now) # ROutbound (PollEvents to x) #
      ROutbound (WakeTask w' k) # es" and w: "w' \<noteq> w"
  shows "\<not> action_safety_satisfied timer_waker_validity l"
proof -
  have r: "is_succ_register_timer_at l 1" by (simp add: is_succ_register_timer_at_def l)
  have "\<not> timer_retired_at l k j" if "1 < j" "j < 5" for j
  proof -
    have "j \<in> {2, 3, 4}" using that by auto
    then show ?thesis by (auto simp: timer_retired_at_def is_succ_deregister_timer_at_def is_wake_task_at_def l)
  qed
  then have "timer_active_at l 1 5" using r by (simp add: timer_active_at_def l)
  then have a: "is_timer_wake_at l 5"
    using r by (auto simp: is_timer_wake_at_def is_wake_task_at_def l intro!: exI [of _ 1])
  have "\<not> (is_succ_register_timer_at l j \<and> get_register_timer_waker (l ! j) = w')" if "j < 5" for j
  proof -
    have "j \<in> {0, 1, 2, 3, 4}" using that by auto
    then show ?thesis using w by (auto simp: is_succ_register_timer_at_def l)
  qed
  then have "\<not> timer_waker_valid_at l 5" by (auto simp: timer_waker_valid_at_def l)
  then show ?thesis using a by (auto simp: action_safety_satisfied_def timer_waker_validity_def)
qed

text \<open>
  R12 for every return, the form the liveness proof assumes: it fails when the ids have run out,
  because the error of the allocation is returned without a system call.
\<close>

lemma overflow_unmatched:
  assumes "next_resource_id r = u64_max" "register_io_resource S src i r = (res, r')"
  shows "\<not> action_safety_satisfied inbound_register_io_result (rlog r')"
proof -
  have "rlog r' = rlog r @ [RInbound (RegisterIoResource src i None),
      RInbound (RegisterIoResource src i (Some (IoErr resource_id_overflow)))]"
    using assms by (auto simp: register_io_resource_def alloc_resource_id_def log_in_def Let_def)
  then have "is_inbound_register_io_end_at (rlog r') (Suc (length (rlog r)))"
    "find_register_io_cycle_begin (rlog r') (Suc (length (rlog r))) = Some (length (rlog r))"
    by (simp_all add: rlog_at_defs find_register_io_cycle_begin_def nth_append)
  then have "\<not> register_io_result_valid (rlog r') (Suc (length (rlog r)))"
    by (auto simp: register_io_result_valid_def has_matching_outbound_register_def Let_def)
  then show ?thesis
    using \<open>is_inbound_register_io_end_at _ _\<close> by (auto simp: action_safety_satisfied_def inbound_register_io_result_def)
qed

section \<open>Properties\<close>

text \<open>
  C18: Whatever calls are made on a new \<open>Reactor\<close>, its log satisfies the conditions R1 to R17 of its
  specification in the form the reactor proves them (R12 for successful returns): the safety and liveness invariant, the external assumptions, and the allocation
  invariant, which bounds every id in the log by the counter.  Every successful call contains its
  system call, the bridge between the two anchors of the I/O conditions.  The invariant the liveness
  proof starts from, anchored at the system calls, holds as well, all sixteen safety conditions and
  the three liveness conditions of it, as long as the resource ids have not run out; when they have,
  R12 for every return, one of the sixteen, is no longer promised, because the error of the
  allocation is returned without a system call (\<open>overflow_unmatched\<close>), and the fifteen others and
  the liveness conditions still hold.
\<close>

theorem reactor_log_invariants:
  assumes "core_run r"
  shows "reactor_wf (rlog r) (unat (next_resource_id r)) \<and> io_anchor_bridge (rlog r) \<and>
    (next_resource_id r \<noteq> u64_max \<longrightarrow> liveness_reactor_inv (rlog r)) \<and>
    syscall_anchored_inv (rlog r) \<and> action_safety_satisfied timer_waker_validity (rlog r) \<and> liveness_local_inv (rlog r)"
proof -
  from core_run_logged [OF assms] have r: "reactor_ok r" "logged r" "timer_logged r" by simp_all
  note wf = logged_wf [OF r(2,1)] timer_logged_wf [OF r(2,3,1)]
  then have "liveness_local_inv (rlog r)" by (simp add: syscall_anchored_inv_def liveness_local_inv_def)
  then show ?thesis
    using wf io_anchor_bridge_ext
    by (simp add: reactor_wf_def reactor_inv_def reactor_safety_inv_def reactor_liveness_inv_def liveness_reactor_inv_split)
qed

theorem reactor_log_invariants_witness:
  "\<exists>r :: nat reactor_thread. core_run r \<and> length (rlog r) = 5 \<and>
     reactor_wf (rlog r) (unat (next_resource_id r)) \<and> io_anchor_bridge (rlog r) \<and> liveness_reactor_inv (rlog r)"
proof -
  obtain r1 where r1: "register_timer 5 (42 :: nat) reactor_new = (IoOk 1, r1)"
      "length (rlog r1) = 2" "next_resource_id r1 = 2"
    by (simp add: register_timer_def alloc_resource_id_def Let_def reactor_new_def word_le_nat_alt unat_u64_max)
  have "core_step reactor_new r1"
    using r1(1) by (intro core_register_timer [of reactor_new 5 42 "IoOk 1"]) (simp_all add: reactor_new_def wheel_new_def)
  with core_init have c1: "core_run r1" by (rule core_next)
  obtain r2 where r2: "register_io_resource (idle_os 7) 3 \<lparr>readable = True, writable = False\<rparr> r1 = (IoOk 2, r2)"
      "length (rlog r2) = 5" "next_resource_id r2 = 3"
    using r1(2,3)
    by (simp add: register_io_resource_def register_io_source_action_def alloc_resource_id_def Let_def idle_os_def
        word_le_nat_alt unat_u64_max)
  have "core_run r2" by (rule core_next [OF c1 core_register_io [OF r2(1)]])
  moreover have "next_resource_id r2 \<noteq> u64_max" using r2(3) by simp
  moreover note r2(2) reactor_log_invariants [OF \<open>core_run r2\<close>]
  ultimately show ?thesis by blast
qed

text \<open>
  C19: With the handle layer on top, whose timers are taken over and cancelled without an entry, a
  run from a fresh thread keeps every condition of the reactor except R5 and R16: the I/O conditions,
  the wakes on I/O events, the external assumptions and the allocation invariant.  Of the invariant
  the liveness proof starts from, anchored at the system calls, it keeps every condition except R5,
  R16 and, once the resource ids have run out, R12; while ids last it keeps R12 too.
\<close>

theorem handle_log_invariants:
  assumes "reactor_run (reactor_enter reactor_new) cs r"
  shows "reactor_io_inv (rlog r) \<and> reactor_wake_inv (rlog r) \<and> reactor_ext_inv (rlog r) \<and>
    alloc_inv (rlog r) (unat (next_resource_id r)) \<and> syscall_anchored_inv (rlog r) \<and>
    (next_resource_id r \<noteq> u64_max \<longrightarrow> action_safety_satisfied inbound_register_io_result (rlog r))"
proof -
  note s = reactor_ok_start
  have "logged r" by (rule reactor_run_logged [OF assms s logged_start])
  moreover have "reactor_ok r" using reactor_run_ok [OF assms s] by simp
  ultimately show ?thesis using logged_wf by blast
qed

theorem handle_log_invariants_witness:
  "\<exists>r. reactor_run (reactor_enter reactor_new) [CRegisterTimer 5 (42 :: nat) (IoOk 1), CDeregisterTimer 1] r \<and>
     reactor_io_inv (rlog r) \<and> reactor_ext_inv (rlog r) \<and> action_safety_satisfied inbound_register_io_result (rlog r)"
proof -
  obtain r where r: "reactor_run (reactor_enter reactor_new) [CRegisterTimer 5 (42 :: nat) (IoOk 1), CDeregisterTimer 1] r"
      "next_resource_id r = 2"
    by (rule cancelled_timer_log [of 5 42]) simp_all
  have "next_resource_id r \<noteq> u64_max" using r(2) by simp
  with handle_log_invariants [OF r(1)] r show ?thesis by blast
qed

text \<open>
  C20: R5 and R16 do not survive the handle layer.  Cancelling the only timer and parking past its
  deadline leaves a log in which the timer is registered, expired and never woken, against R16;
  registering a timer of the same deadline with another waker before the park takes the slot over
  and leaves a log in which the task woken is not the one registered, against R5.
\<close>

theorem handle_layer_unlogged:
  assumes "0 < d" "d \<le> os_now S" "w \<noteq> w'"
  shows "(\<exists>r. reactor_run (reactor_enter reactor_new)
       [CRegisterTimer d w (IoOk 1), CDeregisterTimer 1, CPark S t] r \<and>
      \<not> local_liveness_satisfied wake_on_expired (rlog r)) \<and>
    (\<exists>r. reactor_run (reactor_enter reactor_new)
       [CRegisterTimer d w (IoOk 1), CDeregisterTimer 1, CRegisterTimer d w' (IoOk 1), CPark S t] r \<and>
      \<not> action_safety_satisfied timer_waker_validity (rlog r))"
proof -
  obtain r where r: "reactor_run (reactor_enter reactor_new) [CRegisterTimer d w (IoOk 1), CDeregisterTimer 1] r"
      "reactor_ok r" "entered r" "timers r = Map.empty" "sources r = Map.empty" "elapsed (wheel r) = 0"
      "rlog r = [RInbound (RegisterTimer d w None), RInbound (RegisterTimer d w (Some (IoOk 1)))]"
    and "\<exists>r'. reactor_run (reactor_enter reactor_new)
        [CRegisterTimer d w (IoOk 1), CDeregisterTimer 1, CRegisterTimer d w' (IoOk 1)] r' \<and>
      reactor_ok r' \<and> entered r' \<and> timers r' = [1 \<mapsto> (d, w')] \<and> sources r' = Map.empty \<and>
      elapsed (wheel r') = 0 \<and> rlog r' = rlog r"
    using cancelled_timer_log [OF assms(1), of w] by metis
  then obtain r' where r': "reactor_run (reactor_enter reactor_new)
        [CRegisterTimer d w (IoOk 1), CDeregisterTimer 1, CRegisterTimer d w' (IoOk 1)] r'"
      "reactor_ok r'" "entered r'" "timers r' = [1 \<mapsto> (d, w')]" "sources r' = Map.empty"
      "elapsed (wheel r') = 0" "rlog r' = rlog r" by blast
  obtain q ks x res evs to where q: "reactor_run (reactor_enter reactor_new)
        ([CRegisterTimer d w (IoOk 1), CDeregisterTimer 1] @ [CPark S t]) q"
      "distinct ks" "set ks = {k. \<exists>d w. timers r k = Some (d, w) \<and> d \<le> os_now S}"
      "rlog q = rlog r @ [RInbound (ReactorPark (Some t) None), ROutbound (GetCurrentTime (os_now S)),
         ROutbound (PollEvents to x)] @ wake_events (map (\<lambda>k. (timer_waker r k, k)) ks) @
         map (\<lambda>e. ROutbound (IoEventReady e)) evs @ [RInbound (ReactorPark (Some t) (Some res))]"
    by (rule lone_park_log [OF r(2,3,5,6,1)])
  have "ks = []" using q(3) r(4) by simp
  then have "\<not> local_liveness_satisfied wake_on_expired (rlog q)"
    by (intro expired_unwoken [OF _ assms(2)]) (auto simp: q(4) r(7))
  moreover obtain q' ks x res evs to where q': "reactor_run (reactor_enter reactor_new)
        ([CRegisterTimer d w (IoOk 1), CDeregisterTimer 1, CRegisterTimer d w' (IoOk 1)] @ [CPark S t]) q'"
      "distinct ks" "set ks = {k. \<exists>d w. timers r' k = Some (d, w) \<and> d \<le> os_now S}"
      "rlog q' = rlog r' @ [RInbound (ReactorPark (Some t) None), ROutbound (GetCurrentTime (os_now S)),
         ROutbound (PollEvents to x)] @ wake_events (map (\<lambda>k. (timer_waker r' k, k)) ks) @
         map (\<lambda>e. ROutbound (IoEventReady e)) evs @ [RInbound (ReactorPark (Some t) (Some res))]"
    by (rule lone_park_log [OF r'(2,3,5,6,1)])
  have "set ks = {1}" using q'(3) r'(4) assms(2) by auto
  then have "ks = [1]" using q'(2) by (cases ks; cases "tl ks") auto
  then have "\<not> action_safety_satisfied timer_waker_validity (rlog q')"
    using r'(4) assms(3)
    by (intro woken_with_other [of _ d w 1 "Some t" "os_now S" to x w']) (auto simp: q'(4) r'(7) r(7) timer_waker_def)
  ultimately show ?thesis using q(1) q'(1) by auto
qed

theorem handle_layer_unlogged_witness:
  "\<exists>r. reactor_run (reactor_enter reactor_new)
     [CRegisterTimer 5 (42 :: nat) (IoOk 1), CDeregisterTimer 1, CPark (idle_os 7) 10] r \<and>
    \<not> local_liveness_satisfied wake_on_expired (rlog r)"
  using handle_layer_unlogged [of 5 "idle_os 7" "42 :: nat" 43 10] by (auto simp: idle_os_def)

end
