(* ===== verification/Join_Handle.thy ===== *)
theory Join_Handle
  imports Prelude
begin

text \<open>
  Join handles: model of \<^verbatim>\<open>lion-executor/src/types/join_handle.rs\<close> and of the wrapping of a future in
  \<^verbatim>\<open>lion-executor/src/types/boxed_future.rs\<close>.  A handle and its sender share one \<open>JoinState\<close>, the record
  \<open>join_state\<close>, behind a mutex, so an operation is a section under the lock.  The handle is the
  interface between whoever runs a piece of work (a task of the executor, a closure of the blocking
  pool) and whoever waits for it: the locale \<open>result_slot\<close>.
\<close>

section \<open>State and operations\<close>

record ('t, 'w) join_state =
  jresult :: "'t option"
  jwaker :: "'w option"

datatype 't join_poll = JoinReady 't | JoinPending

definition join_new :: "('t, 'w) join_state" where
  "join_new = \<lparr>jresult = None, jwaker = None\<rparr>"

definition join_abort :: "('t, 'w) join_state \<Rightarrow> ('t, 'w) join_state" where
  "join_abort s = s"

text \<open>The handle's poll takes the result out; it never answers \<open>Err(JoinError)\<close>.\<close>

definition join_poll :: "'w \<Rightarrow> ('t, 'w) join_state \<Rightarrow> ('t, 'w) join_state \<times> 't join_poll" where
  "join_poll w s =
     (case jresult s of
        Some r \<Rightarrow> (s\<lparr>jresult := None\<rparr>, JoinReady r)
      | None \<Rightarrow> (s\<lparr>jwaker := Some w\<rparr>, JoinPending))"

text \<open>The sender's \<open>complete\<close>, which consumes it, with the waker it wakes.\<close>

definition join_complete :: "'t \<Rightarrow> ('t, 'w) join_state \<Rightarrow> ('t, 'w) join_state \<times> 'w option" where
  "join_complete r s =
     (let s1 = s\<lparr>jresult := Some r\<rparr>
      in case jwaker s1 of
           Some w \<Rightarrow> (s1\<lparr>jwaker := None\<rparr>, Some w)
         | None \<Rightarrow> (s1, None))"

text \<open>
  \<open>BoxedFuture::with_join_sender\<close>: the future a task holds polls the spawned future and, when that is
  ready, completes the handle.  The spawned future is its poll, a function of its state.
\<close>

definition boxed_poll ::
  "('f \<Rightarrow> 'f \<times> 't option) \<Rightarrow> 'f \<Rightarrow> ('t, 'w) join_state \<Rightarrow> 'f \<times> ('t, 'w) join_state \<times> 'w option \<times> bool" where
  "boxed_poll poll f s =
     (case poll f of
        (f1, Some r) \<Rightarrow> (case join_complete r s of (s1, w) \<Rightarrow> (f1, s1, w, True))
      | (f1, None) \<Rightarrow> (f1, s, None, False))"

section \<open>The interface\<close>

datatype ('t, 'w) slot_op = SlotPoll 'w | SlotComplete 't

datatype ('t, 'w) slot_out = OutReady 't | OutPending | OutWoke "'w option"

text \<open>The calls on a slot, for any implementation of the two operations.\<close>

fun slot_step :: "('w \<Rightarrow> 's \<Rightarrow> 's \<times> 't join_poll) \<Rightarrow> ('t \<Rightarrow> 's \<Rightarrow> 's \<times> 'w option) \<Rightarrow>
    ('t, 'w) slot_op \<Rightarrow> 's \<Rightarrow> 's \<times> ('t, 'w) slot_out" where
  "slot_step poll complete (SlotPoll w) s =
     (case poll w s of (s1, JoinReady r) \<Rightarrow> (s1, OutReady r) | (s1, JoinPending) \<Rightarrow> (s1, OutPending))"
| "slot_step poll complete (SlotComplete r) s = (case complete r s of (s1, w) \<Rightarrow> (s1, OutWoke w))"

primrec slot_run :: "('w \<Rightarrow> 's \<Rightarrow> 's \<times> 't join_poll) \<Rightarrow> ('t \<Rightarrow> 's \<Rightarrow> 's \<times> 'w option) \<Rightarrow>
    ('t, 'w) slot_op list \<Rightarrow> 's \<Rightarrow> 's \<times> ('t, 'w) slot_out list" where
  "slot_run poll complete [] s = (s, [])"
| "slot_run poll complete (op # ops) s =
     (case slot_step poll complete op s of (s1, out) \<Rightarrow>
        (case slot_run poll complete ops s1 of (s2, outs) \<Rightarrow> (s2, out # outs)))"

lemma slot_run_append:
  "slot_run p c (a @ b) s = (case slot_run p c a s of (s1, xs) \<Rightarrow> (case slot_run p c b s1 of (s2, ys) \<Rightarrow> (s2, xs @ ys)))"
  by (induction a arbitrary: s) (auto split: prod.splits)

locale result_slot =
  fixes new :: "'s"
    and poll :: "'w \<Rightarrow> 's \<Rightarrow> 's \<times> 't join_poll"
    and complete :: "'t \<Rightarrow> 's \<Rightarrow> 's \<times> 'w option"
    and held :: "'s \<Rightarrow> 't option"
    and listener :: "'s \<Rightarrow> 'w option"
  assumes new_laws: "held new = None" "listener new = None"
    and poll_held: "held s = Some r \<Longrightarrow> snd (poll w s) = JoinReady r \<and> held (fst (poll w s)) = None"
    and poll_empty: "held s = None \<Longrightarrow> snd (poll w s) = JoinPending \<and> held (fst (poll w s)) = None \<and>
      listener (fst (poll w s)) = Some w"
    and complete_laws: "held (fst (complete r s)) = Some r" "snd (complete r s) = listener s"
      "listener (fst (complete r s)) = None"
begin

text \<open>Polls of an empty slot pend, and the last of them listens.\<close>

lemma polls_pend:
  assumes "held s = None"
  shows "snd (slot_run poll complete (map SlotPoll ws) s) = replicate (length ws) OutPending"
    and "held (fst (slot_run poll complete (map SlotPoll ws) s)) = None"
    and "listener (fst (slot_run poll complete (map SlotPoll ws) s)) = (if ws = [] then listener s else Some (last ws))"
proof -
  have "snd (slot_run poll complete (map SlotPoll ws) s) = replicate (length ws) OutPending \<and>
      held (fst (slot_run poll complete (map SlotPoll ws) s)) = None \<and>
      listener (fst (slot_run poll complete (map SlotPoll ws) s)) = (if ws = [] then listener s else Some (last ws))"
    using assms
  proof (induction ws arbitrary: s)
    case (Cons w ws)
    obtain s1 where s1: "poll w s = (s1, JoinPending)" "held s1 = None" "listener s1 = Some w"
      using poll_empty [OF Cons.prems, of w] by (cases "poll w s") simp
    show ?case using Cons.IH [OF s1(2)] s1 by (auto split: prod.splits)
  qed simp
  then show "snd (slot_run poll complete (map SlotPoll ws) s) = replicate (length ws) OutPending"
    and "held (fst (slot_run poll complete (map SlotPoll ws) s)) = None"
    and "listener (fst (slot_run poll complete (map SlotPoll ws) s)) = (if ws = [] then listener s else Some (last ws))" by simp_all
qed

text \<open>
  The whole life of a slot: polls pend until the work completes, the completion wakes the waker of
  the last of them, the first poll after it gets the result, and the others pend again.
\<close>

lemma slot_life:
  "snd (slot_run poll complete (map SlotPoll ws @ SlotComplete r # map SlotPoll vs) new) =
     replicate (length ws) OutPending @ OutWoke (if ws = [] then None else Some (last ws)) #
     (case vs of [] \<Rightarrow> [] | v # vs' \<Rightarrow> OutReady r # replicate (length vs') OutPending)"
proof -
  define s where "s = fst (slot_run poll complete (map SlotPoll ws) new)"
  have l: "listener s = (if ws = [] then None else Some (last ws))"
    unfolding s_def using polls_pend(3) [OF new_laws(1), of ws] new_laws(2) by simp
  obtain s1 where s1: "complete r s = (s1, listener s)" "held s1 = Some r"
    using complete_laws(1,2) [of r s] by (cases "complete r s") simp
  have v: "snd (slot_run poll complete (map SlotPoll vs) s1) =
      (case vs of [] \<Rightarrow> [] | v # vs' \<Rightarrow> OutReady r # replicate (length vs') OutPending)"
  proof (cases vs)
    case (Cons v vs')
    obtain s2 where "poll v s1 = (s2, JoinReady r)" "held s2 = None"
      using poll_held [OF s1(2), of v] by (cases "poll v s1") simp
    then show ?thesis using Cons polls_pend(1) [of s2 vs'] by (auto split: prod.splits)
  qed simp
  have "snd (slot_run poll complete (map SlotPoll ws) new) = replicate (length ws) OutPending"
    by (rule polls_pend(1) [OF new_laws(1)])
  then show ?thesis
    using v s1 l s_def by (auto simp: slot_run_append split: prod.splits)
qed

end

interpretation js: result_slot join_new join_poll join_complete jresult jwaker
  by unfold_locales (auto simp: join_new_def join_poll_def join_complete_def Let_def split: option.splits)

section \<open>Properties\<close>

text \<open>
  The life of a join handle.  However often it is polled before the work completes, every poll
  pends, and the completion wakes exactly the waker of the last of them; the first poll after the
  completion gets the result, and every later one pends.
\<close>

theorem join_handle_life:
  "snd (slot_run join_poll join_complete (map SlotPoll ws @ SlotComplete r # map SlotPoll vs) join_new) =
     replicate (length ws) OutPending @ OutWoke (if ws = [] then None else Some (last ws)) #
     (case vs of [] \<Rightarrow> [] | v # vs' \<Rightarrow> OutReady r # replicate (length vs') OutPending)"
  by (rule js.slot_life)

end
