(* ===== verification/Blocking.thy ===== *)
theory Blocking
  imports Join_Handle
begin

text \<open>
  The pool of blocking threads: model of \<^verbatim>\<open>lion-executor/src/blocking.rs\<close>.  A worker is a thread
  that pops closures off its queue and parks when it finds none; \<open>spawn\<close> picks a queue in turn,
  pushes a closure and unparks the worker.  Callers on several threads and the workers interleave,
  so \<open>spawn\<close> is split into the four accesses it makes to shared state (the cell \<open>next\<close> is read and
  written separately, without a lock), and a worker into its pop, the run of a closure and its park.
  The park token is that of \<^verbatim>\<open>std::thread\<close>: \<open>unpark\<close> sets it, \<open>park\<close> returns when it is set and
  takes it, or for no reason.  What a closure returns, or that it panics, is chosen by the
  environment when it ends.  A call of \<open>spawn\<close>, its sender and its handle share one index.
\<close>

section \<open>State\<close>

datatype blocking_task = Task (task_sender: nat)

datatype worker_phase = Popping | Running nat | AtPark | Dead

record pool_worker =
  wqueue :: "blocking_task list"
  wtoken :: bool
  wphase :: worker_phase

datatype spawn_phase =
    ReadNext
  | SetNext nat
  | PushTask nat
  | UnparkWorker nat
  | SpawnReturned
  | SpawnPanicked

datatype ('t, 'w) pool_event =
    Pushed nat nat
  | Started nat nat
  | SlotUsed nat "('t, 'w) slot_op" "('t, 'w) slot_out"

record ('t, 'w) blocking =
  workers :: "pool_worker list"
  next_worker :: nat
  joins :: "('t, 'w) join_state list"
  callers :: "spawn_phase list"
  plog :: "('t, 'w) pool_event list"

definition pool_worker_new :: pool_worker where
  "pool_worker_new = \<lparr>wqueue = [], wtoken = False, wphase = Popping\<rparr>"

definition pool_new :: "nat \<Rightarrow> ('t, 'w) blocking" where
  "pool_new num_threads =
     \<lparr>workers = replicate num_threads pool_worker_new, next_worker = 0, joins = [], callers = [], plog = []\<rparr>"

text \<open>The size of the global pool: the environment variable if it parses, else the parallelism.\<close>

definition global_pool_size :: "nat option \<Rightarrow> nat option \<Rightarrow> nat" where
  "global_pool_size var parallelism =
     (case var of Some n \<Rightarrow> n | None \<Rightarrow> (case parallelism of Some n \<Rightarrow> n | None \<Rightarrow> 4))"

section \<open>Operations\<close>

definition upd_worker :: "nat \<Rightarrow> (pool_worker \<Rightarrow> pool_worker) \<Rightarrow> ('t, 'w) blocking \<Rightarrow> ('t, 'w) blocking" where
  "upd_worker i f b = b\<lparr>workers := (workers b)[i := f (workers b ! i)]\<rparr>"

definition caller_goes :: "nat \<Rightarrow> spawn_phase \<Rightarrow> ('t, 'w) blocking \<Rightarrow> ('t, 'w) blocking" where
  "caller_goes c ph b = b\<lparr>callers := (callers b)[c := ph]\<rparr>"

definition note_event :: "('t, 'w) pool_event \<Rightarrow> ('t, 'w) blocking \<Rightarrow> ('t, 'w) blocking" where
  "note_event e b = b\<lparr>plog := plog b @ [e]\<rparr>"

definition use_slot :: "nat \<Rightarrow> ('t, 'w) slot_op \<Rightarrow> ('t, 'w) blocking \<Rightarrow> ('t, 'w) blocking" where
  "use_slot j op b =
     (case slot_step join_poll join_complete op (joins b ! j) of
        (s, out) \<Rightarrow> note_event (SlotUsed j op out) (b\<lparr>joins := (joins b)[j := s]\<rparr>))"

text \<open>\<open>spawn\<close>: a handle and its sender are made; then one access after the other.\<close>

definition spawn_call :: "('t, 'w) blocking \<Rightarrow> ('t, 'w) blocking" where
  "spawn_call b = b\<lparr>joins := joins b @ [join_new], callers := callers b @ [ReadNext]\<rparr>"

definition spawn_step :: "nat \<Rightarrow> ('t, 'w) blocking \<Rightarrow> ('t, 'w) blocking option" where
  "spawn_step c b =
     (case callers b ! c of
        ReadNext \<Rightarrow>
          (let n = length (workers b)
           in Some (if n = 0 then caller_goes c SpawnPanicked b
                    else caller_goes c (SetNext (next_worker b mod n)) b))
      | SetNext i \<Rightarrow> Some (caller_goes c (PushTask i) (b\<lparr>next_worker := i + 1\<rparr>))
      | PushTask i \<Rightarrow>
          Some (caller_goes c (UnparkWorker i) (note_event (Pushed i c)
            (upd_worker i (\<lambda>w. w\<lparr>wqueue := wqueue w @ [Task c]\<rparr>) b)))
      | UnparkWorker i \<Rightarrow> Some (caller_goes c SpawnReturned (upd_worker i (\<lambda>w. w\<lparr>wtoken := True\<rparr>) b))
      | SpawnReturned \<Rightarrow> None
      | SpawnPanicked \<Rightarrow> None)"

text \<open>The loop of a worker: a pop, or the return of \<open>park\<close>.\<close>

definition worker_step :: "nat \<Rightarrow> ('t, 'w) blocking \<Rightarrow> ('t, 'w) blocking option" where
  "worker_step i b =
     (let w = workers b ! i
      in case wphase w of
           Popping \<Rightarrow>
             (case wqueue w of
                t # q \<Rightarrow> Some (note_event (Started i (task_sender t))
                  (upd_worker i (\<lambda>w. w\<lparr>wqueue := q, wphase := Running (task_sender t)\<rparr>) b))
              | [] \<Rightarrow> Some (upd_worker i (\<lambda>w. w\<lparr>wphase := AtPark\<rparr>) b))
         | AtPark \<Rightarrow>
             (if wtoken w then Some (upd_worker i (\<lambda>w. w\<lparr>wtoken := False, wphase := Popping\<rparr>) b) else None)
         | Running j \<Rightarrow> None
         | Dead \<Rightarrow> None)"

definition park_spurious :: "nat \<Rightarrow> ('t, 'w) blocking \<Rightarrow> ('t, 'w) blocking option" where
  "park_spurious i b =
     (if wphase (workers b ! i) = AtPark then Some (upd_worker i (\<lambda>w. w\<lparr>wphase := Popping\<rparr>) b) else None)"

text \<open>
  The end of a closure: its result goes to the sender; a panic unwinds the thread, which is gone.
  While a closure runs it may itself park and so take the token of its thread, or be unparked.
\<close>

definition closure_ends :: "nat \<Rightarrow> 't option \<Rightarrow> ('t, 'w) blocking \<Rightarrow> ('t, 'w) blocking option" where
  "closure_ends i out b =
     (case wphase (workers b ! i) of
        Running j \<Rightarrow>
          (case out of
             Some r \<Rightarrow> Some (use_slot j (SlotComplete r) (upd_worker i (\<lambda>w. w\<lparr>wphase := Popping\<rparr>) b))
           | None \<Rightarrow> Some (upd_worker i (\<lambda>w. w\<lparr>wphase := Dead\<rparr>) b))
      | _ \<Rightarrow> None)"

definition closure_token :: "nat \<Rightarrow> bool \<Rightarrow> ('t, 'w) blocking \<Rightarrow> ('t, 'w) blocking option" where
  "closure_token i tok b =
     (case wphase (workers b ! i) of
        Running j \<Rightarrow> Some (upd_worker i (\<lambda>w. w\<lparr>wtoken := tok\<rparr>) b)
      | _ \<Rightarrow> None)"

text \<open>The handle a call returned is polled.\<close>

definition handle_polled :: "nat \<Rightarrow> 'w \<Rightarrow> ('t, 'w) blocking \<Rightarrow> ('t, 'w) blocking option" where
  "handle_polled j w b = (if callers b ! j = SpawnReturned then Some (use_slot j (SlotPoll w) b) else None)"

datatype ('t, 'w) pool_op =
    PCall
  | PSpawn nat
  | PWorker nat
  | PSpurious nat
  | PEnds nat "'t option"
  | PToken nat bool
  | PPoll nat 'w

fun pool_exec :: "('t, 'w) pool_op \<Rightarrow> ('t, 'w) blocking \<Rightarrow> ('t, 'w) blocking option" where
  "pool_exec PCall b = Some (spawn_call b)"
| "pool_exec (PSpawn c) b = (if c < length (callers b) then spawn_step c b else None)"
| "pool_exec (PWorker i) b = (if i < length (workers b) then worker_step i b else None)"
| "pool_exec (PSpurious i) b = (if i < length (workers b) then park_spurious i b else None)"
| "pool_exec (PEnds i out) b = (if i < length (workers b) then closure_ends i out b else None)"
| "pool_exec (PToken i tok) b = (if i < length (workers b) then closure_token i tok b else None)"
| "pool_exec (PPoll j w) b = (if j < length (callers b) then handle_polled j w b else None)"

primrec pool_run :: "('t, 'w) pool_op list \<Rightarrow> ('t, 'w) blocking \<Rightarrow> ('t, 'w) blocking option" where
  "pool_run [] b = Some b"
| "pool_run (op # ops) b = (case pool_exec op b of Some b1 \<Rightarrow> pool_run ops b1 | None \<Rightarrow> None)"

inductive pool_reachable :: "nat \<Rightarrow> ('t, 'w) blocking \<Rightarrow> bool" for n where
  pool_start: "pool_reachable n (pool_new n)"
| pool_next: "pool_reachable n b \<Longrightarrow> pool_exec op b = Some b' \<Longrightarrow> pool_reachable n b'"

end
