(* ===== verification/Blocking_Props.thy ===== *)
theory Blocking_Props
  imports Blocking
begin

text \<open>
  The blocking pool is correct while closures do not panic: every closure pushed is run once, in the
  order of its queue; a worker that sleeps on a closure is about to be unparked; the handle of a call
  sees exactly what a join handle sees of one completion.  A panic strands the worker's queue.
\<close>

section \<open>Reading the log\<close>

definition pushes :: "('t, 'w) pool_event list \<Rightarrow> (nat \<times> nat) list" where
  "pushes l = concat (map (\<lambda>e. case e of Pushed i j \<Rightarrow> [(i, j)] | _ \<Rightarrow> []) l)"

definition starts :: "('t, 'w) pool_event list \<Rightarrow> (nat \<times> nat) list" where
  "starts l = concat (map (\<lambda>e. case e of Started i j \<Rightarrow> [(i, j)] | _ \<Rightarrow> []) l)"

definition on_worker :: "nat \<Rightarrow> (nat \<times> nat) list \<Rightarrow> nat list" where
  "on_worker i ps = map snd (filter (\<lambda>p. fst p = i) ps)"

definition completions :: "('t, 'w) pool_event list \<Rightarrow> (nat \<times> 't) list" where
  "completions l = concat (map (\<lambda>e. case e of SlotUsed j (SlotComplete r) out \<Rightarrow> [(j, r)] | _ \<Rightarrow> []) l)"

definition slot_ops :: "nat \<Rightarrow> ('t, 'w) pool_event list \<Rightarrow> ('t, 'w) slot_op list" where
  "slot_ops j l = concat (map (\<lambda>e. case e of SlotUsed k op out \<Rightarrow> if k = j then [op] else [] | _ \<Rightarrow> []) l)"

definition slot_outs :: "nat \<Rightarrow> ('t, 'w) pool_event list \<Rightarrow> ('t, 'w) slot_out list" where
  "slot_outs j l = concat (map (\<lambda>e. case e of SlotUsed k op out \<Rightarrow> if k = j then [out] else [] | _ \<Rightarrow> []) l)"

lemmas log_reads = pushes_def starts_def completions_def slot_ops_def slot_outs_def

lemma reads_nil [simp]: "pushes [] = []" "starts [] = []" "completions [] = []" "slot_ops j [] = []" "slot_outs j [] = []"
  by (simp_all add: log_reads)

lemma reads_snoc [simp]:
  "pushes (l @ [e]) = pushes l @ (case e of Pushed i j \<Rightarrow> [(i, j)] | _ \<Rightarrow> [])"
  "starts (l @ [e]) = starts l @ (case e of Started i j \<Rightarrow> [(i, j)] | _ \<Rightarrow> [])"
  "completions (l @ [e]) = completions l @ (case e of SlotUsed j (SlotComplete r) out \<Rightarrow> [(j, r)] | _ \<Rightarrow> [])"
  "slot_ops j (l @ [e]) = slot_ops j l @ (case e of SlotUsed k op out \<Rightarrow> if k = j then [op] else [] | _ \<Rightarrow> [])"
  "slot_outs j (l @ [e]) = slot_outs j l @ (case e of SlotUsed k op out \<Rightarrow> if k = j then [out] else [] | _ \<Rightarrow> [])"
  by (simp_all add: log_reads)

lemma on_worker_simps [simp]:
  "on_worker i [] = []" "on_worker i (ps @ qs) = on_worker i ps @ on_worker i qs"
  "on_worker i ((k, j) # ps) = (if k = i then [j] else []) @ on_worker i ps"
  by (simp_all add: on_worker_def)

lemma on_worker_mem: "j \<in> set (on_worker i ps) \<longleftrightarrow> (i, j) \<in> set ps"
  by (force simp: on_worker_def)

lemma nth_upd: "xs[i := x] ! k = (if k = i \<and> i < length xs then x else xs ! k)"
  by (cases "i < length xs") (auto simp: nth_list_update list_update_beyond)

section \<open>The invariant\<close>

definition past_push :: "nat \<Rightarrow> spawn_phase \<Rightarrow> bool" where
  "past_push i ph \<longleftrightarrow> ph = UnparkWorker i \<or> ph = SpawnReturned"

fun phase_ok :: "nat \<Rightarrow> spawn_phase \<Rightarrow> bool" where
  "phase_ok n (SetNext i) = (i < n)"
| "phase_ok n (PushTask i) = (i < n)"
| "phase_ok n (UnparkWorker i) = (i < n)"
| "phase_ok n SpawnPanicked = (n = 0)"
| "phase_ok n _ = True"

definition pool_shape :: "nat \<Rightarrow> ('t, 'w) blocking \<Rightarrow> bool" where
  "pool_shape n b \<longleftrightarrow> length (workers b) = n \<and> length (joins b) = length (callers b) \<and> next_worker b \<le> n \<and>
     (\<forall>ph \<in> set (callers b). phase_ok n ph)"

definition pool_fifo :: "('t, 'w) blocking \<Rightarrow> bool" where
  "pool_fifo b \<longleftrightarrow> distinct (map snd (pushes (plog b))) \<and>
     (\<forall>(i, j) \<in> set (pushes (plog b)). j < length (callers b) \<and> past_push i (callers b ! j)) \<and>
     (\<forall>i < length (workers b). on_worker i (pushes (plog b)) =
        on_worker i (starts (plog b)) @ map task_sender (wqueue (workers b ! i)))"

definition pool_awake :: "('t, 'w) blocking \<Rightarrow> bool" where
  "pool_awake b \<longleftrightarrow> (\<forall>i < length (workers b).
     wphase (workers b ! i) = AtPark \<and> wqueue (workers b ! i) \<noteq> [] \<longrightarrow>
     wtoken (workers b ! i) \<or> UnparkWorker i \<in> set (callers b))"

definition pool_finish :: "('t, 'w) blocking \<Rightarrow> bool" where
  "pool_finish b \<longleftrightarrow> distinct (map fst (completions (plog b))) \<and>
     (\<forall>i < length (workers b). \<forall>j. wphase (workers b ! i) = Running j \<longrightarrow>
        (i, j) \<in> set (starts (plog b)) \<and> j \<notin> fst ` set (completions (plog b))) \<and>
     fst ` set (completions (plog b)) \<subseteq> snd ` set (starts (plog b)) \<and>
     set (starts (plog b)) \<subseteq> set (pushes (plog b))"

text \<open>A worker that lives has completed what it started, but for the closure it runs.\<close>

definition pool_done :: "('t, 'w) blocking \<Rightarrow> bool" where
  "pool_done b \<longleftrightarrow> (\<forall>i < length (workers b). wphase (workers b ! i) \<noteq> Dead \<longrightarrow>
     (\<forall>j \<in> set (on_worker i (starts (plog b))). j \<in> fst ` set (completions (plog b)) \<or> wphase (workers b ! i) = Running j))"

definition pool_slots :: "('t, 'w) blocking \<Rightarrow> bool" where
  "pool_slots b \<longleftrightarrow> (\<forall>j < length (joins b).
     slot_run join_poll join_complete (slot_ops j (plog b)) join_new = (joins b ! j, slot_outs j (plog b))) \<and>
     (\<forall>j \<ge> length (joins b). slot_ops j (plog b) = [] \<and> slot_outs j (plog b) = [])"

text \<open>What the operations leave alone.\<close>

lemma upd_worker_simps [simp]:
  "workers (upd_worker i f b) = (workers b)[i := f (workers b ! i)]" "next_worker (upd_worker i f b) = next_worker b"
  "joins (upd_worker i f b) = joins b" "callers (upd_worker i f b) = callers b" "plog (upd_worker i f b) = plog b"
  by (simp_all add: upd_worker_def)

lemma caller_goes_simps [simp]:
  "workers (caller_goes c ph b) = workers b" "next_worker (caller_goes c ph b) = next_worker b"
  "joins (caller_goes c ph b) = joins b" "callers (caller_goes c ph b) = (callers b)[c := ph]" "plog (caller_goes c ph b) = plog b"
  by (simp_all add: caller_goes_def)

lemma note_event_simps [simp]:
  "workers (note_event e b) = workers b" "next_worker (note_event e b) = next_worker b"
  "joins (note_event e b) = joins b" "callers (note_event e b) = callers b" "plog (note_event e b) = plog b @ [e]"
  by (simp_all add: note_event_def)

lemma use_slot_simps [simp]:
  "workers (use_slot j op b) = workers b" "next_worker (use_slot j op b) = next_worker b"
  "joins (use_slot j op b) = (joins b)[j := fst (slot_step join_poll join_complete op (joins b ! j))]"
  "callers (use_slot j op b) = callers b"
  "plog (use_slot j op b) = plog b @ [SlotUsed j op (snd (slot_step join_poll join_complete op (joins b ! j)))]"
  by (simp_all add: use_slot_def split: prod.splits)

lemma spawn_call_simps [simp]:
  "workers (spawn_call b) = workers b" "next_worker (spawn_call b) = next_worker b"
  "joins (spawn_call b) = joins b @ [join_new]" "callers (spawn_call b) = callers b @ [ReadNext]" "plog (spawn_call b) = plog b"
  by (simp_all add: spawn_call_def)

text \<open>Case analysis of a step: one premise per branch of the code.\<close>

lemma pool_exec_cases [consumes 1, case_names call read panic set push unpark start idle token spurious ends panicked closure poll]:
  assumes e: "pool_exec op b = Some b'"
    and call: "op = PCall \<Longrightarrow> b' = spawn_call b \<Longrightarrow> P"
    and read: "\<And>c. c < length (callers b) \<Longrightarrow> callers b ! c = ReadNext \<Longrightarrow> workers b \<noteq> [] \<Longrightarrow>
      b' = caller_goes c (SetNext (next_worker b mod length (workers b))) b \<Longrightarrow> P"
    and panic: "\<And>c. c < length (callers b) \<Longrightarrow> callers b ! c = ReadNext \<Longrightarrow> workers b = [] \<Longrightarrow>
      b' = caller_goes c SpawnPanicked b \<Longrightarrow> P"
    and set: "\<And>c i. c < length (callers b) \<Longrightarrow> callers b ! c = SetNext i \<Longrightarrow>
      b' = caller_goes c (PushTask i) (b\<lparr>next_worker := i + 1\<rparr>) \<Longrightarrow> P"
    and push: "\<And>c i. c < length (callers b) \<Longrightarrow> callers b ! c = PushTask i \<Longrightarrow>
      b' = caller_goes c (UnparkWorker i) (note_event (Pushed i c)
        (upd_worker i (\<lambda>w. w\<lparr>wqueue := wqueue w @ [Task c]\<rparr>) b)) \<Longrightarrow> P"
    and unpark: "\<And>c i. c < length (callers b) \<Longrightarrow> callers b ! c = UnparkWorker i \<Longrightarrow>
      b' = caller_goes c SpawnReturned (upd_worker i (\<lambda>w. w\<lparr>wtoken := True\<rparr>) b) \<Longrightarrow> P"
    and start: "\<And>i t q. i < length (workers b) \<Longrightarrow> wphase (workers b ! i) = Popping \<Longrightarrow> wqueue (workers b ! i) = t # q \<Longrightarrow>
      b' = note_event (Started i (task_sender t))
        (upd_worker i (\<lambda>w. w\<lparr>wqueue := q, wphase := Running (task_sender t)\<rparr>) b) \<Longrightarrow> P"
    and idle: "\<And>i. i < length (workers b) \<Longrightarrow> wphase (workers b ! i) = Popping \<Longrightarrow> wqueue (workers b ! i) = [] \<Longrightarrow>
      b' = upd_worker i (\<lambda>w. w\<lparr>wphase := AtPark\<rparr>) b \<Longrightarrow> P"
    and token: "\<And>i. i < length (workers b) \<Longrightarrow> wphase (workers b ! i) = AtPark \<Longrightarrow> wtoken (workers b ! i) \<Longrightarrow>
      b' = upd_worker i (\<lambda>w. w\<lparr>wtoken := False, wphase := Popping\<rparr>) b \<Longrightarrow> P"
    and spurious: "\<And>i. i < length (workers b) \<Longrightarrow> wphase (workers b ! i) = AtPark \<Longrightarrow>
      b' = upd_worker i (\<lambda>w. w\<lparr>wphase := Popping\<rparr>) b \<Longrightarrow> P"
    and ends: "\<And>i j r. i < length (workers b) \<Longrightarrow> wphase (workers b ! i) = Running j \<Longrightarrow>
      b' = use_slot j (SlotComplete r) (upd_worker i (\<lambda>w. w\<lparr>wphase := Popping\<rparr>) b) \<Longrightarrow> P"
    and panicked: "\<And>i j. i < length (workers b) \<Longrightarrow> wphase (workers b ! i) = Running j \<Longrightarrow>
      b' = upd_worker i (\<lambda>w. w\<lparr>wphase := Dead\<rparr>) b \<Longrightarrow> P"
    and closure: "\<And>i j tok. i < length (workers b) \<Longrightarrow> wphase (workers b ! i) = Running j \<Longrightarrow>
      b' = upd_worker i (\<lambda>w. w\<lparr>wtoken := tok\<rparr>) b \<Longrightarrow> P"
    and poll: "\<And>j w. j < length (callers b) \<Longrightarrow> callers b ! j = SpawnReturned \<Longrightarrow> b' = use_slot j (SlotPoll w) b \<Longrightarrow> P"
  shows P
proof (cases op)
  case PCall then show P using e call by simp
next
  case (PSpawn c)
  then show P using e read panic set push unpark
    by (auto simp: spawn_step_def Let_def split: if_splits spawn_phase.splits)
next
  case (PWorker i)
  then show P using e start idle token
    by (auto simp: worker_step_def Let_def split: if_splits worker_phase.splits list.splits)
next
  case (PSpurious i)
  then show P using e spurious by (auto simp: park_spurious_def split: if_splits)
next
  case (PEnds i out)
  then show P using e ends panicked by (auto simp: closure_ends_def split: if_splits worker_phase.splits option.splits)
next
  case (PToken i tok)
  then show P using e closure by (auto simp: closure_token_def split: if_splits worker_phase.splits)
next
  case (PPoll j w)
  then show P using e poll by (auto simp: handle_polled_def split: if_splits)
qed

lemma set_update_subset': "x \<in> set (xs[i := y]) \<Longrightarrow> x = y \<or> x \<in> set xs"
  using set_update_subset_insert [of xs i y] by blast

lemma pool_shape_step:
  assumes "pool_exec op b = Some b'" "pool_shape n b"
  shows "pool_shape n b'"
proof -
  note s = assms(2) [unfolded pool_shape_def]
  have ph: "phase_ok n (callers b ! c)" if "c < length (callers b)" for c using s that by simp
  show ?thesis using assms(1)
  proof (cases rule: pool_exec_cases)
    case (read c)
    then have "next_worker b mod n < n" using s by (intro mod_less_divisor) auto
    then show ?thesis using read s by (auto simp: pool_shape_def dest!: set_update_subset')
  next
    case (set c i)
    then show ?thesis using s ph [of c] by (auto simp: pool_shape_def dest!: set_update_subset')
  next
    case (push c i)
    then show ?thesis using s ph [of c] by (auto simp: pool_shape_def dest!: set_update_subset')
  qed (use s in \<open>auto simp: pool_shape_def dest!: set_update_subset'\<close>)
qed

lemma pool_fifo_step:
  assumes "pool_exec op b = Some b'" "pool_shape n b" "pool_fifo b"
  shows "pool_fifo b'"
proof -
  note f = assms(3) [unfolded pool_fifo_def]
  have d: "distinct (map snd (pushes (plog b)))" using f by simp
  have past: "j < length (callers b)" "past_push i (callers b ! j)" if "(i, j) \<in> set (pushes (plog b))" for i j
    using f that by auto
  have q: "on_worker i (pushes (plog b)) = on_worker i (starts (plog b)) @ map task_sender (wqueue (workers b ! i))"
    if "i < length (workers b)" for i using f that by simp
  have keep: "pool_fifo b1" if "plog b1 = plog b" "length (workers b1) = length (workers b)"
      "\<forall>i < length (workers b). wqueue (workers b1 ! i) = wqueue (workers b ! i)"
      "length (callers b) \<le> length (callers b1)"
      "\<forall>c < length (callers b). \<forall>i. past_push i (callers b ! c) \<longrightarrow> past_push i (callers b1 ! c)" for b1 :: "('a, 'b) blocking"
    using that d past q by (fastforce simp: pool_fifo_def)
  show ?thesis using assms(1)
  proof (cases rule: pool_exec_cases)
    case (push c i)
    have new: "(k, c) \<notin> set (pushes (plog b))" for k using past(2) [of k c] push(2) by (auto simp: past_push_def)
    then have c: "j \<noteq> c" if "(k, j) \<in> set (pushes (plog b))" for k j using that by blast
    have "c \<notin> set (map snd (pushes (plog b)))" using new by auto
    then have 1: "distinct (map snd (pushes (plog b')))" using push d by simp
    have "j < length (callers b) \<and> past_push k ((callers b)[c := UnparkWorker i] ! j)"
      if "(k, j) \<in> set (pushes (plog b))" for k j using past [OF that] c [OF that] by simp
    then have 2: "\<forall>(k, j) \<in> set (pushes (plog b')). j < length (callers b') \<and> past_push k (callers b' ! j)"
      using push by (auto simp: past_push_def [of i])
    have "i < length (workers b)" using assms(2) push(1,2) by (auto simp: pool_shape_def dest!: nth_mem)
    then have "\<forall>k < length (workers b'). on_worker k (pushes (plog b')) =
        on_worker k (starts (plog b')) @ map task_sender (wqueue (workers b' ! k))"
      using push q by (simp add: nth_upd)
    with 1 2 show ?thesis by (simp add: pool_fifo_def)
  next
    case (start i t q')
    then show ?thesis using d past q by (auto simp: pool_fifo_def nth_upd)
  next
    case (ends i j r)
    have "starts (plog b') = starts (plog b)" "pushes (plog b') = pushes (plog b)" by (simp_all add: ends)
    then show ?thesis using ends d past q by (auto simp: pool_fifo_def nth_upd)
  next
    case (poll j w)
    have "starts (plog b') = starts (plog b)" "pushes (plog b') = pushes (plog b)" by (simp_all add: poll)
    then show ?thesis using poll d past q by (auto simp: pool_fifo_def)
  qed (auto intro!: keep simp: nth_upd nth_append past_push_def)
qed

lemma pool_awake_step:
  assumes "pool_exec op b = Some b'" "pool_shape n b" "pool_awake b"
  shows "pool_awake b'"
proof -
  note a = assms(3) [unfolded pool_awake_def]
  have still: "UnparkWorker k \<in> set ((callers b)[c := ph])"
    if k: "UnparkWorker k \<in> set (callers b)" and c: "callers b ! c \<noteq> UnparkWorker k" for k c ph
  proof -
    obtain m where "m < length (callers b)" "callers b ! m = UnparkWorker k" using k by (auto simp: in_set_conv_nth)
    then show ?thesis using c by (metis length_list_update nth_list_update_neq nth_mem)
  qed
  show ?thesis using assms(1)
  proof (cases rule: pool_exec_cases)
    case (push c i)
    then have "UnparkWorker i \<in> set (callers b')" by (simp add: set_update_memI)
    moreover have "i < length (workers b)" using assms(2) push(1,2) by (auto simp: pool_shape_def dest!: nth_mem)
    ultimately show ?thesis using push a still by (auto simp: pool_awake_def nth_upd)
  next
    case (unpark c i)
    have "wtoken (workers b' ! k) \<or> UnparkWorker k \<in> set (callers b')"
      if "k < length (workers b)" "wphase (workers b' ! k) = AtPark" "wqueue (workers b' ! k) \<noteq> []" for k
      using that unpark a still [of k c SpawnReturned] by (cases "k = i") auto
    then show ?thesis using unpark by (simp add: pool_awake_def)
  next
    case call
    then show ?thesis using a by (auto simp: pool_awake_def)
  next
    case (read c)
    then show ?thesis using a still [of _ c] by (auto simp: pool_awake_def)
  next
    case (panic c)
    then show ?thesis using a by (auto simp: pool_awake_def)
  next
    case (set c i)
    then show ?thesis using a still [of _ c] by (auto simp: pool_awake_def)
  qed (use a in \<open>auto simp: pool_awake_def nth_list_update\<close>)
qed

text \<open>A call is pushed once, to one worker; what a worker pops it has not started, nor has another.\<close>

lemma pushes_unique:
  assumes "pool_fifo b" "(i, j) \<in> set (pushes (plog b))" "(k, j) \<in> set (pushes (plog b))"
  shows "i = k"
proof -
  have "inj_on snd (set (pushes (plog b)))" using assms(1) by (simp add: pool_fifo_def distinct_map)
  from inj_onD [OF this _ assms(2,3)] show ?thesis by simp
qed

lemma popped_fresh:
  assumes f: "pool_fifo b" and st: "set (starts (plog b)) \<subseteq> set (pushes (plog b))"
    and q: "i < length (workers b)" "wqueue (workers b ! i) = t # q"
  shows "(i, task_sender t) \<in> set (pushes (plog b))" "task_sender t \<notin> snd ` set (starts (plog b))"
proof -
  have o: "on_worker i (pushes (plog b)) = on_worker i (starts (plog b)) @ task_sender t # map task_sender q"
    using f q by (simp add: pool_fifo_def)
  then show p: "(i, task_sender t) \<in> set (pushes (plog b))" by (simp flip: on_worker_mem)
  have "distinct (on_worker i (pushes (plog b)))"
    using f by (auto simp: pool_fifo_def on_worker_def distinct_map intro: inj_on_subset)
  then have "(i, task_sender t) \<notin> set (starts (plog b))" using o by (simp flip: on_worker_mem)
  moreover have "k = i" if "(k, task_sender t) \<in> set (starts (plog b))" for k
    using pushes_unique [OF f subsetD [OF st that] p] .
  ultimately show "task_sender t \<notin> snd ` set (starts (plog b))" by auto
qed

lemma pool_finish_keep:
  assumes "pool_finish b" "completions (plog b1) = completions (plog b)" "starts (plog b1) = starts (plog b)"
    "set (pushes (plog b)) \<subseteq> set (pushes (plog b1))" "length (workers b1) = length (workers b)"
    and same: "\<And>i j. i < length (workers b) \<Longrightarrow> wphase (workers b1 ! i) = Running j \<Longrightarrow> wphase (workers b ! i) = Running j"
  shows "pool_finish b1"
proof -
  have "(i, j) \<in> set (starts (plog b)) \<and> j \<notin> fst ` set (completions (plog b))"
    if "i < length (workers b)" "wphase (workers b1 ! i) = Running j" for i j
    using assms(1) that(1) same [OF that] by (simp add: pool_finish_def)
  then show ?thesis using assms(1,4) unfolding pool_finish_def assms(2,3,5) by (simp add: subset_iff)
qed

lemma pool_finish_step:
  assumes "pool_exec op b = Some b'" "pool_fifo b" "pool_finish b"
  shows "pool_finish b'"
proof -
  note f = assms(3) [unfolded pool_finish_def]
  have sub: "fst ` set (completions (plog b)) \<subseteq> snd ` set (starts (plog b))"
    and st: "set (starts (plog b)) \<subseteq> set (pushes (plog b))" using f by simp_all
  have run: "(i, j) \<in> set (starts (plog b))" "(i, j) \<in> set (pushes (plog b))" "j \<notin> fst ` set (completions (plog b))"
    if "i < length (workers b)" "wphase (workers b ! i) = Running j" for i j using f that by fast+
  show ?thesis using assms(1)
  proof (cases rule: pool_exec_cases)
    case (start i t q)
    note p = popped_fresh [OF assms(2) st start(1,3)]
    have c: "task_sender t \<notin> fst ` set (completions (plog b))" using sub p(2) by (rule contra_subsetD)
    have "(k, j) \<in> set (starts (plog b')) \<and> j \<notin> fst ` set (completions (plog b'))"
      if k: "k < length (workers b)" "wphase (workers b' ! k) = Running j" for k j
    proof (cases "k = i")
      case True
      then show ?thesis using k start c by (simp add: nth_upd)
    next
      case False
      then show ?thesis using run(1,3) [OF k(1), of j] k start by (simp add: nth_upd)
    qed
    then show ?thesis using start f p(1) by (auto simp: pool_finish_def)
  next
    case (ends i j r)
    have "(k, m) \<in> set (starts (plog b')) \<and> m \<notin> fst ` set (completions (plog b'))"
      if k: "k < length (workers b)" "wphase (workers b' ! k) = Running m" for k m
    proof -
      have ne: "k \<noteq> i" using k ends by (auto simp: nth_upd)
      then have "wphase (workers b ! k) = Running m" using k ends by (simp add: nth_upd)
      note r = run [OF k(1) this]
      moreover have "m \<noteq> j" using pushes_unique [OF assms(2) r(2)] run(2) [OF ends(1,2)] ne by blast
      ultimately show ?thesis using ends by simp
    qed
    moreover have "distinct (map fst (completions (plog b')))" using f run(3) [OF ends(1,2)] ends by simp
    moreover have "j \<in> snd ` set (starts (plog b))"
      using run(1) [OF ends(1,2)] by (rule image_eqI [rotated]) simp
    then have "fst ` set (completions (plog b')) \<subseteq> snd ` set (starts (plog b'))"
      using sub by (simp add: ends(3))
    ultimately show ?thesis using f ends by (simp add: pool_finish_def)
  qed (auto intro!: pool_finish_keep [OF assms(3)] simp: nth_upd split: if_splits)
qed

lemma pool_done_step:
  assumes "pool_exec op b = Some b'" "pool_done b"
  shows "pool_done b'"
proof -
  have d: "j \<in> fst ` set (completions (plog b)) \<or> wphase (workers b ! i) = Running j"
    if "i < length (workers b)" "wphase (workers b ! i) \<noteq> Dead" "j \<in> set (on_worker i (starts (plog b)))" for i j
    using assms(2) that by (auto simp: pool_done_def)
  have keep: "pool_done b1" if same: "starts (plog b1) = starts (plog b)" "length (workers b1) = length (workers b)"
      and more: "set (completions (plog b)) \<subseteq> set (completions (plog b1))"
      and ph: "\<And>i. i < length (workers b) \<Longrightarrow> wphase (workers b1 ! i) \<noteq> Dead \<Longrightarrow> wphase (workers b ! i) \<noteq> Dead \<and>
        (\<forall>j. wphase (workers b ! i) = Running j \<longrightarrow>
           wphase (workers b1 ! i) = Running j \<or> j \<in> fst ` set (completions (plog b1)))"
    for b1 :: "('a, 'b) blocking"
    unfolding pool_done_def same using d ph more image_mono [of _ _ fst] by blast
  show ?thesis using assms(1)
  proof (cases rule: pool_exec_cases)
    case (start i t q)
    have "j \<in> fst ` set (completions (plog b')) \<or> wphase (workers b' ! k) = Running j"
      if "k < length (workers b)" "wphase (workers b' ! k) \<noteq> Dead" "j \<in> set (on_worker k (starts (plog b')))" for k j
      using that start d [of k j] by (cases "k = i") (auto simp: nth_upd)
    then show ?thesis by (simp add: pool_done_def start(4))
  next
    case (ends i j r)
    have "\<forall>m. wphase (workers b ! k) = Running m \<longrightarrow> wphase (workers b' ! k) = Running m \<or> m \<in> fst ` set (completions (plog b'))"
      if "k < length (workers b)" for k
      using ends that by (cases "k = i") (simp_all add: nth_upd)
    moreover have "wphase (workers b ! k) \<noteq> Dead" if "wphase (workers b' ! k) \<noteq> Dead" for k
      using ends that by (cases "k = i") (simp_all add: nth_upd)
    ultimately show ?thesis by (intro keep) (auto simp: ends(3))
  qed (auto intro!: keep simp: nth_upd split: if_splits)
qed

lemma pool_slots_step:
  assumes "pool_exec op b = Some b'" "pool_shape n b" "pool_fifo b" "pool_finish b" "pool_slots b"
  shows "pool_slots b'"
proof -
  note s = assms(5) [unfolded pool_slots_def]
  have keep: "pool_slots b1" if "plog b1 = plog b \<or> (\<exists>i j. plog b1 = plog b @ [Pushed i j]) \<or> (\<exists>i j. plog b1 = plog b @ [Started i j])"
      "joins b1 = joins b" for b1 :: "('a, 'b) blocking"
    using that s by (auto simp: pool_slots_def)
  have use: "pool_slots b1" if "plog b1 = plog b @ [SlotUsed j op (snd (slot_step join_poll join_complete op (joins b ! j)))]"
      "joins b1 = (joins b)[j := fst (slot_step join_poll join_complete op (joins b ! j))]" "j < length (joins b)"
    for b1 :: "('a, 'b) blocking" and j op
    using that s by (auto simp: pool_slots_def nth_upd slot_run_append split: prod.splits)
  show ?thesis using assms(1)
  proof (cases rule: pool_exec_cases)
    case call
    then show ?thesis using s by (auto simp: pool_slots_def nth_append not_less)
  next
    case (ends i j r)
    have "(i, j) \<in> set (pushes (plog b))" using assms(4) ends(1,2) unfolding pool_finish_def by blast
    then have "j < length (joins b)" using assms(2,3) by (auto simp: pool_shape_def pool_fifo_def)
    then show ?thesis using ends(3) by (intro use [of b' j "SlotComplete r"]) (simp_all del: slot_step.simps)
  next
    case (poll j w)
    then show ?thesis
      using assms(2) by (intro use [of b' j "SlotPoll w"]) (simp_all add: pool_shape_def del: slot_step.simps)
  qed (auto intro!: keep)
qed

definition pool_inv :: "nat \<Rightarrow> ('t, 'w) blocking \<Rightarrow> bool" where
  "pool_inv n b \<longleftrightarrow> pool_shape n b \<and> pool_fifo b \<and> pool_awake b \<and> pool_finish b \<and> pool_done b \<and> pool_slots b"

lemma pool_inv_new: "pool_inv n (pool_new n)"
  by (simp add: pool_inv_def pool_shape_def pool_fifo_def pool_awake_def pool_finish_def pool_done_def pool_slots_def
      pool_new_def pool_worker_new_def)

lemma pool_inv_step: "pool_exec op b = Some b' \<Longrightarrow> pool_inv n b \<Longrightarrow> pool_inv n b'"
  using pool_shape_step pool_fifo_step pool_awake_step pool_finish_step pool_done_step pool_slots_step
  unfolding pool_inv_def by metis

lemma pool_reachable_inv: "pool_reachable n b \<Longrightarrow> pool_inv n b"
  by (induction rule: pool_reachable.induct) (use pool_inv_new pool_inv_step in blast)+

lemma pool_run_reachable: "pool_run ops b = Some b' \<Longrightarrow> pool_reachable n b \<Longrightarrow> pool_reachable n b'"
  by (induction ops arbitrary: b) (auto split: option.splits intro: pool_next)

section \<open>What the handle of a call sees\<close>

lemma slot_ops_shape:
  assumes "distinct (map fst (completions l))"
  shows "j \<notin> fst ` set (completions l) \<Longrightarrow> \<exists>ws. slot_ops j l = map SlotPoll ws"
    and "(j, r) \<in> set (completions l) \<Longrightarrow> \<exists>ws vs. slot_ops j l = map SlotPoll ws @ SlotComplete r # map SlotPoll vs"
proof -
  have "(j \<notin> fst ` set (completions l) \<longrightarrow> (\<exists>ws. slot_ops j l = map SlotPoll ws)) \<and>
      (\<forall>r. (j, r) \<in> set (completions l) \<longrightarrow> (\<exists>ws vs. slot_ops j l = map SlotPoll ws @ SlotComplete r # map SlotPoll vs))"
    using assms
  proof (induction l rule: rev_induct)
    case (snoc e l)
    have IH: "j \<notin> fst ` set (completions l) \<Longrightarrow> \<exists>ws. slot_ops j l = map SlotPoll ws"
      "(j, r) \<in> set (completions l) \<Longrightarrow> \<exists>ws vs. slot_ops j l = map SlotPoll ws @ SlotComplete r # map SlotPoll vs" for r
      using snoc by auto
    show ?case
    proof (cases "\<exists>op out. e = SlotUsed j op out")
      case True
      then obtain op out where e: "e = SlotUsed j op out" by blast
      show ?thesis
      proof (cases op)
        case (SlotPoll w)
        have c: "completions (l @ [e]) = completions l" "slot_ops j (l @ [e]) = slot_ops j l @ [SlotPoll w]"
          using e SlotPoll by simp_all
        have "\<exists>us. slot_ops j l @ [SlotPoll w] = map SlotPoll us" if "slot_ops j l = map SlotPoll ws" for ws
          using that by (intro exI [of _ "ws @ [w]"]) simp
        moreover have "\<exists>us vs'. slot_ops j l @ [SlotPoll w] = map SlotPoll us @ SlotComplete r # map SlotPoll vs'"
          if "slot_ops j l = map SlotPoll us @ SlotComplete r # map SlotPoll vs" for us vs r
          using that by (intro exI [of _ us] exI [of _ "vs @ [w]"]) simp
        ultimately show ?thesis unfolding c using IH by blast
      next
        case (SlotComplete r)
        then have "j \<notin> fst ` set (completions l)" using snoc.prems e by force
        with IH(1) obtain ws where "slot_ops j l = map SlotPoll ws" by blast
        moreover have "(j, r') \<notin> set (completions l)" for r' using \<open>j \<notin> _\<close> by force
        moreover have "\<exists>us vs. map SlotPoll ws @ [SlotComplete r] = map SlotPoll us @ SlotComplete r # map SlotPoll vs"
          by (intro exI [of _ ws] exI [of _ "[]"]) simp
        ultimately show ?thesis using e SlotComplete by auto
      qed
    next
      case False
      then have "slot_ops j (l @ [e]) = slot_ops j l" "\<And>r. (j, r) \<in> set (completions (l @ [e])) \<longleftrightarrow> (j, r) \<in> set (completions l)"
        by (auto split: pool_event.splits slot_op.splits)
      then show ?thesis using IH by force
    qed
  qed simp
  then show "j \<notin> fst ` set (completions l) \<Longrightarrow> \<exists>ws. slot_ops j l = map SlotPoll ws"
    and "(j, r) \<in> set (completions l) \<Longrightarrow> \<exists>ws vs. slot_ops j l = map SlotPoll ws @ SlotComplete r # map SlotPoll vs"
    by blast+
qed

lemma blocking_slots:
  assumes "pool_reachable n b"
  shows "if j \<in> fst ` set (completions (plog b))
    then \<exists>r ws vs. (j, r) \<in> set (completions (plog b)) \<and>
      slot_ops j (plog b) = map SlotPoll ws @ SlotComplete r # map SlotPoll vs \<and>
      slot_outs j (plog b) = replicate (length ws) OutPending @
        OutWoke (if ws = [] then None else Some (last ws)) #
        (case vs of [] \<Rightarrow> [] | v # vs' \<Rightarrow> OutReady r # replicate (length vs') OutPending)
    else \<exists>ws. slot_ops j (plog b) = map SlotPoll ws \<and> slot_outs j (plog b) = replicate (length ws) OutPending"
proof -
  have i: "pool_inv n b" by (rule pool_reachable_inv [OF assms])
  then have d: "distinct (map fst (completions (plog b)))" by (simp add: pool_inv_def pool_finish_def)
  have run: "slot_outs j (plog b) = snd (slot_run join_poll join_complete (slot_ops j (plog b)) join_new)"
    using i by (cases "j < length (joins b)") (auto simp: pool_inv_def pool_slots_def)
  show ?thesis
  proof (cases "j \<in> fst ` set (completions (plog b))")
    case True
    then obtain r where r: "(j, r) \<in> set (completions (plog b))" by auto
    from slot_ops_shape(2) [OF d r] obtain ws vs where
      o: "slot_ops j (plog b) = map SlotPoll ws @ SlotComplete r # map SlotPoll vs" by blast
    have "slot_outs j (plog b) = replicate (length ws) OutPending @ OutWoke (if ws = [] then None else Some (last ws)) #
        (case vs of [] \<Rightarrow> [] | v # vs' \<Rightarrow> OutReady r # replicate (length vs') OutPending)"
      using run unfolding o js.slot_life .
    with True r o show ?thesis by (simp only: if_True) blast
  next
    case False
    from slot_ops_shape(1) [OF d False] obtain ws where o: "slot_ops j (plog b) = map SlotPoll ws" by blast
    have "jresult join_new = None" by (simp add: join_new_def)
    from js.polls_pend(1) [OF this, of ws] show ?thesis using False o run by auto
  qed
qed

section \<open>A worker left to itself\<close>

text \<open>
  A worker runs, its closures returning what \<open>res\<close> says, for at most \<open>fuel\<close> steps; it stops when it
  sleeps in \<open>park\<close>.
\<close>

definition work_step :: "(nat \<Rightarrow> 't) \<Rightarrow> nat \<Rightarrow> ('t, 'w) blocking \<Rightarrow> ('t, 'w) blocking option" where
  "work_step res i b =
     (case wphase (workers b ! i) of Running j \<Rightarrow> closure_ends i (Some (res j)) b | _ \<Rightarrow> worker_step i b)"

primrec work :: "nat \<Rightarrow> (nat \<Rightarrow> 't) \<Rightarrow> nat \<Rightarrow> ('t, 'w) blocking \<Rightarrow> ('t, 'w) blocking" where
  "work 0 res i b = b"
| "work (Suc fuel) res i b = (case work_step res i b of Some b1 \<Rightarrow> work fuel res i b1 | None \<Rightarrow> b)"

definition work_idle :: "nat \<Rightarrow> ('t, 'w) blocking \<Rightarrow> bool" where
  "work_idle i b \<longleftrightarrow> wqueue (workers b ! i) = [] \<and> wphase (workers b ! i) \<in> {Popping, AtPark}"

definition work_left :: "nat \<Rightarrow> ('t, 'w) blocking \<Rightarrow> nat" where
  "work_left i b = 2 * length (wqueue (workers b ! i)) + (if wphase (workers b ! i) = Popping then 0 else 1)"

lemma work_step_exec:
  assumes "work_step res i b = Some b'" "i < length (workers b)"
  shows "\<exists>op. pool_exec op b = Some b'"
proof (cases "\<exists>j. wphase (workers b ! i) = Running j")
  case True
  then obtain j where "wphase (workers b ! i) = Running j" by blast
  then show ?thesis using assms by (intro exI [of _ "PEnds i (Some (res j))"]) (simp add: work_step_def)
next
  case False
  then show ?thesis using assms by (intro exI [of _ "PWorker i"]) (simp add: work_step_def split: worker_phase.splits)
qed

lemma work_step_keeps:
  assumes "work_step res i b = Some b'"
  shows "callers b' = callers b" "pushes (plog b') = pushes (plog b)" "length (workers b') = length (workers b)"
  using assms
  by (auto simp: work_step_def worker_step_def closure_ends_def Let_def split: worker_phase.splits list.splits if_splits)

lemma work_step_idle:
  assumes "work_step res i b = Some b'" "work_idle i b" "i < length (workers b)"
  shows "work_idle i b'"
  using assms
  by (auto simp: work_idle_def work_step_def worker_step_def Let_def nth_upd split: worker_phase.splits list.splits if_splits)

lemma work_step_progress:
  assumes "pool_inv n b" "i < n" "wphase (workers b ! i) \<noteq> Dead" "UnparkWorker i \<notin> set (callers b)" "\<not> work_idle i b"
  shows "\<exists>b'. work_step res i b = Some b' \<and> work_left i b = Suc (work_left i b') \<and> wphase (workers b' ! i) \<noteq> Dead"
proof -
  have i: "i < length (workers b)" using assms(1,2) by (simp add: pool_inv_def pool_shape_def)
  show ?thesis
  proof (cases "wphase (workers b ! i)")
    case Popping
    then obtain t q where "wqueue (workers b ! i) = t # q" using assms(5) by (cases "wqueue (workers b ! i)") (auto simp: work_idle_def)
    then show ?thesis using Popping i by (simp add: work_step_def worker_step_def work_left_def Let_def nth_upd)
  next
    case (Running j)
    then show ?thesis using i by (simp add: work_step_def closure_ends_def work_left_def nth_upd)
  next
    case AtPark
    then have "wtoken (workers b ! i)"
      using assms(1,4,5) i by (auto simp: pool_inv_def pool_awake_def work_idle_def)
    then show ?thesis using AtPark i by (simp add: work_step_def worker_step_def work_left_def Let_def nth_upd)
  next
    case Dead
    then show ?thesis using assms(3) by simp
  qed
qed

lemma work_stays_idle:
  assumes "pool_inv n b" "i < n" "work_idle i b"
  shows "pool_inv n (work fuel res i b) \<and> work_idle i (work fuel res i b) \<and>
    pushes (plog (work fuel res i b)) = pushes (plog b)"
  using assms
proof (induction fuel arbitrary: b)
  case (Suc fuel)
  have i: "i < length (workers b)" using Suc.prems by (simp add: pool_inv_def pool_shape_def)
  show ?case
  proof (cases "work_step res i b")
    case (Some b1)
    have "pool_inv n b1" using work_step_exec [OF Some i] pool_inv_step Suc.prems(1) by blast
    then show ?thesis
      using Suc.IH [of b1] Suc.prems work_step_idle [OF Some _ i] work_step_keeps [OF Some] Some by simp
  qed (use Suc.prems in simp)
qed simp

lemma work_drains:
  assumes "pool_inv n b" "i < n" "wphase (workers b ! i) \<noteq> Dead" "UnparkWorker i \<notin> set (callers b)" "work_left i b \<le> fuel"
  shows "pool_inv n (work fuel res i b) \<and> work_idle i (work fuel res i b) \<and>
    pushes (plog (work fuel res i b)) = pushes (plog b)"
  using assms
proof (induction fuel arbitrary: b)
  case 0
  then have "work_idle i b" by (auto simp: work_left_def work_idle_def split: if_splits)
  then show ?case using 0 by simp
next
  case (Suc fuel)
  show ?case
  proof (cases "work_idle i b")
    case True
    then show ?thesis by (rule work_stays_idle [OF Suc.prems(1,2)])
  next
    case False
    have i: "i < length (workers b)" using Suc.prems by (simp add: pool_inv_def pool_shape_def)
    obtain b1 where b1: "work_step res i b = Some b1" "work_left i b = Suc (work_left i b1)" "wphase (workers b1 ! i) \<noteq> Dead"
      using work_step_progress [OF Suc.prems(1-4) False] by blast
    have "pool_inv n b1" using work_step_exec [OF b1(1) i] pool_inv_step Suc.prems(1) by blast
    then show ?thesis using Suc.IH [of b1] Suc.prems b1 work_step_keeps [OF b1(1)] by simp
  qed
qed

section \<open>Panics\<close>

lemma stranded_step:
  assumes "pool_exec op b = Some b'" "pool_inv n b" "i < n" "wphase (workers b ! i) = Dead"
    "(i, j) \<in> set (pushes (plog b))" "j \<notin> fst ` set (completions (plog b))"
  shows "wphase (workers b' ! i) = Dead \<and> (i, j) \<in> set (pushes (plog b')) \<and> j \<notin> fst ` set (completions (plog b'))"
proof -
  have l: "length (workers b) = n" using assms(2) by (simp add: pool_inv_def pool_shape_def)
  show ?thesis using assms(1)
  proof (cases rule: pool_exec_cases)
    case (ends k m r)
    have "(k, m) \<in> set (pushes (plog b))" using assms(2) ends(1,2) unfolding pool_inv_def pool_finish_def by blast
    moreover have ne: "k \<noteq> i" using ends(2) assms(4) by auto
    ultimately have "m \<noteq> j" using pushes_unique [of b k m i] assms(2,5) by (auto simp: pool_inv_def)
    then show ?thesis using ends assms ne by (simp add: nth_upd)
  qed (use assms l in \<open>auto simp: nth_upd\<close>)
qed

lemma stranded_run:
  assumes "pool_run ops b = Some b'" "pool_inv n b" "i < n" "wphase (workers b ! i) = Dead"
    "(i, j) \<in> set (pushes (plog b))" "j \<notin> fst ` set (completions (plog b))"
  shows "pool_inv n b' \<and> wphase (workers b' ! i) = Dead \<and> j \<notin> fst ` set (completions (plog b'))"
  using assms
proof (induction ops arbitrary: b)
  case (Cons op ops)
  then obtain b1 where b1: "pool_exec op b = Some b1" "pool_run ops b1 = Some b'" by (auto split: option.splits)
  then show ?case
    using Cons.IH [OF b1(2) pool_inv_step [OF b1(1) Cons.prems(2)] Cons.prems(3)] stranded_step [OF b1(1) Cons.prems(2-6)] by simp
qed simp

section \<open>Properties\<close>

text \<open>
  C34: Every closure given to the blocking pool is run at most once and in the order of its queue,
  however callers and workers interleave, on any number of threads: no two pushes are of one call,
  what a worker has started followed by what its queue holds is exactly what was pushed to it, in
  order, and no closure completes twice.  A worker that is asleep with a closure in its queue has
  its token set, or a caller is between its push and its unpark, so the closure is not lost.
\<close>

theorem blocking_exactly_once:
  assumes "pool_reachable n b"
  shows "distinct (map snd (pushes (plog b))) \<and> distinct (map fst (completions (plog b))) \<and>
    (\<forall>i < n. on_worker i (pushes (plog b)) =
       on_worker i (starts (plog b)) @ map task_sender (wqueue (workers b ! i))) \<and>
    (\<forall>i < n. wphase (workers b ! i) = AtPark \<and> wqueue (workers b ! i) \<noteq> [] \<longrightarrow>
       wtoken (workers b ! i) \<or> UnparkWorker i \<in> set (callers b))"
proof -
  have "pool_inv n b" by (rule pool_reachable_inv [OF assms])
  then show ?thesis by (simp add: pool_inv_def pool_shape_def pool_fifo_def pool_finish_def pool_awake_def)
qed

text \<open>
  C35: A closure that was pushed completes.  When no caller is about to unpark a worker that has not
  died, the worker on its own, its closures returning, comes to rest within two steps for each
  closure of its queue and one more; its queue is then empty and everything ever pushed to it has
  completed.
\<close>

theorem blocking_drains:
  assumes "pool_reachable n b" "i < n" "wphase (workers b ! i) \<noteq> Dead" "UnparkWorker i \<notin> set (callers b)"
    and "2 * length (wqueue (workers b ! i)) + 1 \<le> fuel"
  shows "wqueue (workers (work fuel res i b) ! i) = [] \<and>
    (\<forall>j. (i, j) \<in> set (pushes (plog b)) \<longrightarrow> j \<in> fst ` set (completions (plog (work fuel res i b))))"
proof -
  have "work_left i b \<le> fuel" using assms(5) by (simp add: work_left_def)
  from work_drains [OF pool_reachable_inv [OF assms(1)] assms(2-4) this, of res]
  have w: "pool_inv n (work fuel res i b)" "work_idle i (work fuel res i b)"
    "pushes (plog (work fuel res i b)) = pushes (plog b)" by simp_all
  have "j \<in> fst ` set (completions (plog (work fuel res i b)))" if "(i, j) \<in> set (pushes (plog b))" for j
  proof -
    have "j \<in> set (on_worker i (starts (plog (work fuel res i b))))"
      using that w assms(2) by (simp add: pool_inv_def pool_shape_def pool_fifo_def work_idle_def flip: on_worker_mem)
    then show ?thesis
      using w assms(2) by (auto simp: pool_inv_def pool_shape_def pool_done_def work_idle_def)
  qed
  then show ?thesis using w(2) by (simp add: work_idle_def)
qed

text \<open>
  C36: What the handle of a call sees is the life of one join handle.  Until the closure completes
  every poll pends; the completion wakes the waker of the last of them, if any; the first poll after
  it gets exactly the value the closure returned and later polls pend.
\<close>

theorem blocking_result:
  assumes "pool_reachable n b"
  shows "if j \<in> fst ` set (completions (plog b))
    then \<exists>r ws vs. (j, r) \<in> set (completions (plog b)) \<and>
      slot_ops j (plog b) = map SlotPoll ws @ SlotComplete r # map SlotPoll vs \<and>
      slot_outs j (plog b) = replicate (length ws) OutPending @
        OutWoke (if ws = [] then None else Some (last ws)) #
        (case vs of [] \<Rightarrow> [] | v # vs' \<Rightarrow> OutReady r # replicate (length vs') OutPending)
    else \<exists>ws. slot_ops j (plog b) = map SlotPoll ws \<and> slot_outs j (plog b) = replicate (length ws) OutPending"
  by (rule blocking_slots [OF assms])

text \<open>
  C37: A panic strands a queue.  When a closure panics its worker is gone for good, but the pool keeps
  giving it work: neither that closure nor any other pushed to the worker and not yet completed ever
  completes, whatever happens next, so their handles pend at every poll and are never woken.  With no
  threads, as \<open>LION_BLOCKING_THREADS=0\<close> asks for, every call panics.
\<close>

theorem blocking_panic_strands:
  fixes b :: "('t, 'w) blocking"
  assumes "pool_reachable n b" "i < n" "wphase (workers b ! i) = Dead" "(i, j) \<in> set (pushes (plog b))"
    and "j \<notin> fst ` set (completions (plog b))" "pool_run ops b = Some b'"
  shows "wphase (workers b' ! i) = Dead \<and> j \<notin> fst ` set (completions (plog b')) \<and>
    set (slot_outs j (plog b')) \<subseteq> {OutPending} \<and>
    pool_run [PCall, PSpawn 0] (pool_new (global_pool_size (Some 0) p)) =
      Some ((pool_new 0)\<lparr>joins := [join_new], callers := [SpawnPanicked]\<rparr> :: ('t, 'w) blocking)"
proof -
  have "pool_inv n b" by (rule pool_reachable_inv [OF assms(1)])
  note s = stranded_run [OF assms(6) this assms(2-5)]
  then have "j \<notin> fst ` set (completions (plog b'))" by simp
  note blocking_slots [OF pool_run_reachable [OF assms(6,1)], of j, unfolded if_not_P [OF this]]
  then obtain k where "slot_outs j (plog b') = replicate k OutPending" by blast
  moreover have "pool_run [PCall, PSpawn 0] (pool_new (global_pool_size (Some 0) p)) =
      Some ((pool_new 0)\<lparr>joins := [join_new], callers := [SpawnPanicked]\<rparr> :: ('t, 'w) blocking)"
    by (simp add: global_pool_size_def pool_new_def spawn_call_def spawn_step_def caller_goes_def Let_def)
  ultimately show ?thesis using s by auto
qed

text \<open>Two closures on a pool of one worker; the second waits in the queue while the first runs.\<close>

definition two_closures :: "(nat, nat) pool_op list" where
  "two_closures = [PCall, PSpawn 0, PSpawn 0, PSpawn 0, PSpawn 0, PCall, PSpawn 1, PSpawn 1, PSpawn 1, PSpawn 1,
     PPoll 0 42, PWorker 0]"

lemma two_closures_run:
  obtains b :: "(nat, nat) blocking" where "pool_run two_closures (pool_new 1) = Some b" "pool_reachable 1 b"
    "wphase (workers b ! 0) = Running 0" "wqueue (workers b ! 0) = [Task 1]" "callers b = [SpawnReturned, SpawnReturned]"
    "plog b = [Pushed 0 0, Pushed 0 1, SlotUsed 0 (SlotPoll 42) OutPending, Started 0 0]" "length (workers b) = 1"
proof -
  obtain b :: "(nat, nat) blocking" where b: "pool_run two_closures (pool_new 1) = Some b"
    "wphase (workers b ! 0) = Running 0" "wqueue (workers b ! 0) = [Task 1]" "callers b = [SpawnReturned, SpawnReturned]"
    "plog b = [Pushed 0 0, Pushed 0 1, SlotUsed 0 (SlotPoll 42) OutPending, Started 0 0]" "length (workers b) = 1"
    by (simp add: two_closures_def pool_new_def pool_worker_new_def spawn_call_def spawn_step_def caller_goes_def
        upd_worker_def note_event_def worker_step_def handle_polled_def use_slot_def join_poll_def join_new_def Let_def)
  show thesis by (rule that [OF b(1) pool_run_reachable [OF b(1) pool_start] b(2-6)])
qed

theorem blocking_exactly_once_witness:
  "\<exists>b :: (nat, nat) blocking. pool_reachable 1 b \<and> on_worker 0 (starts (plog b)) = [0] \<and>
     on_worker 0 (pushes (plog b)) = [0] @ map task_sender (wqueue (workers b ! 0))"
proof -
  obtain b :: "(nat, nat) blocking" where b: "pool_reachable 1 b" "plog b = [Pushed 0 0, Pushed 0 1, SlotUsed 0 (SlotPoll 42) OutPending, Started 0 0]"
    using two_closures_run by metis
  have "on_worker 0 (starts (plog b)) = [0]" by (simp add: b(2) log_reads)
  with blocking_exactly_once [OF b(1)] b(1) show ?thesis by auto
qed

theorem blocking_drains_witness:
  "\<exists>b :: (nat, nat) blocking. wqueue (workers b ! 0) = [Task 1] \<and> wqueue (workers (work 3 (\<lambda>j. j) 0 b) ! 0) = [] \<and>
     {0, 1} \<subseteq> fst ` set (completions (plog (work 3 (\<lambda>j. j) 0 b)))"
proof -
  obtain b :: "(nat, nat) blocking" where b: "pool_reachable 1 b" "wphase (workers b ! 0) = Running 0" "wqueue (workers b ! 0) = [Task 1]"
    "callers b = [SpawnReturned, SpawnReturned]"
    "plog b = [Pushed 0 0, Pushed 0 1, SlotUsed 0 (SlotPoll 42) OutPending, Started 0 0]"
    using two_closures_run by metis
  have "set (pushes (plog b)) = {(0, 0), (0, 1)}" by (auto simp: b(5) log_reads)
  with blocking_drains [OF b(1), of 0 3 "\<lambda>j. j"] b show ?thesis by (intro exI [of _ b]) simp
qed

theorem blocking_result_witness:
  "\<exists>b :: (nat, nat) blocking. pool_reachable 1 b \<and> 0 \<notin> fst ` set (completions (plog b)) \<and>
     (\<exists>ws. slot_ops 0 (plog b) = map SlotPoll ws \<and> slot_outs 0 (plog b) = replicate (length ws) OutPending)"
proof -
  obtain b :: "(nat, nat) blocking" where b: "pool_reachable 1 b" "plog b = [Pushed 0 0, Pushed 0 1, SlotUsed 0 (SlotPoll 42) OutPending, Started 0 0]"
    using two_closures_run by metis
  have c: "0 \<notin> fst ` set (completions (plog b))" by (simp add: b(2) log_reads)
  from blocking_result [OF b(1), of 0] c b(1) show ?thesis by auto
qed

theorem blocking_panic_strands_witness:
  "\<exists>b b' :: (nat, nat) blocking. pool_run [PEnds 0 None] b = Some b' \<and> wqueue (workers b' ! 0) = [Task 1] \<and>
     wphase (workers b' ! 0) = Dead \<and> 1 \<notin> fst ` set (completions (plog b'))"
proof -
  obtain b :: "(nat, nat) blocking" where b: "pool_reachable 1 b" "wphase (workers b ! 0) = Running 0" "wqueue (workers b ! 0) = [Task 1]"
    "plog b = [Pushed 0 0, Pushed 0 1, SlotUsed 0 (SlotPoll 42) OutPending, Started 0 0]" "length (workers b) = 1"
    using two_closures_run by metis
  obtain b' where b': "pool_run [PEnds 0 None] b = Some b'" "wqueue (workers b' ! 0) = [Task 1]"
    "wphase (workers b' ! 0) = Dead" "plog b' = plog b"
    using b(2,3,5) by (simp add: closure_ends_def nth_upd)
  have "(0, 1) \<in> set (pushes (plog b'))" "1 \<notin> fst ` set (completions (plog b'))" by (simp_all add: b'(4) b(4) log_reads)
  from blocking_panic_strands [OF pool_run_reachable [OF b'(1) b(1)] _ b'(3) this, where ops = "[]" and b' = b' and p = None] b'(1)
  have "wphase (workers b' ! 0) = Dead" "1 \<notin> fst ` set (completions (plog b'))" by simp_all
  with b'(1,2) show ?thesis by blast
qed

end
