(* ===== verification/Multi.thy ===== *)
theory Multi
  imports Executor
begin

text \<open>
  The multi-thread runtime (\<^verbatim>\<open>lion/src/multi.rs\<close>): one executor per thread, and a handle that gives
  futures to them in turn.  The counter is an atomic that wraps.  Shown: while it has not wrapped,
  every executor gets every n-th future, in order.
\<close>

section \<open>State and operations\<close>

record ('f, 'r) multi =
  threads :: "('f, 'r) world list"
  mnext :: u64

text \<open>\<open>MultiRuntime::new\<close> asserts that there is a thread; \<open>runtime i\<close> is the runtime thread \<open>i\<close> makes.\<close>

definition multi_new :: "nat \<Rightarrow> (nat \<Rightarrow> ('f, 'r) world) \<Rightarrow> ('f, 'r) multi option" where
  "multi_new num_threads runtime =
     (if num_threads \<ge> 1 then Some \<lparr>threads = map runtime [0 ..< num_threads], mnext = 0\<rparr> else None)"

definition multi_spawn :: "'f \<Rightarrow> ('f, 'r) multi \<Rightarrow> ('f, 'r) multi" where
  "multi_spawn fut m =
     (let idx = unat (mnext m) mod length (threads m)
      in m\<lparr>mnext := mnext m + 1, threads := (threads m)[idx := spawn fut (threads m ! idx)]\<rparr>)"

definition executor_handle :: "('f, 'r) multi \<Rightarrow> ('f, 'r) world" where
  "executor_handle m = threads m ! 0"

section \<open>Round robin\<close>

definition given :: "'f list \<Rightarrow> nat \<Rightarrow> nat \<Rightarrow> 'f list" where
  "given fs n i = map ((!) fs) (filter (\<lambda>j. j mod n = i) [0 ..< length fs])"

lemma given_snoc: "given (fs @ [f]) n i = given fs n i @ (if length fs mod n = i then [f] else [])"
  by (auto simp: given_def nth_append)

lemma spawn_injects: "injection_queue (spawn f w) = injection_queue w @ [\<lparr>task_id = task_id_counter w, future = f\<rparr>]"
  by (simp add: spawn_def Let_def)

lemma multi_round_robin:
  assumes "multi_new n runtime = Some m" "length fs < 2 ^ 64" "i < n"
  shows "map future (injection_queue (threads (fold multi_spawn fs m) ! i)) =
    map future (injection_queue (runtime i)) @ given fs n i"
proof -
  have n: "0 < n" and m: "m = \<lparr>threads = map runtime [0 ..< n], mnext = 0\<rparr>"
    using assms(1) by (auto simp: multi_new_def split: if_splits)
  have "length (threads (fold multi_spawn fs m)) = n \<and> unat (mnext (fold multi_spawn fs m)) = length fs \<and>
      (\<forall>i < n. map future (injection_queue (threads (fold multi_spawn fs m) ! i)) =
        map future (injection_queue (runtime i)) @ given fs n i)"
    using assms(2)
  proof (induction fs rule: rev_induct)
    case Nil
    then show ?case by (simp add: m given_def)
  next
    case (snoc f fs)
    let ?m = "fold multi_spawn fs m"
    have IH: "length (threads ?m) = n" "unat (mnext ?m) = length fs"
      "\<forall>i < n. map future (injection_queue (threads ?m ! i)) = map future (injection_queue (runtime i)) @ given fs n i"
      using snoc by simp_all
    have "unat (mnext ?m + 1) = Suc (length fs)" using IH(2) snoc.prems by (simp add: unat_word_ariths)
    then show ?case using IH n by (auto simp: multi_spawn_def [of f ?m] Let_def nth_list_update spawn_injects given_snoc)
  qed
  then show ?thesis using assms(3) by blast
qed

end
