(* ===== verification/Spec2Isabelle.thy ===== *)
theory Spec2Isabelle
  imports Timer_Queue Runtime Semaphore Notify Bounded Oneshot Watch Broadcast Interval Net_Stream
    Mpsc Reactor_Log_Props Blocking_Props Multi
begin

text \<open>
  Verification of Lion, an asynchronous runtime in Rust.

  \<^bold>\<open>The program.\<close>  A runtime (\<^verbatim>\<open>lion-executor/src/lib.rs\<close>) owns an executor and a reactor, one pair per thread.
  The executor (\<^verbatim>\<open>lion-executor/src/executor\<close>) accepts injected tasks, polls ready tasks from first-in
  first-out queues, and parks in the reactor when nothing is ready.  The reactor (\<^verbatim>\<open>lion-reactor/src\<close>) keeps a table of
  timers and I/O sources (\<^verbatim>\<open>resources/\<close>, over \<^verbatim>\<open>lion-slab\<close>), orders timers in a hierarchical wheel
  (\<^verbatim>\<open>lion-timer-wheel\<close>), and turns expired deadlines and events of the operating system into wakes.  A wake
  (\<^verbatim>\<open>lion-executor/src/types/waker.rs\<close>, \<^verbatim>\<open>tls.rs\<close>) puts a task into a ready queue of its thread, or into the
  cross-thread queue with an interrupt of the reactor.  The utilities (\<^verbatim>\<open>lion-utility/src\<close>) are what programs use:
  locks and channels (\<^verbatim>\<open>sync/\<close>), sleeps and intervals (\<^verbatim>\<open>time/\<close>), sockets (\<^verbatim>\<open>net/\<close>); each is a small kernel that
  decides and logs, and glue that moves the data, the wakers and the reactor's registrations.  Work that would
  block goes to a pool of threads (\<^verbatim>\<open>lion-executor/src/blocking.rs\<close>); its result comes back through a join handle, as
  that of a spawned task does.  \<^verbatim>\<open>lion/src/multi.rs\<close> runs one executor per thread.

  \<^bold>\<open>Theories, from the bottom.\<close>
  \<^item> \<open>Prelude\<close>: the operations of \<open>Vec\<close>, \<open>Option\<close> and \<open>u64\<close> the sources use; shared lemmas on words.
    \<open>Keyed_Store\<close>: the locale of a store (what a lookup returns after an insertion or a removal), interpreted on
    the slab and on the offset vector map.
  \<^item> \<open>Slab\<close> (\<^verbatim>\<open>lion-slab/src/slab.rs\<close>), \<open>Vec_Map\<close>, \<open>Timer_Wheel\<close> (\<^verbatim>\<open>lion-timer-wheel/src\<close>): data and operations.
    \<open>Wheel_Inv\<close>, \<open>Wheel_Ops\<close>, \<open>Wheel_Advance\<close>, \<open>Wheel_Min\<close>: the source's invariant and its preservation by
    insertion, removal, the cascading advance and the minimum scan.  \<open>Timer_Queue\<close>: the locale of a timer queue,
    interpreted on the wheel; a pop returns a due timer exactly when there is one, the next deadline is the
    minimum, every run keeps the invariant.
  \<^item> \<open>Tid_Ledger\<close>, \<open>Exec_Log\<close>, \<open>Tls\<close>, \<open>Executor\<close> (\<^verbatim>\<open>lion-executor/src\<close>, \<^verbatim>\<open>lion-executor-spec/src\<close>): the ledger of
    injected ids, the event log with the nine invariants of the specification crate, the ready queues with their
    notified flags, and the whole tick.  \<open>Executor_Inv\<close>, \<open>Executor_Live\<close>, \<open>Executor_Wakes\<close>, \<open>Executor_Props\<close>:
    every run of ticks keeps the nine invariants, a tick ends, a ready task is polled within a bound, no wake is
    lost.  \<open>Block_On\<close> (\<open>Runtime::block_on\<close> of \<^verbatim>\<open>lib.rs\<close>): the loop that polls the root future and ticks in turn, as a
    function, as a number of rounds, and as a relation of steps over any number of calls; the invariants hold
    between the steps, and a ready task is polled within a bound of rounds.
  \<^item> \<open>Reactor_Types\<close>, \<open>Resource_Slab\<close>, \<open>Reactor\<close> (\<^verbatim>\<open>lion-reactor/src\<close>): time, readiness, the resource table,
    registration, deferred deregistration, park.  \<open>Reactor_Inv\<close>, \<open>Reactor_Ops\<close>, \<open>Reactor_Park\<close>,
    \<open>Reactor_Props\<close>: the data invariant, and a simulation of an abstract reactor with a map of timers, a map of
    sources and a list of wakes; timers fire once, on time, with the right waker.
  \<^item> \<open>Reactor_Log\<close> (\<^verbatim>\<open>lion-reactor-spec/src\<close>, \<^verbatim>\<open>lion-reactor/src/invariants/mod.rs\<close>): the conditions R1 to R17 on the
    reactor's log, anchored at the client's calls and at the system calls, and the bridge between the two.
    \<open>Reactor_Monitor\<close> reads a log from the left (what is registered, the last wakers, what an event is owed) and
    says what a next entry may be; \<open>Reactor_Lawful\<close>: such logs satisfy the conditions; \<open>Reactor_Log_Inv\<close>: the
    reactor writes such logs.  \<open>Reactor_Log_Props\<close>: every run of the reactor's own calls satisfies all conditions,
    every run of the handle layer all but R5 and R16, and two runs break these.  The invariant that
    \<^verbatim>\<open>lion-liveness/src/reactor/invariants/mod.rs\<close> starts from holds as well while resource ids last; when they
    have run out, its R12 for every return fails (\<open>overflow_unmatched\<close>).
  \<^item> \<open>Join_Handle\<close> (\<^verbatim>\<open>types/join_handle.rs\<close>): the slot between a piece of work and who waits for it; the locale
    \<open>result_slot\<close>.  \<open>Blocking\<close>, \<open>Blocking_Props\<close> (\<^verbatim>\<open>blocking.rs\<close>): callers and workers interleave at each access of
    shared state; closures run once and in order, none is forgotten by a worker that sleeps, the handle gets the
    result; a panic strands the queue of its worker.  \<open>Multi\<close>: futures go to the executors in turn.
  \<^item> \<open>Runtime\<close>: executor and reactor composed; both invariants hold at every point between the root polls and the
    ticks of every run of \<open>block_on\<close>, and a task that armed a timer is polled after the deadline.
  \<^item> \<open>Utility_Log\<close> (\<^verbatim>\<open>lion-utility-spec/src/generic\<close>): the log of a utility, the wakeup guarantee and resource
    ownership.  \<open>Waiter\<close> (\<^verbatim>\<open>sync/waiter\<close>): the waiter kernel; the locale \<open>permit_queue\<close> is what its users rely on.
    \<open>Waiting\<close>, \<open>Semaphore\<close>, \<open>Notify\<close>: semaphore, mutex and notify; permits are conserved, a mutex is held at
    most once, waiters are served in order, notifications are not lost; one theorem exhibits a lost wake.
  \<^item> \<open>Parking\<close>: a kernel with its table of wakers; the locale \<open>parking_lot\<close>.  \<open>Channel\<close>, \<open>Mpsc\<close>, \<open>Bounded\<close>
    (\<^verbatim>\<open>sync/channel_kernel.rs\<close>, \<^verbatim>\<open>sync/mpsc.rs\<close>): the unbounded and the bounded channel are queues, a free slot
    always has a sender on its way to it.  \<open>Oneshot\<close>: at most one value, delivered once.
    \<open>Subscribers\<close>: the locale \<open>subscription\<close> of a poll that parks when there is nothing to see, interpreted on
    \<open>Watch\<close> (no update is missed) and \<open>Broadcast\<close> (what a receiver reads is exactly determined).
  \<^item> \<open>Sleep\<close>, \<open>Interval\<close> (\<^verbatim>\<open>time/\<close>) and \<open>Net\<close> (\<^verbatim>\<open>net/tcp\<close>, \<^verbatim>\<open>net/udp.rs\<close>): the kernels keep the two log invariants,
    and the futures are composed with the reactor: a sleep is woken exactly when its deadline has come, an interval
    does not drift, a socket that pends is woken by the next event of its direction.
    \<open>Net_Stream\<close>: the owned halves of a stream, \<open>try_io\<close> and \<open>yield_now\<close>.

  \<^bold>\<open>How the code is read.\<close>  Each function is one definition, with its early returns as branches.  State is passed
  explicitly; a struct is a record, an enum a datatype.  A panic (\<open>unwrap\<close>, \<open>expect\<close>, a call outside of the
  reactor's context) is \<open>None\<close> or a result of its own.  \<open>u64\<close> values are 64-bit words and wrap as in a release build;
  \<open>usize\<close> lengths and indices are natural numbers.  Loops are total functions with a measure; the injection loop of a tick and the loop
  of \<open>block_on\<close>, which may not end, are partial functions to \<open>option\<close>.  The only counts are the ticks, the rounds of
  \<open>block_on\<close> and the steps of a worker of the pool that a theorem lets run.
  Operations under a mutex are atomic; a run of a utility is a list of such operations, in any order that
  ownership and borrowing allow, and each call of \<open>wake\<close> is recorded.  The address of a future that \<open>Arc\<close> flags are
  compared by is its key in a map.  Futures of user code, other threads, the operating system (\<open>mio\<close>, the clock,
  system calls) are parameters.  Theorems on runs of the locks and channels bound the number of operations by \<open>2 ^ 64\<close>, because
  waiter ids are a 64-bit counter, and those on the semaphore the initial and added permits as well: the counter of
  free permits wraps beyond (\<open>permits_wrap\<close>).  The theorems on \<open>ticks\<close> are about consecutive ticks of the executor;
  what \<open>block_on\<close> does between the ticks, the poll of the root future, is in those on \<open>block_on_rounds\<close> and
  \<open>block_on_run\<close>.  Liveness of the executor assumes that the other threads stop spawning at some point
  (\<open>sends_stop\<close>), because a producer that never stops keeps the injection loop of one tick going
  (\<^verbatim>\<open>tick.rs\<close>, \<open>pop_injection\<close>).

  \<^bold>\<open>Not modelled.\<close>  Files, name resolution and socket options (one system call each, handed to the pool or made at
  once); the re-exports of the facade, the start and the shutdown of threads and the macros (plumbing); the proof
  functions of the specification and implementation crates and the crate of composed liveness (ghost code of another
  verifier: what its predicates say is modelled, what its proofs show is proved here in its own way); benchmarks,
  stress tests and mutation tests; a panic of a user's future within a poll (a closure of the blocking pool may
  panic), and a call of \<open>block_on\<close> from within a future.  Where a lock is taken twice in one function the second
  section is a definition of its own, except for \<open>Sender::send\<close> of the oneshot channel, whose two sections (the send
  and the destructor) are one step.  The loop of a worker of the pool never ends, so it is a relation of single steps; the theorem on what a
  worker left to itself completes counts its steps, two for each closure in its queue and one more.
\<close>

end
